(* ===== verification/Journal_Prelude.thy ===== *)
theory Journal_Prelude
  imports Main "HOL-Library.Word"
begin

text \<open>
  Shared vocabulary of the development: the machine types of the Rust sources, the error enumeration
  of \<^verbatim>\<open>journal-core/src/error.rs\<close>, the \<open>Result\<close> type with its bind (Rust's \<open>?\<close>), checked and
  saturating arithmetic on unsigned words, little-endian decoding, and the generic list and word
  lemmas the components use.

  Conventions.  A \<open>u64\<close> offset is a \<open>64 word\<close>; \<open>NonZeroU64\<close> is a \<open>u64\<close> whose users establish
  that it is not zero, and \<open>Option<NonZeroU64>\<close> is an option, decoded by \<open>nonzero\<close>.  A \<open>usize\<close>
  used as an index or a count is a \<open>nat\<close>.
\<close>

unbundle bit_operations_syntax

named_theorems result_simps \<open>unfolding and case analysis of results\<close>

type_synonym u8 = "8 word"
type_synonym u32 = "32 word"
type_synonym u64 = "64 word"

section \<open>Errors and results\<close>

datatype io_kind = UnexpectedEof | OtherIo

text \<open>
  The variants of the source's enumeration, and \<open>Panic\<close>, which is not one of them: it stands for a
  Rust panic (an index out of range, a failed assertion), so that absence of panics can be stated.
\<close>

datatype JournalError =
    Panic
  | WriterPoisoned
  | InvalidMagicNumber
  | InvalidJournalFileState
  | UnsupportedJournalFile
  | InvalidObjectType
  | InvalidObjectSize u64
  | ObjectExceedsFileBounds
  | InvalidObjectLocation
  | InvalidZeroCopySize
  | ValueGuardInUse
  | Io io_kind
  | MissingHashTable
  | MissingObjectFromHashTable
  | InvalidOffsetArrayOffset
  | InvalidOffsetArrayIndex
  | EmptyOffsetArrayList
  | EmptyOffsetArrayNode
  | EmptyInlineCursor
  | UnsetCursor
  | MalformedFilter
  | InvalidField
  | DecompressorError
  | OutOfBoundsIndex
  | InvalidOffset
  | CyclicObjectChain
  | ZerocopyFailure
  | MisalignedOffset u64
  | SigbusHandlerError
  | UnknownCompressionMethod
  | UuidSerde
  | InvalidFilename
  | DirectoryNotFound
  | NotADirectory
  | InvalidQueryConfiguration
  | FssVerificationError

type_synonym 'a result = "JournalError + 'a"

abbreviation Err :: "JournalError \<Rightarrow> 'a result" where
  "Err \<equiv> Inl"

abbreviation Ok :: "'a \<Rightarrow> 'a result" where
  "Ok \<equiv> Inr"

definition rbind :: "'a result \<Rightarrow> ('a \<Rightarrow> 'b result) \<Rightarrow> 'b result" where
  "rbind m k = (case m of Inl e \<Rightarrow> Inl e | Inr x \<Rightarrow> k x)"

definition ok_or :: "'a option \<Rightarrow> JournalError \<Rightarrow> 'a result" where
  "ok_or x e = (case x of None \<Rightarrow> Err e | Some y \<Rightarrow> Ok y)"

lemma rbind_simps [simp, result_simps]:
  "rbind (Inl e) k = Inl e"
  "rbind (Inr x) k = k x"
  by (simp_all add: rbind_def)

lemma rbind_cong [fundef_cong]:
  assumes "m = m'" and "\<And>x. m' = Inr x \<Longrightarrow> k x = k' x"
  shows "rbind m k = rbind m' k'"
  using assms by (cases m') (simp_all add: rbind_def)

lemma rbind_eq_Ok [result_simps]:
  "rbind m k = Inr y \<longleftrightarrow> (\<exists>x. m = Inr x \<and> k x = Inr y)"
  by (cases m) simp_all

lemma rbind_eq_Err [result_simps]:
  "rbind m k = Inl e \<longleftrightarrow> m = Inl e \<or> (\<exists>x. m = Inr x \<and> k x = Inl e)"
  by (cases m) simp_all

lemma rbind_Ok_right [simp]: "rbind m Inr = m"
  by (cases m) simp_all

lemma rbind_assoc: "rbind (rbind m f) g = rbind m (\<lambda>x. rbind (f x) g)"
  by (cases m) simp_all

lemma ok_or_simps [simp, result_simps]:
  "ok_or None e = Inl e"
  "ok_or (Some x) e = Inr x"
  by (simp_all add: ok_or_def)

lemma ok_or_eq_Ok [result_simps]: "ok_or x e = Inr y \<longleftrightarrow> x = Some y"
  by (cases x) simp_all

lemma ok_or_eq_Err [result_simps]: "ok_or x e = Inl e' \<longleftrightarrow> x = None \<and> e' = e"
  by (cases x) auto

section \<open>Unsigned machine arithmetic\<close>

definition u64_max :: u64 where
  "u64_max = - 1"

definition checked_add :: "'a::len word \<Rightarrow> 'a word \<Rightarrow> 'a word option" where
  "checked_add a b = (if unat a + unat b < 2 ^ LENGTH('a) then Some (a + b) else None)"

definition saturating_add :: "'a::len word \<Rightarrow> 'a word \<Rightarrow> 'a word" where
  "saturating_add a b = (if unat a + unat b < 2 ^ LENGTH('a) then a + b else - 1)"

definition saturating_sub :: "'a::len word \<Rightarrow> 'a word \<Rightarrow> 'a word" where
  "saturating_sub a b = (if a < b then 0 else a - b)"

definition nonzero :: "'a::len word \<Rightarrow> 'a word option" where
  "nonzero x = (if x = 0 then None else Some x)"

definition count_ones :: "'a::len word \<Rightarrow> nat" where
  "count_ones w = length (filter (bit w) [0..<LENGTH('a)])"

definition is_power_of_two :: "'a::len word \<Rightarrow> bool" where
  "is_power_of_two w \<longleftrightarrow> count_ones w = 1"

lemma unat_checked_add:
  fixes a b :: "'a::len word"
  assumes "checked_add a b = Some c"
  shows "unat c = unat a + unat b"
  using assms by (auto simp: checked_add_def unat_word_ariths split: if_splits)

lemma checked_add_eq_None:
  fixes a b :: "'a::len word"
  shows "checked_add a b = None \<longleftrightarrow> 2 ^ LENGTH('a) \<le> unat a + unat b"
  by (simp add: checked_add_def not_less)

lemma nonzero_eq_Some [simp]: "nonzero x = Some y \<longleftrightarrow> y = x \<and> x \<noteq> 0"
  by (auto simp: nonzero_def)

lemma nonzero_eq_None [simp]: "nonzero x = None \<longleftrightarrow> x = 0"
  by (auto simp: nonzero_def)

lemma unat_ucast_u32 [simp]: "unat (ucast (n :: u32) :: u64) = unat n"
proof -
  have "unat n < 2 ^ 32" using unsigned_less [of n, where ?'a = nat] by simp
  then show ?thesis by (simp add: unsigned_ucast_eq take_bit_nat_eq_self)
qed

lemma unat_u64_max: "unat u64_max = 2 ^ 64 - 1"
  by (simp add: u64_max_def unsigned_minus_1_eq_mask mask_eq_exp_minus_1)

lemma unat_u64_less: "unat (w :: u64) < 2 ^ 64"
  using unsigned_less [of w, where ?'a = nat] by simp

lemma unat_plus_one:
  fixes w :: "'a::len word"
  assumes "w \<noteq> - 1"
  shows "unat (w + 1) = Suc (unat w)"
  using assms by (metis unatSuc add.commute add_eq_0_iff)

lemma count_ones_card: "count_ones (w :: 'a::len word) = card {n. n < LENGTH('a) \<and> bit w n}"
proof -
  have "set (filter (bit w) [0..<LENGTH('a)]) = {n. n < LENGTH('a) \<and> bit w n}"
    by auto
  then show ?thesis
    by (metis count_ones_def distinct_card distinct_filter distinct_upt)
qed

lemma is_power_of_two_iff:
  "is_power_of_two (w :: 'a::len word) \<longleftrightarrow> (\<exists>k < LENGTH('a). w = 2 ^ k)"
proof
  assume "is_power_of_two w"
  then obtain k where k: "{n. n < LENGTH('a) \<and> bit w n} = {k}"
    by (auto simp: is_power_of_two_def count_ones_card card_1_singleton_iff)
  have kl: "k < LENGTH('a)" using k by blast
  have "w = 2 ^ k"
  proof (rule bit_word_eqI)
    fix n assume "n < LENGTH('a)"
    then have "bit w n \<longleftrightarrow> n = k" using k by blast
    then show "bit w n \<longleftrightarrow> bit (2 ^ k :: 'a word) n"
      using kl \<open>n < LENGTH('a)\<close> by (auto simp: bit_exp_iff)
  qed
  with kl show "\<exists>k < LENGTH('a). w = 2 ^ k" by blast
next
  assume "\<exists>k < LENGTH('a). w = 2 ^ k"
  then obtain k where "k < LENGTH('a)" and w: "w = 2 ^ k" by blast
  then have "{n. n < LENGTH('a) \<and> bit w n} = {k}"
    by (auto simp: bit_exp_iff)
  then show "is_power_of_two w"
    by (simp add: is_power_of_two_def count_ones_card)
qed

lemma unat_power_of_two:
  "k < LENGTH('a) \<Longrightarrow> unat (2 ^ k :: 'a::len word) = 2 ^ k"
  using unat_of_nat [where 'a = 'a, of "2 ^ k"] by simp

lemma is_power_of_two_unat:
  "is_power_of_two (w :: 'a::len word) \<longleftrightarrow> (\<exists>k. unat w = 2 ^ k)"
proof
  assume "is_power_of_two w"
  then show "\<exists>k. unat w = 2 ^ k"
    by (auto simp: is_power_of_two_iff unat_power_of_two)
next
  assume "\<exists>k. unat w = 2 ^ k"
  then obtain k where k: "unat w = 2 ^ k" by blast
  then have "k < LENGTH('a)"
    using unsigned_less [of w, where ?'a = nat] by simp
  moreover from k this have "w = 2 ^ k"
    by (metis unat_power_of_two unsigned_word_eqI)
  ultimately show "is_power_of_two w"
    by (auto simp: is_power_of_two_iff)
qed

section \<open>Loops over slices that stop at the first error\<close>

fun rforM :: "('a \<Rightarrow> unit result) \<Rightarrow> 'a list \<Rightarrow> unit result" where
  "rforM f [] = Ok ()"
| "rforM f (x # xs) = rbind (f x) (\<lambda>_. rforM f xs)"

fun rmapM :: "('a \<Rightarrow> 'b result) \<Rightarrow> 'a list \<Rightarrow> 'b list result" where
  "rmapM f [] = Ok []"
| "rmapM f (x # xs) = rbind (f x) (\<lambda>y. rbind (rmapM f xs) (\<lambda>ys. Ok (y # ys)))"

lemma rforM_Ok: "rforM f xs = Inr u \<longleftrightarrow> (\<forall>x \<in> set xs. f x = Inr ())"
  by (induction xs) (auto simp: rbind_eq_Ok)

lemma rforM_cong [fundef_cong]:
  "xs = ys \<Longrightarrow> (\<And>x. x \<in> set ys \<Longrightarrow> f x = g x) \<Longrightarrow> rforM f xs = rforM g ys"
  by (induction xs arbitrary: ys) auto

lemma rmapM_cong [fundef_cong]:
  "xs = ys \<Longrightarrow> (\<And>x. x \<in> set ys \<Longrightarrow> f x = g x) \<Longrightarrow> rmapM f xs = rmapM g ys"
  by (induction xs arbitrary: ys) auto

lemma rmapM_Ok: "rmapM f xs = Inr ys \<longleftrightarrow> list_all2 (\<lambda>x y. f x = Inr y) xs ys"
  by (induction xs arbitrary: ys) (auto simp: rbind_eq_Ok list_all2_Cons1)

section \<open>Operations on mutable state\<close>

text \<open>
  A method with \<open>&mut self\<close> (or interior mutability) is a function from the state to a result and
  the state it leaves behind, which is kept when the method fails.
\<close>

type_synonym ('s, 'a) op = "'s \<Rightarrow> 'a result \<times> 's"

definition sret :: "'a \<Rightarrow> ('s, 'a) op" where
  "sret x s = (Ok x, s)"

definition sfail :: "JournalError \<Rightarrow> ('s, 'a) op" where
  "sfail e s = (Err e, s)"

definition slift :: "'a result \<Rightarrow> ('s, 'a) op" where
  "slift r s = (r, s)"

definition sget :: "('s \<Rightarrow> 'a) \<Rightarrow> ('s, 'a) op" where
  "sget f s = (Ok (f s), s)"

definition smodify :: "('s \<Rightarrow> 's) \<Rightarrow> ('s, unit) op" where
  "smodify f s = (Ok (), f s)"

definition sbind :: "('s, 'a) op \<Rightarrow> ('a \<Rightarrow> ('s, 'b) op) \<Rightarrow> ('s, 'b) op" where
  "sbind m k s = (case m s of (Inl e, s') \<Rightarrow> (Inl e, s') | (Inr x, s') \<Rightarrow> k x s')"

named_theorems op_simps \<open>running stateful operations\<close>

lemma op_run [op_simps]:
  "sret x s = (Ok x, s)" "sfail e s = (Err e, s)" "slift r s = (r, s)" "sget g s = (Ok (g s), s)"
  "smodify f s = (Ok (), f s)"
  by (simp_all add: sret_def sfail_def slift_def sget_def smodify_def)

lemma sbind_run [op_simps]:
  "m s = (Inl e, s') \<Longrightarrow> sbind m k s = (Inl e, s')"
  "m s = (Inr x, s') \<Longrightarrow> sbind m k s = k x s'"
  by (simp_all add: sbind_def)

lemma sbind_cong [fundef_cong]:
  assumes "m s = m' s'" and "s = s'" and "\<And>x t. m' s' = (Inr x, t) \<Longrightarrow> k x t = k' x t"
  shows "sbind m k s = sbind m' k' s'"
  using assms by (auto simp: sbind_def split: prod.split sum.split)

text \<open>\<open>holds m s Q E\<close>: run from \<open>s\<close>, the operation ends in \<open>Q\<close> if it succeeds and in \<open>E\<close> if it fails.\<close>

definition holds :: "('s, 'a) op \<Rightarrow> 's \<Rightarrow> ('a \<Rightarrow> 's \<Rightarrow> bool) \<Rightarrow> (JournalError \<Rightarrow> 's \<Rightarrow> bool) \<Rightarrow> bool" where
  "holds m s Q E \<longleftrightarrow> (case m s of (Inl e, s') \<Rightarrow> E e s' | (Inr x, s') \<Rightarrow> Q x s')"

lemma holds_sbind:
  assumes "holds m s Q E" and "\<And>x t. Q x t \<Longrightarrow> holds (k x) t R E"
  shows "holds (sbind m k) s R E"
  using assms by (fastforce simp: holds_def sbind_def split: prod.splits sum.splits)

lemma holds_basic [simp]:
  "holds (sret x) s Q E \<longleftrightarrow> Q x s"
  "holds (sfail e) s Q E \<longleftrightarrow> E e s"
  "holds (sget g) s QG E \<longleftrightarrow> QG (g s) s"
  "holds (smodify f) s QM E \<longleftrightarrow> QM () (f s)"
  by (simp_all add: holds_def op_run)

lemma holds_slift: "holds (slift r) s Q E \<longleftrightarrow> (case r of Inl e \<Rightarrow> E e s | Inr x \<Rightarrow> Q x s)"
  by (simp add: holds_def op_run)

lemma holds_bind_pure [simp]:
  "holds (sbind (sget g) k) s R E \<longleftrightarrow> holds (k (g s)) s R E"
  "holds (sbind (smodify f) k') s R E \<longleftrightarrow> holds (k' ()) (f s) R E"
  "holds (sbind (slift (Inr x)) k'') s R E \<longleftrightarrow> holds (k'' x) s R E"
  "holds (sbind (sret x) k'') s R E \<longleftrightarrow> holds (k'' x) s R E"
  "holds (sbind (slift (Inl e)) k'') s R E \<longleftrightarrow> E e s"
  by (simp_all add: holds_def sbind_def op_run)

lemma holds_mono:
  assumes "holds m s Q E" and "\<And>x t. Q x t \<Longrightarrow> Q' x t" and "\<And>e t. E e t \<Longrightarrow> E' e t"
  shows "holds m s Q' E'"
  using assms by (auto simp: holds_def split: prod.splits sum.splits)

section \<open>Positions in slices\<close>

text \<open>\<open>iter().position\<close>: the first index whose element satisfies the test.\<close>

fun position :: "('a \<Rightarrow> bool) \<Rightarrow> 'a list \<Rightarrow> nat option" where
  "position P [] = None"
| "position P (x # xs) = (if P x then Some 0 else map_option Suc (position P xs))"

lemma position_first:
  assumes "i < length xs" and "P (xs ! i)" and "\<And>k. k < i \<Longrightarrow> \<not> P (xs ! k)"
  shows "position P xs = Some i"
  using assms
proof (induction xs arbitrary: i)
  case (Cons x xs)
  show ?case
  proof (cases i)
    case (Suc j)
    with Cons.prems(3) [of 0] have "\<not> P x" by simp
    moreover have "position P xs = Some j"
      using Cons.prems(1,2) Cons.prems(3) [of "Suc k" for k] Suc by (intro Cons.IH) auto
    ultimately show ?thesis using Suc by simp
  qed (use Cons in simp)
qed simp

lemma position_SomeD: "position P xs = Some i \<Longrightarrow> i < length xs \<and> P (xs ! i)"
  by (induction xs arbitrary: i) (auto split: if_splits)

lemma position_NoneD: "position P xs = None \<Longrightarrow> x \<in> set xs \<Longrightarrow> \<not> P x"
  by (induction xs) (auto split: if_splits)

definition checked_mul :: "'a::len word \<Rightarrow> 'a word \<Rightarrow> 'a word option" where
  "checked_mul a b = (if unat a * unat b < 2 ^ LENGTH('a) then Some (a * b) else None)"

lemma unat_checked_mul:
  fixes a b :: "'a::len word"
  assumes "checked_mul a b = Some c"
  shows "unat c = unat a * unat b"
  using assms by (auto simp: checked_mul_def unat_word_ariths split: if_splits)

section \<open>Little-endian bytes\<close>

definition bytes_at :: "u8 list \<Rightarrow> nat \<Rightarrow> nat \<Rightarrow> u8 list" where
  "bytes_at bs off n = take n (drop off bs)"

definition from_le :: "u8 list \<Rightarrow> 'a::len word" where
  "from_le bs = word_of_int (horner_sum uint 256 bs)"

definition to_le :: "nat \<Rightarrow> 'a::len word \<Rightarrow> u8 list" where
  "to_le n w = map (\<lambda>i. ucast (drop_bit (8 * i) w)) [0..<n]"

definition u64_at :: "u8 list \<Rightarrow> nat \<Rightarrow> u64" where
  "u64_at bs off = from_le (bytes_at bs off 8)"

definition u32_at :: "u8 list \<Rightarrow> nat \<Rightarrow> u32" where
  "u32_at bs off = from_le (bytes_at bs off 4)"

lemma length_to_le [simp]: "length (to_le n w) = n"
  by (simp add: to_le_def)

lemma length_bytes_at: "length (bytes_at bs off n) = min n (length bs - off)"
  by (simp add: bytes_at_def)

lemma bytes_at_bytes_at: "i + m \<le> n \<Longrightarrow> bytes_at (bytes_at bs off n) i m = bytes_at bs (off + i) m"
  by (simp add: bytes_at_def drop_take min_def add.commute)

lemma word_at_bytes_at:
  "i + 8 \<le> n \<Longrightarrow> u64_at (bytes_at bs off n) i = u64_at bs (off + i)"
  "i + 4 \<le> n \<Longrightarrow> u32_at (bytes_at bs off n) i = u32_at bs (off + i)"
  by (simp_all add: u64_at_def u32_at_def bytes_at_bytes_at)

lemma nth_bytes_at: "i < n \<Longrightarrow> off + n \<le> length bs \<Longrightarrow> bytes_at bs off n ! i = bs ! (off + i)"
  by (simp add: bytes_at_def)

lemma horner_sum_bytes:
  fixes v :: int
  assumes "0 \<le> v"
  shows "horner_sum (\<lambda>x. x) 256 (map (\<lambda>i. v div 256 ^ i mod 256) [0..<n]) = v mod 256 ^ n"
  using assms
proof (induction n arbitrary: v)
  case 0
  then show ?case by simp
next
  case (Suc n)
  have "[0..<Suc n] = 0 # map Suc [0..<n]"
    by (metis map_Suc_upt upt_conv_Cons zero_less_Suc)
  then have "horner_sum (\<lambda>x. x) 256 (map (\<lambda>i. v div 256 ^ i mod 256) [0..<Suc n]) =
      v mod 256 + 256 * horner_sum (\<lambda>x. x) 256 (map (\<lambda>i. (v div 256) div 256 ^ i mod 256) [0..<n])"
    by (simp add: comp_def zdiv_zmult2_eq)
  also have "\<dots> = v mod 256 + 256 * (v div 256 mod 256 ^ n)"
    using Suc by simp
  also have "\<dots> = v mod 256 ^ Suc n"
    by (simp add: zmod_zmult2_eq mult.commute)
  finally show ?case .
qed

lemma horner_sum_to_le:
  fixes w :: "'a::len word"
  shows "horner_sum uint 256 (to_le n w) = uint w mod 2 ^ (8 * n)"
proof -
  have "uint (ucast (drop_bit (8 * i) w) :: u8) = uint w div 256 ^ i mod 256" for i
  proof -
    have "uint (drop_bit (8 * i) w) = uint w div 2 ^ (8 * i)"
      by (subst unsigned_drop_bit_eq) (simp add: drop_bit_eq_div take_bit_eq_mod)
    then show ?thesis
      by (simp only: unsigned_ucast_eq take_bit_eq_mod) (simp add: power_mult)
  qed
  then have "horner_sum uint 256 (to_le n w) =
      horner_sum (\<lambda>x. x) 256 (map (\<lambda>i. uint w div 256 ^ i mod 256) [0..<n])"
    by (simp add: to_le_def horner_sum_foldr foldr_map comp_def)
  also have "\<dots> = uint w mod 256 ^ n" by (rule horner_sum_bytes) simp
  also have "(256::int) ^ n = 2 ^ (8 * n)" by (simp add: power_mult)
  finally show ?thesis .
qed

text \<open>Decoding what was encoded: a word of at most \<open>8 * n\<close> bits survives \<open>n\<close> bytes, also when it is read
  as a wider one.\<close>

lemma from_le_ucast:
  fixes w :: "'a::len word"
  assumes "LENGTH('a) \<le> 8 * n"
  shows "from_le (to_le n w) = (ucast w :: 'b::len word)"
proof -
  have "uint w < 2 ^ LENGTH('a)" by simp
  also have "(2::int) ^ LENGTH('a) \<le> 2 ^ (8 * n)" using assms by (simp add: power_increasing)
  finally have "uint w mod 2 ^ (8 * n) = uint w" by simp
  then show ?thesis unfolding from_le_def horner_sum_to_le ucast_eq by (rule arg_cong)
qed

lemma from_le_to_le:
  fixes w :: "'a::len word"
  assumes "LENGTH('a) \<le> 8 * n"
  shows "from_le (to_le n w) = w"
  using from_le_ucast [OF assms, where 'b = 'a] by simp

end
