(* ===== verification/Chain_Guard.thy ===== *)
theory Chain_Guard
  imports Journal_Prelude
begin

text \<open>
  Cycle detection for the linked objects of a journal file: \<^verbatim>\<open>journal-core/src/file/chain_guard.rs\<close>
  and \<^verbatim>\<open>array_chain.rs\<close>.  The guard keeps two words and never allocates; as long as the links stay
  ordered it keeps no history, and from the first link that breaks the order it runs Brent's
  algorithm.  The lemmas show that it is exact: it reports a cycle only when an offset is really
  visited twice (also where the step counter saturates), and on every cyclic chain it does so within
  four times the length of the chain.
\<close>

section \<open>The guard\<close>

record ChainGuard =
  checkpoint :: u64
  steps :: u64

definition guard_default :: ChainGuard where
  "guard_default = \<lparr>checkpoint = 0, steps = 0\<rparr>"

definition reset :: "ChainGuard \<Rightarrow> ChainGuard" where
  "reset g = g\<lparr>steps := 0\<rparr>"

text \<open>
  Both operations mutate the guard and return a \<open>Result\<close>; the model returns both, so that the
  state left behind by an error is part of it.
\<close>

definition advance_unordered :: "ChainGuard \<Rightarrow> u64 \<Rightarrow> u64 \<Rightarrow> unit result \<times> ChainGuard" where
  "advance_unordered g0 current next =
     (let g = (if steps g0 = 0 then g0\<lparr>checkpoint := current, steps := 1\<rparr> else g0)
      in if next = checkpoint g \<or> steps g = u64_max then (Err CyclicObjectChain, g)
         else (let g = g\<lparr>steps := steps g + 1\<rparr>
               in (Ok (), if is_power_of_two (steps g) then g\<lparr>checkpoint := next\<rparr> else g)))"

definition advance :: "ChainGuard \<Rightarrow> u64 \<Rightarrow> u64 option \<Rightarrow> bool \<Rightarrow> unit result \<times> ChainGuard" where
  "advance g current next_opt descending =
     (let next = (case next_opt of None \<Rightarrow> 0 | Some n \<Rightarrow> n);
          ordered = (if descending then next < current else next > current)
      in if steps g = 0 \<and> ordered then (Ok (), g)
         else if next = 0 then (Ok (), g)
         else advance_unordered g current next)"

section \<open>Following one sequence of links\<close>

text \<open>
  \<open>guard_walk d g x n\<close> is the state after the guard has been told the first \<open>n\<close> links
  \<open>x 0 \<rightarrow> x 1 \<rightarrow> \<dots> \<rightarrow> x n\<close> of a sequence, as the loops that own a guard do; it stops at the first
  error.
\<close>

primrec guard_walk :: "bool \<Rightarrow> ChainGuard \<Rightarrow> (nat \<Rightarrow> u64) \<Rightarrow> nat \<Rightarrow> unit result \<times> ChainGuard" where
  "guard_walk d g x 0 = (Ok (), g)"
| "guard_walk d g x (Suc n) =
     (case guard_walk d g x n of
        (Inl e, g') \<Rightarrow> (Inl e, g')
      | (Inr _, g') \<Rightarrow> advance g' (x n) (Some (x (Suc n))) d)"

definition link_ordered :: "bool \<Rightarrow> u64 \<Rightarrow> u64 \<Rightarrow> bool" where
  "link_ordered d a b \<longleftrightarrow> (if d then b < a else a < b)"

lemma advance_Some:
  assumes "b \<noteq> 0"
  shows "advance g a (Some b) d =
    (if steps g = 0 \<and> link_ordered d a b then (Ok (), g) else advance_unordered g a b)"
  using assms by (auto simp: advance_def link_ordered_def)

lemma guard_walk_Ok_prefix:
  assumes "guard_walk d g x n = (Ok (), g')" and "m \<le> n"
  shows "\<exists>h. guard_walk d g x m = (Ok (), h)"
  using assms
proof (induction n arbitrary: g')
  case 0
  then show ?case by simp
next
  case (Suc n)
  show ?case
  proof (cases "m = Suc n")
    case True
    with Suc.prems show ?thesis by blast
  next
    case False
    obtain h where "guard_walk d g x n = (Ok (), h)"
      using Suc.prems(1) by (auto split: prod.splits sum.splits)
    with Suc.IH False Suc.prems(2) show ?thesis by force
  qed
qed

text \<open>
  The position \<open>p\<close> of the checkpoint after \<open>j\<close> unordered links, counted from the link that broke
  the order: the largest \<open>2 ^ k - 1\<close> with \<open>2 ^ k \<le> j + 1\<close>.
\<close>

definition checkpoint_at :: "nat \<Rightarrow> nat \<Rightarrow> bool" where
  "checkpoint_at j p \<longleftrightarrow> (\<exists>k. p = 2 ^ k - 1 \<and> 2 ^ k \<le> j + 1 \<and> j + 1 < 2 ^ Suc k)"

lemma checkpoint_at_0: "checkpoint_at 0 0"
  unfolding checkpoint_at_def by (rule exI [of _ 0]) simp

lemma checkpoint_at_Suc_power:
  assumes "Suc (Suc j) = 2 ^ k"
  shows "checkpoint_at (Suc j) (Suc j)"
  unfolding checkpoint_at_def by (rule exI [of _ k]) (use assms in auto)

lemma checkpoint_at_Suc_other:
  assumes "checkpoint_at j p" and "\<nexists>k. Suc (Suc j) = 2 ^ k"
  shows "checkpoint_at (Suc j) p"
proof -
  from assms(1) obtain k where k: "p = 2 ^ k - 1" "2 ^ k \<le> j + 1" "j + 1 < 2 ^ Suc k"
    unfolding checkpoint_at_def by blast
  moreover have "Suc (Suc j) \<noteq> 2 ^ Suc k" using assms(2) by blast
  ultimately show ?thesis
    unfolding checkpoint_at_def by (intro exI [of _ k]) simp
qed

text \<open>What the guard remembers after \<open>n\<close> links without an error.\<close>

definition guard_inv :: "bool \<Rightarrow> (nat \<Rightarrow> u64) \<Rightarrow> nat \<Rightarrow> ChainGuard \<Rightarrow> bool" where
  "guard_inv d x n g \<longleftrightarrow>
     (steps g = 0 \<and> (\<forall>i<n. link_ordered d (x i) (x (Suc i)))) \<or>
     (\<exists>s < n. (\<forall>i < s. link_ordered d (x i) (x (Suc i))) \<and> \<not> link_ordered d (x s) (x (Suc s)) \<and>
        unat (steps g) = n - s + 1 \<and>
        (\<exists>p. checkpoint_at (n - s) p \<and> checkpoint g = x (s + p)))"

lemma advance_unordered_eqs:
  assumes "steps g \<noteq> 0"
  shows "advance_unordered g a b =
    (if b = checkpoint g \<or> steps g = u64_max then (Err CyclicObjectChain, g)
     else (Ok (), g\<lparr>steps := steps g + 1,
                     checkpoint := if is_power_of_two (steps g + 1) then b else checkpoint g\<rparr>))"
  using assms by (simp add: advance_unordered_def Let_def)

lemma advance_unordered_first:
  assumes "steps g = 0" and "b \<noteq> a"
  shows "advance_unordered g a b = (Ok (), g\<lparr>steps := 2, checkpoint := b\<rparr>)"
proof -
  have "is_power_of_two (2 :: u64)"
    by (auto simp: is_power_of_two_unat intro: exI [of _ 1])
  moreover have "(1 :: u64) \<noteq> u64_max"
    by (simp add: u64_max_def)
  ultimately show ?thesis
    using assms by (simp add: advance_unordered_def Let_def)
qed

lemma unat_steps_Suc:
  assumes "steps g \<noteq> u64_max"
  shows "unat (steps g + 1) = Suc (unat (steps g))"
  using assms by (simp add: u64_max_def unat_plus_one)

lemma advance_unordered_self: "steps g = 0 \<Longrightarrow> fst (advance_unordered g a a) = Err CyclicObjectChain"
  by (simp add: advance_unordered_def)

lemma advance_error:
  assumes "advance g a b d = (Err e, g')"
  shows "e = CyclicObjectChain"
  using assms by (auto simp: advance_def advance_unordered_def Let_def split: if_splits)

lemma guard_inv_0: "steps g = 0 \<Longrightarrow> guard_inv d x 0 g"
  by (simp add: guard_inv_def)

lemma guard_inv_first_break:
  assumes "steps g = 0" and "\<forall>i<n. link_ordered d (x i) (x (Suc i))"
    and "\<not> link_ordered d (x n) (x (Suc n))"
    and "advance_unordered g (x n) (x (Suc n)) = (Ok (), g')"
  shows "guard_inv d x (Suc n) g'"
proof -
  have "x (Suc n) \<noteq> x n"
    using assms(1,4) advance_unordered_self [of g "x n"] by fastforce
  with assms(1,4) have g': "g' = g\<lparr>steps := 2, checkpoint := x (Suc n)\<rparr>"
    by (simp add: advance_unordered_first)
  have "checkpoint_at 1 1"
    using checkpoint_at_Suc_power [of 0 1] by simp
  with g' assms(2,3) show ?thesis
    unfolding guard_inv_def by (intro disjI2 exI [of _ n]) auto
qed

lemma guard_inv_later:
  assumes "s < n" and "\<forall>i < s. link_ordered d (x i) (x (Suc i))"
    and "\<not> link_ordered d (x s) (x (Suc s))" and "unat (steps g) = n - s + 1"
    and "checkpoint_at (n - s) p" and "checkpoint g = x (s + p)"
    and "advance_unordered g (x n) (x (Suc n)) = (Ok (), g')"
  shows "guard_inv d x (Suc n) g'"
proof -
  have "steps g \<noteq> 0" using assms(4) by auto
  with assms(7) have nmax: "steps g \<noteq> u64_max"
    and g': "g' = g\<lparr>steps := steps g + 1,
        checkpoint := if is_power_of_two (steps g + 1) then x (Suc n) else checkpoint g\<rparr>"
    by (auto simp: advance_unordered_eqs split: if_splits)
  have u: "unat (steps g + 1) = Suc (Suc (n - s))"
    using unat_steps_Suc [OF nmax] assms(4) by simp
  have "\<exists>q. checkpoint_at (Suc (n - s)) q \<and> checkpoint g' = x (s + q)"
  proof (cases "is_power_of_two (steps g + 1)")
    case True
    then obtain k where "Suc (Suc (n - s)) = 2 ^ k"
      using u by (auto simp: is_power_of_two_unat)
    then have "checkpoint_at (Suc (n - s)) (Suc (n - s))"
      by (rule checkpoint_at_Suc_power)
    with True g' \<open>s < n\<close> show ?thesis by (intro exI [of _ "Suc (n - s)"]) simp
  next
    case False
    then have "checkpoint_at (Suc (n - s)) p"
      using u assms(5) by (intro checkpoint_at_Suc_other) (auto simp: is_power_of_two_unat)
    with False g' assms(6) show ?thesis by auto
  qed
  with assms(1-3) u g' show ?thesis
    unfolding guard_inv_def by (intro disjI2 exI [of _ s]) (simp add: Suc_diff_le)
qed

lemma guard_inv_step:
  assumes inv: "guard_inv d x n g" and nz: "x (Suc n) \<noteq> 0"
    and adv: "advance g (x n) (Some (x (Suc n))) d = (Ok (), g')"
  shows "guard_inv d x (Suc n) g'"
  using inv unfolding guard_inv_def [of d x n]
proof (elim disjE exE conjE)
  assume "steps g = 0" and o: "\<forall>i<n. link_ordered d (x i) (x (Suc i))"
  show ?thesis
  proof (cases "link_ordered d (x n) (x (Suc n))")
    case True
    with adv nz \<open>steps g = 0\<close> o show ?thesis
      by (auto simp: advance_Some guard_inv_def less_Suc_eq)
  next
    case False
    with adv nz \<open>steps g = 0\<close> o show ?thesis
      by (intro guard_inv_first_break [of g]) (auto simp: advance_Some)
  qed
next
  fix s p
  assume *: "s < n" "\<forall>i < s. link_ordered d (x i) (x (Suc i))"
    "\<not> link_ordered d (x s) (x (Suc s))" "unat (steps g) = n - s + 1"
    "checkpoint_at (n - s) p" "checkpoint g = x (s + p)"
  then have "steps g \<noteq> 0" by auto
  with adv nz have "advance_unordered g (x n) (x (Suc n)) = (Ok (), g')"
    by (simp add: advance_Some)
  with * show ?thesis by (rule guard_inv_later)
qed

lemma guard_walk_inv:
  assumes "steps g0 = 0" and "\<And>i. x i \<noteq> 0"
  shows "guard_walk d g0 x n = (Ok (), g) \<Longrightarrow> guard_inv d x n g"
proof (induction n arbitrary: g)
  case 0
  with assms(1) show ?case by (simp add: guard_inv_0)
next
  case (Suc n)
  then obtain h where h: "guard_walk d g0 x n = (Ok (), h)"
    and adv: "advance h (x n) (Some (x (Suc n))) d = (Ok (), g)"
    by (auto split: prod.splits sum.splits)
  from Suc.IH [OF h] assms(2) adv show ?case
    by (rule guard_inv_step)
qed

section \<open>Soundness: an error means an offset was visited twice\<close>

lemma checkpoint_at_le: "checkpoint_at j p \<Longrightarrow> p \<le> j"
  by (auto simp: checkpoint_at_def)

lemma checkpoint_at_unique:
  assumes "checkpoint_at j p" and "checkpoint_at j q"
  shows "p = q"
proof -
  from assms obtain k l where k: "p = 2 ^ k - 1" "2 ^ k \<le> j + 1" "j + 1 < 2 ^ Suc k"
    and l: "q = 2 ^ l - 1" "2 ^ l \<le> j + 1" "j + 1 < 2 ^ Suc l"
    unfolding checkpoint_at_def by blast
  have "(2::nat) ^ k < 2 ^ Suc l" "(2::nat) ^ l < 2 ^ Suc k"
    using k l by linarith+
  then have "k < Suc l" "l < Suc k"
    by (meson nat_power_less_imp_less zero_less_numeral)+
  with k l show ?thesis by (simp add: less_Suc_eq_le le_antisym)
qed

text \<open>
  Where the step counter has reached its maximum the guard has followed \<open>2 ^ 64\<close> links of
  nonzero offsets, so some offset occurs twice.
\<close>

lemma nonzero_u64_pigeonhole:
  fixes x :: "nat \<Rightarrow> u64"
  assumes "\<And>i. x i \<noteq> 0" and "m + 2 ^ 64 \<le> Suc n"
  shows "\<exists>i j. i < j \<and> j \<le> n \<and> x i = x j"
proof (rule ccontr)
  assume "\<not> ?thesis"
  then have "inj_on x {m..n}"
    by (metis atLeastAtMost_iff inj_onI nat_neq_iff)
  then have "card (x ` {m..n}) = Suc n - m"
    by (simp add: card_image)
  moreover have "card (x ` {m..n}) \<le> card (UNIV - {0 :: u64})"
    using assms(1) by (intro card_mono) auto
  moreover have "card (UNIV - {0 :: u64}) = 2 ^ 64 - 1"
    by (simp add: card_Diff_singleton card_word)
  ultimately show False using assms(2) by simp
qed

lemma guard_error_step:
  assumes inv: "guard_inv d x n g" and nz: "\<And>i. x i \<noteq> 0"
    and err: "advance g (x n) (Some (x (Suc n))) d = (Err e, g')"
  shows "\<exists>i j. i < j \<and> j \<le> Suc n \<and> x i = x j"
  using inv unfolding guard_inv_def
proof (elim disjE exE conjE)
  assume "steps g = 0"
  with err nz have "x (Suc n) = x n"
    using advance_unordered_first [of g "x (Suc n)" "x n"]
    by (auto simp: advance_Some split: if_splits)
  then show ?thesis by (intro exI [of _ n] exI [of _ "Suc n"]) simp
next
  fix s p
  assume *: "s < n" "unat (steps g) = n - s + 1" "checkpoint_at (n - s) p" "checkpoint g = x (s + p)"
  then have "steps g \<noteq> 0" by auto
  with err nz have "x (Suc n) = checkpoint g \<or> steps g = u64_max"
    by (auto simp: advance_Some advance_unordered_eqs split: if_splits)
  then show ?thesis
  proof
    assume "x (Suc n) = checkpoint g"
    with * show ?thesis
      using checkpoint_at_le [of "n - s" p]
      by (intro exI [of _ "s + p"] exI [of _ "Suc n"]) simp
  next
    assume "steps g = u64_max"
    with * have "s + 2 ^ 64 \<le> Suc (Suc n)"
      by (simp add: unat_u64_max)
    with nz show ?thesis by (rule nonzero_u64_pigeonhole)
  qed
qed

lemma guard_walk_error:
  assumes "steps g0 = 0" and nz: "\<And>i. x i \<noteq> 0"
  shows "guard_walk d g0 x n = (Err e, g) \<Longrightarrow>
    e = CyclicObjectChain \<and> (\<exists>i j. i < j \<and> j \<le> n \<and> x i = x j)"
proof (induction n arbitrary: g)
  case 0
  then show ?case by simp
next
  case (Suc n)
  show ?case
  proof (cases "guard_walk d g0 x n")
    case (Pair r h)
    show ?thesis
    proof (cases r)
      case (Inl e')
      with Suc Pair show ?thesis by (auto intro: le_SucI)
    next
      case (Inr u)
      with Pair Suc.prems have adv: "advance h (x n) (Some (x (Suc n))) d = (Err e, g)"
        and inv: "guard_inv d x n h"
        using guard_walk_inv [where x = x, OF assms(1) nz] by auto
      from guard_error_step [OF inv nz adv] advance_error [OF adv] show ?thesis by blast
    qed
  qed
qed

section \<open>Completeness: every cycle is reported in time\<close>

lemma guard_walk_error_mono:
  assumes "fst (guard_walk d g x m) = Err e" and "m \<le> n"
  shows "fst (guard_walk d g x n) = Err e"
  using assms(2,1) by (induction rule: dec_induct) (auto split: prod.splits sum.splits)

lemma guard_walk_no_hit:
  assumes "steps g0 = 0" and nz: "\<And>i. x i \<noteq> 0"
    and first: "\<forall>i < s. link_ordered d (x i) (x (Suc i))" "\<not> link_ordered d (x s) (x (Suc s))"
    and "s \<le> n" and at: "checkpoint_at (n - s) p"
    and ok: "guard_walk d g0 x (Suc n) = (Ok (), g')"
  shows "x (Suc n) \<noteq> x (s + p)"
proof
  assume eq: "x (Suc n) = x (s + p)"
  obtain h where h: "guard_walk d g0 x n = (Ok (), h)"
    and adv: "advance h (x n) (Some (x (Suc n))) d = (Ok (), g')"
    using ok by (auto split: prod.splits sum.splits)
  from guard_walk_inv [OF assms(1,2) h] show False unfolding guard_inv_def
  proof (elim disjE exE conjE)
    assume h0: "steps h = 0" and o: "\<forall>i<n. link_ordered d (x i) (x (Suc i))"
    with first(2) \<open>s \<le> n\<close> have "n = s" by (metis le_neq_implies_less)
    with at checkpoint_at_le [of 0 p] have "p = 0" by simp
    with eq \<open>n = s\<close> adv h0 first(2) nz advance_unordered_self [OF h0, of "x n"] show False
      by (simp add: advance_Some)
  next
    fix s' q
    assume *: "s' < n" "\<forall>i < s'. link_ordered d (x i) (x (Suc i))"
      "\<not> link_ordered d (x s') (x (Suc s'))" "unat (steps h) = n - s' + 1"
      "checkpoint_at (n - s') q" "checkpoint h = x (s' + q)"
    with first have "s' = s" by (metis nat_neq_iff)
    with * at have "q = p" by (blast intro: checkpoint_at_unique)
    moreover have "steps h \<noteq> 0" using * by auto
    ultimately show False using eq adv nz * \<open>s' = s\<close>
      by (simp add: advance_Some advance_unordered_eqs)
  qed
qed

lemma ordered_range:
  assumes "\<And>i. m \<le> i \<Longrightarrow> i < m + l \<Longrightarrow> link_ordered d (x i) (x (Suc i))" and "0 < l"
  shows "link_ordered d (x m) (x (m + l))"
  using assms
proof (induction l)
  case 0
  then show ?case by simp
next
  case (Suc l)
  then have last: "link_ordered d (x (m + l)) (x (Suc (m + l)))" by simp
  show ?case
  proof (cases "l = 0")
    case True
    with last show ?thesis by simp
  next
    case False
    with Suc have "link_ordered d (x m) (x (m + l))" by simp
    with last show ?thesis by (auto simp: link_ordered_def split: if_splits)
  qed
qed

lemma first_break:
  assumes "0 < l" and "x (m + l) = x m"
  shows "\<exists>s < m + l. (\<forall>i < s. link_ordered d (x i) (x (Suc i))) \<and> \<not> link_ordered d (x s) (x (Suc s))"
proof -
  have "\<not> link_ordered d (x m) (x (m + l))"
    by (simp add: assms(2) link_ordered_def)
  then have "\<exists>s. s < m + l \<and> \<not> link_ordered d (x s) (x (Suc s))"
    using ordered_range [of m l d x] assms(1) by blast
  then obtain s where "s < m + l" "\<not> link_ordered d (x s) (x (Suc s))" by blast
  then show ?thesis
    using exists_least_iff [of "\<lambda>s. \<not> link_ordered d (x s) (x (Suc s))"]
    by (metis less_trans nat_neq_iff)
qed

lemma enclosing_power: "0 < (n::nat) \<Longrightarrow> \<exists>k. n \<le> 2 ^ k \<and> 2 ^ k < 2 * n"
proof (induction n rule: less_induct)
  case (less n)
  show ?case
  proof (cases "n = 1")
    case True
    then show ?thesis by (intro exI [of _ 0]) simp
  next
    case False
    with less.prems have "(n + 1) div 2 < n" "0 < (n + 1) div 2" by auto
    with less.IH obtain k where "(n + 1) div 2 \<le> 2 ^ k" "2 ^ k < 2 * ((n + 1) div 2)" by blast
    then have "n \<le> 2 ^ Suc k" "2 ^ Suc k < 2 * n \<or> 2 ^ Suc k = 2 * n" by auto
    then show ?thesis
    proof (elim disjE)
      assume "2 ^ Suc k = 2 * n"
      then show ?thesis using less.prems by (intro exI [of _ k]) simp
    qed blast
  qed
qed

lemma guard_walk_complete:
  assumes "steps g0 = 0" and nz: "\<And>i. x i \<noteq> 0" and "0 < l"
    and per: "\<And>i. m \<le> i \<Longrightarrow> x (i + l) = x i"
  shows "fst (guard_walk d g0 x (4 * (m + l))) = Err CyclicObjectChain"
proof -
  obtain s where s: "s < m + l" "\<forall>i < s. link_ordered d (x i) (x (Suc i))"
    "\<not> link_ordered d (x s) (x (Suc s))"
    using first_break [of l x m d] per [of m] \<open>0 < l\<close> by auto
  obtain k where k: "max (Suc (m - s)) l \<le> 2 ^ k" "2 ^ k < 2 * max (Suc (m - s)) l"
    using enclosing_power [of "max (Suc (m - s)) l"] by (metis less_max_iff_disj zero_less_Suc)
  define n where "n = s + (2 ^ k - 1) + l - 1"
  have n: "Suc n = (s + (2 ^ k - 1)) + l" using \<open>0 < l\<close> by (simp add: n_def)
  have at: "checkpoint_at (n - s) (2 ^ k - 1)"
    unfolding checkpoint_at_def
    using k(1) \<open>0 < l\<close> by (intro exI [of _ k]) (auto simp: n_def)
  have "m \<le> s + (2 ^ k - 1)" using k(1) by linarith
  then have hit: "x (Suc n) = x (s + (2 ^ k - 1))" unfolding n by (rule per)
  have "\<exists>e. fst (guard_walk d g0 x (Suc n)) = Err e"
  proof (rule ccontr)
    assume "\<not> ?thesis"
    then obtain g' where "guard_walk d g0 x (Suc n) = (Ok (), g')"
      by (metis old.sum.exhaust old.unit.exhaust prod.exhaust_sel)
    moreover have "s \<le> n" using \<open>0 < l\<close> n by linarith
    ultimately show False
      using guard_walk_no_hit [OF assms(1,2) s(2,3) _ at] hit by blast
  qed
  then obtain e where e: "fst (guard_walk d g0 x (Suc n)) = Err e" by blast
  then have "e = CyclicObjectChain"
    using guard_walk_error [where x = x, OF assms(1,2)] by (metis prod.exhaust_sel)
  moreover have "Suc n \<le> 4 * (m + l)"
    using k(2) s(1) \<open>0 < l\<close> unfolding n by (auto simp: max_def split: if_splits)
  ultimately show ?thesis using e guard_walk_error_mono by blast
qed

section \<open>Rejecting a link back into the visited prefix\<close>

text \<open>
  \<open>Option<NonZeroU64>\<close> has no \<open>Some 0\<close>; \<open>as_nonzero\<close> reads an option of a plain word that way.
\<close>

definition as_nonzero :: "u64 option \<Rightarrow> u64 option" where
  "as_nonzero x = Option.bind x nonzero"

lemma as_nonzero_eq_Some [simp]: "as_nonzero x = Some y \<longleftrightarrow> x = Some y \<and> y \<noteq> 0"
  by (cases x) (auto simp: as_nonzero_def)

lemma as_nonzero_Some [simp]: "y \<noteq> 0 \<Longrightarrow> as_nonzero (Some y) = Some y"
  by simp

lemma as_nonzero_None [simp]: "as_nonzero None = None"
  by (simp add: as_nonzero_def)

lemma advance_measure:
  assumes "(Inr u, g') = advance g at (Some at') False" and "at' \<noteq> 0"
  shows "(if steps g' = 0 then 2 ^ 64 + (2 ^ 64 - unat at') else 2 ^ 64 - unat (steps g'))
       < (if steps g = 0 then 2 ^ 64 + (2 ^ 64 - unat at) else 2 ^ 64 - unat (steps g))"
proof (cases "steps g = 0")
  case True
  show ?thesis
  proof (cases "at < at'")
    case True
    with \<open>steps g = 0\<close> assms have "g' = g"
      by (auto simp: advance_Some link_ordered_def)
    then show ?thesis
      using True \<open>steps g = 0\<close> unat_u64_less [of at'] by (simp add: word_less_nat_alt diff_less_mono2)
  next
    case False
    with True assms have adv: "advance_unordered g at at' = (Inr u, g')"
      by (auto simp: advance_Some link_ordered_def)
    with True have "at \<noteq> at'" using advance_unordered_self [of g at] by fastforce
    with True adv have "steps g' = 2" by (auto simp: advance_unordered_first)
    with True show ?thesis by (simp add: trans_less_add1)
  qed
next
  case False
  with assms have "advance_unordered g at at' = (Inr u, g')"
    by (auto simp: advance_Some)
  with False have "steps g \<noteq> u64_max" "steps g' = steps g + 1"
    by (auto simp: advance_unordered_eqs split: if_splits)
  then have "unat (steps g') = Suc (unat (steps g))" by (simp add: unat_steps_Suc)
  moreover from this have "steps g' \<noteq> 0" by auto
  ultimately show ?thesis
    using False unat_u64_less [of "steps g'"] by simp
qed

function reject_loop ::
  "(u64 \<Rightarrow> u64 option result) \<Rightarrow> u64 \<Rightarrow> u64 \<Rightarrow> ChainGuard \<Rightarrow> u64 \<Rightarrow> unit result" where
  "reject_loop next_of current target g at =
     (if at = target then Err CyclicObjectChain
      else if at = current then Ok ()
      else rbind (next_of at) (\<lambda>next.
        case advance g at (as_nonzero next) False of
          (Inl e, _) \<Rightarrow> Err e
        | (Inr _, g') \<Rightarrow>
            (case as_nonzero next of
               None \<Rightarrow> Err InvalidOffsetArrayOffset
             | Some at' \<Rightarrow> reject_loop next_of current target g' at')))"
  by pat_completeness auto
termination
  by (relation "measure (\<lambda>(_, _, _, g, at).
        if steps g = 0 then 2 ^ 64 + (2 ^ 64 - unat at) else 2 ^ 64 - unat (steps g))")
    (auto simp only: wf_measure in_measure prod.case as_nonzero_eq_Some intro!: advance_measure)

declare reject_loop.simps [simp del]

definition reject_array_revisit ::
  "u64 \<Rightarrow> u64 \<Rightarrow> u64 \<Rightarrow> (u64 \<Rightarrow> u64 option result) \<Rightarrow> unit result" where
  "reject_array_revisit head current target next_of =
     reject_loop next_of current target guard_default head"

text \<open>\<open>p\<close> is a chain of links of \<open>next_of\<close>: every element but the last names its successor.\<close>

definition link_path :: "(u64 \<Rightarrow> u64 option result) \<Rightarrow> u64 list \<Rightarrow> bool" where
  "link_path next_of p \<longleftrightarrow>
     p \<noteq> [] \<and> 0 \<notin> set p \<and>
     (\<forall>i. Suc i < length p \<longrightarrow> next_of (p ! i) = Ok (Some (p ! Suc i)))"

definition path_seq :: "u64 list \<Rightarrow> nat \<Rightarrow> u64" where
  "path_seq p i = p ! min i (length p - 1)"

lemma path_seq_nth [simp]: "i < length p \<Longrightarrow> path_seq p i = p ! i"
  by (simp add: path_seq_def)

lemma path_seq_nonzero:
  assumes "p \<noteq> []" and "0 \<notin> set p"
  shows "path_seq p i \<noteq> 0"
proof -
  have "min i (length p - 1) < length p" using assms(1) by (simp add: min_less_iff_disj)
  then have "path_seq p i \<in> set p" by (simp add: path_seq_def)
  with assms(2) show ?thesis by metis
qed

lemma guard_walk_distinct_path:
  assumes "distinct p" and "p \<noteq> []" and "0 \<notin> set p" and "k < length p" and "steps g0 = 0"
  shows "\<exists>g. guard_walk d g0 (path_seq p) k = (Ok (), g)"
proof (rule ccontr)
  assume "\<not> ?thesis"
  then obtain e g where "guard_walk d g0 (path_seq p) k = (Err e, g)"
    by (metis old.sum.exhaust old.unit.exhaust prod.exhaust)
  from guard_walk_error [where x = "path_seq p", OF assms(5) path_seq_nonzero [OF assms(2,3)] this]
  obtain i j where "i < j" "j \<le> k" "path_seq p i = path_seq p j" by blast
  with assms(1,4) show False by (simp add: nth_eq_iff_index_eq)
qed

lemma reject_loop_path:
  assumes path: "link_path next_of p" "distinct p" and cur: "last p = current"
  shows "k < length p \<Longrightarrow> guard_walk False guard_default (path_seq p) k = (Ok (), g) \<Longrightarrow>
    reject_loop next_of current target g (p ! k) =
      (if target \<in> set (drop k p) then Err CyclicObjectChain else Ok ())"
proof (induction "length p - k" arbitrary: k g)
  case 0
  then show ?case by simp
next
  case (Suc m)
  have dropk: "drop k p = p ! k # drop (Suc k) p"
    using Suc.prems(1) by (simp add: Cons_nth_drop_Suc)
  show ?case
  proof (cases "p ! k = target \<or> Suc k = length p")
    case True
    moreover have "p ! k = current" if "Suc k = length p"
      using that cur path by (metis diff_Suc_1 last_conv_nth link_path_def)
    ultimately show ?thesis using dropk by (auto simp: reject_loop.simps)
  next
    case False
    then have k': "Suc k < length p" using Suc.prems(1) by simp
    have ncur: "p ! k \<noteq> current"
      using path cur False k' Suc.prems(1)
      by (metis Suc_lessD diff_Suc_1 last_conv_nth length_0_conv less_nat_zero_code
          link_path_def nth_eq_iff_index_eq old.nat.exhaust lessI)
    have nx: "next_of (p ! k) = Ok (Some (p ! Suc k))" and nz: "p ! Suc k \<noteq> 0"
      using path k' by (auto simp: link_path_def) (metis nth_mem)
    obtain g' where w: "guard_walk False guard_default (path_seq p) (Suc k) = (Ok (), g')"
      using guard_walk_distinct_path [of p "Suc k" guard_default False] path k'
      by (auto simp: link_path_def guard_default_def)
    then have adv: "advance g (p ! k) (Some (p ! Suc k)) False = (Ok (), g')"
      using Suc.prems k' by simp
    have "reject_loop next_of current target g' (p ! Suc k) =
        (if target \<in> set (drop (Suc k) p) then Err CyclicObjectChain else Ok ())"
      using Suc k' w by simp
    with False ncur nx nz adv dropk show ?thesis
      by (auto simp add: reject_loop.simps [of _ _ _ _ "p ! k"])
  qed
qed

lemma reject_array_revisit_path:
  assumes "link_path next_of p" and "distinct p" and "hd p = head" and "last p = current"
  shows "reject_array_revisit head current target next_of =
    (if target \<in> set p then Err CyclicObjectChain else Ok ())"
proof -
  have "0 < length p" "p ! 0 = head"
    using assms by (auto simp: link_path_def hd_conv_nth)
  then show ?thesis
    using reject_loop_path [OF assms(1,2,4), of 0 guard_default target]
    by (simp add: reject_array_revisit_def)
qed

section \<open>Properties\<close>

text \<open>
  C28. Soundness of the guard: along any sequence of nonzero offsets, in either direction and from
  any guard with a reset step counter, an error is \<open>CyclicObjectChain\<close> and some offset of the links
  seen so far occurs twice.  This includes the branch where the counter has reached \<open>u64::MAX\<close>.
\<close>

theorem chain_guard_sound:
  assumes "steps g = 0" and "\<And>i. x i \<noteq> 0" and "fst (guard_walk d g x n) = Err e"
  shows "e = CyclicObjectChain \<and> (\<exists>i j. i < j \<and> j \<le> n \<and> x i = x j)"
  using guard_walk_error [where x = x, OF assms(1,2)] assms(3) by (metis prod.exhaust_sel)

theorem chain_guard_sound_witness:
  "(\<exists>i j. i < j \<and> j \<le> (3 :: nat) \<and> (if even i then 16 else 8 :: u64) = (if even j then 16 else 8))"
proof -
  let ?x = "\<lambda>i::nat. if even i then 16 else 8 :: u64"
  have "fst (guard_walk False guard_default ?x 3) = Err CyclicObjectChain"
    by code_simp
  moreover have "steps guard_default = 0" and "?x i \<noteq> 0" for i
    by (simp_all add: guard_default_def)
  ultimately show ?thesis
    using chain_guard_sound [of guard_default ?x] by blast
qed

text \<open>
  C29. Completeness of the guard with a bound: on a sequence that enters a cycle of length \<open>l\<close> after
  \<open>m\<close> links, the guard has reported \<open>CyclicObjectChain\<close> after at most \<open>4 * (m + l)\<close> links.
\<close>

theorem chain_guard_detects_cycle:
  assumes "steps g = 0" and "\<And>i. x i \<noteq> 0" and "0 < l" and "\<And>i. m \<le> i \<Longrightarrow> x (i + l) = x i"
  shows "fst (guard_walk d g x (4 * (m + l))) = Err CyclicObjectChain"
  by (rule guard_walk_complete) (use assms in auto)

theorem chain_guard_detects_cycle_witness:
  "fst (guard_walk True guard_default (\<lambda>i. if even i then 16 else 8) (4 * (0 + 2))) = Err CyclicObjectChain"
  by (rule chain_guard_detects_cycle) (auto simp: guard_default_def)

text \<open>
  \<open>reject_array_revisit\<close> decides membership: if the headers from \<open>head\<close> to \<open>current\<close> form an
  acyclic path, the new link is rejected exactly when its target is on that path.
\<close>

theorem reject_array_revisit_exact:
  assumes "link_path next_of p" and "distinct p" and "hd p = head" and "last p = current"
  shows "reject_array_revisit head current target next_of =
    (if target \<in> set p then Err CyclicObjectChain else Ok ())"
  using assms by (rule reject_array_revisit_path)

theorem reject_array_revisit_exact_witness:
  "reject_array_revisit 8 16 8 (\<lambda>a. Ok (if a = 8 then Some 24 else if a = 24 then Some 16 else None))
     = Err CyclicObjectChain"
proof -
  let ?n = "\<lambda>a::u64. Ok (if a = 8 then Some 24 else if a = 24 then Some 16 else None) :: u64 option result"
  have "link_path ?n [8, 24, 16]"
    by (auto simp: link_path_def less_Suc_eq nth_Cons' split: nat.splits)
  from reject_array_revisit_exact [OF this, of 8 16 8] show ?thesis by simp
qed

end
