(* ===== verification/Journal_Hash.thy ===== *)
theory Journal_Hash
  imports Journal_Prelude
begin

text \<open>
  The payload hashes of \<^verbatim>\<open>journal-core/src/file/hash.rs\<close>: Bob Jenkins' lookup3 over a contiguous
  slice, the same hash over a sequence of parts read through a \<open>PartReader\<close>, and the choice between it
  and the keyed SipHash.  A panic (\<open>expect\<close>, \<open>unreachable!\<close>) is \<open>None\<close>.  The \<open>siphasher\<close> crate is
  not part of the repository: its hasher is a parameter.  The main lemma shows that hashing a payload
  in parts never panics and gives the hash of the concatenation, for every split of the payload.
\<close>

section \<open>The lookup3 mixing steps\<close>

type_synonym abc = "u32 \<times> u32 \<times> u32"

definition rot :: "u32 \<Rightarrow> nat \<Rightarrow> u32" where
  "rot value bits = word_rotl bits value"

definition mix :: "abc \<Rightarrow> abc" where
  "mix s = (case s of (a, b, c) \<Rightarrow>
    let a = a - c; a = a XOR rot c 4; c = c + b;
        b = b - a; b = b XOR rot a 6; a = a + c;
        c = c - b; c = c XOR rot b 8; b = b + a;
        a = a - c; a = a XOR rot c 16; c = c + b;
        b = b - a; b = b XOR rot a 19; a = a + c;
        c = c - b; c = c XOR rot b 4; b = b + a
    in (a, b, c))"

definition final_mix :: "abc \<Rightarrow> abc" where
  "final_mix s = (case s of (a, b, c) \<Rightarrow>
    let c = c XOR b; c = c - rot b 14;
        a = a XOR c; a = a - rot c 11;
        b = b XOR a; b = b - rot a 25;
        c = c XOR b; c = c - rot b 16;
        a = a XOR c; a = a - rot c 4;
        b = b XOR a; b = b - rot a 14;
        c = c XOR b; c = c - rot b 24
    in (a, b, c))"

definition u32_from_le :: "u8 \<Rightarrow> u8 \<Rightarrow> u8 \<Rightarrow> u8 \<Rightarrow> u32" where
  "u32_from_le b0 b1 b2 b3 =
     ucast b0 OR push_bit 8 (ucast b1) OR push_bit 16 (ucast b2) OR push_bit 24 (ucast b3)"

definition hash_result :: "abc \<Rightarrow> u64" where
  "hash_result s = (case s of (a, b, c) \<Rightarrow> push_bit 32 (ucast c) OR ucast b)"

definition jenkins_init :: "nat \<Rightarrow> abc" where
  "jenkins_init len = (let init = 0xdeadbeef + of_nat len in (init, init, init))"

section \<open>The contiguous hash\<close>

definition read_u32_le_at :: "u8 list \<Rightarrow> nat \<Rightarrow> u32" where
  "read_u32_le_at data off =
     u32_from_le (data ! off) (data ! (off + 1)) (data ! (off + 2)) (data ! (off + 3))"

fun jenkins_blocks :: "u8 list \<Rightarrow> nat \<Rightarrow> nat \<Rightarrow> abc \<Rightarrow> nat \<times> nat \<times> abc" where
  "jenkins_blocks data off remaining (a, b, c) =
     (if 12 < remaining
      then jenkins_blocks data (off + 12) (remaining - 12)
             (mix (a + read_u32_le_at data off,
                   b + read_u32_le_at data (off + 4),
                   c + read_u32_le_at data (off + 8)))
      else (off, remaining, (a, b, c)))"

declare jenkins_blocks.simps [simp del]

definition or2 :: "u8 list \<Rightarrow> nat \<Rightarrow> u32" where
  "or2 tail i = ucast (tail ! i) OR push_bit 8 (ucast (tail ! (i + 1)))"

definition or3 :: "u8 list \<Rightarrow> nat \<Rightarrow> u32" where
  "or3 tail i = ucast (tail ! i) OR push_bit 8 (ucast (tail ! (i + 1))) OR
                push_bit 16 (ucast (tail ! (i + 2)))"

text \<open>The \<open>match remaining\<close> on the last one to twelve bytes; both hashes have it.\<close>

definition tail_add :: "u8 list \<Rightarrow> nat \<Rightarrow> abc \<Rightarrow> abc option" where
  "tail_add tail remaining s = (case s of (a, b, c) \<Rightarrow>
     (let w = read_u32_le_at tail
      in if remaining = 12 then Some (a + w 0, b + w 4, c + w 8)
         else if remaining = 11 then Some (a + w 0, b + w 4, c + or3 tail 8)
         else if remaining = 10 then Some (a + w 0, b + w 4, c + or2 tail 8)
         else if remaining = 9 then Some (a + w 0, b + w 4, c + ucast (tail ! 8))
         else if remaining = 8 then Some (a + w 0, b + w 4, c)
         else if remaining = 7 then Some (a + w 0, b + or3 tail 4, c)
         else if remaining = 6 then Some (a + w 0, b + or2 tail 4, c)
         else if remaining = 5 then Some (a + w 0, b + ucast (tail ! 4), c)
         else if remaining = 4 then Some (a + w 0, b, c)
         else if remaining = 3 then Some (a + or3 tail 0, b, c)
         else if remaining = 2 then Some (a + or2 tail 0, b, c)
         else if remaining = 1 then Some (a + ucast (tail ! 0), b, c)
         else None))"

definition jenkins_hash64_contiguous :: "u8 list \<Rightarrow> u64 option" where
  "jenkins_hash64_contiguous data =
     (if data = [] then Some 0xdeadbeefdeadbeef
      else (case jenkins_blocks data 0 (length data) (jenkins_init (length data)) of
        (off, remaining, s) \<Rightarrow>
          (if remaining = 0 then Some (hash_result s)
           else map_option (\<lambda>s'. hash_result (final_mix s'))
                  (tail_add (drop off data) remaining s))))"

definition jenkins_hash64 :: "u8 list \<Rightarrow> u64 option" where
  "jenkins_hash64 data = jenkins_hash64_contiguous data"

section \<open>The hash over parts\<close>

record PartReader =
  pr_parts :: "u8 list list"
  pr_current :: "u8 list"
  pr_offset :: nat

definition part_reader_new :: "u8 list list \<Rightarrow> PartReader" where
  "part_reader_new ps = \<lparr>pr_parts = ps, pr_current = [], pr_offset = 0\<rparr>"

fun next_byte_loop :: "u8 list list \<Rightarrow> u8 list \<Rightarrow> nat \<Rightarrow> u8 option \<times> PartReader" where
  "next_byte_loop ps cur off =
     (if off < length cur
      then (Some (cur ! off), \<lparr>pr_parts = ps, pr_current = cur, pr_offset = off + 1\<rparr>)
      else (case ps of
              [] \<Rightarrow> (None, \<lparr>pr_parts = [], pr_current = cur, pr_offset = off\<rparr>)
            | p # ps' \<Rightarrow> next_byte_loop ps' p 0))"

declare next_byte_loop.simps [simp del]

definition next_byte :: "PartReader \<Rightarrow> u8 option \<times> PartReader" where
  "next_byte r = next_byte_loop (pr_parts r) (pr_current r) (pr_offset r)"

text \<open>\<open>next_byte().expect(...)\<close>: the byte and the reader, or the panic.\<close>

definition expect_byte :: "PartReader \<Rightarrow> (u8 \<times> PartReader) option" where
  "expect_byte r = (case next_byte r of (None, _) \<Rightarrow> None | (Some b, r') \<Rightarrow> Some (b, r'))"

fun take_bytes :: "nat \<Rightarrow> PartReader \<Rightarrow> (u8 list \<times> PartReader) option" where
  "take_bytes 0 r = Some ([], r)"
| "take_bytes (Suc n) r =
     Option.bind (expect_byte r) (\<lambda>(b, r1).
     Option.bind (take_bytes n r1) (\<lambda>(bs, r2). Some (b # bs, r2)))"

definition part_read_u32_le :: "PartReader \<Rightarrow> (u32 \<times> PartReader) option" where
  "part_read_u32_le r0 =
     Option.bind (expect_byte r0) (\<lambda>(b0, r1).
     Option.bind (expect_byte r1) (\<lambda>(b1, r2).
     Option.bind (expect_byte r2) (\<lambda>(b2, r3).
     Option.bind (expect_byte r3) (\<lambda>(b3, r4).
       Some (u32_from_le b0 b1 b2 b3, r4)))))"

fun jenkins_part_blocks :: "nat \<Rightarrow> PartReader \<Rightarrow> abc \<Rightarrow> (nat \<times> PartReader \<times> abc) option" where
  "jenkins_part_blocks remaining r (a, b, c) =
     (if 12 < remaining
      then Option.bind (part_read_u32_le r) (\<lambda>(w0, r).
           Option.bind (part_read_u32_le r) (\<lambda>(w1, r).
           Option.bind (part_read_u32_le r) (\<lambda>(w2, r).
             jenkins_part_blocks (remaining - 12) r (mix (a + w0, b + w1, c + w2)))))
      else Some (remaining, r, (a, b, c)))"

declare jenkins_part_blocks.simps [simp del]

definition jenkins_hash64_from_parts :: "u8 list list \<Rightarrow> nat \<Rightarrow> u64 option" where
  "jenkins_hash64_from_parts ps total_len =
     Option.bind (jenkins_part_blocks total_len (part_reader_new ps) (jenkins_init total_len))
       (\<lambda>(remaining, r, s).
         if remaining = 0 then Some (hash_result s)
         else Option.bind (take_bytes remaining r) (\<lambda>(bytes, _).
           let tail = bytes @ replicate (12 - remaining) 0
           in map_option (\<lambda>s'. hash_result (final_mix s')) (tail_add tail remaining s)))"

definition jenkins_hash64_parts :: "u8 list list \<Rightarrow> u64 option" where
  "jenkins_hash64_parts ps =
     (case ps of
        [] \<Rightarrow> jenkins_hash64_contiguous []
      | [first] \<Rightarrow> jenkins_hash64_contiguous first
      | first # second # others \<Rightarrow>
          jenkins_hash64_from_parts ps
            (length first + length second + sum_list (map length others)))"

section \<open>Keyed hashing and the choice of hash\<close>

record 'h SipHasher24 =
  new_with_keys :: "u64 \<Rightarrow> u64 \<Rightarrow> 'h"
  sip_write :: "'h \<Rightarrow> u8 list \<Rightarrow> 'h"
  sip_finish :: "'h \<Rightarrow> u64"

definition siphash24_parts :: "'h SipHasher24 \<Rightarrow> u8 list list \<Rightarrow> u8 list \<Rightarrow> u64" where
  "siphash24_parts H ps key =
     (let k0 = from_le (take 8 key); k1 = from_le (take 8 (drop 8 key))
      in sip_finish H (foldl (sip_write H) (new_with_keys H k0 k1) ps))"

definition siphash24 :: "'h SipHasher24 \<Rightarrow> u8 list \<Rightarrow> u8 list \<Rightarrow> u64" where
  "siphash24 H data key = siphash24_parts H [data] key"

definition journal_hash_data_parts ::
  "'h SipHasher24 \<Rightarrow> u8 list list \<Rightarrow> bool \<Rightarrow> u8 list option \<Rightarrow> u64 option" where
  "journal_hash_data_parts H ps is_keyed_hash file_id =
     (if is_keyed_hash
      then (case file_id of
              Some fid \<Rightarrow> Some (siphash24_parts H ps fid)
            | None \<Rightarrow> jenkins_hash64_parts ps)
      else jenkins_hash64_parts ps)"

definition journal_hash_data ::
  "'h SipHasher24 \<Rightarrow> u8 list \<Rightarrow> bool \<Rightarrow> u8 list option \<Rightarrow> u64 option" where
  "journal_hash_data H data is_keyed_hash file_id =
     journal_hash_data_parts H [data] is_keyed_hash file_id"

section \<open>Reading parts is reading their concatenation\<close>

definition reader_rest :: "PartReader \<Rightarrow> u8 list" where
  "reader_rest r = drop (pr_offset r) (pr_current r) @ concat (pr_parts r)"

lemma rest_new [simp]: "reader_rest (part_reader_new ps) = concat ps"
  by (simp add: reader_rest_def part_reader_new_def)

lemma next_byte_loop_rest:
  "drop off cur @ concat ps = b # bs \<Longrightarrow>
   \<exists>r'. next_byte_loop ps cur off = (Some b, r') \<and> reader_rest r' = bs"
proof (induction ps cur off rule: next_byte_loop.induct)
  case (1 ps cur off)
  show ?case
  proof (cases "off < length cur")
    case True
    then have "drop off cur = cur ! off # drop (off + 1) cur"
      by (simp add: Cons_nth_drop_Suc)
    with 1 True show ?thesis
      by (simp add: next_byte_loop.simps [of ps] reader_rest_def)
  next
    case False
    with 1 obtain p ps' where "ps = p # ps'" by (cases ps) auto
    with 1 False show ?thesis by (simp add: next_byte_loop.simps [of "p # ps'" cur off])
  qed
qed

lemma expect_byte_rest:
  assumes "reader_rest r = b # bs"
  shows "\<exists>r'. expect_byte r = Some (b, r') \<and> reader_rest r' = bs"
  using next_byte_loop_rest [of "pr_offset r" "pr_current r" "pr_parts r" b bs] assms
  by (auto simp: reader_rest_def expect_byte_def next_byte_def)

lemma part_read_u32_le_rest:
  assumes "4 \<le> length (reader_rest r)"
  shows "\<exists>r'. part_read_u32_le r = Some (read_u32_le_at (reader_rest r) 0, r') \<and> reader_rest r' = drop 4 (reader_rest r)"
proof -
  obtain b0 b1 b2 b3 bs where rs: "reader_rest r = b0 # b1 # b2 # b3 # bs"
    using assms by (auto simp: numeral_eq_Suc Suc_le_length_iff)
  obtain r1 where r1: "expect_byte r = Some (b0, r1)" "reader_rest r1 = b1 # b2 # b3 # bs"
    using expect_byte_rest [OF rs] by blast
  obtain r2 where r2: "expect_byte r1 = Some (b1, r2)" "reader_rest r2 = b2 # b3 # bs"
    using expect_byte_rest [OF r1(2)] by blast
  obtain r3 where r3: "expect_byte r2 = Some (b2, r3)" "reader_rest r3 = b3 # bs"
    using expect_byte_rest [OF r2(2)] by blast
  obtain r4 where r4: "expect_byte r3 = Some (b3, r4)" "reader_rest r4 = bs"
    using expect_byte_rest [OF r3(2)] by blast
  show ?thesis
    using rs r1(1) r2(1) r3(1) r4 by (simp add: part_read_u32_le_def read_u32_le_at_def numeral_eq_Suc)
qed

lemma take_bytes_rest:
  "n \<le> length (reader_rest r) \<Longrightarrow> \<exists>r'. take_bytes n r = Some (take n (reader_rest r), r')"
proof (induction n arbitrary: r)
  case 0
  then show ?case by simp
next
  case (Suc n)
  then obtain b bs where rs: "reader_rest r = b # bs" by (cases "reader_rest r") auto
  then obtain r1 where r1: "expect_byte r = Some (b, r1)" "reader_rest r1 = bs"
    using expect_byte_rest by blast
  with Suc rs obtain r2 where "take_bytes n r1 = Some (take n bs, r2)" by fastforce
  with rs r1 show ?case by simp
qed

lemma read_u32_le_at_drop:
  "off + i + 4 \<le> length data \<Longrightarrow> read_u32_le_at (drop off data) i = read_u32_le_at data (off + i)"
  by (simp add: read_u32_le_at_def add.assoc)

lemma part_read_u32_le_at:
  assumes "reader_rest r = drop off data" and "off + 4 \<le> length data"
  shows "\<exists>r'. part_read_u32_le r = Some (read_u32_le_at data off, r') \<and> reader_rest r' = drop (off + 4) data"
  using part_read_u32_le_rest [of r] read_u32_le_at_drop [of off 0 data] assms
  by (simp add: add.commute)

lemma jenkins_part_blocks_rest:
  "reader_rest r = drop off data \<Longrightarrow> remaining = length data - off \<Longrightarrow> off \<le> length data \<Longrightarrow>
   \<exists>off' rem' s' r'.
     jenkins_blocks data off remaining s = (off', rem', s') \<and>
     jenkins_part_blocks remaining r s = Some (rem', r', s') \<and>
     reader_rest r' = drop off' data \<and> rem' = length data - off' \<and> off' \<le> length data \<and> rem' \<le> 12"
proof (induction data off remaining s arbitrary: r rule: jenkins_blocks.induct)
  case (1 data off remaining a b c)
  show ?case
  proof (cases "12 < remaining")
    case True
    have len: "off + 12 < length data" using True "1.prems" by simp
    obtain r1 where r1: "part_read_u32_le r = Some (read_u32_le_at data off, r1)"
        "reader_rest r1 = drop (off + 4) data"
      using part_read_u32_le_at [OF "1.prems"(1)] len by auto
    obtain r2 where r2: "part_read_u32_le r1 = Some (read_u32_le_at data (off + 4), r2)"
        "reader_rest r2 = drop (off + 8) data"
      using part_read_u32_le_at [OF r1(2)] len by (auto simp: add.assoc)
    obtain r3 where r3: "part_read_u32_le r2 = Some (read_u32_le_at data (off + 8), r3)"
        "reader_rest r3 = drop (off + 12) data"
      using part_read_u32_le_at [OF r2(2)] len by (auto simp: add.assoc)
    let ?s = "mix (a + read_u32_le_at data off, b + read_u32_le_at data (off + 4),
                   c + read_u32_le_at data (off + 8))"
    have "jenkins_blocks data off remaining (a, b, c) = jenkins_blocks data (off + 12) (remaining - 12) ?s"
      using True by (simp add: jenkins_blocks.simps [of data off remaining])
    moreover have "jenkins_part_blocks remaining r (a, b, c) = jenkins_part_blocks (remaining - 12) r3 ?s"
      using True r1(1) r2(1) r3(1) by (simp add: jenkins_part_blocks.simps [of remaining r])
    ultimately show ?thesis
      using "1.IH" [OF True r3(2)] "1.prems"(2) len by simp
  next
    case False
    then have "jenkins_blocks data off remaining (a, b, c) = (off, remaining, (a, b, c))"
      and "jenkins_part_blocks remaining r (a, b, c) = Some (remaining, r, (a, b, c))"
      by (simp_all add: jenkins_blocks.simps [of data off] jenkins_part_blocks.simps [of remaining])
    with "1.prems" False show ?thesis by simp
  qed
qed

text \<open>The tail additions read only the first \<open>remaining\<close> bytes.\<close>

lemma tail_add_prefix:
  assumes "remaining \<le> length xs"
  shows "tail_add (take remaining xs @ ys) remaining s = tail_add xs remaining s"
  using assms
  by (cases s) (simp add: tail_add_def read_u32_le_at_def or2_def or3_def nth_append Let_def
      split: if_splits)

lemma jenkins_hash64_from_parts_concat:
  assumes "concat ps \<noteq> []"
  shows "jenkins_hash64_from_parts ps (length (concat ps)) = jenkins_hash64_contiguous (concat ps)"
proof -
  let ?d = "concat ps"
  obtain off rem s r where
    bl: "jenkins_blocks ?d 0 (length ?d) (jenkins_init (length ?d)) = (off, rem, s)" and
    pb: "jenkins_part_blocks (length ?d) (part_reader_new ps) (jenkins_init (length ?d)) = Some (rem, r, s)" and
    r: "reader_rest r = drop off ?d" "rem = length ?d - off" "off \<le> length ?d"
    using jenkins_part_blocks_rest [of "part_reader_new ps" 0 ?d "length ?d" "jenkins_init (length ?d)"]
    by auto
  obtain r' where tb: "take_bytes rem r = Some (take rem (drop off ?d), r')"
    using take_bytes_rest [of rem r] r by auto
  have "tail_add (take rem (drop off ?d) @ replicate (12 - rem) 0) rem s = tail_add (drop off ?d) rem s"
    using r by (intro tail_add_prefix) simp
  then show ?thesis
    using assms bl pb tb
    by (auto simp: jenkins_hash64_from_parts_def jenkins_hash64_contiguous_def)
qed

lemma jenkins_hash64_parts_concat:
  "jenkins_hash64_parts ps = jenkins_hash64_contiguous (concat ps)"
proof (cases "concat ps = [] \<and> 1 < length ps")
  case True
  then obtain p q qs where "ps = p # q # qs" by (cases ps; cases "tl ps") auto
  moreover from this True have len: "length p + length q + sum_list (map length qs) = 0" by simp
  ultimately have "jenkins_hash64_parts ps = jenkins_hash64_from_parts ps 0"
    by (simp only: jenkins_hash64_parts_def list.case len)
  with True show ?thesis
    by (simp add: jenkins_hash64_from_parts_def jenkins_part_blocks.simps
        jenkins_init_def hash_result_def jenkins_hash64_contiguous_def)
next
  case False
  show ?thesis
  proof (cases ps rule: remdups_adj.cases)
    case (3 p q qs)
    then have "length p + length q + sum_list (map length qs) = length (concat ps)"
      by (simp add: length_concat)
    with 3 False show ?thesis
      using jenkins_hash64_from_parts_concat [of ps] by (simp add: jenkins_hash64_parts_def add.assoc)
  qed (simp_all add: jenkins_hash64_parts_def)
qed

lemma jenkins_blocks_bound:
  "off \<le> length data \<Longrightarrow> \<exists>off' rem' s'. jenkins_blocks data off (length data - off) s = (off', rem', s') \<and> rem' \<le> 12"
proof -
  assume "off \<le> length data"
  then show ?thesis
    using jenkins_part_blocks_rest [of "part_reader_new [drop off data]" off data "length data - off" s]
    by auto
qed

lemma tail_add_total: "remaining \<le> 12 \<Longrightarrow> 0 < remaining \<Longrightarrow> \<exists>s'. tail_add t remaining s = Some s'"
  by (cases s) (auto simp: tail_add_def Let_def; presburger)

lemma jenkins_hash64_contiguous_total: "\<exists>h. jenkins_hash64_contiguous data = Some h"
proof -
  obtain off rem s where "jenkins_blocks data 0 (length data) (jenkins_init (length data)) = (off, rem, s)"
    and "rem \<le> 12"
    using jenkins_blocks_bound [of 0 data "jenkins_init (length data)"] by auto
  then show ?thesis
    using tail_add_total [of rem "drop off data" s]
    by (cases "rem = 0") (auto simp: jenkins_hash64_contiguous_def)
qed

section \<open>Properties\<close>

text \<open>
  Hashing a payload in parts: for every way of splitting a payload into parts, empty parts
  included, \<open>jenkins_hash64_parts\<close> does not panic and returns the hash of the concatenated payload.
\<close>

theorem jenkins_parts_match_contiguous:
  "\<exists>h. jenkins_hash64_parts ps = Some h \<and> jenkins_hash64 (concat ps) = Some h"
  using jenkins_hash64_contiguous_total [of "concat ps"]
  by (auto simp: jenkins_hash64_parts_concat jenkins_hash64_def)

text \<open>
  The hash stored in DATA and FIELD objects does not depend on whether the payload was given as
  one slice or as \<open>NAME\<close>, \<open>=\<close>, \<open>value\<close> parts, for the plain and for the keyed hash; the only fact
  used about the external SipHash is that it is a streaming hasher.
\<close>

theorem journal_hash_parts_independent:
  assumes "\<And>h a b. sip_write H (sip_write H h a) b = sip_write H h (a @ b)"
    and "\<And>h. sip_write H h [] = h"
  shows "journal_hash_data_parts H ps keyed fid = journal_hash_data H (concat ps) keyed fid"
proof -
  have "foldl (sip_write H) h qs = sip_write H h (concat qs)" for h qs
    by (induction qs arbitrary: h) (auto simp: assms)
  then show ?thesis
    by (simp add: journal_hash_data_def journal_hash_data_parts_def jenkins_hash64_parts_concat
        siphash24_parts_def Let_def split: option.split)
qed

theorem journal_hash_parts_independent_witness:
  "journal_hash_data_parts \<lparr>new_with_keys = (\<lambda>k0 k1. [k0, k1]), sip_write = (\<lambda>h bs. h @ map ucast bs),
       sip_finish = sum_list\<rparr> [[77, 83], [61], [104, 105]] True (Some (replicate 16 7)) =
   journal_hash_data \<lparr>new_with_keys = (\<lambda>k0 k1. [k0, k1]), sip_write = (\<lambda>h bs. h @ map ucast bs),
       sip_finish = sum_list\<rparr> [77, 83, 61, 104, 105] True (Some (replicate 16 7))"
  using journal_hash_parts_independent [of
      "\<lparr>new_with_keys = (\<lambda>k0 k1. [k0, k1]), sip_write = (\<lambda>h bs. h @ map ucast bs), sip_finish = sum_list\<rparr>"
      "[[77, 83], [61], [104, 105]]"]
  by simp

text \<open>A vector of the source's test \<^verbatim>\<open>jenkins_hash64_matches_systemd_lookup3_values\<close>.\<close>

lemma rot_eval:
  assumes "0 < n" and "n < 32"
  shows "rot v n = push_bit n v OR drop_bit (32 - n) v"
proof (rule bit_word_eqI)
  fix i assume "i < LENGTH(32)"
  then have i: "i < 32" by simp
  have md: "(i + (32 - n)) mod 32 = (if n \<le> i then i - n else i + (32 - n))"
    using assms i by (auto simp: mod_if)
  have "bit (rot v n) i = bit v ((i + (32 - n)) mod 32)"
    using i assms by (simp only: rot_def bit_word_rotl_iff) simp
  also have "\<dots> = bit (push_bit n v OR drop_bit (32 - n) v) i"
    unfolding md using i assms
    by (auto simp: bit_simps add.commute dest: bit_imp_le_length)
  finally show "bit (rot v n) i = bit (push_bit n v OR drop_bit (32 - n) v) i" .
qed

lemma final_mix_eq:
  "final_mix (a, b, c) = (
    let c = c XOR b; c = c - rot b 14;
        a = a XOR c; a = a - rot c 11;
        b = b XOR a; b = b - rot a 25;
        c = c XOR b; c = c - rot b 16;
        a = a XOR c; a = a - rot c 4;
        b = b XOR a; b = b - rot a 14;
        c = c XOR b; c = c - rot b 24
    in (a, b, c))"
  by (simp add: final_mix_def)

lemma jenkins_vector_priority:
  "jenkins_hash64 (map (of_nat \<circ> of_char) ''PRIORITY=6'') = Some 0x80f09f19808d26a3"
proof -
  have "jenkins_hash64 (map (of_nat \<circ> of_char) ''PRIORITY=6'') =
    Some (hash_result (final_mix (5066133833, 5234624587, 3735942454)))"
    by (simp add: jenkins_hash64_def jenkins_hash64_contiguous_def jenkins_blocks.simps jenkins_init_def
        tail_add_def read_u32_le_at_def u32_from_le_def or2_def)
  then show ?thesis
    by (simp add: final_mix_eq rot_eval hash_result_def)
qed

end
