(* ===== verification/Journal_Header.thy ===== *)
theory Journal_Header
  imports Journal_Prelude
begin

text \<open>
  The file header: \<^verbatim>\<open>JournalHeader\<close> of \<^verbatim>\<open>journal-core/src/file/object.rs\<close> with its extent and
  population checks, its byte layout, the header checks of \<^verbatim>\<open>header_inventory.rs\<close> and the clearing of
  fields an older, shorter header does not have (\<^verbatim>\<open>file.rs\<close>).  The lemmas show what an accepted header
  promises: no arithmetic of the checks overflows or underflows, every object the header names lies
  aligned inside the arena and the arena inside the file, and the object counts fit together.
\<close>

section \<open>The header\<close>

datatype HeaderIncompatibleFlags = CompressedXz | CompressedLz4 | KeyedHash | CompressedZstd | Compact

fun incompatible_bit :: "HeaderIncompatibleFlags \<Rightarrow> u32" where
  "incompatible_bit CompressedXz = 1"
| "incompatible_bit CompressedLz4 = 2"
| "incompatible_bit KeyedHash = 4"
| "incompatible_bit CompressedZstd = 8"
| "incompatible_bit Compact = 16"

datatype HeaderCompatibleFlags = Sealed | TailEntryBootId | SealedContinuous

fun compatible_bit :: "HeaderCompatibleFlags \<Rightarrow> u32" where
  "compatible_bit Sealed = 1"
| "compatible_bit TailEntryBootId = 2"
| "compatible_bit SealedContinuous = 4"

datatype JournalState = Offline | Online | Archived

definition journal_state_try_from :: "u8 \<Rightarrow> JournalState result" where
  "journal_state_try_from value =
     (if value = 0 then Ok Offline else if value = 1 then Ok Online
      else if value = 2 then Ok Archived else Err InvalidJournalFileState)"

record JournalHeader =
  signature :: "u8 list"
  compatible_flags :: u32
  incompatible_flags :: u32
  state :: u8
  reserved :: "u8 list"
  file_id :: "u8 list"
  machine_id :: "u8 list"
  tail_entry_boot_id :: "u8 list"
  seqnum_id :: "u8 list"
  header_size :: u64
  arena_size :: u64
  data_hash_table_offset :: "u64 option"
  data_hash_table_size :: "u64 option"
  field_hash_table_offset :: "u64 option"
  field_hash_table_size :: "u64 option"
  tail_object_offset :: "u64 option"
  n_objects :: u64
  n_entries :: u64
  tail_entry_seqnum :: u64
  head_entry_seqnum :: u64
  entry_array_offset :: "u64 option"
  head_entry_realtime :: u64
  tail_entry_realtime :: u64
  tail_entry_monotonic :: u64
  n_data :: u64
  n_fields :: u64
  n_tags :: u64
  n_entry_arrays :: u64
  data_hash_chain_depth :: u64
  field_hash_chain_depth :: u64
  tail_entry_array_offset :: u32
  tail_entry_array_n_entries :: u32
  tail_entry_offset :: u64

definition has_incompatible_flag :: "JournalHeader \<Rightarrow> HeaderIncompatibleFlags \<Rightarrow> bool" where
  "has_incompatible_flag h flag \<longleftrightarrow> incompatible_flags h AND incompatible_bit flag \<noteq> 0"

definition has_compatible_flag :: "JournalHeader \<Rightarrow> HeaderCompatibleFlags \<Rightarrow> bool" where
  "has_compatible_flag h flag \<longleftrightarrow> compatible_flags h AND compatible_bit flag \<noteq> 0"

section \<open>Extents\<close>

definition map_or_0 :: "u64 option \<Rightarrow> u64" where
  "map_or_0 x = (case x of None \<Rightarrow> 0 | Some v \<Rightarrow> v)"

definition declared_arena_end :: "JournalHeader \<Rightarrow> u64 result" where
  "declared_arena_end h =
     (if header_size h < 208 \<or> header_size h mod 8 \<noteq> 0 then Err ObjectExceedsFileBounds
      else ok_or (checked_add (header_size h) (arena_size h)) ObjectExceedsFileBounds)"

definition validate_mapping :: "JournalHeader \<Rightarrow> u64 \<Rightarrow> u64 option \<times> u64 option \<Rightarrow> unit result" where
  "validate_mapping h e p =
     (case p of
        (None, None) \<Rightarrow> Ok ()
      | (Some off, Some sz) \<Rightarrow>
          (if off < header_size h \<or> off - header_size h < 16 \<or> off mod 8 \<noteq> 0 \<or>
              sz < 16 \<or> sz mod 16 \<noteq> 0 \<or> e < off \<or> e - off < sz
           then Err ObjectExceedsFileBounds else Ok ())
      | _ \<Rightarrow> Err InvalidObjectLocation)"

definition validate_reader_mappings :: "JournalHeader \<Rightarrow> u64 \<Rightarrow> unit result" where
  "validate_reader_mappings h file_size =
     rbind (declared_arena_end h) (\<lambda>declared.
     let e = min declared file_size
     in if e < header_size h then Err ObjectExceedsFileBounds
        else rforM (validate_mapping h e)
               [(data_hash_table_offset h, data_hash_table_size h),
                (field_hash_table_offset h, field_hash_table_size h)])"

definition minimum_entry_arrays :: "JournalHeader \<Rightarrow> u64" where
  "minimum_entry_arrays h =
     (let first = map_or_0 (entry_array_offset h);
          tail = (if 264 \<le> header_size h then ucast (tail_entry_array_offset h) else 0)
      in of_bool (first \<noteq> 0) + of_bool (tail \<noteq> 0 \<and> tail \<noteq> first))"

definition validate_array_population :: "JournalHeader \<Rightarrow> unit result" where
  "validate_array_population h =
     (if 240 \<le> header_size h \<and> n_entry_arrays h < minimum_entry_arrays h then Err InvalidObjectLocation
      else if header_size h < 264 then Ok ()
      else (let first = map_or_0 (entry_array_offset h);
                off = ucast (tail_entry_array_offset h) :: u64;
                count = ucast (tail_entry_array_n_entries h) :: u64
            in if off < first \<or> (first = 0 \<and> off \<noteq> 0) then Err InvalidObjectLocation
               else if (off = 0) \<noteq> (count = 0) \<or> n_entries h < count then Err InvalidObjectLocation
               else Ok ()))"

text \<open>The counters of the header, each with the header size from which it is present.\<close>

definition population_counts :: "JournalHeader \<Rightarrow> (u64 \<times> u64) list" where
  "population_counts h =
     [(120, of_bool (data_hash_table_offset h \<noteq> None)),
      (136, of_bool (field_hash_table_offset h \<noteq> None)),
      (216, n_data h), (224, n_fields h), (232, n_tags h), (240, n_entry_arrays h)]"

fun population_loop :: "u64 \<Rightarrow> u64 \<Rightarrow> (u64 \<times> u64) list \<Rightarrow> u64 result" where
  "population_loop hsize remaining [] = Ok remaining"
| "population_loop hsize remaining ((e, count) # rows) =
     (if hsize < e then population_loop hsize remaining rows
      else if remaining < count then Err InvalidObjectLocation
      else population_loop hsize (remaining - count) rows)"

definition validate_header_population :: "JournalHeader \<Rightarrow> unit result" where
  "validate_header_population h =
     (if arena_size h div 16 < n_objects h \<or> n_objects h < n_entries h then Err InvalidObjectLocation
      else rbind (population_loop (header_size h) (n_objects h - n_entries h) (population_counts h))
             (\<lambda>_. validate_array_population h))"

definition validate_arena_object :: "JournalHeader \<Rightarrow> u64 \<Rightarrow> u64 \<Rightarrow> u64 \<Rightarrow> unit result" where
  "validate_arena_object h off sz e =
     (if off < header_size h \<or> off mod 8 \<noteq> 0 \<or> map_or_0 (tail_object_offset h) < off \<or>
         e < off \<or> e - off < sz
      then Err ObjectExceedsFileBounds else Ok ())"

definition validated_arena_end :: "JournalHeader \<Rightarrow> u64 \<Rightarrow> u64 result" where
  "validated_arena_end h file_size =
     rbind (validate_reader_mappings h file_size) (\<lambda>_.
     rbind (declared_arena_end h) (\<lambda>e.
     if file_size < e then Err ObjectExceedsFileBounds
     else rbind (validate_header_population h) (\<lambda>_.
       let tail = map_or_0 (tail_object_offset h)
       in if (tail = 0) \<noteq> (n_objects h = 0) then Err InvalidObjectLocation
          else rbind (rforM (\<lambda>(off_opt, sz).
                   case off_opt of None \<Rightarrow> Ok () | Some off \<Rightarrow> validate_arena_object h off sz e)
                 [(tail_object_offset h, 16), (entry_array_offset h, 24)]) (\<lambda>_.
          rbind (rforM (\<lambda>off_opt. case off_opt of None \<Rightarrow> Ok ()
                   | Some off \<Rightarrow> if tail < off - 16 then Err ObjectExceedsFileBounds else Ok ())
                 [data_hash_table_offset h, field_hash_table_offset h]) (\<lambda>_.
          rbind (if 264 \<le> header_size h \<and> tail_entry_array_offset h \<noteq> 0
                 then (let item_size = (if has_incompatible_flag h Compact then 4 else 8);
                           sz = 24 + ucast (tail_entry_array_n_entries h) * item_size
                       in validate_arena_object h (ucast (tail_entry_array_offset h)) sz e)
                 else Ok ()) (\<lambda>_.
          rbind (if 272 \<le> header_size h \<and> tail_entry_offset h \<noteq> 0
                 then validate_arena_object h (tail_entry_offset h) 64 e
                 else Ok ()) (\<lambda>_.
          Ok e)))))))"

definition validate_empty_entry_metadata :: "JournalHeader \<Rightarrow> unit result" where
  "validate_empty_entry_metadata h =
     (if n_entries h \<noteq> 0 then Ok ()
      else if head_entry_seqnum h \<noteq> 0 \<or> entry_array_offset h \<noteq> None \<or>
              head_entry_realtime h \<noteq> 0 \<or> tail_entry_realtime h \<noteq> 0 \<or> tail_entry_monotonic h \<noteq> 0 \<or>
              (264 \<le> header_size h \<and>
                (tail_entry_array_offset h \<noteq> 0 \<or> tail_entry_array_n_entries h \<noteq> 0)) \<or>
              (272 \<le> header_size h \<and> tail_entry_offset h \<noteq> 0) \<or>
              (272 \<le> header_size h \<and> has_compatible_flag h TailEntryBootId \<and>
                tail_entry_boot_id h \<noteq> replicate 16 0)
           then Err InvalidObjectLocation
           else Ok ())"

section \<open>Headers shorter than the current one\<close>

definition sanitize_header_for_size :: "JournalHeader \<Rightarrow> JournalHeader" where
  "sanitize_header_for_size h0 =
     (let h = h0;
          h = (if header_size h < 216 then h\<lparr>n_data := 0\<rparr> else h);
          h = (if header_size h < 224 then h\<lparr>n_fields := 0\<rparr> else h);
          h = (if header_size h < 232 then h\<lparr>n_tags := 0\<rparr> else h);
          h = (if header_size h < 240 then h\<lparr>n_entry_arrays := 0\<rparr> else h);
          h = (if header_size h < 248 then h\<lparr>data_hash_chain_depth := 0\<rparr> else h);
          h = (if header_size h < 256 then h\<lparr>field_hash_chain_depth := 0\<rparr> else h);
          h = (if header_size h < 260 then h\<lparr>tail_entry_array_offset := 0\<rparr> else h);
          h = (if header_size h < 264 then h\<lparr>tail_entry_array_n_entries := 0\<rparr> else h);
          h = (if header_size h < 272 then h\<lparr>tail_entry_offset := 0\<rparr> else h)
      in h)"

section \<open>Byte layout\<close>

text \<open>\<open>#[repr(C)]\<close> with little-endian fields: \<open>JournalHeader::read_from_prefix\<close> of a 272-byte prefix.\<close>

definition header_from_bytes :: "u8 list \<Rightarrow> JournalHeader option" where
  "header_from_bytes bs =
     (if length bs < 272 then None
      else Some \<lparr>signature = bytes_at bs 0 8,
                 compatible_flags = u32_at bs 8,
                 incompatible_flags = u32_at bs 12,
                 state = bs ! 16,
                 reserved = bytes_at bs 17 7,
                 file_id = bytes_at bs 24 16,
                 machine_id = bytes_at bs 40 16,
                 tail_entry_boot_id = bytes_at bs 56 16,
                 seqnum_id = bytes_at bs 72 16,
                 header_size = u64_at bs 88,
                 arena_size = u64_at bs 96,
                 data_hash_table_offset = nonzero (u64_at bs 104),
                 data_hash_table_size = nonzero (u64_at bs 112),
                 field_hash_table_offset = nonzero (u64_at bs 120),
                 field_hash_table_size = nonzero (u64_at bs 128),
                 tail_object_offset = nonzero (u64_at bs 136),
                 n_objects = u64_at bs 144,
                 n_entries = u64_at bs 152,
                 tail_entry_seqnum = u64_at bs 160,
                 head_entry_seqnum = u64_at bs 168,
                 entry_array_offset = nonzero (u64_at bs 176),
                 head_entry_realtime = u64_at bs 184,
                 tail_entry_realtime = u64_at bs 192,
                 tail_entry_monotonic = u64_at bs 200,
                 n_data = u64_at bs 208,
                 n_fields = u64_at bs 216,
                 n_tags = u64_at bs 224,
                 n_entry_arrays = u64_at bs 232,
                 data_hash_chain_depth = u64_at bs 240,
                 field_hash_chain_depth = u64_at bs 248,
                 tail_entry_array_offset = u32_at bs 256,
                 tail_entry_array_n_entries = u32_at bs 260,
                 tail_entry_offset = u64_at bs 264\<rparr>)"

text \<open>\<open>IntoBytes\<close> for the same structure: the bytes the writer stores at the start of the file.\<close>

definition header_to_bytes :: "JournalHeader \<Rightarrow> u8 list" where
  "header_to_bytes h =
     signature h @ to_le 4 (compatible_flags h) @ to_le 4 (incompatible_flags h) @ [state h] @
     reserved h @ file_id h @ machine_id h @ tail_entry_boot_id h @ seqnum_id h @
     concat (map (to_le 8)
       [header_size h, arena_size h, map_or_0 (data_hash_table_offset h),
        map_or_0 (data_hash_table_size h), map_or_0 (field_hash_table_offset h),
        map_or_0 (field_hash_table_size h), map_or_0 (tail_object_offset h), n_objects h, n_entries h,
        tail_entry_seqnum h, head_entry_seqnum h, map_or_0 (entry_array_offset h),
        head_entry_realtime h, tail_entry_realtime h, tail_entry_monotonic h,
        n_data h, n_fields h, n_tags h, n_entry_arrays h,
        data_hash_chain_depth h, field_hash_chain_depth h]) @
     to_le 4 (tail_entry_array_offset h) @ to_le 4 (tail_entry_array_n_entries h) @
     to_le 8 (tail_entry_offset h)"

text \<open>What the Rust types guarantee: array lengths, and no \<open>Some(0)\<close> in an \<open>Option<NonZeroU64>\<close>.\<close>

definition header_wf :: "JournalHeader \<Rightarrow> bool" where
  "header_wf h \<longleftrightarrow>
     length (signature h) = 8 \<and> length (reserved h) = 7 \<and> length (file_id h) = 16 \<and>
     length (machine_id h) = 16 \<and> length (tail_entry_boot_id h) = 16 \<and> length (seqnum_id h) = 16 \<and>
     Some 0 \<notin> {data_hash_table_offset h, data_hash_table_size h, field_hash_table_offset h,
        field_hash_table_size h, tail_object_offset h, entry_array_offset h}"

section \<open>Header inventory\<close>

text \<open>The signature \<^verbatim>\<open>LPKSHHRH\<close>.\<close>

definition journal_signature :: "u8 list" where
  "journal_signature = [76, 80, 75, 83, 72, 72, 82, 72]"

definition validate_writer_compatibility :: "JournalHeader \<Rightarrow> unit result" where
  "validate_writer_compatibility h =
     (if signature h \<noteq> journal_signature then Err InvalidMagicNumber
      else if header_size h < 272 \<or> incompatible_flags h AND NOT 0x1f \<noteq> 0 \<or>
              \<not> has_incompatible_flag h KeyedHash
           then Err UnsupportedJournalFile
           else Ok ())"

definition validate_retention_metadata :: "JournalHeader \<Rightarrow> unit result" where
  "validate_retention_metadata h =
     (if file_id h = replicate 16 0 \<or> seqnum_id h = replicate 16 0 \<or>
         data_hash_table_offset h = None \<or> field_hash_table_offset h = None \<or>
         tail_object_offset h = None \<or>
         (0 < n_entries h \<and>
           (entry_array_offset h = None \<or> head_entry_seqnum h = 0 \<or>
            tail_entry_seqnum h < head_entry_seqnum h \<or>
            tail_entry_seqnum h - head_entry_seqnum h < n_entries h - 1 \<or>
            tail_entry_realtime h < head_entry_realtime h))
      then Err InvalidObjectLocation else Ok ())"

text \<open>
  \<open>read_retention_header\<close> on the contents of the opened file; a short file fails in
  \<open>read_file_exact_at\<close> with an \<open>UnexpectedEof\<close>.
\<close>

definition read_retention_header :: "u8 list \<Rightarrow> (JournalHeader \<times> u64) result" where
  "read_retention_header contents =
     rbind (ok_or (header_from_bytes contents) (Io UnexpectedEof)) (\<lambda>h.
     let bytes = of_nat (length contents)
     in rbind (validate_writer_compatibility h) (\<lambda>_.
        rbind (validated_arena_end h bytes) (\<lambda>_.
        rbind (validate_empty_entry_metadata h) (\<lambda>_.
        rbind (journal_state_try_from (state h)) (\<lambda>_.
        rbind (validate_retention_metadata h) (\<lambda>_. Ok (h, bytes)))))))"

lemma nonzero_map_or_0: "Some 0 \<noteq> x \<Longrightarrow> nonzero (map_or_0 x) = x"
  by (cases x) (auto simp: map_or_0_def nonzero_def)

lemma header_from_to_bytes:
  assumes "header_wf h"
  shows "header_from_bytes (header_to_bytes h @ rest) = Some h"
  using assms
  by (simp add: header_wf_def header_from_bytes_def header_to_bytes_def u64_at_def u32_at_def
      bytes_at_def from_le_to_le nonzero_map_or_0 nth_append)

lemma length_header_to_bytes: "header_wf h \<Longrightarrow> length (header_to_bytes h) = 272"
  by (simp add: header_wf_def header_to_bytes_def)

section \<open>What an accepted header promises\<close>

text \<open>An object of \<open>n\<close> bytes at \<open>off\<close> lies aligned between the header and the arena end \<open>e\<close>.\<close>

definition object_fits :: "JournalHeader \<Rightarrow> u64 \<Rightarrow> u64 \<Rightarrow> nat \<Rightarrow> bool" where
  "object_fits h e off n \<longleftrightarrow>
     unat (header_size h) \<le> unat off \<and> unat off mod 8 = 0 \<and> unat off + n \<le> unat e"

lemma unat_mod_8:
  fixes w :: u64
  assumes "w mod 8 = 0"
  shows "unat w mod 8 = 0"
proof -
  have "unat (w mod 8) = unat w mod 8" by (simp only: unat_mod_distrib) simp
  with assms show ?thesis by (simp only: unat_0)
qed

lemma unat_mod_16:
  fixes w :: u64
  assumes "w mod 16 = 0"
  shows "unat w mod 16 = 0"
proof -
  have "unat (w mod 16) = unat w mod 16" by (simp only: unat_mod_distrib) simp
  with assms show ?thesis by (simp only: unat_0)
qed

lemma declared_arena_end_Ok:
  assumes "declared_arena_end h = Ok e"
  shows "unat e = unat (header_size h) + unat (arena_size h)"
    and "208 \<le> unat (header_size h)" and "unat (header_size h) mod 8 = 0"
proof -
  have c: "\<not> header_size h < 208" "header_size h mod 8 = 0"
    "checked_add (header_size h) (arena_size h) = Some e"
    using assms unfolding declared_arena_end_def by (auto simp: ok_or_eq_Ok split: if_splits)
  show "unat e = unat (header_size h) + unat (arena_size h)" using c(3) by (rule unat_checked_add)
  show "208 \<le> unat (header_size h)" using c(1) by (simp add: word_less_nat_alt)
  show "unat (header_size h) mod 8 = 0" using c(2) by (rule unat_mod_8)
qed

lemma validate_mapping_Ok:
  assumes "validate_mapping h e (Some off, Some sz) = Ok u"
  shows "object_fits h e off (unat sz)" and "unat (header_size h) + 16 \<le> unat off"
    and "16 \<le> unat sz" and "unat sz mod 16 = 0"
proof -
  have c: "header_size h \<le> off" "16 \<le> off - header_size h" "off mod 8 = 0" "16 \<le> sz" "sz mod 16 = 0"
    "off \<le> e" "sz \<le> e - off"
    using assms by (auto simp: validate_mapping_def not_less split: if_splits)
  show "unat sz mod 16 = 0" using c(5) by (rule unat_mod_16)
  have "unat off mod 8 = 0" using c(3) by (rule unat_mod_8)
  then show "object_fits h e off (unat sz)"
    using c(1,6,7) by (auto simp: object_fits_def word_le_nat_alt unat_sub)
  show "unat (header_size h) + 16 \<le> unat off"
    using c(1,2) by (simp add: word_le_nat_alt unat_sub)
  show "16 \<le> unat sz" using c(4) by (simp add: word_le_nat_alt)
qed

lemma validate_mapping_paired: "validate_mapping h e (a, b) = Ok u \<Longrightarrow> (a = None) = (b = None)"
  by (auto simp: validate_mapping_def split: option.splits)

lemma validate_arena_object_Ok:
  assumes "validate_arena_object h off sz e = Ok u"
  shows "object_fits h e off (unat sz)" and "off \<le> map_or_0 (tail_object_offset h)"
proof -
  have c: "header_size h \<le> off" "off mod 8 = 0" "off \<le> map_or_0 (tail_object_offset h)"
    "off \<le> e" "sz \<le> e - off"
    using assms by (auto simp: validate_arena_object_def not_less split: if_splits)
  have "unat off mod 8 = 0" using c(2) by (rule unat_mod_8)
  then show "object_fits h e off (unat sz)"
    using c(1,4,5) by (auto simp: object_fits_def word_le_nat_alt unat_sub)
  show "off \<le> map_or_0 (tail_object_offset h)" by (rule c)
qed

lemma population_loop_Ok:
  "population_loop hsize remaining rows = Ok left \<Longrightarrow>
   (\<Sum>(e, count) \<leftarrow> rows. if e \<le> hsize then unat count else 0) + unat left = unat remaining"
proof (induction hsize remaining rows rule: population_loop.induct)
  case (1 hsize remaining)
  then show ?case by simp
next
  case (2 hsize remaining e count rows)
  then show ?case
    by (auto simp: word_less_nat_alt word_le_nat_alt unat_sub split: if_splits)
qed

lemma tail_array_size:
  fixes n :: u32
  shows "unat (24 + ucast n * (if c then 4 else 8) :: u64) = 24 + unat n * (if c then 4 else 8)"
proof -
  have n: "unat n < 2 ^ 32" using unsigned_less [of n, where ?'a = nat] by simp
  have "unat (ucast n * (if c then 4 else 8) :: u64) = unat n * (if c then 4 else 8)"
    using n by (simp add: unat_word_ariths)
  then show ?thesis using n by (simp add: unat_word_ariths)
qed

lemma validated_arena_end_parts:
  assumes "validated_arena_end h file_size = Ok e"
  shows "validate_reader_mappings h file_size = Ok ()" and "declared_arena_end h = Ok e"
    and "e \<le> file_size" and "validate_header_population h = Ok ()"
    and "tail_object_offset h = Some t \<Longrightarrow> validate_arena_object h t 16 e = Ok ()"
    and "entry_array_offset h = Some a \<Longrightarrow> validate_arena_object h a 24 e = Ok ()"
    and "264 \<le> header_size h \<Longrightarrow> tail_entry_array_offset h \<noteq> 0 \<Longrightarrow>
      validate_arena_object h (ucast (tail_entry_array_offset h))
        (24 + ucast (tail_entry_array_n_entries h) * (if has_incompatible_flag h Compact then 4 else 8)) e
      = Ok ()"
    and "272 \<le> header_size h \<Longrightarrow> tail_entry_offset h \<noteq> 0 \<Longrightarrow>
      validate_arena_object h (tail_entry_offset h) 64 e = Ok ()"
  using assms
  by (auto simp: validated_arena_end_def rbind_eq_Ok Let_def not_less split: if_splits)

lemma validated_mappings:
  assumes "validated_arena_end h file_size = Ok e"
  shows "validate_mapping h e (data_hash_table_offset h, data_hash_table_size h) = Ok ()"
    and "validate_mapping h e (field_hash_table_offset h, field_hash_table_size h) = Ok ()"
  using validated_arena_end_parts(1-3) [OF assms]
  by (auto simp: validate_reader_mappings_def rbind_eq_Ok Let_def min_absorb1 split: if_splits)

lemma validate_header_population_Ok:
  assumes "validate_header_population h = Ok u"
  shows "unat (n_objects h) * 16 \<le> unat (arena_size h)"
    and "unat (n_entries h) +
      (\<Sum>(e, count) \<leftarrow> population_counts h. if e \<le> header_size h then unat count else 0)
      \<le> unat (n_objects h)"
    and "validate_array_population h = Ok ()"
proof -
  obtain left where c: "n_objects h \<le> arena_size h div 16" "n_entries h \<le> n_objects h"
    "population_loop (header_size h) (n_objects h - n_entries h) (population_counts h) = Ok left"
    "validate_array_population h = Ok ()"
    using assms by (auto simp: validate_header_population_def rbind_eq_Ok not_less split: if_splits)
  have "unat (arena_size h div 16) = unat (arena_size h) div 16"
    by (simp only: unat_div_distrib) simp
  with c(1) show "unat (n_objects h) * 16 \<le> unat (arena_size h)"
    by (simp add: word_le_nat_alt)
  show "unat (n_entries h) +
      (\<Sum>(e, count) \<leftarrow> population_counts h. if e \<le> header_size h then unat count else 0)
      \<le> unat (n_objects h)"
    using population_loop_Ok [OF c(3)] c(2) by (simp add: word_le_nat_alt unat_sub)
  show "validate_array_population h = Ok ()" by (rule c)
qed

lemma clear_field_cases:
  "(if b then h\<lparr>n_data := 0\<rparr> else h) = h\<lparr>n_data := if b then 0 else n_data h\<rparr>"
  "(if b then h\<lparr>n_fields := 0\<rparr> else h) = h\<lparr>n_fields := if b then 0 else n_fields h\<rparr>"
  "(if b then h\<lparr>n_tags := 0\<rparr> else h) = h\<lparr>n_tags := if b then 0 else n_tags h\<rparr>"
  "(if b then h\<lparr>n_entry_arrays := 0\<rparr> else h) = h\<lparr>n_entry_arrays := if b then 0 else n_entry_arrays h\<rparr>"
  "(if b then h\<lparr>data_hash_chain_depth := 0\<rparr> else h) =
     h\<lparr>data_hash_chain_depth := if b then 0 else data_hash_chain_depth h\<rparr>"
  "(if b then h\<lparr>field_hash_chain_depth := 0\<rparr> else h) =
     h\<lparr>field_hash_chain_depth := if b then 0 else field_hash_chain_depth h\<rparr>"
  "(if b then h\<lparr>tail_entry_array_offset := 0\<rparr> else h) =
     h\<lparr>tail_entry_array_offset := if b then 0 else tail_entry_array_offset h\<rparr>"
  "(if b then h\<lparr>tail_entry_array_n_entries := 0\<rparr> else h) =
     h\<lparr>tail_entry_array_n_entries := if b then 0 else tail_entry_array_n_entries h\<rparr>"
  "(if b then h\<lparr>tail_entry_offset := 0\<rparr> else h) = h\<lparr>tail_entry_offset := if b then 0 else tail_entry_offset h\<rparr>"
  for h :: JournalHeader
  by simp_all

lemma sanitize_header_eq:
  "sanitize_header_for_size h =
     h\<lparr>n_data := if header_size h < 216 then 0 else n_data h,
       n_fields := if header_size h < 224 then 0 else n_fields h,
       n_tags := if header_size h < 232 then 0 else n_tags h,
       n_entry_arrays := if header_size h < 240 then 0 else n_entry_arrays h,
       data_hash_chain_depth := if header_size h < 248 then 0 else data_hash_chain_depth h,
       field_hash_chain_depth := if header_size h < 256 then 0 else field_hash_chain_depth h,
       tail_entry_array_offset := if header_size h < 260 then 0 else tail_entry_array_offset h,
       tail_entry_array_n_entries := if header_size h < 264 then 0 else tail_entry_array_n_entries h,
       tail_entry_offset := if header_size h < 272 then 0 else tail_entry_offset h\<rparr>"
  unfolding sanitize_header_for_size_def Let_def clear_field_cases
  by (simp split del: if_split cong: if_cong)

text \<open>A small file with two hash tables, one entry array and one entry, used by the witnesses.\<close>

definition sample_header :: JournalHeader where
  "sample_header = \<lparr>signature = journal_signature, compatible_flags = 0, incompatible_flags = 4,
     state = 1, reserved = replicate 7 0, file_id = replicate 16 1, machine_id = replicate 16 2,
     tail_entry_boot_id = replicate 16 3, seqnum_id = replicate 16 4,
     header_size = 272, arena_size = 4096,
     data_hash_table_offset = Some 288, data_hash_table_size = Some 32,
     field_hash_table_offset = Some 336, field_hash_table_size = Some 32,
     tail_object_offset = Some 424, n_objects = 4, n_entries = 1,
     tail_entry_seqnum = 7, head_entry_seqnum = 7, entry_array_offset = Some 368,
     head_entry_realtime = 9, tail_entry_realtime = 9, tail_entry_monotonic = 5,
     n_data = 0, n_fields = 0, n_tags = 0, n_entry_arrays = 1,
     data_hash_chain_depth = 0, field_hash_chain_depth = 0,
     tail_entry_array_offset = 368, tail_entry_array_n_entries = 1, tail_entry_offset = 424\<rparr>"

lemma sample_header_wf: "header_wf sample_header"
  by (simp add: header_wf_def sample_header_def journal_signature_def)

lemmas sample_header_checks = validated_arena_end_def validate_reader_mappings_def
  declared_arena_end_def checked_add_def validate_mapping_def validate_header_population_def
  population_counts_def validate_array_population_def minimum_entry_arrays_def map_or_0_def
  validate_arena_object_def has_incompatible_flag_def

lemma sample_header_accepted: "validated_arena_end sample_header 8192 = Ok 4368"
  by (simp add: sample_header_def sample_header_checks)

lemma sample_header_accepted_exact: "validated_arena_end sample_header 4368 = Ok 4368"
  by (simp add: sample_header_def sample_header_checks)

section \<open>Properties\<close>

text \<open>
  Extents: when \<open>validated_arena_end\<close> accepts a header, the arena end it returns is the exact sum
  of header and arena size (the addition did not wrap), it is inside the file, and every object the
  header names (the 16 bytes of the tail object's header, the 24 bytes of the entry array's, both hash tables, the cached
  tail entry array with all its items, the 64 bytes of the cached tail entry's header) lies 8-byte aligned between
  the header and the arena end.
\<close>

theorem validated_arena_end_extents:
  assumes "validated_arena_end h file_size = Ok e"
  shows "unat e = unat (header_size h) + unat (arena_size h) \<and> e \<le> file_size \<and>
    (\<forall>t. tail_object_offset h = Some t \<longrightarrow> object_fits h e t 16) \<and>
    (\<forall>a. entry_array_offset h = Some a \<longrightarrow> object_fits h e a 24) \<and>
    (\<forall>d n. data_hash_table_offset h = Some d \<longrightarrow> data_hash_table_size h = Some n \<longrightarrow>
       object_fits h e d (unat n)) \<and>
    (\<forall>f n. field_hash_table_offset h = Some f \<longrightarrow> field_hash_table_size h = Some n \<longrightarrow>
       object_fits h e f (unat n)) \<and>
    (264 \<le> header_size h \<longrightarrow> tail_entry_array_offset h \<noteq> 0 \<longrightarrow>
       object_fits h e (ucast (tail_entry_array_offset h))
         (24 + unat (tail_entry_array_n_entries h) * (if has_incompatible_flag h Compact then 4 else 8))) \<and>
    (272 \<le> header_size h \<longrightarrow> tail_entry_offset h \<noteq> 0 \<longrightarrow> object_fits h e (tail_entry_offset h) 64)"
proof -
  note p = validated_arena_end_parts [OF assms]
  have "object_fits h e t 16" if "tail_object_offset h = Some t" for t
    using validate_arena_object_Ok(1) [OF p(5) [OF that]] by simp
  moreover have "object_fits h e a 24" if "entry_array_offset h = Some a" for a
    using validate_arena_object_Ok(1) [OF p(6) [OF that]] by simp
  moreover have "object_fits h e (ucast (tail_entry_array_offset h))
      (24 + unat (tail_entry_array_n_entries h) * (if has_incompatible_flag h Compact then 4 else 8))"
    if "264 \<le> header_size h" "tail_entry_array_offset h \<noteq> 0"
    using validate_arena_object_Ok(1) [OF p(7) [OF that]] by (simp only: tail_array_size)
  moreover have "object_fits h e (tail_entry_offset h) 64"
    if "272 \<le> header_size h" "tail_entry_offset h \<noteq> 0"
    using validate_arena_object_Ok(1) [OF p(8) [OF that]] by simp
  ultimately show ?thesis
    using p(3) declared_arena_end_Ok(1) [OF p(2)] validated_mappings [OF assms]
    by (auto dest: validate_mapping_Ok(1))
qed

theorem validated_arena_end_extents_witness:
  "unat (4368 :: u64) = unat (header_size sample_header) + unat (arena_size sample_header) \<and>
   object_fits sample_header 4368 424 16 \<and> object_fits sample_header 4368 288 32"
  using validated_arena_end_extents [OF sample_header_accepted]
  by (auto simp: sample_header_def)

text \<open>
  Population: an accepted header declares at most one object per 16 bytes of arena, and the
  entries, hash tables, data, field, tag and entry-array objects it counts (as far as the header is
  long enough to have the counter) together do not exceed the number of objects; the sum is taken
  over the naturals, so it cannot have wrapped.
\<close>

theorem validated_population:
  assumes "validated_arena_end h file_size = Ok e" and "240 \<le> header_size h"
  shows "unat (n_objects h) * 16 \<le> unat (arena_size h) \<and>
    unat (n_entries h) + of_bool (data_hash_table_offset h \<noteq> None) +
      of_bool (field_hash_table_offset h \<noteq> None) + unat (n_data h) + unat (n_fields h) +
      unat (n_tags h) + unat (n_entry_arrays h) \<le> unat (n_objects h) \<and>
    (264 \<le> header_size h \<longrightarrow> unat (tail_entry_array_n_entries h) \<le> unat (n_entries h))"
proof -
  note p = validate_header_population_Ok [OF validated_arena_end_parts(4) [OF assms(1)]]
  have sz: "120 \<le> header_size h" "136 \<le> header_size h" "216 \<le> header_size h" "224 \<le> header_size h"
    "232 \<le> header_size h"
    using assms(2) by (auto simp: word_le_nat_alt)
  have "unat (tail_entry_array_n_entries h) \<le> unat (n_entries h)" if "264 \<le> header_size h"
    using p(3) that
    by (auto simp: validate_array_population_def Let_def not_less word_le_nat_alt word_less_nat_alt
        split: if_splits)
  then show ?thesis
    using p(1,2) sz assms(2)
    by (auto simp: population_counts_def)
qed

theorem validated_population_witness:
  "unat (n_entries sample_header) + 1 + 1 + unat (n_entry_arrays sample_header) \<le> unat (n_objects sample_header)"
  using validated_population [OF sample_header_accepted]
  by (simp add: sample_header_def)

text \<open>
  A header shorter than the current layout: after \<open>sanitize_header_for_size\<close> every field that does
  not lie completely inside \<open>header_size\<close> reads as zero, every other field is unchanged, and the
  operation is idempotent.
\<close>

theorem sanitize_header_exact:
  "sanitize_header_for_size h =
     h\<lparr>n_data := if header_size h < 216 then 0 else n_data h,
       n_fields := if header_size h < 224 then 0 else n_fields h,
       n_tags := if header_size h < 232 then 0 else n_tags h,
       n_entry_arrays := if header_size h < 240 then 0 else n_entry_arrays h,
       data_hash_chain_depth := if header_size h < 248 then 0 else data_hash_chain_depth h,
       field_hash_chain_depth := if header_size h < 256 then 0 else field_hash_chain_depth h,
       tail_entry_array_offset := if header_size h < 260 then 0 else tail_entry_array_offset h,
       tail_entry_array_n_entries := if header_size h < 264 then 0 else tail_entry_array_n_entries h,
       tail_entry_offset := if header_size h < 272 then 0 else tail_entry_offset h\<rparr> \<and>
   sanitize_header_for_size (sanitize_header_for_size h) = sanitize_header_for_size h"
  by (simp add: sanitize_header_eq split del: if_split cong: if_cong)

text \<open>
  A header accepted for retention describes a consistent run of entries: the file is long enough
  for the arena, the keyed hash is on, both hash tables and a tail object exist, and with entries
  present the sequence numbers span at least as many values as there are entries.
\<close>

theorem read_retention_header_accepts:
  assumes "read_retention_header contents = Ok (h, bytes)" and "length contents < 2 ^ 64"
  shows "unat (header_size h) + unat (arena_size h) \<le> length contents \<and>
    has_incompatible_flag h KeyedHash \<and> tail_object_offset h \<noteq> None \<and>
    data_hash_table_offset h \<noteq> None \<and> field_hash_table_offset h \<noteq> None \<and>
    (0 < n_entries h \<longrightarrow> entry_array_offset h \<noteq> None \<and>
       unat (head_entry_seqnum h) + unat (n_entries h) \<le> Suc (unat (tail_entry_seqnum h)) \<and>
       head_entry_realtime h \<le> tail_entry_realtime h) \<and>
    (n_entries h = 0 \<longrightarrow> entry_array_offset h = None \<and> tail_entry_offset h = 0)"
proof -
  obtain e where w: "validate_writer_compatibility h = Ok ()"
    and v: "validated_arena_end h (of_nat (length contents)) = Ok e"
    and m: "validate_empty_entry_metadata h = Ok ()" and r: "validate_retention_metadata h = Ok ()"
    using assms(1) by (auto simp: read_retention_header_def rbind_eq_Ok Let_def)
  have "unat e = unat (header_size h) + unat (arena_size h)" "e \<le> of_nat (length contents)"
    using validated_arena_end_parts(2,3) [OF v] declared_arena_end_Ok(1) by auto
  then have "unat (header_size h) + unat (arena_size h) \<le> length contents"
    using assms(2) by (simp add: word_le_nat_alt unat_of_nat)
  moreover have "unat (head_entry_seqnum h) + unat (n_entries h) \<le> Suc (unat (tail_entry_seqnum h))"
    if "0 < n_entries h"
  proof -
    have "head_entry_seqnum h \<le> tail_entry_seqnum h"
      "n_entries h - 1 \<le> tail_entry_seqnum h - head_entry_seqnum h"
      using r that by (auto simp: validate_retention_metadata_def not_less split: if_splits)
    then show ?thesis
      using that by (simp add: word_le_nat_alt unat_sub word_less_nat_alt unat_minus_one)
  qed
  moreover have "has_incompatible_flag h KeyedHash" and "272 \<le> header_size h"
    using w by (auto simp: validate_writer_compatibility_def not_less split: if_splits)
  ultimately show ?thesis
    using r m by (auto simp: validate_retention_metadata_def validate_empty_entry_metadata_def not_less
        split: if_splits)
qed

theorem read_retention_header_accepts_witness:
  "unat (header_size sample_header) + unat (arena_size sample_header)
     \<le> length (header_to_bytes sample_header @ replicate 4096 0) \<and>
   unat (head_entry_seqnum sample_header) + unat (n_entries sample_header)
     \<le> Suc (unat (tail_entry_seqnum sample_header))"
proof -
  let ?c = "header_to_bytes sample_header @ replicate 4096 0"
  have len: "length ?c = 4368" by (simp add: length_header_to_bytes [OF sample_header_wf])
  have "validate_writer_compatibility sample_header = Ok ()"
    "validate_empty_entry_metadata sample_header = Ok ()"
    "journal_state_try_from (state sample_header) = Ok Online"
    "validate_retention_metadata sample_header = Ok ()"
    by (simp_all add: sample_header_def validate_writer_compatibility_def has_incompatible_flag_def
        validate_empty_entry_metadata_def journal_state_try_from_def validate_retention_metadata_def)
  then have "read_retention_header ?c = Ok (sample_header, 4368)"
    by (simp add: read_retention_header_def header_from_to_bytes [OF sample_header_wf] len
        length_header_to_bytes [OF sample_header_wf] sample_header_accepted_exact)
  from read_retention_header_accepts [OF this] len show ?thesis
    by (simp add: sample_header_def)
qed

text \<open>
  The header survives the file: decoding the bytes of a well-typed header gives it back, whatever
  follows it in the file.
\<close>

theorem header_bytes_roundtrip:
  assumes "header_wf h"
  shows "header_from_bytes (header_to_bytes h @ rest) = Some h \<and> length (header_to_bytes h) = 272"
  using assms by (simp add: header_from_to_bytes length_header_to_bytes)

theorem header_bytes_roundtrip_witness:
  "header_from_bytes (header_to_bytes sample_header @ [1, 2, 3]) = Some sample_header"
  using header_bytes_roundtrip [OF sample_header_wf] by blast

end
