(* ===== verification/Journal_Object.thy ===== *)
theory Journal_Object
  imports Journal_Prelude
begin

text \<open>
  The objects of the arena as they are read from bytes: object headers, offset arrays, entries and
  data objects of \<^verbatim>\<open>journal-core/src/file/object.rs\<close>, with the alignment check of \<^verbatim>\<open>file.rs\<close>.
  \<open>from_data\<close> follows the zero-copy parsers: it fails where the slice is shorter than the fixed part
  or the rest is not a whole number of items.
\<close>

section \<open>Object headers\<close>

datatype ObjectType = Unused | Data | Field | Entry | DataHashTable | FieldHashTable | EntryArray | Tag

definition object_type_try_from :: "u8 \<Rightarrow> ObjectType result" where
  "object_type_try_from value =
     (if value = 0 then Ok Unused else if value = 1 then Ok Data else if value = 2 then Ok Field
      else if value = 3 then Ok Entry else if value = 4 then Ok DataHashTable
      else if value = 5 then Ok FieldHashTable else if value = 6 then Ok EntryArray
      else if value = 7 then Ok Tag else Err InvalidObjectType)"

fun object_type_code :: "ObjectType \<Rightarrow> u8" where
  "object_type_code Unused = 0"
| "object_type_code Data = 1"
| "object_type_code Field = 2"
| "object_type_code Entry = 3"
| "object_type_code DataHashTable = 4"
| "object_type_code FieldHashTable = 5"
| "object_type_code EntryArray = 6"
| "object_type_code Tag = 7"

record ObjectHeader =
  obj_type :: u8
  flags :: u8
  obj_reserved :: "u8 list"
  obj_size :: u64

definition object_header_from_bytes :: "u8 list \<Rightarrow> ObjectHeader" where
  "object_header_from_bytes bs =
     \<lparr>obj_type = bs ! 0, flags = bs ! 1, obj_reserved = bytes_at bs 2 6, obj_size = u64_at bs 8\<rparr>"

definition xz_compressed :: "ObjectHeader \<Rightarrow> bool" where
  "xz_compressed h \<longleftrightarrow> flags h AND 1 \<noteq> 0"

definition lz4_compressed :: "ObjectHeader \<Rightarrow> bool" where
  "lz4_compressed h \<longleftrightarrow> flags h AND 2 \<noteq> 0"

definition zstd_compressed :: "ObjectHeader \<Rightarrow> bool" where
  "zstd_compressed h \<longleftrightarrow> flags h AND 4 \<noteq> 0"

definition is_compressed :: "ObjectHeader \<Rightarrow> bool" where
  "is_compressed h \<longleftrightarrow> zstd_compressed h \<or> lz4_compressed h \<or> xz_compressed h"

definition aligned_size :: "ObjectHeader \<Rightarrow> u64" where
  "aligned_size h = (obj_size h + 7) AND NOT 7"

definition validated_size :: "ObjectHeader \<Rightarrow> u64 result" where
  "validated_size h = (if obj_size h < 16 then Err (InvalidObjectSize (obj_size h)) else Ok (obj_size h))"

definition validate_offset_alignment :: "u64 \<Rightarrow> unit result" where
  "validate_offset_alignment off = (if off mod 8 \<noteq> 0 then Err (MisalignedOffset off) else Ok ())"

section \<open>Offset arrays\<close>

datatype OffsetsType =
    Regular "u64 option list"
  | CompactItems "u32 option list"

record OffsetArrayObject =
  array_header :: ObjectHeader
  next_offset_array :: "u64 option"
  items :: OffsetsType

text \<open>\<open>offsets[index]\<close>; an index out of range panics.\<close>

fun offsets_get :: "OffsetsType \<Rightarrow> nat \<Rightarrow> u64 option result" where
  "offsets_get (Regular offsets) index =
     (if index < length offsets then Ok (offsets ! index) else Err Panic)"
| "offsets_get (CompactItems offsets) index =
     (if index < length offsets then Ok (map_option ucast (offsets ! index)) else Err Panic)"

fun offsets_set :: "OffsetsType \<Rightarrow> nat \<Rightarrow> u64 \<Rightarrow> OffsetsType result" where
  "offsets_set (Regular offsets) index value =
     (if index < length offsets then Ok (Regular (offsets[index := Some value])) else Err Panic)"
| "offsets_set (CompactItems offsets) index value =
     (if value \<le> 0xffffffff \<and> index < length offsets
      then Ok (CompactItems (offsets[index := nonzero (ucast value)])) else Err Panic)"

definition array_capacity :: "OffsetArrayObject \<Rightarrow> nat" where
  "array_capacity a = (case items a of Regular offsets \<Rightarrow> length offsets | CompactItems offsets \<Rightarrow> length offsets)"

definition array_len :: "OffsetArrayObject \<Rightarrow> nat \<Rightarrow> nat" where
  "array_len a remaining_items = min (array_capacity a) remaining_items"

definition array_is_empty :: "OffsetArrayObject \<Rightarrow> nat \<Rightarrow> bool" where
  "array_is_empty a remaining_items \<longleftrightarrow> array_len a remaining_items = 0"

definition array_get :: "OffsetArrayObject \<Rightarrow> nat \<Rightarrow> nat \<Rightarrow> u64 option result" where
  "array_get a index remaining_items =
     (if array_is_empty a remaining_items then Err EmptyOffsetArrayNode
      else offsets_get (items a) index)"

text \<open>The loop over \<open>s[start_index..len]\<close>; \<open>Vec::push\<close> appends to the caller's vector.\<close>

definition collect_array_offsets :: "OffsetArrayObject \<Rightarrow> nat \<Rightarrow> nat \<Rightarrow> u64 list \<Rightarrow> u64 list result" where
  "collect_array_offsets a start_index remaining_items offsets =
     (let len = array_len a remaining_items
      in if len \<le> start_index then Err InvalidOffsetArrayIndex
         else (case items a of
                 Regular s \<Rightarrow>
                   rbind (rmapM (\<lambda>x. ok_or x InvalidOffset) (drop start_index (take len s)))
                     (\<lambda>xs. Ok (offsets @ xs))
               | CompactItems s \<Rightarrow>
                   rbind (rmapM (\<lambda>x. rbind (ok_or x InvalidOffset) (\<lambda>v. Ok (ucast v)))
                            (drop start_index (take len s)))
                     (\<lambda>xs. Ok (offsets @ xs))))"

definition array_set :: "OffsetArrayObject \<Rightarrow> nat \<Rightarrow> u64 \<Rightarrow> OffsetArrayObject result" where
  "array_set a index value =
     (if array_capacity a \<le> index then Err OutOfBoundsIndex
      else rbind (offsets_set (items a) index value) (\<lambda>its. Ok (a\<lparr>items := its\<rparr>)))"

text \<open>Consecutive items of \<open>w\<close> bytes each.\<close>

fun chunks :: "nat \<Rightarrow> u8 list \<Rightarrow> u8 list list" where
  "chunks w bs = (if w = 0 \<or> bs = [] then [] else take w bs # chunks w (drop w bs))"

declare chunks.simps [simp del]

definition offset_array_from_data :: "u8 list \<Rightarrow> bool \<Rightarrow> OffsetArrayObject option" where
  "offset_array_from_data data is_compact =
     (if length data < 24 then None
      else (let header_data = take 24 data; items_data = drop 24 data;
                w = (if is_compact then 4 else 8)
            in if length items_data mod w \<noteq> 0 then None
               else Some \<lparr>array_header = object_header_from_bytes header_data,
                          next_offset_array = nonzero (u64_at header_data 16),
                          items = (if is_compact
                                   then CompactItems (map (\<lambda>c. nonzero (from_le c)) (chunks 4 items_data))
                                   else Regular (map (\<lambda>c. nonzero (from_le c)) (chunks 8 items_data)))\<rparr>))"

section \<open>Entries\<close>

record EntryObjectHeader =
  entry_object_header :: ObjectHeader
  seqnum :: u64
  realtime :: u64
  monotonic :: u64
  boot_id :: "u8 list"
  xor_hash :: u64

datatype EntryItemsType =
    RegularEntryItems "(u64 \<times> u64) list"
  | CompactEntryItems "u32 list"

record EntryObject =
  entry_header :: EntryObjectHeader
  entry_items :: EntryItemsType

definition entry_header_from_bytes :: "u8 list \<Rightarrow> EntryObjectHeader" where
  "entry_header_from_bytes bs =
     \<lparr>entry_object_header = object_header_from_bytes bs, seqnum = u64_at bs 16, realtime = u64_at bs 24,
      monotonic = u64_at bs 32, boot_id = bytes_at bs 40 16, xor_hash = u64_at bs 56\<rparr>"

definition entry_from_data :: "u8 list \<Rightarrow> bool \<Rightarrow> EntryObject option" where
  "entry_from_data data is_compact =
     (if length data < 64 then None
      else (let items_data = drop 64 data; w = (if is_compact then 4 else 16)
            in if length items_data mod w \<noteq> 0 then None
               else Some \<lparr>entry_header = entry_header_from_bytes (take 64 data),
                          entry_items = (if is_compact
                            then CompactEntryItems (map from_le (chunks 4 items_data))
                            else RegularEntryItems (map (\<lambda>c. (u64_at c 0, u64_at c 8)) (chunks 16 items_data)))\<rparr>))"

definition entry_items_len :: "EntryItemsType \<Rightarrow> nat" where
  "entry_items_len its = (case its of RegularEntryItems xs \<Rightarrow> length xs | CompactEntryItems xs \<Rightarrow> length xs)"

definition entry_collect_offsets :: "EntryObject \<Rightarrow> u64 list \<Rightarrow> u64 list result" where
  "entry_collect_offsets e offsets =
     (case entry_items e of
        RegularEntryItems xs \<Rightarrow>
          rbind (rmapM (\<lambda>(off, _). ok_or (nonzero off) InvalidOffset) xs) (\<lambda>ys. Ok (offsets @ ys))
      | CompactEntryItems xs \<Rightarrow>
          rbind (rmapM (\<lambda>off. ok_or (nonzero (ucast off)) InvalidOffset) xs) (\<lambda>ys. Ok (offsets @ ys)))"

section \<open>Data objects\<close>

record DataObjectHeader =
  data_object_header :: ObjectHeader
  data_hash :: u64
  data_next_hash_offset :: "u64 option"
  data_next_field_offset :: "u64 option"
  data_entry_offset :: "u64 option"
  data_entry_array_offset :: "u64 option"
  data_n_entries :: "u64 option"

datatype DataPayloadType =
    RegularPayload "u8 list"
  | CompactPayload u32 u32 "u8 list"

record DataObject =
  data_header :: DataObjectHeader
  data_payload :: DataPayloadType

definition data_header_from_bytes :: "u8 list \<Rightarrow> DataObjectHeader" where
  "data_header_from_bytes bs =
     \<lparr>data_object_header = object_header_from_bytes bs, data_hash = u64_at bs 16,
      data_next_hash_offset = nonzero (u64_at bs 24), data_next_field_offset = nonzero (u64_at bs 32),
      data_entry_offset = nonzero (u64_at bs 40), data_entry_array_offset = nonzero (u64_at bs 48),
      data_n_entries = nonzero (u64_at bs 56)\<rparr>"

definition data_from_data :: "u8 list \<Rightarrow> bool \<Rightarrow> DataObject option" where
  "data_from_data data is_compact =
     (if length data < 64 then None
      else (let rest = drop 64 data; h = data_header_from_bytes (take 64 data)
            in if is_compact
               then (if length rest < 8 then None
                     else Some \<lparr>data_header = h,
                                data_payload = CompactPayload (u32_at rest 0) (u32_at rest 4) (drop 8 rest)\<rparr>)
               else Some \<lparr>data_header = h, data_payload = RegularPayload rest\<rparr>))"

definition tail_entry_array_hint :: "DataObject \<Rightarrow> (u32 \<times> u32) option" where
  "tail_entry_array_hint d =
     (case data_payload d of CompactPayload off n _ \<Rightarrow> Some (off, n) | RegularPayload _ \<Rightarrow> None)"

definition raw_payload :: "DataObject \<Rightarrow> u8 list" where
  "raw_payload d = (case data_payload d of RegularPayload p \<Rightarrow> p | CompactPayload _ _ p \<Rightarrow> p)"

section \<open>Lemmas\<close>

lemma validate_offset_alignment_Ok: "validate_offset_alignment off = Inr u \<longleftrightarrow> off mod 8 = 0"
  by (simp add: validate_offset_alignment_def)

lemma chunks_append:
  assumes "0 < w" and "length c = w"
  shows "chunks w (c @ bs) = c # chunks w bs"
  using assms by (subst chunks.simps) auto

lemma chunks_Nil [simp]: "chunks w [] = []"
  by (subst chunks.simps) simp

lemma length_chunks: "0 < w \<Longrightarrow> w dvd length bs \<Longrightarrow> length (chunks w bs) = length bs div w"
proof (induction w bs rule: chunks.induct)
  case (1 w bs)
  show ?case
  proof (cases "bs = []")
    case True
    then show ?thesis by simp
  next
    case False
    with 1 have "w \<le> length bs" by (simp add: dvd_imp_le)
    with 1 False have "length (chunks w (drop w bs)) = (length bs - w) div w"
      by (simp add: dvd_diff_nat)
    with 1 False \<open>w \<le> length bs\<close> show ?thesis
      by (subst chunks.simps) (simp add: le_div_geq)
  qed
qed

lemma chunks_concat:
  "0 < w \<Longrightarrow> \<forall>c \<in> set cs. length c = w \<Longrightarrow> chunks w (concat cs) = cs"
  by (induction cs) (auto simp: chunks_append)

lemma object_type_roundtrip: "object_type_try_from (object_type_code t) = Ok t"
  by (cases t) (simp_all add: object_type_try_from_def)

end
