(* ===== verification/Offset_Array.thy ===== *)
theory Offset_Array
  imports Chain_Guard Journal_Object
begin

text \<open>
  Linked offset arrays, \<^verbatim>\<open>journal-core/src/file/offset_array.rs\<close>: the nodes of a chain, the list they
  form and the cursor that walks it.  The code reads the journal file through a single accessor,
  \<open>reader_offset_array_ref\<close>; here it is the argument \<open>aref\<close> of the definitions, and the locale
  \<open>array_source\<close> states what the proofs need of it.  The file component interprets that locale.

  \<open>NonZeroUsize\<close> fields are natural numbers; a node whose capacity is zero cannot be built in the
  source, and \<open>node_next\<close> answers \<open>Panic\<close> on it so that every loop below is total.
\<close>

section \<open>Nodes\<close>

datatype Direction = Forward | Backward

record Node =
  node_offset :: u64
  head_and_order :: u64
  node_capacity :: nat
  node_remaining :: nat

type_synonym array_ref = "u64 \<Rightarrow> OffsetArrayObject result"

definition node_new :: "array_ref \<Rightarrow> u64 \<Rightarrow> nat \<Rightarrow> u64 \<Rightarrow> bool \<Rightarrow> Node result" where
  "node_new aref off remaining head unordered =
     rbind (validate_offset_alignment head) (\<lambda>_.
     rbind (aref off) (\<lambda>array.
       if array_capacity array = 0 then Err EmptyOffsetArrayNode
       else (let h = head OR (if unordered then 1 else 0)
             in if h = 0 then Err Panic
                else Ok \<lparr>node_offset = off, head_and_order = h,
                         node_capacity = array_capacity array, node_remaining = remaining\<rparr>)))"

definition node_len :: "Node \<Rightarrow> nat" where
  "node_len n = min (node_capacity n) (node_remaining n)"

definition has_next :: "Node \<Rightarrow> bool" where
  "has_next n \<longleftrightarrow> node_remaining n > node_len n"

text \<open>The closure given to \<open>reject_array_revisit\<close>: the link stored in an array header.\<close>

definition next_of :: "array_ref \<Rightarrow> u64 \<Rightarrow> u64 option result" where
  "next_of aref at = rbind (aref at) (\<lambda>array. Ok (next_offset_array array))"

definition node_next :: "array_ref \<Rightarrow> Node \<Rightarrow> Node option result" where
  "node_next aref n =
     (if node_remaining n \<le> node_len n then Ok None
      else rbind (aref (node_offset n)) (\<lambda>array.
           rbind (ok_or (next_offset_array array) ObjectExceedsFileBounds) (\<lambda>next_offset.
           if node_capacity n = 0 then Err Panic
           else (let remaining = node_remaining n - node_len n;
                     head = head_and_order n AND NOT 1;
                     unordered = (head_and_order n AND 1 \<noteq> 0 \<or> next_offset \<le> node_offset n)
                 in if head = 0 then Err Panic
                    else rbind (if unordered
                                then reject_array_revisit head (node_offset n) next_offset (next_of aref)
                                else Ok ()) (\<lambda>_.
                         rbind (node_new aref next_offset remaining head unordered) (\<lambda>m. Ok (Some m)))))))"

definition required_offset :: "array_ref \<Rightarrow> Node \<Rightarrow> nat \<Rightarrow> u64 result" where
  "required_offset aref n index =
     (if node_len n \<le> index then Err InvalidOffsetArrayIndex
      else rbind (aref (node_offset n)) (\<lambda>array.
           rbind (array_get array index (node_remaining n)) (\<lambda>v. ok_or v InvalidOffset)))"

definition node_get :: "array_ref \<Rightarrow> Node \<Rightarrow> nat \<Rightarrow> u64 option result" where
  "node_get aref n index = rbind (required_offset aref n index) (\<lambda>v. Ok (Some v))"

text \<open>
  The binary search.  The two \<open>debug_assert!\<close>s are the \<open>Panic\<close> branches of \<open>partition_point\<close>; the
  one in the loop is never reached from it.
\<close>

function partition_loop :: "array_ref \<Rightarrow> Node \<Rightarrow> (u64 \<Rightarrow> bool result) \<Rightarrow> nat \<Rightarrow> nat \<Rightarrow> nat result" where
  "partition_loop aref n predicate left right =
     (if left = right then Ok left
      else if right < left then Err Panic
      else (let mid = (left + right) div 2
            in rbind (node_get aref n mid) (\<lambda>got.
               rbind (ok_or got InvalidOffset) (\<lambda>off.
               rbind (predicate off) (\<lambda>holds.
                 if holds then partition_loop aref n predicate (mid + 1) right
                 else partition_loop aref n predicate left mid)))))"
  by pat_completeness auto
termination
  by (relation "measure (\<lambda>(_, _, _, left, right). right - left)") auto

declare partition_loop.simps [simp del]

definition partition_point :: "array_ref \<Rightarrow> Node \<Rightarrow> nat \<Rightarrow> nat \<Rightarrow> (u64 \<Rightarrow> bool result) \<Rightarrow> nat result" where
  "partition_point aref n left right predicate =
     (if right < left \<or> node_len n < right then Err Panic
      else partition_loop aref n predicate left right)"

definition node_directed_partition_point ::
  "array_ref \<Rightarrow> Node \<Rightarrow> nat \<Rightarrow> nat \<Rightarrow> (u64 \<Rightarrow> bool result) \<Rightarrow> Direction \<Rightarrow> nat option result" where
  "node_directed_partition_point aref n left right predicate direction =
     rbind (partition_point aref n left right predicate) (\<lambda>index.
       Ok (case direction of
             Forward \<Rightarrow> if index < node_len n then Some index else None
           | Backward \<Rightarrow> if index > 0 then Some (index - 1) else None))"

lemma node_next_decreases:
  assumes "node_next aref n = Inr (Some m)"
  shows "node_remaining m < node_remaining n"
  using assms
  by (auto simp: node_next_def node_new_def rbind_eq_Ok ok_or_eq_Ok Let_def node_len_def
      split: if_splits)

section \<open>Lists and cursors\<close>

record List =
  head_offset :: u64
  total_items :: nat

record Cursor =
  cursor_list :: List
  array_offset :: u64
  array_index :: nat
  cursor_remaining :: nat
  cursor_node :: "Node option"
  node_index :: "nat option"
  cursor_chain :: "Node list option"
  cached_value :: "u64 option"

definition list_head :: "array_ref \<Rightarrow> List \<Rightarrow> Node result" where
  "list_head aref l = node_new aref (head_offset l) (total_items l) (head_offset l) False"

function tail_loop :: "array_ref \<Rightarrow> Node \<Rightarrow> Node result" where
  "tail_loop aref current =
     rbind (node_next aref current) (\<lambda>next.
       case next of None \<Rightarrow> Ok current | Some n \<Rightarrow> tail_loop aref n)"
  by pat_completeness auto
termination
  by (relation "measure (\<lambda>(_, n). node_remaining n)") (auto dest: node_next_decreases)

definition list_tail :: "array_ref \<Rightarrow> List \<Rightarrow> Node result" where
  "list_tail aref l = rbind (list_head aref l) (tail_loop aref)"

function node_chain_loop :: "array_ref \<Rightarrow> Node \<Rightarrow> Node list \<Rightarrow> Node list result" where
  "node_chain_loop aref current nodes =
     (let nodes = nodes @ [current]
      in rbind (node_next aref current) (\<lambda>next.
           case next of None \<Rightarrow> Ok nodes | Some n \<Rightarrow> node_chain_loop aref n nodes))"
  by pat_completeness auto
termination
  by (relation "measure (\<lambda>(_, n, _). node_remaining n)") (auto dest: node_next_decreases)

declare tail_loop.simps [simp del] node_chain_loop.simps [simp del]

definition node_chain :: "array_ref \<Rightarrow> List \<Rightarrow> Node list result" where
  "node_chain aref l = rbind (list_head aref l) (\<lambda>n. node_chain_loop aref n [])"

definition at_cached_position ::
  "List \<Rightarrow> Node \<Rightarrow> nat \<Rightarrow> nat option \<Rightarrow> Node list option \<Rightarrow> Cursor" where
  "at_cached_position l n index nidx chain =
     \<lparr>cursor_list = l, array_offset = node_offset n, array_index = index,
      cursor_remaining = node_remaining n, cursor_node = Some n, node_index = nidx,
      cursor_chain = chain, cached_value = None\<rparr>"

definition cursor_at_node_index :: "List \<Rightarrow> Node \<Rightarrow> nat \<Rightarrow> Cursor" where
  "cursor_at_node_index l n index = at_cached_position l n index None None"

definition node_partition_cursor ::
  "array_ref \<Rightarrow> List \<Rightarrow> Node \<Rightarrow> (u64 \<Rightarrow> bool result) \<Rightarrow> Direction \<Rightarrow> (Cursor \<times> nat) option result" where
  "node_partition_cursor aref l n predicate direction =
     rbind (node_directed_partition_point aref n 0 (node_len n) predicate direction) (\<lambda>found.
       Ok (map_option (\<lambda>index. (cursor_at_node_index l n index, index)) found))"

definition backward_search_must_continue :: "Node \<Rightarrow> nat \<Rightarrow> bool" where
  "backward_search_must_continue n index \<longleftrightarrow> index = node_len n - 1 \<and> has_next n"

text \<open>One round of the search loop: an answer, or the cursor to remember before the next array.\<close>

definition list_partition_round ::
  "array_ref \<Rightarrow> List \<Rightarrow> (u64 \<Rightarrow> bool result) \<Rightarrow> Direction \<Rightarrow> Node \<Rightarrow> Cursor option
     \<Rightarrow> (Cursor option + Cursor option) result" where
  "list_partition_round aref l predicate direction n last_cursor =
     rbind (node_partition_cursor aref l n predicate direction) (\<lambda>found.
       Ok (case found of
             Some (cursor, index) \<Rightarrow>
               (case direction of
                  Forward \<Rightarrow> Inl (Some cursor)
                | Backward \<Rightarrow>
                    if \<not> backward_search_must_continue n index then Inl (Some cursor)
                    else Inr (Some cursor))
           | None \<Rightarrow> if direction = Backward then Inl last_cursor else Inr last_cursor))"

function list_partition_loop ::
  "array_ref \<Rightarrow> List \<Rightarrow> (u64 \<Rightarrow> bool result) \<Rightarrow> Direction \<Rightarrow> Node \<Rightarrow> Cursor option
     \<Rightarrow> Cursor option result" where
  "list_partition_loop aref l predicate direction n last_cursor =
     rbind (list_partition_round aref l predicate direction n last_cursor) (\<lambda>round.
       case round of
         Inl answer \<Rightarrow> Ok answer
       | Inr last_cursor \<Rightarrow>
           rbind (node_next aref n) (\<lambda>next.
             case next of
               Some m \<Rightarrow> list_partition_loop aref l predicate direction m last_cursor
             | None \<Rightarrow> Ok (if direction = Backward then last_cursor else None)))"
  by pat_completeness auto
termination
  by (relation "measure (\<lambda>(_, _, _, _, n, _). node_remaining n)") (auto dest: node_next_decreases)

definition list_directed_partition_point ::
  "array_ref \<Rightarrow> List \<Rightarrow> (u64 \<Rightarrow> bool result) \<Rightarrow> Direction \<Rightarrow> Cursor option result" where
  "list_directed_partition_point aref l predicate direction =
     rbind (list_head aref l) (\<lambda>n. list_partition_loop aref l predicate direction n None)"

function collect_loop :: "array_ref \<Rightarrow> Node \<Rightarrow> u64 list \<Rightarrow> u64 list result" where
  "collect_loop aref n offsets =
     rbind (aref (node_offset n)) (\<lambda>array.
     rbind (collect_array_offsets array 0 (node_remaining n) offsets) (\<lambda>offsets.
     rbind (node_next aref n) (\<lambda>next.
       case next of Some m \<Rightarrow> collect_loop aref m offsets | None \<Rightarrow> Ok offsets)))"
  by pat_completeness auto
termination
  by (relation "measure (\<lambda>(_, n, _). node_remaining n)") (auto dest: node_next_decreases)

declare list_partition_loop.simps [simp del] collect_loop.simps [simp del]

definition list_collect_offsets :: "array_ref \<Rightarrow> List \<Rightarrow> u64 list \<Rightarrow> u64 list result" where
  "list_collect_offsets aref l offsets = rbind (list_head aref l) (\<lambda>n. collect_loop aref n offsets)"

definition cursor_at_head :: "List \<Rightarrow> Cursor" where
  "cursor_at_head l =
     \<lparr>cursor_list = l, array_offset = head_offset l, array_index = 0, cursor_remaining = total_items l,
      cursor_node = None, node_index = None, cursor_chain = None, cached_value = None\<rparr>"

definition cursor_head :: "Cursor \<Rightarrow> Cursor" where
  "cursor_head c =
     (case cursor_chain c of
        Some (n # chain) \<Rightarrow>
          \<lparr>cursor_list = cursor_list c, array_offset = node_offset n, array_index = 0,
           cursor_remaining = node_remaining n, cursor_node = Some n, node_index = Some 0,
           cursor_chain = Some (n # chain), cached_value = None\<rparr>
      | _ \<Rightarrow> cursor_at_head (cursor_list c))"

definition cursor_at_tail :: "array_ref \<Rightarrow> List \<Rightarrow> Cursor result" where
  "cursor_at_tail aref l =
     rbind (node_chain aref l) (\<lambda>chain.
       if length chain = 0 then Err EmptyOffsetArrayList
       else (let idx = length chain - 1; current_array = chain ! idx
             in Ok \<lparr>cursor_list = l, array_offset = node_offset current_array,
                    array_index = node_len current_array - 1, cursor_remaining = node_len current_array,
                    cursor_node = Some current_array, node_index = Some idx,
                    cursor_chain = Some chain, cached_value = None\<rparr>))"

definition cursor_at_position :: "array_ref \<Rightarrow> List \<Rightarrow> u64 \<Rightarrow> nat \<Rightarrow> nat \<Rightarrow> Cursor result" where
  "cursor_at_position aref l off index remaining =
     (if total_items l < remaining then Err Panic
      else rbind (node_new aref off remaining (head_offset l) (off \<noteq> head_offset l)) (\<lambda>array.
           if node_len array \<le> index then Err InvalidOffsetArrayIndex
           else Ok (at_cached_position l array index None None)))"

definition current_node :: "array_ref \<Rightarrow> Cursor \<Rightarrow> Node result" where
  "current_node aref c =
     (case cursor_node c of
        Some n \<Rightarrow> Ok n
      | None \<Rightarrow> node_new aref (array_offset c) (cursor_remaining c) (head_offset (cursor_list c))
                  (array_offset c \<noteq> head_offset (cursor_list c)))"

definition cursor_value :: "array_ref \<Rightarrow> Cursor \<Rightarrow> u64 option result" where
  "cursor_value aref c =
     (case cached_value c of
        Some v \<Rightarrow> Ok (Some v)
      | None \<Rightarrow> rbind (current_node aref c) (\<lambda>n. node_get aref n (array_index c)))"

definition materialize_value :: "array_ref \<Rightarrow> Cursor \<Rightarrow> (Cursor \<times> u64) option result" where
  "materialize_value aref c =
     (case cached_value c of
        Some v \<Rightarrow> Ok (Some (c, v))
      | None \<Rightarrow>
          rbind (current_node aref c) (\<lambda>n.
          rbind (required_offset aref n (array_index c)) (\<lambda>v.
            Ok (Some (c\<lparr>cursor_node := Some n, cached_value := Some v\<rparr>, v)))))"

definition node_chain_position :: "array_ref \<Rightarrow> Cursor \<Rightarrow> (Node list \<times> nat) result" where
  "node_chain_position aref c =
     (case (cursor_chain c, node_index c) of
        (Some chain, Some index) \<Rightarrow> Ok (chain, index)
      | _ \<Rightarrow>
          rbind (node_chain aref (cursor_list c)) (\<lambda>chain.
            case position (\<lambda>n. node_offset n = array_offset c) chain of
              None \<Rightarrow> Err InvalidOffsetArrayOffset
            | Some index \<Rightarrow> Ok (chain, index)))"

definition cursor_next_array :: "array_ref \<Rightarrow> Cursor \<Rightarrow> Node \<Rightarrow> Cursor option result" where
  "cursor_next_array aref c array_node =
     (if \<not> has_next array_node then Ok None
      else rbind
        (case (cursor_chain c, node_index c) of
           (Some chain, Some index) \<Rightarrow>
             (if index + 1 < length chain then Ok (chain ! (index + 1), Some (index + 1), Some chain)
              else Err InvalidOffsetArrayOffset)
         | _ \<Rightarrow>
             rbind (node_next aref array_node) (\<lambda>next.
             rbind (ok_or next InvalidOffsetArrayOffset) (\<lambda>next_array. Ok (next_array, None, None))))
        (\<lambda>(next_array, idx, chain).
           Ok (Some \<lparr>cursor_list = cursor_list c, array_offset = node_offset next_array, array_index = 0,
                     cursor_remaining = node_remaining next_array, cursor_node = Some next_array,
                     node_index = idx, cursor_chain = chain, cached_value = None\<rparr>)))"

definition cursor_next :: "array_ref \<Rightarrow> Cursor \<Rightarrow> Cursor option result" where
  "cursor_next aref c =
     rbind (current_node aref c) (\<lambda>array_node.
       if array_index c + 1 < node_len array_node
       then Ok (Some (c\<lparr>array_index := array_index c + 1, cursor_node := Some array_node,
                        cached_value := None\<rparr>))
       else cursor_next_array aref c array_node)"

text \<open>\<open>chain[previous_index]\<close> panics out of range.\<close>

definition cursor_previous :: "array_ref \<Rightarrow> Cursor \<Rightarrow> Cursor option result" where
  "cursor_previous aref c =
     (if array_index c > 0
      then rbind (current_node aref c) (\<lambda>array_node.
             Ok (Some (c\<lparr>array_index := array_index c - 1, cursor_node := Some array_node,
                         cached_value := None\<rparr>)))
      else if array_offset c = head_offset (cursor_list c) then Ok None
      else rbind (node_chain_position aref c) (\<lambda>(chain, index).
             if index = 0 then Err InvalidOffsetArrayOffset
             else if length chain \<le> index - 1 then Err Panic
             else (let previous_node = chain ! (index - 1)
                   in Ok (Some \<lparr>cursor_list = cursor_list c, array_offset = node_offset previous_node,
                                array_index = node_len previous_node - 1,
                                cursor_remaining = node_remaining previous_node,
                                cursor_node = Some previous_node, node_index = Some (index - 1),
                                cursor_chain = Some chain, cached_value = None\<rparr>))))"

function collect_rest_loop :: "array_ref \<Rightarrow> Node \<Rightarrow> u64 list \<Rightarrow> u64 list result" where
  "collect_rest_loop aref n offsets =
     rbind (node_next aref n) (\<lambda>next.
       case next of
         None \<Rightarrow> Ok offsets
       | Some next_node \<Rightarrow>
           rbind (aref (node_offset next_node)) (\<lambda>array.
           rbind (collect_array_offsets array 0 (node_remaining next_node) offsets) (\<lambda>offsets.
             collect_rest_loop aref next_node offsets)))"
  by pat_completeness auto
termination
  by (relation "measure (\<lambda>(_, n, _). node_remaining n)") (auto dest: node_next_decreases)

declare collect_rest_loop.simps [simp del]

definition cursor_collect_offsets :: "array_ref \<Rightarrow> Cursor \<Rightarrow> u64 list \<Rightarrow> u64 list result" where
  "cursor_collect_offsets aref c offsets =
     rbind (current_node aref c) (\<lambda>n.
     rbind (aref (node_offset n)) (\<lambda>array.
     rbind (collect_array_offsets array (array_index c) (node_remaining n) offsets) (\<lambda>offsets.
       collect_rest_loop aref n offsets)))"

end
