(* ===== verification/Offset_Chain.thy ===== *)
theory Offset_Chain
  imports Offset_Array
begin

text \<open>
  What a chain of offset arrays means, and that the code of \<open>Offset_Array\<close> implements it.

  The specification of a list is the sequence of its segments: for each array its offset and the
  values it contributes.  \<open>chain_repr aref l segs\<close> says that the file, read through \<open>aref\<close>, stores
  the segments \<open>segs\<close> under the list \<open>l\<close>; \<open>list_values segs\<close> is the sequence the list stands for.
  The locale \<open>array_source\<close> is the contract of the accessor.
\<close>

section \<open>The accessor\<close>

locale array_source =
  fixes aref :: array_ref
  assumes next_nonzero: "aref off = Ok a \<Longrightarrow> next_offset_array a \<noteq> Some 0"
begin

lemma next_of_nonzero: "next_of aref at \<noteq> Ok (Some 0)"
  using next_nonzero [of at] by (auto simp: next_of_def rbind_eq_Ok)

end

section \<open>Segments\<close>

type_synonym segments = "(u64 \<times> u64 list) list"

text \<open>
  \<open>chain_ok aref rem segs\<close>: reading \<open>rem\<close> items along the links starting at the first segment meets
  exactly the segments \<open>segs\<close>.
\<close>

fun chain_ok :: "array_ref \<Rightarrow> nat \<Rightarrow> segments \<Rightarrow> bool" where
  "chain_ok aref rem [] = (rem = 0)"
| "chain_ok aref rem ((off, vs) # segs) =
     (case aref off of
        Inl _ \<Rightarrow> False
      | Inr a \<Rightarrow>
          off \<noteq> 0 \<and> vs \<noteq> [] \<and> length vs = min (array_capacity a) rem \<and>
          list_all (\<lambda>i. offsets_get (items a) i = Ok (Some (vs ! i))) [0..<length vs] \<and>
          (segs = [] \<or> next_offset_array a = Some (fst (hd segs))) \<and>
          chain_ok aref (rem - length vs) segs)"

definition chain_repr :: "array_ref \<Rightarrow> List \<Rightarrow> segments \<Rightarrow> bool" where
  "chain_repr aref l segs \<longleftrightarrow>
     segs \<noteq> [] \<and> head_offset l = fst (hd segs) \<and> head_offset l mod 8 = 0 \<and>
     distinct (map fst segs) \<and> chain_ok aref (total_items l) segs"

definition list_values :: "segments \<Rightarrow> u64 list" where
  "list_values segs = concat (map snd segs)"

lemma list_values_Cons [simp]: "list_values ((off, vs) # segs) = vs @ list_values segs"
  by (simp add: list_values_def)

lemma list_values_Nil [simp]: "list_values [] = []"
  by (simp add: list_values_def)

lemma list_values_append: "list_values (xs @ ys) = list_values xs @ list_values ys"
  by (simp add: list_values_def)

lemma chain_ok_Cons:
  "chain_ok aref rem (seg # segs) \<longleftrightarrow>
     (\<exists>a. aref (fst seg) = Ok a \<and> fst seg \<noteq> 0 \<and> snd seg \<noteq> [] \<and>
        length (snd seg) = min (array_capacity a) rem \<and>
        (\<forall>i < length (snd seg). offsets_get (items a) i = Ok (Some (snd seg ! i))) \<and>
        (segs = [] \<or> next_offset_array a = Some (fst (hd segs))) \<and>
        chain_ok aref (rem - length (snd seg)) segs)"
  by (cases seg) (auto simp: list_all_iff split: sum.splits)

lemma chain_ok_length: "chain_ok aref rem segs \<Longrightarrow> length (list_values segs) = rem"
  by (induction segs arbitrary: rem) (auto simp: chain_ok_Cons list_values_def)

lemma chain_ok_nonzero: "chain_ok aref rem segs \<Longrightarrow> seg \<in> set segs \<Longrightarrow> fst seg \<noteq> 0"
  by (induction segs arbitrary: rem) (auto simp: chain_ok_Cons)

lemma chain_ok_values_nonempty: "chain_ok aref rem segs \<Longrightarrow> seg \<in> set segs \<Longrightarrow> snd seg \<noteq> []"
  by (induction segs arbitrary: rem) (auto simp: chain_ok_Cons)

lemma chain_ok_drop:
  "chain_ok aref rem segs \<Longrightarrow> chain_ok aref (rem - length (list_values (take i segs))) (drop i segs)"
proof (induction segs arbitrary: rem i)
  case Nil
  then show ?case by simp
next
  case (Cons seg segs)
  from Cons.prems obtain vs where "chain_ok aref (rem - length (snd seg)) segs"
    by (auto simp: chain_ok_Cons)
  from Cons.IH [OF this] Cons.prems show ?case
    by (cases i; cases seg) simp_all
qed

lemma chain_ok_links:
  "chain_ok aref rem segs \<Longrightarrow> Suc i < length segs \<Longrightarrow>
     next_of aref (fst (segs ! i)) = Ok (Some (fst (segs ! Suc i)))"
proof (induction segs arbitrary: rem i)
  case Nil
  then show ?case by simp
next
  case (Cons seg segs)
  then show ?case
    by (cases i) (auto simp: chain_ok_Cons next_of_def hd_conv_nth)
qed

lemma chain_ok_link_path:
  assumes "chain_ok aref rem segs" and "i < length segs"
  shows "link_path (next_of aref) (map fst (take (Suc i) segs))"
  unfolding link_path_def
proof (intro conjI allI impI)
  show "map fst (take (Suc i) segs) \<noteq> []" using assms(2) by auto
  show "0 \<notin> set (map fst (take (Suc i) segs))"
    using chain_ok_nonzero [OF assms(1)] by (force dest: in_set_takeD)
  fix k assume "Suc k < length (map fst (take (Suc i) segs))"
  then show "next_of aref (map fst (take (Suc i) segs) ! k)
      = Ok (Some (map fst (take (Suc i) segs) ! Suc k))"
    using chain_ok_links [OF assms(1), of k] by simp
qed

section \<open>The order flag\<close>

lemma aligned_even:
  assumes "(h :: u64) mod 8 = 0"
  shows "even h"
proof -
  have "h = 8 * (h div 8)" using assms by (metis add.right_neutral mult_div_mod_eq)
  then have "h = 2 * (4 * (h div 8))" by simp
  then show ?thesis by (metis dvd_triv_left)
qed

lemma flag_clear:
  assumes "(h :: u64) mod 8 = 0"
  shows "h AND NOT 1 = h" and "(h OR 1) AND NOT 1 = h" and "(h OR 1) AND 1 \<noteq> 0"
proof -
  have b: "\<not> bit h 0" using aligned_even [OF assms] by (simp add: bit_0)
  then show "h AND NOT 1 = h" "(h OR 1) AND NOT 1 = h"
    by (auto intro!: bit_word_eqI gr0I simp: bit_simps bit_1_iff)
  have "bit ((h OR 1) AND 1) 0" by (simp add: bit_simps)
  then show "(h OR 1) AND 1 \<noteq> 0" by (metis bit_0_eq bot_apply bot_bool_def)
qed


section \<open>Nodes of a represented list\<close>

text \<open>\<open>seg_node aref l segs i n\<close>: the node \<open>n\<close> is the \<open>i\<close>-th array of the list.\<close>

definition seg_start :: "segments \<Rightarrow> nat \<Rightarrow> nat" where
  "seg_start segs i = length (list_values (take i segs))"

definition seg_node :: "array_ref \<Rightarrow> List \<Rightarrow> segments \<Rightarrow> nat \<Rightarrow> Node \<Rightarrow> bool" where
  "seg_node aref l segs i n \<longleftrightarrow>
     i < length segs \<and> node_offset n = fst (segs ! i) \<and>
     node_remaining n = total_items l - seg_start segs i \<and>
     (\<exists>a. aref (fst (segs ! i)) = Ok a \<and> node_capacity n = array_capacity a) \<and>
     (head_and_order n = head_offset l \<or> head_and_order n = head_offset l OR 1)"

lemma seg_start_0 [simp]: "seg_start segs 0 = 0"
  by (simp add: seg_start_def)

lemma seg_start_Suc: "i < length segs \<Longrightarrow> seg_start segs (Suc i) = seg_start segs i + length (snd (segs ! i))"
  by (simp add: seg_start_def take_Suc_conv_app_nth list_values_append)
    (simp add: list_values_def)

lemma seg_start_length: "seg_start segs (length segs) = length (list_values segs)"
  by (simp add: seg_start_def)

lemma chain_repr_segment:
  assumes "chain_repr aref l segs" and "i < length segs"
  obtains a where "aref (fst (segs ! i)) = Ok a" and "fst (segs ! i) \<noteq> 0" and "snd (segs ! i) \<noteq> []"
    and "length (snd (segs ! i)) = min (array_capacity a) (total_items l - seg_start segs i)"
    and "\<And>k. k < length (snd (segs ! i)) \<Longrightarrow> offsets_get (items a) k = Ok (Some (snd (segs ! i) ! k))"
    and "Suc i < length segs \<Longrightarrow> next_offset_array a = Some (fst (segs ! Suc i))"
    and "Suc i = length segs \<Longrightarrow> total_items l - seg_start segs i = length (snd (segs ! i))"
proof -
  have "chain_ok aref (total_items l - seg_start segs i) (segs ! i # drop (Suc i) segs)"
    using assms chain_ok_drop [of aref "total_items l" segs i]
    by (simp add: chain_repr_def seg_start_def Cons_nth_drop_Suc)
  then show thesis
    by (auto simp: chain_ok_Cons hd_drop_conv_nth intro!: that)
qed

lemma chain_repr_head:
  assumes "chain_repr aref l segs"
  shows "head_offset l mod 8 = 0" and "head_offset l \<noteq> 0" and "0 < length segs"
    and "fst (segs ! 0) = head_offset l"
proof -
  show "head_offset l mod 8 = 0" using assms unfolding chain_repr_def by blast
  show "0 < length segs" "fst (segs ! 0) = head_offset l"
    using assms unfolding chain_repr_def by (auto simp: hd_conv_nth)
  show "head_offset l \<noteq> 0"
    using assms chain_ok_nonzero [of aref "total_items l" segs "hd segs"]
    unfolding chain_repr_def by auto
qed

lemma node_len_seg_node:
  assumes "chain_repr aref l segs" and "seg_node aref l segs i n"
  shows "node_len n = length (snd (segs ! i))"
proof -
  have i: "i < length segs" using assms(2) by (simp add: seg_node_def)
  obtain a where "aref (fst (segs ! i)) = Ok a"
    "length (snd (segs ! i)) = min (array_capacity a) (total_items l - seg_start segs i)"
    by (rule chain_repr_segment [OF assms(1) i])
  with assms(2) show ?thesis by (simp add: seg_node_def node_len_def)
qed

lemma segment_nonempty: "chain_repr aref l segs \<Longrightarrow> i < length segs \<Longrightarrow> snd (segs ! i) \<noteq> []"
  by (rule chain_ok_values_nonempty [of aref "total_items l" segs]) (auto simp: chain_repr_def)

lemma node_len_pos:
  assumes "chain_repr aref l segs" and "seg_node aref l segs i n"
  shows "0 < node_len n"
  using node_len_seg_node [OF assms] segment_nonempty [OF assms(1), of i] assms(2)
  by (simp add: seg_node_def)

lemma seg_start_less:
  assumes "chain_repr aref l segs" and "i < length segs"
  shows "seg_start segs i < total_items l"
proof -
  obtain a where "length (snd (segs ! i)) = min (array_capacity a) (total_items l - seg_start segs i)"
    by (rule chain_repr_segment [OF assms])
  moreover have "snd (segs ! i) \<noteq> []" by (rule segment_nonempty [OF assms])
  ultimately show ?thesis by (metis length_0_conv min_0R not_le diff_is_0_eq)
qed

lemma has_next_seg_node:
  assumes r: "chain_repr aref l segs" and n: "seg_node aref l segs i n"
  shows "has_next n \<longleftrightarrow> Suc i < length segs"
proof -
  have i: "i < length segs" using n by (simp add: seg_node_def)
  have rem: "node_remaining n = total_items l - seg_start segs i" using n by (simp add: seg_node_def)
  show ?thesis
  proof (cases "Suc i < length segs")
    case True
    then have "seg_start segs (Suc i) < total_items l" by (rule seg_start_less [OF r])
    with i True rem show ?thesis
      by (simp add: has_next_def node_len_seg_node [OF r n] seg_start_Suc)
  next
    case False
    with i have "Suc i = length segs" by simp
    then have "total_items l - seg_start segs i = length (snd (segs ! i))"
      using chain_repr_segment [OF r i] by metis
    with rem False show ?thesis by (simp add: has_next_def node_len_seg_node [OF r n])
  qed
qed

lemma node_new_seg_node:
  assumes r: "chain_repr aref l segs" and i: "i < length segs"
  obtains n where "node_new aref (fst (segs ! i)) (total_items l - seg_start segs i) (head_offset l) u = Ok n"
    and "seg_node aref l segs i n"
proof -
  obtain a where a: "aref (fst (segs ! i)) = Ok a" "snd (segs ! i) \<noteq> []"
    "length (snd (segs ! i)) = min (array_capacity a) (total_items l - seg_start segs i)"
    using chain_repr_segment [OF r i] by metis
  note h = chain_repr_head [OF r]
  have "head_offset l OR 1 \<noteq> 0" using flag_clear(3) [OF h(1)] by (metis and_zero_eq zero_and_eq)
  then have "head_offset l OR (if u then 1 else 0) \<noteq> 0" using h(2) by simp
  moreover have "validate_offset_alignment (head_offset l) = Ok ()"
    by (rule validate_offset_alignment_Ok [THEN iffD2, OF h(1)])
  moreover have "array_capacity a \<noteq> 0" using a(2,3) by (metis length_0_conv min_0L)
  ultimately show thesis using a(1) i
    by (intro that [of "\<lparr>node_offset = fst (segs ! i), head_and_order = head_offset l OR (if u then 1 else 0),
          node_capacity = array_capacity a, node_remaining = total_items l - seg_start segs i\<rparr>"])
      (auto simp: node_new_def seg_node_def)
qed

lemma list_head_seg_node:
  assumes r: "chain_repr aref l segs"
  obtains n where "list_head aref l = Ok n" and "seg_node aref l segs 0 n"
proof -
  obtain n where "node_new aref (fst (segs ! 0)) (total_items l - seg_start segs 0) (head_offset l) False = Ok n"
    "seg_node aref l segs 0 n"
    by (rule node_new_seg_node [OF r chain_repr_head(3) [OF r]])
  then show thesis using that chain_repr_head(4) [OF r] by (simp add: list_head_def)
qed

lemma node_next_seg_node:
  assumes r: "chain_repr aref l segs" and n: "seg_node aref l segs i n" and i: "Suc i < length segs"
  obtains m where "node_next aref n = Ok (Some m)" and "seg_node aref l segs (Suc i) m"
proof -
  have i': "i < length segs" using i by simp
  obtain a where a: "aref (fst (segs ! i)) = Ok a" "snd (segs ! i) \<noteq> []"
    "length (snd (segs ! i)) = min (array_capacity a) (total_items l - seg_start segs i)"
    "next_offset_array a = Some (fst (segs ! Suc i))"
    using chain_repr_segment [OF r i'] i by metis
  have off: "node_offset n = fst (segs ! i)" and cap: "node_capacity n = array_capacity a"
    and rem: "node_remaining n = total_items l - seg_start segs i"
    using n a(1) by (auto simp: seg_node_def)
  have more: "\<not> node_remaining n \<le> node_len n"
    using has_next_seg_node [OF r n] i by (simp add: has_next_def)
  note h = chain_repr_head [OF r]
  have head: "head_and_order n AND NOT 1 = head_offset l"
    using n flag_clear(1,2) [OF h(1)] by (auto simp: seg_node_def)
  have path: "link_path (next_of aref) (map fst (take (Suc i) segs))" "distinct (map fst (take (Suc i) segs))"
    using r i' chain_ok_link_path by (auto simp: chain_repr_def simp flip: take_map)
  have new: "fst (segs ! Suc i) \<notin> set (map fst (take (Suc i) segs))"
  proof -
    have "distinct (map fst (take (Suc (Suc i)) segs))"
      using r by (auto simp: chain_repr_def simp flip: take_map)
    with i show ?thesis by (simp add: take_Suc_conv_app_nth [of "Suc i"])
  qed
  have ends: "hd (map fst (take (Suc i) segs)) = head_offset l"
    "last (map fst (take (Suc i) segs)) = node_offset n"
    using r i' off by (auto simp: chain_repr_def hd_map last_map take_Suc_conv_app_nth hd_append hd_conv_nth)
  have rej: "reject_array_revisit (head_offset l) (node_offset n) (fst (segs ! Suc i)) (next_of aref) = Ok ()"
    using reject_array_revisit_path [OF path ends] new by simp
  have rem': "node_remaining n - node_len n = total_items l - seg_start segs (Suc i)"
    using rem i' by (simp add: node_len_seg_node [OF r n] seg_start_Suc)
  define u where "u = (head_and_order n AND 1 \<noteq> 0 \<or> fst (segs ! Suc i) \<le> node_offset n)"
  obtain m where m: "node_new aref (fst (segs ! Suc i)) (total_items l - seg_start segs (Suc i)) (head_offset l) u = Ok m"
    "seg_node aref l segs (Suc i) m"
    by (rule node_new_seg_node [OF r i])
  have "node_capacity n \<noteq> 0" using cap a(2,3) by (metis length_0_conv min_0L)
  then have "node_next aref n =
      rbind (if u then reject_array_revisit (head_offset l) (node_offset n) (fst (segs ! Suc i)) (next_of aref)
             else Ok ()) (\<lambda>_.
      rbind (node_new aref (fst (segs ! Suc i)) (total_items l - seg_start segs (Suc i)) (head_offset l) u)
        (\<lambda>m. Ok (Some m)))"
    using more a(1,4) off h(2) head rem' unfolding u_def by (simp add: node_next_def Let_def)
  then have "node_next aref n = Ok (Some m)" using rej m(1) by simp
  with m(2) show thesis by (rule that [rotated])
qed

lemma node_next_last:
  assumes "chain_repr aref l segs" and "seg_node aref l segs i n" and "\<not> Suc i < length segs"
  shows "node_next aref n = Ok None"
  using has_next_seg_node [OF assms(1,2)] assms(3) by (simp add: node_next_def has_next_def)

text \<open>Induction along the arrays of a represented list, from a node to the tail.\<close>

lemma seg_node_induct [consumes 2, case_names last step]:
  assumes r: "chain_repr aref l segs" and n: "seg_node aref l segs i n"
    and last: "\<And>i n. seg_node aref l segs i n \<Longrightarrow> Suc i = length segs \<Longrightarrow> node_next aref n = Ok None \<Longrightarrow> P i n"
    and step: "\<And>i n m. seg_node aref l segs i n \<Longrightarrow> Suc i < length segs \<Longrightarrow> node_next aref n = Ok (Some m) \<Longrightarrow>
      seg_node aref l segs (Suc i) m \<Longrightarrow> P (Suc i) m \<Longrightarrow> P i n"
  shows "P i n"
  using n
proof (induction "length segs - i" arbitrary: i n)
  case 0
  then show ?case by (simp add: seg_node_def)
next
  case (Suc d)
  show ?case
  proof (cases "Suc i < length segs")
    case True
    obtain m where m: "node_next aref n = Ok (Some m)" "seg_node aref l segs (Suc i) m"
      by (rule node_next_seg_node [OF r Suc.prems True])
    with Suc True show ?thesis by (intro step [OF Suc.prems True m]) auto
  next
    case False
    with Suc show ?thesis
      by (intro last) (auto simp: node_next_last [OF r Suc.prems False] seg_node_def)
  qed
qed

section \<open>Items\<close>

lemma required_offset_seg_node:
  assumes r: "chain_repr aref l segs" and n: "seg_node aref l segs i n" and k: "k < length (snd (segs ! i))"
  shows "required_offset aref n k = Ok (snd (segs ! i) ! k)"
    and "node_get aref n k = Ok (Some (snd (segs ! i) ! k))"
proof -
  have i: "i < length segs" using n by (simp add: seg_node_def)
  obtain a where a: "aref (fst (segs ! i)) = Ok a"
    "length (snd (segs ! i)) = min (array_capacity a) (total_items l - seg_start segs i)"
    "offsets_get (items a) k = Ok (Some (snd (segs ! i) ! k))"
    using chain_repr_segment [OF r i] k by metis
  have "\<not> array_is_empty a (node_remaining n)"
    using a(2) k n by (auto simp: array_is_empty_def array_len_def seg_node_def)
  then show *: "required_offset aref n k = Ok (snd (segs ! i) ! k)"
    using a(1,3) n k node_len_seg_node [OF r n]
    by (simp add: required_offset_def array_get_def seg_node_def)
  then show "node_get aref n k = Ok (Some (snd (segs ! i) ! k))"
    by (simp add: node_get_def)
qed

lemma collect_array_offsets_values:
  assumes len: "length vs = array_len a rem" and start: "s < length vs"
    and vals: "\<And>k. k < length vs \<Longrightarrow> offsets_get (items a) k = Ok (Some (vs ! k))"
  shows "collect_array_offsets a s rem offsets = Ok (offsets @ drop s vs)"
proof (cases "items a")
  case (Regular xs)
  have "vs ! k = v" if "k < length vs" "xs ! k = Some v" for k v
    using vals [of k] that Regular by (simp split: if_splits)
  moreover have "\<exists>v. xs ! k = Some v" if "k < length vs" for k
    using vals [of k] that Regular by (simp split: if_splits)
  moreover have "length vs \<le> length xs" using len Regular by (simp add: array_len_def array_capacity_def)
  ultimately have "rmapM (\<lambda>x. ok_or x InvalidOffset) (drop s (take (array_len a rem) xs)) = Ok (drop s vs)"
    using len by (auto simp: rmapM_Ok list_all2_conv_all_nth ok_or_eq_Ok) (metis less_diff_conv add.commute)
  then show ?thesis using len start Regular by (simp add: collect_array_offsets_def Let_def)
next
  case (CompactItems xs)
  have "vs ! k = ucast v" if "k < length vs" "xs ! k = Some v" for k v
    using vals [of k] that CompactItems by (simp split: if_splits)
  moreover have "\<exists>v. xs ! k = Some v" if "k < length vs" for k
    using vals [of k] that CompactItems by (auto split: if_splits)
  moreover have "length vs \<le> length xs" using len CompactItems by (simp add: array_len_def array_capacity_def)
  ultimately have "rmapM (\<lambda>x. rbind (ok_or x InvalidOffset) (\<lambda>v. Ok (ucast v)))
      (drop s (take (array_len a rem) xs)) = Ok (drop s vs)"
    using len by (auto simp: rmapM_Ok list_all2_conv_all_nth ok_or_eq_Ok rbind_eq_Ok)
      (metis less_diff_conv add.commute)
  then show ?thesis using len start CompactItems by (simp add: collect_array_offsets_def Let_def)
qed

lemma collect_array_seg_node:
  assumes r: "chain_repr aref l segs" and n: "seg_node aref l segs i n" and s: "s < length (snd (segs ! i))"
  obtains a where "aref (node_offset n) = Ok a"
    and "\<And>offsets. collect_array_offsets a s (node_remaining n) offsets = Ok (offsets @ drop s (snd (segs ! i)))"
proof -
  have i: "i < length segs" using n by (simp add: seg_node_def)
  obtain a where a: "aref (fst (segs ! i)) = Ok a"
    "length (snd (segs ! i)) = min (array_capacity a) (total_items l - seg_start segs i)"
    "\<forall>k < length (snd (segs ! i)). offsets_get (items a) k = Ok (Some (snd (segs ! i) ! k))"
    using chain_repr_segment [OF r i] by metis
  have len: "length (snd (segs ! i)) = array_len a (node_remaining n)"
    using a(2) n by (simp add: array_len_def seg_node_def)
  show thesis
    using a(1) n collect_array_offsets_values [OF len s] a(3) by (intro that) (simp_all add: seg_node_def)
qed

section \<open>Whole lists\<close>

lemma list_values_drop_nth:
  "i < length segs \<Longrightarrow> list_values (drop i segs) = snd (segs ! i) @ list_values (drop (Suc i) segs)"
  by (cases "segs ! i") (simp flip: Cons_nth_drop_Suc)

lemma collect_loop_seg_node:
  assumes r: "chain_repr aref l segs" and n: "seg_node aref l segs i n"
  shows "\<forall>offsets. collect_loop aref n offsets = Ok (offsets @ list_values (drop i segs))"
  using r n
proof (induction rule: seg_node_induct)
  case (last i n)
  then have i: "i < length segs" by simp
  obtain a where "aref (node_offset n) = Ok a"
    "\<And>offsets. collect_array_offsets a 0 (node_remaining n) offsets = Ok (offsets @ drop 0 (snd (segs ! i)))"
    using collect_array_seg_node [OF r last(1), of 0] segment_nonempty [OF r i] by auto
  with last i show ?case
    by (subst collect_loop.simps) (simp add: list_values_drop_nth)
next
  case (step i n m)
  then have i: "i < length segs" by simp
  obtain a where "aref (node_offset n) = Ok a"
    "\<And>offsets. collect_array_offsets a 0 (node_remaining n) offsets = Ok (offsets @ drop 0 (snd (segs ! i)))"
    using collect_array_seg_node [OF r step(1), of 0] segment_nonempty [OF r i] by auto
  with step i show ?case
    by (subst collect_loop.simps) (simp add: list_values_drop_nth)
qed

lemma list_collect_offsets_repr:
  assumes r: "chain_repr aref l segs"
  shows "list_collect_offsets aref l offsets = Ok (offsets @ list_values segs)"
proof -
  obtain n where "list_head aref l = Ok n" "seg_node aref l segs 0 n" by (rule list_head_seg_node [OF r])
  with collect_loop_seg_node [OF r] show ?thesis by (simp add: list_collect_offsets_def)
qed

text \<open>\<open>chain_nodes\<close>: a cached chain holds one node per segment.\<close>

definition chain_nodes :: "array_ref \<Rightarrow> List \<Rightarrow> segments \<Rightarrow> Node list \<Rightarrow> bool" where
  "chain_nodes aref l segs nodes \<longleftrightarrow>
     length nodes = length segs \<and> (\<forall>i < length segs. seg_node aref l segs i (nodes ! i))"

lemma node_chain_loop_seg_node:
  assumes r: "chain_repr aref l segs" and n: "seg_node aref l segs i n"
  shows "\<forall>acc. length acc = i \<longrightarrow> (\<forall>k < i. seg_node aref l segs k (acc ! k)) \<longrightarrow>
    (\<exists>nodes. node_chain_loop aref n acc = Ok nodes \<and> chain_nodes aref l segs nodes)"
  using r n
proof (induction rule: seg_node_induct)
  case (last i n)
  then show ?case
    by (subst node_chain_loop.simps)
      (auto simp: chain_nodes_def nth_append less_Suc_eq simp flip: last(2))
next
  case (step i n m)
  show ?case
  proof (intro allI impI)
    fix acc assume "length acc = i" "\<forall>k < i. seg_node aref l segs k (acc ! k)"
    with step have "\<exists>nodes. node_chain_loop aref m (acc @ [n]) = Ok nodes \<and> chain_nodes aref l segs nodes"
      by (auto simp: nth_append less_Suc_eq)
    with step show "\<exists>nodes. node_chain_loop aref n acc = Ok nodes \<and> chain_nodes aref l segs nodes"
      by (subst node_chain_loop.simps) simp
  qed
qed

lemma node_chain_repr:
  assumes r: "chain_repr aref l segs"
  obtains nodes where "node_chain aref l = Ok nodes" and "chain_nodes aref l segs nodes"
proof -
  obtain n where "list_head aref l = Ok n" "seg_node aref l segs 0 n" by (rule list_head_seg_node [OF r])
  with node_chain_loop_seg_node [OF r, of 0 n] that show thesis
    by (auto simp: node_chain_def)
qed

lemma tail_loop_seg_node:
  assumes r: "chain_repr aref l segs" and n: "seg_node aref l segs i n"
  shows "\<exists>m. tail_loop aref n = Ok m \<and> seg_node aref l segs (length segs - 1) m"
  using r n
proof (induction rule: seg_node_induct)
  case (last i n)
  then show ?case by (subst tail_loop.simps) (auto simp flip: last(2))
next
  case (step i n m)
  then show ?case by (subst tail_loop.simps) simp
qed

section \<open>Positions and cursors\<close>

lemma list_values_nth:
  assumes "i < length segs" and "j < length (snd (segs ! i))"
  shows "list_values segs ! (seg_start segs i + j) = snd (segs ! i) ! j"
proof -
  have "list_values segs = list_values (take i segs) @ list_values (drop i segs)"
    by (simp flip: list_values_append)
  then show ?thesis
    using assms by (simp add: seg_start_def list_values_drop_nth nth_append)
qed

lemma seg_start_total: "chain_repr aref l segs \<Longrightarrow> seg_start segs (length segs) = total_items l"
  using chain_ok_length [of aref "total_items l" segs] by (simp add: seg_start_length chain_repr_def)

lemma seg_start_mono:
  assumes "i \<le> j"
  shows "seg_start segs i \<le> seg_start segs j"
proof -
  have "take j segs = take i segs @ take (j - i) (drop i segs)"
    using assms by (simp flip: take_add)
  then show ?thesis by (simp add: seg_start_def list_values_append)
qed

lemma seg_position_less:
  assumes "chain_repr aref l segs" and "i < length segs" and "j < length (snd (segs ! i))"
  shows "seg_start segs i + j < total_items l"
  using assms seg_start_mono [of "Suc i" "length segs" segs]
  by (simp add: seg_start_total seg_start_Suc)

definition cursor_at :: "array_ref \<Rightarrow> List \<Rightarrow> segments \<Rightarrow> nat \<Rightarrow> nat \<Rightarrow> Cursor \<Rightarrow> bool" where
  "cursor_at aref l segs i j c \<longleftrightarrow>
     i < length segs \<and> j < length (snd (segs ! i)) \<and>
     cursor_list c = l \<and> array_offset c = fst (segs ! i) \<and> array_index c = j \<and>
     cursor_remaining c = total_items l - seg_start segs i \<and>
     (\<forall>n. cursor_node c = Some n \<longrightarrow> seg_node aref l segs i n) \<and>
     (\<forall>nodes. cursor_chain c = Some nodes \<longrightarrow> chain_nodes aref l segs nodes) \<and>
     (\<forall>k. node_index c = Some k \<longrightarrow> k = i) \<and>
     (\<forall>v. cached_value c = Some v \<longrightarrow> v = snd (segs ! i) ! j)"

text \<open>The abstraction of a cursor: it stands at position \<open>k\<close> of the sequence of values.\<close>

definition cursor_repr :: "array_ref \<Rightarrow> List \<Rightarrow> segments \<Rightarrow> nat \<Rightarrow> Cursor \<Rightarrow> bool" where
  "cursor_repr aref l segs k c \<longleftrightarrow> (\<exists>i j. k = seg_start segs i + j \<and> cursor_at aref l segs i j c)"

lemma cursor_reprI: "cursor_at aref l segs i j c \<Longrightarrow> k = seg_start segs i + j \<Longrightarrow> cursor_repr aref l segs k c"
  by (auto simp: cursor_repr_def)

lemma cursor_repr_less: "chain_repr aref l segs \<Longrightarrow> cursor_repr aref l segs k c \<Longrightarrow> k < total_items l"
  by (auto simp: cursor_repr_def cursor_at_def intro: seg_position_less)

lemma cursor_at_cached_position:
  assumes "seg_node aref l segs i n" and "j < length (snd (segs ! i))"
  shows "cursor_at aref l segs i j (at_cached_position l n j None None)"
  using assms by (simp add: cursor_at_def at_cached_position_def seg_node_def)

lemma cached_cursor_repr:
  assumes "seg_node aref l segs i n" and "seg_start segs i \<le> k"
    and "k < seg_start segs i + length (snd (segs ! i))"
  shows "cursor_repr aref l segs k (at_cached_position l n (k - seg_start segs i) None None)"
  using assms by (intro cursor_reprI [OF cursor_at_cached_position]) auto

lemma current_node_cursor_at:
  assumes r: "chain_repr aref l segs" and c: "cursor_at aref l segs i j c"
  obtains n where "current_node aref c = Ok n" and "seg_node aref l segs i n"
proof (cases "cursor_node c")
  case None
  have i: "i < length segs" using c by (simp add: cursor_at_def)
  obtain n where "node_new aref (fst (segs ! i)) (total_items l - seg_start segs i) (head_offset l)
      (array_offset c \<noteq> head_offset (cursor_list c)) = Ok n" "seg_node aref l segs i n"
    by (rule node_new_seg_node [OF r i])
  with None c show thesis by (intro that [of n]) (simp_all add: current_node_def cursor_at_def)
next
  case (Some n)
  with c show thesis by (intro that [of n]) (simp_all add: current_node_def cursor_at_def)
qed

lemma cursor_value_at:
  assumes r: "chain_repr aref l segs" and c: "cursor_at aref l segs i j c"
  shows "cursor_value aref c = Ok (Some (snd (segs ! i) ! j))"
proof -
  obtain n where n: "current_node aref c = Ok n" "seg_node aref l segs i n"
    by (rule current_node_cursor_at [OF r c])
  have "node_get aref n j = Ok (Some (snd (segs ! i) ! j))"
    using required_offset_seg_node(2) [OF r n(2)] c by (simp add: cursor_at_def)
  with n(1) c show ?thesis by (auto simp: cursor_value_def cursor_at_def split: option.split)
qed

lemma cursor_value_repr:
  assumes "chain_repr aref l segs" and "cursor_repr aref l segs k c"
  shows "cursor_value aref c = Ok (Some (list_values segs ! k))"
proof -
  obtain i j where k: "k = seg_start segs i + j" and c: "cursor_at aref l segs i j c"
    using assms(2) by (auto simp: cursor_repr_def)
  then show ?thesis
    using cursor_value_at [OF assms(1) c] list_values_nth [of i segs j] by (simp add: cursor_at_def)
qed

lemma materialize_value_repr:
  assumes r: "chain_repr aref l segs" and "cursor_repr aref l segs k c"
  obtains c' where "materialize_value aref c = Ok (Some (c', list_values segs ! k))"
    and "cursor_repr aref l segs k c'" and "cached_value c' = Some (list_values segs ! k)"
proof -
  obtain i j where k: "k = seg_start segs i + j" and c: "cursor_at aref l segs i j c"
    using assms(2) by (auto simp: cursor_repr_def)
  obtain n where n: "current_node aref c = Ok n" "seg_node aref l segs i n"
    by (rule current_node_cursor_at [OF r c])
  have v: "list_values segs ! k = snd (segs ! i) ! j"
    using c k list_values_nth [of i segs j] by (simp add: cursor_at_def)
  have q: "required_offset aref n j = Ok (snd (segs ! i) ! j)"
    using required_offset_seg_node(1) [OF r n(2)] c by (simp add: cursor_at_def)
  show thesis
  proof (cases "cached_value c")
    case None
    have "cursor_at aref l segs i j (c\<lparr>cursor_node := Some n, cached_value := Some (snd (segs ! i) ! j)\<rparr>)"
      using c n(2) by (simp add: cursor_at_def)
    with None n(1) q c k v show thesis
      by (intro that [of "c\<lparr>cursor_node := Some n, cached_value := Some (snd (segs ! i) ! j)\<rparr>"])
        (auto simp: materialize_value_def cursor_at_def cursor_repr_def)
  next
    case (Some w)
    with c k v show thesis
      by (intro that [of c]) (auto simp: materialize_value_def cursor_at_def cursor_repr_def)
  qed
qed

lemma cursor_next_repr:
  assumes r: "chain_repr aref l segs" and "cursor_repr aref l segs k c"
  shows "if Suc k < total_items l
    then \<exists>c'. cursor_next aref c = Ok (Some c') \<and> cursor_repr aref l segs (Suc k) c'
    else cursor_next aref c = Ok None"
proof -
  obtain i j where k: "k = seg_start segs i + j" and c: "cursor_at aref l segs i j c"
    using assms(2) by (auto simp: cursor_repr_def)
  obtain n where n: "current_node aref c = Ok n" "seg_node aref l segs i n"
    by (rule current_node_cursor_at [OF r c])
  have i: "i < length segs" and j: "j < length (snd (segs ! i))" "array_index c = j" using c by (auto simp: cursor_at_def)
  have len: "node_len n = length (snd (segs ! i))" by (rule node_len_seg_node [OF r n(2)])
  show ?thesis
  proof (cases "Suc j < length (snd (segs ! i))")
    case True
    then have "cursor_at aref l segs i (Suc j) (c\<lparr>array_index := Suc j, cursor_node := Some n, cached_value := None\<rparr>)"
      using c n(2) by (simp add: cursor_at_def)
    moreover have "Suc k < total_items l" using seg_position_less [OF r i True] k by simp
    ultimately show ?thesis
      using True n(1) k j len by (auto simp: cursor_next_def intro: cursor_reprI)
  next
    case False
    with j have j': "Suc j = length (snd (segs ! i))" by simp
    then have k': "Suc k = seg_start segs (Suc i)" using k i by (simp add: seg_start_Suc)
    have go: "cursor_next aref c = cursor_next_array aref c n"
      using n(1) j j' len by (simp add: cursor_next_def)
    show ?thesis
    proof (cases "Suc i < length segs")
      case True
      then have more: "Suc k < total_items l" using seg_start_less [OF r] k' by simp
      have hn: "has_next n" using has_next_seg_node [OF r n(2)] True by simp
      obtain m where m: "node_next aref n = Ok (Some m)" "seg_node aref l segs (Suc i) m"
        by (rule node_next_seg_node [OF r n(2) True])
      have at: "cursor_at aref l segs (Suc i) 0 \<lparr>cursor_list = cursor_list c, array_offset = node_offset m',
            array_index = 0, cursor_remaining = node_remaining m', cursor_node = Some m',
            node_index = idx, cursor_chain = ch, cached_value = None\<rparr>"
        if "seg_node aref l segs (Suc i) m'" "\<forall>k. idx = Some k \<longrightarrow> k = Suc i"
          "\<forall>nodes. ch = Some nodes \<longrightarrow> chain_nodes aref l segs nodes" for m' idx ch
        using that True c segment_nonempty [OF r True] by (auto simp: cursor_at_def seg_node_def)
      have "\<exists>c'. cursor_next_array aref c n = Ok (Some c') \<and> cursor_at aref l segs (Suc i) 0 c'"
      proof (cases "\<exists>nodes idx. cursor_chain c = Some nodes \<and> node_index c = Some idx")
        case True
        then obtain nodes where ch: "cursor_chain c = Some nodes" "node_index c = Some i" "chain_nodes aref l segs nodes"
          using c by (auto simp: cursor_at_def)
        then have "seg_node aref l segs (Suc i) (nodes ! Suc i)" "Suc i < length nodes"
          using \<open>Suc i < length segs\<close> by (auto simp: chain_nodes_def)
        then show ?thesis using hn ch at by (simp add: cursor_next_array_def)
      next
        case False
        then have "cursor_chain c = None \<or> node_index c = None" by auto
        then show ?thesis using hn m at [OF m(2), of None None]
          by (auto simp: cursor_next_array_def split: option.splits)
      qed
      then show ?thesis using more go k'
        cursor_reprI [of aref l segs "Suc i" 0 _ "Suc k"] by auto
    next
      case False
      then have "Suc i = length segs" using i by simp
      then have "\<not> Suc k < total_items l" using k' seg_start_total [OF r] by simp
      moreover have "\<not> has_next n" using has_next_seg_node [OF r n(2)] False by simp
      ultimately show ?thesis using go by (simp add: cursor_next_array_def)
    qed
  qed
qed

lemma chain_repr_offset_inj:
  assumes "chain_repr aref l segs" and "i < length segs" and "k < length segs"
  shows "fst (segs ! i) = fst (segs ! k) \<longleftrightarrow> i = k"
  using assms nth_eq_iff_index_eq [of "map fst segs" i k] by (auto simp: chain_repr_def)

lemma node_chain_position_at:
  assumes r: "chain_repr aref l segs" and c: "cursor_at aref l segs i j c"
  obtains nodes where "node_chain_position aref c = Ok (nodes, i)" and "chain_nodes aref l segs nodes"
proof (cases "\<exists>nodes idx. cursor_chain c = Some nodes \<and> node_index c = Some idx")
  case True
  with c show thesis by (auto simp: node_chain_position_def cursor_at_def intro: that)
next
  case False
  have i: "i < length segs" using c by (simp add: cursor_at_def)
  obtain nodes where nodes: "node_chain aref l = Ok nodes" "chain_nodes aref l segs nodes"
    by (rule node_chain_repr [OF r])
  have "position (\<lambda>n. node_offset n = array_offset c) nodes = Some i"
    using nodes(2) c i chain_repr_offset_inj [OF r _ i]
    by (intro position_first) (auto simp: chain_nodes_def cursor_at_def seg_node_def)
  moreover have "cursor_list c = l" using c by (simp add: cursor_at_def)
  ultimately have "node_chain_position aref c = Ok (nodes, i)"
    using False nodes(1) by (auto simp: node_chain_position_def split: option.splits)
  with nodes(2) show thesis by (rule that [rotated])
qed

lemma cursor_previous_repr:
  assumes r: "chain_repr aref l segs" and "cursor_repr aref l segs k c"
  shows "if 0 < k then \<exists>c'. cursor_previous aref c = Ok (Some c') \<and> cursor_repr aref l segs (k - 1) c'
    else cursor_previous aref c = Ok None"
proof -
  obtain i j where k: "k = seg_start segs i + j" and c: "cursor_at aref l segs i j c"
    using assms(2) by (auto simp: cursor_repr_def)
  have i: "i < length segs" and j: "j < length (snd (segs ! i))" "array_index c = j"
    and lo: "cursor_list c = l" "array_offset c = fst (segs ! i)"
    using c by (auto simp: cursor_at_def)
  note h = chain_repr_head [OF r]
  show ?thesis
  proof (cases "0 < j")
    case True
    obtain n where n: "current_node aref c = Ok n" "seg_node aref l segs i n"
      by (rule current_node_cursor_at [OF r c])
    have "cursor_at aref l segs i (j - 1) (c\<lparr>array_index := j - 1, cursor_node := Some n, cached_value := None\<rparr>)"
      using c n(2) by (auto simp: cursor_at_def)
    then show ?thesis
      using True n(1) k j by (auto simp: cursor_previous_def intro: cursor_reprI)
  next
    case False
    show ?thesis
    proof (cases "i = 0")
      case True
      with False k j lo h(4) show ?thesis by (simp add: cursor_previous_def)
    next
      case i0: False
      then obtain i' where i': "i = Suc i'" by (cases i) auto
      have ne: "array_offset c \<noteq> head_offset (cursor_list c)"
        using lo h(4) chain_repr_offset_inj [OF r i h(3)] i0 by simp
      obtain nodes where nodes: "node_chain_position aref c = Ok (nodes, i)" "chain_nodes aref l segs nodes"
        by (rule node_chain_position_at [OF r c])
      have n: "seg_node aref l segs i' (nodes ! i')" "i' < length nodes"
        using nodes(2) i i' by (auto simp: chain_nodes_def)
      have k': "k - 1 = seg_start segs i' + (length (snd (segs ! i')) - 1)" "0 < k"
        using k False i i' segment_nonempty [OF r, of i']
        by (auto simp: seg_start_Suc Suc_le_eq)
      have "cursor_at aref l segs i' (length (snd (segs ! i')) - 1)
          \<lparr>cursor_list = l, array_offset = node_offset (nodes ! i'),
           array_index = node_len (nodes ! i') - 1, cursor_remaining = node_remaining (nodes ! i'),
           cursor_node = Some (nodes ! i'), node_index = Some i', cursor_chain = Some nodes,
           cached_value = None\<rparr>"
        using n nodes(2) i i' segment_nonempty [OF r, of i'] node_len_seg_node [OF r n(1)]
        by (simp add: cursor_at_def seg_node_def)
      then show ?thesis
        using False j ne nodes(1) i' n(2) k' lo by (auto simp: cursor_previous_def Let_def intro: cursor_reprI)
    qed
  qed
qed

lemma cursor_at_head_repr:
  assumes r: "chain_repr aref l segs"
  shows "cursor_repr aref l segs 0 (cursor_at_head l)"
  using chain_repr_head [OF r] segment_nonempty [OF r, of 0]
  by (intro cursor_reprI [of _ _ _ 0 0]) (simp_all add: cursor_at_def cursor_at_head_def)

lemma cursor_head_repr:
  assumes r: "chain_repr aref l segs" and c: "cursor_repr aref l segs k c"
  shows "cursor_repr aref l segs 0 (cursor_head c)"
proof -
  have l: "cursor_list c = l" using c by (auto simp: cursor_repr_def cursor_at_def)
  show ?thesis
  proof (cases "\<exists>n ch. cursor_chain c = Some (n # ch)")
    case True
    then obtain n ch where ch: "cursor_chain c = Some (n # ch)" by blast
    then have "chain_nodes aref l segs (n # ch)" using c by (auto simp: cursor_repr_def cursor_at_def)
    then have "seg_node aref l segs 0 n" "chain_nodes aref l segs (n # ch)"
      using chain_repr_head(3) [OF r] by (auto simp: chain_nodes_def)
    with ch l show ?thesis using segment_nonempty [OF r, of 0]
      by (intro cursor_reprI [of _ _ _ 0 0]) (auto simp: cursor_at_def cursor_head_def seg_node_def)
  next
    case False
    then have "cursor_head c = cursor_at_head l"
      using l by (auto simp: cursor_head_def split: option.splits list.splits)
    then show ?thesis using cursor_at_head_repr [OF r] by simp
  qed
qed

lemma cursor_at_tail_repr:
  assumes r: "chain_repr aref l segs"
  obtains c where "cursor_at_tail aref l = Ok c" and "cursor_repr aref l segs (total_items l - 1) c"
proof -
  obtain nodes where nodes: "node_chain aref l = Ok nodes" "chain_nodes aref l segs nodes"
    by (rule node_chain_repr [OF r])
  define i where "i = length segs - 1"
  have i: "i < length segs" "Suc i = length segs" using chain_repr_head(3) [OF r] by (auto simp: i_def)
  have n: "seg_node aref l segs i (nodes ! i)" "length nodes = length segs"
    using nodes(2) i by (auto simp: chain_nodes_def)
  note len = node_len_seg_node [OF r n(1)] and ne = segment_nonempty [OF r i(1)]
  have total: "total_items l = seg_start segs i + length (snd (segs ! i))"
    using seg_start_total [OF r] i seg_start_Suc [OF i(1)] by simp
  have "cursor_at aref l segs i (length (snd (segs ! i)) - 1)
     \<lparr>cursor_list = l, array_offset = node_offset (nodes ! i), array_index = node_len (nodes ! i) - 1,
      cursor_remaining = node_len (nodes ! i), cursor_node = Some (nodes ! i), node_index = Some i,
      cursor_chain = Some nodes, cached_value = None\<rparr>" (is "cursor_at _ _ _ _ _ ?c")
    using n nodes(2) i ne len total by (simp add: cursor_at_def seg_node_def)
  moreover have "cursor_at_tail aref l = Ok ?c"
    using nodes(1) n(2) i by (auto simp: cursor_at_tail_def Let_def i_def)
  moreover have "total_items l - 1 = seg_start segs i + (length (snd (segs ! i)) - 1)"
    using total ne by (cases "snd (segs ! i)") auto
  ultimately show thesis by (intro that [of ?c]) (auto intro: cursor_reprI)
qed

section \<open>Binary search\<close>

text \<open>
  \<open>threshold\<close>: on the sequence \<open>vs\<close> the predicate is defined, true for the first \<open>t\<close> values and
  false for the others; this is what the searches require of it.
\<close>

definition threshold :: "(u64 \<Rightarrow> bool result) \<Rightarrow> u64 list \<Rightarrow> nat \<Rightarrow> bool" where
  "threshold predicate vs t \<longleftrightarrow>
     t \<le> length vs \<and> list_all (\<lambda>k. predicate (vs ! k) = Ok (k < t)) [0..<length vs]"

lemma thresholdD: "threshold predicate vs t \<Longrightarrow> k < length vs \<Longrightarrow> predicate (vs ! k) = Ok (k < t)"
  by (simp add: threshold_def list_all_iff)

lemma partition_loop_seg_node:
  assumes r: "chain_repr aref l segs" and n: "seg_node aref l segs i n"
    and t: "threshold predicate (snd (segs ! i)) t"
    and "left \<le> t" and "t \<le> right" and "right \<le> length (snd (segs ! i))"
  shows "partition_loop aref n predicate left right = Ok t"
  using assms(4-)
proof (induction "right - left" arbitrary: left right rule: less_induct)
  case less
  show ?case
  proof (cases "left = right")
    case True
    with less.prems show ?thesis by (subst partition_loop.simps) simp
  next
    case False
    define mid where "mid = (left + right) div 2"
    have mid: "left \<le> mid" "mid < right" using False less.prems by (auto simp: mid_def)
    then have "node_get aref n mid = Ok (Some (snd (segs ! i) ! mid))"
      using required_offset_seg_node(2) [OF r n] less.prems by simp
    moreover have "predicate (snd (segs ! i) ! mid) = Ok (mid < t)"
      using thresholdD [OF t] mid less.prems by simp
    moreover have "partition_loop aref n predicate (mid + 1) right = Ok t" if "mid < t"
      using less.prems mid that by (intro less.hyps) auto
    moreover have "partition_loop aref n predicate left mid = Ok t" if "\<not> mid < t"
      using less.prems mid that by (intro less.hyps) auto
    ultimately show ?thesis
      using False less.prems mid
      by (subst partition_loop.simps) (simp add: Let_def flip: mid_def)
  qed
qed

lemma node_partition_cursor_seg_node:
  assumes r: "chain_repr aref l segs" and n: "seg_node aref l segs i n"
    and t: "threshold predicate (snd (segs ! i)) t"
  shows "node_partition_cursor aref l n predicate direction =
    Ok (case direction of
          Forward \<Rightarrow> if t < length (snd (segs ! i)) then Some (at_cached_position l n t None None, t) else None
        | Backward \<Rightarrow> if 0 < t then Some (at_cached_position l n (t - 1) None None, t - 1) else None)"
proof -
  have "t \<le> length (snd (segs ! i))" using t by (simp add: threshold_def)
  then have "partition_loop aref n predicate 0 (length (snd (segs ! i))) = Ok t"
    by (intro partition_loop_seg_node [OF r n t]) auto
  then show ?thesis
    by (auto simp: node_partition_cursor_def node_directed_partition_point_def partition_point_def
        node_len_seg_node [OF r n] cursor_at_node_index_def split: Direction.split)
qed

text \<open>The threshold of the whole sequence, seen inside one segment.\<close>

lemma threshold_segment:
  assumes r: "chain_repr aref l segs" and i: "i < length segs"
    and T: "threshold predicate (list_values segs) T"
  shows "threshold predicate (snd (segs ! i)) (min (T - seg_start segs i) (length (snd (segs ! i))))"
proof -
  have total: "length (list_values segs) = total_items l"
    using r chain_ok_length unfolding chain_repr_def by blast
  have "predicate (snd (segs ! i) ! k) = Ok (k < T - seg_start segs i)"
    if "k < length (snd (segs ! i))" for k
    using thresholdD [OF T, of "seg_start segs i + k"] that seg_position_less [OF r i that] total
      list_values_nth [OF i that] by (simp add: less_diff_conv add.commute)
  then show ?thesis by (auto simp: threshold_def list_all_iff)
qed

definition search_answer :: "array_ref \<Rightarrow> List \<Rightarrow> segments \<Rightarrow> Direction \<Rightarrow> nat \<Rightarrow> Cursor option \<Rightarrow> bool" where
  "search_answer aref l segs direction T found \<longleftrightarrow>
     (case direction of
        Forward \<Rightarrow>
          (case found of None \<Rightarrow> T = total_items l | Some c \<Rightarrow> cursor_repr aref l segs T c)
      | Backward \<Rightarrow>
          (case found of None \<Rightarrow> T = 0 | Some c \<Rightarrow> 0 < T \<and> cursor_repr aref l segs (T - 1) c))"

lemma list_partition_loop_forward:
  assumes r: "chain_repr aref l segs" and n: "seg_node aref l segs i n"
    and T: "threshold predicate (list_values segs) T"
  shows "\<forall>last. seg_start segs i \<le> T \<longrightarrow>
    (\<exists>found. list_partition_loop aref l predicate Forward n last = Ok found \<and>
       search_answer aref l segs Forward T found)"
  using r n
proof (induction rule: seg_node_induct)
  case (last i n)
  then have i: "i < length segs" by simp
  have T': "T \<le> total_items l" using T chain_ok_length r by (auto simp: threshold_def chain_repr_def)
  have tot: "seg_start segs i + length (snd (segs ! i)) = total_items l"
    using seg_start_Suc [OF i] seg_start_total [OF r] last(2) by simp
  note step1 = node_partition_cursor_seg_node [OF r last(1) threshold_segment [OF r i T], of Forward]
  show ?case
  proof (intro allI impI)
    fix lc assume le: "seg_start segs i \<le> T"
    show "\<exists>found. list_partition_loop aref l predicate Forward n lc = Ok found \<and> search_answer aref l segs Forward T found"
      using step1 le last(3) tot T' cursor_at_cached_position [OF last(1), of "T - seg_start segs i"]
      by (subst list_partition_loop.simps)
        (auto simp: list_partition_round_def search_answer_def min_def intro: cursor_reprI)
  qed
next
  case (step i n m)
  then have i: "i < length segs" by simp
  note step1 = node_partition_cursor_seg_node [OF r step(1) threshold_segment [OF r i T], of Forward]
  show ?case
  proof (intro allI impI)
    fix lc assume le: "seg_start segs i \<le> T"
    show "\<exists>found. list_partition_loop aref l predicate Forward n lc = Ok found \<and> search_answer aref l segs Forward T found"
    proof (cases "T < seg_start segs (Suc i)")
      case True
      then have "T - seg_start segs i < length (snd (segs ! i))" using le i by (simp add: seg_start_Suc)
      then show ?thesis
        using step1 le cursor_at_cached_position [OF step(1), of "T - seg_start segs i"]
        by (subst list_partition_loop.simps)
          (auto simp: list_partition_round_def search_answer_def min_def intro: cursor_reprI)
    next
      case False
      then have "\<not> T - seg_start segs i < length (snd (segs ! i))" using le i by (simp add: seg_start_Suc)
      then show ?thesis
        using step1 le step(3,5) False
        by (subst list_partition_loop.simps) (auto simp: list_partition_round_def min_def)
    qed
  qed
qed

lemma list_partition_loop_backward:
  assumes r: "chain_repr aref l segs" and n: "seg_node aref l segs i n"
    and T: "threshold predicate (list_values segs) T"
  shows "\<forall>last. seg_start segs i \<le> T \<longrightarrow> search_answer aref l segs Backward (seg_start segs i) last \<longrightarrow>
    (\<exists>found. list_partition_loop aref l predicate Backward n last = Ok found \<and>
       search_answer aref l segs Backward T found)"
  using r n
proof (induction rule: seg_node_induct)
  case (last i n)
  then have i: "i < length segs" by simp
  have T': "T \<le> total_items l" using T chain_ok_length r by (auto simp: threshold_def chain_repr_def)
  have tot: "seg_start segs i + length (snd (segs ! i)) = total_items l"
    using seg_start_Suc [OF i] seg_start_total [OF r] last(2) by simp
  have nx: "\<not> has_next n" using has_next_seg_node [OF r last(1)] last(2) by simp
  note step1 = node_partition_cursor_seg_node [OF r last(1) threshold_segment [OF r i T], of Backward]
  show ?case
  proof (intro allI impI)
    fix lc assume le: "seg_start segs i \<le> T" and lc: "search_answer aref l segs Backward (seg_start segs i) lc"
    show "\<exists>found. list_partition_loop aref l predicate Backward n lc = Ok found \<and> search_answer aref l segs Backward T found"
    proof (cases "T = seg_start segs i")
      case True
      then show ?thesis
        using step1 lc by (subst list_partition_loop.simps) (auto simp: list_partition_round_def)
    next
      case False
      then show ?thesis
        using step1 le tot T' nx cached_cursor_repr [OF last(1), of "T - 1"]
        by (subst list_partition_loop.simps)
          (auto simp: list_partition_round_def search_answer_def min_def backward_search_must_continue_def)
    qed
  qed
next
  case (step i n m)
  then have i: "i < length segs" by simp
  have nx: "has_next n" using has_next_seg_node [OF r step(1)] step(2) by simp
  note len = node_len_seg_node [OF r step(1)]
  note ne = segment_nonempty [OF r i]
  note step1 = node_partition_cursor_seg_node [OF r step(1) threshold_segment [OF r i T], of Backward]
  show ?case
  proof (intro allI impI)
    fix lc assume le: "seg_start segs i \<le> T" and lc: "search_answer aref l segs Backward (seg_start segs i) lc"
    show "\<exists>found. list_partition_loop aref l predicate Backward n lc = Ok found \<and> search_answer aref l segs Backward T found"
    proof (cases "T < seg_start segs (Suc i)")
      case True
      then have lt: "T - seg_start segs i < length (snd (segs ! i))" using le i by (simp add: seg_start_Suc)
      show ?thesis
      proof (cases "T = seg_start segs i")
        case True
        then show ?thesis
          using step1 lc by (subst list_partition_loop.simps) (auto simp: list_partition_round_def)
      next
        case False
        then show ?thesis
          using step1 le lt len cached_cursor_repr [OF step(1), of "T - 1"]
          by (subst list_partition_loop.simps)
            (auto simp: list_partition_round_def search_answer_def min_def backward_search_must_continue_def)
      qed
    next
      case False
      then have ge: "min (T - seg_start segs i) (length (snd (segs ! i))) = length (snd (segs ! i))"
        using le i by (simp add: seg_start_Suc)
      have "search_answer aref l segs Backward (seg_start segs (Suc i))
          (Some (at_cached_position l n (length (snd (segs ! i)) - 1) None None))"
        using cursor_at_cached_position [OF step(1), of "length (snd (segs ! i)) - 1"] ne i
        by (auto simp: search_answer_def seg_start_Suc Suc_le_eq intro!: cursor_reprI)
      then show ?thesis
        using step1 step(3,5) False ge ne nx len
        by (subst list_partition_loop.simps)
          (auto simp: list_partition_round_def backward_search_must_continue_def)
    qed
  qed
qed

lemma list_directed_partition_point_repr:
  assumes r: "chain_repr aref l segs" and T: "threshold predicate (list_values segs) T"
  obtains found where "list_directed_partition_point aref l predicate direction = Ok found"
    and "search_answer aref l segs direction T found"
proof -
  obtain n where n: "list_head aref l = Ok n" "seg_node aref l segs 0 n" by (rule list_head_seg_node [OF r])
  have "search_answer aref l segs Backward (seg_start segs 0) None" by (simp add: search_answer_def)
  then have "\<exists>found. list_partition_loop aref l predicate direction n None = Ok found \<and>
      search_answer aref l segs direction T found"
    using list_partition_loop_forward [OF r n(2) T] list_partition_loop_backward [OF r n(2) T]
    by (cases direction) (simp_all add: seg_start_0)
  then show thesis using n(1) by (auto simp: list_directed_partition_point_def intro: that)
qed

section \<open>Collecting from a cursor\<close>

lemma collect_rest_loop_seg_node:
  assumes r: "chain_repr aref l segs" and n: "seg_node aref l segs i n"
  shows "\<forall>offsets. collect_rest_loop aref n offsets = Ok (offsets @ list_values (drop (Suc i) segs))"
  using r n
proof (induction rule: seg_node_induct)
  case (last i n)
  then show ?case by (subst collect_rest_loop.simps) simp
next
  case (step i n m)
  obtain a where "aref (node_offset m) = Ok a"
    "\<And>offsets. collect_array_offsets a 0 (node_remaining m) offsets = Ok (offsets @ drop 0 (snd (segs ! Suc i)))"
    using collect_array_seg_node [OF r step(4), of 0] segment_nonempty [OF r step(2)] by auto
  with step show ?case
    by (subst collect_rest_loop.simps) (simp add: list_values_drop_nth [of "Suc i"])
qed

lemma cursor_collect_offsets_repr:
  assumes r: "chain_repr aref l segs" and "cursor_repr aref l segs k c"
  shows "cursor_collect_offsets aref c offsets = Ok (offsets @ drop k (list_values segs))"
proof -
  obtain i j where k: "k = seg_start segs i + j" and c: "cursor_at aref l segs i j c"
    using assms(2) by (auto simp: cursor_repr_def)
  obtain n where n: "current_node aref c = Ok n" "seg_node aref l segs i n"
    by (rule current_node_cursor_at [OF r c])
  have i: "i < length segs" and j: "j < length (snd (segs ! i))" "array_index c = j"
    using c by (auto simp: cursor_at_def)
  obtain a where a: "aref (node_offset n) = Ok a"
    "\<forall>offsets. collect_array_offsets a j (node_remaining n) offsets = Ok (offsets @ drop j (snd (segs ! i)))"
    using collect_array_seg_node [OF r n(2) j(1)] by metis
  have "list_values segs = list_values (take i segs) @ snd (segs ! i) @ list_values (drop (Suc i) segs)"
    using i by (simp flip: list_values_append list_values_drop_nth)
  then have "drop k (list_values segs) = drop j (snd (segs ! i)) @ list_values (drop (Suc i) segs)"
    using k j(1) by (simp add: seg_start_def)
  with n(1) a j(2) show ?thesis
    by (simp add: cursor_collect_offsets_def collect_rest_loop_seg_node [OF r n(2)])
qed

section \<open>What an arbitrary file can make the traversal do\<close>

text \<open>
  \<open>visited\<close> is kept by \<open>node_next\<close> over any accessor: the arrays met so far are distinct, and as long
  as the order flag is clear their offsets increase.
\<close>

definition visited :: "array_ref \<Rightarrow> u64 \<Rightarrow> u64 list \<Rightarrow> Node \<Rightarrow> bool" where
  "visited aref head p n \<longleftrightarrow>
     link_path (next_of aref) (p @ [node_offset n]) \<and> distinct (p @ [node_offset n]) \<and>
     hd (p @ [node_offset n]) = head \<and> head mod 8 = 0 \<and> head \<noteq> 0 \<and>
     (head_and_order n = head \<and> sorted_wrt (<) (p @ [node_offset n]) \<or> head_and_order n = head OR 1) \<and>
     (\<exists>a. aref (node_offset n) = Ok a \<and> node_capacity n = array_capacity a \<and> array_capacity a \<noteq> 0)"

lemma node_new_OkD:
  assumes "node_new aref off rem head u = Ok n"
  shows "head mod 8 = 0" and "node_offset n = off" and "node_remaining n = rem"
    and "head_and_order n = head OR (if u then 1 else 0)"
    and "\<exists>a. aref off = Ok a \<and> node_capacity n = array_capacity a \<and> array_capacity a \<noteq> 0"
  using assms unfolding node_new_def Let_def
  by (auto simp: rbind_eq_Ok validate_offset_alignment_Ok split: if_splits)

context array_source
begin

lemma visited_head:
  assumes "list_head aref l = Ok n" and "head_offset l \<noteq> 0"
  shows "visited aref (head_offset l) [] n"
proof -
  note new = node_new_OkD [OF assms(1) [unfolded list_head_def]]
  show ?thesis
    unfolding visited_def
    using new assms(2) by (intro conjI) (auto simp: link_path_def)
qed

lemma visited_next:
  assumes v: "visited aref head p n" and nx: "node_next aref n = Ok (Some m)"
  shows "visited aref head (p @ [node_offset n]) m" and "node_remaining m = node_remaining n - node_len n"
    and "node_len n < node_remaining n" and "next_of aref (node_offset n) = Ok (Some (node_offset m))"
proof -
  have al: "head mod 8 = 0" "head \<noteq> 0" and path: "link_path (next_of aref) (p @ [node_offset n])"
    "distinct (p @ [node_offset n])" "hd (p @ [node_offset n]) = head"
    using v unfolding visited_def by blast+
  have flag: "head_and_order n AND NOT 1 = head" and clear: "head_and_order n AND 1 = 0 \<Longrightarrow> sorted_wrt (<) (p @ [node_offset n])"
    using v flag_clear [OF al(1)] unfolding visited_def by metis+
  obtain a nxt where a: "aref (node_offset n) = Ok a" "next_offset_array a = Some nxt"
    and rem: "node_len n < node_remaining n"
    and rej: "head_and_order n AND 1 \<noteq> 0 \<or> nxt \<le> node_offset n \<Longrightarrow>
      reject_array_revisit head (node_offset n) nxt (next_of aref) = Ok ()"
    and new: "node_new aref nxt (node_remaining n - node_len n) head
      (head_and_order n AND 1 \<noteq> 0 \<or> nxt \<le> node_offset n) = Ok m"
    using nx unfolding node_next_def Let_def flag
    by (auto simp: rbind_eq_Ok ok_or_eq_Ok split: if_splits)
  note m = node_new_OkD [OF new]
  have link: "next_of aref (node_offset n) = Ok (Some nxt)" using a by (simp add: next_of_def)
  have nz: "nxt \<noteq> 0" using next_nonzero [OF a(1)] a(2) by auto
  have fresh: "nxt \<notin> set (p @ [node_offset n])"
  proof (cases "head_and_order n AND 1 \<noteq> 0 \<or> nxt \<le> node_offset n")
    case True
    from rej [OF this] reject_array_revisit_path [OF path, of "node_offset n" nxt]
    show ?thesis by (auto split: if_splits)
  next
    case False
    with clear have "\<forall>x \<in> set p. x < node_offset n" "node_offset n < nxt" by (auto simp: sorted_wrt_append)
    then show ?thesis by auto
  qed
  have path': "link_path (next_of aref) ((p @ [node_offset n]) @ [nxt])"
    using path(1) link nz unfolding link_path_def
    by (auto simp: nth_append less_Suc_eq)
  have sorted': "sorted_wrt (<) ((p @ [node_offset n]) @ [nxt])"
    if "\<not> (head_and_order n AND 1 \<noteq> 0 \<or> nxt \<le> node_offset n)"
    using that clear by (auto simp: sorted_wrt_append)
  have hd': "hd ((p @ [node_offset n]) @ [nxt]) = head" using path(3) by (cases p) auto
  show "visited aref head (p @ [node_offset n]) m"
    unfolding visited_def m(2)
  proof (intro conjI)
    show "head_and_order m = head \<and> sorted_wrt (<) ((p @ [node_offset n]) @ [nxt]) \<or>
        head_and_order m = head OR 1"
      using m(4) sorted' by (auto split: if_splits)
  qed (use path' fresh path(2) al hd' m(5) in auto)
  show "node_remaining m = node_remaining n - node_len n" "node_len n < node_remaining n"
    "next_of aref (node_offset n) = Ok (Some (node_offset m))"
    using m rem link by auto
qed

lemma node_chain_loop_sound:
  "node_chain_loop ar n acc = Ok nodes \<Longrightarrow> ar = aref \<Longrightarrow> visited aref head (map node_offset acc) n \<Longrightarrow>
    distinct (map node_offset nodes) \<and> (\<exists>rest. nodes = acc @ n # rest) \<and>
    sum_list (map node_len nodes) = sum_list (map node_len acc) + node_remaining n"
proof (induction ar n acc rule: node_chain_loop.induct)
  case (1 ar n acc)
  from "1.prems"(1,2) obtain nx where nx: "node_next aref n = Ok nx"
    by (subst (asm) node_chain_loop.simps) (auto simp: rbind_eq_Ok Let_def)
  show ?case
  proof (cases nx)
    case None
    then have "node_len n = node_remaining n"
      using nx by (auto simp: node_next_def node_len_def rbind_eq_Ok ok_or_eq_Ok Let_def split: if_splits)
    moreover have "nodes = acc @ [n]"
      using "1.prems"(1,2) nx None by (subst (asm) node_chain_loop.simps) simp
    ultimately show ?thesis using "1.prems"(3) by (auto simp: visited_def)
  next
    case (Some m)
    have rest: "node_chain_loop aref m (acc @ [n]) = Ok nodes"
      using "1.prems"(1,2) nx Some by (subst (asm) node_chain_loop.simps) simp
    note v = visited_next [OF "1.prems"(3) nx [unfolded Some]]
    have "distinct (map node_offset nodes) \<and> (\<exists>rest. nodes = (acc @ [n]) @ m # rest) \<and>
        sum_list (map node_len nodes) = sum_list (map node_len (acc @ [n])) + node_remaining m"
      using "1.IH" [OF refl, of nx m] "1.prems"(2) nx Some rest v(1) by simp
    then show ?thesis using v(2,3) by auto
  qed
qed

lemma node_chain_sound:
  assumes "node_chain aref l = Ok nodes" and "head_offset l \<noteq> 0"
  shows "distinct (map node_offset nodes)" and "sum_list (map node_len nodes) = total_items l"
proof -
  obtain n where n: "list_head aref l = Ok n" "node_chain_loop aref n [] = Ok nodes"
    using assms(1) by (auto simp: node_chain_def rbind_eq_Ok)
  moreover have "node_remaining n = total_items l"
    using node_new_OkD(3) n(1) by (simp add: list_head_def)
  ultimately show "distinct (map node_offset nodes)" "sum_list (map node_len nodes) = total_items l"
    using node_chain_loop_sound [OF n(2) refl, of "head_offset l"] visited_head [OF n(1) assms(2)] by auto
qed

end

lemma collect_array_offsets_OkD:
  assumes "collect_array_offsets a 0 rem offsets = Ok out"
  obtains vs where "out = offsets @ vs" and "vs \<noteq> []" and "length vs = array_len a rem"
    and "\<And>k. k < length vs \<Longrightarrow> offsets_get (items a) k = Ok (Some (vs ! k))"
proof (cases "items a")
  case (Regular xs)
  obtain vs where vs: "out = offsets @ vs" "list_all2 (\<lambda>x y. ok_or x InvalidOffset = Ok y) (take (array_len a rem) xs) vs"
    and ne: "0 < array_len a rem"
    using assms Regular by (auto simp: collect_array_offsets_def Let_def rbind_eq_Ok rmapM_Ok split: if_splits)
  have "length (take (array_len a rem) xs) = array_len a rem"
    using Regular by (simp add: array_len_def array_capacity_def)
  with vs ne Regular show thesis
    by (intro that [of vs]) (auto simp: list_all2_conv_all_nth ok_or_eq_Ok)
next
  case (CompactItems xs)
  obtain vs where vs: "out = offsets @ vs"
    "list_all2 (\<lambda>x y. rbind (ok_or x InvalidOffset) (\<lambda>v. Ok (ucast v)) = Ok y) (take (array_len a rem) xs) vs"
    and ne: "0 < array_len a rem"
    using assms CompactItems by (auto simp: collect_array_offsets_def Let_def rbind_eq_Ok rmapM_Ok split: if_splits)
  have "length (take (array_len a rem) xs) = array_len a rem"
    using CompactItems by (simp add: array_len_def array_capacity_def)
  with vs ne CompactItems show thesis
    by (intro that [of vs]) (fastforce simp: list_all2_conv_all_nth ok_or_eq_Ok rbind_eq_Ok)+
qed

context array_source
begin

text \<open>Whatever \<open>collect_offsets\<close> returns is the content of a represented list.\<close>

lemma collect_loop_sound:
  "collect_loop ar n offsets = Ok out \<Longrightarrow> ar = aref \<Longrightarrow> visited aref head p n \<Longrightarrow>
    \<exists>segs. segs \<noteq> [] \<and> fst (hd segs) = node_offset n \<and> chain_ok aref (node_remaining n) segs \<and>
      distinct (p @ map fst segs) \<and> out = offsets @ list_values segs"
proof (induction ar n offsets arbitrary: p rule: collect_loop.induct)
  case (1 ar n offsets)
  from "1.prems"(1,2) obtain a offs nx where a: "aref (node_offset n) = Ok a"
    and offs: "collect_array_offsets a 0 (node_remaining n) offsets = Ok offs"
    and nx: "node_next aref n = Ok nx"
    and rest: "(case nx of Some m \<Rightarrow> collect_loop aref m offs | None \<Rightarrow> Ok offs) = Ok out"
    by (subst (asm) collect_loop.simps) (auto simp: rbind_eq_Ok)
  obtain vs where vs: "offs = offsets @ vs" "vs \<noteq> []" "length vs = array_len a (node_remaining n)"
    "\<forall>k < length vs. offsets_get (items a) k = Ok (Some (vs ! k))"
    using collect_array_offsets_OkD [OF offs] by metis
  have fresh: "distinct (p @ [node_offset n])" "node_offset n \<noteq> 0" and cap: "node_capacity n = array_capacity a"
    using "1.prems"(3) a by (auto simp: visited_def link_path_def)
  have len: "node_len n = length vs" using vs(3) cap by (simp add: node_len_def array_len_def)
  show ?case
  proof (cases nx)
    case None
    then have "node_remaining n = length vs"
      using nx len by (auto simp: node_next_def node_len_def rbind_eq_Ok ok_or_eq_Ok Let_def split: if_splits)
    with None rest vs a fresh show ?thesis
      by (intro exI [of _ "[(node_offset n, vs)]"])
        (auto simp: array_len_def list_all_iff)
  next
    case (Some m)
    note v = visited_next [OF "1.prems"(3) nx [unfolded Some]]
    have "collect_loop aref m offs = Ok out" using rest Some by simp
    then obtain segs where segs: "segs \<noteq> []" "fst (hd segs) = node_offset m"
      "chain_ok aref (node_remaining m) segs" "distinct ((p @ [node_offset n]) @ map fst segs)"
      "out = offs @ list_values segs"
      using "1.IH" [of a offs nx m "p @ [node_offset n]"] "1.prems"(2) a offs nx Some v(1) by auto
    have "next_offset_array a = Some (fst (hd segs))" using v(4) a segs(2) by (simp add: next_of_def)
    with segs vs a fresh v(2) len show ?thesis
      by (intro exI [of _ "(node_offset n, vs) # segs"]) (auto simp: array_len_def list_all_iff)
  qed
qed

lemma list_collect_offsets_sound:
  assumes "list_collect_offsets aref l offsets = Ok out" and "head_offset l \<noteq> 0"
  obtains segs where "chain_repr aref l segs" and "out = offsets @ list_values segs"
proof -
  obtain n where n: "list_head aref l = Ok n" "collect_loop aref n offsets = Ok out"
    using assms(1) by (auto simp: list_collect_offsets_def rbind_eq_Ok)
  have new: "head_offset l mod 8 = 0" "node_remaining n = total_items l" "node_offset n = head_offset l"
    using node_new_OkD [OF n(1) [unfolded list_head_def]] by blast+
  obtain segs where "segs \<noteq> []" "fst (hd segs) = node_offset n" "chain_ok aref (node_remaining n) segs"
    "distinct ([] @ map fst segs)" "out = offsets @ list_values segs"
    using collect_loop_sound [OF n(2) refl visited_head [OF n(1) assms(2)]] by blast
  with new show thesis by (intro that [of segs]) (simp_all add: chain_repr_def)
qed

end

section \<open>Properties\<close>

text \<open>
  A small file for the witnesses: two linked arrays, the second before the first, so that the link
  breaks the order of the offsets.
\<close>

definition sample_array :: "u64 option \<Rightarrow> u64 list \<Rightarrow> OffsetArrayObject" where
  "sample_array next vs =
     \<lparr>array_header = \<lparr>obj_type = 6, flags = 0, obj_reserved = [], obj_size = 0\<rparr>,
      next_offset_array = next, items = Regular (map Some vs)\<rparr>"

definition sample_aref :: array_ref where
  "sample_aref off =
     (if off = 96 then Ok (sample_array (Some 64) [200, 300])
      else if off = 64 then Ok (sample_array None [400, 500, 600, 700])
      else Err InvalidOffset)"

definition sample_list :: List where
  "sample_list = \<lparr>head_offset = 96, total_items = 5\<rparr>"

definition sample_segs :: segments where
  "sample_segs = [(96, [200, 300]), (64, [400, 500, 600])]"

lemma sample_chain_repr: "chain_repr sample_aref sample_list sample_segs"
  by (simp add: chain_repr_def sample_list_def sample_segs_def sample_aref_def sample_array_def
      array_capacity_def upt_rec)

text \<open>
  C32. Searching a list of offset arrays: for a predicate that is true exactly on the first \<open>T\<close> of the
  stored offsets, the forward search returns a cursor on item \<open>T\<close> (none if every item satisfies the
  predicate) and the backward search one on item \<open>T - 1\<close> (none if no item does), whatever the
  division into arrays and whatever the order of the array offsets in the file.
\<close>

theorem list_search_correct:
  assumes "chain_repr aref l segs" and "threshold predicate (list_values segs) T"
  shows "\<exists>found. list_directed_partition_point aref l predicate direction = Ok found \<and>
    search_answer aref l segs direction T found \<and>
    (\<forall>c. found = Some c \<longrightarrow>
       cursor_value aref c = Ok (Some (list_values segs ! (if direction = Forward then T else T - 1))))"
proof -
  obtain found where f: "list_directed_partition_point aref l predicate direction = Ok found"
    "search_answer aref l segs direction T found"
    by (rule list_directed_partition_point_repr [OF assms])
  then show ?thesis
    using cursor_value_repr [OF assms(1)]
    by (intro exI [of _ found]) (auto simp: search_answer_def split: Direction.splits)
qed

theorem list_search_correct_witness:
  "\<exists>c. list_directed_partition_point sample_aref sample_list (\<lambda>v. Ok (v \<le> 400)) Backward = Ok (Some c) \<and>
     cursor_value sample_aref c = Ok (Some 400)"
proof -
  have "threshold (\<lambda>v. Ok (v \<le> 400)) (list_values sample_segs) 3"
    by (simp add: threshold_def sample_segs_def upt_rec)
  from list_search_correct [OF sample_chain_repr this, of Backward]
  obtain found where "list_directed_partition_point sample_aref sample_list (\<lambda>v. Ok (v \<le> 400)) Backward = Ok found"
    "search_answer sample_aref sample_list sample_segs Backward 3 found"
    "\<forall>c. found = Some c \<longrightarrow> cursor_value sample_aref c = Ok (Some (list_values sample_segs ! 2))"
    by auto
  then show ?thesis
    by (cases found) (auto simp: search_answer_def sample_segs_def)
qed

text \<open>
  C33. The cursor is a position: one that stands for item \<open>k\<close> of the list reads item \<open>k\<close>, its successor
  stands for item \<open>k + 1\<close> and its predecessor for item \<open>k - 1\<close>, both ends answer none, and no step fails,
  whether or not the cursor carries a cached node, chain or value.
\<close>

theorem cursor_refines_position:
  assumes "chain_repr aref l segs" and "cursor_repr aref l segs k c"
  shows "cursor_value aref c = Ok (Some (list_values segs ! k)) \<and>
    (if Suc k < total_items l
     then \<exists>c'. cursor_next aref c = Ok (Some c') \<and> cursor_repr aref l segs (Suc k) c'
     else cursor_next aref c = Ok None) \<and>
    (if 0 < k then \<exists>c'. cursor_previous aref c = Ok (Some c') \<and> cursor_repr aref l segs (k - 1) c'
     else cursor_previous aref c = Ok None)"
  using cursor_value_repr [OF assms] cursor_next_repr [OF assms] cursor_previous_repr [OF assms] by blast

theorem cursor_refines_position_witness:
  "\<exists>c'. cursor_next sample_aref (cursor_at_head sample_list) = Ok (Some c') \<and>
     cursor_repr sample_aref sample_list sample_segs 1 c'"
  using cursor_refines_position [OF sample_chain_repr cursor_at_head_repr [OF sample_chain_repr]]
  by (simp add: sample_list_def)

text \<open>
  Head, tail and bulk reading agree with the same sequence: the head cursor stands at item 0, the
  tail cursor at the last item, and collecting from a cursor at item \<open>k\<close> appends exactly the items
  from \<open>k\<close> on.
\<close>

theorem cursor_ends_and_collect:
  assumes "chain_repr aref l segs" and "cursor_repr aref l segs k c"
  shows "cursor_repr aref l segs 0 (cursor_head c) \<and>
    (\<exists>t. cursor_at_tail aref l = Ok t \<and> cursor_repr aref l segs (total_items l - 1) t) \<and>
    cursor_collect_offsets aref c offsets = Ok (offsets @ drop k (list_values segs))"
  using cursor_head_repr [OF assms] cursor_at_tail_repr [OF assms(1)] cursor_collect_offsets_repr [OF assms]
  by metis

theorem cursor_ends_and_collect_witness:
  "\<exists>t. cursor_at_tail sample_aref sample_list = Ok t \<and> cursor_repr sample_aref sample_list sample_segs 4 t"
  using cursor_ends_and_collect [OF sample_chain_repr cursor_at_head_repr [OF sample_chain_repr]]
  by (simp add: sample_list_def)

end
