(* ===== verification/Window_Slices.thy ===== *)
theory Window_Slices
  imports Window_Manager
begin

text \<open>
  The invariant of the window cache and its refinement of the plain file: for a reader, \<open>get_slice\<close>
  and \<open>get_row_pinned_slice\<close> return the requested range of the file, or fail because the range is
  not in the file or because the kernel refused a mapping, and never otherwise.
\<close>

section \<open>Invariant\<close>

definition window_backed :: "OsFile \<Rightarrow> Window \<Rightarrow> bool" where
  "window_backed f w \<longleftrightarrow> unat (w_offset w) + unat (w_size w) \<le> length (contents f)"

definition wm_inv :: "WindowManager \<Rightarrow> bool" where
  "wm_inv wm \<longleftrightarrow>
     chunk_size wm \<noteq> 0 \<and> 0 < max_windows wm \<and>
     length (contents (os_file wm)) + unat (chunk_size wm) < 2 ^ 64 \<and>
     unat (file_size wm) \<le> length (contents (os_file wm)) \<and>
     (\<forall>i. active_window_idx wm = Some i \<longrightarrow> i < length (windows wm)) \<and>
     list_all (window_backed (os_file wm)) (windows wm) \<and>
     row_pin_count wm = length (filter row_pinned (windows wm))"

text \<open>What an operation of a reader leaves alone: the file, the configuration and the pinned windows.\<close>

definition wm_keeps :: "WindowManager \<Rightarrow> WindowManager \<Rightarrow> bool" where
  "wm_keeps wm wm' \<longleftrightarrow>
     os_file wm' = os_file wm \<and> bounds_mode wm' = bounds_mode wm \<and> strategy wm' = strategy wm \<and>
     chunk_size wm' = chunk_size wm \<and> max_windows wm' = max_windows wm \<and>
     file_size wm \<le> file_size wm' \<and> (bounds_mode wm \<noteq> LiveFile \<longrightarrow> file_size wm' = file_size wm) \<and>
     (strategy wm = Windowed \<longrightarrow> set (filter row_pinned (windows wm)) \<subseteq> set (windows wm'))"

definition reader_limit :: "WindowManager \<Rightarrow> nat" where
  "reader_limit wm = (if bounds_mode wm = LiveFile then length (contents (os_file wm)) else unat (file_size wm))"

definition refused :: "JournalError \<Rightarrow> WindowManager \<Rightarrow> bool" where
  "refused e wm \<longleftrightarrow> e = Io OtherIo \<and> (\<exists>off sz. \<not> map_ok (os_file wm) off sz)"

lemma unat_os_len: "length (contents f) < 2 ^ 64 \<Longrightarrow> unat (os_len f) = length (contents f)"
  by (simp add: os_len_def unat_of_nat)

lemma wm_inv_len: "wm_inv wm \<Longrightarrow> unat (os_len (os_file wm)) = length (contents (os_file wm))"
  by (simp add: wm_inv_def unat_os_len)

lemma wm_keeps_refl [simp]: "wm_keeps wm wm"
  by (auto simp: wm_keeps_def)

lemma contains_range_iff:
  assumes "window_backed f w" and "length (contents f) < 2 ^ 64"
  shows "contains_range w pos sz \<longleftrightarrow>
    unat (w_offset w) \<le> unat pos \<and> unat pos + unat sz \<le> unat (w_offset w) + unat (w_size w)"
proof -
  have "unat (w_offset w) + unat (w_size w) < 2 ^ 64"
    using assms by (simp add: window_backed_def)
  then have some: "checked_add (w_offset w) (w_size w) = Some (w_offset w + w_size w)"
    by (simp add: checked_add_def)
  obtain e where e: "end_offset w = Some e" "unat e = unat (w_offset w) + unat (w_size w)"
    using some unat_checked_add [OF some] by (simp add: end_offset_def)
  show ?thesis
  proof (cases "checked_add pos sz")
    case None
    then have "2 ^ 64 \<le> unat pos + unat sz" by (simp add: checked_add_eq_None)
    then show ?thesis using None e assms by (auto simp: contains_range_def window_backed_def)
  next
    case (Some x)
    then show ?thesis
      using e unat_checked_add [OF Some] by (simp add: contains_range_def word_le_nat_alt)
  qed
qed

section \<open>Chunk arithmetic\<close>

lemma div_ceil_bounds:
  fixes a c :: u64
  assumes "c \<noteq> 0" and "unat a + unat c < 2 ^ 64"
  shows "unat (div_ceil a c) * unat c < 2 ^ 64" and "unat a \<le> unat (div_ceil a c) * unat c"
proof -
  let ?a = "unat a" and ?c = "unat c"
  have c: "0 < ?c" using assms(1) by (simp add: unat_gt_0)
  have "?a div ?c \<le> ?a" by simp
  with assms(2) c have "?a div ?c < 2 ^ 64 - 1" by linarith
  then have "a div c \<noteq> - 1"
    by (metis unat_div_distrib unat_u64_max u64_max_def less_irrefl)
  then have u: "unat (div_ceil a c) = (if ?a mod ?c = 0 then ?a div ?c else Suc (?a div ?c))"
    by (auto simp: div_ceil_def word_less_nat_alt unat_mod_distrib unat_div_distrib unat_plus_one)
  define q where "q = ?a div ?c * ?c"
  have split: "?a = q + ?a mod ?c" by (simp add: q_def)
  have lt: "?a mod ?c < ?c" using c by simp
  have m: "unat (div_ceil a c) * ?c = (if ?a mod ?c = 0 then q else ?c + q)"
    by (simp add: u q_def)
  show "unat a \<le> unat (div_ceil a c) * unat c" "unat (div_ceil a c) * unat c < 2 ^ 64"
    unfolding m using split lt assms(2) by (cases "?a mod ?c = 0"; simp)+
qed

lemma chunk_span:
  assumes inv: "wm_inv wm" and sz: "sz \<noteq> 0" and fits: "unat pos + unat sz \<le> length (contents (os_file wm))"
  obtains st n where "chunk_span_for_range wm pos sz = Ok (st, n)" and "n \<noteq> 0"
    and "unat st \<le> unat pos" and "unat st + unat n * unat (chunk_size wm) < 2 ^ 64"
    and "unat pos + unat sz \<le> unat st + unat n * unat (chunk_size wm)"
proof -
  define c where "c = chunk_size wm"
  have c: "c \<noteq> 0" "0 < unat c" and room: "length (contents (os_file wm)) + unat c < 2 ^ 64"
    using inv by (auto simp: wm_inv_def c_def unat_gt_0)
  have "unat pos + unat sz < 2 ^ 64" using fits room by linarith
  then have add: "checked_add pos sz = Some (pos + sz)" by (simp add: checked_add_def)
  define re where "re = pos + sz"
  have re: "unat re = unat pos + unat sz" using unat_checked_add [OF add] by (simp add: re_def)
  have ub: "unat re + unat c < 2 ^ 64" using re fits room by linarith
  note dc = div_ceil_bounds [OF c(1) ub]
  have mul: "checked_mul (div_ceil re c) c = Some (div_ceil re c * c)" using dc(1) by (simp add: checked_mul_def)
  define E where "E = div_ceil re c * c"
  have E: "unat E = unat (div_ceil re c) * unat c" using unat_checked_mul [OF mul] by (simp add: E_def)
  define st where "st = (pos div c) * c"
  have stn: "unat st = unat pos div unat c * unat c"
  proof -
    have "unat (pos div c) * unat c < 2 ^ 64"
      using unat_u64_less [of pos] by (simp add: unat_div_distrib) (metis div_times_less_eq_dividend le_less_trans)
    then have "checked_mul (pos div c) c = Some st" by (simp add: checked_mul_def st_def)
    from unat_checked_mul [OF this] show ?thesis by (simp add: unat_div_distrib)
  qed
  then have st: "unat st \<le> unat pos" by simp
  have lt: "unat st < unat E" using st re dc(2) E sz by (simp add: unat_gt_0) (metis add_pos_nonneg le_add1 le_less_trans less_add_same_cancel1 order.strict_trans2 unat_gt_0)
  define n where "n = (E - st) div c"
  have "unat (E - st) = unat E - unat st" using lt by (simp add: unat_sub word_le_nat_alt)
  moreover have "unat c dvd unat E - unat st" using E stn by (simp add: dvd_diff_nat)
  ultimately have n: "unat n * unat c = unat E - unat st" by (simp add: n_def unat_div_distrib)
  have "chunk_span_for_range wm pos sz = Ok (st, n)"
    using add mul by (simp add: chunk_span_for_range_def get_chunk_aligned_start_def get_chunk_aligned_end_def
        Let_def n_def st_def E_def re_def c_def)
  moreover have "n \<noteq> 0" using n lt by auto
  moreover have "unat st + unat n * unat c < 2 ^ 64" using n lt dc(1) E by linarith
  moreover have "unat pos + unat sz \<le> unat st + unat n * unat c" using n lt dc(2) E re by linarith
  ultimately show thesis using that [of st n] st by (simp add: c_def)
qed

section \<open>Steps of the cache\<close>

definition index_ok :: "WindowManager \<Rightarrow> u64 \<Rightarrow> u64 \<Rightarrow> nat \<Rightarrow> WindowManager \<Rightarrow> bool" where
  "index_ok wm pos sz idx t \<longleftrightarrow>
     wm_inv t \<and> wm_keeps wm t \<and> idx < length (windows t) \<and> contains_range (windows t ! idx) pos sz"

definition map_refused :: "WindowManager \<Rightarrow> JournalError \<Rightarrow> WindowManager \<Rightarrow> bool" where
  "map_refused wm e t \<longleftrightarrow> wm_inv t \<and> wm_keeps wm t \<and> refused e wm"

text \<open>A reader's request that is known to lie in the cached size of the file.\<close>

definition in_reach :: "WindowManager \<Rightarrow> u64 \<Rightarrow> u64 \<Rightarrow> bool" where
  "in_reach wm pos sz \<longleftrightarrow>
     wm_inv wm \<and> bounds_mode wm \<noteq> WriterOwned \<and> sz \<noteq> 0 \<and> unat pos + unat sz \<le> unat (file_size wm)"

lemma wm_keeps_trans: "wm_keeps a b \<Longrightarrow> wm_keeps b c \<Longrightarrow> wm_keeps a c"
  by (auto simp: wm_keeps_def)

lemma set_remove_nth: "set (remove_nth i xs) \<subseteq> set xs"
  by (auto simp: remove_nth_def dest: in_set_takeD in_set_dropD)

lemma in_set_remove_nth:
  assumes "x \<in> set xs" and "i < length xs" and "x \<noteq> xs ! i"
  shows "x \<in> set (remove_nth i xs)"
proof -
  have "xs = take i xs @ xs ! i # drop (Suc i) xs" by (rule id_take_nth_drop [OF assms(2)])
  with assms(1,3) have "x \<in> set (take i xs) \<or> x \<in> set (drop (Suc i) xs)"
    by (metis Un_iff set_ConsD set_append)
  then show ?thesis by (simp add: remove_nth_def)
qed

lemma filter_remove_nth:
  assumes "i < length xs" and "\<not> P (xs ! i)"
  shows "filter P (remove_nth i xs) = filter P xs"
proof -
  have "filter P xs = filter P (take i xs @ xs ! i # drop (Suc i) xs)"
    by (subst id_take_nth_drop [OF assms(1)]) (rule refl)
  with assms(2) show ?thesis by (simp add: remove_nth_def)
qed

lemma drop_window:
  assumes inv: "wm_inv wm" and i: "i < length (windows wm)" "\<not> row_pinned (windows wm ! i)"
  shows "wm_inv (wm\<lparr>windows := remove_nth i (windows wm), eviction_count := k, active_window_idx := None\<rparr>)"
    and "wm_keeps wm (wm\<lparr>windows := remove_nth i (windows wm), eviction_count := k, active_window_idx := None\<rparr>)"
  using inv i set_remove_nth [of i "windows wm"] in_set_remove_nth [of _ "windows wm" i]
  by (auto simp: wm_inv_def wm_keeps_def filter_remove_nth list_all_iff)

lemma set_active:
  assumes "index_ok wm pos sz idx t"
  shows "index_ok wm pos sz idx (t\<lparr>active_window_idx := Some idx\<rparr>)"
  using assms by (auto simp: index_ok_def wm_inv_def wm_keeps_def)

lemma lookup_window_Ok:
  assumes "wm_inv wm"
  obtains r where "lookup_window P wm = Ok r"
    and "\<And>i. r = Some i \<Longrightarrow> i < length (windows wm) \<and> P (windows wm ! i)"
proof (cases "active_window_idx wm")
  case None
  then show thesis
    by (intro that [of "position P (windows wm)"]) (auto simp: lookup_window_def dest: position_SomeD)
next
  case (Some k)
  with assms have "k < length (windows wm)" by (simp add: wm_inv_def)
  with Some show thesis
    by (intro that [of "if P (windows wm ! k) then Some k else position P (windows wm)"])
      (auto simp: lookup_window_def dest: position_SomeD split: if_splits)
qed

lemma create_window_reader:
  assumes inv: "wm_inv wm" and mode: "bounds_mode wm \<noteq> WriterOwned" and n: "n \<noteq> 0"
    and fits: "unat st + unat n * unat (chunk_size wm) < 2 ^ 64" and st: "unat st < unat (file_size wm)"
  shows "holds (create_window st n) wm
    (\<lambda>w t. t = wm\<lparr>map_count := map_count wm + 1\<rparr> \<and> w_offset w = st \<and> \<not> row_pinned w \<and>
       unat (w_size w) = min (unat n * unat (chunk_size wm)) (unat (file_size wm) - unat st))
    (\<lambda>e t. t = wm \<and> refused e wm)"
proof -
  have mul: "checked_mul n (chunk_size wm) = Some (n * chunk_size wm)" using fits by (simp add: checked_mul_def)
  define rs where "rs = n * chunk_size wm"
  have rs: "unat rs = unat n * unat (chunk_size wm)" using unat_checked_mul [OF mul] by (simp add: rs_def)
  have add: "checked_add st rs = Some (st + rs)" using fits rs by (simp add: checked_add_def)
  define sz where "sz = min rs (file_size wm - st)"
  have sub: "unat (file_size wm - st) = unat (file_size wm) - unat st"
    using st by (simp add: unat_sub word_le_nat_alt)
  have szn: "unat sz = min (unat n * unat (chunk_size wm)) (unat (file_size wm) - unat st)"
    using rs sub by (auto simp: sz_def min_def word_le_nat_alt)
  have ext: "window_extent st rs (st + rs) wm = (Ok sz, wm)"
    using mode st by (cases "bounds_mode wm") (auto simp: window_extent_def sz_def word_le_nat_alt Let_def)
  have "unat st + unat sz \<le> unat (file_size wm)" using szn st by linarith
  moreover from this have add2: "checked_add st sz = Some (st + sz)"
    using unat_u64_less [of "file_size wm"] by (simp add: checked_add_def)
  ultimately have chk: "create_checked (os_file wm) st sz (file_size wm) =
      (if map_ok (os_file wm) st sz then Ok () else Err (Io OtherIo))"
    using unat_checked_add [OF add2] by (auto simp: create_checked_def word_less_nat_alt)
  show ?thesis
    using mul add ext chk n szn
    by (auto simp: holds_def create_window_def sbind_def op_run rs_def refused_def split: if_splits)
qed

lemma push_window_index_ok:
  assumes inv: "wm_inv wm" and w: "window_backed (os_file wm) w" "\<not> row_pinned w" "contains_range w pos sz"
  shows "holds (push_window w) wm (index_ok wm pos sz) E"
  using assms
  by (auto simp: holds_def push_window_def record_mapped_bytes_def Let_def index_ok_def wm_inv_def wm_keeps_def)

lemma bumped: "wm_inv wm \<Longrightarrow> wm_inv (wm\<lparr>map_count := m\<rparr>) \<and> wm_keeps wm (wm\<lparr>map_count := m\<rparr>)"
  "wm_inv wm \<Longrightarrow> wm_inv (wm\<lparr>remap_count := m\<rparr>) \<and> wm_keeps wm (wm\<lparr>remap_count := m\<rparr>)"
  "wm_inv wm \<Longrightarrow> wm_inv (wm\<lparr>map_count := k, remap_count := m\<rparr>) \<and>
     wm_keeps wm (wm\<lparr>map_count := k, remap_count := m\<rparr>)"
  by (auto simp: wm_inv_def wm_keeps_def)

lemma create_window_for_range:
  assumes r: "in_reach wm pos sz" and span: "chunk_span_for_range wm pos sz = Ok (st, n)"
  shows "holds (create_window st n) wm
    (\<lambda>w t. wm_inv t \<and> wm_keeps wm t \<and> os_file t = os_file wm \<and> window_backed (os_file wm) w \<and>
       \<not> row_pinned w \<and> contains_range w pos sz)
    (map_refused wm)"
proof -
  have inv: "wm_inv wm" and mode: "bounds_mode wm \<noteq> WriterOwned" and sz: "sz \<noteq> 0"
    and reach: "unat pos + unat sz \<le> unat (file_size wm)" using r by (auto simp: in_reach_def)
  have len: "unat (file_size wm) \<le> length (contents (os_file wm))" "length (contents (os_file wm)) < 2 ^ 64"
    using inv by (auto simp: wm_inv_def)
  obtain st' n' where sp: "chunk_span_for_range wm pos sz = Ok (st', n')" and "n' \<noteq> 0"
    "unat st' \<le> unat pos" "unat st' + unat n' * unat (chunk_size wm) < 2 ^ 64"
    "unat pos + unat sz \<le> unat st' + unat n' * unat (chunk_size wm)"
    by (rule chunk_span [OF inv sz le_trans [OF reach len(1)]])
  with span have n: "n \<noteq> 0" and st: "unat st \<le> unat pos"
    and fits: "unat st + unat n * unat (chunk_size wm) < 2 ^ 64"
    and cover: "unat pos + unat sz \<le> unat st + unat n * unat (chunk_size wm)" by auto
  have "0 < unat sz" using sz by (simp add: unat_gt_0)
  then have lt: "unat st < unat (file_size wm)" using st reach by linarith
  have "window_backed (os_file wm) w \<and> contains_range w pos sz"
    if "w_offset w = st" "unat (w_size w) = min (unat n * unat (chunk_size wm)) (unat (file_size wm) - unat st)" for w
  proof -
    have "window_backed (os_file wm) w" using that lt len(1) by (simp add: window_backed_def)
    then show ?thesis using contains_range_iff [OF _ len(2)] that st cover reach lt by simp
  qed
  then show ?thesis
    using holds_mono [OF create_window_reader [OF inv mode n fits lt]] bumped(1) [OF inv] inv
    by (auto simp: map_refused_def)
qed

lemma index_ok_trans: "index_ok b pos sz idx t \<Longrightarrow> wm_keeps a b \<Longrightarrow> index_ok a pos sz idx t"
  by (auto simp: index_ok_def intro: wm_keeps_trans)

lemma map_refused_trans: "map_refused b e t \<Longrightarrow> wm_keeps a b \<Longrightarrow> map_refused a e t"
  by (auto simp: map_refused_def refused_def wm_keeps_def)

lemma push_new_window_index_ok:
  assumes r: "in_reach wm pos sz"
  shows "holds (push_new_window_for_range pos sz) wm (index_ok wm pos sz) (map_refused wm)"
proof -
  have inv: "wm_inv wm" and sz: "sz \<noteq> 0" using r by (auto simp: in_reach_def)
  have "unat pos + unat sz \<le> length (contents (os_file wm))" using r by (auto simp: in_reach_def wm_inv_def)
  then obtain st n where sp: "chunk_span_for_range wm pos sz = Ok (st, n)" by (rule chunk_span [OF inv sz])
  have "holds (sbind (create_window st n) push_window) wm (index_ok wm pos sz) (map_refused wm)"
    by (rule holds_sbind [OF create_window_for_range [OF r sp]])
      (auto intro!: holds_mono [OF push_window_index_ok] intro: index_ok_trans)
  then show ?thesis
    using sp by (simp add: push_new_window_for_range_def)
qed

lemma replace_window_index_ok:
  assumes r: "in_reach wm pos sz" and i: "i < length (windows wm)" "\<not> row_pinned (windows wm ! i)"
  shows "holds (replace_window_for_range i pos sz) wm (index_ok wm pos sz) (map_refused wm)"
proof -
  have inv: "wm_inv wm" and sz: "sz \<noteq> 0" using r by (auto simp: in_reach_def)
  define wm1 where "wm1 = wm\<lparr>windows := remove_nth i (windows wm), active_window_idx := None\<rparr>"
  have wm1: "wm_inv wm1" "wm_keeps wm wm1"
    using drop_window [OF inv i, of "eviction_count wm"] by (simp_all add: wm1_def)
  have r1: "in_reach wm1 pos sz" using r wm1(1) by (simp add: in_reach_def wm1_def)
  have "unat pos + unat sz \<le> length (contents (os_file wm))" using r by (auto simp: in_reach_def wm_inv_def)
  then obtain st n where sp: "chunk_span_for_range wm pos sz = Ok (st, n)" by (rule chunk_span [OF inv sz])
  then have sp1: "chunk_span_for_range wm1 pos sz = Ok (st, n)"
    by (simp add: chunk_span_for_range_def get_chunk_aligned_start_def get_chunk_aligned_end_def wm1_def)
  have "holds (sbind (create_window st n) (\<lambda>w. sbind (smodify (\<lambda>wm. wm\<lparr>remap_count := remap_count wm + 1\<rparr>)) (\<lambda>_. push_window w)))
      wm1 (index_ok wm1 pos sz) (map_refused wm1)"
  proof (rule holds_sbind [OF create_window_for_range [OF r1 sp1]])
    fix w t assume *: "wm_inv t \<and> wm_keeps wm1 t \<and> os_file t = os_file wm1 \<and> window_backed (os_file wm1) w \<and>
        \<not> row_pinned w \<and> contains_range w pos sz"
    let ?t = "t\<lparr>remap_count := remap_count t + 1\<rparr>"
    have "wm_inv ?t" "wm_keeps wm1 ?t" using * bumped(2) [of t] wm_keeps_trans by blast+
    then show "holds (sbind (smodify (\<lambda>wm. wm\<lparr>remap_count := remap_count wm + 1\<rparr>)) (\<lambda>_. push_window w))
        t (index_ok wm1 pos sz) (map_refused wm1)"
      using * by (auto intro!: holds_mono [OF push_window_index_ok] intro: index_ok_trans)
  qed
  then show ?thesis
    using sp i wm1(2)
    by (auto simp: replace_window_for_range_def simp flip: wm1_def
        elim!: holds_mono intro: index_ok_trans map_refused_trans)
qed

lemma evict_keeps:
  assumes "wm_inv wm" and "evict_unpinned_window_if_full wm = (room, wm')"
  shows "wm_inv wm' \<and> wm_keeps wm wm' \<and> file_size wm' = file_size wm"
  using assms drop_window [OF assms(1)]
  by (auto simp: evict_unpinned_window_if_full_def dest: position_SomeD split: if_splits option.splits)

lemma make_room_keeps:
  assumes inv: "wm_inv wm"
  shows "wm_inv (make_room_for_new_window wm) \<and> wm_keeps wm (make_room_for_new_window wm) \<and>
    file_size (make_room_for_new_window wm) = file_size wm"
proof (cases "length (windows wm) < max_windows wm")
  case True
  then show ?thesis using inv by (simp add: make_room_for_new_window_def)
next
  case False
  have "\<not> row_pinned (windows wm ! i)" if "row_pin_count wm = 0" "i < length (windows wm)" for i
    using that inv by (auto simp: wm_inv_def filter_empty_conv)
  moreover have "0 < length (windows wm)" using False inv by (auto simp: wm_inv_def)
  ultimately show ?thesis
    using False inv drop_window [OF inv, of 0] drop_window [OF inv, of 1]
    by (auto simp: make_room_for_new_window_def dest: position_SomeD intro: drop_window split: option.split)
qed

lemma in_reach_keeps:
  "in_reach wm pos sz \<Longrightarrow> wm_inv t \<Longrightarrow> wm_keeps wm t \<Longrightarrow> file_size t = file_size wm \<Longrightarrow> in_reach t pos sz"
  by (auto simp: in_reach_def wm_keeps_def)

lemma activate:
  assumes "holds m wm (index_ok wm pos sz) E"
  shows "holds (sbind m (\<lambda>idx. sbind (smodify (\<lambda>wm. wm\<lparr>active_window_idx := Some idx\<rparr>)) (\<lambda>_. sret idx)))
    wm (index_ok wm pos sz) E"
  by (rule holds_sbind [OF assms]) (simp add: set_active)

lemma get_overlapping_index_ok:
  assumes r: "in_reach wm pos sz" and i: "i < length (windows wm)"
  shows "holds (get_overlapping_window_index i pos sz) wm (index_ok wm pos sz) (map_refused wm)"
proof -
  have inv: "wm_inv wm" using r by (simp add: in_reach_def)
  show ?thesis
  proof (cases "row_pin_count wm > 0 \<and> row_pinned (windows wm ! i)")
    case True
    obtain room wm1 where ev: "evict_unpinned_window_if_full wm = (room, wm1)" by fastforce
    have wm1: "wm_inv wm1" "wm_keeps wm wm1" "file_size wm1 = file_size wm"
      using evict_keeps [OF inv ev] by auto
    have "holds (push_new_window_for_range pos sz) wm1 (index_ok wm pos sz) (map_refused wm)"
      using push_new_window_index_ok [OF in_reach_keeps [OF r wm1]] wm1(2)
      by (auto elim!: holds_mono intro: index_ok_trans map_refused_trans)
    with True ev have "holds (sbind (smodify (\<lambda>wm. snd (evict_unpinned_window_if_full wm))) (\<lambda>_. push_new_window_for_range pos sz))
        wm (index_ok wm pos sz) (map_refused wm)" by simp
    from activate [OF this] True show ?thesis by (simp add: get_overlapping_window_index_def)
  next
    case False
    have p: "\<not> row_pinned (windows wm ! i)"
      using False inv i by (auto simp: wm_inv_def filter_empty_conv)
    from activate [OF replace_window_index_ok [OF r i p]] p show ?thesis
      by (simp add: get_overlapping_window_index_def)
  qed
qed

lemma get_new_window_index_ok:
  assumes r: "in_reach wm pos sz"
  shows "holds (get_new_window_index pos sz) wm (index_ok wm pos sz) (map_refused wm)"
proof -
  have inv: "wm_inv wm" using r by (simp add: in_reach_def)
  note room = make_room_keeps [OF inv]
  have "holds (push_new_window_for_range pos sz) (make_room_for_new_window wm) (index_ok (make_room_for_new_window wm) pos sz)
      (map_refused (make_room_for_new_window wm))"
    using push_new_window_index_ok in_reach_keeps [OF r] room by blast
  from activate [OF this] room show ?thesis
    by (auto simp: get_new_window_index_def elim!: holds_mono intro: index_ok_trans map_refused_trans)
qed

lemma whole_file_index_ok:
  assumes r: "in_reach wm pos sz" and strat: "strategy wm = WholeFile"
  shows "holds (get_whole_file_window_index pos sz) wm (index_ok wm pos sz) (map_refused wm)"
proof -
  have inv: "wm_inv wm" and mode: "bounds_mode wm \<noteq> WriterOwned" and sz: "sz \<noteq> 0"
    and reach: "unat pos + unat sz \<le> unat (file_size wm)" using r by (auto simp: in_reach_def)
  have len: "unat (file_size wm) + unat (chunk_size wm) < 2 ^ 64" "length (contents (os_file wm)) < 2 ^ 64"
    "chunk_size wm \<noteq> 0" "unat (file_size wm) \<le> length (contents (os_file wm))" using inv by (auto simp: wm_inv_def)
  obtain found where f: "lookup_window_by_range wm pos sz = Ok found"
    "\<And>i. found = Some i \<Longrightarrow> i < length (windows wm) \<and> contains_range (windows wm ! i) pos sz"
    unfolding lookup_window_by_range_def using lookup_window_Ok [OF inv] by metis
  show ?thesis
  proof (cases found)
    case (Some i)
    then have "index_ok wm pos sz i wm" using f(2) inv by (simp add: index_ok_def)
    with f(1) Some show ?thesis by (simp add: get_whole_file_window_index_def set_active)
  next
    case None
    have "unat pos + unat sz < 2 ^ 64" using reach len by linarith
    then have add: "checked_add pos sz = Some (pos + sz)" by (simp add: checked_add_def)
    have e: "unat (pos + sz) = unat pos + unat sz" by (rule unat_checked_add [OF add])
    then have mx: "max (pos + sz) (file_size wm) = file_size wm"
      using reach by (simp add: max_def word_le_nat_alt)
    define n where "n = div_ceil (file_size wm) (chunk_size wm)"
    note dc = div_ceil_bounds [OF len(3,1), folded n_def]
    have al: "get_chunk_aligned_end wm (file_size wm) = Ok (n * chunk_size wm)"
      using dc(1) by (simp add: get_chunk_aligned_end_def checked_mul_def n_def)
    have "0 < unat sz" using sz by (simp add: unat_gt_0)
    then have fs: "0 < unat (file_size wm)" using reach by linarith
    have dvn: "n * chunk_size wm div chunk_size wm = n"
    proof (rule unsigned_word_eqI)
      have "checked_mul n (chunk_size wm) = Some (n * chunk_size wm)" using dc(1) by (simp add: checked_mul_def)
      from unat_checked_mul [OF this] show "unat (n * chunk_size wm div chunk_size wm) = unat n"
        using len(3) by (simp add: unat_div_distrib unat_gt_0)
    qed
    have n0: "n \<noteq> 0" using dc(2) fs by auto
    then have "1 \<le> n" by (simp add: word_le_nat_alt Suc_le_eq unat_gt_0)
    then have n1: "max n 1 = n" by (simp add: max_def)
    define wm1 where "wm1 = (if windows wm \<noteq> []
        then wm\<lparr>windows := [], active_window_idx := None, row_pin_count := 0, row_overflow_objects := []\<rparr> else wm)"
    have wm1: "wm_inv wm1" "wm_keeps wm wm1" "os_file wm1 = os_file wm" "bounds_mode wm1 = bounds_mode wm"
      "file_size wm1 = file_size wm" "chunk_size wm1 = chunk_size wm"
      using inv strat by (auto simp: wm1_def wm_inv_def wm_keeps_def)
    have cw: "holds (create_window 0 n) wm1
        (\<lambda>w t. t = wm1\<lparr>map_count := map_count wm1 + 1\<rparr> \<and> w_offset w = 0 \<and> \<not> row_pinned w \<and>
           unat (w_size w) = min (unat n * unat (chunk_size wm1)) (unat (file_size wm1) - unat (0::u64)))
        (\<lambda>e t. t = wm1 \<and> refused e wm1)"
      using create_window_reader [of wm1 n 0] wm1 mode n0 dc(1) fs by simp
    have rest: "holds (sbind (create_window 0 n) (\<lambda>w.
        sbind (smodify (\<lambda>t. if windows wm \<noteq> [] then t\<lparr>remap_count := remap_count t + 1\<rparr> else t)) (\<lambda>_. push_window w)))
        wm1 (index_ok wm1 pos sz) (map_refused wm1)"
    proof (rule holds_sbind [OF holds_mono [OF cw]])
      show "map_refused wm1 e t" if "t = wm1 \<and> refused e wm1" for e t
        using that wm1(1) by (simp add: map_refused_def)
      fix w :: Window and t assume *: "t = wm1\<lparr>map_count := map_count wm1 + 1\<rparr> \<and> w_offset w = 0 \<and> \<not> row_pinned w \<and>
           unat (w_size w) = min (unat n * unat (chunk_size wm1)) (unat (file_size wm1) - unat (0::u64))"
      then have szw: "unat (w_size w) = unat (file_size wm)" using wm1 dc(2) by simp
      have bk: "window_backed (os_file wm) w" using * szw len(4) by (simp add: window_backed_def)
      have cr: "contains_range w pos sz" using contains_range_iff [OF bk len(2)] * szw reach by simp
      let ?t = "if windows wm \<noteq> [] then t\<lparr>remap_count := remap_count t + 1\<rparr> else t"
      have "wm_inv ?t" "wm_keeps wm1 ?t" "os_file ?t = os_file wm"
        using * wm1(1,3) bumped [OF wm1(1)] by auto
      then show "holds (sbind (smodify (\<lambda>t. if windows wm \<noteq> [] then t\<lparr>remap_count := remap_count t + 1\<rparr> else t)) (\<lambda>_. push_window w))
          t (index_ok wm1 pos sz) (map_refused wm1)"
        using * bk cr by (auto intro!: holds_mono [OF push_window_index_ok] intro: index_ok_trans)
    qed
    have ens: "ensure_cached_file_contains (pos + sz) wm = (Ok (), wm)"
      using reach e by (simp add: ensure_cached_file_contains_def word_le_nat_alt)
    from activate [OF rest] wm1(2) f(1) None add mode mx al dvn n1 ens show ?thesis
      by (auto simp: get_whole_file_window_index_def holds_def sbind_def op_run wm1_def
          split: prod.splits sum.splits intro: index_ok_trans map_refused_trans)
  qed
qed

lemma get_window_index_ok:
  assumes r: "in_reach wm pos sz"
  shows "holds (get_window_index pos sz) wm (index_ok wm pos sz) (map_refused wm)"
proof (cases "strategy wm = WholeFile")
  case True
  then show ?thesis using whole_file_index_ok [OF r True] by (simp add: get_window_index_def)
next
  case False
  have inv: "wm_inv wm" using r by (simp add: in_reach_def)
  obtain found where f: "lookup_window_by_range wm pos sz = Ok found"
    "\<And>i. found = Some i \<Longrightarrow> i < length (windows wm) \<and> contains_range (windows wm ! i) pos sz"
    unfolding lookup_window_by_range_def using lookup_window_Ok [OF inv] by metis
  obtain overlap where ov: "lookup_window_by_position wm pos = Ok overlap"
    "\<And>i. overlap = Some i \<Longrightarrow> i < length (windows wm)"
    unfolding lookup_window_by_position_def using lookup_window_Ok [OF inv] by metis
  show ?thesis
  proof (cases found)
    case (Some i)
    then have "index_ok wm pos sz i wm" using f(2) inv by (simp add: index_ok_def)
    with f(1) Some False show ?thesis by (simp add: get_window_index_def set_active)
  next
    case None
    with False f(1) ov get_overlapping_index_ok [OF r] get_new_window_index_ok [OF r] show ?thesis
      by (cases overlap) (simp_all add: get_window_index_def)
  qed
qed

lemma ensure_reach:
  assumes inv: "wm_inv wm" and mode: "bounds_mode wm \<noteq> WriterOwned" and sz: "sz \<noteq> 0"
    and add: "checked_add pos sz = Some e"
  shows "holds (ensure_cached_file_contains e) wm
    (\<lambda>_ t. in_reach t pos sz \<and> wm_keeps wm t \<and> unat pos + unat sz \<le> reader_limit wm)
    (\<lambda>x t. wm_inv t \<and> wm_keeps wm t \<and> x = ObjectExceedsFileBounds \<and> reader_limit wm < unat pos + unat sz)"
proof -
  have e: "unat e = unat pos + unat sz" by (rule unat_checked_add [OF add])
  note len = wm_inv_len [OF inv]
  have fs: "unat (file_size wm) \<le> length (contents (os_file wm))" using inv by (simp add: wm_inv_def)
  have "wm_inv (wm\<lparr>file_size := os_len (os_file wm)\<rparr>)" using inv len by (auto simp: wm_inv_def)
  moreover have "bounds_mode wm = LiveFile \<Longrightarrow> wm_keeps wm (wm\<lparr>file_size := os_len (os_file wm)\<rparr>)"
    using fs len by (auto simp: wm_keeps_def word_le_nat_alt)
  ultimately show ?thesis
    using assms e len fs
    by (auto simp: holds_def ensure_cached_file_contains_def sbind_def refresh_file_size_def op_run
        in_reach_def reader_limit_def word_le_nat_alt)
qed

lemma slice_of_window_exact:
  assumes "index_ok wm pos sz idx t"
  shows "slice_of_window idx pos sz t = (Ok (bytes_at (contents (os_file wm)) (unat pos) (unat sz)), t)"
proof -
  have t: "wm_inv t" "os_file t = os_file wm" "idx < length (windows t)" "contains_range (windows t ! idx) pos sz"
    using assms by (auto simp: index_ok_def wm_keeps_def)
  then have bk: "window_backed (os_file t) (windows t ! idx)" and "length (contents (os_file t)) < 2 ^ 64"
    by (auto simp: wm_inv_def list_all_iff)
  from contains_range_iff [OF this] t(4)
  have w: "unat (w_offset (windows t ! idx)) \<le> unat pos"
      "unat pos + unat sz \<le> unat (w_offset (windows t ! idx)) + unat (w_size (windows t ! idx))"
    by simp_all
  then have "unat (pos - w_offset (windows t ! idx)) = unat pos - unat (w_offset (windows t ! idx))"
    by (intro unat_sub) (simp add: word_le_nat_alt)
  with t w bk show ?thesis
    by (simp add: slice_of_window_def window_get_slice_def window_mmap_def window_backed_def length_bytes_at bytes_at_bytes_at Let_def)
qed

text \<open>The outcome of a read: the bytes of the file, or the one error that explains their absence.\<close>

definition read_outcome :: "WindowManager \<Rightarrow> u64 \<Rightarrow> u64 \<Rightarrow> u8 list result \<Rightarrow> bool" where
  "read_outcome wm pos sz r =
     (case r of
        Inr bs \<Rightarrow> unat pos + unat sz \<le> reader_limit wm \<and> bs = bytes_at (contents (os_file wm)) (unat pos) (unat sz)
      | Inl e \<Rightarrow> e = ObjectExceedsFileBounds \<and> reader_limit wm < unat pos + unat sz \<or> refused e wm)"

lemma get_slice_holds:
  assumes inv: "wm_inv wm" and mode: "bounds_mode wm \<noteq> WriterOwned" and sz: "sz \<noteq> 0"
  shows "holds (get_slice pos sz) wm
    (\<lambda>bs t. read_outcome wm pos sz (Ok bs) \<and> wm_inv t \<and> wm_keeps wm t)
    (\<lambda>e t. read_outcome wm pos sz (Err e) \<and> wm_inv t \<and> wm_keeps wm t)"
proof (cases "checked_add pos sz")
  case None
  then have "2 ^ 64 \<le> unat pos + unat sz" by (simp add: checked_add_eq_None)
  moreover have "reader_limit wm < 2 ^ 64" using inv by (auto simp: wm_inv_def reader_limit_def)
  ultimately show ?thesis using None inv by (simp add: get_slice_def read_outcome_def)
next
  case (Some e)
  have "holds (sbind (ensure_cached_file_contains e) (\<lambda>_. sbind (get_window_index pos sz) (\<lambda>idx. slice_of_window idx pos sz))) wm
    (\<lambda>bs t. read_outcome wm pos sz (Ok bs) \<and> wm_inv t \<and> wm_keeps wm t)
    (\<lambda>e t. read_outcome wm pos sz (Err e) \<and> wm_inv t \<and> wm_keeps wm t)"
  proof (rule holds_sbind [OF holds_mono [OF ensure_reach [OF inv mode sz Some]]])
    fix u t assume t: "in_reach t pos sz \<and> wm_keeps wm t \<and> unat pos + unat sz \<le> reader_limit wm"
    have "holds (sbind (get_window_index pos sz) (\<lambda>idx. slice_of_window idx pos sz)) t
        (\<lambda>bs t. read_outcome wm pos sz (Ok bs) \<and> wm_inv t \<and> wm_keeps wm t) (map_refused t)"
    proof (rule holds_sbind [OF get_window_index_ok])
      show "in_reach t pos sz" using t by simp
      fix idx t' assume ix: "index_ok t pos sz idx t'"
      then have "wm_inv t'" "wm_keeps t t'" by (simp_all add: index_ok_def)
      moreover have "wm_keeps wm t" "os_file t = os_file wm" using t by (auto simp: wm_keeps_def)
      ultimately have "wm_inv t'" "wm_keeps wm t'" "os_file t = os_file wm"
        by (blast intro: wm_keeps_trans)+
      then show "holds (slice_of_window idx pos sz) t'
          (\<lambda>bs t. read_outcome wm pos sz (Ok bs) \<and> wm_inv t \<and> wm_keeps wm t) (map_refused t)"
        using slice_of_window_exact [OF ix] t by (simp add: holds_def read_outcome_def)
    qed
    then show "holds (sbind (get_window_index pos sz) (\<lambda>idx. slice_of_window idx pos sz)) t
        (\<lambda>bs t. read_outcome wm pos sz (Ok bs) \<and> wm_inv t \<and> wm_keeps wm t)
        (\<lambda>e t. read_outcome wm pos sz (Err e) \<and> wm_inv t \<and> wm_keeps wm t)"
      by (rule holds_mono) (use t map_refused_trans [of t _ _ wm] in \<open>auto simp: map_refused_def read_outcome_def\<close>)
  qed (auto simp: read_outcome_def)
  with Some show ?thesis by (simp add: get_slice_def)
qed

section \<open>Row pins\<close>

lemma filter_update:
  assumes "i < length xs" and "\<not> P (xs ! i)" and "P y"
  shows "length (filter P (xs[i := y])) = Suc (length (filter P xs))"
proof -
  have "filter P xs = filter P (take i xs @ xs ! i # drop (Suc i) xs)"
    by (subst id_take_nth_drop [OF assms(1)]) (rule refl)
  moreover have "filter P (xs[i := y]) = filter P (take i xs @ y # drop (Suc i) xs)"
    by (simp add: upd_conv_take_nth_drop [OF assms(1)])
  ultimately show ?thesis using assms(2,3) by simp
qed

lemma pin_index_ok:
  assumes ix: "index_ok wm pos sz idx t" and np: "\<not> row_pinned (windows t ! idx)"
  shows "index_ok wm pos sz idx (t\<lparr>windows := (windows t)[idx := (windows t ! idx)\<lparr>row_pinned := True\<rparr>],
    row_pin_count := row_pin_count t + 1\<rparr>)"
proof -
  let ?w = "(windows t ! idx)\<lparr>row_pinned := True\<rparr>"
  have i: "idx < length (windows t)" using ix by (simp add: index_ok_def)
  have keep: "w \<in> set ((windows t)[idx := ?w])" if "w \<in> set (windows t)" "row_pinned w" for w
    using that np i by (metis in_set_conv_nth length_list_update nth_list_update_neq)
  have "window_backed (os_file t) ?w"
    using ix i by (auto simp: index_ok_def wm_inv_def list_all_iff window_backed_def)
  then have "list_all (window_backed (os_file t)) ((windows t)[idx := ?w])"
    using ix set_update_subset_insert [of "windows t" idx ?w] by (auto simp: index_ok_def wm_inv_def list_all_iff)
  moreover have "contains_range ?w pos sz" using ix
    by (auto simp: index_ok_def contains_range_def end_offset_def split: option.splits)
  moreover have "set (filter row_pinned (windows wm)) \<subseteq> set ((windows t)[idx := ?w])" if "strategy wm = Windowed"
    using keep ix that by (force simp: index_ok_def wm_keeps_def)
  ultimately show ?thesis
    using ix i np filter_update [of idx "windows t" row_pinned ?w]
    by (auto simp: index_ok_def wm_inv_def wm_keeps_def)
qed

lemma in_reach_later: "in_reach wm pos sz \<Longrightarrow> wm_inv t \<Longrightarrow> wm_keeps wm t \<Longrightarrow> in_reach t pos sz"
  by (auto simp: in_reach_def wm_keeps_def word_le_nat_alt)

lemma overflow_slice_exact:
  assumes r: "in_reach t pos sz"
  shows "get_row_overflow_slice pos sz t =
    (Ok (bytes_at (contents (os_file t)) (unat pos) (unat sz)),
     t\<lparr>row_overflow_objects := row_overflow_objects t @ [bytes_at (contents (os_file t)) (unat pos) (unat sz)]\<rparr>)"
proof -
  have reach: "unat pos + unat sz \<le> unat (file_size t)" "unat (file_size t) \<le> length (contents (os_file t))"
    using r by (auto simp: in_reach_def wm_inv_def)
  then have add: "checked_add pos sz = Some (pos + sz)"
    using unat_u64_less [of "file_size t"] by (simp add: checked_add_def)
  then have "ensure_cached_file_contains (pos + sz) t = (Ok (), t)"
    using unat_checked_add [OF add] reach(1) by (simp add: ensure_cached_file_contains_def word_le_nat_alt)
  moreover have "read_file_exact_at (os_file t) pos (unat sz) = Ok (bytes_at (contents (os_file t)) (unat pos) (unat sz))"
    using reach by (simp add: read_file_exact_at_def)
  ultimately show ?thesis
    using add by (simp add: get_row_overflow_slice_def read_exact_at_def sbind_def op_run)
qed

lemma preserving_index_ok:
  assumes r: "in_reach wm pos sz"
  shows "holds (get_window_index_preserving_row_pins pos sz) wm
    (\<lambda>found t. case found of Some idx \<Rightarrow> index_ok wm pos sz idx t | None \<Rightarrow> wm_inv t \<and> wm_keeps wm t)
    (map_refused wm)" (is "holds _ _ ?Q _")
proof (cases "strategy wm = WholeFile")
  case True
  have "holds (sbind (get_whole_file_window_index pos sz) (\<lambda>idx.
      sbind (smodify (\<lambda>wm. if \<not> row_pinned (windows wm ! idx)
               then wm\<lparr>windows := (windows wm)[idx := (windows wm ! idx)\<lparr>row_pinned := True\<rparr>],
                       row_pin_count := row_pin_count wm + 1\<rparr> else wm)) (\<lambda>_. sret (Some idx)))) wm ?Q (map_refused wm)"
    by (rule holds_sbind [OF whole_file_index_ok [OF r True]]) (auto dest: pin_index_ok)
  with True show ?thesis by (simp add: get_window_index_preserving_row_pins_def)
next
  case False
  have inv: "wm_inv wm" using r by (simp add: in_reach_def)
  obtain found where f: "lookup_window_by_range wm pos sz = Ok found"
    "\<And>i. found = Some i \<Longrightarrow> i < length (windows wm) \<and> contains_range (windows wm ! i) pos sz"
    unfolding lookup_window_by_range_def using lookup_window_Ok [OF inv] by metis
  obtain overlap where ov: "lookup_window_by_position wm pos = Ok overlap"
    "\<And>i. overlap = Some i \<Longrightarrow> i < length (windows wm)"
    unfolding lookup_window_by_position_def using lookup_window_Ok [OF inv] by metis
  obtain room wm1 where ev: "evict_unpinned_window_if_full wm = (room, wm1)" by fastforce
  have wm1: "wm_inv wm1" "wm_keeps wm wm1" using evict_keeps [OF inv ev] by auto
  have push: "holds (sbind (push_new_window_for_range pos sz) (\<lambda>idx. sret (Some idx))) wm1 ?Q (map_refused wm)"
    using wm1
    by (intro holds_sbind [OF holds_mono [OF push_new_window_index_ok [OF in_reach_later [OF r wm1]], of "index_ok wm pos sz"]])
      (auto intro: index_ok_trans map_refused_trans)
  have repl: "holds (sbind (replace_window_for_range i pos sz) (\<lambda>idx. sret (Some idx))) wm ?Q (map_refused wm)"
    if "overlap = Some i" "\<not> row_pinned (windows wm ! i)" for i
    by (rule holds_sbind [OF replace_window_index_ok [OF r ov(2) [OF that(1)] that(2)]]) simp
  show ?thesis
  proof (cases found)
    case (Some i)
    with f inv False show ?thesis by (simp add: get_window_index_preserving_row_pins_def index_ok_def)
  next
    case None
    with False f(1) ov(1) ev wm1 push repl inv show ?thesis
      by (cases overlap) (auto simp: get_window_index_preserving_row_pins_def)
  qed
qed

lemma get_row_pinned_slice_holds:
  assumes inv: "wm_inv wm" and mode: "bounds_mode wm \<noteq> WriterOwned" and sz: "sz \<noteq> 0"
  shows "holds (get_row_pinned_slice pos sz) wm
    (\<lambda>bs t. read_outcome wm pos sz (Ok bs) \<and> wm_inv t \<and> wm_keeps wm t \<and>
       (bs \<in> set (row_overflow_objects t) \<or>
        (\<exists>w \<in> set (windows t). row_pinned w \<and> contains_range w pos sz)))
    (\<lambda>e t. read_outcome wm pos sz (Err e) \<and> wm_inv t \<and> wm_keeps wm t)" (is "holds _ _ ?Q ?E")
proof (cases "checked_add pos sz")
  case None
  then have "2 ^ 64 \<le> unat pos + unat sz" by (simp add: checked_add_eq_None)
  moreover have "reader_limit wm < 2 ^ 64" using inv by (auto simp: wm_inv_def reader_limit_def)
  ultimately show ?thesis using None inv by (simp add: get_row_pinned_slice_def read_outcome_def)
next
  case (Some e)
  let ?rest = "\<lambda>found. case found of
       None \<Rightarrow> get_row_overflow_slice pos sz
     | Some idx \<Rightarrow>
         sbind (smodify (\<lambda>wm. wm\<lparr>active_window_idx := Some idx\<rparr>)) (\<lambda>_.
         sbind (sget (\<lambda>wm. row_pinned (windows wm ! idx))) (\<lambda>pinned.
         sbind (sget row_pin_limit_reached) (\<lambda>full.
         if \<not> pinned \<and> full then get_row_overflow_slice pos sz
         else
         sbind (smodify (\<lambda>wm. if pinned then wm
                  else wm\<lparr>windows := (windows wm)[idx := (windows wm ! idx)\<lparr>row_pinned := True\<rparr>],
                          row_pin_count := row_pin_count wm + 1\<rparr>)) (\<lambda>_.
           slice_of_window idx pos sz))))"
  have over: "holds (get_row_overflow_slice pos sz) t' ?Q ?E"
    if "wm_inv t'" "wm_keeps wm t'" "in_reach t' pos sz" "unat pos + unat sz \<le> reader_limit wm" for t'
    using overflow_slice_exact [OF that(3)] that(1,2,4)
    by (auto simp: holds_def read_outcome_def wm_inv_def wm_keeps_def)
  have win: "holds (slice_of_window idx pos sz) t' ?Q ?E"
    if "index_ok wm pos sz idx t'" "row_pinned (windows t' ! idx)" "unat pos + unat sz \<le> reader_limit wm" for idx t'
    using slice_of_window_exact [OF that(1)] that
    by (auto simp: holds_def read_outcome_def index_ok_def)
  have "holds (sbind (ensure_cached_file_contains e) (\<lambda>_. sbind (get_window_index_preserving_row_pins pos sz) ?rest)) wm ?Q ?E"
  proof (rule holds_sbind [OF holds_mono [OF ensure_reach [OF inv mode sz Some]]])
    fix u t assume t: "in_reach t pos sz \<and> wm_keeps wm t \<and> unat pos + unat sz \<le> reader_limit wm"
    then have r: "in_reach t pos sz" and lim: "unat pos + unat sz \<le> reader_limit wm" by auto
    show "holds (sbind (get_window_index_preserving_row_pins pos sz) ?rest) t ?Q ?E"
    proof (rule holds_sbind [OF holds_mono [OF preserving_index_ok [OF r]]])
      fix found t' assume "case found of Some idx \<Rightarrow> index_ok t pos sz idx t' | None \<Rightarrow> wm_inv t' \<and> wm_keeps t t'"
      then have ft: "case found of Some idx \<Rightarrow> index_ok wm pos sz idx t' | None \<Rightarrow> wm_inv t' \<and> wm_keeps wm t'"
        "wm_inv t'" "wm_keeps t t'" "wm_keeps wm t'"
        using t by (auto split: option.splits simp: index_ok_def intro: wm_keeps_trans)
      have r': "in_reach t' pos sz" by (rule in_reach_later [OF r ft(2,3)])
      show "holds (?rest found) t' ?Q ?E"
      proof (cases found)
        case None
        with over [OF ft(2,4) r' lim] show ?thesis by simp
      next
        case (Some idx)
        let ?a = "t'\<lparr>active_window_idx := Some idx\<rparr>"
        have ix: "index_ok wm pos sz idx ?a" using ft(1) Some by (simp add: set_active)
        then have "holds (get_row_overflow_slice pos sz) ?a ?Q ?E"
          using r' lim by (intro over) (auto simp: index_ok_def in_reach_def)
        moreover have "holds (slice_of_window idx pos sz)
            (?a\<lparr>windows := (windows ?a)[idx := (windows ?a ! idx)\<lparr>row_pinned := True\<rparr>],
                row_pin_count := row_pin_count ?a + 1\<rparr>) ?Q ?E" if "\<not> row_pinned (windows ?a ! idx)"
          using pin_index_ok [OF ix that] ix lim by (intro win) (auto simp: index_ok_def)
        moreover have "holds (slice_of_window idx pos sz) ?a ?Q ?E" if "row_pinned (windows ?a ! idx)"
          using ix that lim by (rule win)
        ultimately show ?thesis using Some by simp
      qed
    qed (use t map_refused_trans [of t _ _ wm] in \<open>auto simp: map_refused_def read_outcome_def\<close>)
  qed (auto simp: read_outcome_def)
  with Some show ?thesis by (simp add: get_row_pinned_slice_def)
qed

section \<open>Properties\<close>

text \<open>C38. The window cache refines the file.  In every state that satisfies the cache invariant, and whatever
  windows are mapped, a reader's \<open>get_slice\<close> of a nonempty range returns exactly the bytes of the
  file at that range when the range lies within the reader's limit, and otherwise fails with
  \<open>ObjectExceedsFileBounds\<close>; the only other failure is a mapping the kernel refused.  In all cases the
  invariant is kept (so no later access can panic), the file is untouched and, with the windowed
  strategy, every pinned window stays mapped.\<close>

theorem get_slice_refines_file:
  assumes "wm_inv wm" and "bounds_mode wm \<noteq> WriterOwned" and "sz \<noteq> 0"
  shows "read_outcome wm pos sz (fst (get_slice pos sz wm)) \<and>
    wm_inv (snd (get_slice pos sz wm)) \<and> wm_keeps wm (snd (get_slice pos sz wm))"
  using get_slice_holds [OF assms, of pos]
  by (cases "get_slice pos sz wm") (auto simp: holds_def split: sum.splits)

definition sample_wm :: WindowManager where
  "sample_wm =
     (new_with_bounds_mode \<lparr>contents = map of_nat [0..<40], map_ok = (\<lambda>_ _. True)\<rparr> 16 2 LiveFile Windowed)
       \<lparr>file_size := 20, windows := [\<lparr>w_offset = 0, w_size = 16, row_pinned = True\<rparr>], row_pin_count := 1\<rparr>"

lemma sample_wm_inv: "wm_inv sample_wm" "bounds_mode sample_wm \<noteq> WriterOwned"
  by (simp_all add: sample_wm_def new_with_bounds_mode_def wm_inv_def window_backed_def)

theorem get_slice_refines_file_witness:
  "fst (get_slice 12 20 sample_wm) = Ok (map of_nat [12..<32])"
proof -
  have "read_outcome sample_wm 12 20 (fst (get_slice 12 20 sample_wm))"
    using get_slice_refines_file [OF sample_wm_inv, of 20 12] by simp
  then show ?thesis
    by (auto simp: read_outcome_def reader_limit_def refused_def sample_wm_def new_with_bounds_mode_def
        bytes_at_def drop_map take_map split: sum.splits)
qed

text \<open>C39. Row pinning: under the same conditions \<open>get_row_pinned_slice\<close> returns exactly the file's bytes, and
  afterwards these bytes are held for the row, either by a pinned window that contains the whole range
  or by a copy in the overflow list; with the windowed strategy the windows pinned before stay mapped.\<close>

theorem get_row_pinned_slice_pins:
  assumes "wm_inv wm" and "bounds_mode wm \<noteq> WriterOwned" and "sz \<noteq> 0"
    and "get_row_pinned_slice pos sz wm = (r, wm')"
  shows "read_outcome wm pos sz r \<and> wm_inv wm' \<and> wm_keeps wm wm' \<and>
    (\<forall>bs. r = Ok bs \<longrightarrow> bs \<in> set (row_overflow_objects wm') \<or>
       (\<exists>w \<in> set (windows wm'). row_pinned w \<and> contains_range w pos sz))"
  using get_row_pinned_slice_holds [OF assms(1-3), of pos] assms(4)
  by (auto simp: holds_def split: sum.splits)

theorem get_row_pinned_slice_pins_witness:
  "\<exists>wm'. get_row_pinned_slice 12 20 sample_wm = (Ok (map of_nat [12..<32]), wm') \<and>
     \<lparr>w_offset = 0, w_size = 16, row_pinned = True\<rparr> \<in> set (windows wm')"
proof -
  obtain r wm' where e: "get_row_pinned_slice 12 20 sample_wm = (r, wm')" by fastforce
  have "read_outcome sample_wm 12 20 r" "wm_keeps sample_wm wm'"
    using get_row_pinned_slice_pins [OF sample_wm_inv _ e] by simp_all
  then show ?thesis
    using e by (auto simp: read_outcome_def reader_limit_def refused_def sample_wm_def new_with_bounds_mode_def
        bytes_at_def drop_map take_map wm_keeps_def split: sum.splits)
qed

text \<open>C40. With the whole-file strategy on a live file the pins do not survive growth: a row-pinned read past
  the mapped window drops every mapping, the pinned one included, although the bytes handed out for the
  row may still be in use.  The method's name promises to preserve row pins.\<close>

theorem whole_file_growth_drops_pins:
  "\<exists>wm pos sz. wm_inv wm \<and> bounds_mode wm = LiveFile \<and> strategy wm = WholeFile \<and>
     (\<exists>w \<in> set (windows wm). row_pinned w) \<and>
     (\<exists>bs wm'. get_row_pinned_slice pos sz wm = (Ok bs, wm') \<and>
        set (filter row_pinned (windows wm)) \<inter> set (windows wm') = {})"
proof -
  let ?wm = "sample_wm\<lparr>strategy := WholeFile, windows := [\<lparr>w_offset = 0, w_size = 20, row_pinned = True\<rparr>]\<rparr>"
  have "wm_inv ?wm"
    by (simp add: sample_wm_def new_with_bounds_mode_def wm_inv_def window_backed_def)
  moreover have "\<exists>bs wm'. get_row_pinned_slice 12 20 ?wm = (Ok bs, wm') \<and>
      set (filter row_pinned (windows ?wm)) \<inter> set (windows wm') = {}"
    by (simp add: get_row_pinned_slice_def sample_wm_def new_with_bounds_mode_def sbind_def op_run
        checked_add_def ensure_cached_file_contains_def refresh_file_size_def os_len_def
        get_window_index_preserving_row_pins_def get_whole_file_window_index_def lookup_window_by_range_def
        lookup_window_def contains_range_def end_offset_def get_chunk_aligned_end_def div_ceil_def
        checked_mul_def create_window_def window_extent_def create_checked_def push_window_def
        record_mapped_bytes_def current_mapped_bytes_def slice_of_window_def window_get_slice_def window_mmap_def length_bytes_at Let_def)
  ultimately show ?thesis
    by (intro exI [of _ ?wm] exI [of _ 12] exI [of _ 20]) (simp add: sample_wm_def new_with_bounds_mode_def)
qed

end
