(* ===== verification/Journal_File.thy ===== *)
theory Journal_File
  imports Chain_Guard Journal_Hash Journal_Header Journal_Object
begin

text \<open>
  The reader of one journal file, \<^verbatim>\<open>journal-core/src/file/file.rs\<close> with the hash tables of
  \<^verbatim>\<open>object_hash.rs\<close>: opening, typed access to objects, payload parts and lookups in a hash bucket.

  The window cache is seen through its contract (theory \<open>Window_Slices\<close>): a read returns the bytes of
  the file or \<open>ObjectExceedsFileBounds\<close>.  The file does not change during one operation; value guards
  are dropped before the next read, so \<open>ValueGuardInUse\<close> does not arise in these operations.
\<close>

section \<open>Sizes\<close>

definition normalize_compress_threshold :: "nat \<Rightarrow> nat" where
  "normalize_compress_threshold threshold = max threshold 8"

definition align_to :: "u64 \<Rightarrow> u64 \<Rightarrow> u64" where
  "align_to value alignment =
     saturating_add value (saturating_sub alignment 1) AND NOT (saturating_sub alignment 1)"

definition normalize_journal_max_file_size :: "u64 option \<Rightarrow> bool \<Rightarrow> u64" where
  "normalize_journal_max_file_size max_file_size compact =
     (let sz = (case max_file_size of
                  None \<Rightarrow> 134217728
                | Some n \<Rightarrow> if n = 0 then 134217728 else align_to n 4096);
          sz = (if compact \<and> sz > 0xffffffff then 0xffffffff else sz)
      in max sz 524288)"

definition data_hash_buckets_for_max_file_size :: "u64 \<Rightarrow> nat" where
  "data_hash_buckets_for_max_file_size max_file_size = unat (min (max (max_file_size div 576) 2047) u64_max)"

definition round_up_to_file_size_increment :: "u64 \<Rightarrow> u64 result" where
  "round_up_to_file_size_increment value =
     ok_or (map_option (\<lambda>v. v AND NOT (8388608 - 1)) (checked_add value (8388608 - 1)))
       ObjectExceedsFileBounds"

section \<open>Payload parts\<close>

text \<open>The fixed array \<open>parts[..count]\<close> is the list of the parts in use.\<close>

record PayloadParts =
  pp_parts :: "u8 list list"
  pp_len :: nat

definition pp_raw :: "u8 list \<Rightarrow> PayloadParts" where
  "pp_raw payload = \<lparr>pp_parts = [payload], pp_len = length payload\<rparr>"

definition pp_structured :: "u8 list \<Rightarrow> u8 list \<Rightarrow> PayloadParts" where
  "pp_structured name value = \<lparr>pp_parts = [name, [61], value], pp_len = length name + 1 + length value\<rparr>"

definition pp_is_empty :: "PayloadParts \<Rightarrow> bool" where
  "pp_is_empty p \<longleftrightarrow> pp_len p = 0"

definition as_single_slice :: "PayloadParts \<Rightarrow> u8 list option" where
  "as_single_slice p = (if length (pp_parts p) = 1 then Some (pp_parts p ! 0) else None)"

fun equals_loop :: "u8 list list \<Rightarrow> u8 list \<Rightarrow> bool" where
  "equals_loop [] remaining = (remaining = [])"
| "equals_loop (part # parts) remaining =
     (if length remaining < length part then False
      else if take (length part) remaining \<noteq> part then False
      else equals_loop parts (drop (length part) remaining))"

definition equals_slice :: "PayloadParts \<Rightarrow> u8 list \<Rightarrow> bool" where
  "equals_slice p other = (if length other \<noteq> pp_len p then False else equals_loop (pp_parts p) other)"

definition pp_to_vec :: "PayloadParts \<Rightarrow> u8 list" where
  "pp_to_vec p = foldl (\<lambda>payload part. payload @ part) [] (pp_parts p)"

fun copy_loop :: "u8 list list \<Rightarrow> nat \<Rightarrow> u8 list \<Rightarrow> u8 list result" where
  "copy_loop [] off dst = Ok dst"
| "copy_loop (part # parts) off dst =
     (if length dst < off + length part then Err Panic
      else copy_loop parts (off + length part) (take off dst @ part @ drop (off + length part) dst))"

definition copy_to_slice :: "PayloadParts \<Rightarrow> u8 list \<Rightarrow> u8 list result" where
  "copy_to_slice p dst = (if length dst \<noteq> pp_len p then Err Panic else copy_loop (pp_parts p) 0 dst)"

section \<open>Hash tables and field objects\<close>

record HashItem =
  head_hash_offset :: "u64 option"
  tail_hash_offset :: "u64 option"

record HashTable =
  table_header :: ObjectHeader
  table_items :: "HashItem list"

definition hash_item_from_bytes :: "u8 list \<Rightarrow> HashItem" where
  "hash_item_from_bytes bs =
     \<lparr>head_hash_offset = nonzero (u64_at bs 0), tail_hash_offset = nonzero (u64_at bs 8)\<rparr>"

definition hash_table_from_data :: "u8 list \<Rightarrow> HashTable option" where
  "hash_table_from_data data =
     (if length data < 16 \<or> (length data - 16) mod 16 \<noteq> 0 then None
      else Some \<lparr>table_header = object_header_from_bytes (take 16 data),
                 table_items = map hash_item_from_bytes (chunks 16 (drop 16 data))\<rparr>)"

text \<open>\<open>hash as usize % self.items.len()\<close> panics on an empty table.\<close>

definition hash_item_ref :: "HashTable \<Rightarrow> u64 \<Rightarrow> HashItem result" where
  "hash_item_ref t hash =
     (if table_items t = [] then Err Panic
      else Ok (table_items t ! (unat hash mod length (table_items t))))"

record FieldObject =
  field_object_header :: ObjectHeader
  field_hash :: u64
  field_next_hash_offset :: "u64 option"
  field_head_data :: "u64 option"
  field_payload :: "u8 list"

definition field_from_data :: "u8 list \<Rightarrow> bool \<Rightarrow> FieldObject option" where
  "field_from_data data is_compact =
     (if length data < 40 then None
      else Some \<lparr>field_object_header = object_header_from_bytes data, field_hash = u64_at data 16,
                 field_next_hash_offset = nonzero (u64_at data 24),
                 field_head_data = nonzero (u64_at data 32), field_payload = drop 40 data\<rparr>)"

section \<open>The file\<close>

datatype RecoveryReason = NoRecovery | MissingEntry | MissingEntryArray

record RecoveryStatus =
  reason :: RecoveryReason
  first_lost_offset :: u64
  declared_entries :: u64
  recovered_entries :: u64

record RecoveredPrefix =
  status :: RecoveryStatus
  last_entry :: "u64 option"
  tail_seqnum :: u64
  tail_realtime :: u64
  tail_monotonic :: u64
  tail_boot_id :: "u8 list"

record JournalFile =
  jf_header :: JournalHeader
  jf_bytes :: "u8 list"
  data_hash_table_map :: "u8 list option"
  field_hash_table_map :: "u8 list option"
  recovery_enabled :: bool
  recovery :: "RecoveredPrefix option"
  recovery_changed :: bool
  filter_recovery_seen :: bool

text \<open>The contract of \<open>get_slice\<close> and of \<open>read_fresh_bytes_at\<close>.\<close>

definition slice_at :: "u8 list \<Rightarrow> u64 \<Rightarrow> u64 \<Rightarrow> u8 list result" where
  "slice_at bs pos sz =
     (if unat pos + unat sz \<le> length bs then Ok (bytes_at bs (unat pos) (unat sz))
      else Err ObjectExceedsFileBounds)"

definition map_hash_table :: "u8 list \<Rightarrow> u64 \<Rightarrow> u64 option \<Rightarrow> u64 option \<Rightarrow> u8 list option result" where
  "map_hash_table bs hsize off_opt size_opt =
     (case (off_opt, size_opt) of
        (Some off, Some sz) \<Rightarrow>
          (if off < hsize + 16 then Err InvalidObjectLocation
           else if sz \<le> 16 then Err InvalidObjectLocation
           else rbind (slice_at bs (off - 16) (16 + sz)) (\<lambda>m. Ok (Some m)))
      | _ \<Rightarrow> Ok None)"

definition open_journal_file :: "u8 list \<Rightarrow> JournalFile result" where
  "open_journal_file bs =
     rbind (slice_at bs 0 272) (\<lambda>hbytes.
     rbind (ok_or (header_from_bytes hbytes) Panic) (\<lambda>h.
     if signature h \<noteq> journal_signature then Err InvalidMagicNumber
     else
     rbind (validate_reader_mappings h (of_nat (length bs))) (\<lambda>_.
     rbind (map_hash_table bs (header_size h) (data_hash_table_offset h) (data_hash_table_size h)) (\<lambda>dm.
     rbind (map_hash_table bs (header_size h) (field_hash_table_offset h) (field_hash_table_size h)) (\<lambda>fm.
       Ok \<lparr>jf_header = (if header_size h < 272 then sanitize_header_for_size h else h),
           jf_bytes = bs, data_hash_table_map = dm, field_hash_table_map = fm,
           recovery_enabled = False, recovery = None, recovery_changed = False,
           filter_recovery_seen = False\<rparr>)))))"

definition validate_committed_arena_header ::
  "JournalHeader \<Rightarrow> u64 \<Rightarrow> (u64 \<Rightarrow> u64 \<Rightarrow> u8 list result) \<Rightarrow> unit result" where
  "validate_committed_arena_header h fsize read =
     rbind (validated_arena_end h fsize) (\<lambda>e.
       case tail_object_offset h of
         None \<Rightarrow> Ok ()
       | Some tail \<Rightarrow>
           rbind (read tail 16) (\<lambda>bytes.
           rbind (validated_size (object_header_from_bytes bytes)) (\<lambda>sz.
             if sz > e - tail then Err ObjectExceedsFileBounds else Ok ())))"

definition is_compact :: "JournalFile \<Rightarrow> bool" where
  "is_compact jf = has_incompatible_flag (jf_header jf) Compact"

definition journal_object_ref ::
  "ObjectType \<Rightarrow> (u8 list \<Rightarrow> bool \<Rightarrow> 'a option) \<Rightarrow> JournalFile \<Rightarrow> u64 \<Rightarrow> 'a result" where
  "journal_object_ref expected from_data jf off =
     (let hsize = header_size (jf_header jf);
          arena_end = hsize + arena_size (jf_header jf)
      in rbind (validate_offset_alignment off) (\<lambda>_.
         if off < hsize then Err ObjectExceedsFileBounds
         else
         rbind (slice_at (jf_bytes jf) off 16) (\<lambda>hbytes.
         let h = object_header_from_bytes hbytes
         in rbind (validated_size h) (\<lambda>size_needed.
            if obj_type h \<noteq> object_type_code expected then Err InvalidObjectType
            else
            rbind (ok_or (checked_add off size_needed) ObjectExceedsFileBounds) (\<lambda>end_offset.
            if end_offset > arena_end then Err ObjectExceedsFileBounds
            else
            rbind (slice_at (jf_bytes jf) off size_needed) (\<lambda>data.
              ok_or (from_data data (is_compact jf)) ZerocopyFailure))))))"

definition object_header_ref :: "JournalFile \<Rightarrow> u64 \<Rightarrow> ObjectHeader result" where
  "object_header_ref jf pos =
     rbind (validate_offset_alignment pos) (\<lambda>_.
     rbind (slice_at (jf_bytes jf) pos 16) (\<lambda>header_slice. Ok (object_header_from_bytes header_slice)))"

definition offset_array_ref :: "JournalFile \<Rightarrow> u64 \<Rightarrow> OffsetArrayObject result" where
  "offset_array_ref = journal_object_ref EntryArray offset_array_from_data"

definition field_ref :: "JournalFile \<Rightarrow> u64 \<Rightarrow> FieldObject result" where
  "field_ref = journal_object_ref Field field_from_data"

definition entry_ref :: "JournalFile \<Rightarrow> u64 \<Rightarrow> EntryObject result" where
  "entry_ref = journal_object_ref Entry entry_from_data"

definition data_ref :: "JournalFile \<Rightarrow> u64 \<Rightarrow> DataObject result" where
  "data_ref = journal_object_ref Data data_from_data"

definition data_hash_table_ref :: "JournalFile \<Rightarrow> HashTable option" where
  "data_hash_table_ref jf = Option.bind (data_hash_table_map jf) hash_table_from_data"

definition field_hash_table_ref :: "JournalFile \<Rightarrow> HashTable option" where
  "field_hash_table_ref jf = Option.bind (field_hash_table_map jf) hash_table_from_data"

definition entry_data_object_offsets :: "JournalFile \<Rightarrow> u64 \<Rightarrow> u64 list \<Rightarrow> u64 list result" where
  "entry_data_object_offsets jf entry_offset offsets =
     rbind (entry_ref jf entry_offset) (\<lambda>e. entry_collect_offsets e offsets)"

definition hash_parts :: "'h SipHasher24 \<Rightarrow> JournalFile \<Rightarrow> PayloadParts \<Rightarrow> u64 option" where
  "hash_parts H jf payload =
     (let keyed = has_incompatible_flag (jf_header jf) KeyedHash
      in journal_hash_data_parts H (pp_parts payload) keyed (if keyed then Some (file_id (jf_header jf)) else None))"

definition jf_hash :: "'h SipHasher24 \<Rightarrow> JournalFile \<Rightarrow> u8 list \<Rightarrow> u64 option" where
  "jf_hash H jf data = hash_parts H jf (pp_raw data)"

section \<open>Walking a hash bucket\<close>

lemma advance_option_measure:
  assumes "(Inr u, g') = advance g at nx False" and "nx \<noteq> Some 0"
  shows "(case nx of None \<Rightarrow> 0 | Some at' \<Rightarrow>
        Suc (if steps g' = 0 then 2 ^ 64 + (2 ^ 64 - unat at') else 2 ^ 64 - unat (steps g')))
    < Suc (if steps g = 0 then 2 ^ 64 + (2 ^ 64 - unat at) else 2 ^ 64 - unat (steps g))"
proof (cases nx)
  case None
  then show ?thesis by simp
next
  case (Some at')
  then show ?thesis using advance_measure [of u g' g at at'] assms by (simp only: option.case Suc_less_eq) auto
qed

lemma as_nonzero_ne [simp]: "as_nonzero x \<noteq> Some 0"
  by simp

function bucket_loop ::
  "(u64 \<Rightarrow> 'o result) \<Rightarrow> ('o \<Rightarrow> u64 option) \<Rightarrow> (u64 \<Rightarrow> 'o \<Rightarrow> 'r option result) \<Rightarrow>
     ChainGuard \<Rightarrow> u64 option \<Rightarrow> 'r option result" where
  "bucket_loop obj next_hash visit chain object_offset =
     (case object_offset of
        None \<Rightarrow> Ok None
      | Some off \<Rightarrow>
          rbind (obj off) (\<lambda>o1.
          rbind (visit off o1) (\<lambda>output.
            case output of
              Some r \<Rightarrow> Ok (Some r)
            | None \<Rightarrow>
                (case advance chain off (as_nonzero (next_hash o1)) False of
                   (Inl e, _) \<Rightarrow> Err e
                 | (Inr _, chain') \<Rightarrow>
                     bucket_loop obj next_hash visit chain' (as_nonzero (next_hash o1))))))"
  by pat_completeness auto
termination
proof (relation "measure (\<lambda>(_, _, _, g, off). case off of None \<Rightarrow> 0 | Some at \<Rightarrow>
        Suc (if steps g = 0 then 2 ^ 64 + (2 ^ 64 - unat at) else 2 ^ 64 - unat (steps g)))", goal_cases)
  case 1
  show ?case by simp
next
  case (2 obj next_hash visit chain object_offset off o1 out a b u)
  then show ?case
    using advance_option_measure [of u b chain off "as_nonzero (next_hash o1)"]
    by (simp only: in_measure prod.case option.case) (metis as_nonzero_ne prod.collapse)
qed

declare bucket_loop.simps [simp del]

definition visit_bucket ::
  "(u64 \<Rightarrow> 'o result) \<Rightarrow> ('o \<Rightarrow> u64 option) \<Rightarrow> HashTable option \<Rightarrow> u64 \<Rightarrow>
     (u64 \<Rightarrow> 'o \<Rightarrow> 'r option result) \<Rightarrow> 'r option result" where
  "visit_bucket obj next_hash table hash visit =
     rbind (ok_or table MissingHashTable) (\<lambda>t.
     rbind (hash_item_ref t hash) (\<lambda>bucket.
       bucket_loop obj next_hash visit guard_default (head_hash_offset bucket)))"

text \<open>\<open>PayloadMatcher::visit\<close> for field objects, which are never compressed.\<close>

definition field_matcher_visit :: "PayloadParts \<Rightarrow> u64 \<Rightarrow> u64 \<Rightarrow> FieldObject \<Rightarrow> u64 option result" where
  "field_matcher_visit payload hash off fo =
     (if field_hash fo \<noteq> hash then Ok None
      else if equals_slice payload (field_payload fo) then Ok (Some off) else Ok None)"

definition find_field_offset :: "JournalFile \<Rightarrow> u64 \<Rightarrow> u8 list \<Rightarrow> u64 option result" where
  "find_field_offset jf hash payload =
     visit_bucket (field_ref jf) field_next_hash_offset (field_hash_table_ref jf) hash
       (field_matcher_visit (pp_raw payload) hash)"

text \<open>\<open>hash\<close> is total in the source; a missing value of the model is a panic of the part reader.\<close>

definition field_head_data_offset :: "'h SipHasher24 \<Rightarrow> JournalFile \<Rightarrow> u8 list \<Rightarrow> u64 option result" where
  "field_head_data_offset H jf field_name =
     rbind (ok_or (jf_hash H jf field_name) Panic) (\<lambda>hash.
     rbind (visit_bucket (field_ref jf) field_next_hash_offset (field_hash_table_ref jf) hash
              (\<lambda>_ fo. Ok (if field_hash fo = hash \<and> field_payload fo = field_name
                           then Some (field_head_data fo) else None))) (\<lambda>found.
       Ok (Option.bind found id)))"

section \<open>Payload parts are their concatenation\<close>

lemma equals_loop_iff: "equals_loop parts remaining \<longleftrightarrow> remaining = concat parts"
proof (induction parts arbitrary: remaining)
  case (Cons part parts)
  show ?case
  proof (cases "take (length part) remaining = part")
    case True
    then have "length part \<le> length remaining" by (metis length_take min.cobounded1)
    moreover have "remaining = part @ drop (length part) remaining" using True by (metis append_take_drop_id)
    ultimately show ?thesis using Cons True by (metis concat.simps(2) equals_loop.simps(2) not_le same_append_eq)
  next
    case False
    then show ?thesis by auto
  qed
qed simp

lemma pp_to_vec_concat: "pp_to_vec p = concat (pp_parts p)"
proof -
  have "foldl (\<lambda>payload part. payload @ part) acc parts = acc @ concat parts" for acc and parts :: "u8 list list"
    by (induction parts arbitrary: acc) simp_all
  then show ?thesis by (simp add: pp_to_vec_def)
qed

lemma copy_loop_concat:
  "off + length (concat parts) \<le> length dst \<Longrightarrow>
   copy_loop parts off dst = Ok (take off dst @ concat parts @ drop (off + length (concat parts)) dst)"
proof (induction parts arbitrary: off dst)
  case Nil
  then show ?case by simp
next
  case (Cons part parts)
  let ?d = "take off dst @ part @ drop (off + length part) dst"
  have "length ?d = length dst" using Cons.prems by simp
  moreover have "take (off + length part) ?d = take off dst @ part" using Cons.prems by simp
  moreover have "drop (off + length part + n) ?d = drop (off + length part + n) dst" for n
    using Cons.prems by (simp add: add.commute add.left_commute)
  ultimately show ?case using Cons.IH [of "off + length part" ?d] Cons.prems
    by (simp add: add.assoc)
qed

lemma pp_wf:
  "length (concat (pp_parts (pp_raw payload))) = pp_len (pp_raw payload)"
  "length (concat (pp_parts (pp_structured name value))) = pp_len (pp_structured name value)"
  by (simp_all add: pp_raw_def pp_structured_def)

section \<open>Hash chains\<close>

text \<open>
  \<open>hash_chain obj next ps\<close>: the offsets and objects \<open>ps\<close> are the complete chain that starts at the
  first of them.  \<open>first_match\<close> is what a lookup means.
\<close>

fun hash_chain :: "(u64 \<Rightarrow> 'o result) \<Rightarrow> ('o \<Rightarrow> u64 option) \<Rightarrow> (u64 \<times> 'o) list \<Rightarrow> bool" where
  "hash_chain obj next_hash [] \<longleftrightarrow> True"
| "hash_chain obj next_hash ((off, o1) # ps) \<longleftrightarrow>
     off \<noteq> 0 \<and> obj off = Ok o1 \<and>
     as_nonzero (next_hash o1) = (case ps of [] \<Rightarrow> None | p # _ \<Rightarrow> Some (fst p)) \<and>
     hash_chain obj next_hash ps"

fun first_match :: "(u64 \<Rightarrow> 'o \<Rightarrow> 'r option result) \<Rightarrow> (u64 \<times> 'o) list \<Rightarrow> 'r option result" where
  "first_match visit [] = Ok None"
| "first_match visit ((off, o1) # ps) =
     rbind (visit off o1) (\<lambda>r. case r of Some x \<Rightarrow> Ok (Some x) | None \<Rightarrow> first_match visit ps)"

lemma hash_chain_nonzero: "hash_chain obj next_hash ps \<Longrightarrow> p \<in> set ps \<Longrightarrow> fst p \<noteq> 0"
  by (induction ps) auto

lemma bucket_loop_chain:
  assumes "distinct (map fst (qs @ ps))" and "0 \<notin> set (map fst (qs @ ps))" and "hash_chain obj next_hash ps"
    and "guard_walk False guard_default (path_seq (map fst (qs @ ps))) (length qs) = (Ok (), g)"
  shows "bucket_loop obj next_hash visit g (case ps of [] \<Rightarrow> None | p # _ \<Rightarrow> Some (fst p)) = first_match visit ps"
  using assms
proof (induction ps arbitrary: qs g)
  case Nil
  then show ?case by (subst bucket_loop.simps) simp
next
  case (Cons p ps)
  obtain off o1 where p: "p = (off, o1)" by (cases p)
  show ?case
  proof (cases ps)
    case Nil
    then have "advance g off None False = (Ok (), g)" by (simp add: advance_def)
    with Cons.prems(3) p Nil show ?thesis
      by (subst bucket_loop.simps) (auto simp: bucket_loop.simps intro!: rbind_cong split: option.split)
  next
    case (Cons q rest)
    let ?p = "map fst (qs @ p # ps)"
    have d: "distinct ?p" "0 \<notin> set ?p" "?p \<noteq> []" "Suc (length qs) < length ?p"
      using Cons.prems Cons by auto
    obtain g' where w: "guard_walk False guard_default (path_seq ?p) (Suc (length qs)) = (Ok (), g')"
      using guard_walk_distinct_path [of ?p "Suc (length qs)" guard_default False] d
      by (auto simp: guard_default_def)
    have nth: "?p ! length qs = off" "?p ! Suc (length qs) = fst q"
      using p Cons by (simp_all add: nth_append)
    have "path_seq ?p (length qs) = off" "path_seq ?p (Suc (length qs)) = fst q"
      by (simp_all only: path_seq_nth [OF d(4)] path_seq_nth [OF Suc_lessD [OF d(4)]] nth)
    then have adv: "advance g off (Some (fst q)) False = (Ok (), g')"
      using w Cons.prems(4) by simp
    have "bucket_loop obj next_hash visit g' (case ps of [] \<Rightarrow> None | p # _ \<Rightarrow> Some (fst p)) = first_match visit ps"
      using Cons.IH [of "qs @ [p]" g'] Cons.prems p w by simp
    with Cons.prems(3) p Cons adv show ?thesis
      by (subst bucket_loop.simps) (auto intro!: rbind_cong split: option.split)
  qed
qed

lemma bucket_loop_first_match:
  assumes "hash_chain obj next_hash ps" and "distinct (map fst ps)"
  shows "bucket_loop obj next_hash visit guard_default (case ps of [] \<Rightarrow> None | p # _ \<Rightarrow> Some (fst p)) =
    first_match visit ps"
proof -
  have "0 \<notin> set (map fst ([] @ ps))" using hash_chain_nonzero [OF assms(1)] by force
  then show ?thesis using bucket_loop_chain [of "[]" ps obj next_hash guard_default visit] assms by simp
qed

text \<open>A lookup that follows links without a match reports the cycle it is in.\<close>

lemma bucket_loop_walk:
  assumes nz: "\<And>i. x i \<noteq> 0" and step: "\<And>i. \<exists>o1. obj (x i) = Ok o1 \<and> next_hash o1 = Some (x (Suc i)) \<and> visit (x i) o1 = Ok None"
    and "guard_walk False guard_default x n = (Ok (), g)"
  shows "bucket_loop obj next_hash visit guard_default (Some (x 0)) = bucket_loop obj next_hash visit g (Some (x n))"
  using assms(3)
proof (induction n arbitrary: g)
  case 0
  then show ?case by simp
next
  case (Suc n)
  obtain h where h: "guard_walk False guard_default x n = (Ok (), h)" "advance h (x n) (Some (x (Suc n))) False = (Ok (), g)"
    using Suc.prems by (auto split: prod.splits sum.splits)
  have "bucket_loop obj next_hash visit h (Some (x n)) = bucket_loop obj next_hash visit g (Some (x (Suc n)))"
    using step [of n] nz [of "Suc n"] h(2) by (subst bucket_loop.simps) auto
  with Suc.IH [OF h(1)] show ?case by simp
qed

lemma bucket_loop_cycle:
  assumes nz: "\<And>i. x i \<noteq> 0" and step: "\<And>i. \<exists>o1. obj (x i) = Ok o1 \<and> next_hash o1 = Some (x (Suc i)) \<and> visit (x i) o1 = Ok None"
    and cyc: "0 < l" "\<And>i. m \<le> i \<Longrightarrow> x (i + l) = x i"
  shows "bucket_loop obj next_hash visit guard_default (Some (x 0)) = Err CyclicObjectChain"
proof -
  let ?bad = "\<lambda>n. fst (guard_walk False guard_default x n) = Err CyclicObjectChain"
  have g0: "steps guard_default = 0" by (simp add: guard_default_def)
  have bad: "?bad (4 * (m + l))" by (rule guard_walk_complete [where x = x and m = m and l = l, OF g0 nz cyc])
  define n where "n = (LEAST n. ?bad n)"
  have n: "?bad n" "\<And>k. k < n \<Longrightarrow> \<not> ?bad k"
    unfolding n_def using LeastI [of ?bad, OF bad] not_less_Least by auto
  then obtain k where k: "n = Suc k" by (cases n) auto
  obtain r h where w: "guard_walk False guard_default x k = (r, h)" by fastforce
  have "r = Ok ()"
  proof (cases r)
    case (Inl e)
    then have "e = CyclicObjectChain" using guard_walk_error [where x = x, OF g0 nz] w by blast
    with Inl w n(2) [of k] k show ?thesis by simp
  qed simp
  with w n(1) k have "fst (advance h (x k) (Some (x (Suc k))) False) = Err CyclicObjectChain" by simp
  then have "bucket_loop obj next_hash visit h (Some (x k)) = Err CyclicObjectChain"
    using step [of k] nz [of "Suc k"] by (subst bucket_loop.simps) (auto split: prod.split)
  with bucket_loop_walk [where x = x, OF nz step, of k h] w \<open>r = Ok ()\<close> show ?thesis by simp
qed

section \<open>Objects stay inside the file\<close>

lemma journal_object_ref_Ok:
  assumes "journal_object_ref expected from_data jf off = Ok x"
  obtains h where "off mod 8 = 0" and "header_size (jf_header jf) \<le> off"
    and "unat off + unat (obj_size h) \<le> length (jf_bytes jf)" and "16 \<le> obj_size h"
    and "h = object_header_from_bytes (bytes_at (jf_bytes jf) (unat off) 16)"
    and "obj_type h = object_type_code expected"
    and "off + obj_size h \<le> header_size (jf_header jf) + arena_size (jf_header jf)"
    and "from_data (bytes_at (jf_bytes jf) (unat off) (unat (obj_size h))) (is_compact jf) = Some x"
proof -
  let ?h = "object_header_from_bytes (bytes_at (jf_bytes jf) (unat off) 16)"
  show thesis
    using assms unfolding journal_object_ref_def Let_def
    by (intro that [of ?h])
      (auto simp: rbind_eq_Ok ok_or_eq_Ok validate_offset_alignment_Ok slice_at_def validated_size_def
        checked_add_def word_less_nat_alt word_le_nat_alt not_less split: if_splits)
qed

section \<open>Properties\<close>

text \<open>A bucket lookup terminates on every file and is exact: on the acyclic chain of a bucket it returns
  what the visitor answers for the first object it accepts (or nothing), visiting the objects in order;
  an error of the visitor ends the walk.\<close>

theorem visit_bucket_first_match:
  assumes "table_items t \<noteq> []" and "hash_chain obj next_hash ps" and "distinct (map fst ps)"
    and "head_hash_offset (table_items t ! (unat hash mod length (table_items t))) =
      (case ps of [] \<Rightarrow> None | p # _ \<Rightarrow> Some (fst p))"
  shows "visit_bucket obj next_hash (Some t) hash visit = first_match visit ps"
  using assms bucket_loop_first_match [OF assms(2,3)]
  by (simp add: visit_bucket_def hash_item_ref_def)

definition sample_table :: HashTable where
  "sample_table = \<lparr>table_header = \<lparr>obj_type = 5, flags = 0, obj_reserved = [], obj_size = 48\<rparr>,
     table_items = [\<lparr>head_hash_offset = None, tail_hash_offset = None\<rparr>,
                    \<lparr>head_hash_offset = Some 96, tail_hash_offset = Some 64\<rparr>]\<rparr>"

theorem visit_bucket_first_match_witness:
  "visit_bucket (\<lambda>off. Ok (if off = 96 then Some 64 else None)) id (Some sample_table) 1
     (\<lambda>off _. Ok (if off = 64 then Some off else None)) = Ok (Some 64)"
proof -
  have "hash_chain (\<lambda>off. Ok (if off = 96 then Some 64 else None)) id [(96, Some 64), (64, None)]" by simp
  from visit_bucket_first_match [OF _ this, of sample_table 1 "\<lambda>off _. Ok (if off = 64 then Some off else None)"]
  show ?thesis by (simp add: sample_table_def)
qed

text \<open>A bucket whose chain runs into a cycle without a match does not loop: the lookup returns
  \<open>CyclicObjectChain\<close>.\<close>

theorem visit_bucket_cycle:
  assumes "table_items t \<noteq> []"
    and "head_hash_offset (table_items t ! (unat hash mod length (table_items t))) = Some (x 0)"
    and "\<And>i. x i \<noteq> 0"
    and "\<And>i. \<exists>o1. obj (x i) = Ok o1 \<and> next_hash o1 = Some (x (Suc i)) \<and> visit (x i) o1 = Ok None"
    and "0 < l" and "\<And>i. m \<le> i \<Longrightarrow> x (i + l) = x i"
  shows "visit_bucket obj next_hash (Some t) hash visit = Err CyclicObjectChain"
  using assms(1,2) bucket_loop_cycle [where x = x, OF assms(3-6)]
  by (simp add: visit_bucket_def hash_item_ref_def)

theorem visit_bucket_cycle_witness:
  "visit_bucket (\<lambda>off. Ok (Some (if off = 96 then 64 else 96))) id (Some sample_table) 1
     (\<lambda>_ _. Ok (None :: unit option)) = Err CyclicObjectChain"
  by (rule visit_bucket_cycle [where x = "\<lambda>i. if even i then 96 else 64" and l = 2 and m = 0])
    (auto simp: sample_table_def)

definition sample_file :: JournalFile where
  "sample_file =
     \<lparr>jf_header = sample_header\<lparr>header_size := 16, arena_size := 48\<rparr>,
      jf_bytes = replicate 16 0 @ [6, 0, 0, 0, 0, 0, 0, 0, 40, 0, 0, 0, 0, 0, 0, 0] @ replicate 8 0 @
                 [64, 0, 0, 0, 0, 0, 0, 0, 0, 1, 0, 0, 0, 0, 0, 0] @ replicate 8 0,
      data_hash_table_map = None, field_hash_table_map = None, recovery_enabled = False,
      recovery = None, recovery_changed = False, filter_recovery_seen = False\<rparr>"

lemma sample_slices:
  "slice_at (jf_bytes sample_file) 16 16 = Ok [6, 0, 0, 0, 0, 0, 0, 0, 40, 0, 0, 0, 0, 0, 0, 0]"
  "slice_at (jf_bytes sample_file) 16 40 = Ok ([6, 0, 0, 0, 0, 0, 0, 0, 40, 0, 0, 0, 0, 0, 0, 0] @ replicate 8 0 @
                 [64, 0, 0, 0, 0, 0, 0, 0, 0, 1, 0, 0, 0, 0, 0, 0])"
  by (simp_all add: slice_at_def sample_file_def bytes_at_def)

lemma sample_object_header:
  "object_header_from_bytes [6, 0, 0, 0, 0, 0, 0, 0, 40, 0, 0, 0, 0, 0, 0, 0] =
     \<lparr>obj_type = 6, flags = 0, obj_reserved = [0,0,0,0,0,0], obj_size = 40\<rparr>"
  by (simp add: object_header_from_bytes_def bytes_at_def u64_at_def from_le_def)

lemma sample_aligned: "validate_offset_alignment 16 = Ok ()"
  by (simp add: validate_offset_alignment_def)

lemma sample_parse: "\<exists>a. offset_array_from_data ([6, 0, 0, 0, 0, 0, 0, 0, 40, 0, 0, 0, 0, 0, 0, 0] @ replicate 8 0 @
                 [64, 0, 0, 0, 0, 0, 0, 0, 0, 1, 0, 0, 0, 0, 0, 0]) c = Some a"
  by (simp add: offset_array_from_data_def Let_def)

lemma sample_object: "\<exists>x. journal_object_ref EntryArray offset_array_from_data sample_file 16 = Ok x"
proof -
  obtain a where "offset_array_from_data ([6, 0, 0, 0, 0, 0, 0, 0, 40, 0, 0, 0, 0, 0, 0, 0] @ replicate 8 0 @
      [64, 0, 0, 0, 0, 0, 0, 0, 0, 1, 0, 0, 0, 0, 0, 0]) (is_compact sample_file) = Some a"
    using sample_parse by blast
  moreover have "header_size (jf_header sample_file) = 16" "arena_size (jf_header sample_file) = 48"
    by (simp_all add: sample_file_def)
  moreover have "checked_add 16 (40 :: u64) = Some 56" by (simp add: checked_add_def)
  ultimately show ?thesis
    by (simp add: journal_object_ref_def sample_slices sample_object_header sample_aligned validated_size_def del: append.simps)
qed

text \<open>C30. A committed arena: when \<open>validate_committed_arena_header\<close> accepts the header and the bytes of a file, the arena ends
  exactly at the sum of header and arena size (the addition does not wrap) and inside the file, and everything the header
  names lies 8-byte aligned between the header and that end: the whole tail object with the size that its own
  header in the file declares, the header of the first entry array, both hash tables, the cached tail
  entry array with all its items, and the fixed part of the cached tail entry.\<close>

theorem committed_arena_extents:
  assumes "validate_committed_arena_header h (of_nat (length bs)) (slice_at bs) = Ok ()" and "length bs < 2 ^ 64"
  shows "\<exists>e. unat e = unat (header_size h) + unat (arena_size h) \<and> unat e \<le> length bs \<and>
    (\<forall>t. tail_object_offset h = Some t \<longrightarrow>
       (let n = unat (obj_size (object_header_from_bytes (bytes_at bs (unat t) 16))) in 16 \<le> n \<and> object_fits h e t n)) \<and>
    (\<forall>a. entry_array_offset h = Some a \<longrightarrow> object_fits h e a 24) \<and>
    (\<forall>d n. data_hash_table_offset h = Some d \<longrightarrow> data_hash_table_size h = Some n \<longrightarrow> object_fits h e d (unat n)) \<and>
    (\<forall>f n. field_hash_table_offset h = Some f \<longrightarrow> field_hash_table_size h = Some n \<longrightarrow> object_fits h e f (unat n)) \<and>
    (264 \<le> header_size h \<longrightarrow> tail_entry_array_offset h \<noteq> 0 \<longrightarrow>
       object_fits h e (ucast (tail_entry_array_offset h))
         (24 + unat (tail_entry_array_n_entries h) * (if has_incompatible_flag h Compact then 4 else 8))) \<and>
    (272 \<le> header_size h \<longrightarrow> tail_entry_offset h \<noteq> 0 \<longrightarrow> object_fits h e (tail_entry_offset h) 64)"
proof -
  obtain e where v: "validated_arena_end h (of_nat (length bs)) = Ok e"
    using assms(1) by (cases "validated_arena_end h (of_nat (length bs))") (auto simp: validate_committed_arena_header_def)
  have tail: "rbind (slice_at bs t 16) (\<lambda>bytes. rbind (validated_size (object_header_from_bytes bytes)) (\<lambda>sz.
      if sz > e - t then Err ObjectExceedsFileBounds else Ok ())) = Ok ()" if "tail_object_offset h = Some t" for t
    using assms(1) that by (simp add: validate_committed_arena_header_def v)
  note x = validated_arena_end_extents [OF v]
  have "16 \<le> unat (obj_size (object_header_from_bytes (bytes_at bs (unat t) 16))) \<and>
      object_fits h e t (unat (obj_size (object_header_from_bytes (bytes_at bs (unat t) 16))))"
    if t: "tail_object_offset h = Some t" for t
  proof -
    let ?n = "obj_size (object_header_from_bytes (bytes_at bs (unat t) 16))"
    have fits: "object_fits h e t 16" using x t by blast
    then have "unat (e - t) = unat e - unat t" by (intro unat_sub) (simp add: object_fits_def word_le_nat_alt)
    moreover have "16 \<le> ?n" "?n \<le> e - t"
      using tail [OF t] by (auto simp: rbind_eq_Ok slice_at_def validated_size_def not_less split: if_splits)
    ultimately show ?thesis using fits by (simp add: object_fits_def word_le_nat_alt)
  qed
  moreover have "unat e \<le> length bs" using x assms(2) by (simp add: word_le_nat_alt unat_of_nat)
  ultimately show ?thesis using x unfolding Let_def by (intro exI [of _ e]) blast
qed

theorem committed_arena_extents_witness:
  "validate_committed_arena_header sample_header 4368
     (slice_at (replicate 424 0 @ [3, 0, 0, 0, 0, 0, 0, 0, 80, 0, 0, 0, 0, 0, 0, 0] @ replicate 3928 0)) = Ok () \<and>
   (\<exists>e. unat e = 4368 \<and> object_fits sample_header e 424 80)"
proof -
  let ?bs = "replicate 424 0 @ [3, 0, 0, 0, 0, 0, 0, 0, 80, 0, 0, 0, 0, 0, 0, 0] @ replicate 3928 0 :: u8 list"
  have tail: "bytes_at ?bs 424 16 = [3, 0, 0, 0, 0, 0, 0, 0, 80, 0, 0, 0, 0, 0, 0, 0]" by (simp add: bytes_at_def)
  have n: "obj_size (object_header_from_bytes [3, 0, 0, 0, 0, 0, 0, 0, 80, 0, 0, 0, 0, 0, 0, 0]) = 80"
    by (simp add: object_header_from_bytes_def u64_at_def bytes_at_def from_le_def)
  have off: "tail_object_offset sample_header = Some 424" "unat (header_size sample_header) + unat (arena_size sample_header) = 4368"
    by (simp_all add: sample_header_def)
  have sl: "slice_at ?bs 424 16 = Ok [3, 0, 0, 0, 0, 0, 0, 0, 80, 0, 0, 0, 0, 0, 0, 0]"
    using tail by (simp add: slice_at_def)
  then have ok: "validate_committed_arena_header sample_header 4368 (slice_at ?bs) = Ok ()"
    unfolding validate_committed_arena_header_def sample_header_accepted_exact off(1) using n by (simp add: validated_size_def)
  have "length ?bs = 4368" by simp
  then have ok': "validate_committed_arena_header sample_header (of_nat (length ?bs)) (slice_at ?bs) = Ok ()"
    unfolding \<open>length ?bs = 4368\<close> using ok by simp
  have "\<exists>e. unat e = 4368 \<and> object_fits sample_header e 424 80"
    using committed_arena_extents [OF ok'] off tail n by (auto simp: Let_def)
  with ok show ?thesis by blast
qed

text \<open>C31. Memory safety of typed access: whatever the bytes of the file, an object that is returned is
  8-byte aligned, starts behind the header, has the requested type and a size of at least its own header,
  lies completely inside both the declared arena and the file, and is the parse of exactly these bytes.\<close>

theorem object_ref_in_bounds:
  assumes "journal_object_ref expected from_data jf off = Ok x"
  shows "\<exists>h. h = object_header_from_bytes (bytes_at (jf_bytes jf) (unat off) 16) \<and>
    off mod 8 = 0 \<and> header_size (jf_header jf) \<le> off \<and> 16 \<le> obj_size h \<and>
    obj_type h = object_type_code expected \<and>
    off + obj_size h \<le> header_size (jf_header jf) + arena_size (jf_header jf) \<and>
    unat off + unat (obj_size h) \<le> length (jf_bytes jf) \<and>
    from_data (bytes_at (jf_bytes jf) (unat off) (unat (obj_size h))) (is_compact jf) = Some x"
proof -
  obtain h where "off mod 8 = 0" "header_size (jf_header jf) \<le> off"
    "unat off + unat (obj_size h) \<le> length (jf_bytes jf)" "16 \<le> obj_size h"
    "h = object_header_from_bytes (bytes_at (jf_bytes jf) (unat off) 16)"
    "obj_type h = object_type_code expected"
    "off + obj_size h \<le> header_size (jf_header jf) + arena_size (jf_header jf)"
    "from_data (bytes_at (jf_bytes jf) (unat off) (unat (obj_size h))) (is_compact jf) = Some x"
    by (rule journal_object_ref_Ok [OF assms])
  then show ?thesis by (intro exI [of _ h] conjI)
qed

theorem object_ref_in_bounds_witness:
  "\<exists>x. journal_object_ref EntryArray offset_array_from_data sample_file 16 = Ok x \<and>
     16 + obj_size (object_header_from_bytes (bytes_at (jf_bytes sample_file) 16 16)) \<le> 16 + (48 :: u64)"
proof -
  obtain x where x: "journal_object_ref EntryArray offset_array_from_data sample_file 16 = Ok x"
    using sample_object by blast
  from object_ref_in_bounds [OF x] have
    "16 + obj_size (object_header_from_bytes (bytes_at (jf_bytes sample_file) 16 16)) \<le> 16 + (48 :: u64)"
    by (simp add: sample_file_def)
  with x show ?thesis by blast
qed

text \<open>Payload parts are equivalent to the payload they spell: comparison, copying and materialising agree
  with the concatenation, and so does the hash that indexes the object, for both hash functions.\<close>

theorem payload_parts_equivalent:
  assumes "\<And>h a b. sip_write H (sip_write H h a) b = sip_write H h (a @ b)"
    and "\<And>h. sip_write H h [] = h"
    and "p = pp_raw payload \<or> p = pp_structured name value"
  shows "equals_slice p other = (other = pp_to_vec p) \<and>
    copy_to_slice p (replicate (pp_len p) 0) = Ok (pp_to_vec p) \<and>
    hash_parts H jf p = jf_hash H jf (pp_to_vec p)"
proof -
  have len: "length (concat (pp_parts p)) = pp_len p" using assms(3) pp_wf by blast
  have "foldl (sip_write H) h qs = sip_write H h (concat qs)" for h qs
    by (induction qs arbitrary: h) (auto simp: assms(1,2))
  then have "hash_parts H jf p = jf_hash H jf (concat (pp_parts p))"
    by (simp add: hash_parts_def jf_hash_def pp_raw_def journal_hash_data_parts_def siphash24_parts_def
        jenkins_hash64_parts_concat Let_def)
  moreover have "copy_to_slice p (replicate (pp_len p) 0) = Ok (concat (pp_parts p))"
    using copy_loop_concat [of 0 "pp_parts p" "replicate (pp_len p) 0"] len by (simp add: copy_to_slice_def)
  ultimately show ?thesis
    using len by (auto simp: equals_slice_def equals_loop_iff pp_to_vec_concat)
qed

theorem payload_parts_equivalent_witness:
  "equals_slice (pp_structured [77] [104, 105]) [77, 61, 104, 105] \<and>
   hash_parts \<lparr>new_with_keys = (\<lambda>k0 k1. [k0, k1]), sip_write = (\<lambda>h bs. h @ map ucast bs), sip_finish = sum_list\<rparr>
     sample_file (pp_structured [77] [104, 105]) =
   jf_hash \<lparr>new_with_keys = (\<lambda>k0 k1. [k0, k1]), sip_write = (\<lambda>h bs. h @ map ucast bs), sip_finish = sum_list\<rparr>
     sample_file [77, 61, 104, 105]"
  using payload_parts_equivalent [of
      "\<lparr>new_with_keys = (\<lambda>k0 k1. [k0, k1]), sip_write = (\<lambda>h bs. h @ map ucast bs), sip_finish = sum_list\<rparr>"
      "pp_structured [77] [104, 105]" _ "[77]" "[104, 105]" "[77, 61, 104, 105]" sample_file]
  by (simp add: pp_to_vec_def pp_structured_def)

end
