(* ===== verification/Reader_Recovery.thy ===== *)
theory Reader_Recovery
  imports Journal_File Offset_Chain
begin

text \<open>
  Reading a journal whose tail was lost, \<^verbatim>\<open>journal-core/src/file/reader_recovery.rs\<close>: the scan that finds
  the longest readable prefix of the entry array chain, the recovery state it installs, and the array
  accessor that the offset arrays use (theory \<open>Offset_Array\<close>), whose contract is discharged here.
\<close>

section \<open>Recovery state\<close>

definition recovery_status_default :: RecoveryStatus where
  "recovery_status_default =
     \<lparr>reason = NoRecovery, first_lost_offset = 0, declared_entries = 0, recovered_entries = 0\<rparr>"

definition incomplete :: "RecoveryStatus \<Rightarrow> bool" where
  "incomplete s \<longleftrightarrow> reason s \<noteq> NoRecovery"

definition make_reader_prefix ::
  "JournalFile \<Rightarrow> RecoveryReason \<Rightarrow> u64 \<Rightarrow> u64 \<Rightarrow> u64 option \<Rightarrow> RecoveredPrefix result" where
  "make_reader_prefix jf why lost count last_e =
     (let result = \<lparr>status = \<lparr>reason = why, first_lost_offset = lost,
                               declared_entries = n_entries (jf_header jf), recovered_entries = count\<rparr>,
                    last_entry = last_e, tail_seqnum = 0, tail_realtime = 0, tail_monotonic = 0,
                    tail_boot_id = replicate 16 0\<rparr>
      in case last_e of
           None \<Rightarrow> Ok result
         | Some off \<Rightarrow>
             rbind (slice_at (jf_bytes jf) off 64) (\<lambda>bytes.
               (let entry = entry_header_from_bytes bytes
                in Ok (result\<lparr>tail_seqnum := seqnum entry, tail_realtime := realtime entry,
                              tail_monotonic := monotonic entry, tail_boot_id := boot_id entry\<rparr>))))"

definition recovered_tail_metadata :: "JournalFile \<Rightarrow> (u64 \<times> u64 \<times> u64 \<times> u8 list) option" where
  "recovered_tail_metadata jf =
     map_option (\<lambda>p. (tail_seqnum p, tail_realtime p, tail_monotonic p, tail_boot_id p)) (recovery jf)"

definition set_reader_recovery :: "JournalFile \<Rightarrow> bool \<Rightarrow> JournalFile" where
  "set_reader_recovery jf enabled =
     (let jf1 = jf\<lparr>recovery_enabled := enabled\<rparr>
      in if \<not> enabled then jf1\<lparr>recovery := None\<rparr> else jf1)"

definition recovery_status :: "JournalFile \<Rightarrow> RecoveryStatus" where
  "recovery_status jf = (case recovery jf of None \<Rightarrow> recovery_status_default | Some p \<Rightarrow> status p)"

definition reader_entry_count :: "JournalFile \<Rightarrow> u64" where
  "reader_entry_count jf =
     (case recovery jf of None \<Rightarrow> n_entries (jf_header jf) | Some p \<Rightarrow> recovered_entries (status p))"

definition reader_recovery_active :: "JournalFile \<Rightarrow> bool" where
  "reader_recovery_active jf \<longleftrightarrow> recovery jf \<noteq> None"

definition take_reader_recovery_change :: "JournalFile \<Rightarrow> bool \<times> JournalFile" where
  "take_reader_recovery_change jf = (recovery_changed jf, jf\<lparr>recovery_changed := False\<rparr>)"

definition recovered_last_entry :: "JournalFile \<Rightarrow> u64 option option" where
  "recovered_last_entry jf = map_option last_entry (recovery jf)"

section \<open>Reading what is left of an array and of an entry\<close>

record ArrayPrefix =
  ap_next :: "u64 option"
  ap_available :: nat
  ap_capacity :: nat
  ap_partial :: bool

definition ends_after :: "u64 \<Rightarrow> u64 \<Rightarrow> u64 \<Rightarrow> bool" where
  "ends_after off n limit \<longleftrightarrow> (case checked_add off n of None \<Rightarrow> True | Some e \<Rightarrow> e > limit)"

definition recovery_array_prefix :: "JournalFile \<Rightarrow> u64 \<Rightarrow> u64 \<Rightarrow> ArrayPrefix option result" where
  "recovery_array_prefix jf off extent =
     (let h = jf_header jf
      in rbind (validate_offset_alignment off) (\<lambda>_.
         if off < header_size h then Err InvalidObjectLocation
         else
         rbind (ok_or (checked_add (header_size h) (arena_size h)) InvalidOffset) (\<lambda>arena_end.
         if ends_after off 24 arena_end then Err InvalidObjectLocation
         else if ends_after off 24 extent then Ok None
         else
         rbind (slice_at (jf_bytes jf) off 24) (\<lambda>bytes.
         let oh = object_header_from_bytes bytes; next = nonzero (u64_at bytes 16)
         in if list_all (\<lambda>b. b = 0) bytes then Ok None
            else if obj_type oh \<noteq> object_type_code EntryArray then Err InvalidObjectType
            else
            rbind (validated_size oh) (\<lambda>sz.
            let item_size = (if is_compact jf then 4 else 8)
            in if sz \<le> 24 \<or> (sz - 24) mod item_size \<noteq> 0 then Err (InvalidObjectSize sz)
               else
               rbind (ok_or (checked_add off sz) InvalidOffset) (\<lambda>e.
               if e > arena_end then Err InvalidObjectLocation
               else (let capacity = unat ((sz - 24) div item_size);
                         available = min (unat ((extent - off - 24) div item_size)) capacity
                     in Ok (Some \<lparr>ap_next = next, ap_available = available, ap_capacity = capacity,
                                  ap_partial = (e > extent)\<rparr>))))))))"

definition recovery_array_slot :: "JournalFile \<Rightarrow> u64 \<Rightarrow> nat \<Rightarrow> u64 option result" where
  "recovery_array_slot jf array index =
     (let item_size = (if is_compact jf then 4 else 8)
      in rbind (ok_or (Option.bind (checked_mul (of_nat index) item_size) (\<lambda>v.
                        Option.bind (checked_add array 24) (\<lambda>a. checked_add a v))) InvalidOffset) (\<lambda>off.
         rbind (slice_at (jf_bytes jf) off item_size) (\<lambda>bytes. Ok (nonzero (from_le bytes)))))"

definition recovery_entry_present :: "JournalFile \<Rightarrow> u64 \<Rightarrow> u64 \<Rightarrow> bool result" where
  "recovery_entry_present jf off extent =
     (let h = jf_header jf
      in rbind (validate_offset_alignment off) (\<lambda>_.
         if off < header_size h then Err InvalidObjectLocation
         else
         rbind (ok_or (checked_add (header_size h) (arena_size h)) InvalidOffset) (\<lambda>arena_end.
         if ends_after off 16 arena_end then Err InvalidObjectLocation
         else if ends_after off 16 extent then Ok False
         else
         rbind (slice_at (jf_bytes jf) off 16) (\<lambda>bytes.
         let oh = object_header_from_bytes bytes
         in if obj_type oh = 0 \<and> obj_size oh = 0
            then (if list_ex (\<lambda>b. b \<noteq> 0) bytes then Err InvalidObjectType else Ok False)
            else if obj_type oh \<noteq> object_type_code Entry then Err InvalidObjectType
            else
            rbind (validated_size oh) (\<lambda>sz.
            let item_size = (if is_compact jf then 4 else 16)
            in if sz < 64 \<or> (sz - 64) mod item_size \<noteq> 0 then Err (InvalidObjectSize sz)
               else
               rbind (ok_or (checked_add off sz) InvalidOffset) (\<lambda>e.
                 if e > arena_end then Err InvalidObjectLocation else Ok (e \<le> extent)))))))"

section \<open>The scan\<close>

text \<open>The mutable variables of \<open>discover_reader_prefix\<close> that one slot changes.\<close>

record Scan =
  sc_count :: u64
  sc_last :: "u64 option"
  sc_loss :: "(RecoveryReason \<times> u64) option"

definition get_or_insert :: "'a option \<Rightarrow> 'a \<Rightarrow> 'a option" where
  "get_or_insert x y = (case x of None \<Rightarrow> Some y | Some _ \<Rightarrow> x)"

definition scan_slot :: "JournalFile \<Rightarrow> u64 \<Rightarrow> u64 option \<Rightarrow> Scan \<Rightarrow> Scan result" where
  "scan_slot jf extent entry s =
     rbind (case entry of Some e \<Rightarrow> recovery_entry_present jf e extent | None \<Rightarrow> Ok False) (\<lambda>present.
       if present
       then (if sc_loss s \<noteq> None then Err InvalidObjectLocation
             else if (case sc_last s of None \<Rightarrow> False | Some previous \<Rightarrow> the entry \<le> previous)
             then Err InvalidObjectLocation
             else Ok (s\<lparr>sc_count := sc_count s + 1, sc_last := entry\<rparr>))
       else Ok (s\<lparr>sc_loss := get_or_insert (sc_loss s)
                              (MissingEntry, case entry of None \<Rightarrow> 0 | Some e \<Rightarrow> e)\<rparr>))"

fun scan_slots :: "JournalFile \<Rightarrow> u64 \<Rightarrow> u64 option list \<Rightarrow> Scan \<Rightarrow> Scan result" where
  "scan_slots jf extent [] s = Ok s"
| "scan_slots jf extent (entry # slots) s =
     rbind (scan_slot jf extent entry s) (\<lambda>s'. scan_slots jf extent slots s')"

text \<open>
  Slots are read through a buffer of 4096 bytes: \<open>step_by(slots.len() / item_size)\<close>, one read per
  step.
\<close>

function scan_array :: "JournalFile \<Rightarrow> u64 \<Rightarrow> u64 \<Rightarrow> nat \<Rightarrow> nat \<Rightarrow> Scan \<Rightarrow> Scan result" where
  "scan_array jf extent array_at available start s =
     (if available \<le> start then Ok s
      else (let item_size = (if is_compact jf then 4 else 8);
                per_read = 4096 div item_size;
                count_slots = min (available - start) per_read
            in rbind (slice_at (jf_bytes jf) (array_at + 24 + of_nat (start * item_size))
                        (of_nat (count_slots * item_size))) (\<lambda>bytes.
               rbind (scan_slots jf extent (map (\<lambda>c. nonzero (from_le c)) (chunks item_size bytes)) s) (\<lambda>s'.
                 scan_array jf extent array_at available (start + per_read) s'))))"
  by pat_completeness auto
termination
  by (relation "measure (\<lambda>(_, _, _, available, start, _). available - start)") auto

declare scan_array.simps [simp del]

text \<open>The closure given to \<open>reject_array_revisit\<close>.\<close>

definition recovery_next :: "JournalFile \<Rightarrow> u64 \<Rightarrow> u64 \<Rightarrow> u64 option result" where
  "recovery_next jf extent at =
     rbind (recovery_array_prefix jf at extent) (\<lambda>found.
       ok_or (map_option ap_next found) ObjectExceedsFileBounds)"

text \<open>\<open>Some(next) <= highest\<close>, otherwise \<open>highest\<close> moves.\<close>

definition check_link ::
  "JournalFile \<Rightarrow> u64 \<Rightarrow> u64 option \<Rightarrow> u64 \<Rightarrow> u64 \<Rightarrow> u64 option \<Rightarrow> u64 option result" where
  "check_link jf extent head array_at next highest =
     (if (case highest of None \<Rightarrow> False | Some hi \<Rightarrow> next \<le> hi)
      then (case head of
              None \<Rightarrow> Err Panic
            | Some first \<Rightarrow> rbind (reject_array_revisit first array_at next (recovery_next jf extent)) (\<lambda>_. Ok highest))
      else Ok (Some next))"

lemma word_dvd_mod:
  "(4 :: u64) dvd x \<longleftrightarrow> x mod 4 = 0" "(8 :: u64) dvd x \<longleftrightarrow> x mod 8 = 0"
  using take_bit_eq_0_iff [of 2 x] take_bit_eq_0_iff [of 3 x]
  unfolding take_bit_eq_mod by (simp_all only: power2_eq_square power3_eq_cube mult_numeral_1 numeral_times_numeral semiring_norm)

lemma recovery_array_prefix_capacity:
  assumes "recovery_array_prefix jf off extent = Ok (Some ap)"
  shows "0 < ap_capacity ap" and "ap_available ap \<le> ap_capacity ap"
proof -
  have w: "0 < unat (x div c)" if "0 < x" "c dvd x" "c = 4 \<or> c = 8" for x c :: u64
  proof (rule ccontr)
    assume "\<not> ?thesis"
    then have "x div c = 0" by (simp add: unat_eq_0)
    moreover have "x mod c = 0" using that(2,3) word_dvd_mod by blast
    ultimately have "x = 0" by (metis add.right_neutral mult_div_mod_eq mult_zero_right)
    with that(1) show False by simp
  qed
  have pos: "0 < sz - 24" if "24 < sz" for sz :: u64
    using that by (metis right_minus_eq word_gt_0 less_irrefl)
  from assms w [OF pos] show "0 < ap_capacity ap" "ap_available ap \<le> ap_capacity ap"
    unfolding recovery_array_prefix_def Let_def
    by (auto simp: rbind_eq_Ok ok_or_eq_Ok not_le split: if_splits)
qed

function discover_loop ::
  "JournalFile \<Rightarrow> u64 \<Rightarrow> u64 option \<Rightarrow> nat \<Rightarrow> u64 option \<Rightarrow> u64 option \<Rightarrow> Scan \<Rightarrow> RecoveredPrefix option result" where
  "discover_loop jf extent head remaining off highest s =
     (if remaining = 0
      then (case sc_loss s of
              None \<Rightarrow> Ok None
            | Some (why, lost) \<Rightarrow>
                rbind (make_reader_prefix jf why lost (sc_count s) (sc_last s)) (\<lambda>p. Ok (Some p)))
      else (case off of
              None \<Rightarrow>
                (case (case sc_loss s of None \<Rightarrow> (MissingEntryArray, 0) | Some l \<Rightarrow> l) of
                   (why, lost) \<Rightarrow>
                     rbind (make_reader_prefix jf why lost (sc_count s) (sc_last s)) (\<lambda>p. Ok (Some p)))
            | Some array_at \<Rightarrow>
                rbind (recovery_array_prefix jf array_at extent) (\<lambda>found.
                case found of
                  None \<Rightarrow>
                    (case (case sc_loss s of None \<Rightarrow> (MissingEntryArray, array_at) | Some l \<Rightarrow> l) of
                       (why, lost) \<Rightarrow>
                         rbind (make_reader_prefix jf why lost (sc_count s) (sc_last s)) (\<lambda>p. Ok (Some p)))
                | Some array \<Rightarrow>
                    (let wanted = min remaining (ap_capacity array);
                         available = min wanted (ap_available array)
                     in rbind (scan_array jf extent array_at available 0 s) (\<lambda>s1.
                        (let s2 = (if available < wanted \<or> ap_partial array
                                   then s1\<lparr>sc_loss := get_or_insert (sc_loss s1) (MissingEntryArray, array_at)\<rparr>
                                   else s1);
                             remaining' = remaining - wanted
                         in rbind (case ap_next array of
                                     Some next \<Rightarrow> (if remaining' > 0
                                                   then check_link jf extent head array_at next highest
                                                   else Ok highest)
                                   | None \<Rightarrow> Ok highest) (\<lambda>highest'.
                              discover_loop jf extent head remaining' (ap_next array) highest' s2)))))))"
  by pat_completeness auto
termination
  by (relation "measure (\<lambda>(_, _, _, remaining, _, _, _). remaining)")
    (auto dest: recovery_array_prefix_capacity)

declare discover_loop.simps [simp del]

text \<open>\<open>usize\<close> has 64 bits, so the conversion of \<open>n_entries\<close> does not fail; the extent is the file's length.\<close>

definition discover_reader_prefix :: "JournalFile \<Rightarrow> RecoveredPrefix option result" where
  "discover_reader_prefix jf =
     (let h = jf_header jf
      in discover_loop jf (of_nat (length (jf_bytes jf))) (entry_array_offset h) (unat (n_entries h))
           (entry_array_offset h) (entry_array_offset h) \<lparr>sc_count = 0, sc_last = None, sc_loss = None\<rparr>)"

definition recoverable :: "JournalError \<Rightarrow> bool" where
  "recoverable err =
     (case err of
        ObjectExceedsFileBounds \<Rightarrow> True
      | InvalidObjectSize sz \<Rightarrow> sz = 0
      | InvalidOffset \<Rightarrow> True
      | Io kind \<Rightarrow> kind = UnexpectedEof
      | _ \<Rightarrow> False)"

definition install_prefix :: "(JournalFile, bool) op" where
  "install_prefix jf =
     (case discover_reader_prefix jf of
        Inl e \<Rightarrow> (Err e, jf)
      | Inr next \<Rightarrow>
          (let changed = (next \<noteq> recovery jf); jf1 = jf\<lparr>recovery := next\<rparr>
           in (Ok changed, if changed then jf1\<lparr>recovery_changed := True\<rparr> else jf1)))"

definition recover_reader_tail :: "JournalError \<Rightarrow> (JournalFile, bool) op" where
  "recover_reader_tail err jf =
     (if \<not> recovery_enabled jf \<or> \<not> recoverable err then (Ok False, jf) else install_prefix jf)"

definition refresh_reader_recovery :: "(JournalFile, bool) op" where
  "refresh_reader_recovery jf =
     (if \<not> recovery_enabled jf \<or> recovery jf = None then (Ok False, jf) else install_prefix jf)"

section \<open>The array accessor of a reader\<close>

definition recovered_array_ref :: "JournalFile \<Rightarrow> u64 \<Rightarrow> OffsetArrayObject result" where
  "recovered_array_ref jf off =
     (let h = jf_header jf
      in rbind (validate_offset_alignment off) (\<lambda>_.
         rbind (ok_or (checked_add (header_size h) (arena_size h)) InvalidOffset) (\<lambda>arena_end.
         if off < header_size h \<or> ends_after off 24 arena_end then Err InvalidObjectLocation
         else
         rbind (slice_at (jf_bytes jf) off 24) (\<lambda>prefix.
         let oh = object_header_from_bytes prefix
         in rbind (validated_size oh) (\<lambda>sz.
            if ends_after off sz arena_end then Err InvalidObjectLocation
            else if obj_type oh \<noteq> object_type_code EntryArray then Err InvalidObjectType
            else (let item_size = (if is_compact jf then 4 else 8)
                  in if sz \<le> 24 \<or> (sz - 24) mod item_size \<noteq> 0 then Err (InvalidObjectSize sz)
                     else (let available = saturating_sub (of_nat (length (jf_bytes jf))) off;
                               len = min sz (24 + (saturating_sub available 24 div item_size) * item_size)
                           in rbind (slice_at (jf_bytes jf) off len) (\<lambda>bytes.
                              ok_or (offset_array_from_data bytes (is_compact jf)) ZerocopyFailure))))))))"

definition reader_offset_array_ref :: "JournalFile \<Rightarrow> array_ref" where
  "reader_offset_array_ref jf off =
     (if recovery jf = None then offset_array_ref jf off else recovered_array_ref jf off)"

definition entry_list :: "JournalFile \<Rightarrow> List option" where
  "entry_list jf =
     Option.bind (entry_array_offset (jf_header jf)) (\<lambda>head.
       if reader_entry_count jf = 0 then None
       else Some \<lparr>head_offset = head, total_items = unat (reader_entry_count jf)\<rparr>)"

definition entry_offsets :: "JournalFile \<Rightarrow> u64 list \<Rightarrow> u64 list result" where
  "entry_offsets jf offsets =
     (case entry_list jf of
        Some l \<Rightarrow> list_collect_offsets (reader_offset_array_ref jf) l offsets
      | None \<Rightarrow> Ok offsets)"

section \<open>Postings of a recovered file\<close>

text \<open>The loop over the slots of one array: the number of postings to return, or the state after it.\<close>

fun posting_slots ::
  "JournalFile \<Rightarrow> u64 \<Rightarrow> u64 \<Rightarrow> nat list \<Rightarrow> u64 \<Rightarrow> nat \<Rightarrow> (nat + u64 \<times> nat) result" where
  "posting_slots jf last_e at [] previous count = Ok (Inr (previous, count))"
| "posting_slots jf last_e at (index # indices) previous count =
     rbind (recovery_array_slot jf at index) (\<lambda>slot.
       case slot of
         None \<Rightarrow> if previous = last_e then Ok (Inl count) else Err InvalidOffset
       | Some entry \<Rightarrow>
           rbind (validate_offset_alignment entry) (\<lambda>_.
             if entry \<le> previous then Err InvalidOffset
             else if entry > last_e then Ok (Inl count)
             else posting_slots jf last_e at indices entry (count + 1)))"

function posting_loop ::
  "JournalFile \<Rightarrow> u64 \<Rightarrow> u64 \<Rightarrow> u64 \<Rightarrow> u64 option \<Rightarrow> nat \<Rightarrow> u64 \<Rightarrow> nat \<Rightarrow> u64 \<Rightarrow> nat result" where
  "posting_loop jf extent last_e head off remaining previous count highest =
     (if remaining = 0 then Ok count
      else (case off of
              None \<Rightarrow> if previous = last_e then Ok count else Err ObjectExceedsFileBounds
            | Some at \<Rightarrow>
                rbind (recovery_array_prefix jf at extent) (\<lambda>found.
                case found of
                  None \<Rightarrow> if previous = last_e then Ok count else Err ObjectExceedsFileBounds
                | Some array \<Rightarrow>
                    (let wanted = min remaining (ap_capacity array);
                         available = min wanted (ap_available array)
                     in rbind (posting_slots jf last_e at [0..<available] previous count) (\<lambda>step.
                        case step of
                          Inl n \<Rightarrow> Ok n
                        | Inr (previous', count') \<Rightarrow>
                            (if available < wanted
                             then (if previous' = last_e then Ok count' else Err ObjectExceedsFileBounds)
                             else (let remaining' = remaining - wanted
                                   in rbind (case ap_next array of
                                               Some next \<Rightarrow>
                                                 (if remaining' > 0
                                                  then (if next \<le> highest
                                                        then rbind (reject_array_revisit head at next (recovery_next jf extent))
                                                               (\<lambda>_. Ok highest)
                                                        else Ok next)
                                                  else Ok highest)
                                             | None \<Rightarrow> Ok highest) (\<lambda>highest'.
                                        posting_loop jf extent last_e head (ap_next array) remaining'
                                          previous' count' highest'))))))))"
  by pat_completeness auto
termination
  by (relation "measure (\<lambda>(_, _, _, _, _, remaining, _, _, _). remaining)")
    (auto dest: recovery_array_prefix_capacity)

declare posting_loop.simps [simp del]

definition recovered_posting_count :: "JournalFile \<Rightarrow> u64 \<Rightarrow> nat \<Rightarrow> u64 \<Rightarrow> nat result" where
  "recovered_posting_count jf head tot previous =
     (case recovery jf of
        None \<Rightarrow> Ok tot
      | Some prefix \<Rightarrow>
          (case last_entry prefix of
             None \<Rightarrow> Ok 0
           | Some last_e \<Rightarrow>
               posting_loop jf (of_nat (length (jf_bytes jf))) last_e head (Some head) tot previous 0 head))"

section \<open>The contract of the accessor\<close>

lemma offset_array_from_data_next: "offset_array_from_data bs c = Some a \<Longrightarrow> next_offset_array a \<noteq> Some 0"
  by (auto simp: offset_array_from_data_def Let_def split: if_splits)

lemma reader_offset_array_next:
  assumes "reader_offset_array_ref jf off = Ok a"
  shows "next_offset_array a \<noteq> Some 0"
proof (cases "recovery jf = None")
  case True
  with assms have "journal_object_ref EntryArray offset_array_from_data jf off = Ok a"
    by (simp add: reader_offset_array_ref_def offset_array_ref_def)
  then obtain bs where "offset_array_from_data bs (is_compact jf) = Some a"
    by (rule journal_object_ref_Ok) blast
  then show ?thesis by (rule offset_array_from_data_next)
next
  case False
  with assms have "recovered_array_ref jf off = Ok a" by (simp add: reader_offset_array_ref_def)
  then obtain bs where "offset_array_from_data bs (is_compact jf) = Some a"
    unfolding recovered_array_ref_def Let_def
    by (auto simp: rbind_eq_Ok ok_or_eq_Ok split: if_splits)
  then show ?thesis by (rule offset_array_from_data_next)
qed

interpretation reader_arrays: array_source "reader_offset_array_ref jf" for jf
  by unfold_locales (rule reader_offset_array_next)

section \<open>Buffered reading of slots\<close>

definition slot_value :: "JournalFile \<Rightarrow> u64 \<Rightarrow> nat \<Rightarrow> u64 option" where
  "slot_value jf array_at k =
     (let w = (if is_compact jf then 4 else 8)
      in nonzero (from_le (bytes_at (jf_bytes jf) (unat array_at + 24 + k * w) w)))"

lemma chunks_nth:
  assumes "0 < w" and "k * w + w \<le> length bs"
  shows "chunks w bs ! k = take w (drop (k * w) bs)"
  using assms(2)
proof (induction k arbitrary: bs)
  case 0
  then show ?case using assms(1) by (subst chunks.simps) auto
next
  case (Suc k)
  have "bs \<noteq> []" using Suc.prems assms(1) by auto
  with Suc.IH [of "drop w bs"] Suc.prems assms(1) show ?case
    by (subst chunks.simps) (simp add: add.commute)
qed

lemma chunks_bytes_at:
  assumes "0 < w" and "off + n * w \<le> length bs"
  shows "chunks w (bytes_at bs off (n * w)) = map (\<lambda>k. bytes_at bs (off + k * w) w) [0..<n]"
proof (rule nth_equalityI)
  have len: "length (bytes_at bs off (n * w)) = n * w" using assms(2) by (simp add: bytes_at_def)
  then show l: "length (chunks w (bytes_at bs off (n * w))) = length (map (\<lambda>k. bytes_at bs (off + k * w) w) [0..<n])"
    using length_chunks [OF assms(1), of "bytes_at bs off (n * w)"] assms(1) by simp
  fix k assume "k < length (chunks w (bytes_at bs off (n * w)))"
  then have k: "k < n" using l by simp
  then have kw: "k * w + w \<le> n * w" by (metis Suc_leI add.commute mult_Suc mult_le_mono1)
  then have "chunks w (bytes_at bs off (n * w)) ! k = take w (drop (k * w) (bytes_at bs off (n * w)))"
    by (intro chunks_nth [OF assms(1)]) (simp add: len)
  also have "\<dots> = bytes_at bs (off + k * w) w"
    using kw by (simp add: bytes_at_def drop_take min_def add.commute)
  finally show "chunks w (bytes_at bs off (n * w)) ! k = map (\<lambda>k. bytes_at bs (off + k * w) w) [0..<n] ! k"
    using k by simp
qed

lemma scan_slots_append:
  "scan_slots jf extent (xs @ ys) s = rbind (scan_slots jf extent xs s) (scan_slots jf extent ys)"
  by (induction xs arbitrary: s) (auto simp: rbind_assoc intro!: rbind_cong)

lemma unat_of_nat_less: "n < 2 ^ 64 \<Longrightarrow> unat (of_nat n :: u64) = n"
  by (simp add: unat_of_nat)

lemma unat_slot_offset:
  assumes "unat (at :: u64) + 24 + n < 2 ^ 64"
  shows "unat (at + 24 + of_nat n) = unat at + 24 + n"
proof -
  have n: "unat (of_nat n :: u64) = n" using assms by (simp add: unat_of_nat)
  have "unat (at + 24) = unat at + 24"
    using assms by (subst unat_add_lem [THEN iffD1]) auto
  with n assms show ?thesis by (subst unat_add_lem [THEN iffD1]) auto
qed

lemma scan_array_slots:
  assumes fits: "unat at + 24 + available * (if is_compact jf then 4 else 8) \<le> length (jf_bytes jf)"
    and len: "length (jf_bytes jf) < 2 ^ 64"
  shows "scan_array jf extent at available start s =
    scan_slots jf extent (map (slot_value jf at) [start..<available]) s"
proof (induction "available - start" arbitrary: start s rule: less_induct)
  case less
  define w :: nat where "w = (if is_compact jf then 4 else 8)"
  define per where "per = 4096 div w"
  define cs where "cs = min (available - start) per"
  have w: "0 < w" "0 < per" by (auto simp: w_def per_def)
  show ?case
  proof (cases "available \<le> start")
    case True
    then show ?thesis by (subst scan_array.simps) simp
  next
    case False
    have "start + cs \<le> available" using False by (auto simp: cs_def min_def)
    then have cw: "start * w + cs * w \<le> available * w"
      by (metis add_mult_distrib mult_le_mono1)
    then have bound: "unat at + 24 + start * w + cs * w \<le> length (jf_bytes jf)" using fits by (simp add: w_def)
    have off: "unat (at + 24 + of_nat (start * w)) = unat at + 24 + start * w"
      by (rule unat_slot_offset) (use bound len in linarith)
    have sz: "unat (of_nat (cs * w) :: u64) = cs * w"
      by (rule unat_of_nat_less) (use bound len in linarith)
    have slice: "slice_at (jf_bytes jf) (at + 24 + of_nat (start * w)) (of_nat (cs * w)) =
        Ok (bytes_at (jf_bytes jf) (unat at + 24 + start * w) (cs * w))"
      unfolding slice_at_def off sz using bound by simp
    have up: "[start..<start + cs] = map (\<lambda>i. i + start) [0..<cs]"
      by (simp only: map_add_upt) (simp add: add.commute)
    have vals: "map (\<lambda>c. nonzero (from_le c)) (chunks w (bytes_at (jf_bytes jf) (unat at + 24 + start * w) (cs * w)))
        = map (slot_value jf at) [start..<start + cs]"
      unfolding chunks_bytes_at [OF w(1) bound] up
      by (simp add: slot_value_def Let_def algebra_simps flip: w_def)
    have split: "[start..<available] = [start..<start + cs] @ [start + per..<available]"
    proof (cases "available - start \<le> per")
      case True
      with False have "cs = available - start" "available \<le> start + per" by (auto simp: cs_def)
      with False show ?thesis by simp
    next
      case F2: False
      then have "cs = per" by (simp add: cs_def)
      with F2 show ?thesis
        using upt_add_eq_append [of start "start + per" "available - (start + per)"] by simp
    qed
    have "scan_array jf extent at available (start + per) s' =
        scan_slots jf extent (map (slot_value jf at) [start + per..<available]) s'" for s'
      using False w(2) by (intro less.hyps) simp
    then show ?thesis
      using False slice vals
      by (subst scan_array.simps)
        (simp add: Let_def split scan_slots_append flip: w_def per_def cs_def cong: rbind_cong)
  qed
qed

lemma recovery_array_prefix_reach:
  assumes "recovery_array_prefix jf at extent = Ok (Some ap)"
  shows "ap_available ap \<le> unat ((extent - at - 24) div (if is_compact jf then 4 else 8))"
    and "\<not> ends_after at 24 extent"
  using assms unfolding recovery_array_prefix_def Let_def
  by (auto simp: rbind_eq_Ok ok_or_eq_Ok split: if_splits)

lemma recovery_array_prefix_fits:
  assumes ap: "recovery_array_prefix jf at extent = Ok (Some ap)"
    and ext: "extent = of_nat (length (jf_bytes jf))" and len: "length (jf_bytes jf) < 2 ^ 64"
  shows "unat at + 24 + ap_available ap * (if is_compact jf then 4 else 8) \<le> length (jf_bytes jf)"
proof -
  define c :: u64 where "c = (if is_compact jf then 4 else 8)"
  have e: "unat extent = length (jf_bytes jf)" using ext len by (simp add: unat_of_nat_less)
  note reach = recovery_array_prefix_reach [OF ap, folded c_def]
  obtain x where x: "checked_add at 24 = Some x" "x \<le> extent"
    using reach(2) by (auto simp: ends_after_def not_less split: option.splits)
  then have le: "unat at + 24 \<le> unat extent"
    using unat_checked_add [OF x(1)] by (simp add: word_le_nat_alt)
  have 1: "unat (extent - at) = unat extent - unat at"
    by (rule unat_sub) (use le in \<open>simp add: word_le_nat_alt\<close>)
  have 2: "unat (extent - at - 24) = unat (extent - at) - unat (24 :: u64)"
    by (rule unat_sub) (use le 1 in \<open>simp add: word_le_nat_alt\<close>)
  have "ap_available ap \<le> unat (extent - at - 24) div unat c"
    using reach(1) by (simp add: unat_div_distrib)
  then have "ap_available ap * unat c \<le> unat (extent - at - 24) div unat c * unat c"
    by (rule mult_le_mono1)
  also have "\<dots> \<le> unat (extent - at - 24)" by simp
  finally have "ap_available ap * unat c \<le> unat extent - unat at - 24" using 1 2 by simp
  moreover have "unat c = (if is_compact jf then 4 else 8)" by (simp add: c_def)
  ultimately show ?thesis using le e by simp
qed

section \<open>What the scan has established\<close>

definition slot_absent :: "JournalFile \<Rightarrow> u64 \<Rightarrow> u64 option \<Rightarrow> bool" where
  "slot_absent jf extent slot \<longleftrightarrow>
     (case slot of None \<Rightarrow> True | Some e \<Rightarrow> recovery_entry_present jf e extent = Ok False)"

text \<open>
  \<open>prefix_of jf extent slots es\<close>: the slots start with the present entries \<open>es\<close>, in increasing order,
  and every later slot is empty or refers to an entry that is not in the file.
\<close>

definition prefix_of :: "JournalFile \<Rightarrow> u64 \<Rightarrow> u64 option list \<Rightarrow> u64 list \<Rightarrow> bool" where
  "prefix_of jf extent slots es \<longleftrightarrow>
     length es \<le> length slots \<and> take (length es) slots = map Some es \<and> sorted_wrt (<) es \<and>
     (\<forall>e \<in> set es. recovery_entry_present jf e extent = Ok True) \<and>
     (\<forall>slot \<in> set (drop (length es) slots). slot_absent jf extent slot)"

definition last_of :: "u64 list \<Rightarrow> u64 option" where
  "last_of es = (if es = [] then None else Some (last es))"

definition scan_repr :: "JournalFile \<Rightarrow> u64 \<Rightarrow> u64 option list \<Rightarrow> Scan \<Rightarrow> bool" where
  "scan_repr jf extent slots s \<longleftrightarrow>
     (\<exists>es. prefix_of jf extent slots es \<and> sc_count s = of_nat (length es) \<and> sc_last s = last_of es \<and>
       (sc_loss s = None \<longrightarrow> length es = length slots)) \<and>
     (\<forall>why lost. sc_loss s = Some (why, lost) \<longrightarrow> why \<noteq> NoRecovery)"

lemma sorted_wrt_snoc: "sorted_wrt (<) es \<Longrightarrow> es = [] \<or> last es < e \<Longrightarrow> sorted_wrt (<) (es @ [e :: u64])"
proof (induction es)
  case (Cons x xs)
  show ?case
  proof (cases "xs = []")
    case True
    with Cons show ?thesis by simp
  next
    case False
    then have "x < last xs" "last xs < e" using Cons.prems by auto
    with Cons False less_trans [of x "last xs" e] show ?thesis by auto
  qed
qed simp

lemma scan_slot_repr:
  assumes r: "scan_repr jf extent slots s" and step: "scan_slot jf extent slot s = Ok s'"
  shows "scan_repr jf extent (slots @ [slot]) s'"
proof -
  obtain es where es: "prefix_of jf extent slots es" "sc_count s = of_nat (length es)" "sc_last s = last_of es"
    "sc_loss s = None \<Longrightarrow> length es = length slots"
    using r by (auto simp: scan_repr_def)
  obtain present where pr: "(case slot of Some e \<Rightarrow> recovery_entry_present jf e extent | None \<Rightarrow> Ok False) = Ok present"
    using step by (auto simp: scan_slot_def rbind_eq_Ok)
  show ?thesis
  proof (cases present)
    case True
    then obtain e where e: "slot = Some e" "recovery_entry_present jf e extent = Ok True"
      using pr by (auto split: option.splits)
    have noloss: "sc_loss s = None" and ord: "es = [] \<or> last es < e"
      and s': "s' = s\<lparr>sc_count := sc_count s + 1, sc_last := Some e\<rparr>"
      using step True e es(3) by (cases "sc_loss s"; auto simp: scan_slot_def last_of_def not_le split: if_splits)+
    then have full: "length es = length slots" using es(4) by simp
    have "prefix_of jf extent (slots @ [slot]) (es @ [e])"
      using es(1) full e sorted_wrt_snoc [OF _ ord] by (auto simp: prefix_of_def)
    then show ?thesis
      using s' noloss full es(2)
      by (auto simp: scan_repr_def last_of_def intro!: exI [of _ "es @ [e]"])
  next
    case False
    then have s': "s' = s\<lparr>sc_loss := get_or_insert (sc_loss s) (MissingEntry, case slot of None \<Rightarrow> 0 | Some e \<Rightarrow> e)\<rparr>"
      using step pr by (auto simp: scan_slot_def split: option.splits)
    have "slot_absent jf extent slot" using pr False by (auto simp: slot_absent_def split: option.splits)
    then have "prefix_of jf extent (slots @ [slot]) es" using es(1) by (auto simp: prefix_of_def)
    moreover have "sc_loss s' \<noteq> None" using s' by (auto simp: get_or_insert_def split: option.splits)
    moreover have "\<forall>why lost. sc_loss s' = Some (why, lost) \<longrightarrow> why \<noteq> NoRecovery"
      using s' r by (auto simp: get_or_insert_def scan_repr_def split: option.splits)
    ultimately show ?thesis using s' es(2,3) by (auto simp: scan_repr_def)
  qed
qed

lemma scan_slots_repr:
  "scan_repr jf extent slots s \<Longrightarrow> scan_slots jf extent new s = Ok s' \<Longrightarrow> scan_repr jf extent (slots @ new) s'"
proof (induction new arbitrary: slots s)
  case (Cons slot new)
  then obtain s1 where "scan_slot jf extent slot s = Ok s1" "scan_slots jf extent new s1 = Ok s'"
    by (auto simp: rbind_eq_Ok)
  with Cons.IH [of "slots @ [slot]" s1] scan_slot_repr [OF Cons.prems(1)] show ?case by simp
qed simp

lemma scan_repr_lost:
  assumes "scan_repr jf extent slots s"
  shows "scan_repr jf extent slots (s\<lparr>sc_loss := get_or_insert (sc_loss s) (MissingEntryArray, off)\<rparr>)"
  using assms by (auto simp: scan_repr_def get_or_insert_def split: option.splits)

lemma scan_slots_loss: "scan_slots jf extent slots s = Ok s' \<Longrightarrow> sc_loss s' = None \<Longrightarrow> sc_loss s = None"
proof (induction slots arbitrary: s)
  case (Cons slot slots)
  then obtain s1 where s1: "scan_slot jf extent slot s = Ok s1" "scan_slots jf extent slots s1 = Ok s'"
    by (auto simp: rbind_eq_Ok)
  with Cons have "sc_loss s1 = None" by blast
  then show ?case using s1(1)
    by (auto simp: scan_slot_def rbind_eq_Ok get_or_insert_def split: if_splits option.splits)
qed simp

lemma make_reader_prefix_fields:
  assumes "make_reader_prefix jf why lost count last_e = Ok p"
  shows "recovered_entries (status p) = count" and "last_entry p = last_e"
    and "declared_entries (status p) = n_entries (jf_header jf)" and "reason (status p) = why"
    and "first_lost_offset (status p) = lost"
  using assms by (auto simp: make_reader_prefix_def Let_def rbind_eq_Ok split: option.splits)

section \<open>The entries the file holds\<close>


text \<open>
  The entry list of a file as its bytes hold it, without the code of the scan.  An array has as many slots as
  its size field says; the file holds the slots that end inside it.  An array of which the file does not hold the
  24 bytes of the header, or only zeros, ends the list.
\<close>

definition item_bytes :: "JournalFile \<Rightarrow> nat" where
  "item_bytes jf = (if is_compact jf then 4 else 8)"

definition declared_slots :: "JournalFile \<Rightarrow> u64 \<Rightarrow> nat" where
  "declared_slots jf at = (unat (u64_at (jf_bytes jf) (unat at + 8)) - 24) div item_bytes jf"

definition held_slots :: "JournalFile \<Rightarrow> u64 \<Rightarrow> nat" where
  "held_slots jf at = min (declared_slots jf at) ((length (jf_bytes jf) - unat at - 24) div item_bytes jf)"

definition array_written :: "JournalFile \<Rightarrow> u64 \<Rightarrow> bool" where
  "array_written jf at \<longleftrightarrow>
     unat at + 24 \<le> length (jf_bytes jf) \<and> list_ex (\<lambda>b. b \<noteq> 0) (bytes_at (jf_bytes jf) (unat at) 24)"

function readable_slots :: "JournalFile \<Rightarrow> nat \<Rightarrow> u64 option \<Rightarrow> u64 option list" where
  "readable_slots jf remaining off =
     (case off of
        None \<Rightarrow> []
      | Some at \<Rightarrow>
          if remaining = 0 \<or> \<not> array_written jf at \<or> declared_slots jf at = 0 then []
          else map (slot_value jf at) [0..<min remaining (held_slots jf at)] @
               readable_slots jf (remaining - declared_slots jf at) (nonzero (u64_at (jf_bytes jf) (unat at + 16))))"
  by pat_completeness auto
termination
  by (relation "measure (\<lambda>(_, remaining, _). remaining)") auto

declare readable_slots.simps [simp del]

text \<open>An entry that is completely in the file, and the entries that a list of slots starts with.\<close>

definition entry_in_file :: "JournalFile \<Rightarrow> u64 \<Rightarrow> bool" where
  "entry_in_file jf e \<longleftrightarrow>
     unat e + 16 \<le> length (jf_bytes jf) \<and>
     (let oh = object_header_from_bytes (bytes_at (jf_bytes jf) (unat e) 16)
      in obj_type oh = object_type_code Entry \<and> 64 \<le> unat (obj_size oh) \<and> unat e + unat (obj_size oh) \<le> length (jf_bytes jf))"

definition slot_readable :: "JournalFile \<Rightarrow> u64 option \<Rightarrow> bool" where
  "slot_readable jf slot = (case slot of None \<Rightarrow> False | Some e \<Rightarrow> entry_in_file jf e)"

definition readable_entries :: "JournalFile \<Rightarrow> u64 list" where
  "readable_entries jf =
     map the (takeWhile (slot_readable jf)
       (readable_slots jf (unat (n_entries (jf_header jf))) (entry_array_offset (jf_header jf))))"

lemma ends_after_iff: "ends_after off n limit \<longleftrightarrow> unat limit < unat off + unat n"
proof (cases "unat off + unat n < 2 ^ 64")
  case True
  then show ?thesis by (simp add: ends_after_def checked_add_def word_less_nat_alt unat_word_ariths)
next
  case False
  then have "checked_add off n = None" by (simp add: checked_add_def)
  with False unat_u64_less [of limit] show ?thesis by (simp add: ends_after_def)
qed

lemma recovery_entry_present_file:
  assumes ext: "extent = of_nat (length (jf_bytes jf))" and len: "length (jf_bytes jf) < 2 ^ 64"
    and r: "recovery_entry_present jf e extent = Ok present"
  shows "present \<longleftrightarrow> entry_in_file jf e"
proof -
  have x: "unat extent = length (jf_bytes jf)" using ext len by (simp add: unat_of_nat_less)
  let ?oh = "object_header_from_bytes (bytes_at (jf_bytes jf) (unat e) 16)"
  show ?thesis
  proof (cases "ends_after e 16 extent")
    case True
    then have "length (jf_bytes jf) < unat e + 16" using x by (simp add: ends_after_iff)
    moreover have "\<not> present" using r True by (auto simp: recovery_entry_present_def Let_def rbind_eq_Ok split: if_splits)
    ultimately show ?thesis by (simp add: entry_in_file_def)
  next
    case False
    then have "slice_at (jf_bytes jf) e 16 = Ok (bytes_at (jf_bytes jf) (unat e) 16)" and le: "unat e + 16 \<le> length (jf_bytes jf)"
      using False x by (simp_all add: slice_at_def ends_after_iff)
    then have "obj_type ?oh = 0 \<and> obj_size ?oh = 0 \<and> \<not> present \<or>
        obj_type ?oh = object_type_code Entry \<and> 64 \<le> obj_size ?oh \<and>
        (\<exists>e'. checked_add e (obj_size ?oh) = Some e' \<and> present = (e' \<le> extent))"
      using r False
      by (auto simp: recovery_entry_present_def Let_def rbind_eq_Ok ok_or_eq_Ok validated_size_def not_less split: if_splits)
    then show ?thesis
      using le x unat_checked_add [of e "obj_size ?oh"]
      by (auto simp: entry_in_file_def Let_def word_le_nat_alt)
  qed
qed

lemma recovery_array_prefix_file:
  assumes ext: "extent = of_nat (length (jf_bytes jf))" and len: "length (jf_bytes jf) < 2 ^ 64"
    and r: "recovery_array_prefix jf at extent = Ok found"
  shows "case found of None \<Rightarrow> \<not> array_written jf at
    | Some ap \<Rightarrow> array_written jf at \<and> ap_capacity ap = declared_slots jf at \<and> ap_available ap = held_slots jf at \<and>
        ap_next ap = nonzero (u64_at (jf_bytes jf) (unat at + 16))"
proof -
  have x: "unat extent = length (jf_bytes jf)" using ext len by (simp add: unat_of_nat_less)
  let ?b = "bytes_at (jf_bytes jf) (unat at) 24"
  define c :: u64 where "c = (if is_compact jf then 4 else 8)"
  have c: "unat c = item_bytes jf" by (simp add: c_def item_bytes_def)
  show ?thesis
  proof (cases "ends_after at 24 extent")
    case True
    then have "length (jf_bytes jf) < unat at + 24" using x by (simp add: ends_after_iff)
    moreover have "found = None" using r True by (auto simp: recovery_array_prefix_def Let_def rbind_eq_Ok split: if_splits)
    ultimately show ?thesis by (simp add: array_written_def)
  next
    case False
    then have sl: "slice_at (jf_bytes jf) at 24 = Ok ?b" and le: "unat at + 24 \<le> length (jf_bytes jf)"
      using False x by (simp_all add: slice_at_def ends_after_iff)
    have v: "u64_at ?b 16 = u64_at (jf_bytes jf) (unat at + 16)" "obj_size (object_header_from_bytes ?b) = u64_at (jf_bytes jf) (unat at + 8)"
      by (simp_all add: u64_at_def bytes_at_bytes_at object_header_from_bytes_def)
    show ?thesis
    proof (cases "list_all (\<lambda>b. b = 0) ?b")
      case True
      then have "found = None" using r False sl by (auto simp: recovery_array_prefix_def Let_def rbind_eq_Ok split: if_splits)
      with True show ?thesis by (auto simp: array_written_def list_all_iff list_ex_iff)
    next
      case nz: False
      define sz where "sz = u64_at (jf_bytes jf) (unat at + 8)"
      have ap: "24 < sz \<and> (\<exists>p. found = Some \<lparr>ap_next = nonzero (u64_at (jf_bytes jf) (unat at + 16)),
          ap_available = min (unat ((extent - at - 24) div c)) (unat ((sz - 24) div c)),
          ap_capacity = unat ((sz - 24) div c), ap_partial = p\<rparr>)"
        using r False sl nz v
        by (auto simp: recovery_array_prefix_def Let_def rbind_eq_Ok ok_or_eq_Ok validated_size_def not_le c_def sz_def split: if_splits)
      have "unat (sz - 24) = unat sz - 24" using ap by (subst unat_sub) (auto simp: word_le_nat_alt word_less_nat_alt)
      moreover have "unat (extent - at) = unat extent - unat at"
        using le x by (intro unat_sub) (simp add: word_le_nat_alt)
      moreover from this have "unat (extent - at - 24) = unat extent - unat at - 24"
        using le x by (subst unat_sub) (auto simp: word_le_nat_alt)
      ultimately show ?thesis
        using ap nz le x c
        by (auto simp: array_written_def list_all_iff list_ex_iff declared_slots_def held_slots_def unat_div_distrib min.commute simp flip: sz_def)
    qed
  qed
qed

text \<open>What a discovered prefix stands for, among the slots that the file holds.\<close>

definition recovered_from :: "JournalFile \<Rightarrow> RecoveredPrefix option \<Rightarrow> u64 option list \<Rightarrow> u64 list \<Rightarrow> bool" where
  "recovered_from jf r slots es \<longleftrightarrow>
     prefix_of jf (of_nat (length (jf_bytes jf))) slots es \<and> length slots \<le> unat (n_entries (jf_header jf)) \<and>
     (case r of
        None \<Rightarrow> length es = unat (n_entries (jf_header jf))
      | Some p \<Rightarrow>
          unat (recovered_entries (status p)) = length es \<and> last_entry p = last_of es \<and>
          declared_entries (status p) = n_entries (jf_header jf) \<and> incomplete (status p) \<and>
          (es \<noteq> [] \<longrightarrow> (let e = entry_header_from_bytes (bytes_at (jf_bytes jf) (unat (last es)) 64) in
             tail_seqnum p = seqnum e \<and> tail_realtime p = realtime e \<and> tail_monotonic p = monotonic e \<and> tail_boot_id p = boot_id e)))"

lemma make_reader_prefix_tail:
  assumes "make_reader_prefix jf why lost count (Some off) = Ok p"
  shows "let e = entry_header_from_bytes (bytes_at (jf_bytes jf) (unat off) 64) in
    tail_seqnum p = seqnum e \<and> tail_realtime p = realtime e \<and> tail_monotonic p = monotonic e \<and> tail_boot_id p = boot_id e"
  using assms by (auto simp: make_reader_prefix_def Let_def rbind_eq_Ok slice_at_def split: if_splits)

lemma recovered_from_prefix:
  assumes repr: "scan_repr jf extent slots s" and ext: "extent = of_nat (length (jf_bytes jf))"
    and bound: "length slots \<le> unat (n_entries (jf_header jf))"
    and why: "sc_loss s = Some (why, lost) \<or> why = MissingEntryArray"
    and made: "make_reader_prefix jf why lost (sc_count s) (sc_last s) = Ok p"
  shows "\<exists>es. recovered_from jf (Some p) slots es"
proof -
  obtain es where es: "prefix_of jf extent slots es" "sc_count s = of_nat (length es)" "sc_last s = last_of es"
    using repr by (auto simp: scan_repr_def)
  have "length es \<le> unat (n_entries (jf_header jf))" using es(1) bound by (simp add: prefix_of_def)
  then have "length es < 2 ^ 64" using unat_u64_less [of "n_entries (jf_header jf)"] by linarith
  then have "unat (sc_count s) = length es" using es(2) by (simp add: unat_of_nat_less)
  moreover have "why \<noteq> NoRecovery" using why repr by (auto simp: scan_repr_def)
  moreover have "make_reader_prefix jf why lost (sc_count s) (Some (last es)) = Ok p" if "es \<noteq> []"
    using made es(3) that by (simp add: last_of_def)
  ultimately show ?thesis
    using es bound make_reader_prefix_fields [OF made] make_reader_prefix_tail [of jf why lost "sc_count s" "last es" p]
    by (auto simp: recovered_from_def incomplete_def simp flip: ext)
qed

lemma discover_loop_sound:
  assumes ext: "extent = of_nat (length (jf_bytes jf))" and len: "length (jf_bytes jf) < 2 ^ 64"
  shows "discover_loop jf extent head remaining off highest s = Ok r \<Longrightarrow>
    scan_repr jf extent slots s \<Longrightarrow>
    length slots + remaining \<le> unat (n_entries (jf_header jf)) \<Longrightarrow>
    (sc_loss s = None \<Longrightarrow> length slots + remaining = unat (n_entries (jf_header jf))) \<Longrightarrow>
    \<exists>es. recovered_from jf r (slots @ readable_slots jf remaining off) es"
proof (induction remaining arbitrary: off highest s slots rule: less_induct)
  case (less remaining)
  note run = less.prems(1) [unfolded discover_loop.simps [of jf extent head remaining]]
  have finish: "\<exists>es. recovered_from jf r slots es"
    if "rbind (make_reader_prefix jf why lost (sc_count s) (sc_last s)) (\<lambda>p. Ok (Some p)) = Ok r"
      "sc_loss s = Some (why, lost) \<or> why = MissingEntryArray" for why lost
    using that recovered_from_prefix [OF less.prems(2) ext _ that(2)] less.prems(3) by (auto simp: rbind_eq_Ok)
  show ?case
  proof (cases "remaining = 0")
    case True
    have none: "readable_slots jf 0 off = []" by (simp add: readable_slots.simps split: option.split)
    show ?thesis
    proof (cases "sc_loss s")
      case None
      obtain es where "prefix_of jf extent slots es" "length es = length slots"
        using less.prems(2) None by (auto simp: scan_repr_def)
      with run True None less.prems(4) ext show ?thesis
        by (intro exI [of _ es]) (simp add: recovered_from_def none True)
    next
      case (Some l)
      with run True finish show ?thesis by (cases l) (simp add: none True)
    qed
  next
    case False
    show ?thesis
    proof (cases "off = None \<or> (\<exists>at. off = Some at \<and> recovery_array_prefix jf at extent = Ok None)")
      case True
      then have "readable_slots jf remaining off = []"
        using recovery_array_prefix_file [OF ext len, of _ None] by (auto simp: readable_slots.simps)
      with True run False finish show ?thesis by (auto split: option.splits prod.splits)
    next
      case there: False
      then obtain at ap where off: "off = Some at" and ap: "recovery_array_prefix jf at extent = Ok (Some ap)"
        using run False by (cases off) (auto simp: rbind_eq_Ok split: option.splits)
      have held: "array_written jf at" "ap_capacity ap = declared_slots jf at" "ap_available ap = held_slots jf at"
          "ap_next ap = nonzero (u64_at (jf_bytes jf) (unat at + 16))"
        using recovery_array_prefix_file [OF ext len ap] by auto
      define wanted where "wanted = min remaining (ap_capacity ap)"
      define available where "available = min wanted (ap_available ap)"
      have w: "0 < wanted" "wanted \<le> remaining" "available \<le> wanted" "available \<le> ap_available ap"
        using recovery_array_prefix_capacity [OF ap] False by (auto simp: wanted_def available_def)
      obtain s1 highest' where s1: "scan_array jf extent at available 0 s = Ok s1"
        and rest: "discover_loop jf extent head (remaining - wanted) (ap_next ap) highest'
          (if available < wanted \<or> ap_partial ap
           then s1\<lparr>sc_loss := get_or_insert (sc_loss s1) (MissingEntryArray, at)\<rparr> else s1) = Ok r"
        using run False off ap by (auto simp: rbind_eq_Ok Let_def wanted_def available_def)
      let ?s2 = "if available < wanted \<or> ap_partial ap
           then s1\<lparr>sc_loss := get_or_insert (sc_loss s1) (MissingEntryArray, at)\<rparr> else s1"
      let ?slots = "slots @ map (slot_value jf at) [0..<available]"
      have fits: "unat at + 24 + available * (if is_compact jf then 4 else 8) \<le> length (jf_bytes jf)"
        using recovery_array_prefix_fits [OF ap ext len] w(4) mult_le_mono1 [OF w(4), of "if is_compact jf then 4 else 8"]
        by linarith
      then have sl: "scan_slots jf extent (map (slot_value jf at) [0..<available]) s = Ok s1"
        using s1 scan_array_slots [OF fits len] by simp
      have "scan_repr jf extent ?slots s1" by (rule scan_slots_repr [OF less.prems(2) sl])
      then have "scan_repr jf extent ?slots ?s2" by (simp add: scan_repr_lost)
      moreover have "length ?slots + (remaining - wanted) \<le> unat (n_entries (jf_header jf))"
        using less.prems(3) w by simp
      moreover have "length ?slots + (remaining - wanted) = unat (n_entries (jf_header jf))" if "sc_loss ?s2 = None"
      proof -
        have "\<not> available < wanted" "sc_loss s1 = None"
          using that by (auto simp: get_or_insert_def split: if_splits option.splits)
        with scan_slots_loss [OF sl] less.prems(4) w show ?thesis by simp
      qed
      ultimately obtain es where es: "recovered_from jf r (?slots @ readable_slots jf (remaining - wanted) (ap_next ap)) es"
        using less.IH [OF _ rest, of ?slots] w by auto
      have "available = min remaining (held_slots jf at)"
        by (simp add: available_def wanted_def held held_slots_def)
      moreover have "remaining - wanted = remaining - declared_slots jf at" by (simp add: wanted_def held)
      moreover have "declared_slots jf at \<noteq> 0" using recovery_array_prefix_capacity(1) [OF ap] held(2) by simp
      ultimately have "readable_slots jf remaining off =
          map (slot_value jf at) [0..<available] @ readable_slots jf (remaining - wanted) (ap_next ap)"
        using False held by (simp add: off readable_slots.simps [of jf remaining])
      then show ?thesis using es by auto
    qed
  qed
qed

lemma prefix_of_readable:
  assumes "prefix_of jf (of_nat (length (jf_bytes jf))) slots es" and "length (jf_bytes jf) < 2 ^ 64"
  shows "map the (takeWhile (slot_readable jf) slots) = es"
    "\<forall>slot \<in> set (drop (length es) slots). \<not> slot_readable jf slot"
proof -
  have p: "\<forall>e \<in> set es. entry_in_file jf e" "take (length es) slots = map Some es"
    using assms recovery_entry_present_file [OF refl assms(2), where present = True] by (auto simp: prefix_of_def)
  show q: "\<forall>slot \<in> set (drop (length es) slots). \<not> slot_readable jf slot"
    using assms(1) recovery_entry_present_file [OF refl assms(2), where present = False]
    by (auto simp: prefix_of_def slot_absent_def slot_readable_def split: option.splits)
  have "slots = map Some es @ drop (length es) slots" using p(2) by (metis append_take_drop_id)
  moreover have "takeWhile (slot_readable jf) (map Some es @ drop (length es) slots) = map Some es"
    using p(1) q by (cases "drop (length es) slots") (auto simp: takeWhile_append slot_readable_def)
  ultimately show "map the (takeWhile (slot_readable jf) slots) = es" by (metis (no_types, lifting) map_map map_idI comp_def option.sel)
qed

section \<open>Properties\<close>

text \<open>C34. Reading all entries is exact on every file: \<open>entry_offsets\<close> succeeds precisely when the entry array
  list of the header is stored in the file as a finite chain of distinct arrays with no empty slot among
  the declared entries, and then appends exactly the stored offsets, in order.\<close>

theorem entry_offsets_exact:
  assumes "entry_list jf = Some l" and "head_offset l \<noteq> 0"
  shows "entry_offsets jf offsets = Ok out \<longleftrightarrow>
    (\<exists>segs. chain_repr (reader_offset_array_ref jf) l segs \<and> out = offsets @ list_values segs)"
proof
  assume "entry_offsets jf offsets = Ok out"
  then have "list_collect_offsets (reader_offset_array_ref jf) l offsets = Ok out"
    using assms(1) by (simp add: entry_offsets_def)
  then show "\<exists>segs. chain_repr (reader_offset_array_ref jf) l segs \<and> out = offsets @ list_values segs"
    using reader_arrays.list_collect_offsets_sound [OF _ assms(2)] by metis
next
  assume "\<exists>segs. chain_repr (reader_offset_array_ref jf) l segs \<and> out = offsets @ list_values segs"
  then show "entry_offsets jf offsets = Ok out"
    using assms(1) list_collect_offsets_repr by (auto simp: entry_offsets_def)
qed

definition sample_entries_file :: JournalFile where
  "sample_entries_file = sample_file\<lparr>jf_header := (jf_header sample_file)\<lparr>entry_array_offset := Some 16, n_entries := 2\<rparr>\<rparr>"

lemma sample_parse_array:
  "offset_array_from_data ([6, 0, 0, 0, 0, 0, 0, 0, 40, 0, 0, 0, 0, 0, 0, 0] @ replicate 8 0 @
     [64, 0, 0, 0, 0, 0, 0, 0, 0, 1, 0, 0, 0, 0, 0, 0]) False =
   Some \<lparr>array_header = object_header_from_bytes ([6, 0, 0, 0, 0, 0, 0, 0, 40, 0, 0, 0, 0, 0, 0, 0] @ replicate 8 0),
         next_offset_array = None, items = Regular [Some 64, Some 256]\<rparr>"
proof -
  have zero: "horner_sum uint 256 (replicate n (0 :: u8)) = (0 :: int)" for n
    by (induction n) simp_all
  have "chunks 8 ([64, 0, 0, 0, 0, 0, 0, 0] @ [0, 1, 0, 0, 0, 0, 0, 0] @ []) =
      [[64, 0, 0, 0, 0, 0, 0, 0], [0, 1, 0, 0, 0, 0, 0, 0]]"
    by (simp add: chunks_append [of 8] del: append.simps append_Nil2)
  then have "chunks 8 [64, 0, 0, 0, 0, 0, 0, 0, 0, 1, 0, 0, 0, 0, 0, 0] =
      [[64, 0, 0, 0, 0, 0, 0, 0], [0, 1, 0, 0, 0, 0, 0, 0]]" by simp
  then show ?thesis
    by (simp add: offset_array_from_data_def Let_def u64_at_def bytes_at_def from_le_def nonzero_def zero)
qed

lemma sample_array_ref:
  "reader_offset_array_ref sample_entries_file 16 =
     Ok \<lparr>array_header = object_header_from_bytes ([6, 0, 0, 0, 0, 0, 0, 0, 40, 0, 0, 0, 0, 0, 0, 0] @ replicate 8 0),
         next_offset_array = None, items = Regular [Some 64, Some 256]\<rparr>"
proof -
  have "header_size (jf_header sample_entries_file) = 16" "arena_size (jf_header sample_entries_file) = 48"
    "jf_bytes sample_entries_file = jf_bytes sample_file" "recovery sample_entries_file = None"
    "is_compact sample_entries_file = False"
    by (simp_all add: sample_entries_file_def sample_file_def is_compact_def has_incompatible_flag_def sample_header_def)
  moreover have "checked_add 16 (40 :: u64) = Some 56" by (simp add: checked_add_def)
  ultimately show ?thesis
    using sample_parse_array
    by (simp add: reader_offset_array_ref_def offset_array_ref_def journal_object_ref_def sample_slices
        sample_object_header sample_aligned validated_size_def del: append.simps)
qed

theorem entry_offsets_exact_witness: "entry_offsets sample_entries_file [] = Ok [64, 256]"
proof -
  have l: "entry_list sample_entries_file = Some \<lparr>head_offset = 16, total_items = 2\<rparr>"
    by (simp add: entry_list_def sample_entries_file_def sample_file_def reader_entry_count_def)
  have "chain_repr (reader_offset_array_ref sample_entries_file) \<lparr>head_offset = 16, total_items = 2\<rparr> [(16, [64, 256])]"
    by (simp add: chain_repr_def sample_array_ref array_capacity_def upt_rec)
  then show ?thesis
    using entry_offsets_exact [OF l, of "[]" "[64, 256]"] by (auto simp: list_values_def)
qed

text \<open>No file can make the traversal of offset arrays revisit an array: whenever the chain of a list has
  been collected, its arrays have pairwise distinct offsets and hold exactly the declared number of items.\<close>

theorem node_chain_acyclic:
  assumes "node_chain (reader_offset_array_ref jf) l = Ok nodes" and "head_offset l \<noteq> 0"
  shows "distinct (map node_offset nodes) \<and> sum_list (map node_len nodes) = total_items l"
  using reader_arrays.node_chain_sound [OF assms] by blast

theorem node_chain_acyclic_witness:
  "\<exists>nodes. node_chain (reader_offset_array_ref sample_entries_file) \<lparr>head_offset = 16, total_items = 2\<rparr> = Ok nodes \<and>
     distinct (map node_offset nodes) \<and> sum_list (map node_len nodes) = 2"
proof -
  have "chain_repr (reader_offset_array_ref sample_entries_file) \<lparr>head_offset = 16, total_items = 2\<rparr> [(16, [64, 256])]"
    by (simp add: chain_repr_def sample_array_ref array_capacity_def upt_rec)
  then obtain nodes where n: "node_chain (reader_offset_array_ref sample_entries_file) \<lparr>head_offset = 16, total_items = 2\<rparr> = Ok nodes"
    by (rule node_chain_repr)
  with node_chain_acyclic [OF n] show ?thesis by simp
qed

text \<open>C35. Recovery finds exactly the readable prefix.  The slots of the entry list that the file holds are read off its
  bytes (\<open>readable_slots\<close>: array after array, as many slots as are declared and lie in the file, up to the declared number of
  entries), and the readable entries are the longest run at their start of entries that are completely in the file.
  When the scan succeeds, these entries have strictly increasing offsets, no slot after them
  holds an entry of the file, and the scan reports exactly their number, the last of them and its sequence number, boot id and times; it
  reports no loss only if they are all the declared entries.\<close>

theorem discovered_prefix_exact:
  assumes "discover_reader_prefix jf = Ok r" and "length (jf_bytes jf) < 2 ^ 64"
  shows "let es = readable_entries jf;
             slots = readable_slots jf (unat (n_entries (jf_header jf))) (entry_array_offset (jf_header jf))
    in sorted_wrt (<) es \<and> length es \<le> unat (n_entries (jf_header jf)) \<and>
       (\<forall>slot \<in> set (drop (length es) slots). \<not> slot_readable jf slot) \<and>
       (case r of
          None \<Rightarrow> length es = unat (n_entries (jf_header jf))
        | Some p \<Rightarrow>
            unat (recovered_entries (status p)) = length es \<and> last_entry p = last_of es \<and>
            declared_entries (status p) = n_entries (jf_header jf) \<and> incomplete (status p) \<and>
            (es \<noteq> [] \<longrightarrow> (let e = entry_header_from_bytes (bytes_at (jf_bytes jf) (unat (last es)) 64) in
               tail_seqnum p = seqnum e \<and> tail_realtime p = realtime e \<and> tail_monotonic p = monotonic e \<and> tail_boot_id p = boot_id e)))"
proof -
  let ?slots = "readable_slots jf (unat (n_entries (jf_header jf))) (entry_array_offset (jf_header jf))"
  have "\<exists>es. recovered_from jf r ([] @ ?slots) es"
  proof (rule discover_loop_sound [OF refl assms(2)])
    show "discover_loop jf (of_nat (length (jf_bytes jf))) (entry_array_offset (jf_header jf)) (unat (n_entries (jf_header jf)))
        (entry_array_offset (jf_header jf)) (entry_array_offset (jf_header jf)) \<lparr>sc_count = 0, sc_last = None, sc_loss = None\<rparr> = Ok r"
      using assms(1) by (simp add: discover_reader_prefix_def Let_def)
    show "scan_repr jf (of_nat (length (jf_bytes jf))) [] \<lparr>sc_count = 0, sc_last = None, sc_loss = None\<rparr>"
      by (auto simp: scan_repr_def prefix_of_def last_of_def)
  qed simp_all
  then obtain es where es: "recovered_from jf r ?slots es" by auto
  then have p: "prefix_of jf (of_nat (length (jf_bytes jf))) ?slots es" and b: "length ?slots \<le> unat (n_entries (jf_header jf))"
    by (simp_all add: recovered_from_def)
  have eq: "readable_entries jf = es" unfolding readable_entries_def by (rule prefix_of_readable(1) [OF p assms(2)])
  moreover have "sorted_wrt (<) es" "length es \<le> unat (n_entries (jf_header jf))" using p b by (auto simp: prefix_of_def)
  ultimately show ?thesis
    using es prefix_of_readable(2) [OF p assms(2)] by (simp add: recovered_from_def Let_def)
qed

text \<open>A file with an array of two slots, the first entry, and the end of the file before the second one.\<close>

definition sample_torn_file :: JournalFile where
  "sample_torn_file =
     sample_file\<lparr>jf_header := (jf_header sample_file)\<lparr>entry_array_offset := Some 16, n_entries := 2, arena_size := 1008\<rparr>,
       jf_bytes := jf_bytes sample_file @
         [3, 0, 0, 0, 0, 0, 0, 0, 64, 0, 0, 0, 0, 0, 0, 0] @ [9, 0, 0, 0, 0, 0, 0, 0] @ replicate 40 0\<rparr>"

lemma sample_torn_header:
  "length (jf_bytes sample_torn_file) = 128" "is_compact sample_torn_file = False"
  "header_size (jf_header sample_torn_file) = 16" "arena_size (jf_header sample_torn_file) = 1008"
  "entry_array_offset (jf_header sample_torn_file) = Some 16" "n_entries (jf_header sample_torn_file) = 2"
  by (simp_all add: sample_torn_file_def sample_file_def is_compact_def has_incompatible_flag_def sample_header_def)

lemma sample_torn_slices:
  "slice_at (jf_bytes sample_torn_file) 16 24 = Ok ([6, 0, 0, 0, 0, 0, 0, 0, 40, 0, 0, 0, 0, 0, 0, 0] @ replicate 8 0)"
  "slice_at (jf_bytes sample_torn_file) 40 16 = Ok [64, 0, 0, 0, 0, 0, 0, 0, 0, 1, 0, 0, 0, 0, 0, 0]"
  "slice_at (jf_bytes sample_torn_file) 64 16 = Ok [3, 0, 0, 0, 0, 0, 0, 0, 64, 0, 0, 0, 0, 0, 0, 0]"
  "slice_at (jf_bytes sample_torn_file) 64 64 =
     Ok ([3, 0, 0, 0, 0, 0, 0, 0, 64, 0, 0, 0, 0, 0, 0, 0] @ [9, 0, 0, 0, 0, 0, 0, 0] @ replicate 40 0)"
  by (simp_all add: slice_at_def sample_torn_file_def sample_file_def bytes_at_def)

lemma sample_torn_entry:
  "recovery_entry_present sample_torn_file 64 128 = Ok True" "recovery_entry_present sample_torn_file 256 128 = Ok False"
  by (simp_all add: recovery_entry_present_def sample_torn_header sample_torn_slices validate_offset_alignment_def checked_add_def
      ends_after_iff object_header_from_bytes_def u64_at_def bytes_at_def from_le_def validated_size_def Let_def)

lemma sample_torn_array:
  "recovery_array_prefix sample_torn_file 16 128 =
     Ok (Some \<lparr>ap_next = None, ap_available = 2, ap_capacity = 2, ap_partial = False\<rparr>)"
proof -
  have "horner_sum uint 256 (replicate 8 (0 :: u8)) = (0 :: int)" by (simp add: numeral_eq_Suc)
  then show ?thesis
    by (simp add: recovery_array_prefix_def sample_torn_header sample_torn_slices validate_offset_alignment_def checked_add_def
        ends_after_iff object_header_from_bytes_def u64_at_def bytes_at_def from_le_def validated_size_def Let_def nonzero_def)
qed

lemma sample_torn_scan:
  "scan_array sample_torn_file 128 16 2 0 \<lparr>sc_count = 0, sc_last = None, sc_loss = None\<rparr> =
     Ok \<lparr>sc_count = 1, sc_last = Some 64, sc_loss = Some (MissingEntry, 256)\<rparr>"
proof -
  have "chunks 8 ([64, 0, 0, 0, 0, 0, 0, 0] @ [0, 1, 0, 0, 0, 0, 0, 0] @ [] :: u8 list) =
      [[64, 0, 0, 0, 0, 0, 0, 0], [0, 1, 0, 0, 0, 0, 0, 0]]"
    by (simp add: chunks_append [of 8] del: append.simps append_Nil2)
  then have "chunks 8 ([64, 0, 0, 0, 0, 0, 0, 0, 0, 1, 0, 0, 0, 0, 0, 0] :: u8 list) =
      [[64, 0, 0, 0, 0, 0, 0, 0], [0, 1, 0, 0, 0, 0, 0, 0]]" by simp
  then show ?thesis
    by (simp add: scan_array.simps sample_torn_header sample_torn_slices sample_torn_entry scan_slot_def from_le_def nonzero_def
        get_or_insert_def)
qed

lemma sample_torn_discover:
  "\<exists>p. discover_reader_prefix sample_torn_file = Ok (Some p) \<and> recovered_entries (status p) = 1 \<and> last_entry p = Some 64 \<and> tail_seqnum p = 9"
  by (simp add: discover_reader_prefix_def discover_loop.simps sample_torn_header sample_torn_array sample_torn_scan make_reader_prefix_def
      sample_torn_slices entry_header_from_bytes_def u64_at_def bytes_at_def from_le_def)

theorem discovered_prefix_exact_witness:
  "readable_entries sample_torn_file = [64]"
proof -
  obtain p where p: "discover_reader_prefix sample_torn_file = Ok (Some p)" "recovered_entries (status p) = 1" "last_entry p = Some 64"
    using sample_torn_discover by blast
  have "length (jf_bytes sample_torn_file) < 2 ^ 64" by (simp add: sample_torn_header)
  from discovered_prefix_exact [OF p(1) this] p(2,3)
  have "length (readable_entries sample_torn_file) = 1" "last_of (readable_entries sample_torn_file) = Some 64"
    by (simp_all add: Let_def)
  then show ?thesis by (cases "readable_entries sample_torn_file") (auto simp: last_of_def)
qed

definition sample_lost_file :: JournalFile where
  "sample_lost_file = sample_file\<lparr>jf_header := (jf_header sample_file)\<lparr>entry_array_offset := None, n_entries := 2\<rparr>\<rparr>"

section \<open>Recovery reaches a fixed point\<close>

text \<open>The scan reads the header and the bytes only, not the recovery state that is installed.\<close>

definition same_data :: "JournalFile \<Rightarrow> JournalFile \<Rightarrow> bool" where
  "same_data a b \<longleftrightarrow> jf_header a = jf_header b \<and> jf_bytes a = jf_bytes b"

lemma same_fields:
  assumes "same_data a b"
  shows "jf_header a = jf_header b" and "jf_bytes a = jf_bytes b" and "is_compact a = is_compact b"
  using assms by (simp_all add: is_compact_def same_data_def)

lemma same_array_prefix: "same_data a b \<Longrightarrow> recovery_array_prefix a = recovery_array_prefix b"
  by (intro ext) (simp only: recovery_array_prefix_def same_fields)

lemma same_entry_present: "same_data a b \<Longrightarrow> recovery_entry_present a = recovery_entry_present b"
  by (intro ext) (simp only: recovery_entry_present_def same_fields)

lemma same_make_prefix: "same_data a b \<Longrightarrow> make_reader_prefix a = make_reader_prefix b"
  by (intro ext) (simp only: make_reader_prefix_def same_fields)

lemma same_scan_slot: "same_data a b \<Longrightarrow> scan_slot a = scan_slot b"
  by (intro ext) (simp only: scan_slot_def same_entry_present)

lemma same_scan_slots: "same_data a b \<Longrightarrow> scan_slots a extent slots = scan_slots b extent slots"
  by (induction slots) (auto intro!: ext simp: same_scan_slot)

lemma same_check_link: "same_data a b \<Longrightarrow> check_link a = check_link b"
  by (intro ext) (simp only: check_link_def recovery_next_def [abs_def] same_array_prefix)

lemma same_scan_array:
  assumes "same_data a b"
  shows "scan_array a extent at available start s = scan_array b extent at available start s"
proof (induction "available - start" arbitrary: start s rule: less_induct)
  case less
  show ?case
  proof (cases "available \<le> start")
    case False
    have "scan_array a extent at available (start + k) = scan_array b extent at available (start + k)"
      if "0 < k" for k
      using less.hyps [of "start + k"] that False by (intro ext) simp
    then show ?thesis
      by (subst (1 2) scan_array.simps) (simp add: same_fields [OF assms] same_scan_slots [OF assms] Let_def)
  qed (simp add: scan_array.simps)
qed

lemma same_discover_loop:
  assumes "same_data a b"
  shows "discover_loop a extent head n off highest s = discover_loop b extent head n off highest s"
proof (induction n arbitrary: off highest s rule: less_induct)
  case (less n)
  note same = same_array_prefix [OF assms] same_make_prefix [OF assms] same_check_link [OF assms]
    same_scan_array [OF assms]
  show ?case
  proof (cases "n = 0")
    case False
    then show ?thesis
      by (subst (1 2) discover_loop.simps)
        (auto simp: same Let_def split: option.split intro!: rbind_cong less.IH,
          (frule recovery_array_prefix_capacity(1), simp)+)
  qed (simp add: discover_loop.simps same split: option.split)
qed

lemma same_discover_reader_prefix:
  "same_data a b \<Longrightarrow> discover_reader_prefix a = discover_reader_prefix b"
  by (simp add: discover_reader_prefix_def same_fields same_discover_loop)

lemma recover_reader_tail_cases:
  assumes "recover_reader_tail err jf = (r, jf')"
  shows "same_data jf' jf" and "recovery_enabled jf' = recovery_enabled jf"
    and "r = Ok True \<Longrightarrow> recovery_enabled jf \<and> recoverable err \<and> discover_reader_prefix jf = Ok (recovery jf') \<and>
           recovery jf' \<noteq> recovery jf"
    and "r \<noteq> Ok True \<Longrightarrow> jf' = jf"
  using assms
  by (auto simp: recover_reader_tail_def install_prefix_def Let_def same_data_def split: sum.splits if_splits)

text \<open>
  C36. Recovery reaches a fixed point in one step: an attempt that reports no change, or fails, leaves the
  file untouched; one that reports a change has installed exactly the prefix the scan finds, touches
  neither the header nor the bytes, raises the change flag, and every later attempt, for whatever error,
  reports no change.  The retry loops of the reader therefore run at most one extra round per file state.
\<close>

theorem recover_reader_tail_fixpoint:
  assumes "recover_reader_tail err jf = (r, jf')"
  shows "if r = Ok True
    then discover_reader_prefix jf = Ok (recovery jf') \<and> recovery jf' \<noteq> recovery jf \<and> recovery_changed jf' \<and>
      same_data jf' jf \<and> (\<forall>err'. recover_reader_tail err' jf' = (Ok False, jf'))
    else jf' = jf"
proof (cases "r = Ok True")
  case True
  note c = recover_reader_tail_cases [OF assms]
  from c(1) have d: "discover_reader_prefix jf' = discover_reader_prefix jf"
    by (rule same_discover_reader_prefix)
  from True assms have "recovery_changed jf'"
    by (auto simp: recover_reader_tail_def install_prefix_def Let_def split: sum.splits if_splits)
  with True c d show ?thesis
    by (simp add: recover_reader_tail_def install_prefix_def)
qed (use recover_reader_tail_cases(4) [OF assms] in simp)

theorem recover_reader_tail_fixpoint_witness:
  "\<exists>jf'. recover_reader_tail InvalidOffset (sample_lost_file\<lparr>recovery_enabled := True\<rparr>) = (Ok True, jf') \<and>
     recover_reader_tail ObjectExceedsFileBounds jf' = (Ok False, jf')"
proof -
  let ?jf = "sample_lost_file\<lparr>recovery_enabled := True\<rparr>"
  have "\<exists>jf'. recover_reader_tail InvalidOffset ?jf = (Ok True, jf')"
    by (simp add: recover_reader_tail_def install_prefix_def recoverable_def discover_reader_prefix_def
        discover_loop.simps sample_lost_file_def sample_file_def make_reader_prefix_def)
  then show ?thesis
    using recover_reader_tail_fixpoint by (metis (no_types, lifting))
qed

end
