(* ===== verification/Inlined_Cursor.thy ===== *)
theory Inlined_Cursor
  imports Reader_Recovery
begin

text \<open>
  The postings of a data object, \<^verbatim>\<open>InlinedCursor\<close> of \<^verbatim>\<open>journal-core/src/file/offset_array.rs\<close>: the first
  entry is stored in the data object itself, the others in a list of offset arrays.  The cursor over
  both is a position in one sequence of offsets, \<open>ic_repr\<close>; every operation is shown to act on that
  position.  The construction of the cursor from a data object, with the part that cuts it down to the
  recovered prefix of the file, is in the second half.
\<close>

section \<open>The cursor\<close>

record InlinedCursor =
  inlined_offset :: u64
  ic_cursor :: "Cursor option"
  at_inlined_offset :: bool
  recovery_pending :: bool
  recovered_population :: bool
  position_pending :: bool
  filter_direction :: "Direction option"

definition ic_new :: "u64 \<Rightarrow> Cursor option \<Rightarrow> InlinedCursor" where
  "ic_new off cursor =
     \<lparr>inlined_offset = off, ic_cursor = cursor, at_inlined_offset = True, recovery_pending = False,
      recovered_population = False, position_pending = False, filter_direction = Some Forward\<rparr>"

definition ic_empty :: "InlinedCursor \<Rightarrow> InlinedCursor" where
  "ic_empty ic = ic\<lparr>ic_cursor := None, at_inlined_offset := False\<rparr>"

definition ic_is_empty :: "InlinedCursor \<Rightarrow> bool" where
  "ic_is_empty ic \<longleftrightarrow> \<not> at_inlined_offset ic \<and> ic_cursor ic = None"

definition ic_head :: "InlinedCursor \<Rightarrow> InlinedCursor" where
  "ic_head ic =
     (if ic_is_empty ic then ic\<lparr>filter_direction := Some Forward\<rparr>
      else \<lparr>inlined_offset = inlined_offset ic, ic_cursor = map_option cursor_head (ic_cursor ic),
            at_inlined_offset = True, recovery_pending = recovery_pending ic,
            recovered_population = recovered_population ic, position_pending = position_pending ic,
            filter_direction = Some Forward\<rparr>)"

definition ic_tail :: "array_ref \<Rightarrow> InlinedCursor \<Rightarrow> InlinedCursor result" where
  "ic_tail aref ic =
     rbind (case ic_cursor ic of
              Some cursor \<Rightarrow>
                rbind (cursor_at_tail aref (cursor_list cursor)) (\<lambda>t.
                  Ok (ic\<lparr>ic_cursor := Some t, at_inlined_offset := False\<rparr>))
            | None \<Rightarrow> Ok ic) (\<lambda>result.
       Ok (result\<lparr>filter_direction := Some Backward\<rparr>))"

definition ic_next :: "array_ref \<Rightarrow> InlinedCursor \<Rightarrow> InlinedCursor option result" where
  "ic_next aref ic =
     (if at_inlined_offset ic
      then (if ic_cursor ic \<noteq> None then Ok (Some (ic\<lparr>at_inlined_offset := False\<rparr>)) else Ok None)
      else (case ic_cursor ic of
              Some current_cursor \<Rightarrow>
                rbind (cursor_next aref current_cursor) (\<lambda>next_cursor.
                  if next_cursor \<noteq> None
                  then Ok (Some (ic\<lparr>ic_cursor := next_cursor, at_inlined_offset := False\<rparr>))
                  else Ok None)
            | None \<Rightarrow> Ok None))"

definition ic_previous :: "array_ref \<Rightarrow> InlinedCursor \<Rightarrow> InlinedCursor option result" where
  "ic_previous aref ic =
     (if at_inlined_offset ic then Ok None
      else (case ic_cursor ic of
              Some current_cursor \<Rightarrow>
                rbind (cursor_previous aref current_cursor) (\<lambda>prev.
                  case prev of
                    Some prev_cursor \<Rightarrow> Ok (Some (ic\<lparr>ic_cursor := Some prev_cursor\<rparr>))
                  | None \<Rightarrow> Ok (Some (ic\<lparr>at_inlined_offset := True\<rparr>)))
            | None \<Rightarrow> Ok None))"

definition ic_value :: "array_ref \<Rightarrow> InlinedCursor \<Rightarrow> u64 option result" where
  "ic_value aref ic =
     (if at_inlined_offset ic then Ok (Some (inlined_offset ic))
      else (case ic_cursor ic of Some cursor \<Rightarrow> cursor_value aref cursor | None \<Rightarrow> Ok None))"

definition prepare_filter_direction :: "array_ref \<Rightarrow> Direction \<Rightarrow> (InlinedCursor, unit) op" where
  "prepare_filter_direction aref direction ic =
     (if filter_direction ic \<noteq> Some direction
      then (case direction of
              Forward \<Rightarrow> (Ok (), ic_head ic)
            | Backward \<Rightarrow> (case ic_tail aref ic of Inl e \<Rightarrow> (Err e, ic) | Inr t \<Rightarrow> (Ok (), t)))
      else (Ok (), ic))"

text \<open>The search loop of \<open>seek_realtime\<close>, over the nodes of the list.\<close>

definition seek_predicate :: "u64 \<Rightarrow> Direction \<Rightarrow> u64 \<Rightarrow> bool result" where
  "seek_predicate needle direction off = Ok (off < needle \<or> direction = Backward \<and> off = needle)"

function seek_loop :: "array_ref \<Rightarrow> List \<Rightarrow> u64 \<Rightarrow> Direction \<Rightarrow> Node \<Rightarrow> (InlinedCursor, u64 option) op" where
  "seek_loop aref l needle direction n ic =
     (case partition_point aref n 0 (node_len n) (seek_predicate needle direction) of
        Inl e \<Rightarrow> (Err e, ic)
      | Inr index \<Rightarrow>
          if direction = Backward \<and> index = 0 then (ic_value aref ic, ic)
          else (let slot = (if direction = Backward \<or> index = node_len n then index - 1 else index);
                    selected = at_cached_position l n slot None None
                in case rbind (materialize_value aref selected) (\<lambda>m. ok_or m InvalidOffset) of
                     Inl e \<Rightarrow> (Err e, ic)
                   | Inr (selected', v) \<Rightarrow>
                       (let ic' = ic\<lparr>ic_cursor := Some selected', at_inlined_offset := False\<rparr>
                        in if index < node_len n then (Ok (Some v), ic')
                           else (case node_next aref n of
                                   Inl e \<Rightarrow> (Err e, ic')
                                 | Inr None \<Rightarrow> (Ok (if direction = Backward then Some v else None), ic')
                                 | Inr (Some m) \<Rightarrow> seek_loop aref l needle direction m ic'))))"
  by pat_completeness auto
termination
  by (relation "measure (\<lambda>(_, _, _, _, n, _). node_remaining n)") (auto dest: node_next_decreases)

declare seek_loop.simps [simp del]

definition ic_seek_realtime :: "array_ref \<Rightarrow> u64 \<Rightarrow> Direction \<Rightarrow> (InlinedCursor, u64 option) op" where
  "ic_seek_realtime aref needle direction ic0 =
     (let ic = (ic_head ic0)\<lparr>filter_direction := Some direction\<rparr>
      in if ic_is_empty ic then (Ok None, ic)
         else if direction = Forward \<and> needle \<le> inlined_offset ic then (Ok (Some (inlined_offset ic)), ic)
         else if direction = Backward \<and> needle < inlined_offset ic then (Ok None, ic)
         else (case ic_cursor ic of
                 None \<Rightarrow> (Ok (if direction = Backward then Some (inlined_offset ic) else None), ic)
               | Some cursor \<Rightarrow>
                   (case list_head aref (cursor_list cursor) of
                      Inl e \<Rightarrow> (Err e, ic)
                    | Inr n \<Rightarrow> seek_loop aref (cursor_list cursor) needle direction n ic)))"

text \<open>
  The loops of \<open>next_until\<close> and \<open>previous_until\<close> end on every file: a step forward moves to a later item
  of the same array or to an array with fewer items left (or further along the cached chain); a step
  backward moves to an earlier item or to an earlier array of the cached chain.
\<close>

definition arrays_left :: "Cursor \<Rightarrow> nat" where
  "arrays_left c =
     (case (cursor_chain c, node_index c) of
        (Some chain, Some i) \<Rightarrow> length chain - i
      | _ \<Rightarrow> (case cursor_node c of Some n \<Rightarrow> node_remaining n | None \<Rightarrow> cursor_remaining c))"

definition items_left :: "Cursor \<Rightarrow> nat" where
  "items_left c =
     (case cursor_node c of Some n \<Rightarrow> node_len n | None \<Rightarrow> cursor_remaining c) - array_index c"

definition forward_measure :: "InlinedCursor \<Rightarrow> nat \<times> nat \<times> nat" where
  "forward_measure ic =
     (if at_inlined_offset ic then 1 else 0,
      case ic_cursor ic of None \<Rightarrow> 0 | Some c \<Rightarrow> arrays_left c,
      case ic_cursor ic of None \<Rightarrow> 0 | Some c \<Rightarrow> items_left c)"

definition backward_measure :: "InlinedCursor \<Rightarrow> nat \<times> nat \<times> nat \<times> nat" where
  "backward_measure ic =
     (if at_inlined_offset ic then 0 else 1,
      case ic_cursor ic of
        None \<Rightarrow> (0, 0, 0)
      | Some c \<Rightarrow>
          (case (cursor_chain c, node_index c) of
             (Some chain, Some i) \<Rightarrow> (0, i, array_index c)
           | _ \<Rightarrow> (1, 0, array_index c)))"

abbreviation less3 :: "((nat \<times> nat \<times> nat) \<times> (nat \<times> nat \<times> nat)) set" where
  "less3 \<equiv> less_than <*lex*> less_than <*lex*> less_than"

lemma current_node_measure:
  assumes "current_node aref c = Ok n"
  shows "arrays_left c = (case (cursor_chain c, node_index c) of
      (Some chain, Some i) \<Rightarrow> length chain - i | _ \<Rightarrow> node_remaining n)"
    and "node_len n - array_index c \<le> items_left c"
  using assms
  by (auto simp: current_node_def arrays_left_def items_left_def node_new_def node_len_def Let_def rbind_eq_Ok
      split: option.splits if_splits)

lemma cursor_next_decreases:
  assumes "cursor_next aref c = Ok (Some c')"
  shows "((arrays_left c', items_left c'), (arrays_left c, items_left c)) \<in> less_than <*lex*> less_than"
proof -
  from assms obtain n where n: "current_node aref c = Ok n"
    and e: "(if array_index c + 1 < node_len n
             then Ok (Some (c\<lparr>array_index := array_index c + 1, cursor_node := Some n, cached_value := None\<rparr>))
             else cursor_next_array aref c n) = Ok (Some c')"
    by (auto simp: cursor_next_def rbind_eq_Ok)
  note m = current_node_measure [OF n]
  show ?thesis
  proof (cases "array_index c + 1 < node_len n")
    case True
    with e have c': "c' = c\<lparr>array_index := array_index c + 1, cursor_node := Some n, cached_value := None\<rparr>"
      by simp
    have "arrays_left c' = arrays_left c"
      unfolding m(1) c' by (simp add: arrays_left_def split: option.split)
    moreover have "items_left c' < items_left c"
      using m(2) True unfolding c' by (simp add: items_left_def)
    ultimately show ?thesis by simp
  next
    case False
    with e have "arrays_left c' < arrays_left c"
      unfolding m(1)
      by (auto simp: cursor_next_array_def rbind_eq_Ok ok_or_eq_Ok arrays_left_def dest: node_next_decreases
          split: option.splits if_splits)
    then show ?thesis by simp
  qed
qed

lemma ic_next_decreases:
  assumes "ic_next aref ic = Ok (Some ic')"
  shows "(forward_measure ic', forward_measure ic) \<in> less3"
  using assms
  by (auto simp: ic_next_def forward_measure_def rbind_eq_Ok dest!: cursor_next_decreases
      split: if_splits option.splits)

lemma cursor_previous_decreases:
  assumes "cursor_previous aref c = Ok (Some c')"
  shows "cursor_chain c' = cursor_chain c \<and> node_index c' = node_index c \<and> array_index c' < array_index c \<or>
    (\<exists>chain i. cursor_chain c' = Some chain \<and> node_index c' = Some i \<and>
       (case (cursor_chain c, node_index c) of (Some _, Some j) \<Rightarrow> i < j | _ \<Rightarrow> True))"
  using assms
  by (auto simp: cursor_previous_def node_chain_position_def rbind_eq_Ok Let_def split: if_splits option.splits)

lemma ic_previous_decreases:
  assumes "ic_previous aref ic = Ok (Some ic')"
  shows "(backward_measure ic', backward_measure ic) \<in> less_than <*lex*> less3"
  using assms
  by (auto simp: ic_previous_def backward_measure_def rbind_eq_Ok dest!: cursor_previous_decreases
      split: if_splits option.splits)

function next_until_loop :: "array_ref \<Rightarrow> u64 \<Rightarrow> (InlinedCursor, u64 option) op" where
  "next_until_loop aref off ic =
     (case ic_next aref ic of
        Inl e \<Rightarrow> (Err e, ic)
      | Inr None \<Rightarrow> (Ok None, ic)
      | Inr (Some ic') \<Rightarrow>
          (case ic_value aref ic' of
             Inl e \<Rightarrow> (Err e, ic')
           | Inr None \<Rightarrow> (Ok None, ic')
           | Inr (Some current_offset) \<Rightarrow>
               if off \<le> current_offset then (Ok (Some current_offset), ic') else next_until_loop aref off ic'))"
  by pat_completeness auto
termination
  by (relation "inv_image less3 (\<lambda>(_, _, ic). forward_measure ic)") (auto dest: ic_next_decreases)

function previous_until_loop :: "array_ref \<Rightarrow> u64 \<Rightarrow> (InlinedCursor, u64 option) op" where
  "previous_until_loop aref off ic =
     (case ic_previous aref ic of
        Inl e \<Rightarrow> (Err e, ic)
      | Inr None \<Rightarrow> (Ok None, ic)
      | Inr (Some ic') \<Rightarrow>
          (case ic_value aref ic' of
             Inl e \<Rightarrow> (Err e, ic')
           | Inr None \<Rightarrow> (Ok None, ic')
           | Inr (Some current_offset) \<Rightarrow>
               if current_offset \<le> off then (Ok (Some current_offset), ic') else previous_until_loop aref off ic'))"
  by pat_completeness auto
termination
  by (relation "inv_image (less_than <*lex*> less3) (\<lambda>(_, _, ic). backward_measure ic)")
    (auto dest: ic_previous_decreases)

declare next_until_loop.simps [simp del] previous_until_loop.simps [simp del]

definition next_until :: "array_ref \<Rightarrow> u64 \<Rightarrow> (InlinedCursor, u64 option) op" where
  "next_until aref off ic =
     (case ic_value aref ic of
        Inl e \<Rightarrow> (Err e, ic)
      | Inr None \<Rightarrow> (Ok None, ic)
      | Inr (Some current_offset) \<Rightarrow>
          if off \<le> current_offset then (Ok (Some current_offset), ic) else next_until_loop aref off ic)"

definition previous_until :: "array_ref \<Rightarrow> u64 \<Rightarrow> (InlinedCursor, u64 option) op" where
  "previous_until aref off ic =
     (case ic_value aref ic of
        Inl e \<Rightarrow> (Err e, ic)
      | Inr None \<Rightarrow> (Ok None, ic)
      | Inr (Some current_offset) \<Rightarrow>
          if current_offset \<le> off then (Ok (Some current_offset), ic) else previous_until_loop aref off ic)"

definition inlined_partition_candidate ::
  "InlinedCursor \<Rightarrow> (u64 \<Rightarrow> bool result) \<Rightarrow> Direction \<Rightarrow> InlinedCursor option result" where
  "inlined_partition_candidate ic predicate direction =
     rbind (predicate (inlined_offset ic)) (\<lambda>predicate_matches.
       Ok (if direction = Forward \<and> \<not> predicate_matches \<or> direction = Backward \<and> predicate_matches
           then Some (ic_head ic) else None))"

definition array_partition_candidate ::
  "array_ref \<Rightarrow> InlinedCursor \<Rightarrow> (u64 \<Rightarrow> bool result) \<Rightarrow> Direction \<Rightarrow> InlinedCursor option result" where
  "array_partition_candidate aref ic predicate direction =
     (case ic_cursor ic of
        None \<Rightarrow> Ok None
      | Some cursor \<Rightarrow>
          rbind (list_directed_partition_point aref (cursor_list cursor) predicate direction) (\<lambda>found.
            case found of
              None \<Rightarrow> Ok None
            | Some cursor \<Rightarrow> Ok (Some (ic\<lparr>ic_cursor := Some cursor, at_inlined_offset := False\<rparr>))))"

text \<open>The comparison of \<open>Option\<close>s: \<open>None\<close> is below every \<open>Some\<close>.\<close>

fun option_less :: "u64 option \<Rightarrow> u64 option \<Rightarrow> bool" where
  "option_less None y = (y \<noteq> None)"
| "option_less (Some a) None = False"
| "option_less (Some a) (Some b) = (a < b)"

definition best_directed_match ::
  "array_ref \<Rightarrow> InlinedCursor \<Rightarrow> InlinedCursor \<Rightarrow> Direction \<Rightarrow> InlinedCursor result" where
  "best_directed_match aref best candidate direction =
     rbind (ic_value aref best) (\<lambda>best_offset.
     rbind (ic_value aref candidate) (\<lambda>candidate_offset.
       (let candidate_is_better =
              (case direction of
                 Forward \<Rightarrow> option_less candidate_offset best_offset
               | Backward \<Rightarrow> option_less best_offset candidate_offset)
        in Ok (if candidate_is_better then candidate else best))))"

definition ic_directed_partition_point ::
  "array_ref \<Rightarrow> InlinedCursor \<Rightarrow> (u64 \<Rightarrow> bool result) \<Rightarrow> Direction \<Rightarrow> InlinedCursor option result" where
  "ic_directed_partition_point aref ic predicate direction =
     (if ic_is_empty ic then Ok None
      else rbind (inlined_partition_candidate ic predicate direction) (\<lambda>inlined_match.
           rbind (array_partition_candidate aref ic predicate direction) (\<lambda>array_match.
           rbind (case (inlined_match, array_match) of
                    (Some best, Some array) \<Rightarrow> rbind (best_directed_match aref best array direction) (\<lambda>m. Ok (Some m))
                  | (Some best, None) \<Rightarrow> Ok (Some best)
                  | (None, Some array) \<Rightarrow> Ok (Some array)
                  | (None, None) \<Rightarrow> Ok None) (\<lambda>result.
             Ok (map_option (\<lambda>ic. ic\<lparr>filter_direction := Some direction\<rparr>) result)))))"

definition ic_collect_offsets :: "array_ref \<Rightarrow> InlinedCursor \<Rightarrow> u64 list \<Rightarrow> u64 list result" where
  "ic_collect_offsets aref ic offsets =
     (if at_inlined_offset ic
      then (let offsets = offsets @ [inlined_offset ic]
            in case ic_cursor ic of
                 Some cursor \<Rightarrow> list_collect_offsets aref (cursor_list cursor) offsets
               | None \<Rightarrow> Ok offsets)
      else (case ic_cursor ic of
              Some cursor \<Rightarrow> cursor_collect_offsets aref cursor offsets
            | None \<Rightarrow> Ok offsets))"

section \<open>The cursor of a data object\<close>

definition inlined_cursor :: "DataObjectHeader \<Rightarrow> InlinedCursor option" where
  "inlined_cursor data =
     Option.bind (data_entry_offset data) (\<lambda>off.
     Option.bind (data_n_entries data) (\<lambda>n.
     Option.bind (if n = 1 then Some None
                  else if unat n - 1 = 0 then None
                  else Option.bind (data_entry_array_offset data) (\<lambda>array_at.
                         Some (Some (cursor_at_head \<lparr>head_offset = array_at, total_items = unat n - 1\<rparr>)))) (\<lambda>cursor.
       Some (ic_new off cursor))))"

definition for_reader :: "InlinedCursor \<Rightarrow> (JournalFile, InlinedCursor option) op" where
  "for_reader ic jf =
     (case recovered_last_entry jf of
        None \<Rightarrow> (Ok (Some ic), jf)
      | Some last_e \<Rightarrow>
          (let jf' = jf\<lparr>filter_recovery_seen := True\<rparr>; ic = ic\<lparr>recovered_population := True\<rparr>
           in case last_e of
                None \<Rightarrow> (Ok (Some (ic_empty ic)), jf')
              | Some last_at \<Rightarrow>
                  if last_at < inlined_offset ic then (Ok (Some (ic_empty ic)), jf')
                  else
                    (rbind (case ic_cursor ic of
                              Some cursor \<Rightarrow>
                                (let l = cursor_list cursor
                                 in rbind (recovered_posting_count jf' (head_offset l) (total_items l) (inlined_offset ic))
                                      (\<lambda>count. Ok (if count = 0 then None
                                                   else Some (cursor_at_head \<lparr>head_offset = head_offset l, total_items = count\<rparr>))))
                            | None \<Rightarrow> Ok None) (\<lambda>cursor.
                       Ok (Some ((ic_new (inlined_offset ic) cursor)
                         \<lparr>recovery_pending := recovery_pending ic, recovered_population := True,
                          position_pending := position_pending ic\<rparr>))), jf')))"

definition reader_inlined_cursor :: "JournalFile \<Rightarrow> DataObjectHeader \<Rightarrow> InlinedCursor option result" where
  "reader_inlined_cursor jf data =
     (case inlined_cursor data of
        Some cursor \<Rightarrow> Ok (Some cursor)
      | None \<Rightarrow>
          if data_n_entries data = None
          then (if data_entry_offset data = None then Ok None else Err InvalidOffset)
          else rbind (ok_or (data_entry_offset data) InvalidOffset) (\<lambda>first.
                 if reader_recovery_active jf \<and>
                    (case Option.bind (recovered_last_entry jf) id of None \<Rightarrow> True | Some last_e \<Rightarrow> last_e \<le> first)
                 then Ok (Some (ic_new first None))
                 else Err ObjectExceedsFileBounds))"

definition build_data_cursor :: "u64 \<Rightarrow> (JournalFile, InlinedCursor option) op" where
  "build_data_cursor off jf =
     (case rbind (data_ref jf off) (\<lambda>data. reader_inlined_cursor jf (data_header data)) of
        Inr (Some cursor) \<Rightarrow>
          if recovered_last_entry jf = None then (Ok (Some cursor), jf) else for_reader cursor jf
      | result \<Rightarrow> (result, jf))"

definition reader_data_cursor :: "u64 \<Rightarrow> (JournalFile, InlinedCursor option) op" where
  "reader_data_cursor off jf =
     (case build_data_cursor off jf of
        (Inr cursor, jf') \<Rightarrow> (Ok cursor, jf')
      | (Inl err, jf') \<Rightarrow>
          sbind (recover_reader_tail err) (\<lambda>recovered.
            if recovered then build_data_cursor off else sfail err) jf')"

definition data_object_directed_partition_point ::
  "u64 \<Rightarrow> (u64 \<Rightarrow> bool result) \<Rightarrow> Direction \<Rightarrow> (JournalFile, u64 option) op" where
  "data_object_directed_partition_point data_offset predicate direction =
     sbind (reader_data_cursor data_offset) (\<lambda>found.
       case found of
         None \<Rightarrow> sret None
       | Some cursor \<Rightarrow>
           sbind (sget reader_offset_array_ref) (\<lambda>aref.
           sbind (slift (ic_directed_partition_point aref cursor predicate direction)) (\<lambda>best.
             case best of
               None \<Rightarrow> sret None
             | Some best_match \<Rightarrow> slift (ic_value aref best_match))))"

section \<open>The cursor as a position\<close>

text \<open>
  \<open>ic_repr aref vs k ic\<close>: the cursor stands at item \<open>k\<close> of the sequence of offsets \<open>vs\<close>, whose first item
  is the inlined one; the empty sequence is the emptied cursor.
\<close>

definition ic_repr :: "array_ref \<Rightarrow> u64 list \<Rightarrow> nat \<Rightarrow> InlinedCursor \<Rightarrow> bool" where
  "ic_repr aref vs k ic \<longleftrightarrow>
     (if ic_is_empty ic then vs = []
      else (case ic_cursor ic of
              None \<Rightarrow> vs = [inlined_offset ic] \<and> k = 0
            | Some c \<Rightarrow>
                (\<exists>segs. chain_repr aref (cursor_list c) segs \<and> vs = inlined_offset ic # list_values segs \<and>
                   (if at_inlined_offset ic then k = 0 \<and> cursor_repr aref (cursor_list c) segs 0 c
                    else 0 < k \<and> cursor_repr aref (cursor_list c) segs (k - 1) c))))"

text \<open>What a step keeps: everything but the position.\<close>

definition same_flags :: "InlinedCursor \<Rightarrow> InlinedCursor \<Rightarrow> bool" where
  "same_flags ic ic' \<longleftrightarrow>
     filter_direction ic' = filter_direction ic \<and> recovery_pending ic' = recovery_pending ic \<and>
     recovered_population ic' = recovered_population ic \<and> position_pending ic' = position_pending ic"

lemma same_flags_refl [simp]: "same_flags ic ic"
  by (simp add: same_flags_def)

lemma same_flags_trans: "same_flags a b \<Longrightarrow> same_flags b c \<Longrightarrow> same_flags a c"
  by (simp add: same_flags_def)

lemma ic_repr_cases:
  assumes "ic_repr aref vs k ic"
  obtains (empty) "vs = []" and "\<not> at_inlined_offset ic" and "ic_cursor ic = None"
  | (single) "vs = [inlined_offset ic]" and "k = 0" and "at_inlined_offset ic" and "ic_cursor ic = None"
  | (inlined) c segs where "ic_cursor ic = Some c" and "at_inlined_offset ic" and "k = 0"
      and "chain_repr aref (cursor_list c) segs" and "vs = inlined_offset ic # list_values segs"
      and "cursor_repr aref (cursor_list c) segs 0 c"
  | (array) c segs j where "ic_cursor ic = Some c" and "\<not> at_inlined_offset ic" and "k = Suc j"
      and "chain_repr aref (cursor_list c) segs" and "vs = inlined_offset ic # list_values segs"
      and "cursor_repr aref (cursor_list c) segs j c"
  using assms that
  by (cases "ic_cursor ic"; cases "at_inlined_offset ic"; cases k) (auto simp: ic_repr_def ic_is_empty_def)

lemma cursor_repr_list: "cursor_repr aref l segs k c \<Longrightarrow> cursor_list c = l"
  by (auto simp: cursor_repr_def cursor_at_def)

lemma chain_repr_values: "chain_repr aref l segs \<Longrightarrow> length (list_values segs) = total_items l"
  by (auto simp: chain_repr_def dest: chain_ok_length)

lemma ic_reprI:
  assumes "ic_cursor ic = Some c" and "chain_repr aref l segs" and "cursor_repr aref l segs j c"
    and "vs = inlined_offset ic # list_values segs"
    and "if at_inlined_offset ic then k = 0 \<and> j = 0 else k = Suc j"
  shows "ic_repr aref vs k ic"
  using assms cursor_repr_list [OF assms(3)]
  by (auto simp: ic_repr_def ic_is_empty_def split: if_splits)

lemma ic_repr_less: "ic_repr aref vs k ic \<Longrightarrow> vs \<noteq> [] \<Longrightarrow> k < length vs"
  by (erule ic_repr_cases) (auto simp: chain_repr_values dest: cursor_repr_less)

lemma ic_repr_empty_iff: "ic_repr aref vs k ic \<Longrightarrow> ic_is_empty ic \<longleftrightarrow> vs = []"
  by (erule ic_repr_cases) (auto simp: ic_is_empty_def)

lemma ic_repr_update [simp]:
  "ic_repr aref vs k (ic\<lparr>filter_direction := d\<rparr>) = ic_repr aref vs k ic"
  "ic_repr aref vs k (ic\<lparr>recovery_pending := b\<rparr>) = ic_repr aref vs k ic"
  "ic_repr aref vs k (ic\<lparr>recovered_population := b\<rparr>) = ic_repr aref vs k ic"
  "ic_repr aref vs k (ic\<lparr>position_pending := b\<rparr>) = ic_repr aref vs k ic"
  by (simp_all add: ic_repr_def ic_is_empty_def split: option.split)

lemma ic_value_repr:
  "ic_repr aref vs k ic \<Longrightarrow> ic_value aref ic = Ok (if vs = [] then None else Some (vs ! k))"
  by (erule ic_repr_cases) (auto simp: ic_value_def cursor_value_repr)

lemma ic_next_repr:
  assumes "ic_repr aref vs k ic"
  shows "if Suc k < length vs
    then \<exists>ic'. ic_next aref ic = Ok (Some ic') \<and> ic_repr aref vs (Suc k) ic' \<and> same_flags ic ic'
    else ic_next aref ic = Ok None"
  using assms
proof (cases rule: ic_repr_cases)
  case (inlined c segs)
  let ?ic = "ic\<lparr>at_inlined_offset := False\<rparr>"
  have "ic_repr aref vs (Suc 0) ?ic"
    by (rule ic_reprI [of ?ic c aref "cursor_list c" segs 0]) (use inlined in auto)
  moreover have "0 < length (list_values segs)"
    using inlined cursor_repr_less chain_repr_values by fastforce
  ultimately show ?thesis
    using inlined by (simp add: ic_next_def same_flags_def)
next
  case (array c segs j)
  let ?ic = "\<lambda>c'. ic\<lparr>ic_cursor := Some c', at_inlined_offset := False\<rparr>"
  have "ic_repr aref vs (Suc (Suc j)) (?ic c')" if "cursor_repr aref (cursor_list c) segs (Suc j) c'" for c'
    by (rule ic_reprI [of "?ic c'" c' aref "cursor_list c" segs "Suc j"]) (use array that in auto)
  with cursor_next_repr [OF array(4,6)] array show ?thesis
    by (auto simp: ic_next_def chain_repr_values same_flags_def)
qed (simp_all add: ic_next_def)

lemma ic_previous_repr:
  assumes "ic_repr aref vs k ic" and "vs \<noteq> []"
  shows "if 0 < k
    then \<exists>ic'. ic_previous aref ic = Ok (Some ic') \<and> ic_repr aref vs (k - 1) ic' \<and> same_flags ic ic'
    else ic_previous aref ic = Ok None"
  using assms(1)
proof (cases rule: ic_repr_cases)
  case (array c segs j)
  let ?ic = "\<lambda>c'. ic\<lparr>ic_cursor := Some c'\<rparr>"
  let ?in = "ic\<lparr>at_inlined_offset := True\<rparr>"
  have a: "ic_repr aref vs j (?ic c')" if "cursor_repr aref (cursor_list c) segs (j - 1) c'" "0 < j" for c'
    by (rule ic_reprI [of "?ic c'" c' aref "cursor_list c" segs "j - 1"]) (use array that in auto)
  have i: "ic_repr aref vs 0 ?in" if "j = 0"
    by (rule ic_reprI [of ?in c aref "cursor_list c" segs 0]) (use array that in auto)
  from cursor_previous_repr [OF array(4,6)] array a i show ?thesis
    by (cases "0 < j") (auto simp: ic_previous_def same_flags_def)
qed (use assms in \<open>simp_all add: ic_previous_def\<close>)

lemma ic_head_repr:
  assumes "ic_repr aref vs k ic"
  shows "ic_repr aref vs 0 (ic_head ic)" and "filter_direction (ic_head ic) = Some Forward"
    and "ic_is_empty (ic_head ic) = ic_is_empty ic"
proof -
  show "ic_repr aref vs 0 (ic_head ic)"
    using assms
  proof (cases rule: ic_repr_cases)
    case (inlined c segs)
    show ?thesis
      by (rule ic_reprI [of _ "cursor_head c" aref "cursor_list c" segs 0])
        (use inlined cursor_head_repr [OF inlined(4,6)] in \<open>auto simp: ic_head_def ic_is_empty_def\<close>)
  next
    case (array c segs j)
    show ?thesis
      by (rule ic_reprI [of _ "cursor_head c" aref "cursor_list c" segs 0])
        (use array cursor_head_repr [OF array(4,6)] in \<open>auto simp: ic_head_def ic_is_empty_def\<close>)
  qed (auto simp: ic_head_def ic_repr_def ic_is_empty_def)
qed (auto simp: ic_head_def ic_is_empty_def)

lemma ic_tail_repr:
  assumes "ic_repr aref vs k ic"
  shows "\<exists>ic'. ic_tail aref ic = Ok ic' \<and> ic_repr aref vs (length vs - 1) ic' \<and>
    filter_direction ic' = Some Backward"
proof -
  have "\<exists>ic'. ic_tail aref ic = Ok ic' \<and> ic_repr aref vs (length vs - 1) ic' \<and> filter_direction ic' = Some Backward"
    if c: "ic_cursor ic = Some c" and r: "chain_repr aref (cursor_list c) segs"
      and vs: "vs = inlined_offset ic # list_values segs" for c segs
  proof -
    obtain t where t: "cursor_at_tail aref (cursor_list c) = Ok t"
      and tr: "cursor_repr aref (cursor_list c) segs (total_items (cursor_list c) - 1) t"
      using cursor_at_tail_repr [OF r] by blast
    let ?ic = "ic\<lparr>ic_cursor := Some t, at_inlined_offset := False, filter_direction := Some Backward\<rparr>"
    have "ic_repr aref vs (length vs - 1) ?ic"
      by (rule ic_reprI [OF _ r tr]) (use vs chain_repr_values [OF r] cursor_repr_less [OF r tr] in auto)
    with c t show ?thesis by (simp add: ic_tail_def)
  qed
  with assms show ?thesis
    by (cases rule: ic_repr_cases) (auto simp: ic_tail_def ic_repr_def ic_is_empty_def)
qed

lemma ic_collect_offsets_repr:
  "ic_repr aref vs k ic \<Longrightarrow> ic_collect_offsets aref ic offsets = Ok (offsets @ drop k vs)"
  by (erule ic_repr_cases)
    (auto simp: ic_collect_offsets_def list_collect_offsets_repr cursor_collect_offsets_repr)

section \<open>Searching from a position\<close>

text \<open>The outcome of a forward search from item \<open>k\<close>: the first item from there on that is not below \<open>off\<close>.\<close>

definition first_from :: "u64 list \<Rightarrow> nat \<Rightarrow> u64 \<Rightarrow> u64 option \<Rightarrow> nat \<Rightarrow> bool" where
  "first_from vs k off r k' \<longleftrightarrow>
     k \<le> k' \<and> (\<forall>i < length vs. k \<le> i \<and> i < k' \<longrightarrow> vs ! i < off) \<and>
     (case r of
        Some v \<Rightarrow> k' < length vs \<and> v = vs ! k' \<and> off \<le> v
      | None \<Rightarrow> \<forall>i < length vs. k \<le> i \<longrightarrow> vs ! i < off)"

definition last_upto :: "u64 list \<Rightarrow> nat \<Rightarrow> u64 \<Rightarrow> u64 option \<Rightarrow> nat \<Rightarrow> bool" where
  "last_upto vs k off r k' \<longleftrightarrow>
     k' \<le> k \<and> (\<forall>i < length vs. i \<le> k \<and> k' < i \<longrightarrow> off < vs ! i) \<and>
     (case r of
        Some v \<Rightarrow> k' < length vs \<and> v = vs ! k' \<and> v \<le> off
      | None \<Rightarrow> \<forall>i < length vs. i \<le> k \<longrightarrow> off < vs ! i)"

lemma first_from_here: "k < length vs \<Longrightarrow> off \<le> vs ! k \<Longrightarrow> first_from vs k off (Some (vs ! k)) k"
  by (auto simp: first_from_def)

lemma last_upto_here: "k < length vs \<Longrightarrow> vs ! k \<le> off \<Longrightarrow> last_upto vs k off (Some (vs ! k)) k"
  by (auto simp: last_upto_def)

lemma first_from_step:
  assumes "first_from vs (Suc k) off r k'" and "vs ! k < off"
  shows "first_from vs k off r k'"
proof -
  have "vs ! i < off" if "i < length vs" "k \<le> i" "i < k'" for i
    using that assms by (cases "i = k") (auto simp: first_from_def)
  moreover have "vs ! i < off" if "r = None" "i < length vs" "k \<le> i" for i
    using that assms by (cases "i = k") (auto simp: first_from_def)
  ultimately show ?thesis
    using assms(1) by (auto simp: first_from_def split: option.splits)
qed

lemma last_upto_step:
  assumes "last_upto vs (k - 1) off r k'" and "off < vs ! k" and "0 < k"
  shows "last_upto vs k off r k'"
proof -
  have "off < vs ! i" if "i < length vs" "i \<le> k" "k' < i" for i
    using that assms by (cases "i = k") (auto simp: last_upto_def)
  moreover have "off < vs ! i" if "r = None" "i < length vs" "i \<le> k" for i
    using that assms by (cases "i = k") (auto simp: last_upto_def)
  ultimately show ?thesis
    using assms(1) by (auto simp: last_upto_def split: option.splits)
qed

lemma next_until_loop_repr:
  assumes "ic_repr aref vs k ic" and "vs \<noteq> []" and "vs ! k < off"
  shows "\<exists>r ic' k'. next_until_loop aref off ic = (Ok r, ic') \<and> ic_repr aref vs k' ic' \<and> same_flags ic ic' \<and>
    first_from vs k off r k'"
  using assms
proof (induction "length vs - k" arbitrary: k ic rule: less_induct)
  case less
  note less.prems(1)
  note nx = ic_next_repr [OF this]
  show ?case
  proof (cases "Suc k < length vs")
    case False
    with nx less.prems have "next_until_loop aref off ic = (Ok None, ic) \<and> first_from vs k off None k"
      by (auto simp: next_until_loop.simps first_from_def) (metis less_trans_Suc linorder_neqE_nat not_less)
    with less.prems(1) same_flags_refl show ?thesis by blast
  next
    case True
    then obtain ic1 where ic1: "ic_next aref ic = Ok (Some ic1)" "ic_repr aref vs (Suc k) ic1" "same_flags ic ic1"
      using nx by auto
    note v = ic_value_repr [OF ic1(2)]
    show ?thesis
    proof (cases "off \<le> vs ! Suc k")
      case True
      then have "next_until_loop aref off ic = (Ok (Some (vs ! Suc k)), ic1)"
        using ic1 v less.prems(2) by (simp add: next_until_loop.simps)
      moreover have "first_from vs k off (Some (vs ! Suc k)) (Suc k)"
        using first_from_step first_from_here \<open>Suc k < length vs\<close> True less.prems(3) by blast
      ultimately show ?thesis using ic1 by blast
    next
      case False
      then have "next_until_loop aref off ic = next_until_loop aref off ic1"
        using ic1 v less.prems(2) by (subst next_until_loop.simps) simp
      moreover obtain r ic' k' where "next_until_loop aref off ic1 = (Ok r, ic')" "ic_repr aref vs k' ic'"
        "same_flags ic1 ic'" "first_from vs (Suc k) off r k'"
        using less.hyps [OF _ ic1(2) less.prems(2)] False \<open>Suc k < length vs\<close>
        by (metis diff_less_mono2 lessI not_le Suc_lessD)
      ultimately show ?thesis
        using first_from_step less.prems(3) ic1(3) same_flags_trans by metis
    qed
  qed
qed

lemma next_until_repr:
  assumes r: "ic_repr aref vs k ic"
  obtains r ic' k' where "next_until aref off ic = (Ok r, ic')" and "ic_repr aref vs k' ic'"
    and "same_flags ic ic'" and "first_from vs k off r k'"
proof (cases "vs = []")
  case True
  with ic_value_repr [OF r] have "next_until aref off ic = (Ok None, ic)"
    by (simp add: next_until_def)
  with True r show thesis
    using that [of None ic k] by (simp add: first_from_def)
next
  case False
  note v = ic_value_repr [OF r] ic_repr_less [OF r False]
  show thesis
  proof (cases "off \<le> vs ! k")
    case True
    with v False r show thesis
      using that [of "Some (vs ! k)" ic k] by (simp add: next_until_def first_from_here)
  next
    case no: False
    with v False have "next_until aref off ic = next_until_loop aref off ic"
      by (simp add: next_until_def)
    with next_until_loop_repr [OF r False, of off] no that show thesis
      by (auto simp: not_le)
  qed
qed

lemma previous_until_loop_repr:
  assumes "ic_repr aref vs k ic" and "vs \<noteq> []" and "off < vs ! k"
  shows "\<exists>r ic' k'. previous_until_loop aref off ic = (Ok r, ic') \<and> ic_repr aref vs k' ic' \<and> same_flags ic ic' \<and>
    last_upto vs k off r k'"
  using assms
proof (induction k arbitrary: ic rule: less_induct)
  case (less k)
  note nx = ic_previous_repr [OF less.prems(1,2)]
  show ?case
  proof (cases "0 < k")
    case False
    with nx less.prems have "previous_until_loop aref off ic = (Ok None, ic) \<and> last_upto vs k off None k"
      by (auto simp: previous_until_loop.simps last_upto_def)
    with less.prems(1) same_flags_refl show ?thesis by blast
  next
    case True
    then obtain ic1 where ic1: "ic_previous aref ic = Ok (Some ic1)" "ic_repr aref vs (k - 1) ic1" "same_flags ic ic1"
      using nx by auto
    note v = ic_value_repr [OF ic1(2)]
    show ?thesis
    proof (cases "vs ! (k - 1) \<le> off")
      case le: True
      then have "previous_until_loop aref off ic = (Ok (Some (vs ! (k - 1))), ic1)"
        using ic1 v less.prems(2) by (simp add: previous_until_loop.simps)
      moreover have "last_upto vs (k - 1) off (Some (vs ! (k - 1))) (k - 1)"
        using le ic_repr_less [OF less.prems(1,2)] by (simp add: last_upto_here)
      note last_upto_step [OF this less.prems(3) True]
      ultimately show ?thesis using ic1 by blast
    next
      case False
      then have "previous_until_loop aref off ic = previous_until_loop aref off ic1"
        using ic1 v less.prems(2) by (subst previous_until_loop.simps) simp
      moreover obtain r ic' k' where "previous_until_loop aref off ic1 = (Ok r, ic')" "ic_repr aref vs k' ic'"
        "same_flags ic1 ic'" "last_upto vs (k - 1) off r k'"
        using less.IH [OF _ ic1(2)] less.prems(2) False True by (auto simp: not_le)
      ultimately show ?thesis
        using last_upto_step [OF _ less.prems(3) True] ic1(3) same_flags_trans by metis
    qed
  qed
qed

lemma previous_until_repr:
  assumes r: "ic_repr aref vs k ic"
  obtains r ic' k' where "previous_until aref off ic = (Ok r, ic')" and "ic_repr aref vs k' ic'"
    and "same_flags ic ic'" and "last_upto vs k off r k'"
proof (cases "vs = []")
  case True
  with ic_value_repr [OF r] have "previous_until aref off ic = (Ok None, ic)"
    by (simp add: previous_until_def)
  with True r show thesis
    using that [of None ic k] by (simp add: last_upto_def)
next
  case False
  note v = ic_value_repr [OF r] ic_repr_less [OF r False]
  show thesis
  proof (cases "vs ! k \<le> off")
    case True
    with v False r show thesis
      using that [of "Some (vs ! k)" ic k] by (simp add: previous_until_def last_upto_here)
  next
    case no: False
    with v False have "previous_until aref off ic = previous_until_loop aref off ic"
      by (simp add: previous_until_def)
    with previous_until_loop_repr [OF r False, of off] no that show thesis
      by (auto simp: not_le)
  qed
qed

section \<open>Seeking in a sorted posting list\<close>

lemma threshold_takeWhile:
  assumes "sorted_wrt (<) vs" and "\<And>x y. P y \<Longrightarrow> x < y \<Longrightarrow> P x"
  shows "threshold (\<lambda>v. Ok (P v)) vs (length (takeWhile P vs))"
proof -
  let ?t = "length (takeWhile P vs)"
  have "P (vs ! k) \<longleftrightarrow> k < ?t" if "k < length vs" for k
  proof
    assume p: "P (vs ! k)"
    show "k < ?t"
    proof (rule ccontr)
      assume "\<not> k < ?t"
      then have "?t < length vs" and "\<not> P (vs ! ?t)" and "?t \<le> k"
        using that nth_length_takeWhile [of P vs] by auto
      moreover have "P (vs ! ?t)"
        using p assms(2) [OF p] sorted_wrt_nth_less [OF assms(1), of ?t k] that \<open>?t \<le> k\<close>
        by (cases "?t = k") auto
      ultimately show False by simp
    qed
  next
    assume "k < ?t"
    then show "P (vs ! k)" by (metis nth_mem set_takeWhileD takeWhile_nth)
  qed
  then show ?thesis
    by (simp add: threshold_def length_takeWhile_le list_all_iff)
qed

definition seek_before :: "u64 \<Rightarrow> Direction \<Rightarrow> u64 \<Rightarrow> bool" where
  "seek_before needle direction off \<longleftrightarrow> off < needle \<or> direction = Backward \<and> off = needle"

lemma seek_predicate_threshold:
  assumes "sorted_wrt (<) vs"
  shows "threshold (seek_predicate needle direction) vs (length (takeWhile (seek_before needle direction) vs))"
proof -
  have "seek_predicate needle direction = (\<lambda>v. Ok (seek_before needle direction v))"
    by (intro ext) (simp add: seek_predicate_def seek_before_def)
  then show ?thesis
    using threshold_takeWhile [OF assms, of "seek_before needle direction"]
    unfolding seek_before_def by (metis (mono_tags, lifting) order_less_trans)
qed

text \<open>One array of the loop: what it selects, and what it leaves to the next array.\<close>

lemma seek_select:
  assumes r: "chain_repr aref l segs" and n: "seg_node aref l segs i n" and j: "j < length (snd (segs ! i))"
  obtains c where "materialize_value aref (at_cached_position l n j None None) =
      Ok (Some (c, list_values segs ! (seg_start segs i + j)))"
    and "\<And>ic. ic_repr aref (inlined_offset ic # list_values segs) (Suc (seg_start segs i + j))
        (ic\<lparr>ic_cursor := Some c, at_inlined_offset := False\<rparr>)"
proof -
  have "cursor_repr aref l segs (seg_start segs i + j) (at_cached_position l n j None None)"
    using cursor_at_cached_position [OF n j] by (rule cursor_reprI) simp
  then obtain c where m: "materialize_value aref (at_cached_position l n j None None) =
      Ok (Some (c, list_values segs ! (seg_start segs i + j)))"
    and c: "cursor_repr aref l segs (seg_start segs i + j) c"
    using materialize_value_repr [OF r] by metis
  have "ic_repr aref (inlined_offset ic # list_values segs) (Suc (seg_start segs i + j))
        (ic\<lparr>ic_cursor := Some c, at_inlined_offset := False\<rparr>)" for ic
    by (rule ic_reprI [OF _ r c]) auto
  with m that show thesis by blast
qed

lemma seek_partition:
  assumes r: "chain_repr aref l segs" and n: "seg_node aref l segs i n"
    and T: "threshold predicate (list_values segs) T"
  shows "partition_point aref n 0 (node_len n) predicate = Ok (min (T - seg_start segs i) (node_len n))"
proof -
  have "i < length segs" using n by (simp add: seg_node_def)
  from partition_loop_seg_node [OF r n threshold_segment [OF r this T], of 0 "length (snd (segs ! i))"]
  show ?thesis by (simp add: partition_point_def node_len_seg_node [OF r n])
qed

lemma seek_loop_found:
  assumes r: "chain_repr aref l segs" and n: "seg_node aref l segs i n"
    and T: "threshold (seek_predicate needle direction) (list_values segs) T"
    and le: "seg_start segs i \<le> T" and lt: "T < seg_start segs (Suc i)"
    and ic: "inlined_offset ic = x" "ic_repr aref (x # list_values segs) (seg_start segs i) ic"
  shows "\<exists>ic'. seek_loop aref l needle direction n ic =
      (Ok (Some (if direction = Backward then (x # list_values segs) ! T else list_values segs ! T)), ic') \<and>
    ic_repr aref (x # list_values segs) (if direction = Backward then T else Suc T) ic' \<and> same_flags ic ic'"
proof -
  have i: "i < length segs" using n by (simp add: seg_node_def)
  let ?t = "T - seg_start segs i"
  have t: "?t < length (snd (segs ! i))" using le lt i by (simp add: seg_start_Suc)
  have p: "partition_point aref n 0 (node_len n) (seek_predicate needle direction) = Ok ?t"
    using seek_partition [OF r n T] t by (simp add: node_len_seg_node [OF r n])
  show ?thesis
  proof (cases "direction = Backward \<and> ?t = 0")
    case True
    with le have "T = seg_start segs i" by simp
    with True p ic ic_value_repr [OF ic(2)] show ?thesis
      by (auto simp: seek_loop.simps)
  next
    case False
    let ?j = "if direction = Backward then ?t - 1 else ?t"
    have "?j < length (snd (segs ! i))" using t by auto
    then obtain c where "materialize_value aref (at_cached_position l n ?j None None) =
        Ok (Some (c, list_values segs ! (seg_start segs i + ?j)))"
      and "ic_repr aref (x # list_values segs) (Suc (seg_start segs i + ?j))
        (ic\<lparr>ic_cursor := Some c, at_inlined_offset := False\<rparr>)"
      using seek_select [OF r n] ic(1) by metis
    with False p t le show ?thesis
      by (auto simp: seek_loop.simps node_len_seg_node [OF r n] same_flags_def)
  qed
qed

lemma seek_loop_past:
  assumes r: "chain_repr aref l segs" and n: "seg_node aref l segs i n"
    and T: "threshold (seek_predicate needle direction) (list_values segs) T"
    and le: "seg_start segs (Suc i) \<le> T" and x: "inlined_offset ic = x"
  obtains ic' where "same_flags ic ic'" and "inlined_offset ic' = x"
    and "ic_repr aref (x # list_values segs) (seg_start segs (Suc i)) ic'"
    and "seek_loop aref l needle direction n ic =
      (case node_next aref n of
         Inl e \<Rightarrow> (Err e, ic')
       | Inr None \<Rightarrow> (Ok (if direction = Backward then Some ((x # list_values segs) ! seg_start segs (Suc i)) else None), ic')
       | Inr (Some m) \<Rightarrow> seek_loop aref l needle direction m ic')"
proof -
  have i: "i < length segs" using n by (simp add: seg_node_def)
  obtain j where len: "length (snd (segs ! i)) = Suc j"
    using segment_nonempty [OF r i] by (cases "snd (segs ! i)") auto
  have p: "partition_point aref n 0 (node_len n) (seek_predicate needle direction) = Ok (node_len n)"
    using seek_partition [OF r n T] le i by (simp add: node_len_seg_node [OF r n] seg_start_Suc)
  have "j < length (snd (segs ! i))" using len by simp
  then obtain c where c: "materialize_value aref (at_cached_position l n j None None) =
      Ok (Some (c, list_values segs ! (seg_start segs i + j)))"
    and cr: "ic_repr aref (x # list_values segs) (Suc (seg_start segs i + j))
      (ic\<lparr>ic_cursor := Some c, at_inlined_offset := False\<rparr>)"
    using seek_select [OF r n] x by metis
  have e: "Suc (seg_start segs i + j) = seg_start segs (Suc i)"
    using len i by (simp add: seg_start_Suc)
  then have v: "(x # list_values segs) ! seg_start segs (Suc i) = list_values segs ! (seg_start segs i + j)"
    by (metis nth_Cons_Suc)
  show thesis
  proof (rule that)
    show "seek_loop aref l needle direction n ic =
      (case node_next aref n of
         Inl er \<Rightarrow> (Err er, ic\<lparr>ic_cursor := Some c, at_inlined_offset := False\<rparr>)
       | Inr None \<Rightarrow> (Ok (if direction = Backward then Some ((x # list_values segs) ! seg_start segs (Suc i)) else None),
           ic\<lparr>ic_cursor := Some c, at_inlined_offset := False\<rparr>)
       | Inr (Some m) \<Rightarrow> seek_loop aref l needle direction m (ic\<lparr>ic_cursor := Some c, at_inlined_offset := False\<rparr>))"
      using p c unfolding v by (subst seek_loop.simps) (simp add: node_len_seg_node [OF r n] len Let_def)
  qed (use cr x e in \<open>auto simp: same_flags_def\<close>)
qed

lemma seek_loop_repr:
  assumes r: "chain_repr aref l segs" and n: "seg_node aref l segs i n"
    and T: "threshold (seek_predicate needle direction) (list_values segs) T"
  shows "\<forall>ic. inlined_offset ic = x \<and> seg_start segs i \<le> T \<and> ic_repr aref (x # list_values segs) (seg_start segs i) ic \<longrightarrow>
    (\<exists>ic'. seek_loop aref l needle direction n ic =
        (Ok (if direction = Backward then Some ((x # list_values segs) ! T)
             else if T < total_items l then Some (list_values segs ! T) else None), ic') \<and>
      ic_repr aref (x # list_values segs) (if direction = Backward then T else min (Suc T) (total_items l)) ic' \<and>
      same_flags ic ic')" (is "\<forall>ic. ?pre i ic \<longrightarrow> ?post n ic")
  using r n
proof (induction rule: seg_node_induct)
  case (last i n)
  have tot: "seg_start segs (Suc i) = total_items l"
    using last(2) seg_start_total [OF r] by simp
  have "T \<le> total_items l" using T chain_repr_values [OF r] by (simp add: threshold_def)
  show ?case
  proof (intro allI impI)
    fix ic assume pre: "?pre i ic"
    show "?post n ic"
    proof (cases "T < seg_start segs (Suc i)")
      case True
      with seek_loop_found [OF r last(1) T _ True, of ic x] pre tot show ?thesis by auto
    next
      case False
      then have "T = total_items l" using tot \<open>T \<le> total_items l\<close> by simp
      moreover obtain ic1 where "same_flags ic ic1" "ic_repr aref (x # list_values segs) (total_items l) ic1"
        "seek_loop aref l needle direction n ic =
           (Ok (if direction = Backward then Some ((x # list_values segs) ! total_items l) else None), ic1)"
        using seek_loop_past [OF r last(1) T, of ic x] pre last(3) False unfolding tot
        by (metis (no_types, lifting) not_less option.simps(4) sum.case(2))
      ultimately show ?thesis by (simp add: min_def)
    qed
  qed
next
  case (step i n m)
  have tot: "seg_start segs (Suc i) < total_items l"
    using seg_start_less [OF r step(2)] .
  show ?case
  proof (intro allI impI)
    fix ic assume pre: "?pre i ic"
    show "?post n ic"
    proof (cases "T < seg_start segs (Suc i)")
      case True
      with seek_loop_found [OF r step(1) T _ True, of ic x] pre tot show ?thesis by auto
    next
      case False
      then have le: "seg_start segs (Suc i) \<le> T" by simp
      from pre have "inlined_offset ic = x" by simp
      from seek_loop_past [OF r step(1) T le this] obtain ic1 where ic1: "same_flags ic ic1" "inlined_offset ic1 = x"
        "ic_repr aref (x # list_values segs) (seg_start segs (Suc i)) ic1"
        and e: "seek_loop aref l needle direction n ic = seek_loop aref l needle direction m ic1"
        unfolding step(3) by auto
      from step(5) ic1 le have "?post m ic1" by blast
      with ic1(1) same_flags_trans show ?thesis unfolding e by blast
    qed
  qed
qed

lemma ic_head_flags: "same_flags (ic\<lparr>filter_direction := Some Forward\<rparr>) (ic_head ic)"
  "inlined_offset (ic_head ic) = inlined_offset ic"
  by (simp_all add: ic_head_def same_flags_def)

lemma ic_tail_flags:
  "ic_tail aref ic = Ok ic' \<Longrightarrow> same_flags (ic\<lparr>filter_direction := Some Backward\<rparr>) ic'"
  by (auto simp: ic_tail_def same_flags_def rbind_eq_Ok split: option.splits)

text \<open>The two outcomes of a seek, in terms of the threshold of the predicate.\<close>

lemma seek_outcome_forward:
  assumes T: "threshold (seek_predicate needle Forward) ws T" and x: "x < needle"
  shows "first_from (x # ws) 0 needle (if T < length ws then Some (ws ! T) else None) (min (Suc T) (length ws))"
proof -
  have below: "(x # ws) ! i < needle" if "i < Suc T" "i < Suc (length ws)" for i
    using that x thresholdD [OF T, of "i - 1"] by (cases i) (auto simp: seek_predicate_def)
  have "T < length ws \<Longrightarrow> needle \<le> ws ! T"
    using thresholdD [OF T, of T] by (auto simp: seek_predicate_def not_less)
  moreover have "T \<le> length ws" using T by (simp add: threshold_def)
  ultimately show ?thesis
    using below by (auto simp: first_from_def)
qed

lemma seek_outcome_backward:
  assumes T: "threshold (seek_predicate needle Backward) ws T" and x: "x \<le> needle"
  shows "last_upto (x # ws) (length ws) needle (Some ((x # ws) ! T)) T"
proof -
  have above: "needle < (x # ws) ! i" if "T < i" "i < Suc (length ws)" for i
    using that thresholdD [OF T, of "i - 1"] by (cases i) (auto simp: seek_predicate_def)
  have "(x # ws) ! T \<le> needle"
    using x thresholdD [OF T, of "T - 1"] T by (cases T) (auto simp: seek_predicate_def threshold_def)
  moreover have "T \<le> length ws" using T by (simp add: threshold_def)
  ultimately show ?thesis
    using above by (auto simp: last_upto_def)
qed

definition sought :: "Direction \<Rightarrow> u64 list \<Rightarrow> u64 \<Rightarrow> u64 option \<Rightarrow> nat \<Rightarrow> bool" where
  "sought direction vs needle res k \<longleftrightarrow>
     (case direction of
        Forward \<Rightarrow> first_from vs 0 needle res k
      | Backward \<Rightarrow> last_upto vs (length vs - 1) needle res k)"

lemma sought_at_head:
  assumes "sorted_wrt (<) vs" and "vs = x # ws"
    and "direction = Forward \<and> needle \<le> x \<and> res = Some x \<or> direction = Backward \<and> needle < x \<and> res = None"
  shows "sought direction vs needle res 0"
proof -
  have "x \<le> vs ! i" if "i < length vs" for i
    using assms(1,2) that by (cases i) (auto simp: less_imp_le)
  then have "needle < vs ! i" if "i < length vs" "needle < x" for i
    using that order.strict_trans2 by blast
  then show ?thesis
    using assms(3) unfolding sought_def first_from_def last_upto_def by (auto simp: assms(2) simp del: nth_Cons_pos)
qed

lemma ic_seek_realtime_repr:
  assumes r: "ic_repr aref vs k ic" and s: "sorted_wrt (<) vs"
  obtains res ic' k' where "ic_seek_realtime aref needle direction ic = (Ok res, ic')"
    and "ic_repr aref vs k' ic'" and "same_flags (ic\<lparr>filter_direction := Some direction\<rparr>) ic'"
    and "sought direction vs needle res k'"
proof -
  let ?ic = "(ic_head ic)\<lparr>filter_direction := Some direction\<rparr>"
  let ?x = "inlined_offset ic"
  have hr: "ic_repr aref vs 0 ?ic" using ic_head_repr(1) [OF r] by simp
  have fl: "same_flags (ic\<lparr>filter_direction := Some direction\<rparr>) ?ic"
    using ic_head_flags(1) [of ic] by (simp add: same_flags_def)
  have x: "inlined_offset ?ic = ?x" by (simp add: ic_head_flags(2))
  let ?early = "direction = Forward \<and> needle \<le> ?x \<or> direction = Backward \<and> needle < ?x"
  have early: "ic_seek_realtime aref needle direction ic =
      (if vs = [] then (Ok None, ?ic)
       else if ?early then (Ok (if direction = Forward then Some ?x else None), ?ic)
       else case ic_cursor ?ic of
              None \<Rightarrow> (Ok (if direction = Backward then Some ?x else None), ?ic)
            | Some c \<Rightarrow> (case list_head aref (cursor_list c) of
                Inl e \<Rightarrow> (Err e, ?ic) | Inr n \<Rightarrow> seek_loop aref (cursor_list c) needle direction n ?ic))"
    using ic_repr_empty_iff [OF hr] x unfolding ic_seek_realtime_def Let_def
    by (cases direction) (auto split: option.split)
  show thesis
    using hr
  proof (cases rule: ic_repr_cases)
    case empty
    with early hr fl that [of None ?ic 0] show ?thesis
      by (cases direction) (auto simp: sought_def first_from_def last_upto_def)
  next
    case single
    let ?res = "if ?early = (direction = Forward) then Some ?x else None"
    have "ic_seek_realtime aref needle direction ic = (Ok ?res, ?ic)"
      using early single by (cases direction) auto
    moreover have "sought direction vs needle ?res 0"
      using single x by (cases direction) (auto simp: sought_def first_from_def last_upto_def)
    ultimately show ?thesis using that hr fl by blast
  next
    case (inlined c segs)
    let ?ws = "list_values segs"
    note cr = inlined(4)
    show ?thesis
    proof (cases ?early)
      case True
      then have "sought direction vs needle (if direction = Forward then Some ?x else None) 0"
        using sought_at_head [OF s] inlined(5) x by auto
      with True early inlined(5) hr fl that show ?thesis by auto
    next
      case False
      obtain n where n: "list_head aref (cursor_list c) = Ok n" "seg_node aref (cursor_list c) segs 0 n"
        using list_head_seg_node [OF cr] by blast
      have "sorted_wrt (<) ?ws" using s inlined(5) by simp
      then obtain T where T: "threshold (seek_predicate needle direction) ?ws T"
        using seek_predicate_threshold by blast
      let ?res = "if direction = Backward then Some ((?x # ?ws) ! T) else if T < length ?ws then Some (?ws ! T) else None"
      let ?k = "if direction = Backward then T else min (Suc T) (length ?ws)"
      have vs: "vs = ?x # ?ws" using inlined(5) x by simp
      obtain ic' where ic': "seek_loop aref (cursor_list c) needle direction n ?ic = (Ok ?res, ic')"
        "ic_repr aref vs ?k ic'" "same_flags ?ic ic'"
        using seek_loop_repr [OF cr n(2) T, of ?x] hr x vs chain_repr_values [OF cr]
        by (metis (no_types, lifting) seg_start_0 zero_le)
      have "ic_seek_realtime aref needle direction ic = (Ok ?res, ic')"
        using early False inlined n(1) ic'(1) vs by simp
      moreover have "sought direction vs needle ?res ?k"
        using seek_outcome_forward seek_outcome_backward T False vs
        by (cases direction) (auto simp: sought_def not_le not_less)
      ultimately show ?thesis
        using that ic' fl same_flags_trans by blast
    qed
  next
    case (array c segs j)
    then show ?thesis by simp
  qed
qed

section \<open>Searching by a predicate\<close>

lemma threshold_Cons:
  assumes "threshold predicate (x # ws) T"
  shows "predicate x = Ok (0 < T)" and "threshold predicate ws (T - 1)"
proof -
  show "predicate x = Ok (0 < T)" using thresholdD [OF assms, of 0] by simp
  have "predicate (ws ! k) = Ok (k < T - 1)" if "k < length ws" for k
    using thresholdD [OF assms, of "Suc k"] that by (auto simp: less_diff_conv)
  then show "threshold predicate ws (T - 1)"
    using assms by (auto simp: threshold_def list_all_iff)
qed

text \<open>The answer of a directed search with threshold \<open>T\<close>.\<close>

definition found_at :: "array_ref \<Rightarrow> u64 list \<Rightarrow> Direction \<Rightarrow> nat \<Rightarrow> InlinedCursor option \<Rightarrow> bool" where
  "found_at aref vs direction T found \<longleftrightarrow>
     (case direction of
        Forward \<Rightarrow> (case found of None \<Rightarrow> T = length vs | Some ic \<Rightarrow> T < length vs \<and> ic_repr aref vs T ic)
      | Backward \<Rightarrow> (case found of None \<Rightarrow> T = 0 | Some ic \<Rightarrow> 0 < T \<and> ic_repr aref vs (T - 1) ic))"

definition array_found :: "array_ref \<Rightarrow> u64 \<Rightarrow> u64 list \<Rightarrow> Direction \<Rightarrow> nat \<Rightarrow> InlinedCursor option \<Rightarrow> bool" where
  "array_found aref x ws direction t found \<longleftrightarrow>
     (case found of
        None \<Rightarrow> t = (if direction = Forward then length ws else 0)
      | Some ic \<Rightarrow> (if direction = Forward then t < length ws else 0 < t) \<and>
          ic_repr aref (x # ws) (if direction = Forward then Suc t else t) ic)"

lemma array_candidate_of_list:
  assumes c: "ic_cursor ic = Some c" and r: "chain_repr aref (cursor_list c) segs"
    and t: "threshold predicate (list_values segs) t"
  shows "\<exists>found. array_partition_candidate aref ic predicate direction = Ok found \<and>
    array_found aref (inlined_offset ic) (list_values segs) direction t found"
proof -
  obtain f where f: "list_directed_partition_point aref (cursor_list c) predicate direction = Ok f"
    "search_answer aref (cursor_list c) segs direction t f"
    using list_directed_partition_point_repr [OF r t] by blast
  have step: "ic_repr aref (inlined_offset ic # list_values segs) (Suc j)
      (ic\<lparr>ic_cursor := Some d, at_inlined_offset := False\<rparr>)"
    if "cursor_repr aref (cursor_list c) segs j d" for j d
    by (rule ic_reprI [OF _ r that]) auto
  let ?found = "map_option (\<lambda>d. ic\<lparr>ic_cursor := Some d, at_inlined_offset := False\<rparr>) f"
  have "array_partition_candidate aref ic predicate direction = Ok ?found"
    using c f(1) by (cases f) (simp_all add: array_partition_candidate_def)
  moreover have "array_found aref (inlined_offset ic) (list_values segs) direction t ?found"
  proof (cases f)
    case None
    with f(2) show ?thesis
      by (cases direction) (auto simp: search_answer_def array_found_def chain_repr_values [OF r])
  next
    case (Some d)
    with f(2) step [of t d] step [of "t - 1" d] cursor_repr_less [OF r, of t d] show ?thesis
      by (cases direction) (auto simp: search_answer_def array_found_def chain_repr_values [OF r])
  qed
  ultimately show ?thesis by blast
qed

lemma array_partition_candidate_repr:
  assumes r: "ic_repr aref (x # ws) k ic" and t: "threshold predicate ws t"
  shows "\<exists>found. array_partition_candidate aref ic predicate direction = Ok found \<and>
    array_found aref x ws direction t found"
  using r
proof (cases rule: ic_repr_cases)
  case single
  with t show ?thesis
    by (simp add: array_partition_candidate_def array_found_def threshold_def)
next
  case (inlined c segs)
  with t array_candidate_of_list [OF inlined(1,4), of predicate t direction] show ?thesis by simp
next
  case (array c segs j)
  with t array_candidate_of_list [OF array(1,4), of predicate t direction] show ?thesis by simp
qed simp

lemma ic_directed_partition_point_repr:
  assumes r: "ic_repr aref vs k ic" and s: "sorted_wrt (<) vs" and T: "threshold predicate vs T"
  shows "\<exists>found. ic_directed_partition_point aref ic predicate direction = Ok found \<and>
    found_at aref vs direction T found"
proof (cases "vs = []")
  case True
  with r T show ?thesis
    by (cases direction) (auto simp: ic_directed_partition_point_def ic_repr_empty_iff threshold_def found_at_def)
next
  case False
  then obtain x ws where vs: "vs = x # ws" by (cases vs) auto
  have x: "inlined_offset ic = x" using r vs by (cases rule: ic_repr_cases) auto
  have ne: "\<not> ic_is_empty ic" using ic_repr_empty_iff [OF r] False by simp
  note tc = threshold_Cons [OF T [unfolded vs]]
  have hr: "ic_repr aref vs 0 (ic_head ic)" using ic_head_repr(1) [OF r] .
  have lt: "x < vs ! i" if "0 < i" "i < length vs" for i
    using s vs that by (cases i) auto
  have inl: "inlined_partition_candidate ic predicate direction =
      Ok (if (direction = Forward) = (T = 0) then Some (ic_head ic) else None)"
    using tc(1) x by (cases direction) (auto simp: inlined_partition_candidate_def)
  obtain found where arr: "array_partition_candidate aref ic predicate direction = Ok found"
    and f: "array_found aref x ws direction (T - 1) found"
    using array_partition_candidate_repr [OF r [unfolded vs] tc(2)] by blast
  have Tle: "T \<le> length vs" using T by (simp add: threshold_def)
  have better: "best_directed_match aref (ic_head ic) a direction = Ok (if direction = Forward then ic_head ic else a)"
    if "ic_repr aref vs i a" "0 < i" for i a
    using ic_value_repr [OF hr] ic_value_repr [OF that(1)] lt [OF that(2)] ic_repr_less [OF that(1) False] vs
    by (cases direction) (auto simp: best_directed_match_def Let_def)
  show ?thesis
  proof (cases found)
    case None
    with inl arr f ne hr Tle show ?thesis
      by (cases direction)
        (auto simp: ic_directed_partition_point_def array_found_def found_at_def vs le_Suc_eq)
  next
    case (Some a)
    with inl arr f ne hr better [of "if direction = Forward then Suc (T - 1) else T - 1" a] Tle vs show ?thesis
      by (cases direction; cases "T = 0")
        (auto simp: ic_directed_partition_point_def array_found_def found_at_def)
  qed
qed

section \<open>Properties\<close>

definition sample_ic :: InlinedCursor where
  "sample_ic = ic_new 150 (Some (cursor_at_head sample_list))"

lemma sample_ic_repr: "ic_repr sample_aref [150, 200, 300, 400, 500, 600] 0 sample_ic"
  by (rule ic_reprI [OF _ sample_chain_repr cursor_at_head_repr [OF sample_chain_repr]])
    (simp_all add: sample_ic_def ic_new_def sample_segs_def)

text \<open>
  C26. The cursor over the postings of a data object is a position in one sequence, the inlined offset
  followed by the offsets of the arrays: it reads the item at its position, a step forward or backward
  moves it by one, crossing between the inlined slot and the arrays, and answers none at the ends, head
  and tail stand at the ends, and collecting gives the rest of the sequence.
\<close>

theorem inlined_cursor_refines_position:
  assumes "ic_repr aref vs k ic" and "vs \<noteq> []"
  shows "k < length vs \<and> ic_value aref ic = Ok (Some (vs ! k)) \<and>
    (if Suc k < length vs then \<exists>ic'. ic_next aref ic = Ok (Some ic') \<and> ic_repr aref vs (Suc k) ic'
     else ic_next aref ic = Ok None) \<and>
    (if 0 < k then \<exists>ic'. ic_previous aref ic = Ok (Some ic') \<and> ic_repr aref vs (k - 1) ic'
     else ic_previous aref ic = Ok None) \<and>
    ic_repr aref vs 0 (ic_head ic) \<and>
    (\<exists>t. ic_tail aref ic = Ok t \<and> ic_repr aref vs (length vs - 1) t) \<and>
    ic_collect_offsets aref ic offsets = Ok (offsets @ drop k vs)"
  using ic_repr_less [OF assms] ic_value_repr [OF assms(1)] ic_next_repr [OF assms(1)] ic_previous_repr [OF assms]
    ic_head_repr(1) [OF assms(1)] ic_tail_repr [OF assms(1)] ic_collect_offsets_repr [OF assms(1)] assms(2)
  by (auto split: if_splits)

theorem inlined_cursor_refines_position_witness:
  "(\<exists>ic'. ic_next sample_aref sample_ic = Ok (Some ic') \<and>
      ic_repr sample_aref [150, 200, 300, 400, 500, 600] 1 ic') \<and>
   ic_collect_offsets sample_aref sample_ic [] = Ok [150, 200, 300, 400, 500, 600]"
  using inlined_cursor_refines_position [OF sample_ic_repr, of "[]"] by simp

text \<open>
  Seeking in a posting list with increasing offsets: forward it returns the first offset that is at
  least the needle, backward the last one that is at most the needle, or none, from whatever position and
  for every division into arrays; the cursor is left on the item returned and remembers the direction.
\<close>

theorem inlined_seek_correct:
  assumes "ic_repr aref vs k ic" and "sorted_wrt (<) vs"
  shows "\<exists>res ic' k'. ic_seek_realtime aref needle direction ic = (Ok res, ic') \<and> ic_repr aref vs k' ic' \<and>
    filter_direction ic' = Some direction \<and> sought direction vs needle res k'"
  using ic_seek_realtime_repr [OF assms, of needle direction] unfolding same_flags_def by fastforce

theorem inlined_seek_correct_witness:
  "\<exists>res ic' k'. ic_seek_realtime sample_aref 350 Backward sample_ic = (Ok res, ic') \<and>
     sought Backward [150, 200, 300, 400, 500, 600] 350 res k'"
  using inlined_seek_correct [OF sample_ic_repr, of 350 Backward] by auto

text \<open>
  Searching a posting list with increasing offsets by a predicate that is true exactly on the first
  \<open>T\<close> offsets: forward the result stands at item \<open>T\<close>, backward at item \<open>T - 1\<close>, and there is none when that
  item does not exist; combining the inlined offset with the arrays never picks the wrong candidate.
\<close>

theorem inlined_partition_correct:
  assumes "ic_repr aref vs k ic" and "sorted_wrt (<) vs" and "threshold predicate vs T"
  shows "\<exists>found. ic_directed_partition_point aref ic predicate direction = Ok found \<and>
    found_at aref vs direction T found"
  using assms by (rule ic_directed_partition_point_repr)

theorem inlined_partition_correct_witness:
  "\<exists>found. ic_directed_partition_point sample_aref sample_ic (\<lambda>v. Ok (v \<le> 300)) Backward = Ok found \<and>
     found_at sample_aref [150, 200, 300, 400, 500, 600] Backward 3 found"
  by (rule inlined_partition_correct [OF sample_ic_repr]) (simp_all add: threshold_def upt_rec)

end
