(* ===== verification/Filter_Expr.thy ===== *)
theory Filter_Expr
  imports Inlined_Cursor
begin

text \<open>
  Filter expressions over postings, \<^verbatim>\<open>journal-core/src/file/filter.rs\<close>: a tree of conjunctions and
  disjunctions whose leaves are cursors over the entries of one data object.  Moving to the next or
  previous match moves the cursors of the leaves; the theory shows what a move returns in terms of the
  entries that the cursors can still deliver, and that seeking returns the nearest match.

  The file is read through the accessor \<open>aref\<close>; the operations that may install a recovered prefix
  also carry the file itself.
\<close>

section \<open>Expressions\<close>

datatype FilterExpr =
    NoMatch
  | Match u64 InlinedCursor
  | Conjunction "FilterExpr list"
  | Disjunction "FilterExpr list"

fun visit_cursors :: "(InlinedCursor \<Rightarrow> InlinedCursor) \<Rightarrow> FilterExpr \<Rightarrow> FilterExpr" where
  "visit_cursors visit NoMatch = NoMatch"
| "visit_cursors visit (Match off cursor) = Match off (visit cursor)"
| "visit_cursors visit (Conjunction children) = Conjunction (map (visit_cursors visit) children)"
| "visit_cursors visit (Disjunction children) = Disjunction (map (visit_cursors visit) children)"

fun any_cursor :: "(InlinedCursor \<Rightarrow> bool) \<Rightarrow> FilterExpr \<Rightarrow> bool" where
  "any_cursor predicate NoMatch = False"
| "any_cursor predicate (Match off cursor) = predicate cursor"
| "any_cursor predicate (Conjunction children) = list_ex (any_cursor predicate) children"
| "any_cursor predicate (Disjunction children) = list_ex (any_cursor predicate) children"

definition invalidate_position :: "FilterExpr \<Rightarrow> FilterExpr" where
  "invalidate_position = visit_cursors (\<lambda>cursor. cursor\<lparr>filter_direction := None\<rparr>)"

fun filter_head :: "FilterExpr \<Rightarrow> FilterExpr" where
  "filter_head NoMatch = NoMatch"
| "filter_head (Match off ic) = Match off ((ic_head ic)\<lparr>position_pending := False\<rparr>)"
| "filter_head (Conjunction children) = Conjunction (map filter_head children)"
| "filter_head (Disjunction children) = Disjunction (map filter_head children)"

text \<open>A loop over the children that updates each and stops at the first error.\<close>

fun each_child :: "(FilterExpr \<Rightarrow> unit result \<times> FilterExpr) \<Rightarrow> (FilterExpr list, unit) op" where
  "each_child f [] = (Ok (), [])"
| "each_child f (e # es) =
     (case f e of
        (Inl err, e') \<Rightarrow> (Err err, e' # es)
      | (Inr _, e') \<Rightarrow> (case each_child f es of (r, es') \<Rightarrow> (r, e' # es')))"

lemma each_child_cong [fundef_cong]:
  "es = es' \<Longrightarrow> (\<And>e. e \<in> set es' \<Longrightarrow> f e = g e) \<Longrightarrow> each_child f es = each_child g es'"
  by (induction es arbitrary: es') (auto split: prod.split sum.split)

fun tail_inner :: "array_ref \<Rightarrow> (FilterExpr, unit) op" where
  "tail_inner aref NoMatch = (Ok (), NoMatch)"
| "tail_inner aref (Match off ic) =
     (case ic_tail aref ic of Inl e \<Rightarrow> (Err e, Match off ic) | Inr ic' \<Rightarrow> (Ok (), Match off ic'))"
| "tail_inner aref (Conjunction children) =
     (case each_child (tail_inner aref) children of (r, children') \<Rightarrow> (r, Conjunction children'))"
| "tail_inner aref (Disjunction children) =
     (case each_child (tail_inner aref) children of (r, children') \<Rightarrow> (r, Disjunction children'))"

section \<open>Moving to the next match\<close>

text \<open>
  \<open>next_inner\<close> and \<open>previous_inner\<close> are mirror images: \<open>before direction\<close> is the order of the direction,
  \<open>nearer\<close> the choice of a disjunction (\<open>min\<close> or \<open>max\<close>), and the children of a conjunction are visited
  from the front or from the back.
\<close>

definition before :: "Direction \<Rightarrow> u64 \<Rightarrow> u64 \<Rightarrow> bool" where
  "before direction a b = (case direction of Forward \<Rightarrow> a \<le> b | Backward \<Rightarrow> b \<le> a)"

definition nearer :: "Direction \<Rightarrow> u64 \<Rightarrow> u64 \<Rightarrow> u64" where
  "nearer direction a b = (case direction of Forward \<Rightarrow> min a b | Backward \<Rightarrow> max a b)"

definition in_order :: "Direction \<Rightarrow> 'a list \<Rightarrow> 'a list" where
  "in_order direction xs = (case direction of Forward \<Rightarrow> xs | Backward \<Rightarrow> rev xs)"

type_synonym step = "u64 \<Rightarrow> (FilterExpr, u64 option) op"

fun conjunction_pass :: "step \<Rightarrow> u64 \<Rightarrow> (FilterExpr list, u64 option) op" where
  "conjunction_pass f needle [] = (Ok (Some needle), [])"
| "conjunction_pass f needle (e # es) =
     (case f needle e of
        (Inl err, e') \<Rightarrow> (Err err, e' # es)
      | (Inr None, e') \<Rightarrow> (Ok None, e' # es)
      | (Inr (Some new_offset), e') \<Rightarrow>
          (case conjunction_pass f new_offset es of (r, es') \<Rightarrow> (r, e' # es')))"

fun disjunction_pass :: "Direction \<Rightarrow> step \<Rightarrow> u64 \<Rightarrow> u64 option \<Rightarrow> (FilterExpr list, u64 option) op" where
  "disjunction_pass direction f needle best [] = (Ok best, [])"
| "disjunction_pass direction f needle best (e # es) =
     (case f needle e of
        (Inl err, e') \<Rightarrow> (Err err, e' # es)
      | (Inr found, e') \<Rightarrow>
          (let best' = (case found of
                          None \<Rightarrow> best
                        | Some v \<Rightarrow> Some (case best of None \<Rightarrow> v | Some old \<Rightarrow> nearer direction v old))
           in case disjunction_pass direction f needle best' es of (r, es') \<Rightarrow> (r, e' # es')))"

definition directed_pass :: "Direction \<Rightarrow> step \<Rightarrow> u64 \<Rightarrow> (FilterExpr list, u64 option) op" where
  "directed_pass direction f needle es =
     (case conjunction_pass f needle (in_order direction es) of (r, es') \<Rightarrow> (r, in_order direction es'))"

text \<open>
  The loop of a conjunction: passes until the needle no longer moves.  A pass never moves the needle
  against the direction (\<open>inner_at_before\<close> below), so the \<open>Panic\<close> branch, which makes the definition
  total, is not reached.
\<close>

function conjunction_loop :: "Direction \<Rightarrow> step \<Rightarrow> u64 \<Rightarrow> (FilterExpr list, u64 option) op" where
  "conjunction_loop direction f needle es =
     (case directed_pass direction f needle es of
        (Inl err, es') \<Rightarrow> (Err err, es')
      | (Inr None, es') \<Rightarrow> (Ok None, es')
      | (Inr (Some needle'), es') \<Rightarrow>
          if needle' = needle then (Ok (Some needle), es')
          else if \<not> before direction needle needle' then (Err Panic, es')
          else conjunction_loop direction f needle' es')"
  by pat_completeness auto
termination
proof (relation "measure (\<lambda>(direction, f, needle, es).
    case direction of Forward \<Rightarrow> 2 ^ 64 - unat needle | Backward \<Rightarrow> unat needle)", goal_cases)
  case (2 direction f needle es r es' x needle')
  then show ?case
    using unat_u64_less [of needle'] by (auto simp: before_def word_le_nat_alt word_less_nat_alt
        le_less intro!: diff_less_mono2 split: Direction.split dest: unsigned_word_eqI)
qed simp

declare conjunction_loop.simps [simp del]

fun depth :: "FilterExpr \<Rightarrow> nat" where
  "depth NoMatch = 1"
| "depth (Match off ic) = 1"
| "depth (Conjunction es) = Suc (Max (insert 0 (depth ` set es)))"
| "depth (Disjunction es) = Suc (Max (insert 0 (depth ` set es)))"

text \<open>
  The recursion runs over children whose cursors have already moved, so it is indexed by the depth of
  the tree, which no operation changes; \<open>inner_simps\<close> below are the recursion equations of the source.
\<close>

fun inner_at :: "nat \<Rightarrow> array_ref \<Rightarrow> Direction \<Rightarrow> step" where
  "inner_at 0 aref direction needle e = (Err Panic, e)"
| "inner_at (Suc n) aref direction needle e =
     (case e of
        NoMatch \<Rightarrow> (Ok None, NoMatch)
      | Match off ic \<Rightarrow>
          (case sbind (prepare_filter_direction aref direction) (\<lambda>_.
                  case direction of Forward \<Rightarrow> next_until aref needle | Backward \<Rightarrow> previous_until aref needle) ic of
             (r, ic') \<Rightarrow> (r, Match off ic'))
      | Conjunction es \<Rightarrow>
          (case conjunction_loop direction (inner_at n aref direction) needle es of
             (r, es') \<Rightarrow> (r, Conjunction es'))
      | Disjunction es \<Rightarrow>
          (case disjunction_pass direction (inner_at n aref direction) needle None es of
             (r, es') \<Rightarrow> (r, Disjunction es')))"

definition inner :: "array_ref \<Rightarrow> Direction \<Rightarrow> step" where
  "inner aref direction needle e = inner_at (depth e) aref direction needle e"

definition next_inner :: "array_ref \<Rightarrow> step" where
  "next_inner aref = inner aref Forward"

definition previous_inner :: "array_ref \<Rightarrow> step" where
  "previous_inner aref = inner aref Backward"

section \<open>Seeking\<close>

lemma conjunction_pass_cong [fundef_cong]:
  "n = n' \<Longrightarrow> es = es' \<Longrightarrow> (\<And>m e. e \<in> set es' \<Longrightarrow> f m e = g m e) \<Longrightarrow>
     conjunction_pass f n es = conjunction_pass g n' es'"
  by (induction es arbitrary: es' n n') (auto split: prod.split sum.split option.split)

lemma disjunction_pass_cong [fundef_cong]:
  "d = d' \<Longrightarrow> n = n' \<Longrightarrow> b = b' \<Longrightarrow> es = es' \<Longrightarrow> (\<And>m e. e \<in> set es' \<Longrightarrow> f m e = g m e) \<Longrightarrow>
     disjunction_pass d f n b es = disjunction_pass d' g n' b' es'"
  by (induction es arbitrary: es' b b') (auto simp: Let_def split: prod.split sum.split option.split)

lemma set_in_order [simp]: "set (in_order direction xs) = set xs"
  by (simp add: in_order_def split: Direction.split)

lemma directed_pass_cong [fundef_cong]:
  "d = d' \<Longrightarrow> n = n' \<Longrightarrow> es = es' \<Longrightarrow> (\<And>m e. e \<in> set es' \<Longrightarrow> f m e = g m e) \<Longrightarrow>
     directed_pass d f n es = directed_pass d' g n' es'"
  using conjunction_pass_cong [of n n' "in_order d es" "in_order d' es'" f g] by (simp add: directed_pass_def)

fun seek_realtime_inner :: "array_ref \<Rightarrow> Direction \<Rightarrow> step" where
  "seek_realtime_inner aref direction needle NoMatch = (Ok None, NoMatch)"
| "seek_realtime_inner aref direction needle (Match off cursor) =
     (case ic_seek_realtime aref needle direction cursor of (r, cursor') \<Rightarrow> (r, Match off cursor'))"
| "seek_realtime_inner aref direction needle (Conjunction children) =
     (case directed_pass direction (seek_realtime_inner aref direction) needle children of
        (Inl err, children') \<Rightarrow> (Err err, Conjunction children')
      | (Inr None, children') \<Rightarrow> (Ok None, Conjunction children')
      | (Inr (Some v), children') \<Rightarrow>
          if v = needle then (Ok (Some v), Conjunction children')
          else (case direction of
                  Forward \<Rightarrow> next_inner aref v (Conjunction children')
                | Backward \<Rightarrow> previous_inner aref v (Conjunction children')))"
| "seek_realtime_inner aref direction needle (Disjunction children) =
     (case disjunction_pass direction (seek_realtime_inner aref direction) needle None children of
        (r, children') \<Rightarrow> (r, Disjunction children'))"

section \<open>Cutting the cursors down to a recovered prefix\<close>

fun each_child_with ::
  "('s \<Rightarrow> FilterExpr \<Rightarrow> unit result \<times> 's \<times> FilterExpr) \<Rightarrow> 's \<Rightarrow> FilterExpr list \<Rightarrow> unit result \<times> 's \<times> FilterExpr list" where
  "each_child_with f s [] = (Ok (), s, [])"
| "each_child_with f s (e # es) =
     (case f s e of
        (Inl err, s', e') \<Rightarrow> (Err err, s', e' # es)
      | (Inr _, s', e') \<Rightarrow> (case each_child_with f s' es of (r, s'', es') \<Rightarrow> (r, s'', e' # es')))"

lemma each_child_with_cong [fundef_cong]:
  "s = s' \<Longrightarrow> es = es' \<Longrightarrow> (\<And>t e. e \<in> set es' \<Longrightarrow> f t e = g t e) \<Longrightarrow>
     each_child_with f s es = each_child_with g s' es'"
  by (induction es arbitrary: es' s s') (auto split: prod.split sum.split)

fun refresh_recovery_pass :: "JournalFile \<Rightarrow> FilterExpr \<Rightarrow> unit result \<times> JournalFile \<times> FilterExpr" where
  "refresh_recovery_pass file NoMatch = (Ok (), file, NoMatch)"
| "refresh_recovery_pass file (Match off current) =
     (case reader_data_cursor off file of
        (Inl err, file') \<Rightarrow> (Err err, file', Match off current)
      | (Inr found, file') \<Rightarrow>
          (let cursor = (case found of
                           Some cursor \<Rightarrow> cursor
                         | None \<Rightarrow> (ic_empty current)\<lparr>recovered_population := reader_recovery_active file'\<rparr>)
           in (Ok (), file', Match off (cursor\<lparr>recovery_pending := True, position_pending := True\<rparr>))))"
| "refresh_recovery_pass file (Conjunction children) =
     (case each_child_with refresh_recovery_pass file children of
        (r, file', children') \<Rightarrow> (r, file', Conjunction children'))"
| "refresh_recovery_pass file (Disjunction children) =
     (case each_child_with refresh_recovery_pass file children of
        (r, file', children') \<Rightarrow> (r, file', Disjunction children'))"

text \<open>
  What any of the operations may do to the file: install the prefix that the scan finds.  Since the scan
  does not depend on what is installed, the refresh loop runs at most twice.
\<close>

definition recovery_step :: "JournalFile \<Rightarrow> JournalFile \<Rightarrow> bool" where
  "recovery_step jf jf' \<longleftrightarrow>
     same_data jf' jf \<and> recovery_enabled jf' = recovery_enabled jf \<and>
     (recovery jf' = recovery jf \<or> discover_reader_prefix jf = Ok (recovery jf'))"

lemma recovery_step_refl [simp]: "recovery_step jf jf"
  by (simp add: recovery_step_def same_data_def)

lemma recovery_step_trans: "recovery_step a b \<Longrightarrow> recovery_step b c \<Longrightarrow> recovery_step a c"
  using same_discover_reader_prefix [of b a] by (auto simp: recovery_step_def same_data_def)

lemma recovery_step_seen [simp]: "recovery_step jf (jf\<lparr>filter_recovery_seen := b\<rparr>)"
  by (simp add: recovery_step_def same_data_def)

lemma recover_reader_tail_step: "recover_reader_tail err jf = (r, jf') \<Longrightarrow> recovery_step jf jf'"
  using recover_reader_tail_cases [of err jf r jf'] by (cases "r = Ok True") (auto simp: recovery_step_def same_data_def)

lemma build_data_cursor_step: "build_data_cursor off jf = (r, jf') \<Longrightarrow> recovery_step jf jf'"
  by (auto simp: build_data_cursor_def for_reader_def Let_def split: sum.splits option.splits if_splits)

lemma reader_data_cursor_step:
  assumes "reader_data_cursor off jf = (r, jf')"
  shows "recovery_step jf jf'"
proof -
  obtain r1 jf1 where b: "build_data_cursor off jf = (r1, jf1)" by fastforce
  note s1 = build_data_cursor_step [OF b]
  show ?thesis
  proof (cases r1)
    case (Inr c)
    with assms b s1 show ?thesis by (simp add: reader_data_cursor_def)
  next
    case (Inl err)
    obtain r2 jf2 where t: "recover_reader_tail err jf1 = (r2, jf2)" by fastforce
    from assms b Inl t have "jf' = jf2 \<or> (\<exists>r3. build_data_cursor off jf2 = (r3, jf'))"
      by (auto simp: reader_data_cursor_def sbind_def sfail_def split: sum.splits if_splits prod.splits)
    with s1 recover_reader_tail_step [OF t] show ?thesis
      by (metis recovery_step_trans build_data_cursor_step)
  qed
qed

lemma each_child_with_step:
  assumes "each_child_with f jf es = (r, jf', es')"
    and "\<And>jf e r jf' e'. e \<in> set es \<Longrightarrow> f jf e = (r, jf', e') \<Longrightarrow> recovery_step jf jf'"
  shows "recovery_step jf jf'"
  using assms
proof (induction es arbitrary: jf r jf' es')
  case (Cons e es)
  obtain r1 jf1 e1 where f: "f jf e = (r1, jf1, e1)" by (rule prod_cases3)
  have s1: "recovery_step jf jf1" using Cons.prems(2) [OF _ f] by simp
  show ?case
  proof (cases r1)
    case (Inl err)
    with f s1 Cons.prems(1) show ?thesis by simp
  next
    case (Inr u)
    obtain r2 jf2 es2 where g: "each_child_with f jf1 es = (r2, jf2, es2)" by (rule prod_cases3)
    have "recovery_step jf1 jf2"
      using g by (rule Cons.IH) (auto intro: Cons.prems(2))
    with s1 f Inr g Cons.prems(1) show ?thesis by (auto intro: recovery_step_trans)
  qed
qed simp

lemma refresh_recovery_pass_step: "refresh_recovery_pass jf e = (r, jf', e') \<Longrightarrow> recovery_step jf jf'"
proof (induction jf e arbitrary: r jf' e' rule: refresh_recovery_pass.induct)
  case (2 jf off current)
  then show ?case
    by (auto simp: Let_def split: prod.splits sum.splits dest: reader_data_cursor_step)
next
  case (3 jf children)
  from "3.prems" obtain c where "each_child_with refresh_recovery_pass jf children = (r, jf', c)"
    by (auto split: prod.splits)
  then show ?case using "3.IH" by (rule each_child_with_step)
next
  case (4 jf children)
  from "4.prems" obtain c where "each_child_with refresh_recovery_pass jf children = (r, jf', c)"
    by (auto split: prod.splits)
  then show ?case using "4.IH" by (rule each_child_with_step)
qed simp

lemma refresh_all_step:
  "each_child_with refresh_recovery_pass jf es = (r, jf', es') \<Longrightarrow> recovery_step jf jf'"
  by (erule each_child_with_step) (rule refresh_recovery_pass_step)

definition recovery_view :: "JournalFile \<Rightarrow> RecoveryStatus \<times> (u64 \<times> u64 \<times> u64 \<times> u8 list) option" where
  "recovery_view file = (recovery_status file, recovered_tail_metadata file)"

definition unsettled :: "JournalFile \<Rightarrow> nat" where
  "unsettled file = (if discover_reader_prefix file = Ok (recovery file) then 0 else 1)"

lemma unsettled_decreases:
  assumes "recovery_step jf jf'" and "recovery_view jf \<noteq> recovery_view jf'"
  shows "unsettled jf' < unsettled jf"
proof -
  from assms(2) have "recovery jf' \<noteq> recovery jf"
    by (auto simp: recovery_view_def recovery_status_def recovered_tail_metadata_def)
  with assms(1) have "discover_reader_prefix jf = Ok (recovery jf')" "same_data jf' jf"
    by (auto simp: recovery_step_def)
  with \<open>recovery jf' \<noteq> recovery jf\<close> show ?thesis
    using same_discover_reader_prefix by (simp add: unsettled_def)
qed

function refresh_loop :: "JournalFile \<Rightarrow> FilterExpr list \<Rightarrow> unit result \<times> JournalFile \<times> FilterExpr list" where
  "refresh_loop file expressions =
     (case each_child_with refresh_recovery_pass file expressions of
        (Inl err, file', expressions') \<Rightarrow> (Err err, file', expressions')
      | (Inr _, file', expressions') \<Rightarrow>
          if recovery_view file = recovery_view file'
          then (Ok (), file', map (visit_cursors (\<lambda>c. c\<lparr>recovery_pending := False\<rparr>)) expressions')
          else refresh_loop file' expressions')"
  by pat_completeness auto
termination
  by (relation "measure (\<lambda>(file, _). unsettled file)")
    (auto intro!: unsettled_decreases dest: sym dest!: refresh_all_step)

declare refresh_loop.simps [simp del]

definition refresh_recovery_batch :: "JournalFile \<Rightarrow> FilterExpr list \<Rightarrow> unit result \<times> JournalFile \<times> FilterExpr list" where
  "refresh_recovery_batch file expressions =
     refresh_loop (file\<lparr>filter_recovery_seen := True\<rparr>)
       (map (visit_cursors (\<lambda>c. c\<lparr>recovery_pending := True\<rparr>)) expressions)"

section \<open>The operations of a filter on a file\<close>

text \<open>Both the file and the expression are state.\<close>

type_synonym 'a file_op = "(JournalFile \<times> FilterExpr, 'a) op"

definition on_filter :: "(array_ref \<Rightarrow> (FilterExpr, 'a) op) \<Rightarrow> 'a file_op" where
  "on_filter f s = (case s of (file, e) \<Rightarrow> (case f (reader_offset_array_ref file) e of (r, e') \<Rightarrow> (r, file, e')))"

definition change_filter :: "(FilterExpr \<Rightarrow> FilterExpr) \<Rightarrow> unit file_op" where
  "change_filter f = smodify (\<lambda>(file, e). (file, f e))"

definition refresh_recovery :: "unit file_op" where
  "refresh_recovery s =
     (case s of (file, e) \<Rightarrow>
        (case refresh_recovery_batch file [e] of
           (r, file', e' # _) \<Rightarrow> (r, file', e')
         | (r, file', []) \<Rightarrow> (r, file', e)))"

abbreviation clear_position_pending :: "FilterExpr \<Rightarrow> FilterExpr" where
  "clear_position_pending \<equiv> visit_cursors (\<lambda>c. c\<lparr>position_pending := False\<rparr>)"

definition refresh_if_pending :: "unit file_op" where
  "refresh_if_pending =
     sbind (sget (\<lambda>(file, e). any_cursor recovery_pending e)) (\<lambda>pending.
       if pending then refresh_recovery else sret ())"

definition filter_tail :: "unit file_op" where
  "filter_tail =
     sbind (sget (\<lambda>(file, e). filter_recovery_seen file)) (\<lambda>seen.
       if \<not> seen then on_filter tail_inner
       else sbind refresh_if_pending (\<lambda>_.
            sbind (on_filter tail_inner) (\<lambda>_. change_filter clear_position_pending)))"

definition prepare_recovery :: "bool \<Rightarrow> unit file_op" where
  "prepare_recovery backward =
     sbind (sget (\<lambda>(file, e). filter_recovery_seen file)) (\<lambda>seen.
       if \<not> seen then sret ()
       else sbind refresh_if_pending (\<lambda>_.
            sbind (sget (\<lambda>(file, e). any_cursor position_pending e)) (\<lambda>pending.
              if \<not> pending then sret ()
              else if backward
              then sbind (on_filter tail_inner) (\<lambda>_. change_filter clear_position_pending)
              else change_filter filter_head)))"

definition filter_seek_realtime :: "u64 \<Rightarrow> Direction \<Rightarrow> u64 option file_op" where
  "filter_seek_realtime needle direction =
     sbind (prepare_recovery False) (\<lambda>_.
     sbind (change_filter invalidate_position) (\<lambda>_.
       on_filter (\<lambda>aref. seek_realtime_inner aref direction needle)))"

definition filter_next :: "u64 \<Rightarrow> u64 option file_op" where
  "filter_next needle =
     sbind (prepare_recovery False) (\<lambda>_. on_filter (\<lambda>aref. next_inner aref needle))"

definition filter_previous :: "u64 \<Rightarrow> u64 option file_op" where
  "filter_previous needle =
     sbind (prepare_recovery True) (\<lambda>_. on_filter (\<lambda>aref. previous_inner aref needle))"

section \<open>What an expression means\<close>

text \<open>
  \<open>postings off\<close> is the sequence of entries of the data object at \<open>off\<close>.  \<open>matches\<close> is the meaning of an
  expression; \<open>visible direction\<close> is the part of it that the cursors can still deliver when moving in that
  direction, where a cursor that was last moved the other way starts over.
\<close>

fun matches :: "(u64 \<Rightarrow> u64 list) \<Rightarrow> FilterExpr \<Rightarrow> u64 set" where
  "matches postings NoMatch = {}"
| "matches postings (Match off ic) = set (postings off)"
| "matches postings (Conjunction es) = (\<Inter>e \<in> set es. matches postings e)"
| "matches postings (Disjunction es) = (\<Union>e \<in> set es. matches postings e)"

fun expr_ok :: "array_ref \<Rightarrow> (u64 \<Rightarrow> u64 list) \<Rightarrow> FilterExpr \<Rightarrow> bool" where
  "expr_ok aref postings NoMatch = True"
| "expr_ok aref postings (Match off ic) =
     (sorted_wrt (<) (postings off) \<and> (\<exists>k. ic_repr aref (postings off) k ic))"
| "expr_ok aref postings (Conjunction es) = list_all (expr_ok aref postings) es"
| "expr_ok aref postings (Disjunction es) = list_all (expr_ok aref postings) es"

fun visible :: "array_ref \<Rightarrow> (u64 \<Rightarrow> u64 list) \<Rightarrow> Direction \<Rightarrow> FilterExpr \<Rightarrow> u64 set" where
  "visible aref postings direction NoMatch = {}"
| "visible aref postings direction (Match off ic) =
     {v \<in> set (postings off). filter_direction ic = Some direction \<longrightarrow>
        (\<forall>c. ic_value aref ic = Ok (Some c) \<longrightarrow> before direction c v)}"
| "visible aref postings direction (Conjunction es) = (\<Inter>e \<in> set es. visible aref postings direction e)"
| "visible aref postings direction (Disjunction es) = (\<Union>e \<in> set es. visible aref postings direction e)"

definition opposite :: "Direction \<Rightarrow> Direction" where
  "opposite direction = (case direction of Forward \<Rightarrow> Backward | Backward \<Rightarrow> Forward)"

text \<open>\<open>nearest direction S needle r\<close>: \<open>r\<close> is the first element of \<open>S\<close> met from \<open>needle\<close> on.\<close>

definition nearest :: "Direction \<Rightarrow> u64 set \<Rightarrow> u64 \<Rightarrow> u64 option \<Rightarrow> bool" where
  "nearest direction S needle r \<longleftrightarrow>
     (case r of
        None \<Rightarrow> \<forall>v \<in> S. \<not> before direction needle v
      | Some v \<Rightarrow> v \<in> S \<and> before direction needle v \<and> (\<forall>w \<in> S. before direction needle w \<longrightarrow> before direction v w))"

text \<open>
  What a move from \<open>needle\<close> keeps: the meaning, the shape, everything visible from \<open>needle\<close> on, and
  everything visible the other way.
\<close>

definition moved :: "array_ref \<Rightarrow> (u64 \<Rightarrow> u64 list) \<Rightarrow> Direction \<Rightarrow> u64 \<Rightarrow> FilterExpr \<Rightarrow> FilterExpr \<Rightarrow> bool" where
  "moved aref postings direction needle e e' \<longleftrightarrow>
     expr_ok aref postings e' \<and> matches postings e' = matches postings e \<and> depth e' = depth e \<and>
     visible aref postings direction e' \<subseteq> visible aref postings direction e \<and>
     (\<forall>v \<in> visible aref postings direction e. before direction needle v \<longrightarrow> v \<in> visible aref postings direction e') \<and>
     visible aref postings (opposite direction) e \<subseteq> visible aref postings (opposite direction) e'"

definition exact_step :: "array_ref \<Rightarrow> (u64 \<Rightarrow> u64 list) \<Rightarrow> Direction \<Rightarrow> step \<Rightarrow> u64 \<Rightarrow> FilterExpr \<Rightarrow> bool" where
  "exact_step aref postings direction f needle e \<longleftrightarrow>
     (\<exists>r e'. f needle e = (Ok r, e') \<and> nearest direction (visible aref postings direction e) needle r \<and>
        moved aref postings direction needle e e')"

lemma before_simps [simp]: "before d a a"
  by (simp add: before_def split: Direction.split)

lemma before_trans: "before d a b \<Longrightarrow> before d b c \<Longrightarrow> before d a c"
  by (auto simp: before_def split: Direction.splits)

lemma before_antisym: "before d a b \<Longrightarrow> before d b a \<Longrightarrow> a = b"
  by (auto simp: before_def split: Direction.splits)

lemma before_total: "before d a b \<or> before d b a"
  by (auto simp: before_def split: Direction.splits)

lemma moved_refl: "expr_ok aref p e \<Longrightarrow> moved aref p d n e e"
  by (simp add: moved_def)

lemma moved_later: "moved aref p d n e e' \<Longrightarrow> before d n m \<Longrightarrow> moved aref p d m e e'"
  unfolding moved_def by (auto dest: before_trans [of d n m])

lemma moved_trans:
  "moved aref p d n e e' \<Longrightarrow> moved aref p d m e' e'' \<Longrightarrow> before d n m \<Longrightarrow> moved aref p d m e e''"
  unfolding moved_def by (auto dest: before_trans [of d n m])

lemma moved_compose:
  assumes "moved aref p d n e e1" and "moved aref p d m e1 e2"
    and "\<And>v. v \<in> visible aref p d e \<Longrightarrow> before d n v \<Longrightarrow> before d m v"
  shows "moved aref p d n e e2"
proof -
  have "v \<in> visible aref p d e2" if "v \<in> visible aref p d e" "before d n v" for v
    using assms(1,2) assms(3) [OF that] that by (auto simp: moved_def)
  with assms(1,2) show ?thesis unfolding moved_def by (metis subset_trans)
qed

lemma visible_matches: "visible aref p d e \<subseteq> matches p e"
  by (induction e) auto

section \<open>Leaves\<close>

definition reach :: "Direction \<Rightarrow> u64 list \<Rightarrow> nat \<Rightarrow> u64 set" where
  "reach d vs k = {v. \<exists>i < length vs. v = vs ! i \<and> (case d of Forward \<Rightarrow> k \<le> i | Backward \<Rightarrow> i \<le> k)}"

lemma sorted_nth_le:
  assumes "sorted_wrt (<) (vs :: u64 list)" and "i < length vs" and "k < length vs"
  shows "vs ! i \<le> vs ! k \<longleftrightarrow> i \<le> k"
proof (cases i k rule: linorder_cases)
  case less
  then show ?thesis using sorted_wrt_nth_less [OF assms(1) less assms(3)] by simp
next
  case greater
  then show ?thesis using sorted_wrt_nth_less [OF assms(1) greater assms(2)] by simp
qed simp

lemma visible_leaf:
  assumes s: "sorted_wrt (<) (p off)" and r: "ic_repr aref (p off) k ic" and d: "filter_direction ic = Some d"
  shows "visible aref p d (Match off ic) = reach d (p off) k"
proof (cases "p off = []")
  case False
  note v = ic_value_repr [OF r] ic_repr_less [OF r False]
  have "v \<in> visible aref p d (Match off ic) \<longleftrightarrow> v \<in> reach d (p off) k" for v
    using v False d sorted_nth_le [OF s]
    by (auto simp: before_def reach_def in_set_conv_nth split: Direction.split)
  then show ?thesis by blast
qed (simp add: reach_def)

lemma reach_ends:
  "reach Forward vs 0 = set vs" "reach Backward vs (length vs - 1) = set vs"
  by (force simp: reach_def in_set_conv_nth)+

lemma prepare_leaf:
  assumes s: "sorted_wrt (<) (p off)" and r: "ic_repr aref (p off) k ic"
  obtains ic1 k1 where "prepare_filter_direction aref d ic = (Ok (), ic1)" and "ic_repr aref (p off) k1 ic1"
    and "filter_direction ic1 = Some d" and "visible aref p d (Match off ic) = reach d (p off) k1"
proof (cases "filter_direction ic = Some d")
  case True
  with r visible_leaf [where p = p and off = off, OF s r True] that show thesis by (simp add: prepare_filter_direction_def)
next
  case False
  then have vis: "visible aref p d (Match off ic) = set (p off)" by simp
  show thesis
  proof (cases d)
    case Forward
    with False vis ic_head_repr [OF r] that [of "ic_head ic" 0] show thesis
      by (simp add: prepare_filter_direction_def reach_ends)
  next
    case Backward
    obtain t where "ic_tail aref ic = Ok t" "ic_repr aref (p off) (length (p off) - 1) t"
      "filter_direction t = Some Backward"
      using ic_tail_repr [OF r] by blast
    with Backward False vis that [of t "length (p off) - 1"] show thesis
      by (simp add: prepare_filter_direction_def reach_ends [simplified])
  qed
qed

definition until :: "Direction \<Rightarrow> u64 list \<Rightarrow> nat \<Rightarrow> u64 \<Rightarrow> u64 option \<Rightarrow> nat \<Rightarrow> bool" where
  "until d = (case d of Forward \<Rightarrow> first_from | Backward \<Rightarrow> last_upto)"

lemma until_reach:
  assumes "until d vs k needle r k'" and s: "sorted_wrt (<) vs"
  shows "nearest d (reach d vs k) needle r" and "reach d vs k' \<subseteq> reach d vs k"
    and "v \<in> reach d vs k \<Longrightarrow> before d needle v \<Longrightarrow> v \<in> reach d vs k'"
proof -
  show "reach d vs k' \<subseteq> reach d vs k"
    using assms(1) by (cases d) (auto simp: until_def first_from_def last_upto_def reach_def)
  show "v \<in> reach d vs k \<Longrightarrow> before d needle v \<Longrightarrow> v \<in> reach d vs k'" for v
    using assms(1)
    by (cases d) (force simp: until_def first_from_def last_upto_def reach_def before_def not_le [symmetric])+
  show "nearest d (reach d vs k) needle r"
  proof (cases r)
    case None
    with assms(1) show ?thesis
      by (cases d) (auto simp: until_def first_from_def last_upto_def reach_def before_def nearest_def not_le)
  next
    case (Some v)
    show ?thesis
    proof (cases d)
      case Forward
      with Some assms(1) have f: "k \<le> k'" "k' < length vs" "v = vs ! k'" "needle \<le> v"
        "\<And>i. i < length vs \<Longrightarrow> k \<le> i \<Longrightarrow> i < k' \<Longrightarrow> vs ! i < needle"
        by (auto simp: until_def first_from_def)
      then have "vs ! k' \<le> vs ! i" if "i < length vs" "k \<le> i" "needle \<le> vs ! i" for i
        using that sorted_nth_le [OF s \<open>k' < length vs\<close>, of i] by (metis not_le)
      with f Some Forward show ?thesis by (auto simp: nearest_def before_def reach_def)
    next
      case Backward
      with Some assms(1) have f: "k' \<le> k" "k' < length vs" "v = vs ! k'" "v \<le> needle"
        "\<And>i. i < length vs \<Longrightarrow> i \<le> k \<Longrightarrow> k' < i \<Longrightarrow> needle < vs ! i"
        by (auto simp: until_def last_upto_def)
      then have "vs ! i \<le> vs ! k'" if "i < length vs" "i \<le> k" "vs ! i \<le> needle" for i
        using that sorted_nth_le [OF s _ \<open>k' < length vs\<close>, of i] by (metis not_le)
      with f Some Backward show ?thesis by (auto simp: nearest_def before_def reach_def)
    qed
  qed
qed

text \<open>A leaf whose cursor ends on item \<open>k'\<close>, having started with everything from item \<open>k\<close> on.\<close>

lemma leaf_exact:
  assumes s: "sorted_wrt (<) (p off)" and vis: "visible aref p d (Match off ic) = reach d (p off) k"
    and u: "until d (p off) k needle r k'" and r': "ic_repr aref (p off) k' ic'"
    and dir: "filter_direction ic' = Some d" and f: "f needle (Match off ic) = (Ok r, Match off ic')"
  shows "exact_step aref p d f needle (Match off ic)"
proof -
  note vis' = visible_leaf [of p off aref k' ic' d, OF s r' dir]
  have "visible aref p (opposite d) (Match off ic') = set (p off)"
    using dir by (cases d) (auto simp: opposite_def)
  moreover have "visible aref p (opposite d) (Match off ic) \<subseteq> set (p off)" by auto
  ultimately have "moved aref p d needle (Match off ic) (Match off ic')"
    unfolding moved_def vis vis' using until_reach [OF u s] s r' by auto
  then show ?thesis
    unfolding exact_step_def vis using until_reach(1) [OF u s] f vis by blast
qed

lemma inner_leaf_exact:
  assumes "expr_ok aref p (Match off ic)"
  shows "exact_step aref p d (inner_at (Suc n) aref d) needle (Match off ic)"
proof -
  from assms obtain k where s: "sorted_wrt (<) (p off)" and r: "ic_repr aref (p off) k ic" by auto
  obtain ic1 k1 where pr: "prepare_filter_direction aref d ic = (Ok (), ic1)" and r1: "ic_repr aref (p off) k1 ic1"
    and d1: "filter_direction ic1 = Some d" and vis: "visible aref p d (Match off ic) = reach d (p off) k1"
    using prepare_leaf [where p = p and off = off, OF s r] by blast
  have "\<exists>res ic2 k2.
      (case d of Forward \<Rightarrow> next_until aref needle | Backward \<Rightarrow> previous_until aref needle) ic1 = (Ok res, ic2) \<and>
      ic_repr aref (p off) k2 ic2 \<and> same_flags ic1 ic2 \<and> until d (p off) k1 needle res k2"
  proof (cases d)
    case Forward
    with next_until_repr [OF r1, of needle] show ?thesis unfolding until_def by simp metis
  next
    case Backward
    with previous_until_repr [OF r1, of needle] show ?thesis unfolding until_def by simp metis
  qed
  then obtain res ic2 k2 where
    m: "(case d of Forward \<Rightarrow> next_until aref needle | Backward \<Rightarrow> previous_until aref needle) ic1 = (Ok res, ic2)"
    and r2: "ic_repr aref (p off) k2 ic2" and fl: "same_flags ic1 ic2" and u: "until d (p off) k1 needle res k2"
    by blast
  have "inner_at (Suc n) aref d needle (Match off ic) = (Ok res, Match off ic2)"
    using pr m by (simp add: sbind_def)
  moreover have "filter_direction ic2 = Some d" using fl d1 by (simp add: same_flags_def)
  ultimately show ?thesis using leaf_exact [OF s vis u r2] by blast
qed

section \<open>Conjunctions and disjunctions\<close>

abbreviation all_visible :: "array_ref \<Rightarrow> (u64 \<Rightarrow> u64 list) \<Rightarrow> Direction \<Rightarrow> FilterExpr list \<Rightarrow> u64 set" where
  "all_visible aref p d es \<equiv> \<Inter>e \<in> set es. visible aref p d e"

text \<open>A child left behind by a pass that gave up may have moved further than the needle.\<close>

definition drifted :: "array_ref \<Rightarrow> (u64 \<Rightarrow> u64 list) \<Rightarrow> Direction \<Rightarrow> FilterExpr \<Rightarrow> FilterExpr \<Rightarrow> bool" where
  "drifted aref p d e e' \<longleftrightarrow> (\<exists>m. moved aref p d m e e')"

definition passed ::
  "array_ref \<Rightarrow> (u64 \<Rightarrow> u64 list) \<Rightarrow> Direction \<Rightarrow> u64 \<Rightarrow> FilterExpr list \<Rightarrow> u64 option \<Rightarrow> FilterExpr list \<Rightarrow> bool" where
  "passed aref p d n es r es' \<longleftrightarrow>
     (case r of
        None \<Rightarrow> (\<forall>v \<in> all_visible aref p d es. \<not> before d n v) \<and> list_all2 (drifted aref p d) es es'
      | Some n' \<Rightarrow>
          before d n n' \<and> (\<forall>v \<in> all_visible aref p d es. before d n v \<longrightarrow> before d n' v) \<and>
          list_all2 (moved aref p d n') es es' \<and> (n' = n \<longrightarrow> n \<in> all_visible aref p d es))"

lemma list_all2_moved_refl: "list_all (expr_ok aref p) es \<Longrightarrow> list_all2 (moved aref p d n) es es"
  by (induction es) (simp_all add: moved_refl)

lemma drifted_refl: "list_all (expr_ok aref p) es \<Longrightarrow> list_all2 (drifted aref p d) es es"
  by (induction es) (auto simp: drifted_def intro: moved_refl)

lemma conjunction_pass_exact:
  assumes "list_all (expr_ok aref p) es" and "\<And>n e. e \<in> set es \<Longrightarrow> exact_step aref p d f n e"
  shows "\<exists>r es'. conjunction_pass f n es = (Ok r, es') \<and> passed aref p d n es r es'"
  using assms
proof (induction es arbitrary: n)
  case Nil
  then show ?case by (simp add: passed_def)
next
  case (Cons e es)
  obtain r e' where f: "f n e = (Ok r, e')" and near: "nearest d (visible aref p d e) n r"
    and mv: "moved aref p d n e e'"
    using Cons.prems(2) [of e n] by (auto simp: exact_step_def)
  have ok: "list_all (expr_ok aref p) es" using Cons.prems(1) by simp
  show ?case
  proof (cases r)
    case None
    have "passed aref p d n (e # es) None (e' # es)"
      using near None mv drifted_refl [OF ok] by (auto simp: passed_def nearest_def drifted_def)
    with f None show ?thesis by simp
  next
    case (Some m)
    obtain r2 es2 where g: "conjunction_pass f m es = (Ok r2, es2)" and ps: "passed aref p d m es r2 es2"
      using Cons.IH [OF ok] Cons.prems(2) by (meson list.set_intros(2))
    have nm: "before d n m" and mem: "m \<in> visible aref p d e"
      and least: "\<And>w. w \<in> visible aref p d e \<Longrightarrow> before d n w \<Longrightarrow> before d m w"
      using near Some by (auto simp: nearest_def)
    have "passed aref p d n (e # es) r2 (e' # es2)"
    proof (cases r2)
      case None
      with ps least mv show ?thesis by (auto simp: passed_def drifted_def)
    next
      case (Some n')
      with ps have mn: "before d m n'" by (simp add: passed_def)
      note nn = before_trans [OF nm mn]
      have "n' = n \<Longrightarrow> m = n" using before_antisym [OF nm] mn by auto
      with ps Some least mv nn mem moved_later [OF mv nn] show ?thesis
        by (auto simp: passed_def)
    qed
    with f Some g show ?thesis by simp
  qed
qed

lemma directed_pass_exact:
  assumes "list_all (expr_ok aref p) es" and "\<And>n e. e \<in> set es \<Longrightarrow> exact_step aref p d f n e"
  shows "\<exists>r es'. directed_pass d f n es = (Ok r, es') \<and> passed aref p d n es r es'"
proof -
  have "list_all (expr_ok aref p) (in_order d es)" using assms(1) by (simp add: list_all_iff)
  from conjunction_pass_exact [OF this] assms(2) obtain r es' where
    c: "conjunction_pass f n (in_order d es) = (Ok r, es')" and ps: "passed aref p d n (in_order d es) r es'"
    by (metis set_in_order)
  have "passed aref p d n es r (in_order d es')"
    using ps by (cases d) (auto simp: passed_def in_order_def list_all2_rev1 split: option.splits)
  with c show ?thesis by (simp add: directed_pass_def)
qed

lemma list_all2_visible:
  assumes "list_all2 (moved aref p d n) es es'"
  shows "all_visible aref p d es' \<subseteq> all_visible aref p d es"
    and "v \<in> all_visible aref p d es \<Longrightarrow> before d n v \<Longrightarrow> v \<in> all_visible aref p d es'"
  using assms by (induction es es' rule: list_all2_induct) (auto simp: moved_def)

lemma moved_drifted: "list_all2 (moved aref p d n) es es' \<Longrightarrow> list_all2 (drifted aref p d) es es'"
  by (erule list_all2_mono) (auto simp: drifted_def)

lemma drifted_trans:
  assumes "list_all2 (drifted aref p d) es es1" and "list_all2 (drifted aref p d) es1 es2"
  shows "list_all2 (drifted aref p d) es es2"
proof -
  have "drifted aref p d a c" if ab: "drifted aref p d a b" and bc: "drifted aref p d b c" for a b c
  proof -
    from ab bc obtain m k where "moved aref p d m a b" "moved aref p d k b c" by (auto simp: drifted_def)
    with moved_later moved_trans before_total show ?thesis unfolding drifted_def by metis
  qed
  then show ?thesis using assms list_all2_trans [of "drifted aref p d" "drifted aref p d" "drifted aref p d"] by metis
qed

lemma drifted_props:
  assumes "list_all2 (drifted aref p d) es es'"
  shows "list_all (expr_ok aref p) es'" and "matches p ` set es' = matches p ` set es"
    and "depth ` set es' = depth ` set es" and "all_visible aref p d es' \<subseteq> all_visible aref p d es"
    and "all_visible aref p (opposite d) es \<subseteq> all_visible aref p (opposite d) es'"
  using assms by (induction es es' rule: list_all2_induct) (auto simp: drifted_def moved_def)

lemma nearest_shift:
  assumes "nearest d S' n' r" and "S' \<subseteq> S" and "before d n n'"
    and "\<And>v. v \<in> S \<Longrightarrow> before d n v \<Longrightarrow> v \<in> S' \<and> before d n' v"
  shows "nearest d S n r"
proof (cases r)
  case None
  have "\<not> before d n v" if "v \<in> S" for v
    using assms(1,4) that None by (auto simp: nearest_def)
  with None show ?thesis by (simp add: nearest_def)
next
  case (Some v)
  with assms(1) have v: "v \<in> S'" "before d n' v" and least: "\<And>w. w \<in> S' \<Longrightarrow> before d n' w \<Longrightarrow> before d v w"
    by (auto simp: nearest_def)
  have "before d v w" if "w \<in> S" "before d n w" for w
    using least assms(4) [OF that] by blast
  moreover have "v \<in> S" "before d n v"
    using v assms(2) before_trans [OF assms(3)] by blast+
  ultimately show ?thesis using Some by (simp add: nearest_def)
qed

text \<open>The loop: every pass finds nothing between the old and the new needle.\<close>

lemma conjunction_loop_exact:
  assumes "list_all (expr_ok aref p) es" and "\<And>e. e \<in> set es \<Longrightarrow> depth e \<le> D"
    and "\<And>n e. expr_ok aref p e \<Longrightarrow> depth e \<le> D \<Longrightarrow> exact_step aref p d f n e"
  shows "\<exists>r es'. conjunction_loop d f n es = (Ok r, es') \<and> nearest d (all_visible aref p d es) n r \<and>
    list_all2 (drifted aref p d) es es' \<and>
    (\<forall>v \<in> all_visible aref p d es. before d n v \<longrightarrow> v \<in> all_visible aref p d es')"
  using assms
proof (induction d f n es rule: conjunction_loop.induct)
  case (1 d f n es)
  have ex: "exact_step aref p d f m e" if "e \<in> set es" for m e
    using "1.prems" that by (simp add: list_all_iff)
  obtain r es1 where dp: "directed_pass d f n es = (Ok r, es1)" and ps: "passed aref p d n es r es1"
    using directed_pass_exact [OF "1.prems"(1) ex] by blast
  show ?case
  proof (cases r)
    case None
    with dp ps have "conjunction_loop d f n es = (Ok None, es1)" by (simp add: conjunction_loop.simps)
    with ps None show ?thesis by (auto simp: passed_def nearest_def)
  next
    case (Some n')
    note ps = ps [unfolded passed_def Some option.case]
    from ps have le: "before d n n'" and mv: "list_all2 (moved aref p d n') es es1"
      and none: "\<And>v. v \<in> all_visible aref p d es \<Longrightarrow> before d n v \<Longrightarrow> before d n' v" by auto
    note dr = drifted_props [OF moved_drifted [OF mv]]
    have keep: "v \<in> all_visible aref p d es1" if "v \<in> all_visible aref p d es" "before d n v" for v
      using list_all2_visible(2) [OF mv that(1) none [OF that]] .
    show ?thesis
    proof (cases "n' = n")
      case True
      with dp Some have "conjunction_loop d f n es = (Ok (Some n), es1)" by (simp add: conjunction_loop.simps)
      moreover have "nearest d (all_visible aref p d es) n (Some n)"
        using ps True by (auto simp: nearest_def)
      ultimately show ?thesis using moved_drifted [OF mv] keep by blast
    next
      case False
      with dp Some le have e: "conjunction_loop d f n es = conjunction_loop d f n' es1"
        by (subst conjunction_loop.simps) simp
      have D: "depth x \<le> D" if "x \<in> set es1" for x
      proof -
        from that dr(3) have "depth x \<in> depth ` set es" by blast
        with "1.prems"(2) show ?thesis by auto
      qed
      obtain r2 es2 where l: "conjunction_loop d f n' es1 = (Ok r2, es2)"
        and near: "nearest d (all_visible aref p d es1) n' r2" and dr2: "list_all2 (drifted aref p d) es1 es2"
        and keep2: "\<forall>v \<in> all_visible aref p d es1. before d n' v \<longrightarrow> v \<in> all_visible aref p d es2"
        using "1.IH" [OF dp [symmetric] refl Some False _ dr(1) D "1.prems"(3)] le by simp metis
      have "nearest d (all_visible aref p d es) n r2"
        by (rule nearest_shift [OF near dr(4) le]) (use keep none in blast)
      moreover have "v \<in> all_visible aref p d es2" if "v \<in> all_visible aref p d es" "before d n v" for v
        using keep2 keep [OF that] none [OF that] by blast
      ultimately show ?thesis
        unfolding e using l drifted_trans [OF moved_drifted [OF mv] dr2] by blast
    qed
  qed
qed

lemma disjunction_pass_exact:
  assumes "list_all (expr_ok aref p) es" and "\<And>e. e \<in> set es \<Longrightarrow> exact_step aref p d f n e"
    and "nearest d S n best"
  shows "\<exists>r es'. disjunction_pass d f n best es = (Ok r, es') \<and>
    nearest d (S \<union> (\<Union>e \<in> set es. visible aref p d e)) n r \<and> list_all2 (moved aref p d n) es es'"
  using assms
proof (induction es arbitrary: best S)
  case (Cons e es)
  obtain r e' where f: "f n e = (Ok r, e')" and near: "nearest d (visible aref p d e) n r"
    and mv: "moved aref p d n e e'"
    using Cons.prems(2) [of e] by (auto simp: exact_step_def)
  let ?best = "case r of None \<Rightarrow> best | Some v \<Rightarrow> Some (case best of None \<Rightarrow> v | Some old \<Rightarrow> nearer d v old)"
  have "nearest d (S \<union> visible aref p d e) n ?best"
    using near Cons.prems(3)
    by (cases d; cases r; cases best) (force simp: nearest_def nearer_def before_def min_def max_def)+
  from Cons.IH [OF _ _ this] Cons.prems obtain r2 es2 where
    "disjunction_pass d f n ?best es = (Ok r2, es2)" "list_all2 (moved aref p d n) es es2"
    "nearest d (S \<union> visible aref p d e \<union> (\<Union>e \<in> set es. visible aref p d e)) n r2"
    by auto
  with f mv show ?case by (auto simp: Un_assoc)
qed simp

section \<open>Moving and seeking are exact\<close>

lemma moved_Conjunction:
  assumes "list_all2 (drifted aref p d) es es'"
    and "\<And>v. v \<in> all_visible aref p d es \<Longrightarrow> before d n v \<Longrightarrow> v \<in> all_visible aref p d es'"
  shows "moved aref p d n (Conjunction es) (Conjunction es')"
  using drifted_props [OF assms(1)] assms(2) unfolding moved_def by simp

lemma moved_Disjunction:
  assumes "list_all2 (moved aref p d n) es es'"
  shows "moved aref p d n (Disjunction es) (Disjunction es')"
proof -
  have "visible aref p d (Disjunction es') \<subseteq> visible aref p d (Disjunction es) \<and>
    visible aref p (opposite d) (Disjunction es) \<subseteq> visible aref p (opposite d) (Disjunction es') \<and>
    (\<forall>v \<in> visible aref p d (Disjunction es). before d n v \<longrightarrow> v \<in> visible aref p d (Disjunction es'))"
    using assms by (induction es es' rule: list_all2_induct) (auto simp: moved_def)
  with drifted_props [OF moved_drifted [OF assms]] show ?thesis
    unfolding moved_def by simp
qed

lemma depth_pos: "0 < depth e"
  by (cases e) auto

lemma depth_child:
  "e \<in> set es \<Longrightarrow> depth (Conjunction es) \<le> Suc n \<Longrightarrow> depth e \<le> n"
  "e \<in> set es \<Longrightarrow> depth (Disjunction es) \<le> Suc n \<Longrightarrow> depth e \<le> n"
  by simp_all

lemma inner_at_exact:
  "expr_ok aref p e \<Longrightarrow> depth e \<le> D \<Longrightarrow> exact_step aref p d (inner_at D aref d) n e"
proof (induction D arbitrary: e n)
  case 0
  then show ?case using depth_pos [of e] by simp
next
  case (Suc D)
  show ?case
  proof (cases e)
    case NoMatch
    then show ?thesis by (simp add: exact_step_def nearest_def moved_def)
  next
    case (Match off ic)
    with Suc.prems inner_leaf_exact show ?thesis by blast
  next
    case (Conjunction es)
    then have ok: "list_all (expr_ok aref p) es" and dp: "\<And>x. x \<in> set es \<Longrightarrow> depth x \<le> D"
      using Suc.prems depth_child(1) by auto
    obtain r es' where l: "conjunction_loop d (inner_at D aref d) n es = (Ok r, es')"
      and near: "nearest d (all_visible aref p d es) n r" and dr: "list_all2 (drifted aref p d) es es'"
      and keep: "\<forall>v \<in> all_visible aref p d es. before d n v \<longrightarrow> v \<in> all_visible aref p d es'"
      using conjunction_loop_exact [OF ok dp Suc.IH, where n = n] by blast
    have "moved aref p d n (Conjunction es) (Conjunction es')"
      using moved_Conjunction [OF dr] keep by blast
    with Conjunction l near show ?thesis by (simp add: exact_step_def)
  next
    case (Disjunction es)
    then have ok: "list_all (expr_ok aref p) es" and ex: "\<And>x. x \<in> set es \<Longrightarrow> exact_step aref p d (inner_at D aref d) n x"
      using Suc.prems depth_child(2) Suc.IH by (auto simp: list_all_iff)
    obtain r es' where "disjunction_pass d (inner_at D aref d) n None es = (Ok r, es')"
      and "nearest d ({} \<union> (\<Union>e \<in> set es. visible aref p d e)) n r" and "list_all2 (moved aref p d n) es es'"
      using disjunction_pass_exact [OF ok ex, of "{}" None] by (auto simp: nearest_def)
    with Disjunction moved_Disjunction show ?thesis by (auto simp: exact_step_def)
  qed
qed

lemma inner_exact: "expr_ok aref p e \<Longrightarrow> exact_step aref p d (inner aref d) n e"
  using inner_at_exact [of aref p e "depth e" d n] by (simp add: exact_step_def inner_def)

lemma seek_leaf_exact:
  assumes "expr_ok aref p (Match off ic)" and "filter_direction ic = None"
  shows "exact_step aref p d (seek_realtime_inner aref d) needle (Match off ic)"
proof -
  from assms obtain k where s: "sorted_wrt (<) (p off)" and r: "ic_repr aref (p off) k ic" by auto
  obtain res ic' k' where e: "ic_seek_realtime aref needle d ic = (Ok res, ic')" and r': "ic_repr aref (p off) k' ic'"
    and fl: "same_flags (ic\<lparr>filter_direction := Some d\<rparr>) ic'" and so: "sought d (p off) needle res k'"
    using ic_seek_realtime_repr [OF r s] by metis
  let ?k = "case d of Forward \<Rightarrow> 0 | Backward \<Rightarrow> length (p off) - 1"
  have vis: "visible aref p d (Match off ic) = reach d (p off) ?k"
    using assms(2) by (cases d) (simp_all add: reach_ends [simplified])
  have u: "until d (p off) ?k needle res k'" using so by (cases d) (simp_all add: until_def sought_def)
  show ?thesis
    by (rule leaf_exact [OF s vis u r']) (use fl e in \<open>auto simp: same_flags_def\<close>)
qed

definition fresh :: "FilterExpr \<Rightarrow> bool" where
  "fresh e \<longleftrightarrow> \<not> any_cursor (\<lambda>c. filter_direction c \<noteq> None) e"

lemma seek_exact:
  "expr_ok aref p e \<Longrightarrow> fresh e \<Longrightarrow> exact_step aref p d (seek_realtime_inner aref d) n e"
proof (induction e arbitrary: n)
  case NoMatch
  then show ?case by (simp add: exact_step_def nearest_def moved_def)
next
  case (Match off ic)
  then show ?case using seek_leaf_exact by (simp add: fresh_def)
next
  case (Disjunction es)
  then have ok: "list_all (expr_ok aref p) es" and ex: "\<And>x. x \<in> set es \<Longrightarrow> exact_step aref p d (seek_realtime_inner aref d) n x"
    by (auto simp: list_all_iff fresh_def list_ex_iff)
  obtain r es' where "disjunction_pass d (seek_realtime_inner aref d) n None es = (Ok r, es')"
    and "nearest d ({} \<union> (\<Union>e \<in> set es. visible aref p d e)) n r" and "list_all2 (moved aref p d n) es es'"
    using disjunction_pass_exact [OF ok ex, of "{}" None] by (auto simp: nearest_def)
  with moved_Disjunction show ?case by (auto simp: exact_step_def)
next
  case (Conjunction es)
  then have ok: "list_all (expr_ok aref p) es" and ex: "\<And>n x. x \<in> set es \<Longrightarrow> exact_step aref p d (seek_realtime_inner aref d) n x"
    by (auto simp: list_all_iff fresh_def list_ex_iff)
  obtain r es1 where dp: "directed_pass d (seek_realtime_inner aref d) n es = (Ok r, es1)"
    and ps: "passed aref p d n es r es1"
    using directed_pass_exact [OF ok ex] by blast
  show ?case
  proof (cases r)
    case None
    with ps have "nearest d (visible aref p d (Conjunction es)) n None" "moved aref p d n (Conjunction es) (Conjunction es1)"
      by (auto simp: passed_def nearest_def intro!: moved_Conjunction)
    with dp None show ?thesis by (simp add: exact_step_def)
  next
    case (Some n')
    note ps = ps [unfolded passed_def Some option.case]
    then have le: "before d n n'" and mv: "list_all2 (moved aref p d n') es es1"
      and none: "\<And>v. v \<in> all_visible aref p d es \<Longrightarrow> before d n v \<Longrightarrow> before d n' v" by auto
    have keep: "v \<in> all_visible aref p d es1" if "v \<in> all_visible aref p d es" "before d n v" for v
      using list_all2_visible(2) [OF mv that(1) none [OF that]] .
    have m1: "moved aref p d n (Conjunction es) (Conjunction es1)"
      using moved_Conjunction [OF moved_drifted [OF mv]] keep by blast
    show ?thesis
    proof (cases "n' = n")
      case True
      with dp Some ps m1 show ?thesis by (auto simp: exact_step_def nearest_def)
    next
      case False
      then have e: "seek_realtime_inner aref d n (Conjunction es) = inner aref d n' (Conjunction es1)"
        using dp Some by (cases d) (simp_all add: next_inner_def previous_inner_def)
      have "expr_ok aref p (Conjunction es1)" using m1 by (simp add: moved_def)
      from inner_exact [OF this, of d n'] obtain r2 e2 where i: "inner aref d n' (Conjunction es1) = (Ok r2, e2)"
        and near: "nearest d (visible aref p d (Conjunction es1)) n' r2" and m2: "moved aref p d n' (Conjunction es1) e2"
        by (auto simp: exact_step_def)
      have "nearest d (visible aref p d (Conjunction es)) n r2"
        by (rule nearest_shift [OF near _ le]) (use m1 keep none in \<open>auto simp: moved_def\<close>)
      moreover have "moved aref p d n (Conjunction es) e2"
        using m1 m2 none by (rule moved_compose) auto
      ultimately show ?thesis using e i by (simp add: exact_step_def)
    qed
  qed
qed

section \<open>The recursion equations of the source\<close>

text \<open>On any file, a result never lies against the direction.\<close>

lemma until_before:
  "next_until aref needle ic = (Ok (Some v), ic') \<Longrightarrow> needle \<le> v"
  "previous_until aref needle ic = (Ok (Some v), ic') \<Longrightarrow> v \<le> needle"
proof -
  have n: "next_until_loop aref needle ic = (Ok (Some v), ic') \<Longrightarrow> needle \<le> v" for ic
  proof (induction aref needle ic rule: next_until_loop.induct)
    case (1 aref needle ic)
    from "1.prems" show ?case
      by (subst (asm) next_until_loop.simps) (auto split: sum.splits option.splits if_splits dest: "1.IH")
  qed
  have p: "previous_until_loop aref needle ic = (Ok (Some v), ic') \<Longrightarrow> v \<le> needle" for ic
  proof (induction aref needle ic rule: previous_until_loop.induct)
    case (1 aref needle ic)
    from "1.prems" show ?case
      by (subst (asm) previous_until_loop.simps) (auto split: sum.splits option.splits if_splits dest: "1.IH")
  qed
  show "next_until aref needle ic = (Ok (Some v), ic') \<Longrightarrow> needle \<le> v"
    by (auto simp: next_until_def split: sum.splits option.splits if_splits dest: n)
  show "previous_until aref needle ic = (Ok (Some v), ic') \<Longrightarrow> v \<le> needle"
    by (auto simp: previous_until_def split: sum.splits option.splits if_splits dest: p)
qed

definition forward_step :: "Direction \<Rightarrow> step \<Rightarrow> FilterExpr \<Rightarrow> bool" where
  "forward_step d f e \<longleftrightarrow> (\<forall>n r e'. f n e = (r, e') \<longrightarrow> depth e' = depth e \<and> (\<forall>v. r = Ok (Some v) \<longrightarrow> before d n v))"

lemma conjunction_pass_forward:
  assumes "conjunction_pass f n es = (r, es')" and "\<And>e. e \<in> set es \<Longrightarrow> forward_step d f e"
  shows "map depth es' = map depth es \<and> (\<forall>v. r = Ok (Some v) \<longrightarrow> before d n v)"
  using assms
proof (induction es arbitrary: n r es')
  case (Cons e es)
  obtain r1 e1 where f: "f n e = (r1, e1)" by fastforce
  with Cons.prems(2) [of e] have fw: "depth e1 = depth e" "\<And>v. r1 = Ok (Some v) \<Longrightarrow> before d n v"
    by (auto simp: forward_step_def)
  show ?case
  proof (cases "\<exists>m. r1 = Ok (Some m)")
    case True
    then obtain m where m: "r1 = Ok (Some m)" ..
    obtain r2 es2 where g: "conjunction_pass f m es = (r2, es2)" by fastforce
    with Cons.IH [OF g] Cons.prems m f fw before_trans [of d n m] show ?thesis by auto
  next
    case False
    with Cons.prems(1) f fw(1) show ?thesis by (auto split: sum.splits option.splits)
  qed
qed auto

lemma directed_pass_forward:
  assumes "directed_pass d f n es = (r, es')" and "\<And>e. e \<in> set es \<Longrightarrow> forward_step d f e"
  shows "map depth es' = map depth es" and "r = Ok (Some v) \<Longrightarrow> before d n v"
proof -
  obtain es1 where c: "conjunction_pass f n (in_order d es) = (r, es1)" and e: "es' = in_order d es1"
    using assms(1) by (auto simp: directed_pass_def split: prod.splits)
  have fw: "map depth es1 = map depth (in_order d es)" "\<And>v. r = Ok (Some v) \<Longrightarrow> before d n v"
    using conjunction_pass_forward [OF c, of d] assms(2) by auto
  show "map depth es' = map depth es"
    unfolding e using fw(1) by (cases d) (auto simp: in_order_def rev_map [symmetric] rev_swap)
  show "r = Ok (Some v) \<Longrightarrow> before d n v" by (rule fw(2))
qed

lemma conjunction_loop_forward:
  assumes "conjunction_loop d f n es = (r, es')" and "\<And>e. depth e \<le> D \<Longrightarrow> forward_step d f e"
    and "\<And>e. e \<in> set es \<Longrightarrow> depth e \<le> D"
  shows "map depth es' = map depth es \<and> (\<forall>v. r = Ok (Some v) \<longrightarrow> before d n v)"
  using assms
proof (induction d f n es arbitrary: r es' rule: conjunction_loop.induct)
  case (1 d f n es)
  obtain r1 es1 where dp: "directed_pass d f n es = (r1, es1)" by fastforce
  have fw: "map depth es1 = map depth es" "\<And>v. r1 = Ok (Some v) \<Longrightarrow> before d n v"
    using directed_pass_forward [OF dp] "1.prems"(2,3) by auto
  have D: "depth x \<le> D" if "x \<in> set es1" for x
  proof -
    from that fw(1) have "depth x \<in> depth ` set es" by (metis image_eqI list.set_map)
    with "1.prems"(3) show ?thesis by auto
  qed
  show ?case
  proof (cases "\<exists>m. r1 = Ok (Some m) \<and> m \<noteq> n")
    case True
    then obtain m where m: "r1 = Ok (Some m)" "m \<noteq> n" by blast
    from fw(2) [OF m(1)] have le: "before d n m" .
    have l: "conjunction_loop d f m es1 = (r, es')"
      using "1.prems"(1) dp m le by (subst (asm) conjunction_loop.simps) simp
    show ?thesis
      using "1.IH" [OF dp [symmetric] m(1) refl m(2) _ l "1.prems"(2) D] le fw(1) before_trans [OF le] by simp
  next
    case False
    with "1.prems"(1) dp fw show ?thesis
      by (subst (asm) conjunction_loop.simps) (auto split: sum.splits option.splits if_splits)
  qed
qed

lemma disjunction_pass_forward:
  assumes "disjunction_pass d f n best es = (r, es')" and "\<And>e. e \<in> set es \<Longrightarrow> forward_step d f e"
    and "\<And>v. best = Some v \<Longrightarrow> before d n v"
  shows "map depth es' = map depth es \<and> (\<forall>v. r = Ok (Some v) \<longrightarrow> before d n v)"
  using assms
proof (induction es arbitrary: best r es')
  case (Cons e es)
  obtain r1 e1 where f: "f n e = (r1, e1)" by fastforce
  with Cons.prems(2) [of e] have fw: "depth e1 = depth e" "\<And>v. r1 = Ok (Some v) \<Longrightarrow> before d n v"
    by (auto simp: forward_step_def)
  show ?case
  proof (cases r1)
    case (Inl err)
    with Cons.prems(1) f fw show ?thesis by auto
  next
    case (Inr found)
    let ?best = "case found of None \<Rightarrow> best | Some v \<Rightarrow> Some (case best of None \<Rightarrow> v | Some old \<Rightarrow> nearer d v old)"
    obtain r2 es2 where g: "disjunction_pass d f n ?best es = (r2, es2)" by fastforce
    have "before d n v" if "?best = Some v" for v
      using that fw(2) Inr Cons.prems(3)
      by (auto simp: nearer_def before_def min_def max_def split: option.splits Direction.splits if_splits)
    with Cons.IH [OF g] Cons.prems f Inr fw(1) g show ?thesis by (auto simp: Let_def)
  qed
qed auto

lemma depth_Conjunction_cong: "map depth es' = map depth es \<Longrightarrow> depth (Conjunction es') = depth (Conjunction es)"
  "map depth es' = map depth es \<Longrightarrow> depth (Disjunction es') = depth (Disjunction es)"
  by (metis depth.simps(3,4) list.set_map)+

lemma inner_at_forward: "depth e \<le> D \<Longrightarrow> forward_step d (inner_at D aref d) e"
proof (induction D arbitrary: e)
  case 0
  then show ?case using depth_pos [of e] by simp
next
  case (Suc D)
  show ?case
    unfolding forward_step_def
  proof (intro allI impI)
    fix n r e' assume i: "inner_at (Suc D) aref d n e = (r, e')"
    show "depth e' = depth e \<and> (\<forall>v. r = Ok (Some v) \<longrightarrow> before d n v)"
    proof (cases e)
      case (Match off ic)
      with i show ?thesis
        by (cases d) (auto simp: sbind_def before_def until_before split: prod.splits sum.splits)
    next
      case (Conjunction es)
      with i obtain es' where l: "conjunction_loop d (inner_at D aref d) n es = (r, es')" and e': "e' = Conjunction es'"
        by (auto split: prod.splits)
      have "x \<in> set es \<Longrightarrow> depth x \<le> D" for x using Suc.prems Conjunction depth_child(1) by blast
      from conjunction_loop_forward [OF l Suc.IH this] Conjunction e' depth_Conjunction_cong(1)
      show ?thesis by blast
    next
      case (Disjunction es)
      with i obtain es' where l: "disjunction_pass d (inner_at D aref d) n None es = (r, es')" and e': "e' = Disjunction es'"
        by (auto split: prod.splits)
      have "x \<in> set es \<Longrightarrow> depth x \<le> D" for x using Suc.prems Disjunction depth_child(2) by blast
      from disjunction_pass_forward [OF l Suc.IH [OF this]] Disjunction e' depth_Conjunction_cong(2)
      show ?thesis by blast
    qed (use i in auto)
  qed
qed

lemma conjunction_loop_cong:
  assumes "\<And>e n. depth e \<le> D \<Longrightarrow> f n e = g n e" and "\<And>e. depth e \<le> D \<Longrightarrow> forward_step d f e"
    and "\<And>e. e \<in> set es \<Longrightarrow> depth e \<le> D"
  shows "conjunction_loop d f n es = conjunction_loop d g n es"
  using assms
proof (induction d f n es rule: conjunction_loop.induct)
  case (1 d f n es)
  obtain r1 es1 where dp: "directed_pass d f n es = (r1, es1)" by fastforce
  have "directed_pass d f n es = directed_pass d g n es"
    by (rule directed_pass_cong) (use "1.prems"(1,3) in auto)
  with dp have dg: "directed_pass d g n es = (r1, es1)" by simp
  have "map depth es1 = map depth es"
    using directed_pass_forward(1) [OF dp] "1.prems"(2,3) by blast
  then have "depth ` set es1 = depth ` set es" by (metis list.set_map)
  then have D: "depth x \<le> D" if "x \<in> set es1" for x
    using that "1.prems"(3) by (metis image_iff)
  have rec: "conjunction_loop d f m es1 = conjunction_loop d g m es1"
    if "r1 = Ok (Some m)" "m \<noteq> n" "before d n m" for m
    using "1.IH" [OF dp [symmetric] that(1) refl that(2) _ "1.prems"(1,2) D] that(3) by blast
  show ?case
  proof (cases "\<exists>m. r1 = Ok (Some m) \<and> m \<noteq> n \<and> before d n m")
    case True
    then obtain m where m: "r1 = Ok (Some m)" "m \<noteq> n" "before d n m" by blast
    have "conjunction_loop d f n es = conjunction_loop d f m es1" "conjunction_loop d g n es = conjunction_loop d g m es1"
      using dp dg m by (simp_all add: conjunction_loop.simps [of d _ n es])
    with rec [OF m] show ?thesis by simp
  next
    case False
    with dp dg show ?thesis
      by (auto simp: conjunction_loop.simps [of d _ n es] split: sum.split option.split)
  qed
qed

lemma inner_at_depth: "depth e \<le> D \<Longrightarrow> inner_at D aref d n e = inner aref d n e"
proof (induction "depth e" arbitrary: e n D rule: less_induct)
  case less
  obtain k where k: "depth e = Suc k" using depth_pos [of e] by (cases "depth e") auto
  obtain K where D: "D = Suc K" using less.prems k by (cases D) auto
  have sub: "inner_at K aref d m x = inner_at k aref d m x" if "depth x \<le> k" for m x
    using less.hyps [of x K m] less.hyps [of x k m] that k less.prems D by simp
  have loops: "conjunction_loop d (inner_at K aref d) n es = conjunction_loop d (inner_at k aref d) n es"
    "disjunction_pass d (inner_at K aref d) n None es = disjunction_pass d (inner_at k aref d) n None es"
    if "\<And>x. x \<in> set es \<Longrightarrow> depth x \<le> k" for es
  proof -
    show "conjunction_loop d (inner_at K aref d) n es = conjunction_loop d (inner_at k aref d) n es"
      by (rule conjunction_loop_cong [of k]) (use that sub inner_at_forward less.prems k D in \<open>auto intro: order_trans\<close>)
    show "disjunction_pass d (inner_at K aref d) n None es = disjunction_pass d (inner_at k aref d) n None es"
      by (rule disjunction_pass_cong) (use that sub in auto)
  qed
  have "depth x \<le> k" if "e = Conjunction es \<or> e = Disjunction es" "x \<in> set es" for x es
    using that k depth_child [of x es k] by auto
  with loops show ?case unfolding inner_def k D by (cases e) auto
qed

lemma inner_loop:
  "conjunction_loop d (inner_at (depth (Conjunction es) - 1) aref d) n es = conjunction_loop d (inner aref d) n es"
  by (rule conjunction_loop_cong [of "depth (Conjunction es) - 1"])
    (auto intro: inner_at_depth inner_at_forward)

text \<open>The equations, with the loop of a conjunction as the source has it, without the \<open>Panic\<close> branch.\<close>

lemma inner_simps:
  "inner aref d n NoMatch = (Ok None, NoMatch)"
  "inner aref d n (Match off ic) =
     (case sbind (prepare_filter_direction aref d) (\<lambda>_.
             case d of Forward \<Rightarrow> next_until aref n | Backward \<Rightarrow> previous_until aref n) ic of
        (r, ic') \<Rightarrow> (r, Match off ic'))"
  "inner aref d n (Conjunction es) =
     (case conjunction_loop d (inner aref d) n es of (r, es') \<Rightarrow> (r, Conjunction es'))"
  "inner aref d n (Disjunction es) =
     (case disjunction_pass d (inner aref d) n None es of (r, es') \<Rightarrow> (r, Disjunction es'))"
proof -
  have "disjunction_pass d (inner_at (Max (insert 0 (depth ` set es))) aref d) n None es =
      disjunction_pass d (inner aref d) n None es"
    by (rule disjunction_pass_cong) (auto intro!: inner_at_depth)
  then show "inner aref d n (Disjunction es) =
     (case disjunction_pass d (inner aref d) n None es of (r, es') \<Rightarrow> (r, Disjunction es'))"
    by (simp add: inner_def)
qed (use inner_loop [of d es aref n] in \<open>simp_all add: inner_def\<close>)

lemma inner_forward: "forward_step d (inner aref d) e"
  using inner_at_forward [of e "depth e" d aref] by (simp add: forward_step_def inner_def)

lemma conjunction_loop_inner:
  "conjunction_loop d (inner aref d) n es =
     (case directed_pass d (inner aref d) n es of
        (Inl err, es') \<Rightarrow> (Err err, es')
      | (Inr None, es') \<Rightarrow> (Ok None, es')
      | (Inr (Some n'), es') \<Rightarrow>
          if n' = n then (Ok (Some n), es') else conjunction_loop d (inner aref d) n' es')"
proof -
  have "before d n m" if "directed_pass d (inner aref d) n es = (Ok (Some m), es')" for m es'
    using directed_pass_forward(2) [OF that] inner_forward by blast
  then show ?thesis
    by (subst conjunction_loop.simps) (auto split: prod.split sum.split option.split)
qed

section \<open>Properties\<close>

text \<open>
  Nothing is waiting to be refreshed: no reader has met a recovered prefix, or no cursor is marked.
  The operations on a file then are the inner ones.
\<close>

definition calm :: "JournalFile \<Rightarrow> FilterExpr \<Rightarrow> bool" where
  "calm file e \<longleftrightarrow>
     (filter_recovery_seen file \<longrightarrow> \<not> any_cursor recovery_pending e \<and> \<not> any_cursor position_pending e)"

definition filter_move :: "Direction \<Rightarrow> u64 \<Rightarrow> u64 option file_op" where
  "filter_move direction = (case direction of Forward \<Rightarrow> filter_next | Backward \<Rightarrow> filter_previous)"

lemma prepare_recovery_calm: "calm file e \<Longrightarrow> prepare_recovery b (file, e) = (Ok (), file, e)"
  by (simp add: prepare_recovery_def refresh_if_pending_def calm_def sbind_def sget_def sret_def)

lemma filter_move_calm:
  "calm file e \<Longrightarrow> filter_move d n (file, e) =
     (case inner (reader_offset_array_ref file) d n e of (r, e') \<Rightarrow> (r, file, e'))"
  by (cases d) (simp_all add: filter_move_def filter_next_def filter_previous_def sbind_def prepare_recovery_calm
      on_filter_def next_inner_def previous_inner_def)

lemma visit_cursors_keeps:
  assumes "\<And>c k vs. ic_repr aref vs k c \<Longrightarrow> \<exists>k'. ic_repr aref vs k' (visit c)"
  shows "expr_ok aref p e \<Longrightarrow> expr_ok aref p (visit_cursors visit e)"
    and "matches p (visit_cursors visit e) = matches p e" and "depth (visit_cursors visit e) = depth e"
proof -
  show "expr_ok aref p e \<Longrightarrow> expr_ok aref p (visit_cursors visit e)"
    using assms by (induction e) (force simp: list_all_iff)+
  show "matches p (visit_cursors visit e) = matches p e" by (induction e) auto
  show "depth (visit_cursors visit e) = depth e"
    by (induction e) (auto simp: image_image cong: image_cong)
qed

lemma invalidate_position_props:
  assumes "expr_ok aref p e"
  shows "expr_ok aref p (invalidate_position e)" and "fresh (invalidate_position e)"
    and "matches p (invalidate_position e) = matches p e"
    and "visible aref p d (invalidate_position e) = matches p e"
proof -
  show "expr_ok aref p (invalidate_position e)"
    unfolding invalidate_position_def by (rule visit_cursors_keeps(1) [OF _ assms]) auto
  show "matches p (invalidate_position e) = matches p e"
    unfolding invalidate_position_def by (rule visit_cursors_keeps(2) [of aref]) auto
  show "fresh (invalidate_position e)" unfolding fresh_def invalidate_position_def
    by (induction e) (auto simp: list_ex_iff)
  show "visible aref p d (invalidate_position e) = matches p e"
    unfolding invalidate_position_def by (induction e) auto
qed

text \<open>A filter \<open>(A AND B) OR C\<close> over the sample file, for the witnesses.\<close>

definition sample_postings :: "u64 \<Rightarrow> u64 list" where
  "sample_postings off = (if off = 1000 then [48, 64, 256] else if off = 2000 then [48] else if off = 3000 then [32] else [])"

definition sample_filter :: FilterExpr where
  "sample_filter =
     Disjunction
       [Conjunction
          [Match 1000 (ic_new 48 (Some (cursor_at_head \<lparr>head_offset = 16, total_items = 2\<rparr>))),
           Match 2000 (ic_new 48 None)],
        Match 3000 (ic_new 32 None)]"

lemma sample_filter_ok: "expr_ok (reader_offset_array_ref sample_entries_file) sample_postings sample_filter"
proof -
  let ?aref = "reader_offset_array_ref sample_entries_file" and ?l = "\<lparr>head_offset = 16, total_items = 2\<rparr>"
  have r: "chain_repr ?aref ?l [(16, [64, 256])]"
    by (simp add: chain_repr_def sample_array_ref array_capacity_def upt_rec)
  have "ic_repr ?aref [48, 64, 256] 0 (ic_new 48 (Some (cursor_at_head ?l)))"
    by (rule ic_reprI [OF _ r cursor_at_head_repr [OF r]]) (simp_all add: ic_new_def)
  moreover have "ic_repr ?aref [v] 0 (ic_new v None)" for v
    by (simp add: ic_repr_def ic_is_empty_def ic_new_def)
  ultimately show ?thesis
    unfolding sample_filter_def by (auto simp: sample_postings_def)
qed

lemma sample_filter_calm: "calm sample_entries_file sample_filter"
  by (simp add: calm_def sample_entries_file_def sample_file_def)

lemma sample_matches: "matches sample_postings sample_filter = {32, 48}"
  by (auto simp: sample_filter_def sample_postings_def)

text \<open>
  C13. The next and previous match of a filter.  On postings with increasing offsets, \<open>next\<close> (and
  \<open>previous\<close>) from \<open>needle\<close> returns exactly the nearest entry in that direction, at or beyond \<open>needle\<close>,
  that satisfies the expression among the entries its cursors can still deliver; the move keeps the
  meaning of the expression and loses nothing that lies at or beyond \<open>needle\<close>, nor anything in the other
  direction; conjunctions, disjunctions and their nesting included, and no such move fails.
\<close>

theorem filter_move_exact:
  assumes "expr_ok (reader_offset_array_ref file) postings e" and "calm file e"
  shows "\<exists>r e'. filter_move direction needle (file, e) = (Ok r, file, e') \<and>
    nearest direction (visible (reader_offset_array_ref file) postings direction e) needle r \<and>
    moved (reader_offset_array_ref file) postings direction needle e e'"
  using inner_exact [OF assms(1), of direction needle] filter_move_calm [OF assms(2)]
  by (auto simp: exact_step_def)

theorem filter_move_exact_witness:
  "\<exists>r e'. filter_move Forward 1 (sample_entries_file, sample_filter) = (Ok r, sample_entries_file, e') \<and>
     nearest Forward (visible (reader_offset_array_ref sample_entries_file) sample_postings Forward sample_filter) 1 r"
  using filter_move_exact [OF sample_filter_ok sample_filter_calm, of Forward 1] by blast

text \<open>
  C14. Seeking a filter to an offset forgets where its cursors were: forward it returns the first match at
  or after the offset, backward the last match at or before it, among all the matches of the expression,
  and every match from there on is still delivered by the moves that follow.
\<close>

theorem filter_seek_exact:
  assumes "expr_ok (reader_offset_array_ref file) postings e" and "calm file e"
  shows "\<exists>r e'. filter_seek_realtime needle direction (file, e) = (Ok r, file, e') \<and>
    nearest direction (matches postings e) needle r \<and>
    expr_ok (reader_offset_array_ref file) postings e' \<and> matches postings e' = matches postings e \<and>
    (\<forall>v \<in> matches postings e. before direction needle v \<longrightarrow>
       v \<in> visible (reader_offset_array_ref file) postings direction e')"
proof -
  let ?aref = "reader_offset_array_ref file" and ?e = "invalidate_position e"
  note inv = invalidate_position_props [OF assms(1)]
  have "filter_seek_realtime needle direction (file, e) =
      (case seek_realtime_inner ?aref direction needle ?e of (r, e') \<Rightarrow> (r, file, e'))"
    by (simp add: filter_seek_realtime_def sbind_def prepare_recovery_calm [OF assms(2)] change_filter_def
        smodify_def on_filter_def)
  with seek_exact [OF inv(1,2), of direction needle] inv(3,4) show ?thesis
    by (auto simp: exact_step_def moved_def)
qed

theorem filter_seek_exact_witness:
  "\<exists>e'. filter_seek_realtime 40 Forward (sample_entries_file, sample_filter) = (Ok (Some 48), sample_entries_file, e')"
proof -
  obtain r e' where f: "filter_seek_realtime 40 Forward (sample_entries_file, sample_filter) = (Ok r, sample_entries_file, e')"
    and n: "nearest Forward (matches sample_postings sample_filter) 40 r"
    using filter_seek_exact [OF sample_filter_ok sample_filter_calm, of 40 Forward] by blast
  have "r = Some 48"
    using n unfolding sample_matches nearest_def before_def by (auto split: option.splits)
  with f show ?thesis by blast
qed

text \<open>
  The loop of a conjunction ends on every file, however damaged its postings are: a pass over the
  children never moves the needle against the direction, so \<open>next_inner\<close> and \<open>previous_inner\<close> satisfy the
  recursion equation of the source, in which the loop only stops when the needle no longer moves, when a
  child is exhausted or at an error.
\<close>

theorem conjunction_loop_terminates:
  "inner aref d n (Conjunction es) =
     (case directed_pass d (inner aref d) n es of
        (Inl err, es') \<Rightarrow> (Err err, Conjunction es')
      | (Inr None, es') \<Rightarrow> (Ok None, Conjunction es')
      | (Inr (Some n'), es') \<Rightarrow>
          if n' = n then (Ok (Some n), Conjunction es') else inner aref d n' (Conjunction es'))"
  unfolding inner_simps(3) by (subst conjunction_loop_inner) (auto split: prod.split sum.split option.split)

end
