(* ===== verification/Journal_Cursor.thy ===== *)
theory Journal_Cursor
  imports Filter_Expr
begin

text \<open>
  The cursor of a reader over one file, \<^verbatim>\<open>journal-core/src/file/cursor.rs\<close>: a location, an optional filter and
  an optional cached position in the entry array.  A step resolves the location in a direction, over all
  entries or over the matches of the filter, and retries once when the tail of the file was lost.

  The theory shows that stepping forward from the head, or backward from the tail, delivers every match
  of the filter exactly once and in order, the same for the entries of the file without a filter, and
  that turning around with a filter can miss a match.
\<close>

section \<open>State\<close>

datatype Location =
    Head
  | Tail
  | Realtime u64
  | Monotonic u64 "u8 list"
  | Seqnum u64 "u8 list option"
  | XorHash u64
  | ResolvedEntry u64

record JournalCursor =
  location :: Location
  filter_expr :: "FilterExpr option"
  array_cursor :: "Cursor option"

definition cursor_new :: JournalCursor where
  "cursor_new = \<lparr>location = Head, filter_expr = None, array_cursor = None\<rparr>"

fun is_resolved :: "Location \<Rightarrow> bool" where
  "is_resolved (ResolvedEntry _) = True"
| "is_resolved _ = False"

definition set_location :: "Location \<Rightarrow> JournalCursor \<Rightarrow> JournalCursor" where
  "set_location loc c =
     (let c = c\<lparr>location := loc, array_cursor := None\<rparr>
      in if is_resolved loc then c\<lparr>filter_expr := map_option invalidate_position (filter_expr c)\<rparr> else c)"

definition set_filter :: "FilterExpr \<Rightarrow> JournalCursor \<Rightarrow> JournalCursor" where
  "set_filter e c =
     c\<lparr>filter_expr := Some (if is_resolved (location c) then invalidate_position e else e)\<rparr>"

definition clear_filter :: "JournalCursor \<Rightarrow> JournalCursor" where
  "clear_filter c = set_location Head (c\<lparr>filter_expr := None, array_cursor := None\<rparr>)"

definition cursor_position :: "JournalCursor \<Rightarrow> u64 result" where
  "cursor_position c = (case location c of ResolvedEntry off \<Rightarrow> Ok off | _ \<Rightarrow> Err UnsetCursor)"

text \<open>Operations on the cursor may change the file's recovery state as well.\<close>

type_synonym 'a cursor_op = "(JournalFile \<times> JournalCursor, 'a) op"

definition file_get :: "(JournalFile \<Rightarrow> 'a) \<Rightarrow> 'a cursor_op" where
  "file_get f = sget (\<lambda>(file, c). f file)"

definition on_file :: "(JournalFile, 'a) op \<Rightarrow> 'a cursor_op" where
  "on_file m s = (case s of (file, c) \<Rightarrow> (case m file of (r, file') \<Rightarrow> (r, file', c)))"

definition change_cursor :: "(JournalCursor \<Rightarrow> JournalCursor) \<Rightarrow> unit cursor_op" where
  "change_cursor f = smodify (\<lambda>(file, c). (file, f c))"

section \<open>Stepping over the entry array\<close>

definition cursor_entry_list :: "JournalFile \<Rightarrow> List option result" where
  "cursor_entry_list file =
     (if reader_entry_count file = 0 then Ok None
      else ok_or (map_option Some (entry_list file)) ObjectExceedsFileBounds)"

definition store_array_cursor_value :: "Cursor \<Rightarrow> Location option cursor_op" where
  "store_array_cursor_value cursor s =
     (case s of (file, c) \<Rightarrow>
        (case materialize_value (reader_offset_array_ref file) cursor of
           Inl e \<Rightarrow> (Err e, s)
         | Inr None \<Rightarrow> (Ok None, s)
         | Inr (Some (cursor', off)) \<Rightarrow> (Ok (Some (ResolvedEntry off)), file, c\<lparr>array_cursor := Some cursor'\<rparr>)))"

definition resolve_head_array :: "Location option cursor_op" where
  "resolve_head_array =
     sbind (file_get cursor_entry_list) (\<lambda>r. sbind (slift r) (\<lambda>found.
       case found of
         None \<Rightarrow> sret None
       | Some l \<Rightarrow> store_array_cursor_value (cursor_at_head l)))"

definition resolve_tail_array :: "Location option cursor_op" where
  "resolve_tail_array =
     sbind (file_get cursor_entry_list) (\<lambda>r. sbind (slift r) (\<lambda>found.
       case found of
         None \<Rightarrow> sret None
       | Some l \<Rightarrow>
           sbind (file_get (\<lambda>file. cursor_at_tail (reader_offset_array_ref file) l)) (\<lambda>r.
           sbind (slift r) store_array_cursor_value)))"

definition realtime_predicate :: "JournalFile \<Rightarrow> u64 \<Rightarrow> Direction \<Rightarrow> u64 \<Rightarrow> bool result" where
  "realtime_predicate file rt direction entry_offset =
     rbind (entry_ref file entry_offset) (\<lambda>entry.
       Ok (case direction of
             Forward \<Rightarrow> realtime (entry_header entry) < rt
           | Backward \<Rightarrow> realtime (entry_header entry) \<le> rt))"

definition realtime_array_cursor :: "JournalFile \<Rightarrow> u64 \<Rightarrow> Direction \<Rightarrow> Cursor option result" where
  "realtime_array_cursor file rt direction =
     rbind (cursor_entry_list file) (\<lambda>found.
       case found of
         None \<Rightarrow> Ok None
       | Some l \<Rightarrow> list_directed_partition_point (reader_offset_array_ref file) l
                    (realtime_predicate file rt direction) direction)"

definition store_found :: "Cursor option \<Rightarrow> Location option cursor_op" where
  "store_found found = (case found of None \<Rightarrow> sret None | Some cursor \<Rightarrow> store_array_cursor_value cursor)"

definition resolve_realtime_array :: "u64 \<Rightarrow> Direction \<Rightarrow> Location option cursor_op" where
  "resolve_realtime_array rt direction =
     sbind (file_get (\<lambda>file. realtime_array_cursor file rt direction)) (\<lambda>r. sbind (slift r) store_found)"

definition resolve_missing_array_cursor :: "Direction \<Rightarrow> Location option cursor_op" where
  "resolve_missing_array_cursor direction =
     sbind (sget (\<lambda>(file, c). cursor_position c)) (\<lambda>r. sbind (slift r) (\<lambda>off.
     sbind (file_get cursor_entry_list) (\<lambda>r. sbind (slift r) (\<lambda>found.
       case found of
         None \<Rightarrow> sret None
       | Some l \<Rightarrow>
           sbind (file_get (\<lambda>file. list_directed_partition_point (reader_offset_array_ref file) l
                    (\<lambda>candidate. Ok (if direction = Forward then candidate \<le> off else candidate < off)) direction))
             (\<lambda>r. sbind (slift r) store_found)))))"

definition step_array_cursor :: "Direction \<Rightarrow> Location option cursor_op" where
  "step_array_cursor direction =
     sbind (sget (\<lambda>(file, c). array_cursor c)) (\<lambda>current.
       case current of
         None \<Rightarrow> resolve_missing_array_cursor direction
       | Some cursor \<Rightarrow>
           sbind (file_get (\<lambda>file. case direction of
                    Forward \<Rightarrow> cursor_next (reader_offset_array_ref file) cursor
                  | Backward \<Rightarrow> cursor_previous (reader_offset_array_ref file) cursor)) (\<lambda>r.
           sbind (slift r) store_found))"

definition resolve_array_cursor :: "Direction \<Rightarrow> Location option cursor_op" where
  "resolve_array_cursor direction =
     sbind (sget (\<lambda>(file, c). location c)) (\<lambda>loc.
       case (loc, direction) of
         (Head, Forward) \<Rightarrow> resolve_head_array
       | (Head, Backward) \<Rightarrow> sret None
       | (Tail, Forward) \<Rightarrow> sret None
       | (Tail, Backward) \<Rightarrow> resolve_tail_array
       | (Realtime rt, direction) \<Rightarrow> resolve_realtime_array rt direction
       | (ResolvedEntry _, direction) \<Rightarrow> step_array_cursor direction
       | _ \<Rightarrow> sfail InvalidQueryConfiguration)"

section \<open>Stepping over the matches of a filter\<close>

text \<open>\<open>filter_expr_mut\<close>, followed by an operation on the expression.\<close>

definition with_filter :: "'a file_op \<Rightarrow> 'a cursor_op" where
  "with_filter m s =
     (case s of (file, c) \<Rightarrow>
        (case filter_expr c of
           None \<Rightarrow> (Err InvalidQueryConfiguration, s)
         | Some e \<Rightarrow> (case m (file, e) of (r, file', e') \<Rightarrow> (r, file', c\<lparr>filter_expr := Some e'\<rparr>))))"

definition resolved :: "u64 option cursor_op \<Rightarrow> Location option cursor_op" where
  "resolved m = sbind m (\<lambda>found. sret (map_option ResolvedEntry found))"

definition cursor_filter_head :: "Location option cursor_op" where
  "cursor_filter_head = resolved (with_filter (sbind (change_filter filter_head) (\<lambda>_. filter_next 1)))"

definition cursor_filter_tail :: "Location option cursor_op" where
  "cursor_filter_tail = resolved (with_filter (sbind filter_tail (\<lambda>_. filter_previous u64_max)))"

definition resolve_filter_at_offset :: "Direction \<Rightarrow> u64 \<Rightarrow> Location option cursor_op" where
  "resolve_filter_at_offset direction entry_offset =
     resolved (with_filter (filter_seek_realtime entry_offset direction))"

definition resolve_filter_realtime :: "u64 \<Rightarrow> Direction \<Rightarrow> Location option cursor_op" where
  "resolve_filter_realtime rt direction =
     sbind (file_get (\<lambda>file. realtime_array_cursor file rt direction)) (\<lambda>r. sbind (slift r) (\<lambda>found.
       case found of
         None \<Rightarrow> sret None
       | Some cursor \<Rightarrow>
           sbind (file_get (\<lambda>file. cursor_value (reader_offset_array_ref file) cursor)) (\<lambda>r.
           sbind (slift r) (\<lambda>v.
             case v of None \<Rightarrow> sret None | Some entry_offset \<Rightarrow> resolve_filter_at_offset direction entry_offset))))"

definition filter_after_resolved :: "u64 \<Rightarrow> Location option cursor_op" where
  "filter_after_resolved off = resolved (with_filter (filter_next (saturating_add off 1)))"

definition filter_before_resolved :: "u64 \<Rightarrow> Location option cursor_op" where
  "filter_before_resolved off =
     (case nonzero (off - 1) of
        None \<Rightarrow> sret None
      | Some needle \<Rightarrow> resolved (with_filter (filter_previous needle)))"

definition resolve_filter_location :: "Direction \<Rightarrow> Location option cursor_op" where
  "resolve_filter_location direction =
     sbind (sget (\<lambda>(file, c). (location c, reader_entry_count file = 0))) (\<lambda>(loc, no_entries).
       case (loc, direction) of
         (Head, Forward) \<Rightarrow> if no_entries then sret None else cursor_filter_head
       | (Head, Backward) \<Rightarrow> sret None
       | (Tail, Forward) \<Rightarrow> sret None
       | (Tail, Backward) \<Rightarrow> if no_entries then sret None else cursor_filter_tail
       | (Realtime rt, direction) \<Rightarrow> resolve_filter_realtime rt direction
       | (ResolvedEntry off, Forward) \<Rightarrow> filter_after_resolved off
       | (ResolvedEntry off, Backward) \<Rightarrow> filter_before_resolved off
       | _ \<Rightarrow> sfail InvalidQueryConfiguration)"

section \<open>A step\<close>

definition step_inner :: "Direction \<Rightarrow> bool cursor_op" where
  "step_inner direction =
     sbind (sget (\<lambda>(file, c). filter_expr c \<noteq> None)) (\<lambda>filtered.
     sbind (if filtered then resolve_filter_location direction else resolve_array_cursor direction) (\<lambda>found.
       case found of
         Some loc \<Rightarrow> sbind (change_cursor (\<lambda>c. c\<lparr>location := loc\<rparr>)) (\<lambda>_. sret True)
       | None \<Rightarrow> sret False))"

definition reset_after_recovery :: "Location \<Rightarrow> unit cursor_op" where
  "reset_after_recovery loc =
     sbind (change_cursor (\<lambda>c. c\<lparr>location := loc, array_cursor := None\<rparr>)) (\<lambda>_.
     sbind (sget (\<lambda>(file, c). filter_expr c \<noteq> None)) (\<lambda>filtered.
       if filtered then with_filter refresh_recovery else sret ()))"

definition step_recovery :: "Direction \<Rightarrow> bool result \<Rightarrow> bool cursor_op" where
  "step_recovery direction result =
     (case result of
        Inr b \<Rightarrow> sret b
      | Inl err \<Rightarrow>
          sbind (sget (\<lambda>(file, c). location c)) (\<lambda>loc.
          sbind (on_file (recover_reader_tail err)) (\<lambda>recovered.
            if recovered then sbind (reset_after_recovery loc) (\<lambda>_. step_inner direction)
            else sfail err)))"

definition cursor_step :: "Direction \<Rightarrow> bool cursor_op" where
  "cursor_step direction s =
     (case step_inner direction s of
        (Inr True, s') \<Rightarrow> (Ok True, s')
      | (result, s') \<Rightarrow> step_recovery direction result s')"

section \<open>Walking in one direction\<close>

text \<open>At most \<open>n\<close> steps, collecting the positions, until a step finds nothing.\<close>

fun walk :: "Direction \<Rightarrow> nat \<Rightarrow> u64 list cursor_op" where
  "walk direction 0 = sret []"
| "walk direction (Suc n) =
     sbind (cursor_step direction) (\<lambda>found.
       if \<not> found then sret []
       else sbind (sget (\<lambda>(file, c). cursor_position c)) (\<lambda>r. sbind (slift r) (\<lambda>off.
            sbind (walk direction n) (\<lambda>offs. sret (off # offs)))))"

definition enum_in :: "Direction \<Rightarrow> u64 set \<Rightarrow> u64 list" where
  "enum_in direction S = in_order direction (sorted_list_of_set S)"

definition beyond :: "Direction \<Rightarrow> u64 set \<Rightarrow> u64 \<Rightarrow> u64 set" where
  "beyond direction S v = {w \<in> S. before direction v w \<and> w \<noteq> v}"

lemma u64_set_finite [simp]: "finite (S :: u64 set)"
  using finite_subset [OF subset_UNIV] finite by blast

lemma enum_in_step:
  assumes "v \<in> S" and "\<And>w. w \<in> S \<Longrightarrow> before d v w"
  shows "enum_in d S = v # enum_in d (beyond d S v)"
proof -
  have b: "beyond d S v = S - {v}" using assms(2) by (auto simp: beyond_def)
  show ?thesis
  proof (cases d)
    case Forward
    with assms have "Min S = v" by (intro Min_eqI) (auto simp: before_def)
    with sorted_list_of_set_nonempty [of S] assms(1) show ?thesis
      unfolding b by (auto simp: Forward enum_in_def in_order_def)
  next
    case Backward
    have "sorted_list_of_set S = sorted_list_of_set (S - {v}) @ [v]"
    proof (rule sorted_distinct_set_unique)
      show "sorted (sorted_list_of_set (S - {v}) @ [v])"
        using assms(2) Backward by (auto simp: sorted_append before_def)
    qed (use assms(1) in \<open>auto simp: insert_absorb\<close>)
    then show ?thesis unfolding b by (simp add: Backward enum_in_def in_order_def)
  qed
qed

lemma enum_in_empty: "enum_in d {} = []"
  by (cases d) (auto simp: enum_in_def in_order_def)

text \<open>The needle of the step after \<open>v\<close>; it is not past the end as long as \<open>v\<close> is not the last offset.\<close>

definition needle_after :: "Direction \<Rightarrow> u64 \<Rightarrow> u64" where
  "needle_after d v = (case d of Forward \<Rightarrow> v + 1 | Backward \<Rightarrow> v - 1)"

definition inside :: "u64 \<Rightarrow> bool" where
  "inside v \<longleftrightarrow> v \<noteq> 0 \<and> v \<noteq> u64_max"

lemma needle_after_before:
  assumes "inside v"
  shows "before d (needle_after d v) w \<longleftrightarrow> before d v w \<and> w \<noteq> v"
proof -
  have "unat (v + 1) = Suc (unat v)" using assms by (intro unat_plus_one) (auto simp: inside_def u64_max_def)
  moreover have "unat (v - 1) = unat v - 1" "0 < unat v"
    using assms by (auto simp: inside_def unat_minus_one unat_gt_0)
  moreover have "w \<noteq> v \<longleftrightarrow> unat w \<noteq> unat v" by (auto dest: unsigned_word_eqI)
  ultimately show ?thesis
    by (cases d) (auto simp: needle_after_def before_def word_le_nat_alt)
qed

section \<open>Walking over the matches of a filter\<close>

lemma filter_head_props:
  assumes "expr_ok aref p e"
  shows "expr_ok aref p (filter_head e)" and "matches p (filter_head e) = matches p e"
    and "visible aref p Forward (filter_head e) = matches p e"
proof -
  show "expr_ok aref p (filter_head e)"
    using assms by (induction e) (auto simp: list_all_iff intro: ic_head_repr(1))
  show "matches p (filter_head e) = matches p e" by (induction e) auto
  show "visible aref p Forward (filter_head e) = matches p e"
    using assms
  proof (induction e)
    case (Match off ic)
    then obtain k where s: "sorted_wrt (<) (p off)" and r: "ic_repr aref (p off) k ic" by auto
    have "visible aref p Forward (Match off ((ic_head ic)\<lparr>position_pending := False\<rparr>)) = reach Forward (p off) 0"
      by (rule visible_leaf [where p = p and off = off, OF s]) (simp_all add: ic_head_repr [OF r])
    then show ?case by (simp add: reach_ends)
  qed (auto simp: list_all_iff)
qed

lemma each_child_Ok:
  assumes "\<And>e. e \<in> set es \<Longrightarrow> \<exists>e'. f e = (Ok (), e') \<and> R e e'"
  shows "\<exists>es'. each_child f es = (Ok (), es') \<and> list_all2 R es es'"
  using assms
proof (induction es)
  case (Cons e es)
  obtain e' es' where "f e = (Ok (), e')" "R e e'" "each_child f es = (Ok (), es')" "list_all2 R es es'"
    using Cons by (metis list.set_intros)
  then show ?case by auto
qed simp

definition at_tail :: "array_ref \<Rightarrow> (u64 \<Rightarrow> u64 list) \<Rightarrow> FilterExpr \<Rightarrow> FilterExpr \<Rightarrow> bool" where
  "at_tail aref p e e' \<longleftrightarrow>
     expr_ok aref p e' \<and> matches p e' = matches p e \<and> visible aref p Backward e' = matches p e"

lemma at_tail_children:
  assumes "list_all2 (at_tail aref p) es es'"
  shows "at_tail aref p (Conjunction es) (Conjunction es')" and "at_tail aref p (Disjunction es) (Disjunction es')"
  using assms by (induction es es' rule: list_all2_induct) (auto simp: at_tail_def)

lemma tail_inner_props: "expr_ok aref p e \<Longrightarrow> \<exists>e'. tail_inner aref e = (Ok (), e') \<and> at_tail aref p e e'"
proof (induction e)
  case NoMatch
  then show ?case by (simp add: at_tail_def)
next
  case (Match off ic)
  then obtain k where s: "sorted_wrt (<) (p off)" and r: "ic_repr aref (p off) k ic" by auto
  obtain t where t: "ic_tail aref ic = Ok t" "ic_repr aref (p off) (length (p off) - 1) t"
    "filter_direction t = Some Backward"
    using ic_tail_repr [OF r] by blast
  have "visible aref p Backward (Match off t) = set (p off)"
    using visible_leaf [where p = p and off = off, OF s t(2,3)] reach_ends(2) by metis
  with s t show ?case by (auto simp: at_tail_def)
next
  case (Conjunction es)
  then have "\<exists>es'. each_child (tail_inner aref) es = (Ok (), es') \<and> list_all2 (at_tail aref p) es es'"
    by (intro each_child_Ok) (auto simp: list_all_iff)
  then show ?case using at_tail_children(1) by auto
next
  case (Disjunction es)
  then have "\<exists>es'. each_child (tail_inner aref) es = (Ok (), es') \<and> list_all2 (at_tail aref p) es es'"
    by (intro each_child_Ok) (auto simp: list_all_iff)
  then show ?case using at_tail_children(2) by auto
qed

text \<open>
  \<open>poised file p M d S c\<close>: the next step of \<open>c\<close> in direction \<open>d\<close> delivers the first of the matches \<open>S\<close>,
  and the filter still sees all of them.
\<close>

definition poised :: "JournalFile \<Rightarrow> (u64 \<Rightarrow> u64 list) \<Rightarrow> Direction \<Rightarrow> u64 set \<Rightarrow> JournalCursor \<Rightarrow> bool" where
  "poised file p d S c \<longleftrightarrow>
     (\<exists>e. filter_expr c = Some e \<and> expr_ok (reader_offset_array_ref file) p e \<and>
        (if is_resolved (location c)
         then \<exists>v. location c = ResolvedEntry v \<and> inside v \<and> S = beyond d (matches p e) v \<and>
                S \<subseteq> visible (reader_offset_array_ref file) p d e
         else location c = (case d of Forward \<Rightarrow> Head | Backward \<Rightarrow> Tail) \<and> S = matches p e))"

lemma run_simps:
  "with_filter m (file, c) =
     (case filter_expr c of
        None \<Rightarrow> (Err InvalidQueryConfiguration, file, c)
      | Some e \<Rightarrow> (case m (file, e) of (r, file', e') \<Rightarrow> (r, file', c\<lparr>filter_expr := Some e'\<rparr>)))"
  "change_filter f (file, e) = (Ok (), file, f e)"
  "change_cursor g (file, c) = (Ok (), file, g c)"
  by (auto simp: with_filter_def change_filter_def change_cursor_def smodify_def)

lemma start_move:
  assumes "expr_ok (reader_offset_array_ref file) p e" and "\<not> filter_recovery_seen file"
  shows "\<exists>r e'. (case d of Forward \<Rightarrow> sbind (change_filter filter_head) (\<lambda>_. filter_next 1)
             | Backward \<Rightarrow> sbind filter_tail (\<lambda>_. filter_previous u64_max)) (file, e) = (Ok r, file, e') \<and>
    nearest d (matches p e) (case d of Forward \<Rightarrow> 1 | Backward \<Rightarrow> u64_max) r \<and>
    expr_ok (reader_offset_array_ref file) p e' \<and> matches p e' = matches p e \<and>
    (\<forall>v \<in> matches p e. before d (case d of Forward \<Rightarrow> 1 | Backward \<Rightarrow> u64_max) v \<longrightarrow>
        v \<in> visible (reader_offset_array_ref file) p d e')"
proof -
  let ?aref = "reader_offset_array_ref file"
  have calm: "calm file x" for x using assms(2) by (simp add: calm_def)
  show ?thesis
  proof (cases d)
    case Forward
    note h = filter_head_props [OF assms(1)]
    have "sbind (change_filter filter_head) (\<lambda>_. filter_next 1) (file, e) = filter_move Forward 1 (file, filter_head e)"
      by (simp add: sbind_def run_simps filter_move_def)
    with filter_move_calm [OF calm, of Forward 1 "filter_head e"] inner_exact [OF h(1), of Forward 1] h(2,3) Forward
    show ?thesis by (auto simp: exact_step_def moved_def)
  next
    case Backward
    obtain t where t: "tail_inner ?aref e = (Ok (), t)" "at_tail ?aref p e t"
      using tail_inner_props [OF assms(1)] by blast
    have "sbind filter_tail (\<lambda>_. filter_previous u64_max) (file, e) = filter_move Backward u64_max (file, t)"
      using t(1) assms(2) by (simp add: sbind_def filter_tail_def sget_def on_filter_def filter_move_def)
    with filter_move_calm [OF calm, of Backward u64_max t] inner_exact [of ?aref p t Backward u64_max] t(2) Backward
    show ?thesis by (auto simp: exact_step_def moved_def at_tail_def)
  qed
qed

lemma step_inner_filtered:
  assumes "filter_expr c = Some e"
    and "resolve_filter_location d (file, c) = (Ok (map_option ResolvedEntry found), file, c')"
  shows "cursor_step d (file, c) =
    (Ok (found \<noteq> None), file, case found of None \<Rightarrow> c' | Some v \<Rightarrow> c'\<lparr>location := ResolvedEntry v\<rparr>)"
  using assms
  by (cases found)
    (simp_all add: cursor_step_def step_inner_def sbind_def sget_def run_simps sret_def step_recovery_def)

lemma resolve_start:
  assumes "location c = (case d of Forward \<Rightarrow> Head | Backward \<Rightarrow> Tail)" and "filter_expr c = Some e"
    and "reader_entry_count file \<noteq> 0"
    and "(case d of Forward \<Rightarrow> sbind (change_filter filter_head) (\<lambda>_. filter_next 1)
        | Backward \<Rightarrow> sbind filter_tail (\<lambda>_. filter_previous u64_max)) (file, e) = (Ok r, file, e')"
  shows "resolve_filter_location d (file, c) = (Ok (map_option ResolvedEntry r), file, c\<lparr>filter_expr := Some e'\<rparr>)"
  using assms
  by (cases d) (simp_all add: resolve_filter_location_def sbind_def [of "sget _"] sget_def cursor_filter_head_def
      cursor_filter_tail_def resolved_def sbind_def [of "with_filter _"] run_simps sret_def)

lemma resolve_next:
  assumes "location c = ResolvedEntry v" and "inside v" and "filter_expr c = Some e"
    and "nonzero (needle_after d v) \<noteq> None"
    and "filter_move d (needle_after d v) (file, e) = (Ok r, file, e')"
  shows "resolve_filter_location d (file, c) = (Ok (map_option ResolvedEntry r), file, c\<lparr>filter_expr := Some e'\<rparr>)"
proof (cases d)
  case Forward
  have "saturating_add v 1 = v + 1"
    using assms(2) unat_plus_one [of v] unat_u64_less [of "v + 1"]
    by (auto simp: saturating_add_def checked_add_def inside_def u64_max_def)
  with Forward assms show ?thesis
    by (simp add: resolve_filter_location_def sbind_def [of "sget _"] sget_def filter_after_resolved_def
        resolved_def sbind_def [of "with_filter _"] run_simps sret_def filter_move_def needle_after_def)
next
  case Backward
  with assms show ?thesis
    by (simp add: resolve_filter_location_def sbind_def [of "sget _"] sget_def filter_before_resolved_def
        resolved_def sbind_def [of "with_filter _"] run_simps sret_def filter_move_def needle_after_def nonzero_def split: if_splits)
qed

definition stepped :: "JournalFile \<Rightarrow> (u64 \<Rightarrow> u64 list) \<Rightarrow> Direction \<Rightarrow> u64 set \<Rightarrow> bool result \<times> JournalFile \<times> JournalCursor \<Rightarrow> bool" where
  "stepped file p d S out \<longleftrightarrow>
     (\<exists>c'. if S = {} then out = (Ok False, file, c')
        else \<exists>v \<in> S. (\<forall>w \<in> S. before d v w) \<and> out = (Ok True, file, c') \<and>
          location c' = ResolvedEntry v \<and> poised file p d (beyond d S v) c')"

lemma steppedI:
  assumes out: "out = (Ok (found \<noteq> None), file, case found of None \<Rightarrow> c' | Some v \<Rightarrow> c'\<lparr>location := ResolvedEntry v\<rparr>)"
    and c': "filter_expr c' = Some e'" "expr_ok (reader_offset_array_ref file) p e'"
    and near: "nearest d S n found" and all: "\<And>v. v \<in> S \<Longrightarrow> before d n v"
    and S: "S \<subseteq> matches p e'" "S \<subseteq> visible (reader_offset_array_ref file) p d e'"
    and complete: "\<And>v w. v \<in> S \<Longrightarrow> w \<in> matches p e' \<Longrightarrow> before d v w \<Longrightarrow> w \<in> S"
    and inside: "\<And>v. v \<in> S \<Longrightarrow> inside v"
  shows "stepped file p d S out"
proof (cases found)
  case None
  with near all have "S = {}" by (auto simp: nearest_def)
  with None out show ?thesis by (simp add: stepped_def)
next
  case (Some v)
  with near all have v: "v \<in> S" "\<And>w. w \<in> S \<Longrightarrow> before d v w" by (auto simp: nearest_def)
  have "beyond d S v = beyond d (matches p e') v"
    using S(1) complete [OF v(1)] by (auto simp: beyond_def)
  moreover have "beyond d S v \<subseteq> visible (reader_offset_array_ref file) p d e'"
    using S(2) by (auto simp: beyond_def)
  ultimately have "poised file p d (beyond d S v) (c'\<lparr>location := ResolvedEntry v\<rparr>)"
    using c' inside [OF v(1)] by (simp add: poised_def)
  moreover have "S \<noteq> {}" using v(1) by blast
  moreover have "out = (Ok True, file, c'\<lparr>location := ResolvedEntry v\<rparr>)" using out Some by simp
  ultimately show ?thesis
    unfolding stepped_def using v by (intro exI [of _ "c'\<lparr>location := ResolvedEntry v\<rparr>"]) auto
qed

lemma cursor_step_start:
  assumes e: "filter_expr c = Some e" and ok: "expr_ok (reader_offset_array_ref file) p e"
    and seen: "\<not> filter_recovery_seen file" and cnt: "reader_entry_count file \<noteq> 0"
    and loc: "location c = (case d of Forward \<Rightarrow> Head | Backward \<Rightarrow> Tail)"
    and inside: "\<And>v. v \<in> matches p e \<Longrightarrow> inside v"
  shows "stepped file p d (matches p e) (cursor_step d (file, c))"
proof -
  let ?aref = "reader_offset_array_ref file"
  let ?n = "case d of Forward \<Rightarrow> 1 | Backward \<Rightarrow> u64_max"
  obtain r e' where m: "(case d of Forward \<Rightarrow> sbind (change_filter filter_head) (\<lambda>_. filter_next 1)
           | Backward \<Rightarrow> sbind filter_tail (\<lambda>_. filter_previous u64_max)) (file, e) = (Ok r, file, e')"
    and near: "nearest d (matches p e) ?n r" and ok': "expr_ok ?aref p e'" and mt: "matches p e' = matches p e"
    and vis: "\<forall>v \<in> matches p e. before d ?n v \<longrightarrow> v \<in> visible ?aref p d e'"
    using start_move [OF ok seen, of d] by blast
  have all: "before d ?n v" if "v \<in> matches p e" for v
    using inside [OF that] unat_u64_less [of v]
    by (cases d) (auto simp: before_def inside_def word_le_nat_alt unat_u64_max unat_gt_0 Suc_le_eq)
  show ?thesis
  proof (rule steppedI [where e' = e' and n = ?n, OF step_inner_filtered [OF e resolve_start [OF loc e cnt m]]])
    show "matches p e \<subseteq> visible ?aref p d e'" using vis all by blast
  qed (use ok' near mt all inside in simp_all)
qed

lemma cursor_step_resolved:
  assumes e: "filter_expr c = Some e" and ok: "expr_ok (reader_offset_array_ref file) p e"
    and seen: "\<not> filter_recovery_seen file" and loc: "location c = ResolvedEntry v" and v: "inside v"
    and S: "S = beyond d (matches p e) v" "S \<subseteq> visible (reader_offset_array_ref file) p d e"
    and nz: "nonzero (needle_after d v) \<noteq> None" and inside: "\<And>w. w \<in> S \<Longrightarrow> inside w"
  shows "stepped file p d S (cursor_step d (file, c))"
proof -
  let ?aref = "reader_offset_array_ref file" and ?n = "needle_after d v"
  have calm: "calm file e" using seen by (simp add: calm_def)
  obtain r e' where m: "filter_move d ?n (file, e) = (Ok r, file, e')"
    and near: "nearest d (visible ?aref p d e) ?n r" and mv: "moved ?aref p d ?n e e'"
    using inner_exact [OF ok, of d ?n] filter_move_calm [OF calm] by (auto simp: exact_step_def)
  have sub: "w \<in> visible ?aref p d e \<and> before d ?n w \<longleftrightarrow> w \<in> S" for w
    using S visible_matches [of ?aref p d e] needle_after_before [OF v, of d w] by (auto simp: beyond_def)
  have near': "nearest d S ?n r"
    using near sub unfolding nearest_def by (cases r) auto
  have SM: "S \<subseteq> matches p e" using S(1) by (auto simp: beyond_def)
  show ?thesis
  proof (rule steppedI [where e' = e' and n = ?n, OF step_inner_filtered [OF e resolve_next [OF loc v e nz m]]])
    fix x w assume "x \<in> S" "w \<in> matches p e'" "before d x w"
    then show "w \<in> S"
      using mv before_trans [of d v x w] before_antisym [of d v x] unfolding S(1) beyond_def moved_def by auto
  next
    show "S \<subseteq> visible ?aref p d e'" using mv sub unfolding moved_def by blast
  next
    show "S \<subseteq> matches p e'" using mv SM by (simp add: moved_def)
  next
    show "\<And>w. w \<in> S \<Longrightarrow> before d ?n w" using sub by blast
  qed (use near' mv inside in \<open>simp_all add: moved_def\<close>)
qed

lemma cursor_step_poised:
  assumes ps: "poised file p d S c" and seen: "\<not> filter_recovery_seen file" and cnt: "reader_entry_count file \<noteq> 0"
    and inside: "\<And>v. v \<in> S \<Longrightarrow> inside v"
  shows "stepped file p d S (cursor_step d (file, c))"
proof -
  from ps obtain e where e: "filter_expr c = Some e" and ok: "expr_ok (reader_offset_array_ref file) p e"
    by (auto simp: poised_def)
  show ?thesis
  proof (cases "is_resolved (location c)")
    case False
    with ps e have "location c = (case d of Forward \<Rightarrow> Head | Backward \<Rightarrow> Tail)" and S: "S = matches p e"
      by (auto simp: poised_def)
    with cursor_step_start [OF e ok seen cnt] inside show ?thesis by simp
  next
    case True
    with ps e obtain v where loc: "location c = ResolvedEntry v" and v: "inside v"
      and S: "S = beyond d (matches p e) v" "S \<subseteq> visible (reader_offset_array_ref file) p d e"
      by (auto simp: poised_def)
    show ?thesis
    proof (cases "nonzero (needle_after d v) = None")
      case zero: True
      then have n: "needle_after d v = 0" by (simp add: nonzero_def split: if_splits)
      have d: "d = Backward"
      proof (cases d)
        case Forward
        then have "v = - 1" using n by (simp add: needle_after_def add_eq_0_iff2)
        with v show ?thesis by (simp add: inside_def u64_max_def)
      qed
      have "w = 0" if "w \<in> S" for w
        using that needle_after_before [OF v, of d w] n d unfolding S(1) beyond_def by (simp add: before_def)
      with inside have "S = {}" by (auto simp: inside_def)
      moreover have "resolve_filter_location d (file, c) = (Ok (map_option ResolvedEntry None), file, c)"
        using loc d zero by (simp add: resolve_filter_location_def sbind_def sget_def filter_before_resolved_def
            needle_after_def sret_def nonzero_def)
      note step_inner_filtered [OF e this]
      ultimately show ?thesis by (simp add: stepped_def)
    qed (use cursor_step_resolved [OF e ok seen loc v S] inside in blast)
  qed
qed

lemma walk_poised:
  assumes "poised file p d S c" and "\<not> filter_recovery_seen file" and "reader_entry_count file \<noteq> 0"
    and "\<And>v. v \<in> S \<Longrightarrow> inside v" and "card S < n"
  shows "\<exists>c'. walk d n (file, c) = (Ok (enum_in d S), file, c')"
  using assms(1,4,5)
proof (induction n arbitrary: S c)
  case (Suc n)
  have st: "stepped file p d S (cursor_step d (file, c))"
    using cursor_step_poised [OF Suc.prems(1) assms(2,3) Suc.prems(2)] .
  show ?case
  proof (cases "S = {}")
    case True
    with st show ?thesis by (auto simp: stepped_def sbind_def sret_def enum_in_empty)
  next
    case False
    with st obtain v c1 where v: "v \<in> S" "\<And>w. w \<in> S \<Longrightarrow> before d v w"
      and c1: "cursor_step d (file, c) = (Ok True, file, c1)" "location c1 = ResolvedEntry v"
        "poised file p d (beyond d S v) c1"
      by (auto simp: stepped_def)
    have "beyond d S v = S - {v}" using v(2) by (auto simp: beyond_def)
    then have "card (beyond d S v) < n" using v(1) Suc.prems(3) card_Diff1_less [of S v] by simp
    moreover have "\<And>w. w \<in> beyond d S v \<Longrightarrow> inside w" using Suc.prems(2) by (auto simp: beyond_def)
    ultimately obtain c' where "walk d n (file, c1) = (Ok (enum_in d (beyond d S v)), file, c')"
      using Suc.IH [OF c1(3)] by blast
    with c1 enum_in_step [OF v] show ?thesis
      by (simp add: sbind_def sget_def slift_def sret_def cursor_position_def)
  qed
qed simp

section \<open>Walking over all entries\<close>

text \<open>
  \<open>arrayed file l segs k c\<close>: the cursor, without filter, stands on entry \<open>k\<close> of the entry array.
\<close>

definition arrayed :: "JournalFile \<Rightarrow> List \<Rightarrow> segments \<Rightarrow> nat \<Rightarrow> JournalCursor \<Rightarrow> bool" where
  "arrayed file l segs k c \<longleftrightarrow>
     filter_expr c = None \<and> location c = ResolvedEntry (list_values segs ! k) \<and>
     (\<exists>a. array_cursor c = Some a \<and> cursor_repr (reader_offset_array_ref file) l segs k a)"

lemma store_array_cursor_repr:
  assumes "chain_repr (reader_offset_array_ref file) l segs" and "cursor_repr (reader_offset_array_ref file) l segs k a"
    and "filter_expr c = None"
  shows "\<exists>c'. store_array_cursor_value a (file, c) = (Ok (Some (ResolvedEntry (list_values segs ! k))), file, c') \<and>
    arrayed file l segs k (c'\<lparr>location := ResolvedEntry (list_values segs ! k)\<rparr>)"
proof -
  obtain a' where "materialize_value (reader_offset_array_ref file) a = Ok (Some (a', list_values segs ! k))"
    "cursor_repr (reader_offset_array_ref file) l segs k a'"
    using materialize_value_repr [OF assms(1,2)] by metis
  with assms(3) show ?thesis by (auto simp: store_array_cursor_value_def arrayed_def)
qed

lemma step_inner_array:
  assumes "filter_expr c = None" and "resolve_array_cursor d (file, c) = (Ok found, file, c')"
  shows "cursor_step d (file, c) =
    (Ok (found \<noteq> None), file, case found of None \<Rightarrow> c' | Some loc \<Rightarrow> c'\<lparr>location := loc\<rparr>)"
  using assms
  by (cases found)
    (simp_all add: cursor_step_def step_inner_def sbind_def sget_def run_simps sret_def step_recovery_def)

lemma step_stored:
  assumes "chain_repr (reader_offset_array_ref file) l segs" and "cursor_repr (reader_offset_array_ref file) l segs k a"
    and "filter_expr c = None" and "resolve_array_cursor d (file, c) = store_array_cursor_value a (file, c)"
  shows "\<exists>c'. cursor_step d (file, c) = (Ok True, file, c') \<and> arrayed file l segs k c'"
proof -
  obtain c' where "store_array_cursor_value a (file, c) = (Ok (Some (ResolvedEntry (list_values segs ! k))), file, c')"
    and "arrayed file l segs k (c'\<lparr>location := ResolvedEntry (list_values segs ! k)\<rparr>)"
    using store_array_cursor_repr [OF assms(1-3)] by blast
  with step_inner_array [OF assms(3)] assms(4) show ?thesis by simp
qed

lemma cursor_entry_list_Some:
  assumes "entry_list file = Some l"
  shows "cursor_entry_list file = Ok (Some l)"
  using assms by (auto simp: cursor_entry_list_def entry_list_def bind_eq_Some_conv split: if_splits)

definition array_step :: "JournalFile \<Rightarrow> List \<Rightarrow> segments \<Rightarrow> Direction \<Rightarrow> nat \<Rightarrow> bool result \<times> JournalFile \<times> JournalCursor \<Rightarrow> bool" where
  "array_step file l segs d k out \<longleftrightarrow>
     (\<exists>c'. if (case d of Forward \<Rightarrow> Suc k < total_items l | Backward \<Rightarrow> 0 < k)
        then out = (Ok True, file, c') \<and> arrayed file l segs (case d of Forward \<Rightarrow> Suc k | Backward \<Rightarrow> k - 1) c'
        else out = (Ok False, file, c'))"

lemma cursor_step_arrayed:
  assumes r: "chain_repr (reader_offset_array_ref file) l segs" and c: "arrayed file l segs k c"
  shows "array_step file l segs d k (cursor_step d (file, c))"
proof -
  let ?aref = "reader_offset_array_ref file"
  from c obtain a where f: "filter_expr c = None" and loc: "location c = ResolvedEntry (list_values segs ! k)"
    and a: "array_cursor c = Some a" "cursor_repr ?aref l segs k a"
    by (auto simp: arrayed_def)
  let ?move = "case d of Forward \<Rightarrow> cursor_next ?aref a | Backward \<Rightarrow> cursor_previous ?aref a"
  have res: "resolve_array_cursor d (file, c) = (case ?move of Inl e \<Rightarrow> (Err e, file, c) | Inr found \<Rightarrow> store_found found (file, c))"
    using loc a(1) by (cases d) (simp_all add: resolve_array_cursor_def sbind_def sget_def step_array_cursor_def
        file_get_def slift_def split: sum.split)
  have moved_to: "\<exists>a'. ?move = Ok (Some a') \<and> cursor_repr ?aref l segs (case d of Forward \<Rightarrow> Suc k | Backward \<Rightarrow> k - 1) a'"
    if "case d of Forward \<Rightarrow> Suc k < total_items l | Backward \<Rightarrow> 0 < k"
    using cursor_next_repr [OF r a(2)] cursor_previous_repr [OF r a(2)] that by (cases d) auto
  have at_end: "?move = Ok None" if "\<not> (case d of Forward \<Rightarrow> Suc k < total_items l | Backward \<Rightarrow> 0 < k)"
    using cursor_next_repr [OF r a(2)] cursor_previous_repr [OF r a(2)] that by (cases d) auto
  show ?thesis
  proof (cases "case d of Forward \<Rightarrow> Suc k < total_items l | Backward \<Rightarrow> 0 < k")
    case True
    from moved_to [OF True] obtain a' where m: "?move = Ok (Some a')"
      and a': "cursor_repr ?aref l segs (case d of Forward \<Rightarrow> Suc k | Backward \<Rightarrow> k - 1) a'" by blast
    have "resolve_array_cursor d (file, c) = store_array_cursor_value a' (file, c)"
      using res m by (simp add: store_found_def)
    from step_stored [OF r a' f this] True show ?thesis by (auto simp: array_step_def)
  next
    case False
    with at_end res have "resolve_array_cursor d (file, c) = (Ok None, file, c)"
      by (simp add: store_found_def sret_def)
    from step_inner_array [OF f this] False show ?thesis by (simp add: array_step_def)
  qed
qed

lemma cursor_step_first:
  assumes l: "entry_list file = Some l" and r: "chain_repr (reader_offset_array_ref file) l segs"
    and f: "filter_expr c = None" and loc: "location c = (case d of Forward \<Rightarrow> Head | Backward \<Rightarrow> Tail)"
  shows "\<exists>c'. cursor_step d (file, c) = (Ok True, file, c') \<and>
    arrayed file l segs (case d of Forward \<Rightarrow> 0 | Backward \<Rightarrow> total_items l - 1) c'"
proof (cases d)
  case Forward
  have "resolve_array_cursor d (file, c) = store_array_cursor_value (cursor_at_head l) (file, c)"
    using loc Forward by (simp add: resolve_array_cursor_def sbind_def sget_def resolve_head_array_def file_get_def
        slift_def cursor_entry_list_Some [OF l])
  from step_stored [OF r cursor_at_head_repr [OF r] f this] Forward show ?thesis by simp
next
  case Backward
  obtain t where t: "cursor_at_tail (reader_offset_array_ref file) l = Ok t"
    "cursor_repr (reader_offset_array_ref file) l segs (total_items l - 1) t"
    using cursor_at_tail_repr [OF r] by blast
  have "resolve_array_cursor d (file, c) = store_array_cursor_value t (file, c)"
    using loc Backward t(1) by (simp add: resolve_array_cursor_def sbind_def sget_def resolve_tail_array_def file_get_def
        slift_def cursor_entry_list_Some [OF l])
  from step_stored [OF r t(2) f this] Backward show ?thesis by simp
qed

definition entries_after :: "Direction \<Rightarrow> u64 list \<Rightarrow> nat \<Rightarrow> u64 list" where
  "entries_after d vs k = (case d of Forward \<Rightarrow> drop (Suc k) vs | Backward \<Rightarrow> rev (take k vs))"

lemma walk_arrayed:
  assumes r: "chain_repr (reader_offset_array_ref file) l segs" and "arrayed file l segs k c" and "k < total_items l"
    and "length (entries_after d (list_values segs) k) < n"
  shows "\<exists>c'. walk d n (file, c) = (Ok (entries_after d (list_values segs) k), file, c')"
  using assms(2-)
proof (induction n arbitrary: k c)
  case (Suc n)
  note len = chain_repr_values [OF r]
  let ?go = "case d of Forward \<Rightarrow> Suc k < total_items l | Backward \<Rightarrow> 0 < k"
  let ?k = "case d of Forward \<Rightarrow> Suc k | Backward \<Rightarrow> k - 1"
  have st: "array_step file l segs d k (cursor_step d (file, c))"
    using cursor_step_arrayed [OF r Suc.prems(1)] .
  show ?case
  proof (cases ?go)
    case False
    then have "entries_after d (list_values segs) k = []"
      using len by (cases d) (auto simp: entries_after_def)
    with st False show ?thesis by (auto simp: array_step_def sbind_def sret_def)
  next
    case True
    with st obtain c1 where c1: "cursor_step d (file, c) = (Ok True, file, c1)" "arrayed file l segs ?k c1"
      by (auto simp: array_step_def)
    have k: "?k < total_items l" using True Suc.prems(2) by (cases d) auto
    have e: "entries_after d (list_values segs) k = list_values segs ! ?k # entries_after d (list_values segs) ?k"
      using True k len
      by (cases d) (auto simp: entries_after_def Cons_nth_drop_Suc take_Suc_conv_app_nth [symmetric] simp flip: rev.simps(2) rev_append)
    obtain c' where "walk d n (file, c1) = (Ok (entries_after d (list_values segs) ?k), file, c')"
      using Suc.IH [OF c1(2) k] Suc.prems(3) unfolding e by auto
    with c1 e show ?thesis
      by (auto simp: sbind_def sget_def slift_def sret_def cursor_position_def arrayed_def)
  qed
qed simp

section \<open>Resolving a time\<close>

lemma filter_seek_near:
  assumes "expr_ok (reader_offset_array_ref file) p e" and "calm file e"
  shows "\<exists>r e'. filter_seek_realtime n d (file, e) = (Ok r, file, e') \<and> nearest d (matches p e) n r"
proof -
  note inv = invalidate_position_props [OF assms(1)]
  have "filter_seek_realtime n d (file, e) =
      (case seek_realtime_inner (reader_offset_array_ref file) d n (invalidate_position e) of (r, e') \<Rightarrow> (r, file, e'))"
    by (simp add: filter_seek_realtime_def sbind_def prepare_recovery_calm [OF assms(2)] change_filter_def
        smodify_def on_filter_def)
  with seek_exact [OF inv(1,2), of d n] inv(4) show ?thesis by (auto simp: exact_step_def)
qed

text \<open>\<open>timed file vs ts\<close>: the entries at the offsets \<open>vs\<close> exist and carry the realtime stamps \<open>ts\<close>.\<close>

definition timed :: "JournalFile \<Rightarrow> u64 list \<Rightarrow> u64 list \<Rightarrow> bool" where
  "timed file vs ts \<longleftrightarrow>
     length ts = length vs \<and>
     (\<forall>i < length vs. \<exists>entry. entry_ref file (vs ! i) = Ok entry \<and> realtime (entry_header entry) = ts ! i)"

definition earlier :: "u64 \<Rightarrow> Direction \<Rightarrow> u64 \<Rightarrow> bool" where
  "earlier rt d t = (case d of Forward \<Rightarrow> t < rt | Backward \<Rightarrow> t \<le> rt)"

lemma realtime_threshold:
  assumes "timed file vs ts" and "sorted ts"
  shows "threshold (realtime_predicate file rt d) vs (length (takeWhile (earlier rt d) ts))"
proof -
  let ?T = "length (takeWhile (earlier rt d) ts)"
  have "earlier rt d (ts ! k) \<longleftrightarrow> k < ?T" if "k < length ts" for k
  proof
    show "k < ?T \<Longrightarrow> earlier rt d (ts ! k)"
      by (metis nth_mem set_takeWhileD takeWhile_nth)
    assume e: "earlier rt d (ts ! k)"
    show "k < ?T"
    proof (rule ccontr)
      assume "\<not> k < ?T"
      then have "?T < length ts" "?T \<le> k" using that by auto
      then have "ts ! ?T \<le> ts ! k" "\<not> earlier rt d (ts ! ?T)"
        using sorted_nth_mono [OF assms(2)] that nth_length_takeWhile [of "earlier rt d" ts] by auto
      with e show False by (auto simp: earlier_def split: Direction.splits)
    qed
  qed
  moreover have "realtime_predicate file rt d (vs ! k) = Ok (earlier rt d (ts ! k))" if "k < length vs" for k
    using assms(1) that by (cases d) (auto simp: timed_def realtime_predicate_def earlier_def rbind_def)
  ultimately show ?thesis
    using assms(1) length_takeWhile_le [of "earlier rt d" ts] by (simp add: threshold_def list_all_iff timed_def)
qed

lemma realtime_array_cursor_repr:
  assumes l: "entry_list file = Some l" and r: "chain_repr (reader_offset_array_ref file) l segs"
    and t: "timed file (list_values segs) ts" "sorted ts"
  shows "\<exists>found. realtime_array_cursor file rt d = Ok found \<and>
    search_answer (reader_offset_array_ref file) l segs d (length (takeWhile (earlier rt d) ts)) found"
  using list_directed_partition_point_repr [OF r realtime_threshold [OF t, of rt d], of d]
  by (auto simp: realtime_array_cursor_def cursor_entry_list_Some [OF l])

text \<open>A file with one entry, stamped 500, for the witness.\<close>

definition timed_file :: JournalFile where
  "timed_file = sample_file\<lparr>
     jf_header := (jf_header sample_file)\<lparr>arena_size := 96, entry_array_offset := Some 16, n_entries := 1\<rparr>,
     jf_bytes := replicate 16 0 @
       ([6, 0, 0, 0, 0, 0, 0, 0, 32, 0, 0, 0, 0, 0, 0, 0] @ replicate 8 0 @ [48, 0, 0, 0, 0, 0, 0, 0]) @
       ([3, 0, 0, 0, 0, 0, 0, 0, 64, 0, 0, 0, 0, 0, 0, 0] @ [1, 0, 0, 0, 0, 0, 0, 0] @ [244, 1, 0, 0, 0, 0, 0, 0] @
        replicate 32 0)\<rparr>"

lemma timed_file_header:
  "header_size (jf_header timed_file) = 16" "arena_size (jf_header timed_file) = 96" "recovery timed_file = None"
  "is_compact timed_file = False" "entry_list timed_file = Some \<lparr>head_offset = 16, total_items = 1\<rparr>"
  "filter_recovery_seen timed_file = False"
  by (simp_all add: timed_file_def sample_file_def is_compact_def has_incompatible_flag_def sample_header_def
      entry_list_def reader_entry_count_def)

lemma timed_file_slices:
  "slice_at (jf_bytes timed_file) 16 16 = Ok [6, 0, 0, 0, 0, 0, 0, 0, 32, 0, 0, 0, 0, 0, 0, 0]"
  "slice_at (jf_bytes timed_file) 16 32 = Ok ([6, 0, 0, 0, 0, 0, 0, 0, 32, 0, 0, 0, 0, 0, 0, 0] @ replicate 8 0 @ [48, 0, 0, 0, 0, 0, 0, 0])"
  "slice_at (jf_bytes timed_file) 48 16 = Ok [3, 0, 0, 0, 0, 0, 0, 0, 64, 0, 0, 0, 0, 0, 0, 0]"
  "slice_at (jf_bytes timed_file) 48 64 = Ok ([3, 0, 0, 0, 0, 0, 0, 0, 64, 0, 0, 0, 0, 0, 0, 0] @ [1, 0, 0, 0, 0, 0, 0, 0] @ [244, 1, 0, 0, 0, 0, 0, 0] @
        replicate 32 0)"
  by (simp_all add: slice_at_def timed_file_def bytes_at_def)

lemma timed_file_parse:
  "\<exists>h. offset_array_from_data ([6, 0, 0, 0, 0, 0, 0, 0, 32, 0, 0, 0, 0, 0, 0, 0] @ replicate 8 0 @ [48, 0, 0, 0, 0, 0, 0, 0]) False =
    Some \<lparr>array_header = h, next_offset_array = None, items = Regular [Some 48]\<rparr>"
proof -
  have zero: "horner_sum uint 256 (replicate n (0 :: u8)) = (0 :: int)" for n
    by (induction n) simp_all
  have "chunks 8 ([48, 0, 0, 0, 0, 0, 0, 0] @ []) = [[48, 0, 0, 0, 0, 0, 0, 0 :: u8]]"
    by (simp add: chunks_append [of 8] del: append.simps append_Nil2)
  then show ?thesis
    by (simp add: offset_array_from_data_def Let_def u64_at_def from_le_def bytes_at_def zero)
qed

lemma timed_file_array:
  "\<exists>h. reader_offset_array_ref timed_file 16 = Ok \<lparr>array_header = h, next_offset_array = None, items = Regular [Some 48]\<rparr>"
proof -
  have h: "object_header_from_bytes [6, 0, 0, 0, 0, 0, 0, 0, 32, 0, 0, 0, 0, 0, 0, 0] =
     \<lparr>obj_type = 6, flags = 0, obj_reserved = [0,0,0,0,0,0], obj_size = 32\<rparr>"
    by (simp add: object_header_from_bytes_def bytes_at_def u64_at_def from_le_def)
  have "checked_add 16 (32 :: u64) = Some 48" by (simp add: checked_add_def)
  moreover obtain a where "offset_array_from_data ([6, 0, 0, 0, 0, 0, 0, 0, 32, 0, 0, 0, 0, 0, 0, 0] @ replicate 8 0 @
      [48, 0, 0, 0, 0, 0, 0, 0]) False = Some \<lparr>array_header = a, next_offset_array = None, items = Regular [Some 48]\<rparr>"
    using timed_file_parse by blast
  ultimately show ?thesis using h
    by (simp add: reader_offset_array_ref_def offset_array_ref_def journal_object_ref_def timed_file_header
        timed_file_slices sample_aligned validated_size_def del: append.simps)
qed

lemma timed_file_entry: "timed timed_file [48] [500]"
    by (simp add: timed_def entry_ref_def journal_object_ref_def timed_file_header timed_file_slices
        object_header_from_bytes_def bytes_at_def u64_at_def from_le_def validate_offset_alignment_def validated_size_def
        checked_add_def entry_from_data_def entry_header_from_bytes_def Let_def)

section \<open>Properties\<close>

text \<open>
  C16. Without a filter the cursor walks exactly the entries of the file: forward from the head, or backward
  from the tail, it visits every offset stored in the entry array once and in order, then reports the
  end, whatever the division into arrays, and no step fails.
\<close>

theorem entries_walk_complete:
  assumes "entry_list file = Some l" and "chain_repr (reader_offset_array_ref file) l segs" and "total_items l < n"
  shows "\<exists>c'. walk direction n
      (file, \<lparr>location = (case direction of Forward \<Rightarrow> Head | Backward \<Rightarrow> Tail), filter_expr = None, array_cursor = ac\<rparr>)
    = (Ok (in_order direction (list_values segs)), file, c')"
proof -
  let ?c = "\<lparr>location = (case direction of Forward \<Rightarrow> Head | Backward \<Rightarrow> Tail), filter_expr = None, array_cursor = ac\<rparr>"
  let ?vs = "list_values segs" and ?k = "case direction of Forward \<Rightarrow> 0 | Backward \<Rightarrow> total_items l - 1"
  have len: "length ?vs = total_items l" using chain_repr_values [OF assms(2)] .
  have pos: "0 < total_items l" using seg_start_less [OF assms(2)] chain_repr_head(3) [OF assms(2)] by force
  obtain m where n: "n = Suc m" using assms(3) by (cases n) auto
  obtain c1 where c1: "cursor_step direction (file, ?c) = (Ok True, file, c1)" "arrayed file l segs ?k c1"
    using cursor_step_first [OF assms(1,2), of ?c direction] by auto
  have k: "?k < total_items l" using pos by (cases direction) auto
  have e: "in_order direction ?vs = ?vs ! ?k # entries_after direction ?vs ?k"
  proof (cases direction)
    case Forward
    with len pos Cons_nth_drop_Suc [of 0 ?vs] show ?thesis by (simp add: in_order_def entries_after_def)
  next
    case Backward
    have "?vs = take (total_items l - 1) ?vs @ [?vs ! (total_items l - 1)]"
      using len pos by (metis One_nat_def Suc_pred diff_less lessI take_Suc_conv_app_nth take_all_iff order_refl)
    then have "rev ?vs = ?vs ! (total_items l - 1) # rev (take (total_items l - 1) ?vs)"
      by (metis rev.simps(2) rev_append rev_rev_ident rev_singleton_conv append_Cons append_Nil)
    with Backward show ?thesis by (simp add: in_order_def entries_after_def)
  qed
  have "length (entries_after direction ?vs ?k) < m"
    using arg_cong [OF e, of length] len assms(3) n by (cases direction) (auto simp: in_order_def)
  then obtain c' where "walk direction m (file, c1) = (Ok (entries_after direction ?vs ?k), file, c')"
    using walk_arrayed [OF assms(2) c1(2) k] by blast
  with c1 e n show ?thesis
    by (auto simp: sbind_def sget_def slift_def sret_def cursor_position_def arrayed_def)
qed

theorem entries_walk_complete_witness:
  "\<exists>c'. walk Backward 3 (sample_entries_file, \<lparr>location = Tail, filter_expr = None, array_cursor = None\<rparr>)
    = (Ok [256, 64], sample_entries_file, c')"
proof -
  have l: "entry_list sample_entries_file = Some \<lparr>head_offset = 16, total_items = 2\<rparr>"
    by (simp add: entry_list_def sample_entries_file_def sample_file_def reader_entry_count_def)
  have "chain_repr (reader_offset_array_ref sample_entries_file) \<lparr>head_offset = 16, total_items = 2\<rparr> [(16, [64, 256])]"
    by (simp add: chain_repr_def sample_array_ref array_capacity_def upt_rec)
  from entries_walk_complete [OF l this, of 3 Backward None] show ?thesis by (simp add: in_order_def)
qed

text \<open>
  C15. Resolving a time, on a file whose entries are stored with non-decreasing realtime stamps.  Let \<open>T\<close> be
  the number of stamps before \<open>rt\<close> (up to and including \<open>rt\<close> when going backward).  Without a filter a
  step forward lands on entry \<open>T\<close> and a step backward on entry \<open>T - 1\<close>, the entry nearest to the time in
  that direction; with a filter it lands on the match nearest to that entry; and when the entry or the
  match does not exist the step reports the end.
\<close>

theorem realtime_step_exact:
  assumes "entry_list file = Some l" and "chain_repr (reader_offset_array_ref file) l segs"
    and "timed file (list_values segs) ts" and "sorted ts"
    and "\<forall>e. filt = Some e \<longrightarrow> expr_ok (reader_offset_array_ref file) postings e \<and> calm file e"
    and "T = length (takeWhile (earlier rt direction) ts)"
    and "exists_entry = (case direction of Forward \<Rightarrow> T < length ts | Backward \<Rightarrow> 0 < T)"
    and "entry = list_values segs ! (case direction of Forward \<Rightarrow> T | Backward \<Rightarrow> T - 1)"
  shows "\<exists>found c'. cursor_step direction (file, \<lparr>location = Realtime rt, filter_expr = filt, array_cursor = ac\<rparr>)
      = (Ok (found \<noteq> None), file, c') \<and>
    (found \<noteq> None \<longrightarrow> cursor_position c' = Ok (the found)) \<and>
    (if \<not> exists_entry then found = None
     else case filt of
       None \<Rightarrow> found = Some entry
     | Some e \<Rightarrow> nearest direction (matches postings e) entry found)"
proof -
  let ?aref = "reader_offset_array_ref file" and ?c = "\<lparr>location = Realtime rt, filter_expr = filt, array_cursor = ac\<rparr>"
  let ?k = "case direction of Forward \<Rightarrow> T | Backward \<Rightarrow> T - 1"
  obtain found where rc: "realtime_array_cursor file rt direction = Ok found"
    and sa: "search_answer ?aref l segs direction T found"
    using realtime_array_cursor_repr [OF assms(1-4)] assms(6) by blast
  have "length ts = total_items l" using assms(3) chain_repr_values [OF assms(2)] by (simp add: timed_def)
  then have none: "found = None \<longleftrightarrow> \<not> exists_entry"
    and some: "\<And>a. found = Some a \<Longrightarrow> cursor_repr ?aref l segs ?k a"
    using sa assms(7) cursor_repr_less [OF assms(2)]
    by (cases direction; cases found; force simp: search_answer_def)+
  show ?thesis
  proof (cases filt)
    case None
    have res: "resolve_array_cursor direction (file, ?c) = store_found found (file, ?c)"
      using rc by (simp add: resolve_array_cursor_def sbind_def sget_def resolve_realtime_array_def file_get_def slift_def)
    show ?thesis
    proof (cases found)
      case no: None
      with res have "resolve_array_cursor direction (file, ?c) = (Ok None, file, ?c)"
        by (simp add: store_found_def sret_def)
      from step_inner_array [OF _ this] none None no show ?thesis by (auto simp: exI [of _ None])
    next
      case (Some a)
      with step_stored [OF assms(2) some [OF Some], of ?c direction] res None obtain c' where
        "cursor_step direction (file, ?c) = (Ok True, file, c')" "arrayed file l segs ?k c'"
        by (auto simp: store_found_def)
      with Some none None assms(8) show ?thesis
        by (intro exI [of _ "Some entry"] exI [of _ c']) (auto simp: arrayed_def cursor_position_def)
    qed
  next
    case filt: (Some e)
    then have ok: "expr_ok ?aref postings e" "calm file e" using assms(5) by auto
    show ?thesis
    proof (cases found)
      case no: None
      have "resolve_filter_location direction (file, ?c) = (Ok (map_option ResolvedEntry None), file, ?c)"
        using rc no by (simp add: resolve_filter_location_def sbind_def sget_def resolve_filter_realtime_def
            file_get_def slift_def sret_def)
      from step_inner_filtered [OF _ this] filt none no show ?thesis by (auto simp: exI [of _ None])
    next
      case (Some a)
      have v: "cursor_value ?aref a = Ok (Some entry)"
        using cursor_value_repr [OF assms(2) some [OF Some]] assms(8) by simp
      obtain r e' where sk: "filter_seek_realtime entry direction (file, e) = (Ok r, file, e')"
        and near: "nearest direction (matches postings e) entry r"
        using filter_seek_near [OF ok] by blast
      have "resolve_filter_location direction (file, ?c) =
          (Ok (map_option ResolvedEntry r), file, ?c\<lparr>filter_expr := Some e'\<rparr>)"
        using rc Some v sk filt by (simp add: resolve_filter_location_def sbind_def sget_def resolve_filter_realtime_def
            file_get_def slift_def sret_def resolve_filter_at_offset_def resolved_def run_simps)
      from step_inner_filtered [OF _ this] filt near none Some show ?thesis
        by (intro exI [of _ r]) (auto simp: cursor_position_def split: option.split)
    qed
  qed
qed

theorem realtime_step_exact_witness:
  "\<exists>c'. cursor_step Forward (timed_file, \<lparr>location = Realtime 400, filter_expr = None, array_cursor = None\<rparr>) = (Ok True, timed_file, c') \<and>
     cursor_position c' = Ok 48"
proof -
  have "chain_repr (reader_offset_array_ref timed_file) \<lparr>head_offset = 16, total_items = 1\<rparr> [(16, [48])]"
    using timed_file_array by (auto simp: chain_repr_def array_capacity_def)
  from realtime_step_exact [OF timed_file_header(5) this, of "[500]" None "\<lambda>_. []" 0 400 Forward True 48 None] timed_file_entry
  show ?thesis by (auto simp: earlier_def)
qed

text \<open>
  C12. Iterating a filter in one direction is complete and exact: on a file with increasing postings, and no
  recovered prefix in play, stepping forward from the head (backward from the tail) delivers every entry
  that satisfies the filter exactly once, in increasing (decreasing) order, and then reports the end;
  for every nesting of conjunctions and disjunctions.
\<close>

theorem filter_walk_complete:
  assumes "expr_ok (reader_offset_array_ref file) postings e" and "\<not> filter_recovery_seen file"
    and "reader_entry_count file \<noteq> 0" and "\<forall>v \<in> matches postings e. v \<noteq> 0 \<and> v \<noteq> u64_max"
    and "card (matches postings e) < n"
  shows "\<exists>c'. walk direction n
      (file, \<lparr>location = (case direction of Forward \<Rightarrow> Head | Backward \<Rightarrow> Tail), filter_expr = Some e, array_cursor = ac\<rparr>)
    = (Ok (in_order direction (sorted_list_of_set (matches postings e))), file, c')"
  using walk_poised [where p = postings and S = "matches postings e" and n = n and d = direction] assms
  by (cases direction) (auto simp: poised_def inside_def enum_in_def)

theorem filter_walk_complete_witness:
  "\<exists>c'. walk Backward 5
      (sample_entries_file, \<lparr>location = Tail, filter_expr = Some sample_filter, array_cursor = None\<rparr>)
    = (Ok [48, 32], sample_entries_file, c')"
proof -
  have "\<not> filter_recovery_seen sample_entries_file" "reader_entry_count sample_entries_file \<noteq> 0"
    by (simp_all add: sample_entries_file_def sample_file_def reader_entry_count_def)
  from filter_walk_complete [OF sample_filter_ok this, of 5 Backward None] show ?thesis
    unfolding sample_matches by (simp add: u64_max_def in_order_def)
qed

lemmas leaf_run = inner_simps prepare_filter_direction_def next_until_def previous_until_def next_until_loop.simps
  previous_until_loop.simps ic_value_def ic_next_def ic_previous_def ic_head_def ic_tail_def ic_is_empty_def ic_new_def
  sbind_def cursor_head_def cursor_at_head_def cursor_value_def current_node_def node_new_def validate_offset_alignment_def
  array_capacity_def node_get_def required_offset_def node_len_def sample_array_ref array_get_def array_is_empty_def array_len_def
  conjunction_loop_inner directed_pass_def in_order_def nearer_def

text \<open>The filter after some steps: whether \<open>A\<close> has left its inlined entry, and the directions of \<open>B\<close> and \<open>C\<close>.\<close>

definition turn_filter :: "bool \<Rightarrow> Direction option \<Rightarrow> FilterExpr" where
  "turn_filter inl d =
     Disjunction
       [Conjunction
          [Match 1000 ((ic_new 48 (Some (cursor_at_head \<lparr>head_offset = 16, total_items = 2\<rparr>)))\<lparr>at_inlined_offset := inl\<rparr>),
           Match 2000 ((ic_new 48 None)\<lparr>filter_direction := d\<rparr>)],
        Match 3000 ((ic_new 32 None)\<lparr>filter_direction := d\<rparr>)]"

lemma turn_moves:
  "filter_head sample_filter = turn_filter True (Some Forward)"
  "inner (reader_offset_array_ref sample_entries_file) Forward 1 (turn_filter True (Some Forward)) = (Ok (Some 32), turn_filter True (Some Forward))"
  "inner (reader_offset_array_ref sample_entries_file) Forward 33 (turn_filter True (Some Forward)) = (Ok (Some 48), turn_filter True (Some Forward))"
  "inner (reader_offset_array_ref sample_entries_file) Forward 49 (turn_filter True (Some Forward)) = (Ok None, turn_filter False (Some Forward))"
  "inner (reader_offset_array_ref sample_entries_file) Backward 47 (turn_filter False (Some Forward)) = (Ok (Some 32), turn_filter False (Some Backward))"
  "inner (reader_offset_array_ref sample_entries_file) Forward 33 (turn_filter False (Some Backward)) = (Ok None, turn_filter False (Some Forward))"
  "inner (reader_offset_array_ref sample_entries_file) Forward 33 (invalidate_position (turn_filter False (Some Backward))) =
     (Ok (Some 48), turn_filter True (Some Forward))"
  by (simp_all add: leaf_run invalidate_position_def turn_filter_def sample_filter_def)

text \<open>
  C27. Turning around with a filter can lose a match.  With the filter \<open>(A AND B) OR C\<close>, stepping forward to
  the end, one step back and then forward again reports the end although the match at offset 48 lies
  ahead of the position: the backward step abandons the conjunction as soon as \<open>B\<close> has no earlier entry and
  leaves the cursor of \<open>A\<close> marked as moving forward, at an entry after 48, where the next forward step
  resumes.  The same step from a freshly positioned cursor finds the match.
\<close>

theorem filter_turn_misses_match:
  "\<exists>c1 c2 c3.
     walk Forward 3 (sample_entries_file, \<lparr>location = Head, filter_expr = Some sample_filter, array_cursor = None\<rparr>)
       = (Ok [32, 48], sample_entries_file, c1) \<and>
     cursor_step Backward (sample_entries_file, c1) = (Ok True, sample_entries_file, c2) \<and>
     cursor_position c2 = Ok 32 \<and>
     cursor_step Forward (sample_entries_file, c2) = (Ok False, sample_entries_file, c3) \<and>
     48 \<in> matches sample_postings sample_filter \<and>
     (\<exists>c4. cursor_step Forward (sample_entries_file, set_location (ResolvedEntry 32) c2) = (Ok True, sample_entries_file, c4) \<and>
        cursor_position c4 = Ok 48)"
proof -
  let ?file = sample_entries_file
  let ?c = "\<lambda>loc inl d. \<lparr>location = loc, filter_expr = Some (turn_filter inl d), array_cursor = None\<rparr>"
  have calm: "calm ?file e" for e by (simp add: calm_def sample_entries_file_def sample_file_def)
  have cnt: "reader_entry_count ?file \<noteq> 0"
    by (simp add: reader_entry_count_def sample_entries_file_def sample_file_def)
  have first: "cursor_step Forward (?file, \<lparr>location = Head, filter_expr = Some sample_filter, array_cursor = None\<rparr>) =
      (Ok True, ?file, ?c (ResolvedEntry 32) True (Some Forward))"
    using filter_move_calm [OF calm, of Forward 1] turn_moves(1,2)
    by (subst step_inner_filtered [OF _ resolve_start [where e = sample_filter and r = "Some 32" and
        e' = "turn_filter True (Some Forward)", OF _ _ cnt]])
      (simp_all add: sbind_def run_simps filter_move_def)
  have move: "cursor_step d (?file, \<lparr>location = ResolvedEntry v, filter_expr = Some e, array_cursor = None\<rparr>) =
      (Ok (r \<noteq> None), ?file, \<lparr>location = (case r of None \<Rightarrow> ResolvedEntry v | Some w \<Rightarrow> ResolvedEntry w),
        filter_expr = Some e', array_cursor = None\<rparr>)"
    if "inner (reader_offset_array_ref ?file) d n e = (Ok r, e')" "needle_after d v = n" "inside v" "n \<noteq> 0" for d n v e e' r
    using filter_move_calm [OF calm, of d n e] that
    by (subst step_inner_filtered [OF _ resolve_next [where e = e and v = v and r = r and e' = e']])
      (auto simp: nonzero_def split: option.split)
  note moves = turn_moves(3-7) [THEN move]
  have "walk Forward 3 (?file, \<lparr>location = Head, filter_expr = Some sample_filter, array_cursor = None\<rparr>)
       = (Ok [32, 48], ?file, ?c (ResolvedEntry 48) False (Some Forward))"
    using first moves(1) [of 32] moves(2) [of 48]
    by (simp add: numeral_3_eq_3 sbind_def sget_def slift_def sret_def cursor_position_def needle_after_def
        inside_def u64_max_def)
  moreover have "cursor_step Backward (?file, ?c (ResolvedEntry 48) False (Some Forward)) =
      (Ok True, ?file, ?c (ResolvedEntry 32) False (Some Backward))"
    using moves(3) [of 48] by (simp add: needle_after_def inside_def u64_max_def)
  moreover have "cursor_step Forward (?file, ?c (ResolvedEntry 32) False (Some Backward)) =
      (Ok False, ?file, ?c (ResolvedEntry 32) False (Some Forward))"
    using moves(4) [of 32] by (simp add: needle_after_def inside_def u64_max_def)
  moreover have "cursor_step Forward (?file, set_location (ResolvedEntry 32) (?c (ResolvedEntry 32) False (Some Backward))) =
      (Ok True, ?file, ?c (ResolvedEntry 48) True (Some Forward))"
    using moves(5) [of 32] by (simp add: needle_after_def inside_def u64_max_def set_location_def)
  ultimately show ?thesis
    unfolding sample_matches by (auto simp: cursor_position_def)
qed

end
