(* ===== verification/Payload_Compression.thy ===== *)
theory Payload_Compression
  imports Journal_Object
begin

text \<open>
  Decompression of data payloads, \<^verbatim>\<open>object_compression.rs\<close> and \<^verbatim>\<open>zstd_stream.rs\<close> of
  \<^verbatim>\<open>journal-core/src/file\<close>, with \<open>DataObject::decompress\<close> of \<^verbatim>\<open>object.rs\<close>.  The codecs
  (zstd, ruzstd, lz4\_flex, lzma\_rust2) and the memory allocator are a record of parameters; the code
  around them, which bounds the output, checks declared sizes and checksums and clears the buffer of the
  caller on every failure, is modelled completely.

  A \<open>Vec\<close> that is reused between calls is its bytes and its capacity, because the capacity decides
  whether the allocator is asked.
\<close>

section \<open>Codecs and buffers\<close>

record Buf =
  buf_data :: "u8 list"
  buf_capacity :: nat

definition buf_new :: Buf where
  "buf_new = \<lparr>buf_data = [], buf_capacity = 0\<rparr>"

definition buf_clear :: "Buf \<Rightarrow> Buf" where
  "buf_clear b = b\<lparr>buf_data := []\<rparr>"

datatype ReadAnswer = ReadOk "u8 list" | ReadInterrupted | ReadError

text \<open>
  One frame as the streaming decoder delivers it: the pieces \<open>io::copy\<close> writes one after the other,
  whether decoding fails after them, what the frame header declares, both checksums, and how many bytes
  of the input the decoder took.
\<close>

record ZstdFrame =
  frame_pieces :: "u8 list list"
  frame_broken :: bool
  frame_content_size :: u64
  frame_checksum :: "u32 option"
  frame_calculated :: "u32 option"
  frame_consumed :: nat

text \<open>
  \<open>try_reserve\<close> answers the capacity after a reservation for that many bytes in total, or none.
  \<open>zstd_content_size\<close> is \<open>get_frame_content_size\<close> (an error, unknown, or a size); \<open>zstd_content\<close> is what
  \<open>zstd_safe::decompress\<close> writes when the buffer is large enough; \<open>lz4_block\<close> is
  \<open>block::decompress_into\<close> for a buffer of the given length; \<open>xz_reads\<close> are the answers of \<open>XzReader\<close>
  to the successive reads, after which it answers that the input has ended.
\<close>

record Codecs =
  try_reserve :: "nat \<Rightarrow> nat option"
  zstd_content_size :: "u8 list \<Rightarrow> u64 option option"
  zstd_content :: "u8 list \<Rightarrow> u8 list option"
  ruzstd_frame :: "u8 list \<Rightarrow> ZstdFrame option"
  lz4_block :: "u8 list \<Rightarrow> nat \<Rightarrow> u8 list option"
  xz_reads :: "u8 list \<Rightarrow> ReadAnswer list"

definition MAX_UNCOMPRESSED_DATA_OBJECT_SIZE :: nat where
  "MAX_UNCOMPRESSED_DATA_OBJECT_SIZE = 768 * 1024 * 1024"

definition MIN_DECOMPRESSION_RESERVE_SIZE :: nat where
  "MIN_DECOMPRESSION_RESERVE_SIZE = 64 * 1024"

section \<open>Bounded output\<close>

definition clear_decompression_error :: "(Buf, 'a) op" where
  "clear_decompression_error b = (Err DecompressorError, buf_new)"

definition clear_compression_error :: "JournalError \<Rightarrow> (Buf, 'a) op" where
  "clear_compression_error err b = (Err err, buf_new)"

definition extend_decompression_buffer :: "Codecs \<Rightarrow> u8 list \<Rightarrow> nat \<Rightarrow> (Buf, unit) op" where
  "extend_decompression_buffer C data max_size b =
     (let required = length (buf_data b) + length data
      in if max_size < required then (Err DecompressorError, buf_new)
         else if buf_capacity b < required
         then (let target_capacity =
                     min (max (max required (buf_capacity b * 2)) MIN_DECOMPRESSION_RESERVE_SIZE) max_size
               in case try_reserve C target_capacity of
                    None \<Rightarrow> (Err DecompressorError, buf_new)
                  | Some cap \<Rightarrow> (Ok (), \<lparr>buf_data = buf_data b @ data, buf_capacity = cap\<rparr>))
         else (Ok (), b\<lparr>buf_data := buf_data b @ data\<rparr>))"

fun read_limited_loop :: "Codecs \<Rightarrow> nat \<Rightarrow> ReadAnswer list \<Rightarrow> (Buf, nat) op" where
  "read_limited_loop C max_size [] b = (Ok (length (buf_data b)), b)"
| "read_limited_loop C max_size (answer # reader) b =
     (case answer of
        ReadInterrupted \<Rightarrow> read_limited_loop C max_size reader b
      | ReadError \<Rightarrow> (Err DecompressorError, buf_new)
      | ReadOk chunk \<Rightarrow>
          if chunk = [] then (Ok (length (buf_data b)), b)
          else if length (buf_data b) = max_size then (Err DecompressorError, buf_new)
          else sbind (extend_decompression_buffer C chunk max_size) (\<lambda>_.
                 read_limited_loop C max_size reader) b)"

definition read_limited_to_end_with_cap :: "Codecs \<Rightarrow> ReadAnswer list \<Rightarrow> nat \<Rightarrow> (Buf, nat) op" where
  "read_limited_to_end_with_cap C reader max_size b = read_limited_loop C max_size reader (buf_clear b)"

definition read_limited_to_end :: "Codecs \<Rightarrow> ReadAnswer list \<Rightarrow> (Buf, nat) op" where
  "read_limited_to_end C reader = read_limited_to_end_with_cap C reader MAX_UNCOMPRESSED_DATA_OBJECT_SIZE"

section \<open>Streams of zstd frames\<close>

fun write_pieces :: "Codecs \<Rightarrow> nat \<Rightarrow> u8 list list \<Rightarrow> (Buf, unit) op" where
  "write_pieces C cap [] b = (Ok (), b)"
| "write_pieces C cap (piece # pieces) b =
     (case extend_decompression_buffer C piece cap b of
        (Inl _, b') \<Rightarrow> (Err (Io OtherIo), b')
      | (Inr _, b') \<Rightarrow> write_pieces C cap pieces b')"

text \<open>
  \<open>copy_zstd_stream\<close> on a slice and a bounded output, one turn of the loop per frame.  The decoder
  reads the five bytes of the prefix and then the input, so at least these five bytes are gone.
\<close>

definition frame_count :: "ZstdFrame \<Rightarrow> u64" where
  "frame_count f = of_nat (length (concat (frame_pieces f)))"

definition frame_rejected :: "bool \<Rightarrow> ZstdFrame \<Rightarrow> bool" where
  "frame_rejected has_size f \<longleftrightarrow>
     (has_size \<and> frame_count f \<noteq> frame_content_size f) \<or>
     (case frame_checksum f of None \<Rightarrow> False | Some checksum \<Rightarrow> Some checksum \<noteq> frame_calculated f)"

function copy_zstd_loop :: "Codecs \<Rightarrow> nat \<Rightarrow> u64 \<Rightarrow> bool \<Rightarrow> u8 list \<Rightarrow> (Buf, u64) op" where
  "copy_zstd_loop C cap copied seen_frame input b =
     (if input = [] then ((if seen_frame then Ok copied else Err (Io OtherIo)), b)
      else if length input < 4 then (Err (Io UnexpectedEof), b)
      else let magic = u32_at input 0
      in if magic AND 0xfffffff0 = 0x184d2a50
         then (if length input < 8 then (Err (Io UnexpectedEof), b)
               else let size = unat (u32_at input 4); rest = drop 8 input
               in if min size (length rest) \<noteq> size then (Err (Io OtherIo), b)
                  else copy_zstd_loop C cap copied True (drop size rest) b)
         else if magic \<noteq> 0xfd2fb528 then (Err (Io OtherIo), b)
         else if length input < 5 then (Err (Io UnexpectedEof), b)
         else case ruzstd_frame C input of
                None \<Rightarrow> (Err (Io OtherIo), b)
              | Some f \<Rightarrow>
                  (case write_pieces C cap (frame_pieces f) b of
                     (Inl err, b') \<Rightarrow> (Err err, b')
                   | (Inr _, b') \<Rightarrow>
                       if frame_broken f then (Err (Io OtherIo), b')
                       else if frame_rejected (input ! 4 AND 0xe0 \<noteq> 0) f then (Err (Io OtherIo), b')
                       else case checked_add copied (frame_count f) of
                              None \<Rightarrow> (Err (Io OtherIo), b')
                            | Some copied' \<Rightarrow>
                                copy_zstd_loop C cap copied' True (drop (max 5 (frame_consumed f)) input) b'))"
  by pat_completeness auto
termination
  by (relation "measure (\<lambda>(_, _, _, _, input, _). length input)") auto

declare copy_zstd_loop.simps [simp del]

definition copy_zstd_stream :: "Codecs \<Rightarrow> nat \<Rightarrow> u8 list \<Rightarrow> (Buf, u64) op" where
  "copy_zstd_stream C cap input = copy_zstd_loop C cap 0 False input"

definition decompress_zstd_payload_streaming_with_cap :: "Codecs \<Rightarrow> u8 list \<Rightarrow> nat \<Rightarrow> (Buf, nat) op" where
  "decompress_zstd_payload_streaming_with_cap C payload cap b =
     (case copy_zstd_stream C cap payload (buf_clear b) of
        (Inl _, b') \<Rightarrow> clear_decompression_error b'
      | (Inr _, b') \<Rightarrow> (Ok (length (buf_data b')), b'))"

definition decompress_zstd_payload_streaming :: "Codecs \<Rightarrow> u8 list \<Rightarrow> (Buf, nat) op" where
  "decompress_zstd_payload_streaming C payload =
     decompress_zstd_payload_streaming_with_cap C payload MAX_UNCOMPRESSED_DATA_OBJECT_SIZE"

section \<open>Decompression of a payload\<close>

definition lz4_uncompressed_size :: "u8 list \<Rightarrow> nat result" where
  "lz4_uncompressed_size payload =
     (if length payload < 8 then Err DecompressorError
      else let uncompressed_size = unat (u64_at payload 0)
           in if MAX_UNCOMPRESSED_DATA_OBJECT_SIZE < uncompressed_size then Err DecompressorError
              else Ok uncompressed_size)"

text \<open>The common part of \<open>prepare_lz4_output_buffer\<close> and \<open>prepare_zstd_output_buffer\<close>.\<close>

definition reserve_output :: "Codecs \<Rightarrow> nat \<Rightarrow> (Buf, unit) op" where
  "reserve_output C uncompressed_size b0 =
     (let b = buf_clear b0
      in if buf_capacity b < uncompressed_size
         then (case try_reserve C uncompressed_size of
                 None \<Rightarrow> (Err DecompressorError, b)
               | Some cap \<Rightarrow> (Ok (), b\<lparr>buf_capacity := cap\<rparr>))
         else (Ok (), b))"

definition prepare_lz4_output_buffer :: "Codecs \<Rightarrow> nat \<Rightarrow> (Buf, unit) op" where
  "prepare_lz4_output_buffer C uncompressed_size =
     sbind (reserve_output C uncompressed_size) (\<lambda>_.
       smodify (\<lambda>b. b\<lparr>buf_data := replicate uncompressed_size 0\<rparr>))"

definition zstd_uncompressed_size :: "Codecs \<Rightarrow> u8 list \<Rightarrow> nat result" where
  "zstd_uncompressed_size C payload =
     (case zstd_content_size C payload of
        None \<Rightarrow> Err DecompressorError
      | Some None \<Rightarrow> Err DecompressorError
      | Some (Some sz) \<Rightarrow>
          if MAX_UNCOMPRESSED_DATA_OBJECT_SIZE < unat sz then Err DecompressorError else Ok (unat sz))"

definition prepare_zstd_output_buffer :: "Codecs \<Rightarrow> nat \<Rightarrow> (Buf, unit) op" where
  "prepare_zstd_output_buffer C uncompressed_size = reserve_output C uncompressed_size"

text \<open>\<open>zstd_safe::decompress\<close> fills the capacity of the buffer and fails when the content does not fit.\<close>

definition zstd_decompress_into :: "Codecs \<Rightarrow> u8 list \<Rightarrow> nat \<Rightarrow> u8 list option" where
  "zstd_decompress_into C payload cap =
     Option.bind (zstd_content C payload) (\<lambda>out. if length out \<le> cap then Some out else None)"

definition decompress_zstd_payload_native :: "Codecs \<Rightarrow> u8 list \<Rightarrow> (Buf, nat) op" where
  "decompress_zstd_payload_native C payload b =
     (case zstd_uncompressed_size C payload of
        Inl _ \<Rightarrow> clear_decompression_error b
      | Inr uncompressed_size \<Rightarrow>
          (case prepare_zstd_output_buffer C uncompressed_size b of
             (Inl _, b') \<Rightarrow> clear_decompression_error b'
           | (Inr _, b') \<Rightarrow>
               (case zstd_decompress_into C payload (buf_capacity b') of
                  Some out \<Rightarrow> if length out = uncompressed_size
                              then (Ok (length out), b'\<lparr>buf_data := out\<rparr>)
                              else clear_decompression_error b'
                | None \<Rightarrow> clear_decompression_error b')))"

definition decompress_zstd_payload :: "Codecs \<Rightarrow> u8 list \<Rightarrow> (Buf, nat) op" where
  "decompress_zstd_payload C payload b =
     (case decompress_zstd_payload_native C payload b of
        (Inr len, b') \<Rightarrow> (Ok len, b')
      | (Inl _, b') \<Rightarrow> decompress_zstd_payload_streaming C payload b')"

definition decompress_lz4_payload :: "Codecs \<Rightarrow> u8 list \<Rightarrow> (Buf, nat) op" where
  "decompress_lz4_payload C payload b =
     (case lz4_uncompressed_size payload of
        Inl _ \<Rightarrow> clear_decompression_error b
      | Inr uncompressed_size \<Rightarrow>
          (case prepare_lz4_output_buffer C uncompressed_size b of
             (Inl _, b') \<Rightarrow> clear_decompression_error b'
           | (Inr _, b') \<Rightarrow>
               (case lz4_block C (drop 8 payload) (length (buf_data b')) of
                  Some out \<Rightarrow> if length out = uncompressed_size
                              then (Ok (length out), b'\<lparr>buf_data := out @ drop (length out) (buf_data b')\<rparr>)
                              else clear_decompression_error b'
                | None \<Rightarrow> clear_decompression_error b')))"

definition decompress_xz_payload :: "Codecs \<Rightarrow> u8 list \<Rightarrow> (Buf, nat) op" where
  "decompress_xz_payload C payload = read_limited_to_end C (xz_reads C payload)"

definition decompress :: "Codecs \<Rightarrow> DataObject \<Rightarrow> (Buf, nat) op" where
  "decompress C d =
     (let h = data_object_header (data_header d)
      in if \<not> is_compressed h then sfail Panic
         else if zstd_compressed h then decompress_zstd_payload C (raw_payload d)
         else if lz4_compressed h then decompress_lz4_payload C (raw_payload d)
         else if xz_compressed h then decompress_xz_payload C (raw_payload d)
         else clear_compression_error UnknownCompressionMethod)"

section \<open>The output is bounded and failures leave nothing behind\<close>

definition bounded_output :: "nat \<Rightarrow> (Buf, nat) op \<Rightarrow> Buf \<Rightarrow> bool" where
  "bounded_output max_size m b \<longleftrightarrow>
     holds m b (\<lambda>n b'. n = length (buf_data b') \<and> n \<le> max_size) (\<lambda>e b'. e = DecompressorError \<and> b' = buf_new)"

lemma buf_new_data [simp]: "buf_data buf_new = []" "buf_data (buf_clear b) = []" "buf_capacity (buf_clear b) = buf_capacity b"
  by (simp_all add: buf_new_def buf_clear_def)

lemma extend_cases:
  "(\<exists>cap. extend_decompression_buffer C data max_size b = (Ok (), \<lparr>buf_data = buf_data b @ data, buf_capacity = cap\<rparr>) \<and>
      length (buf_data b) + length data \<le> max_size) \<or>
   extend_decompression_buffer C data max_size b = (Err DecompressorError, buf_new)"
  unfolding extend_decompression_buffer_def Let_def by (cases b) (auto split: option.split)

lemma read_limited_loop_bounded:
  "length (buf_data b) \<le> max_size \<Longrightarrow> bounded_output max_size (read_limited_loop C max_size reader) b"
proof (induction reader arbitrary: b)
  case Nil
  then show ?case by (simp add: bounded_output_def holds_def)
next
  case (Cons answer reader)
  show ?case
  proof (cases answer)
    case (ReadOk chunk)
    then show ?thesis
      using Cons.prems Cons.IH extend_cases [of C chunk max_size b]
      by (fastforce simp: bounded_output_def holds_def sbind_run)
  qed (use Cons in \<open>auto simp: bounded_output_def holds_def\<close>)
qed

lemma write_pieces_cases:
  "(\<exists>cap. write_pieces C max_size pieces b = (Ok (), \<lparr>buf_data = buf_data b @ concat pieces, buf_capacity = cap\<rparr>) \<and>
      (length (buf_data b) \<le> max_size \<longrightarrow> length (buf_data b) + length (concat pieces) \<le> max_size)) \<or>
   (\<exists>b'. write_pieces C max_size pieces b = (Err (Io OtherIo), b'))"
proof (induction pieces arbitrary: b)
  case Nil
  then show ?case by (cases b) simp
next
  case (Cons piece pieces)
  consider cap where "extend_decompression_buffer C piece max_size b = (Ok (), \<lparr>buf_data = buf_data b @ piece, buf_capacity = cap\<rparr>)"
      "length (buf_data b) + length piece \<le> max_size"
    | "extend_decompression_buffer C piece max_size b = (Err DecompressorError, buf_new)"
    using extend_cases [of C piece max_size b] by blast
  then show ?case
  proof cases
    case (1 cap)
    then show ?thesis using Cons.IH [of "\<lparr>buf_data = buf_data b @ piece, buf_capacity = cap\<rparr>"] by (auto simp: add.assoc)
  qed simp
qed

lemma copy_zstd_loop_bounded:
  "length (buf_data b) \<le> cap \<Longrightarrow> copy_zstd_loop C cap copied seen input b = (Ok n, b') \<Longrightarrow>
   length (buf_data b') \<le> cap"
proof (induction C cap copied seen input b rule: copy_zstd_loop.induct)
  case (1 C cap copied seen input b)
  let ?skip = "u32_at input 0 AND 0xfffffff0 = 0x184d2a50"
  consider "input = []" | "input \<noteq> []" "4 \<le> length input" "?skip" | "input \<noteq> []" "4 \<le> length input" "\<not> ?skip"
    using "1.prems"(2) by (subst (asm) copy_zstd_loop.simps) (auto split: if_splits)
  then show ?case
  proof cases
    case 1
    then show ?thesis using "1.prems" by (subst (asm) copy_zstd_loop.simps) auto
  next
    case 2
    then have "\<not> length input < 8 \<and> min (unat (u32_at input 4)) (length (drop 8 input)) = unat (u32_at input 4) \<and>
        copy_zstd_loop C cap copied True (drop (unat (u32_at input 4)) (drop 8 input)) b = (Ok n, b')"
      using "1.prems"(2) by (subst (asm) copy_zstd_loop.simps) (auto simp: Let_def split: if_splits)
    then show ?thesis using "1.IH"(1) [OF 2(1) _ refl 2(3)] 2(2) "1.prems"(1) by simp
  next
    case 3
    let ?b = "\<lambda>f cap'. \<lparr>buf_data = buf_data b @ concat (frame_pieces f), buf_capacity = cap'\<rparr>"
    obtain f where f: "ruzstd_frame C input = Some f" "u32_at input 0 = 0xfd2fb528" "5 \<le> length input"
      using "1.prems"(2) 3 by (subst (asm) copy_zstd_loop.simps) (auto simp: Let_def split: if_splits option.splits)
    have "\<exists>b1. write_pieces C cap (frame_pieces f) b = (Ok (), b1)"
      using "1.prems"(2) 3 f by (subst (asm) copy_zstd_loop.simps) (auto simp: Let_def split: prod.splits sum.splits)
    then obtain cap' where w: "write_pieces C cap (frame_pieces f) b = (Ok (), ?b f cap')"
      "length (buf_data b) + length (concat (frame_pieces f)) \<le> cap"
      using write_pieces_cases [of C cap "frame_pieces f" b] "1.prems"(1) by auto
    obtain copied' where "checked_add copied (frame_count f) = Some copied'" "\<not> frame_broken f"
      "\<not> frame_rejected (input ! 4 AND 0xe0 \<noteq> 0) f"
      "copy_zstd_loop C cap copied' True (drop (max 5 (frame_consumed f)) input) (?b f cap') = (Ok n, b')"
      using "1.prems"(2) 3 f w by (subst (asm) copy_zstd_loop.simps) (auto simp: Let_def split: if_splits option.splits)
    then show ?thesis using "1.IH"(2) [OF 3(1) _ refl 3(3) _ _ f(1) w(1) [symmetric] refl] 3(2) f w by simp
  qed
qed

lemma reserve_output_cases:
  "reserve_output C n b = (Err DecompressorError, buf_clear b) \<or>
   (\<exists>cap. reserve_output C n b = (Ok (), \<lparr>buf_data = [], buf_capacity = cap\<rparr>))"
  unfolding reserve_output_def Let_def by (cases b; cases "try_reserve C n") (auto simp: buf_clear_def)

lemma clear_decompression_error_bounded: "bounded_output n clear_decompression_error b"
  by (simp add: bounded_output_def holds_def clear_decompression_error_def)

lemma zstd_native_bounded: "bounded_output MAX_UNCOMPRESSED_DATA_OBJECT_SIZE (decompress_zstd_payload_native C payload) b"
proof -
  have "n \<le> MAX_UNCOMPRESSED_DATA_OBJECT_SIZE" if "zstd_uncompressed_size C payload = Ok n" for n
    using that by (auto simp: zstd_uncompressed_size_def split: option.splits if_splits)
  then show ?thesis
    using reserve_output_cases [of C _ b]
    by (auto simp: bounded_output_def holds_def decompress_zstd_payload_native_def prepare_zstd_output_buffer_def
        clear_decompression_error_def split: sum.split prod.splits option.split)
qed

lemma zstd_streaming_bounded: "bounded_output cap (\<lambda>b. decompress_zstd_payload_streaming_with_cap C payload cap b) b"
  using copy_zstd_loop_bounded [of "buf_clear b" cap C 0 False payload]
  by (auto simp: bounded_output_def holds_def decompress_zstd_payload_streaming_with_cap_def copy_zstd_stream_def
      clear_decompression_error_def split: sum.split prod.split)

lemma zstd_bounded: "bounded_output MAX_UNCOMPRESSED_DATA_OBJECT_SIZE (decompress_zstd_payload C payload) b"
proof (cases "decompress_zstd_payload_native C payload b")
  case (Pair r b')
  then show ?thesis
    using zstd_native_bounded [of C payload b] zstd_streaming_bounded [of MAX_UNCOMPRESSED_DATA_OBJECT_SIZE C payload b']
    by (cases r) (simp_all add: bounded_output_def holds_def decompress_zstd_payload_def decompress_zstd_payload_streaming_def)
qed

lemma lz4_bounded: "bounded_output MAX_UNCOMPRESSED_DATA_OBJECT_SIZE (decompress_lz4_payload C payload) b"
proof -
  have "n \<le> MAX_UNCOMPRESSED_DATA_OBJECT_SIZE" if "lz4_uncompressed_size payload = Ok n" for n
    using that by (auto simp: lz4_uncompressed_size_def Let_def split: if_splits)
  then show ?thesis
    using reserve_output_cases [of C _ b]
    by (auto simp: bounded_output_def holds_def decompress_lz4_payload_def prepare_lz4_output_buffer_def
        clear_decompression_error_def sbind_def op_run split: sum.split prod.splits option.split)
qed

lemma xz_bounded: "bounded_output MAX_UNCOMPRESSED_DATA_OBJECT_SIZE (decompress_xz_payload C payload) b"
  using read_limited_loop_bounded [of "buf_clear b" MAX_UNCOMPRESSED_DATA_OBJECT_SIZE C "xz_reads C payload"]
  by (simp add: bounded_output_def holds_def decompress_xz_payload_def read_limited_to_end_def
      read_limited_to_end_with_cap_def)

section \<open>Streams that decode\<close>

text \<open>
  A stream is a sequence of skippable frames and of frames that the decoder accepts and turns into their
  content, whatever follows them in the input.
\<close>

datatype Segment = Skippable u32 "u8 list" | Frame "u8 list" "u8 list"

fun segment_bytes :: "Segment \<Rightarrow> u8 list" where
  "segment_bytes (Skippable magic body) = to_le 4 magic @ to_le 4 (of_nat (length body) :: u32) @ body"
| "segment_bytes (Frame enc content) = enc"

fun segment_content :: "Segment \<Rightarrow> u8 list" where
  "segment_content (Skippable magic body) = []"
| "segment_content (Frame enc content) = content"

fun segment_ok :: "Codecs \<Rightarrow> Segment \<Rightarrow> bool" where
  "segment_ok C (Skippable magic body) \<longleftrightarrow> magic AND 0xfffffff0 = 0x184d2a50 \<and> length body < 2 ^ 32"
| "segment_ok C (Frame enc content) \<longleftrightarrow> 5 \<le> length enc \<and> u32_at enc 0 = 0xfd2fb528 \<and>
     (\<forall>rest. \<exists>f. ruzstd_frame C (enc @ rest) = Some f \<and> concat (frame_pieces f) = content \<and> \<not> frame_broken f \<and>
        \<not> frame_rejected (enc ! 4 AND 0xe0 \<noteq> 0) f \<and> frame_consumed f = length enc)"

definition reliable :: "Codecs \<Rightarrow> bool" where
  "reliable C \<longleftrightarrow> (\<forall>n. \<exists>cap \<ge> n. try_reserve C n = Some cap)"

lemma extend_reliable:
  assumes "reliable C"
  shows "\<exists>cap. extend_decompression_buffer C data max_size b =
    (if length (buf_data b) + length data \<le> max_size
     then (Ok (), \<lparr>buf_data = buf_data b @ data, buf_capacity = cap\<rparr>) else (Err DecompressorError, buf_new))"
proof -
  obtain cap where "try_reserve C (min (max (max (length (buf_data b) + length data) (buf_capacity b * 2))
      MIN_DECOMPRESSION_RESERVE_SIZE) max_size) = Some cap"
    using assms unfolding reliable_def by blast
  then show ?thesis by (cases b) (auto simp: extend_decompression_buffer_def Let_def)
qed

lemma write_pieces_reliable:
  assumes "reliable C" and "length (buf_data b) \<le> max_size"
  shows "if length (buf_data b) + length (concat pieces) \<le> max_size
    then \<exists>cap. write_pieces C max_size pieces b = (Ok (), \<lparr>buf_data = buf_data b @ concat pieces, buf_capacity = cap\<rparr>)
    else \<exists>b'. write_pieces C max_size pieces b = (Err (Io OtherIo), b')"
  using assms(2)
proof (induction pieces arbitrary: b)
  case Nil
  then show ?case by (cases b) simp
next
  case (Cons piece pieces)
  obtain cap where "extend_decompression_buffer C piece max_size b =
    (if length (buf_data b) + length piece \<le> max_size
     then (Ok (), \<lparr>buf_data = buf_data b @ piece, buf_capacity = cap\<rparr>) else (Err DecompressorError, buf_new))"
    using extend_reliable [OF assms(1)] by blast
  then show ?case
    using Cons.IH [of "\<lparr>buf_data = buf_data b @ piece, buf_capacity = cap\<rparr>"] by (auto simp: add.assoc)
qed

lemma u32_at_segment:
  "u32_at (to_le 4 (w :: u32) @ xs) 0 = w" "u32_at (to_le 4 (v :: u32) @ to_le 4 (w :: u32) @ xs) 4 = w"
  by (simp_all add: u32_at_def bytes_at_def from_le_to_le)

lemma copy_zstd_loop_skippable:
  assumes "segment_ok C (Skippable magic body)"
  shows "copy_zstd_loop C cap copied seen (segment_bytes (Skippable magic body) @ rest) b =
    copy_zstd_loop C cap copied True rest b"
proof -
  let ?in = "segment_bytes (Skippable magic body) @ rest"
  have "u32_at ?in 0 AND 0xfffffff0 = 0x184d2a50" "8 \<le> length ?in" "?in \<noteq> []"
    using assms by (simp_all add: u32_at_segment flip: length_greater_0_conv)
  moreover have "unat (u32_at ?in 4) = length body"
    using assms by (simp add: u32_at_segment unat_of_nat)
  moreover have "to_le 4 magic \<noteq> []" by (simp flip: length_greater_0_conv)
  ultimately show ?thesis by (subst copy_zstd_loop.simps) (simp add: Let_def)
qed

lemma copy_zstd_loop_frame:
  assumes "segment_ok C (Frame enc content)" and "reliable C" and "length (buf_data b) \<le> cap" and "cap < 2 ^ 64"
    and "unat copied = length (buf_data b)"
  shows "if length (buf_data b) + length content \<le> cap
    then \<exists>b'. copy_zstd_loop C cap copied seen (enc @ rest) b =
        copy_zstd_loop C cap (of_nat (length (buf_data b'))) True rest b' \<and> buf_data b' = buf_data b @ content
    else \<exists>e b'. copy_zstd_loop C cap copied seen (enc @ rest) b = (Err e, b')"
proof -
  obtain f where f: "ruzstd_frame C (enc @ rest) = Some f" "concat (frame_pieces f) = content" "\<not> frame_broken f"
      "\<not> frame_rejected (enc ! 4 AND 0xe0 \<noteq> 0) f" "frame_consumed f = length enc"
    and enc: "5 \<le> length enc" "u32_at enc 0 = 0xfd2fb528"
    using assms(1) by auto
  have input: "u32_at (enc @ rest) 0 = 0xfd2fb528" "(enc @ rest) ! 4 = enc ! 4" "enc \<noteq> []"
    using enc by (auto simp: u32_at_def bytes_at_def nth_append)
  have magic: "(0xfd2fb528 :: u32) AND 0xfffffff0 \<noteq> 0x184d2a50" by simp
  note step = copy_zstd_loop.simps [of C cap copied seen "enc @ rest" b]
  have w: "if length (buf_data b) + length content \<le> cap
    then \<exists>cap'. write_pieces C cap (frame_pieces f) b = (Ok (), \<lparr>buf_data = buf_data b @ content, buf_capacity = cap'\<rparr>)
    else \<exists>b'. write_pieces C cap (frame_pieces f) b = (Err (Io OtherIo), b')"
    using write_pieces_reliable [OF assms(2,3), of "frame_pieces f"] unfolding f(2) .
  show ?thesis
  proof (cases "length (buf_data b) + length content \<le> cap")
    case True
    have n: "checked_add copied (frame_count f) = Some (of_nat (length (buf_data b) + length content))"
    proof -
      have "unat (frame_count f) = length content" using True assms(4) f(2) by (simp add: frame_count_def unat_of_nat)
      moreover have "copied = of_nat (length (buf_data b))" by (simp flip: assms(5))
      ultimately show ?thesis using True assms(4,5) f(2) by (simp add: checked_add_def frame_count_def)
    qed
    obtain cap' where "write_pieces C cap (frame_pieces f) b = (Ok (), \<lparr>buf_data = buf_data b @ content, buf_capacity = cap'\<rparr>)"
      using w True by auto
    then have "copy_zstd_loop C cap copied seen (enc @ rest) b =
        copy_zstd_loop C cap (of_nat (length (buf_data b) + length content)) True rest \<lparr>buf_data = buf_data b @ content, buf_capacity = cap'\<rparr>"
      using f input enc magic n by (subst step) (simp add: Let_def)
    then have "\<exists>b'. copy_zstd_loop C cap copied seen (enc @ rest) b =
        copy_zstd_loop C cap (of_nat (length (buf_data b'))) True rest b' \<and> buf_data b' = buf_data b @ content"
      by (intro exI [of _ "\<lparr>buf_data = buf_data b @ content, buf_capacity = cap'\<rparr>"]) simp
    then show ?thesis using True by simp
  next
    case False
    then show ?thesis using w f input enc magic by (subst step) (auto simp: Let_def)
  qed
qed

lemma copy_zstd_loop_segments:
  assumes "reliable C" and "\<forall>s \<in> set segs. segment_ok C s" and "length (buf_data b) \<le> cap" and "cap < 2 ^ 64"
    and "unat copied = length (buf_data b)" and "seen \<or> segs \<noteq> []" and "content = concat (map segment_content segs)"
  shows "if length (buf_data b) + length content \<le> cap
    then \<exists>n b'. copy_zstd_loop C cap copied seen (concat (map segment_bytes segs)) b = (Ok n, b') \<and>
        buf_data b' = buf_data b @ content
    else \<exists>e b'. copy_zstd_loop C cap copied seen (concat (map segment_bytes segs)) b = (Err e, b')"
  using assms(2-)
proof (induction segs arbitrary: b copied seen content)
  case Nil
  then show ?case by (subst copy_zstd_loop.simps) simp
next
  case (Cons s segs)
  show ?case
  proof (cases s)
    case (Skippable magic body)
    then show ?thesis
      using Cons.IH [of b copied True content] Cons.prems copy_zstd_loop_skippable [of C magic body]
      by (cases "length (buf_data b) + length content \<le> cap") simp_all
  next
    case (Frame enc plain)
    let ?rest = "concat (map segment_bytes segs)"
    have step: "if length (buf_data b) + length plain \<le> cap
      then \<exists>b'. copy_zstd_loop C cap copied seen (enc @ ?rest) b =
          copy_zstd_loop C cap (of_nat (length (buf_data b'))) True ?rest b' \<and> buf_data b' = buf_data b @ plain
      else \<exists>e b'. copy_zstd_loop C cap copied seen (enc @ ?rest) b = (Err e, b')"
      by (rule copy_zstd_loop_frame [OF _ assms(1) Cons.prems(2-4)]) (use Cons.prems(1) Frame in simp)
    show ?thesis
    proof (cases "length (buf_data b) + length plain \<le> cap")
      case True
      with step obtain b1 n1 where b1: "copy_zstd_loop C cap copied seen (enc @ ?rest) b = copy_zstd_loop C cap n1 True ?rest b1"
          "buf_data b1 = buf_data b @ plain" and n1: "n1 = of_nat (length (buf_data b1))"
        by auto
      have len: "length (buf_data b1) \<le> cap" using b1(2) True by simp
      have u: "unat n1 = length (buf_data b1)" using len Cons.prems(3) unfolding n1 by (simp add: unat_of_nat)
      have s: "concat (map segment_bytes (s # segs)) = enc @ ?rest" "content = plain @ concat (map segment_content segs)"
        using Frame Cons.prems(6) by simp_all
      show ?thesis
        using Cons.IH [OF _ len Cons.prems(3) u, of True "concat (map segment_content segs)"] Cons.prems(1) b1(2)
        unfolding s b1(1) by (auto simp: add.assoc split: if_splits)
    next
      case False
      then show ?thesis using step Cons.prems Frame by auto
    qed
  qed
qed

lemma zstd_streaming_segments:
  assumes "reliable C" and "\<forall>s \<in> set segs. segment_ok C s" and "segs \<noteq> []" and "cap < 2 ^ 64"
    and "content = concat (map segment_content segs)"
  shows "\<exists>b'. decompress_zstd_payload_streaming_with_cap C (concat (map segment_bytes segs)) cap b =
    (if length content \<le> cap then (Ok (length content), b') else (Err DecompressorError, buf_new)) \<and>
    (length content \<le> cap \<longrightarrow> buf_data b' = content)"
proof (cases "length content \<le> cap")
  case True
  then obtain n b' where "copy_zstd_loop C cap 0 False (concat (map segment_bytes segs)) (buf_clear b) = (Ok n, b')"
      "buf_data b' = content"
    using copy_zstd_loop_segments [OF assms(1,2) _ assms(4), of "buf_clear b" 0 False content] assms(3,5) by auto
  with True show ?thesis
    by (auto simp: decompress_zstd_payload_streaming_with_cap_def copy_zstd_stream_def)
next
  case False
  then obtain e b' where "copy_zstd_loop C cap 0 False (concat (map segment_bytes segs)) (buf_clear b) = (Err e, b')"
    using copy_zstd_loop_segments [OF assms(1,2) _ assms(4), of "buf_clear b" 0 False content] assms(3,5) by auto
  with False show ?thesis
    by (auto simp: decompress_zstd_payload_streaming_with_cap_def copy_zstd_stream_def clear_decompression_error_def)
qed

lemma decompress_output_bounded:
  assumes "is_compressed (data_object_header (data_header d))"
  shows "bounded_output MAX_UNCOMPRESSED_DATA_OBJECT_SIZE (decompress C d) b"
  using assms zstd_bounded [of C "raw_payload d" b] lz4_bounded [of C "raw_payload d" b] xz_bounded [of C "raw_payload d" b]
  unfolding decompress_def Let_def by (auto simp: is_compressed_def)

section \<open>Properties\<close>

text \<open>
  C11. Decompression never trusts the stored data: with any codecs, on any payload, for every compression
  flag and whatever the buffer held before, a successful decompression reports exactly the length of the
  buffer, which is at most 768 MiB, and a failed one reports \<open>DecompressorError\<close> and leaves an empty
  buffer, so that no stale or partial bytes can be taken for a payload.
\<close>

theorem decompress_bounded:
  "case decompress C d b of
     (Inr n, b') \<Rightarrow> n = length (buf_data b') \<and> n \<le> 768 * 1024 * 1024
   | (Inl e, b') \<Rightarrow>
       if is_compressed (data_object_header (data_header d)) then e = DecompressorError \<and> b' = buf_new
       else e = Panic \<and> b' = b"
proof (cases "is_compressed (data_object_header (data_header d))")
  case True
  then show ?thesis
    using decompress_output_bounded [OF True, of C b]
    by (auto simp: bounded_output_def holds_def MAX_UNCOMPRESSED_DATA_OBJECT_SIZE_def split: prod.splits sum.splits)
qed (simp add: decompress_def Let_def op_run)

text \<open>
  A zstd payload made of any number of frames, skippable ones included, decompresses to the
  concatenation of their contents when that is at most 768 MiB and fails otherwise.  The fast decoder and
  the streaming one never disagree: when the fast one refuses the payload, or stops at the size of the
  first frame, the streaming one delivers the whole content.  The codec is assumed to decode each frame to its
  content with consistent size and checksum, the fast one to give the whole content or to fail, and the
  allocator to have memory.
\<close>

theorem decompress_zstd_exact:
  assumes "reliable C" and "\<forall>s \<in> set segs. segment_ok C s" and "segs \<noteq> []"
    and "content = concat (map segment_content segs)"
    and "zstd_content C (concat (map segment_bytes segs)) \<in> {None, Some content}"
  shows "\<exists>b'. decompress_zstd_payload C (concat (map segment_bytes segs)) b =
    (if length content \<le> 768 * 1024 * 1024 then (Ok (length content), b') else (Err DecompressorError, buf_new)) \<and>
    (length content \<le> 768 * 1024 * 1024 \<longrightarrow> buf_data b' = content)"
proof -
  let ?p = "concat (map segment_bytes segs)"
  note stream = zstd_streaming_segments [OF assms(1-3), of MAX_UNCOMPRESSED_DATA_OBJECT_SIZE, OF _ assms(4)]
  obtain r b1 where native: "decompress_zstd_payload_native C ?p b = (r, b1)" by fastforce
  show ?thesis
  proof (cases r)
    case (Inl e)
    then show ?thesis
      using native stream [of b1]
      by (simp add: decompress_zstd_payload_def decompress_zstd_payload_streaming_def MAX_UNCOMPRESSED_DATA_OBJECT_SIZE_def)
  next
    case (Inr n)
    then have "n = length content" "buf_data b1 = content"
      using native assms(5)
      by (auto simp: decompress_zstd_payload_native_def zstd_decompress_into_def clear_decompression_error_def
          split: sum.splits prod.splits option.splits if_splits)
    then show ?thesis
      using native Inr zstd_native_bounded [of C ?p b]
      by (auto simp: decompress_zstd_payload_def bounded_output_def holds_def MAX_UNCOMPRESSED_DATA_OBJECT_SIZE_def)
  qed
qed

definition sample_codecs :: Codecs where
  "sample_codecs =
     \<lparr>try_reserve = Some, zstd_content_size = (\<lambda>_. Some (Some 2)), zstd_content = (\<lambda>_. None),
      ruzstd_frame = (\<lambda>_. Some \<lparr>frame_pieces = [[72], [105]], frame_broken = False, frame_content_size = 2,
        frame_checksum = None, frame_calculated = None, frame_consumed = 7\<rparr>),
      lz4_block = (\<lambda>_ _. None), xz_reads = (\<lambda>_. [])\<rparr>"

theorem decompress_zstd_exact_witness:
  "\<exists>b'. decompress_zstd_payload sample_codecs
      ([80, 42, 77, 24, 1, 0, 0, 0, 9] @ [40, 181, 47, 253, 32, 1, 2]) buf_new = (Ok 2, b') \<and> buf_data b' = [72, 105]"
proof -
  let ?segs = "[Skippable 0x184d2a50 [9], Frame [40, 181, 47, 253, 32, 1, 2] [72, 105]]"
  have bytes: "concat (map segment_bytes ?segs) = [80, 42, 77, 24, 1, 0, 0, 0, 9] @ [40, 181, 47, 253, 32, 1, 2]"
    by (simp add: to_le_def upt_rec)
  have "reliable sample_codecs" by (auto simp: reliable_def sample_codecs_def)
  moreover have "\<forall>s \<in> set ?segs. segment_ok sample_codecs s"
    by (simp add: sample_codecs_def u32_at_def bytes_at_def from_le_def frame_rejected_def frame_count_def)
  ultimately show ?thesis
    using decompress_zstd_exact [of sample_codecs ?segs "[72, 105]" buf_new] unfolding bytes
    by (simp add: sample_codecs_def numeral_2_eq_2)
qed

end
