(* ===== verification/Data_Payload.thy ===== *)
theory Data_Payload
  imports Journal_File Payload_Compression
begin

text \<open>
  Access to the payloads of data objects and the lookup of a data object by hash and payload,
  \<^verbatim>\<open>journal-core/src/file/file_payload.rs\<close>.  These paths bypass the typed access of \<^verbatim>\<open>file.rs\<close>:
  they read the object header, check it against a context computed once, and hand out the payload or
  compare it, decompressing into a buffer that is reused from object to object.

  Reads go through the contract of the window cache, as in theory \<open>Journal_File\<close>; a pointer and a length
  are the bytes they point to.
\<close>

section \<open>Access to a payload\<close>

record DataPayloadReadContext =
  ctx_is_compact :: bool
  ctx_header_size :: u64
  ctx_arena_end :: u64
  payload_prefix_size :: u64

record DataPayloadObjectInfo =
  size_needed :: u64
  info_is_compressed :: bool

datatype RowPinnedPayload = Borrowed "u8 list" | Decompressed "u8 list"

definition parse_data_payload_object_header :: "u8 list \<Rightarrow> DataPayloadObjectInfo result" where
  "parse_data_payload_object_header header_slice =
     (let h = object_header_from_bytes header_slice
      in if obj_type h \<noteq> object_type_code Data then Err InvalidObjectType
         else rbind (validated_size h) (\<lambda>sz. Ok \<lparr>size_needed = sz, info_is_compressed = is_compressed h\<rparr>))"

definition data_payload_read_context :: "JournalFile \<Rightarrow> DataPayloadReadContext" where
  "data_payload_read_context jf =
     \<lparr>ctx_is_compact = is_compact jf, ctx_header_size = header_size (jf_header jf),
      ctx_arena_end = header_size (jf_header jf) + arena_size (jf_header jf),
      payload_prefix_size = 64 + (if is_compact jf then 8 else 0)\<rparr>"

definition validate_data_payload_offset :: "DataPayloadReadContext \<Rightarrow> u64 \<Rightarrow> unit result" where
  "validate_data_payload_offset context off =
     rbind (validate_offset_alignment off) (\<lambda>_.
       if off < ctx_header_size context then Err ObjectExceedsFileBounds else Ok ())"

definition validate_data_payload_info :: "DataPayloadReadContext \<Rightarrow> u64 \<Rightarrow> DataPayloadObjectInfo \<Rightarrow> unit result" where
  "validate_data_payload_info context off info =
     rbind (ok_or (checked_add off (size_needed info)) ObjectExceedsFileBounds) (\<lambda>end_offset.
       if ctx_arena_end context < end_offset then Err ObjectExceedsFileBounds
       else if size_needed info < payload_prefix_size context then Err (InvalidObjectSize (size_needed info))
       else Ok ())"

definition data_payload_info_from_window ::
  "JournalFile \<Rightarrow> DataPayloadReadContext \<Rightarrow> u64 \<Rightarrow> DataPayloadObjectInfo result" where
  "data_payload_info_from_window jf context off =
     rbind (slice_at (jf_bytes jf) off 16) (\<lambda>header_slice.
     rbind (parse_data_payload_object_header header_slice) (\<lambda>info.
     rbind (validate_data_payload_info context off info) (\<lambda>_. Ok info)))"

definition data_payload_object_info_at ::
  "JournalFile \<Rightarrow> DataPayloadReadContext \<Rightarrow> u64 \<Rightarrow> DataPayloadObjectInfo result" where
  "data_payload_object_info_at jf context off =
     rbind (validate_offset_alignment off) (\<lambda>_.
       if off < ctx_header_size context then Err ObjectExceedsFileBounds
       else data_payload_info_from_window jf context off)"

text \<open>The active window and the window a read selects hold the same bytes of the file.\<close>

definition data_slice_from_window :: "JournalFile \<Rightarrow> u64 \<Rightarrow> u64 \<Rightarrow> u8 list result" where
  "data_slice_from_window jf off sz = slice_at (jf_bytes jf) off sz"

definition decompress_data :: "Codecs \<Rightarrow> DataPayloadReadContext \<Rightarrow> u8 list \<Rightarrow> (Buf, u8 list) op" where
  "decompress_data C context data =
     sbind (slift (ok_or (data_from_data data (ctx_is_compact context)) ZerocopyFailure)) (\<lambda>object.
     sbind (smodify buf_clear) (\<lambda>_.
     sbind (decompress C object) (\<lambda>len.
       sget (\<lambda>b. take len (buf_data b)))))"

definition visit_data_payload_at_with_context ::
  "Codecs \<Rightarrow> JournalFile \<Rightarrow> DataPayloadReadContext \<Rightarrow> u64 \<Rightarrow> (u8 list \<Rightarrow> 'a result) \<Rightarrow> (Buf, 'a) op" where
  "visit_data_payload_at_with_context C jf context off visitor =
     sbind (slift (validate_data_payload_offset context off)) (\<lambda>_.
     sbind (slift (data_payload_info_from_window jf context off)) (\<lambda>info.
     sbind (slift (data_slice_from_window jf off (size_needed info))) (\<lambda>data.
       if \<not> info_is_compressed info then slift (visitor (drop (unat (payload_prefix_size context)) data))
       else sbind (decompress_data C context data) (\<lambda>payload. slift (visitor payload)))))"

definition visit_data_payload_at ::
  "Codecs \<Rightarrow> JournalFile \<Rightarrow> u64 \<Rightarrow> (u8 list \<Rightarrow> 'a result) \<Rightarrow> (Buf, 'a) op" where
  "visit_data_payload_at C jf = visit_data_payload_at_with_context C jf (data_payload_read_context jf)"

definition raw_data_payload_ref_with_info ::
  "JournalFile \<Rightarrow> DataPayloadReadContext \<Rightarrow> u64 \<Rightarrow> DataPayloadObjectInfo \<Rightarrow> u8 list result" where
  "raw_data_payload_ref_with_info jf context off info =
     rbind (validate_offset_alignment off) (\<lambda>_.
       if off < ctx_header_size context then Err ObjectExceedsFileBounds
       else if info_is_compressed info then Err InvalidObjectType
       else if size_needed info < payload_prefix_size context then Err (InvalidObjectSize (size_needed info))
       else rbind (data_slice_from_window jf off (size_needed info)) (\<lambda>data.
              Ok (drop (unat (payload_prefix_size context)) data)))"

definition raw_data_payload_ptr_row_pinned_if_uncompressed ::
  "JournalFile \<Rightarrow> DataPayloadReadContext \<Rightarrow> u64 \<Rightarrow> u8 list option result" where
  "raw_data_payload_ptr_row_pinned_if_uncompressed jf context off =
     rbind (validate_data_payload_offset context off) (\<lambda>_.
     rbind (data_payload_info_from_window jf context off) (\<lambda>info.
       if info_is_compressed info then Ok None
       else rbind (slice_at (jf_bytes jf) off (size_needed info)) (\<lambda>data.
              Ok (Some (drop (unat (payload_prefix_size context)) data)))))"

definition visit_borrowed_row_payload ::
  "JournalFile \<Rightarrow> DataPayloadReadContext \<Rightarrow> u64 \<Rightarrow> DataPayloadObjectInfo \<Rightarrow> (RowPinnedPayload \<Rightarrow> unit result) \<Rightarrow> (Buf, unit) op" where
  "visit_borrowed_row_payload jf context off info visitor =
     sbind (slift (slice_at (jf_bytes jf) off (size_needed info))) (\<lambda>data.
       slift (visitor (Borrowed (drop (unat (payload_prefix_size context)) data))))"

definition visit_compressed_row_payload ::
  "Codecs \<Rightarrow> JournalFile \<Rightarrow> DataPayloadReadContext \<Rightarrow> u64 \<Rightarrow> DataPayloadObjectInfo \<Rightarrow>
     (RowPinnedPayload \<Rightarrow> unit result) \<Rightarrow> (Buf, unit) op" where
  "visit_compressed_row_payload C jf context off info visitor =
     sbind (slift (data_slice_from_window jf off (size_needed info))) (\<lambda>data.
     sbind (decompress_data C context data) (\<lambda>payload.
       slift (visitor (Decompressed payload))))"

definition visit_data_payload_row_pinned_from_window ::
  "Codecs \<Rightarrow> JournalFile \<Rightarrow> DataPayloadReadContext \<Rightarrow> u64 \<Rightarrow> (RowPinnedPayload \<Rightarrow> unit result) \<Rightarrow> (Buf, unit) op" where
  "visit_data_payload_row_pinned_from_window C jf context off visitor =
     sbind (slift (validate_data_payload_offset context off)) (\<lambda>_.
     sbind (slift (data_payload_info_from_window jf context off)) (\<lambda>info.
       if info_is_compressed info then visit_compressed_row_payload C jf context off info visitor
       else visit_borrowed_row_payload jf context off info visitor))"

section \<open>Lookup by hash and payload\<close>

record DataLookupHeader =
  lookup_flags :: u8
  lookup_size_needed :: u64
  stored_hash :: u64
  lookup_next_hash_offset :: "u64 option"
  lookup_entry_array_offset :: "u64 option"
  lookup_n_entries :: "u64 option"

record ResolvedDataLinkState =
  link_n_entries :: "u64 option"
  link_entry_array_offset :: "u64 option"
  compact_tail :: "(u64 \<times> u64) option"

definition lookup_is_compressed :: "DataLookupHeader \<Rightarrow> bool" where
  "lookup_is_compressed lookup \<longleftrightarrow> lookup_flags lookup AND (4 OR 2 OR 1) \<noteq> 0"

definition parse_data_lookup_header ::
  "DataPayloadReadContext \<Rightarrow> u64 \<Rightarrow> u8 list \<Rightarrow> DataLookupHeader result" where
  "parse_data_lookup_header context off header_slice =
     (if header_slice ! 0 \<noteq> object_type_code Data then Err InvalidObjectType
      else let sz = u64_at header_slice 8
      in if sz < 64 then Err (InvalidObjectSize sz)
         else rbind (validate_data_payload_info context off \<lparr>size_needed = sz, info_is_compressed = False\<rparr>) (\<lambda>_.
           Ok \<lparr>lookup_flags = header_slice ! 1, lookup_size_needed = sz, stored_hash = u64_at header_slice 16,
               lookup_next_hash_offset = nonzero (u64_at header_slice 24),
               lookup_entry_array_offset = nonzero (u64_at header_slice 48),
               lookup_n_entries = nonzero (u64_at header_slice 56)\<rparr>))"

definition data_lookup_header_from_window ::
  "JournalFile \<Rightarrow> DataPayloadReadContext \<Rightarrow> u64 \<Rightarrow> DataLookupHeader result" where
  "data_lookup_header_from_window jf context off =
     rbind (slice_at (jf_bytes jf) off 64) (parse_data_lookup_header context off)"

definition resolved_data_link_state ::
  "DataPayloadReadContext \<Rightarrow> DataLookupHeader \<Rightarrow> u8 list \<Rightarrow> ResolvedDataLinkState" where
  "resolved_data_link_state context lookup data =
     \<lparr>link_n_entries = lookup_n_entries lookup, link_entry_array_offset = lookup_entry_array_offset lookup,
      compact_tail =
        (if ctx_is_compact context
         then Option.bind (nonzero (ucast (u32_at data 64))) (\<lambda>tail_offset.
                let tail_entries = ucast (u32_at data 68)
                in if tail_entries \<noteq> 0 then Some (tail_offset, tail_entries) else None)
         else None)\<rparr>"

definition data_lookup_payload_matches ::
  "Codecs \<Rightarrow> DataPayloadReadContext \<Rightarrow> DataLookupHeader \<Rightarrow> u8 list \<Rightarrow> PayloadParts \<Rightarrow> (Buf, bool) op" where
  "data_lookup_payload_matches C context lookup data payload =
     (if lookup_is_compressed lookup
      then sbind (decompress_data C context data) (\<lambda>plain. sret (equals_slice payload plain))
      else sret (equals_slice payload (drop (unat (payload_prefix_size context)) data)))"

definition data_lookup_result_at ::
  "Codecs \<Rightarrow> JournalFile \<Rightarrow> DataPayloadReadContext \<Rightarrow> u64 \<Rightarrow> u64 \<Rightarrow> PayloadParts \<Rightarrow>
     (DataPayloadReadContext \<Rightarrow> DataLookupHeader \<Rightarrow> u8 list \<Rightarrow> 't) \<Rightarrow> (Buf, u64 option \<times> 't option) op" where
  "data_lookup_result_at C jf context off hash payload matched =
     sbind (slift (validate_data_payload_offset context off)) (\<lambda>_.
     sbind (slift (data_lookup_header_from_window jf context off)) (\<lambda>lookup.
       if stored_hash lookup \<noteq> hash then sret (lookup_next_hash_offset lookup, None)
       else sbind (slift (data_slice_from_window jf off (lookup_size_needed lookup))) (\<lambda>data.
            sbind (data_lookup_payload_matches C context lookup data payload) (\<lambda>is_match.
              sret (lookup_next_hash_offset lookup,
                    if is_match then Some (matched context lookup data) else None)))))"

lemma parse_data_lookup_header_next:
  "parse_data_lookup_header context off bs = Ok lookup \<Longrightarrow> lookup_next_hash_offset lookup \<noteq> Some 0"
  by (auto simp: parse_data_lookup_header_def Let_def rbind_eq_Ok split: if_splits)

lemma data_lookup_result_next:
  assumes "data_lookup_result_at C jf context off hash payload matched b = (Inr (nx, m), b')"
  shows "nx \<noteq> Some 0"
  using assms parse_data_lookup_header_next
  by (auto simp: data_lookup_result_at_def sbind_def op_run data_lookup_header_from_window_def rbind_def
      split: sum.splits if_splits prod.splits)

function data_match_loop ::
  "Codecs \<Rightarrow> JournalFile \<Rightarrow> DataPayloadReadContext \<Rightarrow> u64 \<Rightarrow> PayloadParts \<Rightarrow>
     (DataPayloadReadContext \<Rightarrow> DataLookupHeader \<Rightarrow> u8 list \<Rightarrow> 't) \<Rightarrow> ChainGuard \<Rightarrow> u64 option \<Rightarrow>
     (Buf, (u64 \<times> 't) option) op" where
  "data_match_loop C jf context hash payload matched chain object_offset b =
     (case object_offset of
        None \<Rightarrow> (Ok None, b)
      | Some off \<Rightarrow>
          (case data_lookup_result_at C jf context off hash payload matched b of
             (Inl err, b') \<Rightarrow> (Err err, b')
           | (Inr (next_hash_offset, match_value), b') \<Rightarrow>
               (case match_value of
                  Some v \<Rightarrow> (Ok (Some (off, v)), b')
                | None \<Rightarrow>
                    (case advance chain off next_hash_offset False of
                       (Inl err, _) \<Rightarrow> (Err err, b')
                     | (Inr _, chain') \<Rightarrow>
                         data_match_loop C jf context hash payload matched chain' next_hash_offset b'))))"
  by pat_completeness auto
termination
proof (relation "measure (\<lambda>(_, _, _, _, _, _, g, off, _). case off of None \<Rightarrow> 0 | Some at \<Rightarrow>
        Suc (if steps g = 0 then 2 ^ 64 + (2 ^ 64 - unat at) else 2 ^ 64 - unat (steps g)))", goal_cases)
  case 1
  show ?case by simp
next
  case (2 C jf ctx hash payload matched chain object_offset b off r1 b' pair nx m r2 chain' u)
  then have "nx \<noteq> Some 0"
    using data_lookup_result_next [of C jf ctx off hash payload matched b nx None b'] by metis
  moreover have "(Inr u, chain') = advance chain off nx False" using 2(6,7) by simp
  ultimately show ?case using advance_option_measure 2(1)
    by (simp only: in_measure prod.case option.case)
qed

declare data_match_loop.simps [simp del]

definition find_data_match_parts ::
  "Codecs \<Rightarrow> JournalFile \<Rightarrow> u64 \<Rightarrow> PayloadParts \<Rightarrow> (DataPayloadReadContext \<Rightarrow> DataLookupHeader \<Rightarrow> u8 list \<Rightarrow> 't) \<Rightarrow>
     (u64 \<times> 't) option result" where
  "find_data_match_parts C jf hash payload matched =
     rbind (ok_or (data_hash_table_ref jf) MissingHashTable) (\<lambda>hash_table.
     rbind (hash_item_ref hash_table hash) (\<lambda>item.
       fst (data_match_loop C jf (data_payload_read_context jf) hash payload matched guard_default
              (head_hash_offset item) buf_new)))"

definition find_data_offset_parts :: "Codecs \<Rightarrow> JournalFile \<Rightarrow> u64 \<Rightarrow> PayloadParts \<Rightarrow> u64 option result" where
  "find_data_offset_parts C jf hash payload =
     rbind (find_data_match_parts C jf hash payload (\<lambda>_ _ _. ())) (\<lambda>found. Ok (map_option fst found))"

definition find_data_offset :: "Codecs \<Rightarrow> JournalFile \<Rightarrow> u64 \<Rightarrow> u8 list \<Rightarrow> u64 option result" where
  "find_data_offset C jf hash payload = find_data_offset_parts C jf hash (pp_raw payload)"

definition find_data_with_link_state_parts ::
  "Codecs \<Rightarrow> JournalFile \<Rightarrow> u64 \<Rightarrow> PayloadParts \<Rightarrow> (u64 \<times> ResolvedDataLinkState) option result" where
  "find_data_with_link_state_parts C jf hash payload =
     find_data_match_parts C jf hash payload resolved_data_link_state"

section \<open>The reused buffer does not matter\<close>

text \<open>With memory available, what decompression delivers does not depend on what the buffer was.\<close>

definition view :: "'a result \<times> Buf \<Rightarrow> 'a result \<times> u8 list" where
  "view = (\<lambda>(r, b). (r, buf_data b))"

lemma view_simps [simp]: "view (r, b) = (r, buf_data b)"
  by (simp add: view_def)

lemma extend_view:
  assumes "reliable C"
  shows "view (extend_decompression_buffer C data max_size b) =
    (if length (buf_data b) + length data \<le> max_size then (Ok (), buf_data b @ data) else (Err DecompressorError, []))"
proof -
  obtain cap where "extend_decompression_buffer C data max_size b =
    (if length (buf_data b) + length data \<le> max_size
     then (Ok (), \<lparr>buf_data = buf_data b @ data, buf_capacity = cap\<rparr>) else (Err DecompressorError, buf_new))"
    using extend_reliable [OF assms] by blast
  then show ?thesis by simp
qed

lemma extend_view_pair:
  assumes "reliable C" and "buf_data b = buf_data b'"
    and "extend_decompression_buffer C data max_size b = (r, t)" "extend_decompression_buffer C data max_size b' = (r', t')"
  shows "r' = r \<and> buf_data t = buf_data t'"
proof -
  have "view (r, t) = view (r', t')" using assms by (metis extend_view)
  then show ?thesis by simp
qed

lemma read_limited_loop_view:
  assumes "reliable C" and "buf_data b = buf_data b'"
  shows "view (read_limited_loop C max_size reader b) = view (read_limited_loop C max_size reader b')"
  using assms(2)
proof (induction reader arbitrary: b b')
  case (Cons answer reader)
  show ?case
  proof (cases answer)
    case (ReadOk chunk)
    obtain r t r' t' where e: "extend_decompression_buffer C chunk max_size b = (r, t)"
      "extend_decompression_buffer C chunk max_size b' = (r', t')" by fastforce
    then have "r' = r \<and> buf_data t = buf_data t'" using extend_view_pair [OF assms(1) Cons.prems] by blast
    with e ReadOk Cons.prems Cons.IH [of t t'] show ?thesis by (cases r) (simp_all add: sbind_def)
  qed (use Cons.prems Cons.IH [of b b'] in simp_all)
qed simp

lemma write_pieces_view:
  assumes "reliable C" and "buf_data b = buf_data b'"
  shows "view (write_pieces C cap pieces b) = view (write_pieces C cap pieces b')"
  using assms(2)
proof (induction pieces arbitrary: b b')
  case (Cons piece pieces)
  obtain r t r' t' where e: "extend_decompression_buffer C piece cap b = (r, t)"
    "extend_decompression_buffer C piece cap b' = (r', t')" by fastforce
  then have "r' = r \<and> buf_data t = buf_data t'" using extend_view_pair [OF assms(1) Cons.prems] by blast
  with e Cons.IH [of t t'] show ?case by (cases r) simp_all
qed simp

lemma copy_zstd_loop_view:
  assumes "reliable C" and "buf_data b = buf_data b'"
  shows "view (copy_zstd_loop C cap copied seen input b) = view (copy_zstd_loop C cap copied seen input b')"
  using assms
proof (induction C cap copied seen input b arbitrary: b' rule: copy_zstd_loop.induct)
  case (1 C cap copied seen input b)
  note step = copy_zstd_loop.simps [of C cap copied seen input]
  let ?skip = "u32_at input 0 AND 0xfffffff0 = 0x184d2a50" and ?size = "unat (u32_at input 4)"
  consider "input = [] \<or> length input < 4 \<or> ?skip \<and> (length input < 8 \<or> min ?size (length (drop 8 input)) \<noteq> ?size) \<or>
      \<not> ?skip \<and> (u32_at input 0 \<noteq> 0xfd2fb528 \<or> length input < 5 \<or> ruzstd_frame C input = None)"
    | "input \<noteq> []" "\<not> length input < 4" ?skip "\<not> length input < 8" "min ?size (length (drop 8 input)) = ?size"
    | f where "input \<noteq> []" "\<not> length input < 4" "\<not> ?skip" "u32_at input 0 = 0xfd2fb528" "\<not> length input < 5"
      "ruzstd_frame C input = Some f"
    by blast
  then show ?case
  proof cases
    case 1
    then show ?thesis using "1.prems"(2) by (subst (1 2) step) (auto simp: Let_def)
  next
    case 2
    then show ?thesis
      using "1.IH"(1) [OF 2(1,2) refl 2(3,4) refl refl _ "1.prems"] by (subst (1 2) step) (simp add: Let_def)
  next
    case (3 f)
    obtain r t r' t' where e: "write_pieces C cap (frame_pieces f) b = (r, t)" "write_pieces C cap (frame_pieces f) b' = (r', t')"
      by fastforce
    then have rt: "r' = r" "buf_data t = buf_data t'" using write_pieces_view [OF "1.prems"] by (metis Pair_inject view_simps)+
    show ?thesis
    proof (cases "\<exists>u total. r = Inr u \<and> \<not> frame_broken f \<and> \<not> frame_rejected (input ! 4 AND 0xe0 \<noteq> 0) f \<and>
        checked_add copied (frame_count f) = Some total")
      case True
      then obtain u n where n: "r = Inr u" "\<not> frame_broken f" "\<not> frame_rejected (input ! 4 AND 0xe0 \<noteq> 0) f"
        "checked_add copied (frame_count f) = Some n" by blast
      have "view (copy_zstd_loop C cap n True (drop (max 5 (frame_consumed f)) input) t) =
          view (copy_zstd_loop C cap n True (drop (max 5 (frame_consumed f)) input) t')"
        by (rule "1.IH"(2) [OF 3(1,2) refl 3(3) _ 3(5,6) e(1) [symmetric] n(1-4) "1.prems"(1) rt(2)]) (simp add: 3(4))
      with 3 e rt n show ?thesis by (subst (1 2) step) (simp add: Let_def)
    next
      case False
      with 3 e rt show ?thesis by (subst (1 2) step) (auto simp: Let_def split: sum.split option.split)
    qed
  qed
qed

lemma reserve_output_reliable:
  assumes "reliable C"
  shows "\<exists>cap \<ge> n. reserve_output C n b = (Ok (), \<lparr>buf_data = [], buf_capacity = cap\<rparr>)"
proof (cases "buf_capacity b < n")
  case True
  obtain cap where "n \<le> cap" "try_reserve C n = Some cap" using assms unfolding reliable_def by blast
  with True show ?thesis by (cases b) (auto simp: reserve_output_def buf_clear_def Let_def)
next
  case False
  then show ?thesis by (cases b) (auto simp: reserve_output_def buf_clear_def Let_def)
qed

lemma zstd_native_view:
  assumes "reliable C"
  shows "view (decompress_zstd_payload_native C payload b) =
    (case zstd_uncompressed_size C payload of
       Inr n \<Rightarrow> (case zstd_content C payload of
                  Some out \<Rightarrow> if length out = n then (Ok n, out) else (Err DecompressorError, [])
                | None \<Rightarrow> (Err DecompressorError, []))
     | Inl _ \<Rightarrow> (Err DecompressorError, []))"
proof (cases "zstd_uncompressed_size C payload")
  case (Inr n)
  obtain cap where "n \<le> cap" "reserve_output C n b = (Ok (), \<lparr>buf_data = [], buf_capacity = cap\<rparr>)"
    using reserve_output_reliable [OF assms] by blast
  with Inr show ?thesis
    by (auto simp: decompress_zstd_payload_native_def prepare_zstd_output_buffer_def zstd_decompress_into_def
        clear_decompression_error_def split: option.split)
qed (simp add: decompress_zstd_payload_native_def clear_decompression_error_def)

lemma zstd_streaming_view:
  assumes "reliable C"
  shows "view (decompress_zstd_payload_streaming C payload b) = view (decompress_zstd_payload_streaming C payload b')"
  using copy_zstd_loop_view [OF assms, of "buf_clear b" "buf_clear b'" MAX_UNCOMPRESSED_DATA_OBJECT_SIZE 0 False payload]
  by (auto simp: decompress_zstd_payload_streaming_def decompress_zstd_payload_streaming_with_cap_def copy_zstd_stream_def
      clear_decompression_error_def view_def split: prod.splits sum.splits)

lemma zstd_view:
  assumes "reliable C"
  shows "view (decompress_zstd_payload C payload b) = view (decompress_zstd_payload C payload b')"
proof -
  obtain r t r' t' where e: "decompress_zstd_payload_native C payload b = (r, t)"
    "decompress_zstd_payload_native C payload b' = (r', t')" by fastforce
  have "view (decompress_zstd_payload_native C payload b) = view (decompress_zstd_payload_native C payload b')"
    by (simp only: zstd_native_view [OF assms])
  with e have "r' = r" "buf_data t = buf_data t'" by simp_all
  then show ?thesis
    using e zstd_streaming_view [OF assms, of payload t t'] by (cases r) (simp_all add: decompress_zstd_payload_def)
qed

lemma lz4_view:
  assumes "reliable C"
  shows "view (decompress_lz4_payload C payload b) = view (decompress_lz4_payload C payload b')"
proof (cases "lz4_uncompressed_size payload")
  case (Inr n)
  obtain cap cap' where "reserve_output C n b = (Ok (), \<lparr>buf_data = [], buf_capacity = cap\<rparr>)"
    "reserve_output C n b' = (Ok (), \<lparr>buf_data = [], buf_capacity = cap'\<rparr>)"
    using reserve_output_reliable [OF assms] by meson
  with Inr show ?thesis
    by (auto simp: decompress_lz4_payload_def prepare_lz4_output_buffer_def clear_decompression_error_def sbind_def op_run
        split: option.split)
qed (simp add: decompress_lz4_payload_def clear_decompression_error_def)

lemma decompress_view:
  assumes "reliable C" and "is_compressed (data_object_header (data_header d))"
  shows "view (decompress C d b) = view (decompress C d b')"
  using zstd_view [OF assms(1), of "raw_payload d" b b'] lz4_view [OF assms(1), of "raw_payload d" b b'] assms(2)
    read_limited_loop_view [OF assms(1), of "buf_clear b" "buf_clear b'" MAX_UNCOMPRESSED_DATA_OBJECT_SIZE "xz_reads C (raw_payload d)"]
  by (simp add: decompress_def Let_def clear_compression_error_def decompress_xz_payload_def read_limited_to_end_def
      read_limited_to_end_with_cap_def)

definition plain_data :: "Codecs \<Rightarrow> DataPayloadReadContext \<Rightarrow> u8 list \<Rightarrow> u8 list result" where
  "plain_data C ctx data = fst (decompress_data C ctx data buf_new)"

lemma decompress_data_plain:
  assumes "reliable C" and "\<And>d. data_from_data data (ctx_is_compact ctx) = Some d \<Longrightarrow> is_compressed (data_object_header (data_header d))"
  shows "fst (decompress_data C ctx data b) = plain_data C ctx data"
proof (cases "data_from_data data (ctx_is_compact ctx)")
  case None
  then show ?thesis by (simp add: plain_data_def decompress_data_def sbind_def op_run)
next
  case (Some d)
  obtain r t r' t' where e: "decompress C d (buf_clear b) = (r, t)" "decompress C d (buf_clear buf_new) = (r', t')" by fastforce
  then have "r' = r" "buf_data t = buf_data t'"
    using decompress_view [OF assms(1) assms(2) [OF Some]] by (metis Pair_inject view_simps)+
  with Some e show ?thesis by (cases r) (simp_all add: plain_data_def decompress_data_def sbind_def op_run)
qed

section \<open>The lookup is a walk of the bucket\<close>

definition lookup_object :: "JournalFile \<Rightarrow> DataPayloadReadContext \<Rightarrow> u64 \<Rightarrow> DataLookupHeader result" where
  "lookup_object jf ctx off =
     rbind (validate_data_payload_offset ctx off) (\<lambda>_. data_lookup_header_from_window jf ctx off)"

definition lookup_text :: "Codecs \<Rightarrow> DataPayloadReadContext \<Rightarrow> DataLookupHeader \<Rightarrow> u8 list \<Rightarrow> u8 list result" where
  "lookup_text C ctx lookup data =
     (if lookup_is_compressed lookup then plain_data C ctx data
      else Ok (drop (unat (payload_prefix_size ctx)) data))"

definition lookup_visit ::
  "Codecs \<Rightarrow> JournalFile \<Rightarrow> DataPayloadReadContext \<Rightarrow> u64 \<Rightarrow> PayloadParts \<Rightarrow>
     (DataPayloadReadContext \<Rightarrow> DataLookupHeader \<Rightarrow> u8 list \<Rightarrow> 't) \<Rightarrow> u64 \<Rightarrow> DataLookupHeader \<Rightarrow> (u64 \<times> 't) option result" where
  "lookup_visit C jf ctx hash payload matched off lookup =
     (if stored_hash lookup \<noteq> hash then Ok None
      else rbind (slice_at (jf_bytes jf) off (lookup_size_needed lookup)) (\<lambda>data.
           rbind (lookup_text C ctx lookup data) (\<lambda>plain.
             Ok (if equals_slice payload plain then Some (off, matched ctx lookup data) else None))))"

lemma compressed_flags:
  fixes w :: u8
  shows "w AND (4 OR 2 OR 1) \<noteq> 0 \<longleftrightarrow> w AND 4 \<noteq> 0 \<or> w AND 2 \<noteq> 0 \<or> w AND 1 \<noteq> 0"
  by (simp only: bit.conj_disj_distrib or_eq_0_iff) blast

lemma slice_at_prefix:
  assumes "slice_at bs off n = Ok hs" and "slice_at bs off m = Ok data" and "i < unat n" and "unat n \<le> unat m"
  shows "data ! i = hs ! i"
  using assms by (auto simp: slice_at_def bytes_at_def split: if_splits)

lemma data_from_data_flags:
  "data_from_data data c = Some d \<Longrightarrow> flags (data_object_header (data_header d)) = data ! 1"
  by (auto simp: data_from_data_def data_header_from_bytes_def object_header_from_bytes_def Let_def split: if_splits)

lemma data_lookup_result_fst:
  assumes "reliable C"
  shows "fst (data_lookup_result_at C jf ctx off hash payload matched b) =
    rbind (lookup_object jf ctx off) (\<lambda>lookup.
    rbind (lookup_visit C jf ctx hash payload matched off lookup) (\<lambda>m. Ok (lookup_next_hash_offset lookup, map_option snd m)))"
proof (cases "lookup_object jf ctx off")
  case (Inl e)
  then show ?thesis
    by (auto simp: lookup_object_def data_lookup_result_at_def sbind_def op_run rbind_eq_Err)
next
  case (Inr lookup)
  then have v: "validate_data_payload_offset ctx off = Ok ()" "data_lookup_header_from_window jf ctx off = Ok lookup"
    by (auto simp: lookup_object_def rbind_eq_Ok)
  show ?thesis
  proof (cases "slice_at (jf_bytes jf) off (lookup_size_needed lookup)")
    case (Inl e)
    with Inr v show ?thesis
      by (simp add: data_lookup_result_at_def sbind_def op_run lookup_visit_def data_slice_from_window_def)
  next
    case data: (Inr data)
    have plain: "fst (decompress_data C ctx data b) = plain_data C ctx data" if "lookup_is_compressed lookup"
    proof (rule decompress_data_plain [OF assms])
      fix d assume d: "data_from_data data (ctx_is_compact ctx) = Some d"
      obtain hs where hs: "slice_at (jf_bytes jf) off 64 = Ok hs" "64 \<le> lookup_size_needed lookup" "lookup_flags lookup = hs ! 1"
        using v(2) by (auto simp: data_lookup_header_from_window_def parse_data_lookup_header_def rbind_eq_Ok Let_def
            split: if_splits)
      then have "data ! 1 = hs ! 1" using slice_at_prefix [OF hs(1) data, of 1] by (simp add: word_le_nat_alt)
      with that hs(3) show "is_compressed (data_object_header (data_header d))"
        unfolding lookup_is_compressed_def compressed_flags
        by (simp add: is_compressed_def zstd_compressed_def lz4_compressed_def xz_compressed_def data_from_data_flags [OF d])
    qed
    show ?thesis
    proof (cases "lookup_is_compressed lookup")
      case True
      obtain r t where e: "decompress_data C ctx data b = (r, t)" by fastforce
      then have "plain_data C ctx data = r" using plain [OF True] by simp
      with True e Inr v data show ?thesis
        by (cases r) (auto simp: data_lookup_result_at_def sbind_def op_run lookup_visit_def data_slice_from_window_def
            lookup_text_def data_lookup_payload_matches_def)
    next
      case False
      with Inr v data show ?thesis
        by (auto simp: data_lookup_result_at_def sbind_def op_run lookup_visit_def data_slice_from_window_def
            lookup_text_def data_lookup_payload_matches_def)
    qed
  qed
qed

lemma lookup_object_next: "lookup_object jf ctx off = Ok lookup \<Longrightarrow> as_nonzero (lookup_next_hash_offset lookup) = lookup_next_hash_offset lookup"
  using parse_data_lookup_header_next
  by (cases "lookup_next_hash_offset lookup")
    (auto simp: lookup_object_def data_lookup_header_from_window_def rbind_eq_Ok)

lemma data_match_loop_bucket:
  assumes "reliable C"
  shows "fst (data_match_loop C jf ctx hash payload matched chain object_offset b) =
    bucket_loop (lookup_object jf ctx) lookup_next_hash_offset (lookup_visit C jf ctx hash payload matched) chain object_offset"
  using assms
proof (induction C jf ctx hash payload matched chain object_offset b rule: data_match_loop.induct)
  case (1 C jf ctx hash payload matched chain object_offset b)
  note steps = data_match_loop.simps [of C jf ctx hash payload matched chain object_offset b]
    bucket_loop.simps [of "lookup_object jf ctx" lookup_next_hash_offset "lookup_visit C jf ctx hash payload matched" chain object_offset]
  show ?case
  proof (cases object_offset)
    case None
    then show ?thesis by (subst steps(1), subst steps(2)) simp
  next
    case (Some off)
    obtain r t where e: "data_lookup_result_at C jf ctx off hash payload matched b = (r, t)" by fastforce
    have r: "r = rbind (lookup_object jf ctx off) (\<lambda>lookup.
        rbind (lookup_visit C jf ctx hash payload matched off lookup) (\<lambda>m. Ok (lookup_next_hash_offset lookup, map_option snd m)))"
      using data_lookup_result_fst [OF "1.prems", of jf ctx off hash payload matched b] e by simp
    have at: "fst (the m) = off" if "lookup_visit C jf ctx hash payload matched off lookup = Ok m" "m \<noteq> None" for lookup m
      using that by (auto simp: lookup_visit_def rbind_eq_Ok split: if_splits)
    show ?thesis
    proof (cases r)
      case (Inl err)
      then show ?thesis using Some e r by (subst steps(1), subst steps(2)) (auto simp: rbind_eq_Err)
    next
      case (Inr pair)
      then obtain lookup m where m: "lookup_object jf ctx off = Ok lookup"
        "lookup_visit C jf ctx hash payload matched off lookup = Ok m" "pair = (lookup_next_hash_offset lookup, map_option snd m)"
        using r by (auto simp: rbind_eq_Ok)
      obtain g chain' where g: "advance chain off (lookup_next_hash_offset lookup) False = (g, chain')" by fastforce
      show ?thesis
      proof (cases m)
        case None
        show ?thesis
        proof (cases g)
          case (Inl err)
          with Some e Inr m None g lookup_object_next [OF m(1)] show ?thesis
            by (subst steps(1), subst steps(2)) (simp add: \<open>r = Inr pair\<close>)
        next
          case (Inr u)
          have "fst (data_match_loop C jf ctx hash payload matched chain' (lookup_next_hash_offset lookup) t) =
            bucket_loop (lookup_object jf ctx) lookup_next_hash_offset (lookup_visit C jf ctx hash payload matched) chain'
              (lookup_next_hash_offset lookup)"
            using "1.IH" [OF Some e [symmetric] \<open>r = Inr pair\<close> m(3) [symmetric] _ g [symmetric] Inr "1.prems"] None by simp
          with Some e Inr m None g lookup_object_next [OF m(1)] show ?thesis
            by (subst steps(1), subst steps(2)) (simp add: \<open>r = Inr pair\<close>)
        qed
      next
        case (Some mm)
        with e m at [OF m(2)] \<open>object_offset = Some off\<close> Inr show ?thesis
          by (subst steps(1), subst steps(2)) (cases mm; simp)
      qed
    qed
  qed
qed

lemma find_data_match_bucket:
  assumes "reliable C"
  shows "find_data_match_parts C jf hash payload matched =
    visit_bucket (lookup_object jf (data_payload_read_context jf)) lookup_next_hash_offset (data_hash_table_ref jf) hash
      (lookup_visit C jf (data_payload_read_context jf) hash payload matched)"
  by (simp add: find_data_match_parts_def visit_bucket_def data_match_loop_bucket [OF assms])

lemmas byte_views = word_at_bytes_at nth_bytes_at bytes_at_bytes_at

lemma data_ref_bytes:
  assumes "data_ref jf off = Ok d"
  obtains sz where "sz = u64_at (jf_bytes jf) (unat off + 8)" and "off mod 8 = 0" and "header_size (jf_header jf) \<le> off"
    and "payload_prefix_size (data_payload_read_context jf) \<le> sz" and "64 \<le> sz"
    and "unat off + unat sz \<le> length (jf_bytes jf)" and "unat off + unat sz < 2 ^ 64"
    and "off + sz \<le> header_size (jf_header jf) + arena_size (jf_header jf)"
    and "jf_bytes jf ! unat off = 1"
    and "data_from_data (bytes_at (jf_bytes jf) (unat off) (unat sz)) (is_compact jf) = Some d"
proof -
  let ?bs = "jf_bytes jf" and ?h = "object_header_from_bytes (bytes_at (jf_bytes jf) (unat off) 16)"
  have chk: "checked_add off (obj_size ?h) \<noteq> None"
    using assms unfolding data_ref_def journal_object_ref_def Let_def
    by (auto simp: rbind_eq_Ok ok_or_eq_Ok slice_at_def validated_size_def split: if_splits)
  obtain h where h: "off mod 8 = 0" "header_size (jf_header jf) \<le> off"
    "unat off + unat (obj_size h) \<le> length ?bs" "16 \<le> obj_size h" "h = ?h"
    "obj_type h = object_type_code Data"
    "off + obj_size h \<le> header_size (jf_header jf) + arena_size (jf_header jf)"
    "data_from_data (bytes_at ?bs (unat off) (unat (obj_size h))) (is_compact jf) = Some d"
    using assms unfolding data_ref_def by (rule journal_object_ref_Ok)
  have b16: "unat off + 16 \<le> length ?bs" using h(3,4) by (simp add: word_le_nat_alt)
  have sz: "obj_size h = u64_at ?bs (unat off + 8)" "?bs ! unat off = 1"
    using h(5,6) b16 by (simp_all add: object_header_from_bytes_def byte_views)
  have n: "64 \<le> unat (obj_size h)" "is_compact jf \<Longrightarrow> 72 \<le> unat (obj_size h)"
    using h(3,8) by (auto simp: data_from_data_def length_bytes_at Let_def split: if_splits)
  show thesis
  proof (rule that [OF sz(1) h(1,2)])
    show "payload_prefix_size (data_payload_read_context jf) \<le> obj_size h" "64 \<le> obj_size h"
      using n by (auto simp: data_payload_read_context_def word_le_nat_alt)
    show "unat off + unat (obj_size h) < 2 ^ 64"
      using chk h(5) by (simp add: checked_add_def split: if_splits)
  qed (use h sz in simp_all)
qed

lemma typed_lookup:
  assumes "data_ref jf off = Ok d" and "ctx = data_payload_read_context jf"
  obtains lookup data where "lookup_object jf ctx off = Ok lookup"
    and "slice_at (jf_bytes jf) off (lookup_size_needed lookup) = Ok data" and "data_from_data data (is_compact jf) = Some d"
    and "stored_hash lookup = data_hash (data_header d)"
    and "lookup_next_hash_offset lookup = data_next_hash_offset (data_header d)"
    and "lookup_entry_array_offset lookup = data_entry_array_offset (data_header d)"
    and "lookup_n_entries lookup = data_n_entries (data_header d)"
    and "lookup_is_compressed lookup = is_compressed (data_object_header (data_header d))"
    and "drop (unat (payload_prefix_size ctx)) data = raw_payload d"
    and "validate_data_payload_offset ctx off = Ok ()"
    and "data_payload_info_from_window jf ctx off =
      Ok \<lparr>size_needed = lookup_size_needed lookup, info_is_compressed = is_compressed (data_object_header (data_header d))\<rparr>"
proof -
  let ?bs = "jf_bytes jf"
  obtain sz where sz: "sz = u64_at ?bs (unat off + 8)" "off mod 8 = 0" "header_size (jf_header jf) \<le> off"
    "payload_prefix_size (data_payload_read_context jf) \<le> sz" "64 \<le> sz"
    "unat off + unat sz \<le> length ?bs" "unat off + unat sz < 2 ^ 64"
    "off + sz \<le> header_size (jf_header jf) + arena_size (jf_header jf)" "?bs ! unat off = 1"
    "data_from_data (bytes_at ?bs (unat off) (unat sz)) (is_compact jf) = Some d"
    by (rule data_ref_bytes [OF assms(1)])
  let ?data = "bytes_at ?bs (unat off) (unat sz)" and ?hs = "bytes_at ?bs (unat off) 64"
  have n: "64 \<le> unat sz" using sz(5) by (simp add: word_le_nat_alt)
  have slices: "slice_at ?bs off 64 = Ok ?hs" "slice_at ?bs off sz = Ok ?data" "slice_at ?bs off 16 = Ok (bytes_at ?bs (unat off) 16)"
    using sz(6) n by (simp_all add: slice_at_def)
  have inside: "checked_add off sz = Some (off + sz)" using sz(7) by (simp add: checked_add_def)
  let ?l = "\<lparr>lookup_flags = ?bs ! (unat off + 1), lookup_size_needed = sz, stored_hash = u64_at ?bs (unat off + 16),
     lookup_next_hash_offset = nonzero (u64_at ?bs (unat off + 24)),
     lookup_entry_array_offset = nonzero (u64_at ?bs (unat off + 48)),
     lookup_n_entries = nonzero (u64_at ?bs (unat off + 56))\<rparr>"
  have v: "validate_data_payload_offset ctx off = Ok ()"
    using sz(2,3) by (simp add: assms(2) validate_data_payload_offset_def validate_offset_alignment_def data_payload_read_context_def)
  have i: "validate_data_payload_info ctx off \<lparr>size_needed = sz, info_is_compressed = c\<rparr> = Ok ()" for c
    using sz(4,8) inside by (simp add: assms(2) validate_data_payload_info_def data_payload_read_context_def not_less)
  have l: "lookup_object jf ctx off = Ok ?l"
    using v i [of False] sz n slices
    by (simp add: lookup_object_def data_lookup_header_from_window_def parse_data_lookup_header_def byte_views not_less Let_def)
  have hdr: "data_header d = data_header_from_bytes (take 64 ?data)" "take 64 ?data = ?hs"
    using sz(10) n by (auto simp: data_from_data_def Let_def bytes_at_def min_def split: if_splits)
  have flags: "flags (data_object_header (data_header d)) = ?bs ! (unat off + 1)"
    using hdr n sz(6) by (simp add: data_header_from_bytes_def object_header_from_bytes_def byte_views)
  have comp: "lookup_is_compressed ?l = is_compressed (data_object_header (data_header d))"
    unfolding lookup_is_compressed_def
    by (simp add: compressed_flags [simplified] is_compressed_def zstd_compressed_def lz4_compressed_def xz_compressed_def flags)
  have info: "data_payload_info_from_window jf ctx off =
      Ok \<lparr>size_needed = sz, info_is_compressed = is_compressed (data_object_header (data_header d))\<rparr>"
    using i sz(1,5,6,9) n slices flags
    by (simp add: data_payload_info_from_window_def parse_data_payload_object_header_def object_header_from_bytes_def
        byte_views validated_size_def is_compressed_def zstd_compressed_def lz4_compressed_def xz_compressed_def Let_def
        word_less_nat_alt)
  have pay: "drop (unat (payload_prefix_size ctx)) ?data = raw_payload d"
  proof -
    have "unat (payload_prefix_size ctx) = (if is_compact jf then 72 else 64)"
      by (simp add: assms(2) data_payload_read_context_def)
    then show ?thesis using sz(10) by (auto simp: data_from_data_def raw_payload_def Let_def split: if_splits)
  qed
  show thesis
    by (rule that [OF l]) (use slices sz(10) hdr comp v info pay n sz(6) in \<open>simp_all add: data_header_from_bytes_def byte_views\<close>)
qed

lemma first_match_lookup:
  assumes "\<forall>(off, lookup) \<in> set ps. stored_hash lookup = hash \<longrightarrow>
      (\<exists>data. slice_at (jf_bytes jf) off (lookup_size_needed lookup) = Ok data \<and> lookup_text C ctx lookup data = Ok (plain off))"
    and "p = pp_raw payload \<or> p = pp_structured name value"
  shows "rbind (first_match (lookup_visit C jf ctx hash p (\<lambda>_ _ _. ())) ps) (\<lambda>found. Ok (map_option fst found)) =
    Ok (map_option fst (find (\<lambda>(off, lookup). stored_hash lookup = hash \<and> plain off = pp_to_vec p) ps))"
  using assms(1)
proof (induction ps)
  case (Cons q ps)
  have eq: "equals_slice p other \<longleftrightarrow> other = pp_to_vec p" for other
    using assms(2) pp_wf by (auto simp: equals_slice_def equals_loop_iff pp_to_vec_concat)
  obtain off lookup where "q = (off, lookup)" by (cases q)
  with Cons show ?case by (auto simp: lookup_visit_def eq)
qed simp

lemma find_data_offset_first:
  assumes "reliable C" and "data_hash_table_ref jf = Some t" and "table_items t \<noteq> []"
    and "ctx = data_payload_read_context jf"
    and "hash_chain (lookup_object jf ctx) lookup_next_hash_offset ps" and "distinct (map fst ps)"
    and "head_hash_offset (table_items t ! (unat hash mod length (table_items t))) =
      (case ps of [] \<Rightarrow> None | p # _ \<Rightarrow> Some (fst p))"
    and "\<forall>(off, lookup) \<in> set ps. stored_hash lookup = hash \<longrightarrow>
      (\<exists>data. slice_at (jf_bytes jf) off (lookup_size_needed lookup) = Ok data \<and> lookup_text C ctx lookup data = Ok (plain off))"
    and "p = pp_raw payload \<or> p = pp_structured name value"
  shows "find_data_offset_parts C jf hash p =
    Ok (map_option fst (find (\<lambda>(off, lookup). stored_hash lookup = hash \<and> plain off = pp_to_vec p) ps))"
  using first_match_lookup [OF assms(8,9)] assms(2,3,7)
  by (simp add: find_data_offset_parts_def find_data_match_bucket [OF assms(1)] visit_bucket_def hash_item_ref_def
      bucket_loop_first_match [OF assms(5,6)] flip: assms(4))

section \<open>Properties\<close>

text \<open>
  C10. Looking up a data object finds exactly the object with that payload.  On the acyclic chain of the
  bucket of the hash, whose objects with this hash can be read and, where they are compressed,
  decompressed, the lookup returns the offset of the first object with the hash and the payload, and
  nothing when there is none; the payload may be given in one piece or as name and value, and the buffer that is
  reused between the objects never leaks the text of one object into the comparison of another.
\<close>

theorem find_data_offset_exact:
  assumes "reliable C" and "data_hash_table_ref jf = Some t" and "table_items t \<noteq> []"
    and "ctx = data_payload_read_context jf"
    and "hash_chain (lookup_object jf ctx) lookup_next_hash_offset ps" and "distinct (map fst ps)"
    and "head_hash_offset (table_items t ! (unat hash mod length (table_items t))) =
      (case ps of [] \<Rightarrow> None | p # _ \<Rightarrow> Some (fst p))"
    and "\<forall>(off, lookup) \<in> set ps. stored_hash lookup = hash \<longrightarrow>
      (\<exists>data. slice_at (jf_bytes jf) off (lookup_size_needed lookup) = Ok data \<and> lookup_text C ctx lookup data = Ok (plain off))"
    and "p = pp_raw payload \<or> p = pp_structured name value"
  shows "find_data_offset_parts C jf hash p =
    Ok (map_option fst (find (\<lambda>(off, lookup). stored_hash lookup = hash \<and> plain off = pp_to_vec p) ps))"
  using assms by (rule find_data_offset_first)

definition sample_data_file :: JournalFile where
  "sample_data_file = sample_file
     \<lparr>jf_header := sample_header\<lparr>header_size := 16, arena_size := 72, incompatible_flags := 0\<rparr>,
      jf_bytes := replicate 16 0 @ [1, 0, 0, 0, 0, 0, 0, 0, 67, 0, 0, 0, 0, 0, 0, 0] @ [7, 0, 0, 0, 0, 0, 0, 0] @
        replicate 40 0 @ [65, 61, 98] @ replicate 5 0,
      data_hash_table_map := Some ([4] @ replicate 15 0 @ [16, 0, 0, 0, 0, 0, 0, 0, 16, 0, 0, 0, 0, 0, 0, 0])\<rparr>"

lemma sample_data_slices:
  "slice_at (jf_bytes sample_data_file) 16 16 = Ok [1, 0, 0, 0, 0, 0, 0, 0, 67, 0, 0, 0, 0, 0, 0, 0]"
  "slice_at (jf_bytes sample_data_file) 16 67 = Ok ([1, 0, 0, 0, 0, 0, 0, 0, 67, 0, 0, 0, 0, 0, 0, 0] @
     [7, 0, 0, 0, 0, 0, 0, 0] @ replicate 40 0 @ [65, 61, 98])"
  by (simp_all add: slice_at_def sample_data_file_def bytes_at_def)

lemma sample_data_fields:
  "header_size (jf_header sample_data_file) = 16" "arena_size (jf_header sample_data_file) = 72"
  "\<not> is_compact sample_data_file"
  by (simp_all add: sample_data_file_def is_compact_def has_incompatible_flag_def)

lemma horner_sum_zeros: "horner_sum uint 256 (replicate n (0 :: u8)) = (0 :: int)"
  by (induction n) simp_all

lemma sample_data_object:
  "data_ref sample_data_file 16 = Ok
     \<lparr>data_header = \<lparr>data_object_header = \<lparr>obj_type = 1, flags = 0, obj_reserved = [0, 0, 0, 0, 0, 0], obj_size = 67\<rparr>,
        data_hash = 7, data_next_hash_offset = None, data_next_field_offset = None, data_entry_offset = None,
        data_entry_array_offset = None, data_n_entries = None\<rparr>, data_payload = RegularPayload [65, 61, 98]\<rparr>"
  by (simp add: data_ref_def journal_object_ref_def sample_data_slices sample_data_fields validate_offset_alignment_def
      object_header_from_bytes_def bytes_at_def u64_at_def from_le_def validated_size_def checked_add_def
      data_from_data_def data_header_from_bytes_def horner_sum_zeros Let_def)

lemma sample_data_table:
  "data_hash_table_ref sample_data_file = Some \<lparr>table_header = object_header_from_bytes ([4] @ replicate 15 0),
     table_items = [\<lparr>head_hash_offset = Some 16, tail_hash_offset = Some 16\<rparr>]\<rparr>"
proof -
  have c: "chunks 16 ([16, 0, 0, 0, 0, 0, 0, 0, 16, 0, 0, 0, 0, 0, 0, 0] @ []) =
      [[16, 0, 0, 0, 0, 0, 0, 0, 16, 0, 0, 0, 0, 0, 0, 0 :: u8]]"
    by (simp add: chunks_append [of 16] del: append.simps append_Nil2)
  then show ?thesis
    by (simp add: data_hash_table_ref_def sample_data_file_def hash_table_from_data_def hash_item_from_bytes_def
        u64_at_def from_le_def bytes_at_def)
qed

theorem find_data_offset_exact_witness:
  "find_data_offset_parts sample_codecs sample_data_file 7 (pp_structured [65] [98]) = Ok (Some 16)"
proof -
  let ?ctx = "data_payload_read_context sample_data_file"
  obtain lookup data where l: "lookup_object sample_data_file ?ctx 16 = Ok lookup"
    "slice_at (jf_bytes sample_data_file) 16 (lookup_size_needed lookup) = Ok data"
    "stored_hash lookup = 7" "lookup_next_hash_offset lookup = None" "\<not> lookup_is_compressed lookup"
    "drop (unat (payload_prefix_size ?ctx)) data = [65, 61, 98]"
    by (rule typed_lookup [OF sample_data_object refl])
      (auto simp: raw_payload_def is_compressed_def zstd_compressed_def lz4_compressed_def xz_compressed_def)
  have "reliable sample_codecs" by (auto simp: reliable_def sample_codecs_def)
  from find_data_offset_exact [OF this sample_data_table _ refl, of "[(16, lookup)]" 7 "\<lambda>_. [65, 61, 98]"
      "pp_structured [65] [98]" "[]" "[65]" "[98]"] l
  show ?thesis by (simp add: lookup_text_def pp_to_vec_def pp_structured_def)
qed

text \<open>
  The fast paths agree with typed access.  For every data object that \<open>data_ref\<close> returns, the lookup
  header read from the raw bytes has the same hash, chain link, postings and compression flags, the link
  state it yields is the object's, and visiting its payload hands the visitor exactly the object's payload,
  decompressed when it is compressed.
\<close>

theorem payload_access_typed:
  assumes "data_ref jf off = Ok d" and "ctx = data_payload_read_context jf"
  shows "\<exists>lookup data. lookup_object jf ctx off = Ok lookup \<and>
    slice_at (jf_bytes jf) off (lookup_size_needed lookup) = Ok data \<and>
    stored_hash lookup = data_hash (data_header d) \<and>
    lookup_next_hash_offset lookup = data_next_hash_offset (data_header d) \<and>
    lookup_is_compressed lookup = is_compressed (data_object_header (data_header d)) \<and>
    link_n_entries (resolved_data_link_state ctx lookup data) = data_n_entries (data_header d) \<and>
    link_entry_array_offset (resolved_data_link_state ctx lookup data) = data_entry_array_offset (data_header d) \<and>
    visit_data_payload_at C jf off visitor b =
      (if is_compressed (data_object_header (data_header d))
       then (case decompress C d (buf_clear b) of
               (Inl e, b') \<Rightarrow> (Err e, b')
             | (Inr n, b') \<Rightarrow> (visitor (take n (buf_data b')), b'))
       else (visitor (raw_payload d), b))"
proof (rule typed_lookup [OF assms], goal_cases)
  case (1 lookup data)
  have ctx: "ctx_is_compact ctx = is_compact jf" by (simp add: assms(2) data_payload_read_context_def)
  have "visit_data_payload_at C jf off visitor b =
      (if is_compressed (data_object_header (data_header d))
       then (case decompress C d (buf_clear b) of
               (Inl e, b') \<Rightarrow> (Err e, b')
             | (Inr n, b') \<Rightarrow> (visitor (take n (buf_data b')), b'))
       else (visitor (raw_payload d), b))"
    using 1 ctx
    by (auto simp: visit_data_payload_at_def visit_data_payload_at_with_context_def decompress_data_def
        data_slice_from_window_def sbind_def op_run simp flip: assms(2) split: prod.split sum.split)
  with 1 show ?case by (auto simp: resolved_data_link_state_def)
qed

theorem payload_access_typed_witness:
  "visit_data_payload_at sample_codecs sample_data_file 16 (\<lambda>payload. Ok (length payload)) buf_new = (Ok 3, buf_new)"
  using payload_access_typed [OF sample_data_object refl, of sample_codecs "\<lambda>payload. Ok (length payload)" buf_new]
  by (auto simp: is_compressed_def zstd_compressed_def lz4_compressed_def xz_compressed_def raw_payload_def)

end
