(* ===== verification/Slice_Search.thy ===== *)
theory Slice_Search
  imports Main
begin

text \<open>
  What the sources use of the standard library's ordered slices: three-way comparison,
  \<open>binary_search_by\<close> and \<open>partition_point\<close>.  The contract of a search is the locale \<open>slice_search\<close>, met by
  the halving search of the library; clients rely on the contract only.
\<close>

section \<open>Binary search in a slice\<close>

datatype Ordering = Less | Equal | Greater

definition cmp :: "'a::linorder \<Rightarrow> 'a \<Rightarrow> Ordering" where
  "cmp a b = (if a < b then Less else if a = b then Equal else Greater)"

text \<open>
  What \<open>slice::binary_search_by\<close> promises on a slice that the comparison splits into a lower, an equal
  and an upper part: the index of an equal element, whichever, or the place to insert one.
\<close>

definition partitioned :: "('a \<Rightarrow> Ordering) \<Rightarrow> 'a list \<Rightarrow> bool" where
  "partitioned f xs \<longleftrightarrow>
     (\<forall>i j. i < j \<longrightarrow> j < length xs \<longrightarrow> (f (xs ! j) = Less \<longrightarrow> f (xs ! i) = Less) \<and> (f (xs ! i) = Greater \<longrightarrow> f (xs ! j) = Greater))"

definition insertion_point :: "('a \<Rightarrow> Ordering) \<Rightarrow> 'a list \<Rightarrow> nat \<Rightarrow> bool" where
  "insertion_point f xs i \<longleftrightarrow>
     i \<le> length xs \<and> (\<forall>k < i. f (xs ! k) \<noteq> Greater) \<and> (\<forall>k. i \<le> k \<longrightarrow> k < length xs \<longrightarrow> f (xs ! k) \<noteq> Less)"

locale slice_search =
  fixes search :: "('a \<Rightarrow> Ordering) \<Rightarrow> 'a list \<Rightarrow> nat + nat"
  assumes found: "partitioned f xs \<Longrightarrow> search f xs = Inr i \<Longrightarrow> i < length xs \<and> f (xs ! i) = Equal"
    and not_found: "partitioned f xs \<Longrightarrow> search f xs = Inl i \<Longrightarrow>
      i \<le> length xs \<and> (\<forall>k < i. f (xs ! k) = Less) \<and> (\<forall>k. i \<le> k \<longrightarrow> k < length xs \<longrightarrow> f (xs ! k) = Greater)"
begin

lemma search_point:
  assumes "partitioned f xs"
  shows "insertion_point f xs (case search f xs of Inl i \<Rightarrow> i | Inr i \<Rightarrow> i)"
proof (cases "search f xs")
  case (Inl i)
  then show ?thesis using not_found [OF assms Inl] by (auto simp: insertion_point_def)
next
  case (Inr i)
  then have i: "i < length xs" "f (xs ! i) = Equal" using found [OF assms] by auto
  have "f (xs ! k) \<noteq> Greater" if "k < i" for k
    using assms i that unfolding partitioned_def by (metis Ordering.distinct(5))
  moreover have "f (xs ! k) \<noteq> Less" if "i \<le> k" "k < length xs" for k
    using assms i that unfolding partitioned_def by (metis Ordering.distinct(1) le_neq_implies_less)
  ultimately show ?thesis using Inr i by (simp add: insertion_point_def)
qed

end

text \<open>The search of the Rust standard library: it halves until one element is left, then compares once more.\<close>

function binary_search_loop :: "('a \<Rightarrow> Ordering) \<Rightarrow> 'a list \<Rightarrow> nat \<Rightarrow> nat \<Rightarrow> nat" where
  "binary_search_loop f xs base size_left =
     (if 1 < size_left
      then (let half = size_left div 2; mid = base + half
            in binary_search_loop f xs (if f (xs ! mid) = Greater then base else mid) (size_left - half))
      else base)"
  by pat_completeness auto
termination
  by (relation "measure (\<lambda>(_, _, _, size_left). size_left)") auto

declare binary_search_loop.simps [simp del]

definition binary_search_by :: "('a \<Rightarrow> Ordering) \<Rightarrow> 'a list \<Rightarrow> nat + nat" where
  "binary_search_by f xs =
     (if xs = [] then Inl 0
      else let base = binary_search_loop f xs 0 (length xs)
           in if f (xs ! base) = Equal then Inr base
              else Inl (base + (if f (xs ! base) = Less then 1 else 0)))"

lemma binary_search_loop_inv:
  assumes "partitioned f xs" and "0 < n" and "base + n \<le> length xs"
    and "0 < base \<longrightarrow> f (xs ! base) \<noteq> Greater" and "\<forall>k. base + n \<le> k \<longrightarrow> k < length xs \<longrightarrow> f (xs ! k) = Greater"
  shows "let b = binary_search_loop f xs base n in b < length xs \<and> (0 < b \<longrightarrow> f (xs ! b) \<noteq> Greater) \<and>
    (\<forall>k. b < k \<longrightarrow> k < length xs \<longrightarrow> f (xs ! k) = Greater)"
  using assms
proof (induction f xs base n rule: binary_search_loop.induct)
  case (1 f xs base n)
  show ?case
  proof (cases "1 < n")
    case True
    let ?half = "n div 2"
    let ?mid = "base + ?half"
    have mid: "0 < ?half" "?half < n" using True by auto
    then have "?mid < length xs" using "1.prems"(3) by linarith
    let ?base = "if f (xs ! ?mid) = Greater then base else ?mid"
    have after: "\<forall>k. ?base + (n - ?half) \<le> k \<longrightarrow> k < length xs \<longrightarrow> f (xs ! k) = Greater"
    proof (cases "f (xs ! ?mid) = Greater")
      case g: True
      have "f (xs ! k) = Greater" if "?mid \<le> k" "k < length xs" for k
      proof (cases "k = ?mid")
        case False
        then have "?mid < k" using that(1) by simp
        then show ?thesis using "1.prems"(1) g that(2) unfolding partitioned_def by blast
      qed (simp add: g)
      moreover have "?mid \<le> k" if "base + (n - ?half) \<le> k" for k using that by linarith
      ultimately show ?thesis using g by simp
    next
      case False
      then show ?thesis using "1.prems"(5) mid by simp
    qed
    have "let b = binary_search_loop f xs ?base (n - ?half) in b < length xs \<and> (0 < b \<longrightarrow> f (xs ! b) \<noteq> Greater) \<and>
      (\<forall>k. b < k \<longrightarrow> k < length xs \<longrightarrow> f (xs ! k) = Greater)"
    proof (rule "1.IH" [OF True refl refl "1.prems"(1) _ _ _ after])
      show "0 < n - ?half" "?base + (n - ?half) \<le> length xs" using mid "1.prems"(3) by auto
      show "0 < ?base \<longrightarrow> f (xs ! ?base) \<noteq> Greater" using "1.prems"(4) by simp
    qed
    moreover have "binary_search_loop f xs base n = binary_search_loop f xs ?base (n - ?half)"
      using True by (subst binary_search_loop.simps) (simp add: Let_def)
    ultimately show ?thesis by (simp only:)
  next
    case False
    then have "n = 1" using "1.prems"(2) by simp
    moreover from this have "binary_search_loop f xs base n = base" by (subst binary_search_loop.simps) simp
    ultimately show ?thesis using "1.prems"(3-5) by (simp add: Let_def Suc_le_eq)
  qed
qed

interpretation std: slice_search binary_search_by
proof
  fix f :: "'a \<Rightarrow> Ordering" and xs i
  let ?b = "binary_search_loop f xs 0 (length xs)"
  assume p: "partitioned f xs"
  then have b: "?b < length xs" "0 < ?b \<longrightarrow> f (xs ! ?b) \<noteq> Greater" "\<forall>k. ?b < k \<longrightarrow> k < length xs \<longrightarrow> f (xs ! k) = Greater"
    if "xs \<noteq> []"
    using binary_search_loop_inv [OF p, of "length xs" 0] that by (auto simp: Let_def)
  show "i < length xs \<and> f (xs ! i) = Equal" if "binary_search_by f xs = Inr i"
    using that b by (auto simp: binary_search_by_def Let_def split: if_splits)
  show "i \<le> length xs \<and> (\<forall>k < i. f (xs ! k) = Less) \<and> (\<forall>k. i \<le> k \<longrightarrow> k < length xs \<longrightarrow> f (xs ! k) = Greater)"
    if r: "binary_search_by f xs = Inl i"
  proof (cases "xs = []")
    case True
    then show ?thesis using r by (simp add: binary_search_by_def)
  next
    case False
    note b = b [OF False]
    have i: "i = ?b + (if f (xs ! ?b) = Less then 1 else 0)" "f (xs ! ?b) \<noteq> Equal"
      using r False by (auto simp: binary_search_by_def Let_def split: if_splits)
    show ?thesis
    proof (cases "f (xs ! ?b) = Less")
      case True
      have "f (xs ! k) = Less" if "k < ?b" for k using p that b(1) True unfolding partitioned_def by blast
      then show ?thesis using i(1) True b by (auto simp: less_Suc_eq)
    next
      case False
      then have "f (xs ! ?b) = Greater" using i(2) by (cases "f (xs ! ?b)") auto
      moreover from this have "?b = 0" using b(2) by auto
      ultimately show ?thesis using i(1) b(3) by (auto simp: le_eq_less_or_eq)
    qed
  qed
qed

section \<open>Partition points\<close>

text \<open>\<open>Ordering::then_with\<close>\<close>

definition then_with :: "Ordering \<Rightarrow> Ordering \<Rightarrow> Ordering" where
  "then_with first second = (if first = Equal then second else first)"

text \<open>The library runs \<open>partition_point\<close> as a binary search that never finds an equal element.\<close>

definition slice_partition_point :: "('a \<Rightarrow> bool) \<Rightarrow> 'a list \<Rightarrow> nat" where
  "slice_partition_point pred xs =
     (case binary_search_by (\<lambda>x. if pred x then Less else Greater) xs of Inl i \<Rightarrow> i | Inr i \<Rightarrow> i)"

lemma slice_partition_point_takeWhile:
  assumes "sorted_wrt (\<lambda>x y. pred y \<longrightarrow> pred x) xs"
  shows "slice_partition_point pred xs = length (takeWhile pred xs)"
proof -
  let ?f = "\<lambda>x. if pred x then Less else Greater"
  have p: "partitioned ?f xs"
    using assms by (auto simp: partitioned_def sorted_wrt_iff_nth_less)
  have "\<exists>i. binary_search_by ?f xs = Inl i"
    using std.found [OF p] by (cases "binary_search_by ?f xs") (auto split: if_splits)
  then obtain i where r: "binary_search_by ?f xs = Inl i" by blast
  then have i: "i \<le> length xs" "\<forall>k < i. pred (xs ! k)" "\<forall>k. i \<le> k \<longrightarrow> k < length xs \<longrightarrow> \<not> pred (xs ! k)"
    using std.not_found [OF p r] by (auto split: if_splits)
  have "takeWhile pred xs = take i xs"
  proof (rule takeWhile_eq_take_P_nth)
    show "pred (xs ! k)" if "k < i" "k < length xs" for k using i(2) that by blast
    show "\<not> pred (xs ! i)" if "i < length xs" using i(3) that by blast
  qed
  then show ?thesis using i(1) by (simp add: slice_partition_point_def r)
qed

end
