(* ===== verification/Filter_Build.thy ===== *)
theory Filter_Build
  imports Filter_Expr Data_Payload Slice_Search "HOL-Library.List_Lexorder" "HOL-Library.Multiset"
begin

text \<open>
  The builder of filter expressions, \<open>JournalFilter\<close> of \<^verbatim>\<open>journal-core/src/file/filter.rs\<close>.  Matches
  \<open>FIELD=value\<close> are collected in order of their field; matches of one field are alternatives, different
  fields are required together, and \<open>set_operation\<close> starts a new alternative or a new requirement.
  The theory shows that the expression that is built means exactly this.

  Byte strings are compared as Rust compares slices, lexicographically by unsigned bytes, which is the
  order of \<open>List_Lexorder\<close>.
\<close>

section \<open>The builder\<close>

datatype LogicalOp = ConjunctionOp | DisjunctionOp

record JournalFilter =
  level0 :: "FilterExpr list"
  level1 :: "FilterExpr list"
  current_matches :: "u8 list list"

definition filter_default :: JournalFilter where
  "filter_default = \<lparr>level0 = [], level1 = [], current_matches = []\<rparr>"

definition extract_key :: "u8 list \<Rightarrow> u8 list option" where
  "extract_key kv_pair = map_option (\<lambda>equal_pos. take equal_pos kv_pair) (position (\<lambda>b. b = 61) kv_pair)"

text \<open>\<open>extract_key(item).unwrap_or(&[])\<close>\<close>

definition key_of :: "u8 list \<Rightarrow> u8 list" where
  "key_of kv_pair = (case extract_key kv_pair of None \<Rightarrow> [] | Some key \<Rightarrow> key)"

definition build_match_expr :: "'h SipHasher24 \<Rightarrow> Codecs \<Rightarrow> u8 list \<Rightarrow> (JournalFile, FilterExpr) op" where
  "build_match_expr H C data =
     sbind (sget (\<lambda>jf. ok_or (jf_hash H jf data) Panic)) (\<lambda>hash. sbind (slift hash) (\<lambda>hash.
     sbind (sget (\<lambda>jf. find_data_offset C jf hash data)) (\<lambda>found. sbind (slift found) (\<lambda>found.
       case found of
         None \<Rightarrow> sret NoMatch
       | Some off \<Rightarrow>
           sbind (reader_data_cursor off) (\<lambda>cursor.
             case cursor of
               None \<Rightarrow> sret NoMatch
             | Some ic \<Rightarrow> sret (Match off ic))))))"

function matching_key_range_end :: "u8 list list \<Rightarrow> nat \<Rightarrow> u8 list \<Rightarrow> nat" where
  "matching_key_range_end ms end_at key =
     (if end_at < length ms \<and> key_of (ms ! end_at) = key then matching_key_range_end ms (end_at + 1) key else end_at)"
  by pat_completeness auto
termination
  by (relation "measure (\<lambda>(ms, end_at, _). length ms - end_at)") auto

declare matching_key_range_end.simps [simp del]

fun build_match_exprs :: "'h SipHasher24 \<Rightarrow> Codecs \<Rightarrow> u8 list list \<Rightarrow> (JournalFile, FilterExpr list) op" where
  "build_match_exprs H C [] = sret []"
| "build_match_exprs H C (data # rest) =
     sbind (build_match_expr H C data) (\<lambda>e.
     sbind (build_match_exprs H C rest) (\<lambda>es. sret (e # es)))"

definition convert_key_group ::
  "'h SipHasher24 \<Rightarrow> Codecs \<Rightarrow> u8 list list \<Rightarrow> nat \<Rightarrow> nat \<Rightarrow> (JournalFile, FilterExpr) op" where
  "convert_key_group H C ms start end_at =
     (if end_at - start = 1 then build_match_expr H C (ms ! start)
      else sbind (build_match_exprs H C (map (nth ms) [start..<end_at])) (\<lambda>es. sret (Disjunction es)))"

definition collapse_filter_elements :: "FilterExpr list \<Rightarrow> FilterExpr option" where
  "collapse_filter_elements elements =
     (case elements of [] \<Rightarrow> None | [e] \<Rightarrow> Some e | _ \<Rightarrow> Some (Conjunction elements))"

lemma matching_key_range_end_takeWhile:
  "start \<le> length ms \<Longrightarrow> matching_key_range_end ms start key = start + length (takeWhile (\<lambda>m. key_of m = key) (drop start ms))"
proof (induction ms start key rule: matching_key_range_end.induct)
  case (1 ms start key)
  show ?case
  proof (cases "start < length ms")
    case True
    then show ?thesis using 1 by (subst matching_key_range_end.simps) (simp flip: Cons_nth_drop_Suc)
  next
    case False
    then show ?thesis using "1.prems" by (subst matching_key_range_end.simps) simp
  qed
qed

lemma matching_key_range_end_progress:
  "start < length ms \<Longrightarrow> start < matching_key_range_end ms start (key_of (ms ! start))"
  by (simp add: matching_key_range_end_takeWhile flip: Cons_nth_drop_Suc)

function convert_loop ::
  "'h SipHasher24 \<Rightarrow> Codecs \<Rightarrow> u8 list list \<Rightarrow> nat \<Rightarrow> FilterExpr list \<Rightarrow> (JournalFile, FilterExpr list) op" where
  "convert_loop H C ms i elements jf =
     (if i < length ms
      then (let end_at = matching_key_range_end ms i (key_of (ms ! i))
            in case convert_key_group H C ms i end_at jf of
                 (Inl err, jf') \<Rightarrow> (Err err, jf')
               | (Inr e, jf') \<Rightarrow> convert_loop H C ms end_at (elements @ [e]) jf')
      else (Ok elements, jf))"
  by pat_completeness auto
termination
  by (relation "measure (\<lambda>(_, _, ms, i, _, _). length ms - i)")
    (auto simp: diff_less_mono2 matching_key_range_end_progress)

declare convert_loop.simps [simp del]

text \<open>The builder and the file are the state; the matches are dropped only when all of them are converted.\<close>

type_synonym 'a builder_op = "(JournalFile \<times> JournalFilter, 'a) op"

definition convert_current_matches :: "'h SipHasher24 \<Rightarrow> Codecs \<Rightarrow> FilterExpr option builder_op" where
  "convert_current_matches H C s =
     (case s of (jf, f) \<Rightarrow>
        if current_matches f = [] then (Ok None, jf, f)
        else (case convert_loop H C (current_matches f) 0 [] jf of
                (Inl err, jf') \<Rightarrow> (Err err, jf', f)
              | (Inr elements, jf') \<Rightarrow> (Ok (collapse_filter_elements elements), jf', f\<lparr>current_matches := []\<rparr>)))"

definition add_match :: "u8 list \<Rightarrow> JournalFilter \<Rightarrow> JournalFilter" where
  "add_match kv_pair f =
     (if 61 \<in> set kv_pair
      then (let pos = (case binary_search_by (\<lambda>item. cmp (key_of item) (key_of kv_pair)) (current_matches f) of
                         Inr i \<Rightarrow> i | Inl e \<Rightarrow> e)
            in f\<lparr>current_matches := take pos (current_matches f) @ kv_pair # drop pos (current_matches f)\<rparr>)
      else f)"

definition commit_current :: "'h SipHasher24 \<Rightarrow> Codecs \<Rightarrow> unit builder_op" where
  "commit_current H C =
     sbind (convert_current_matches H C) (\<lambda>expr.
       case expr of
         None \<Rightarrow> sret ()
       | Some e \<Rightarrow> smodify (\<lambda>(jf, f). (jf, f\<lparr>level1 := level1 f @ [e]\<rparr>)))"

definition commit_level1 :: "JournalFilter \<Rightarrow> JournalFilter" where
  "commit_level1 f =
     (case level1 f of
        [] \<Rightarrow> f
      | [e] \<Rightarrow> f\<lparr>level0 := level0 f @ [e], level1 := []\<rparr>
      | es \<Rightarrow> f\<lparr>level0 := level0 f @ [Disjunction es], level1 := []\<rparr>)"

definition set_operation :: "'h SipHasher24 \<Rightarrow> Codecs \<Rightarrow> LogicalOp \<Rightarrow> unit builder_op" where
  "set_operation H C operation =
     sbind (commit_current H C) (\<lambda>_.
       if operation = ConjunctionOp then smodify (\<lambda>(jf, f). (jf, commit_level1 f)) else sret ())"

definition refresh_built :: "unit builder_op" where
  "refresh_built s =
     (case s of (jf, f) \<Rightarrow>
        if reader_recovery_active jf \<or>
           list_ex (any_cursor (\<lambda>cursor. recovery_pending cursor \<or> recovered_population cursor)) (level0 f)
        then (case refresh_recovery_batch jf (level0 f) of (r, jf', es) \<Rightarrow> (r, jf', f\<lparr>level0 := es\<rparr>))
        else (Ok (), s))"

definition filter_build :: "'h SipHasher24 \<Rightarrow> Codecs \<Rightarrow> FilterExpr builder_op" where
  "filter_build H C =
     sbind (commit_current H C) (\<lambda>_.
     sbind (smodify (\<lambda>(jf, f). (jf, commit_level1 f))) (\<lambda>_.
     sbind refresh_built (\<lambda>_.
     sbind (smodify (\<lambda>(jf, f). (jf, f\<lparr>current_matches := []\<rparr>))) (\<lambda>_.
     sbind (sget (\<lambda>(jf, f). level0 f)) (\<lambda>es.
       case es of
         [] \<Rightarrow> sfail MalformedFilter
       | [e] \<Rightarrow> sbind (smodify (\<lambda>(jf, f). (jf, f\<lparr>level0 := []\<rparr>))) (\<lambda>_. sret e)
       | _ \<Rightarrow> sbind (smodify (\<lambda>(jf, f). (jf, f\<lparr>level0 := []\<rparr>))) (\<lambda>_. sret (Conjunction es)))))))"

section \<open>What a query means\<close>

text \<open>
  A query is a conjunction of alternatives of clauses; a clause is a set of matches, in which the matches
  of one field are alternatives and the fields are required together.  \<open>entries kv\<close> are the entries with
  the match \<open>kv\<close>.
\<close>

type_synonym clause = "u8 list list"

definition clause_set :: "(u8 list \<Rightarrow> u64 set) \<Rightarrow> clause \<Rightarrow> u64 set" where
  "clause_set entries kvs = {v. \<forall>kv \<in> set kvs. \<exists>kv' \<in> set kvs. key_of kv' = key_of kv \<and> v \<in> entries kv'}"

definition group_set :: "(u8 list \<Rightarrow> u64 set) \<Rightarrow> clause list \<Rightarrow> u64 set" where
  "group_set entries cs = (\<Union>c \<in> set cs. clause_set entries c)"

definition query_set :: "(u8 list \<Rightarrow> u64 set) \<Rightarrow> clause list list \<Rightarrow> u64 set" where
  "query_set entries gs = (\<Inter>g \<in> set gs. group_set entries g)"

text \<open>The calls of a client, and what they mean: matches without an equals sign are ignored.\<close>

datatype builder_call = AddMatch "u8 list" | SetOperation LogicalOp

type_synonym query_state = "clause list list \<times> clause list \<times> clause"

definition end_clause :: "query_state \<Rightarrow> query_state" where
  "end_clause = (\<lambda>(gs, cs, cur). (gs, if cur = [] then cs else cs @ [cur], []))"

definition end_group :: "query_state \<Rightarrow> query_state" where
  "end_group = (\<lambda>(gs, cs, cur). (if cs = [] then gs else gs @ [cs], [], cur))"

fun call_query :: "builder_call \<Rightarrow> query_state \<Rightarrow> query_state" where
  "call_query (AddMatch kv) (gs, cs, cur) = (gs, cs, if 61 \<in> set kv then cur @ [kv] else cur)"
| "call_query (SetOperation DisjunctionOp) q = end_clause q"
| "call_query (SetOperation ConjunctionOp) q = end_group (end_clause q)"

definition query_of :: "builder_call list \<Rightarrow> clause list list" where
  "query_of calls = fst (end_group (end_clause (fold call_query calls ([], [], []))))"

fun run_call :: "'h SipHasher24 \<Rightarrow> Codecs \<Rightarrow> builder_call \<Rightarrow> unit builder_op" where
  "run_call H C (AddMatch kv) = smodify (\<lambda>(jf, f). (jf, add_match kv f))"
| "run_call H C (SetOperation operation) = set_operation H C operation"

fun run_calls :: "'h SipHasher24 \<Rightarrow> Codecs \<Rightarrow> builder_call list \<Rightarrow> unit builder_op" where
  "run_calls H C [] = sret ()"
| "run_calls H C (c # cs) = sbind (run_call H C c) (\<lambda>_. run_calls H C cs)"

text \<open>
  \<open>indexed\<close>: the index of the file serves the match; its expression is positioned on the postings of the
  entries with the match, and no recovered prefix is involved.
\<close>

definition settled :: "FilterExpr \<Rightarrow> bool" where
  "settled e \<longleftrightarrow> \<not> any_cursor (\<lambda>c. recovery_pending c \<or> recovered_population c) e"

definition denotes :: "JournalFile \<Rightarrow> (u64 \<Rightarrow> u64 list) \<Rightarrow> u64 set \<Rightarrow> FilterExpr \<Rightarrow> bool" where
  "denotes jf postings S e \<longleftrightarrow>
     expr_ok (reader_offset_array_ref jf) postings e \<and> matches postings e = S \<and> settled e"

definition indexed ::
  "'h SipHasher24 \<Rightarrow> Codecs \<Rightarrow> JournalFile \<Rightarrow> (u64 \<Rightarrow> u64 list) \<Rightarrow> (u8 list \<Rightarrow> u64 set) \<Rightarrow> u8 list \<Rightarrow> bool" where
  "indexed H C jf postings entries kv \<longleftrightarrow>
     (\<exists>e. build_match_expr H C kv jf = (Ok e, jf) \<and> denotes jf postings (entries kv) e)"

lemma denotes_collections:
  assumes "list_all2 (denotes jf postings) Ss es"
  shows "denotes jf postings (\<Inter> (set Ss)) (Conjunction es)" "denotes jf postings (\<Union> (set Ss)) (Disjunction es)"
proof -
  have "list_all (expr_ok (reader_offset_array_ref jf) postings) es \<and> map (matches postings) es = Ss \<and> list_all settled es"
    using assms by (induction rule: list_all2_induct) (simp_all add: denotes_def)
  then show "denotes jf postings (\<Inter> (set Ss)) (Conjunction es)" "denotes jf postings (\<Union> (set Ss)) (Disjunction es)"
    by (auto simp: denotes_def settled_def list_all_iff list_ex_iff)
qed

lemma build_match_exprs_denotes:
  assumes "\<forall>kv \<in> set kvs. indexed H C jf postings entries kv"
  shows "\<exists>es. build_match_exprs H C kvs jf = (Ok es, jf) \<and> list_all2 (denotes jf postings) (map entries kvs) es"
  using assms
proof (induction kvs)
  case (Cons kv kvs)
  then obtain e es where "build_match_expr H C kv jf = (Ok e, jf)" "denotes jf postings (entries kv) e"
    "build_match_exprs H C kvs jf = (Ok es, jf)" "list_all2 (denotes jf postings) (map entries kvs) es"
    by (auto simp: indexed_def)
  then show ?case by (simp add: sbind_run op_run)
qed (simp add: op_run)

lemma map_nth_range:
  assumes "start + n \<le> length ms"
  shows "map (nth ms) [start..<start + n] = take n (drop start ms)"
  using assms by (auto intro!: nth_equalityI)

lemma convert_key_group_denotes:
  assumes "\<forall>kv \<in> set ms. indexed H C jf postings entries kv" and "start + n \<le> length ms" and "0 < n"
  shows "\<exists>e. convert_key_group H C ms start (start + n) jf = (Ok e, jf) \<and>
    denotes jf postings (\<Union> (entries ` set (take n (drop start ms)))) e"
proof (cases "n = 1")
  case True
  then have "take n (drop start ms) = [ms ! start]" using assms(2) by (simp add: take_Suc_conv_app_nth hd_drop_conv_nth take_Suc)
  moreover have "indexed H C jf postings entries (ms ! start)" using assms by simp
  ultimately show ?thesis using True by (auto simp: convert_key_group_def indexed_def)
next
  case False
  have "\<forall>kv \<in> set (take n (drop start ms)). indexed H C jf postings entries kv"
    using assms(1) by (meson in_set_dropD in_set_takeD)
  then obtain es where "build_match_exprs H C (take n (drop start ms)) jf = (Ok es, jf)"
    "list_all2 (denotes jf postings) (map entries (take n (drop start ms))) es"
    using build_match_exprs_denotes by blast
  then show ?thesis
    using False denotes_collections(2) [of jf postings "map entries (take n (drop start ms))" es]
    by (simp add: convert_key_group_def map_nth_range [OF assms(2)] sbind_run op_run)
qed

lemma clause_set_append:
  assumes "\<And>kv. kv \<in> set K \<Longrightarrow> key_of kv = key" and "\<And>kv. kv \<in> set R \<Longrightarrow> key_of kv \<noteq> key" and "K \<noteq> []"
  shows "clause_set entries (K @ R) = \<Union> (entries ` set K) \<inter> clause_set entries R"
proof (intro set_eqI)
  fix v
  have "(\<exists>kv' \<in> set (K @ R). key_of kv' = key_of kv \<and> v \<in> entries kv') \<longleftrightarrow> v \<in> \<Union> (entries ` set K)" if "kv \<in> set K" for kv
    using assms(1) [OF that] assms(1,2) by auto
  moreover have "(\<exists>kv' \<in> set (K @ R). key_of kv' = key_of kv \<and> v \<in> entries kv') \<longleftrightarrow>
      (\<exists>kv' \<in> set R. key_of kv' = key_of kv \<and> v \<in> entries kv')" if "kv \<in> set R" for kv
    using assms(2) [OF that] assms(1) by auto
  moreover obtain kv where "kv \<in> set K" using assms(3) by (cases K) auto
  ultimately show "v \<in> clause_set entries (K @ R) \<longleftrightarrow> v \<in> \<Union> (entries ` set K) \<inter> clause_set entries R"
    unfolding clause_set_def by auto
qed

lemma sorted_dropWhile_key:
  assumes "sorted (map key_of xs)" and "\<forall>y \<in> set xs. key \<le> key_of y" and "kv \<in> set (dropWhile (\<lambda>m. key_of m = key) xs)"
  shows "key_of kv \<noteq> key"
  using assms
proof (induction xs)
  case (Cons y ys)
  show ?case
  proof (cases "key_of y = key")
    case False
    then have "key < key_of y" using Cons.prems(2) by auto
    moreover have "key_of y \<le> key_of kv" using Cons.prems(1,3) False by auto
    ultimately show ?thesis by auto
  qed (use Cons in auto)
qed simp

lemma clause_set_split:
  assumes "sorted (map key_of (x # xs))" and "K = takeWhile (\<lambda>m. key_of m = key_of x) (x # xs)"
  shows "clause_set entries (x # xs) = \<Union> (entries ` set K) \<inter> clause_set entries (drop (length K) (x # xs))"
proof -
  let ?R = "dropWhile (\<lambda>m. key_of m = key_of x) (x # xs)"
  have R: "drop (length K) (x # xs) = ?R" unfolding assms(2) by (rule dropWhile_eq_drop [symmetric])
  have eq: "K @ ?R = x # xs" unfolding assms(2) by (rule takeWhile_dropWhile_id)
  have "clause_set entries (K @ ?R) = \<Union> (entries ` set K) \<inter> clause_set entries ?R"
  proof (rule clause_set_append)
    show "key_of kv = key_of x" if "kv \<in> set K" for kv using that unfolding assms(2) by (rule set_takeWhileD [THEN conjunct2])
    show "key_of kv \<noteq> key_of x" if "kv \<in> set ?R" for kv
      by (rule sorted_dropWhile_key [OF assms(1) _ that]) (use assms(1) in auto)
  qed (simp add: assms(2))
  then show ?thesis unfolding eq R .
qed

lemma convert_loop_denotes:
  assumes "\<forall>kv \<in> set ms. indexed H C jf postings entries kv" and "sorted (map key_of ms)" and "i \<le> length ms"
  shows "\<exists>Ss es. convert_loop H C ms i elements jf = (Ok (elements @ es), jf) \<and> list_all2 (denotes jf postings) Ss es \<and>
    \<Inter> (set Ss) = clause_set entries (drop i ms) \<and> (es = [] \<longleftrightarrow> i = length ms)"
  using assms(3)
proof (induction "length ms - i" arbitrary: i elements rule: less_induct)
  case less
  show ?case
  proof (cases "i < length ms")
    case True
    let ?K = "takeWhile (\<lambda>m. key_of m = key_of (ms ! i)) (drop i ms)"
    let ?stop = "matching_key_range_end ms i (key_of (ms ! i))"
    have e: "?stop = i + length ?K" using True by (simp add: matching_key_range_end_takeWhile)
    have d: "drop i ms = ms ! i # drop (Suc i) ms" using True by (simp add: Cons_nth_drop_Suc)
    have len: "length ?K \<le> length ms - i" by (metis length_drop length_takeWhile_le)
    have pos: "0 < length ?K" unfolding d by simp
    have fits: "i + length ?K \<le> length ms" using len True by simp
    have "take (length ?K) (drop i ms) = ?K" by (metis takeWhile_eq_take)
    then obtain x where x: "convert_key_group H C ms i ?stop jf = (Ok x, jf)" "denotes jf postings (\<Union> (entries ` set ?K)) x"
      using convert_key_group_denotes [OF assms(1) fits pos] e by auto
    obtain Ss es where es: "convert_loop H C ms ?stop (elements @ [x]) jf = (Ok ((elements @ [x]) @ es), jf)"
      "list_all2 (denotes jf postings) Ss es" "\<Inter> (set Ss) = clause_set entries (drop ?stop ms)"
    proof -
      have "length ms - ?stop < length ms - i" "?stop \<le> length ms" using e pos fits True by linarith+
      from less.hyps [OF this, of "elements @ [x]"] that show thesis by blast
    qed
    have "sorted (map key_of (drop i ms))" using assms(2) by (metis drop_map sorted_wrt_drop)
    then have "clause_set entries (drop i ms) = \<Union> (entries ` set ?K) \<inter> clause_set entries (drop ?stop ms)"
      using clause_set_split [of "ms ! i" "drop (Suc i) ms" ?K entries] d e by (simp add: add.commute)
    then show ?thesis
      using True x es by (intro exI [of _ "\<Union> (entries ` set ?K) # Ss"] exI [of _ "x # es"])
        (subst convert_loop.simps, simp add: Let_def)
  next
    case False
    then show ?thesis using less.prems
      by (intro exI [of _ "[]"]) (subst convert_loop.simps, simp add: clause_set_def)
  qed
qed

lemma collapse_denotes:
  assumes "list_all2 (denotes jf postings) Ss es" and "es \<noteq> []"
  shows "\<exists>e. collapse_filter_elements es = Some e \<and> denotes jf postings (\<Inter> (set Ss)) e"
proof (cases "\<exists>e. es = [e]")
  case True
  then show ?thesis using assms by (auto simp: collapse_filter_elements_def list_all2_Cons2)
next
  case False
  then have "collapse_filter_elements es = Some (Conjunction es)"
    using assms(2) by (auto simp: collapse_filter_elements_def split: list.splits)
  then show ?thesis using denotes_collections(1) [OF assms(1)] by blast
qed

section \<open>The builder refines the query\<close>

definition builder_repr ::
  "'h SipHasher24 \<Rightarrow> Codecs \<Rightarrow> JournalFile \<Rightarrow> (u64 \<Rightarrow> u64 list) \<Rightarrow> (u8 list \<Rightarrow> u64 set) \<Rightarrow> query_state \<Rightarrow> JournalFilter \<Rightarrow> bool" where
  "builder_repr H C jf postings entries q f \<longleftrightarrow>
     (case q of (gs, cs, cur) \<Rightarrow>
        list_all2 (denotes jf postings) (map (group_set entries) gs) (level0 f) \<and>
        list_all2 (denotes jf postings) (map (clause_set entries) cs) (level1 f) \<and>
        set (current_matches f) = set cur \<and> sorted (map key_of (current_matches f)) \<and>
        (\<forall>kv \<in> set cur. indexed H C jf postings entries kv))"

lemma sorted_partitioned:
  assumes "sorted (map g xs)"
  shows "partitioned (\<lambda>x. cmp (g x) k) xs"
proof -
  have "g (xs ! i) \<le> g (xs ! j)" if "i < j" "j < length xs" for i j
    using assms that by (simp add: sorted_iff_nth_mono_less)
  then show ?thesis unfolding partitioned_def cmp_def by (fastforce split: if_splits)
qed

lemma sorted_insertion:
  assumes "sorted (map g xs)" and "insertion_point (\<lambda>y. cmp (g y) (g x)) xs i"
  shows "sorted (map g (take i xs @ x # drop i xs))"
proof -
  have "g y \<le> g x" if y: "y \<in> set (take i xs)" for y
  proof -
    obtain k where "k < i" "k < length xs" "y = xs ! k" using y by (auto simp: in_set_conv_nth)
    then show ?thesis using assms(2) by (auto simp: insertion_point_def cmp_def dest!: spec [of _ k] split: if_splits)
  qed
  moreover have "g x \<le> g y" if y: "y \<in> set (drop i xs)" for y
  proof -
    obtain k where "k < length xs - i" "y = xs ! (i + k)" using y by (auto simp: in_set_conv_nth)
    then show ?thesis using assms(2) by (auto simp: insertion_point_def cmp_def dest!: spec [of _ "i + k"] split: if_splits)
  qed
  moreover have "sorted (map g (take i xs @ drop i xs))" using assms(1) by simp
  ultimately show ?thesis by (force simp: sorted_append simp del: append_take_drop_id)
qed

lemma add_match_repr:
  assumes "builder_repr H C jf postings entries q f" and "61 \<in> set kv \<Longrightarrow> indexed H C jf postings entries kv"
  shows "builder_repr H C jf postings entries (call_query (AddMatch kv) q) (add_match kv f)"
proof (cases "61 \<in> set kv")
  case True
  obtain gs cs cur where q: "q = (gs, cs, cur)" by (cases q)
  let ?ms = "current_matches f" and ?f = "\<lambda>item. cmp (key_of item) (key_of kv)"
  let ?pos = "case binary_search_by ?f ?ms of Inr i \<Rightarrow> i | Inl e \<Rightarrow> e"
  have s: "sorted (map key_of ?ms)" using assms(1) q by (simp add: builder_repr_def)
  have p: "insertion_point ?f ?ms ?pos" using std.search_point [OF sorted_partitioned [OF s]] by (simp add: sum.case_eq_if)
  have "set (take ?pos ?ms @ kv # drop ?pos ?ms) = insert kv (set ?ms)"
    by (metis Un_insert_right append_take_drop_id list.simps(15) set_append)
  with sorted_insertion [OF s p] assms q True show ?thesis by (simp add: builder_repr_def add_match_def Let_def)
qed (use assms(1) in \<open>cases q; simp add: builder_repr_def add_match_def\<close>)

lemma commit_current_repr:
  assumes "builder_repr H C jf postings entries q f"
  shows "\<exists>f'. commit_current H C (jf, f) = (Ok (), jf, f') \<and> builder_repr H C jf postings entries (end_clause q) f' \<and>
    current_matches f' = []"
proof -
  obtain gs cs cur where q: "q = (gs, cs, cur)" by (cases q)
  let ?ms = "current_matches f"
  note repr = assms [unfolded q builder_repr_def prod.case]
  show ?thesis
  proof (cases "?ms = []")
    case True
    then have "cur = []" using repr by auto
    with True assms q show ?thesis
      by (auto simp: commit_current_def convert_current_matches_def sbind_def op_run end_clause_def)
  next
    case False
    then have cur: "cur \<noteq> []" using repr by auto
    obtain Ss es where es: "convert_loop H C ?ms 0 [] jf = (Ok es, jf)" "list_all2 (denotes jf postings) Ss es"
      "\<Inter> (set Ss) = clause_set entries ?ms" "es \<noteq> []"
      using convert_loop_denotes [of ?ms H C jf postings entries 0 "[]"] repr False by auto
    obtain e where e: "collapse_filter_elements es = Some e" "denotes jf postings (clause_set entries ?ms) e"
      using collapse_denotes [OF es(2,4)] es(3) by auto
    have "clause_set entries ?ms = clause_set entries cur" using repr by (simp add: clause_set_def)
    with e(2) repr cur False es(1) e(1) q show ?thesis
      by (auto simp: commit_current_def convert_current_matches_def sbind_def op_run end_clause_def builder_repr_def
          intro!: list_all2_appendI)
  qed
qed

lemma commit_level1_repr:
  assumes "builder_repr H C jf postings entries q f"
  shows "builder_repr H C jf postings entries (end_group q) (commit_level1 f) \<and>
    current_matches (commit_level1 f) = current_matches f"
proof -
  obtain gs cs cur where q: "q = (gs, cs, cur)" by (cases q)
  note repr = assms [unfolded q builder_repr_def prod.case]
  have len: "length cs = length (level1 f)" using repr by (auto dest: list_all2_lengthD)
  consider "level1 f = []" "cs = []" | e c where "level1 f = [e]" "cs = [c]"
    | x y zs where "level1 f = x # y # zs" "cs \<noteq> []"
    using len by (cases "level1 f" rule: list.exhaust; cases "tl (level1 f)") (auto simp: length_Suc_conv)
  then show ?thesis
  proof cases
    case (2 e c)
    then show ?thesis
      using repr q by (auto simp: commit_level1_def end_group_def builder_repr_def group_set_def intro!: list_all2_appendI)
  next
    case (3 x y zs)
    have "denotes jf postings (group_set entries cs) (Disjunction (level1 f))"
      using denotes_collections(2) [of jf postings "map (clause_set entries) cs" "level1 f"] repr
      by (simp add: group_set_def)
    with 3 repr q show ?thesis
      by (auto simp: commit_level1_def end_group_def builder_repr_def intro!: list_all2_appendI)
  qed (use assms q in \<open>auto simp: commit_level1_def end_group_def builder_repr_def\<close>)
qed

lemma run_call_repr:
  assumes "builder_repr H C jf postings entries q f" and "\<And>kv. c = AddMatch kv \<Longrightarrow> 61 \<in> set kv \<Longrightarrow> indexed H C jf postings entries kv"
  shows "\<exists>f'. run_call H C c (jf, f) = (Ok (), jf, f') \<and> builder_repr H C jf postings entries (call_query c q) f'"
proof (cases c)
  case (AddMatch kv)
  then show ?thesis using add_match_repr [OF assms(1)] assms(2) by (simp add: op_run)
next
  case (SetOperation operation)
  obtain f' where f': "commit_current H C (jf, f) = (Ok (), jf, f')" "builder_repr H C jf postings entries (end_clause q) f'"
    using commit_current_repr [OF assms(1)] by blast
  with commit_level1_repr [OF f'(2)] SetOperation show ?thesis
    by (cases operation) (simp_all add: set_operation_def sbind_run op_run)
qed

lemma run_calls_repr:
  assumes "builder_repr H C jf postings entries q f"
    and "\<And>kv. AddMatch kv \<in> set calls \<Longrightarrow> 61 \<in> set kv \<Longrightarrow> indexed H C jf postings entries kv"
  shows "\<exists>f'. run_calls H C calls (jf, f) = (Ok (), jf, f') \<and> builder_repr H C jf postings entries (fold call_query calls q) f'"
  using assms
proof (induction calls arbitrary: q f)
  case (Cons c calls)
  obtain f1 where f1: "run_call H C c (jf, f) = (Ok (), jf, f1)" "builder_repr H C jf postings entries (call_query c q) f1"
    using run_call_repr [OF Cons.prems(1), of c] Cons.prems(2) by auto
  with Cons.IH [OF f1(2)] Cons.prems(2) show ?case by (auto simp: sbind_run)
qed (simp add: op_run)

lemma filter_build_repr:
  assumes "builder_repr H C jf postings entries q f" and "\<not> reader_recovery_active jf"
    and "gs = fst (end_group (end_clause q))"
  shows "if gs = [] then \<exists>f'. filter_build H C (jf, f) = (Err MalformedFilter, jf, f')
    else \<exists>e. filter_build H C (jf, f) = (Ok e, jf, filter_default) \<and> denotes jf postings (query_set entries gs) e"
proof -
  obtain f1 where f1: "commit_current H C (jf, f) = (Ok (), jf, f1)" "builder_repr H C jf postings entries (end_clause q) f1"
    "current_matches f1 = []"
    using commit_current_repr [OF assms(1)] by blast
  let ?f = "commit_level1 f1"
  obtain cs cur where q2: "end_group (end_clause q) = (gs, cs, cur)" using assms(3) by (cases "end_group (end_clause q)") auto
  have cs: "cs = []" using q2 by (auto simp: end_group_def split: prod.splits)
  have repr: "builder_repr H C jf postings entries (gs, cs, cur) ?f" and cm: "current_matches ?f = []"
    using commit_level1_repr [OF f1(2)] q2 f1(3) by auto
  then have l0: "list_all2 (denotes jf postings) (map (group_set entries) gs) (level0 ?f)" and l1: "level1 ?f = []"
    using cs by (auto simp: builder_repr_def)
  have "list_all settled (level0 ?f)"
    using l0 by (induction rule: list_all2_induct) (auto simp: denotes_def)
  then have r: "refresh_built (jf, ?f) = (Ok (), jf, ?f)"
    using assms(2) by (auto simp: refresh_built_def settled_def list_all_iff list_ex_iff)
  have run: "filter_build H C (jf, f) =
      (case level0 ?f of [] \<Rightarrow> (Err MalformedFilter, jf, ?f) | [e] \<Rightarrow> (Ok e, jf, ?f\<lparr>level0 := []\<rparr>)
       | _ \<Rightarrow> (Ok (Conjunction (level0 ?f)), jf, ?f\<lparr>level0 := []\<rparr>))"
    using f1(1) r cm by (auto simp: filter_build_def sbind_def op_run split: list.split)
  have clean: "?f\<lparr>level0 := []\<rparr> = filter_default" using l1 cm by (simp add: filter_default_def)
  show ?thesis
  proof (cases "level0 ?f")
    case Nil
    then show ?thesis using l0 run by simp
  next
    case (Cons e es)
    show ?thesis
    proof (cases es)
      case Nil
      then show ?thesis using Cons l0 run clean by (auto simp: list_all2_Cons2 query_set_def)
    next
      case (Cons e' es')
      then show ?thesis
        using \<open>level0 ?f = e # es\<close> l0 run clean denotes_collections(1) [OF l0] by (auto simp: query_set_def)
    qed
  qed
qed

section \<open>A file with one indexed match\<close>

definition sample_sip :: "u64 SipHasher24" where
  "sample_sip = \<lparr>new_with_keys = (\<lambda>_ _. 7), sip_write = (\<lambda>h _. h), sip_finish = id\<rparr>"

definition indexed_file :: JournalFile where
  "indexed_file = sample_data_file
     \<lparr>jf_header := sample_header\<lparr>header_size := 16, arena_size := 72, incompatible_flags := 4, n_entries := 1\<rparr>,
      jf_bytes := replicate 16 0 @ [1, 0, 0, 0, 0, 0, 0, 0, 67, 0, 0, 0, 0, 0, 0, 0] @ [7, 0, 0, 0, 0, 0, 0, 0] @
        replicate 16 0 @ [80, 0, 0, 0, 0, 0, 0, 0] @ replicate 8 0 @ [1, 0, 0, 0, 0, 0, 0, 0] @ [65, 61, 98] @ replicate 5 0\<rparr>"

lemma indexed_file_slices:
  "slice_at (jf_bytes indexed_file) 16 16 = Ok [1, 0, 0, 0, 0, 0, 0, 0, 67, 0, 0, 0, 0, 0, 0, 0]"
  "slice_at (jf_bytes indexed_file) 16 67 = Ok ([1, 0, 0, 0, 0, 0, 0, 0, 67, 0, 0, 0, 0, 0, 0, 0] @
     [7, 0, 0, 0, 0, 0, 0, 0] @ replicate 16 0 @ [80, 0, 0, 0, 0, 0, 0, 0] @ replicate 8 0 @ [1, 0, 0, 0, 0, 0, 0, 0] @ [65, 61, 98])"
  by (simp_all add: slice_at_def indexed_file_def bytes_at_def)

lemma indexed_file_fields:
  "header_size (jf_header indexed_file) = 16" "arena_size (jf_header indexed_file) = 72" "\<not> is_compact indexed_file"
  "recovery indexed_file = None" "\<not> filter_recovery_seen indexed_file" "\<not> reader_recovery_active indexed_file"
  "jf_hash sample_sip indexed_file kv = Some 7" "reader_entry_count indexed_file = 1"
  by (simp_all add: reader_entry_count_def indexed_file_def sample_data_file_def sample_file_def is_compact_def has_incompatible_flag_def sample_header_def
      reader_recovery_active_def jf_hash_def hash_parts_def journal_hash_data_parts_def siphash24_parts_def sample_sip_def pp_raw_def)

lemma indexed_file_object:
  "\<exists>d. data_ref indexed_file 16 = Ok d \<and> data_hash (data_header d) = 7 \<and> data_next_hash_offset (data_header d) = None \<and>
     data_entry_offset (data_header d) = Some 80 \<and> data_n_entries (data_header d) = Some 1 \<and>
     \<not> is_compressed (data_object_header (data_header d)) \<and> raw_payload d = [65, 61, 98]"
  by (simp add: data_ref_def journal_object_ref_def indexed_file_slices indexed_file_fields validate_offset_alignment_def
      object_header_from_bytes_def bytes_at_def u64_at_def from_le_def validated_size_def checked_add_def
      data_from_data_def data_header_from_bytes_def horner_sum_zeros raw_payload_def is_compressed_def zstd_compressed_def
      lz4_compressed_def xz_compressed_def Let_def)

lemma indexed_file_table:
  "\<exists>t. data_hash_table_ref indexed_file = Some t \<and> table_items t = [\<lparr>head_hash_offset = Some 16, tail_hash_offset = Some 16\<rparr>]"
  using sample_data_table by (simp add: data_hash_table_ref_def indexed_file_def sample_data_file_def)

lemma indexed_file_find:
  "find_data_offset sample_codecs indexed_file 7 payload = Ok (if payload = [65, 61, 98] then Some 16 else None)"
proof -
  let ?ctx = "data_payload_read_context indexed_file"
  obtain d where d: "data_ref indexed_file 16 = Ok d" "data_hash (data_header d) = 7" "data_next_hash_offset (data_header d) = None"
    "\<not> is_compressed (data_object_header (data_header d))" "raw_payload d = [65, 61, 98]"
    using indexed_file_object by blast
  obtain lookup data where l: "lookup_object indexed_file ?ctx 16 = Ok lookup"
    "slice_at (jf_bytes indexed_file) 16 (lookup_size_needed lookup) = Ok data"
    "stored_hash lookup = 7" "lookup_next_hash_offset lookup = None" "\<not> lookup_is_compressed lookup"
    "drop (unat (payload_prefix_size ?ctx)) data = [65, 61, 98]"
    by (rule typed_lookup [OF d(1) refl]) (use d in auto)
  obtain t where t: "data_hash_table_ref indexed_file = Some t" "table_items t = [\<lparr>head_hash_offset = Some 16, tail_hash_offset = Some 16\<rparr>]"
    using indexed_file_table by blast
  have "reliable sample_codecs" by (auto simp: reliable_def sample_codecs_def)
  from find_data_offset_first [OF this t(1) _ refl, of "[(16, lookup)]" 7 "\<lambda>_. [65, 61, 98]" "pp_raw payload" payload "[]" "[]"] l t(2)
  show ?thesis by (auto simp: lookup_text_def pp_to_vec_def pp_raw_def find_data_offset_def)
qed

definition indexed_postings :: "u64 \<Rightarrow> u64 list" where
  "indexed_postings off = (if off = 16 then [80] else [])"

definition indexed_entries :: "u8 list \<Rightarrow> u64 set" where
  "indexed_entries kv = (if kv = [65, 61, 98] then {80} else {})"

lemma indexed_file_indexed: "indexed sample_sip sample_codecs indexed_file indexed_postings indexed_entries kv"
proof (cases "kv = [65, 61, 98]")
  case True
  obtain d where d: "data_ref indexed_file 16 = Ok d" "data_entry_offset (data_header d) = Some 80" "data_n_entries (data_header d) = Some 1"
    using indexed_file_object by blast
  have "reader_data_cursor 16 indexed_file = (Ok (Some (ic_new 80 None)), indexed_file)"
    using d by (simp add: reader_data_cursor_def build_data_cursor_def reader_inlined_cursor_def inlined_cursor_def
        recovered_last_entry_def indexed_file_fields)
  then have "build_match_expr sample_sip sample_codecs kv indexed_file = (Ok (Match 16 (ic_new 80 None)), indexed_file)"
    by (simp add: build_match_expr_def sbind_def op_run indexed_file_fields indexed_file_find True)
  moreover have "ic_repr (reader_offset_array_ref indexed_file) [80] 0 (ic_new 80 None)"
    by (simp add: ic_repr_def ic_new_def ic_is_empty_def)
  then have "denotes indexed_file indexed_postings {80} (Match 16 (ic_new 80 None))"
    by (auto simp: denotes_def settled_def ic_new_def indexed_postings_def)
  ultimately show ?thesis using True by (auto simp: indexed_def indexed_entries_def)
next
  case False
  then have "build_match_expr sample_sip sample_codecs kv indexed_file = (Ok NoMatch, indexed_file)"
    by (simp add: build_match_expr_def sbind_def op_run indexed_file_fields indexed_file_find)
  with False show ?thesis by (auto simp: indexed_def indexed_entries_def denotes_def settled_def)
qed

section \<open>Properties\<close>

lemma add_match_keeps:
  assumes "sorted (map key_of (current_matches f))"
  shows "sorted (map key_of (current_matches (add_match kv f))) \<and>
    mset (current_matches (add_match kv f)) = mset (current_matches f) + mset (filter (\<lambda>kv. 61 \<in> set kv) [kv]) \<and>
    level0 (add_match kv f) = level0 f \<and> level1 (add_match kv f) = level1 f"
proof (cases "61 \<in> set kv")
  case True
  let ?ms = "current_matches f" and ?f = "\<lambda>item. cmp (key_of item) (key_of kv)"
  let ?pos = "case binary_search_by ?f ?ms of Inr i \<Rightarrow> i | Inl e \<Rightarrow> e"
  have p: "insertion_point ?f ?ms ?pos"
    using std.search_point [OF sorted_partitioned [OF assms]] by (simp add: sum.case_eq_if)
  have "mset (take ?pos ?ms @ kv # drop ?pos ?ms) = add_mset kv (mset ?ms)"
    by (metis append_take_drop_id mset.simps(2) mset_append union_mset_add_mset_right)
  with sorted_insertion [OF assms p] True show ?thesis by (simp add: add_match_def Let_def)
qed (use assms in \<open>simp add: add_match_def\<close>)

text \<open>
  The collected matches stay sorted by field name and none is lost: after any sequence of calls of
  \<open>add_match\<close> the builder holds exactly the matches that have an equals sign, each as often as it was
  added, in the order of their fields, wherever the binary search puts them among those of the same
  field; the levels that are already built are untouched.
\<close>

theorem add_match_invariant:
  "sorted (map key_of (current_matches (fold add_match kvs filter_default))) \<and>
   mset (current_matches (fold add_match kvs filter_default)) = mset (filter (\<lambda>kv. 61 \<in> set kv) kvs) \<and>
   level0 (fold add_match kvs filter_default) = [] \<and> level1 (fold add_match kvs filter_default) = []"
proof -
  have "sorted (map key_of (current_matches f)) \<Longrightarrow>
      sorted (map key_of (current_matches (fold add_match kvs f))) \<and>
      mset (current_matches (fold add_match kvs f)) = mset (current_matches f) + mset (filter (\<lambda>kv. 61 \<in> set kv) kvs) \<and>
      level0 (fold add_match kvs f) = level0 f \<and> level1 (fold add_match kvs f) = level1 f" for f
  proof (induction kvs arbitrary: f)
    case (Cons kv kvs)
    from Cons.IH [of "add_match kv f"] add_match_keeps [OF Cons.prems, of kv] show ?case by auto
  qed simp
  from this [of filter_default] show ?thesis by (simp add: filter_default_def)
qed

text \<open>
  C9. A built filter means the query of the client.  For every sequence of \<open>add_match\<close> and
  \<open>set_operation\<close> calls on a file whose index serves the matches, \<open>build\<close> returns an expression whose
  matches are the entries that satisfy, in every group, some clause, that is for every field of
  the clause one of its values; it is positioned for iteration, leaves the builder empty and the file
  untouched; and \<open>build\<close> reports \<open>MalformedFilter\<close> exactly when no match was given.
\<close>

theorem filter_build_meaning:
  assumes "\<And>kv. AddMatch kv \<in> set calls \<Longrightarrow> 61 \<in> set kv \<Longrightarrow> indexed H C jf postings entries kv"
    and "\<not> reader_recovery_active jf"
  shows "if query_of calls = []
    then \<exists>f. sbind (run_calls H C calls) (\<lambda>_. filter_build H C) (jf, filter_default) = (Err MalformedFilter, jf, f)
    else \<exists>e. sbind (run_calls H C calls) (\<lambda>_. filter_build H C) (jf, filter_default) = (Ok e, jf, filter_default) \<and>
      expr_ok (reader_offset_array_ref jf) postings e \<and> matches postings e = query_set entries (query_of calls)"
proof -
  have "builder_repr H C jf postings entries ([], [], []) filter_default"
    by (simp add: builder_repr_def filter_default_def)
  from run_calls_repr [OF this assms(1)] obtain f where f: "run_calls H C calls (jf, filter_default) = (Ok (), jf, f)"
    "builder_repr H C jf postings entries (fold call_query calls ([], [], [])) f"
    by blast
  from filter_build_repr [OF f(2) assms(2) refl] show ?thesis
    using f(1) by (auto simp: sbind_run query_of_def denotes_def split: if_splits)
qed

theorem filter_build_meaning_witness:
  "\<exists>e. sbind (run_calls sample_sip sample_codecs
        [AddMatch [65, 61, 98], AddMatch [88], SetOperation DisjunctionOp, AddMatch [66, 61, 99]])
      (\<lambda>_. filter_build sample_sip sample_codecs) (indexed_file, filter_default) = (Ok e, indexed_file, filter_default) \<and>
    matches indexed_postings e = {80}"
proof -
  let ?calls = "[AddMatch [65, 61, 98], AddMatch [88], SetOperation DisjunctionOp, AddMatch [66, 61, 99]]"
  have q: "query_of ?calls = [[[[65, 61, 98]], [[66, 61, 99]]]]"
    by (simp add: query_of_def end_clause_def end_group_def)
  have "query_set indexed_entries (query_of ?calls) = {80}"
    unfolding q by (simp add: query_set_def group_set_def clause_set_def indexed_entries_def)
  with filter_build_meaning [OF indexed_file_indexed indexed_file_fields(6), of ?calls] q
  show ?thesis by auto
qed

end
