(* ===== verification/Cached_Reader.thy ===== *)
theory Cached_Reader
  imports Window_Slices Data_Payload
begin

text \<open>
  Typed access to objects through the window cache: \<open>JournalFile::journal_object_ref\<close> of
  \<^verbatim>\<open>journal-core/src/file/file.rs\<close> as it runs, with the cache as its state.  The contract of a source of
  bytes is the locale \<open>byte_source\<close>; the window manager is shown to meet it, and in the locale an object
  read through the source is the object read from the bytes, which is how the other theories read.
\<close>

section \<open>Sources of bytes\<close>

locale byte_source =
  fixes fetch :: "u64 \<Rightarrow> u64 \<Rightarrow> ('s, u8 list) op"
    and invar :: "'s \<Rightarrow> bool"
    and bytes_of :: "'s \<Rightarrow> u8 list"
    and denied :: "JournalError \<Rightarrow> 's \<Rightarrow> bool"
  assumes fetch_exact: "invar s \<Longrightarrow> sz \<noteq> 0 \<Longrightarrow> fetch pos sz s = (r, s') \<Longrightarrow>
      invar s' \<and> bytes_of s' = bytes_of s \<and> (\<forall>e. denied e s' \<longleftrightarrow> denied e s) \<and>
      (r = slice_at (bytes_of s) pos sz \<or> (\<exists>e. r = Err e \<and> denied e s))"

text \<open>The access itself: two reads, the object header for the size and then the object.\<close>

definition object_through ::
  "(u64 \<Rightarrow> u64 \<Rightarrow> ('s, u8 list) op) \<Rightarrow> JournalFile \<Rightarrow> ObjectType \<Rightarrow> (u8 list \<Rightarrow> bool \<Rightarrow> 'a option) \<Rightarrow> u64 \<Rightarrow> ('s, 'a) op" where
  "object_through fetch jf expected from_data off =
     (let hsize = header_size (jf_header jf);
          arena_end = hsize + arena_size (jf_header jf)
      in sbind (slift (validate_offset_alignment off)) (\<lambda>_.
         if off < hsize then sfail ObjectExceedsFileBounds
         else
         sbind (fetch off 16) (\<lambda>header_slice.
         let h = object_header_from_bytes header_slice
         in sbind (slift (validated_size h)) (\<lambda>size_needed.
            if obj_type h \<noteq> object_type_code expected then sfail InvalidObjectType
            else
            sbind (slift (ok_or (checked_add off size_needed) ObjectExceedsFileBounds)) (\<lambda>end_offset.
            if end_offset > arena_end then sfail ObjectExceedsFileBounds
            else
            sbind (fetch off size_needed) (\<lambda>data.
              slift (ok_or (from_data data (is_compact jf)) ZerocopyFailure)))))))"

fun objects_through ::
  "(u64 \<Rightarrow> u64 \<Rightarrow> ('s, u8 list) op) \<Rightarrow> JournalFile \<Rightarrow> ObjectType \<Rightarrow> (u8 list \<Rightarrow> bool \<Rightarrow> 'a option) \<Rightarrow> u64 list \<Rightarrow> ('s, 'a list) op" where
  "objects_through fetch jf expected from_data [] = sret []"
| "objects_through fetch jf expected from_data (off # offs) =
     sbind (object_through fetch jf expected from_data off) (\<lambda>x.
     sbind (objects_through fetch jf expected from_data offs) (\<lambda>xs. sret (x # xs)))"

context byte_source
begin

lemma fetchE:
  assumes "invar s" and "sz \<noteq> 0"
  obtains s' where "fetch pos sz s = (slice_at (bytes_of s) pos sz, s')" "invar s'" "bytes_of s' = bytes_of s"
      "\<And>e. denied e s' \<longleftrightarrow> denied e s"
  | e s' where "fetch pos sz s = (Err e, s')" "denied e s" "invar s'" "bytes_of s' = bytes_of s"
      "\<And>e. denied e s' \<longleftrightarrow> denied e s"
  using fetch_exact [OF assms] by (metis prod.exhaust)

lemma object_through_exact:
  assumes "invar s" and "jf_bytes jf = bytes_of s"
    and "object_through fetch jf expected from_data off s = (r, s')"
  shows "invar s' \<and> bytes_of s' = bytes_of s \<and> (\<forall>e. denied e s' \<longleftrightarrow> denied e s) \<and>
    (r = journal_object_ref expected from_data jf off \<or> (\<exists>e. r = Err e \<and> denied e s))"
proof (cases "validate_offset_alignment off = Ok () \<and> \<not> off < header_size (jf_header jf)")
  case False
  then show ?thesis
    using assms by (auto simp: object_through_def journal_object_ref_def sbind_def op_run Let_def split: sum.splits if_splits)
next
  case True
  have sixteen: "(16 :: u64) \<noteq> 0" by simp
  show ?thesis
  proof (cases rule: fetchE [OF assms(1) sixteen, of off])
    case (1 s1)
    show ?thesis
    proof (cases "slice_at (bytes_of s) off 16")
      case (Inl e)
      with 1 True assms show ?thesis
        by (auto simp: object_through_def journal_object_ref_def sbind_def op_run Let_def)
    next
      case (Inr bs)
      let ?h = "object_header_from_bytes bs"
      show ?thesis
      proof (cases "validated_size ?h = Ok (obj_size ?h) \<and> obj_type ?h = object_type_code expected \<and>
          checked_add off (obj_size ?h) \<noteq> None \<and>
          off + obj_size ?h \<le> header_size (jf_header jf) + arena_size (jf_header jf)")
        case False
        with Inr 1 True assms show ?thesis
          by (auto simp: object_through_def journal_object_ref_def sbind_def op_run Let_def validated_size_def checked_add_def
              split: if_splits)
      next
        case ok: True
        then have nz: "obj_size ?h \<noteq> 0" by (auto simp: validated_size_def split: if_splits)
        have add: "checked_add off (obj_size ?h) = Some (off + obj_size ?h)"
          using ok by (auto simp: checked_add_def split: if_splits)
        show ?thesis
          by (cases rule: fetchE [OF 1(2) nz, of off])
            (use Inr 1 True assms ok add in
              \<open>auto simp: object_through_def journal_object_ref_def sbind_def op_run Let_def split: sum.splits\<close>)
      qed
    qed
  next
    case (2 e s1)
    with True assms show ?thesis by (auto simp: object_through_def sbind_def op_run Let_def)
  qed
qed

lemma objects_through_exact:
  assumes "invar s" and "jf_bytes jf = bytes_of s"
    and "objects_through fetch jf expected from_data offs s = (r, s')"
  shows "invar s' \<and> bytes_of s' = bytes_of s \<and>
    (r = rmapM (journal_object_ref expected from_data jf) offs \<or> (\<exists>e. r = Err e \<and> denied e s))"
  using assms
proof (induction offs arbitrary: s r s')
  case (Cons off offs)
  obtain r1 s1 where e1: "object_through fetch jf expected from_data off s = (r1, s1)" by fastforce
  note x = object_through_exact [OF Cons.prems(1,2) e1]
  show ?case
  proof (cases r1)
    case (Inl e)
    with x e1 Cons.prems(3) show ?thesis by (auto simp: sbind_def rbind_def split: sum.splits)
  next
    case (Inr v)
    obtain r2 s2 where e2: "objects_through fetch jf expected from_data offs s1 = (r2, s2)" by fastforce
    have "jf_bytes jf = bytes_of s1" using x Cons.prems(2) by simp
    from Cons.IH [OF conjunct1 [OF x] this e2] x Inr e1 e2 Cons.prems(3) show ?thesis
      by (auto simp: sbind_def rbind_def op_run split: sum.splits)
  qed
qed (simp add: op_run)

end

section \<open>The window cache is such a source\<close>

definition reader_bytes :: "WindowManager \<Rightarrow> u8 list" where
  "reader_bytes wm = take (reader_limit wm) (contents (os_file wm))"

definition reader_ok :: "WindowManager \<Rightarrow> bool" where
  "reader_ok wm \<longleftrightarrow> wm_inv wm \<and> bounds_mode wm \<noteq> WriterOwned"

interpretation wm: byte_source get_slice reader_ok reader_bytes refused
proof
  fix s sz pos r s'
  assume inv: "reader_ok s" and sz: "sz \<noteq> 0" and run: "get_slice pos sz s = (r, s')"
  have g: "read_outcome s pos sz r" "wm_inv s'" "wm_keeps s s'"
    using get_slice_holds [of s sz pos] inv sz run by (auto simp: reader_ok_def holds_def split: sum.splits)
  have limit: "reader_limit s' = reader_limit s" using g(3) by (auto simp: reader_limit_def wm_keeps_def)
  have fits: "reader_limit s \<le> length (contents (os_file s))"
    using inv by (auto simp: reader_ok_def reader_limit_def wm_inv_def)
  have "r = slice_at (reader_bytes s) pos sz \<or> (\<exists>e. r = Err e \<and> refused e s)"
    using g(1) fits
    by (auto simp: read_outcome_def slice_at_def reader_bytes_def bytes_at_def drop_take min_def split: sum.splits)
  then show "reader_ok s' \<and> reader_bytes s' = reader_bytes s \<and> (\<forall>e. refused e s' \<longleftrightarrow> refused e s) \<and>
      (r = slice_at (reader_bytes s) pos sz \<or> (\<exists>e. r = Err e \<and> refused e s))"
    using inv g limit by (auto simp: reader_ok_def reader_bytes_def refused_def wm_keeps_def)
qed

text \<open>
  C37. Reading objects through the window cache is reading them from the file.  From every state of the cache
  that satisfies its invariant, a sequence of typed accesses returns exactly the objects (or the
  first error) that direct access to the bytes within the reader's limit gives, whatever windows are
  mapped, evicted and replaced on the way; the only other failure is a mapping that the operating system refused.
\<close>

theorem cached_objects_exact:
  assumes "wm_inv wm" and "bounds_mode wm \<noteq> WriterOwned"
    and "jf_bytes jf = take (reader_limit wm) (contents (os_file wm))"
  shows "\<exists>r wm'. objects_through get_slice jf expected from_data offs wm = (r, wm') \<and> wm_inv wm' \<and>
    (r = rmapM (journal_object_ref expected from_data jf) offs \<or> (\<exists>e. r = Err e \<and> refused e wm))"
proof -
  obtain r wm' where run: "objects_through get_slice jf expected from_data offs wm = (r, wm')" by fastforce
  have "reader_ok wm" "jf_bytes jf = reader_bytes wm" using assms by (simp_all add: reader_ok_def reader_bytes_def)
  from wm.objects_through_exact [OF this run] show ?thesis using run by (auto simp: reader_ok_def)
qed

definition sample_object_wm :: WindowManager where
  "sample_object_wm =
     new_with_bounds_mode \<lparr>contents = jf_bytes sample_data_file, map_ok = (\<lambda>_ _. True)\<rparr> 16 2 LiveFile Windowed"

theorem cached_objects_exact_witness:
  "\<exists>d wm'. objects_through get_slice sample_data_file Data data_from_data [16, 16] sample_object_wm = (Ok [d, d], wm') \<and>
     raw_payload d = [65, 61, 98]"
proof -
  have "wm_inv sample_object_wm" "bounds_mode sample_object_wm \<noteq> WriterOwned"
    by (simp_all add: sample_object_wm_def new_with_bounds_mode_def wm_inv_def sample_data_file_def os_len_def)
  moreover have "jf_bytes sample_data_file = take (reader_limit sample_object_wm) (contents (os_file sample_object_wm))"
    by (simp add: sample_object_wm_def new_with_bounds_mode_def reader_limit_def)
  moreover have "\<not> refused e sample_object_wm" for e
    by (simp add: refused_def sample_object_wm_def new_with_bounds_mode_def)
  ultimately show ?thesis
    using cached_objects_exact [of sample_object_wm sample_data_file Data data_from_data "[16, 16]"]
      sample_data_object by (auto simp: data_ref_def raw_payload_def)
qed

end
