(* ===== verification/Journal_Names.thy ===== *)
theory Journal_Names
  imports Journal_Prelude Slice_Search "HOL-Library.Char_ord" "HOL-Library.List_Lexorder" "HOL-Library.Product_Lexorder"
begin

text \<open>
  Names of journal files, \<^verbatim>\<open>journal-registry/src/repository/file.rs\<close>, and the names the log writer gives
  them, \<^verbatim>\<open>journal-log-writer/src/log/chain.rs\<close>: the status and the source that a name encodes, the order of
  files, and the key that stores a path that is not valid UTF-8.

  A \<open>str\<close> and a Unix path are sequences of bytes, one \<open>char\<close> each.  A \<open>Uuid\<close> is the number its bytes make
  up, most significant first, so the order of the crate is the order of the numbers; parsing and printing
  of identifiers belong to the crate and are arguments.
\<close>

type_synonym Uuid = "128 word"

section \<open>Text\<close>

definition strip_prefix :: "string \<Rightarrow> string \<Rightarrow> string option" where
  "strip_prefix pre s = (if take (length pre) s = pre then Some (drop (length pre) s) else None)"

definition strip_suffix :: "string \<Rightarrow> string \<Rightarrow> string option" where
  "strip_suffix suf s = map_option rev (strip_prefix (rev suf) (rev s))"

fun split_once :: "char \<Rightarrow> string \<Rightarrow> (string \<times> string) option" where
  "split_once sep [] = None"
| "split_once sep (c # cs) = (if c = sep then Some ([], cs) else map_option (apfst ((#) c)) (split_once sep cs))"

definition rsplit_once :: "char \<Rightarrow> string \<Rightarrow> (string \<times> string) option" where
  "rsplit_once sep s = map_option (\<lambda>(a, b). (rev b, rev a)) (split_once sep (rev s))"

fun split_all :: "char \<Rightarrow> string \<Rightarrow> string list" where
  "split_all sep [] = [[]]"
| "split_all sep (c # cs) =
     (if c = sep then [] # split_all sep cs
      else (case split_all sep cs of [] \<Rightarrow> [[c]] | part # parts \<Rightarrow> (c # part) # parts))"

text \<open>\<open>char::to_digit\<close>\<close>

definition to_digit :: "nat \<Rightarrow> char \<Rightarrow> nat option" where
  "to_digit radix c =
     (let n = of_char c :: nat;
          d = (if 48 \<le> n \<and> n \<le> 57 then n - 48
               else if 97 \<le> n \<and> n \<le> 122 then n - 87
               else if 65 \<le> n \<and> n \<le> 90 then n - 55
               else radix)
      in if d < radix then Some d else None)"

fun digits_value :: "nat \<Rightarrow> nat \<Rightarrow> string \<Rightarrow> nat option" where
  "digits_value radix acc [] = Some acc"
| "digits_value radix acc (c # cs) =
     (case to_digit radix c of None \<Rightarrow> None | Some d \<Rightarrow> digits_value radix (acc * radix + d) cs)"

text \<open>\<open>from_str_radix\<close> of an unsigned type: an optional plus sign, at least one digit, no overflow.\<close>

definition from_str_radix :: "nat \<Rightarrow> string \<Rightarrow> 'a::len word option" where
  "from_str_radix radix s =
     (let digits = (case s of [] \<Rightarrow> [] | c # cs \<Rightarrow> if c = CHR ''+'' then cs else s)
      in if digits = [] then None
         else (case digits_value radix 0 digits of
                 None \<Rightarrow> None
               | Some n \<Rightarrow> if n < 2 ^ LENGTH('a) then Some (of_nat n) else None))"

text \<open>\<open>{}\<close> and \<open>{:016x}\<close> of the formatting macros.\<close>

definition digit_char :: "nat \<Rightarrow> char" where
  "digit_char d = (if d < 10 then char_of (48 + d) else char_of (87 + d))"

function show_digits :: "nat \<Rightarrow> nat \<Rightarrow> string" where
  "show_digits radix n =
     (if n < radix \<or> radix < 2 then [digit_char n] else show_digits radix (n div radix) @ [digit_char (n mod radix)])"
  by pat_completeness auto
termination
  by (relation "measure snd") auto

declare show_digits.simps [simp del]

definition pad_zeros :: "nat \<Rightarrow> string \<Rightarrow> string" where
  "pad_zeros width s = replicate (width - length s) CHR ''0'' @ s"

definition hex16 :: "u64 \<Rightarrow> string" where
  "hex16 w = pad_zeros 16 (show_digits 16 (unat w))"

text \<open>\<open>str::from_utf8\<close>: no overlong forms, no surrogates, nothing above U+10FFFF.\<close>

definition continuation :: "char \<Rightarrow> bool" where
  "continuation c \<longleftrightarrow> 128 \<le> (of_char c :: nat) \<and> (of_char c :: nat) \<le> 191"

fun utf8_valid :: "string \<Rightarrow> bool" where
  "utf8_valid [] = True"
| "utf8_valid (c # cs) =
     (let b = of_char c :: nat
      in if b < 128 then utf8_valid cs
         else (case cs of
                 [] \<Rightarrow> False
               | c1 # cs1 \<Rightarrow>
                   (let b1 = of_char c1 :: nat
                    in if 194 \<le> b \<and> b \<le> 223 then continuation c1 \<and> utf8_valid cs1
                       else if 224 \<le> b \<and> b \<le> 239
                       then (if b = 224 then 160 \<le> b1 \<and> b1 \<le> 191
                             else if b = 237 then 128 \<le> b1 \<and> b1 \<le> 159
                             else continuation c1) \<and>
                            (case cs1 of [] \<Rightarrow> False | c2 # cs2 \<Rightarrow> continuation c2 \<and> utf8_valid cs2)
                       else if 240 \<le> b \<and> b \<le> 244
                       then (if b = 240 then 144 \<le> b1 \<and> b1 \<le> 191
                             else if b = 244 then 128 \<le> b1 \<and> b1 \<le> 143
                             else continuation c1) \<and>
                            (case cs1 of
                               c2 # c3 # cs3 \<Rightarrow> continuation c2 \<and> continuation c3 \<and> utf8_valid cs3
                             | _ \<Rightarrow> False)
                       else False)))"

definition to_str :: "string \<Rightarrow> string option" where
  "to_str path = (if utf8_valid path then Some path else None)"

section \<open>Paths\<close>

text \<open>
  The operations of \<open>std::path::Path\<close> on absolute Unix paths: empty components and \<open>.\<close> do not count,
  except that they stay in the middle of a parent.
\<close>

definition is_absolute :: "string \<Rightarrow> bool" where
  "is_absolute path \<longleftrightarrow> take 1 path = ''/''"

definition trivial_component :: "string \<Rightarrow> bool" where
  "trivial_component s \<longleftrightarrow> s = '''' \<or> s = ''.''"

text \<open>The components in reverse, without the trivial ones at the tail.\<close>

definition rev_components :: "string \<Rightarrow> string list" where
  "rev_components path = dropWhile trivial_component (rev (tl (split_all CHR ''/'' path)))"

definition file_name :: "string \<Rightarrow> string option" where
  "file_name path =
     (case rev_components path of [] \<Rightarrow> None | name # _ \<Rightarrow> if name = ''..'' then None else Some name)"

definition path_of_components :: "string list \<Rightarrow> string" where
  "path_of_components cs = (if cs = [] then ''/'' else concat (map (\<lambda>c. CHR ''/'' # c) cs))"

definition parent :: "string \<Rightarrow> string option" where
  "parent path =
     (case rev_components path of
        [] \<Rightarrow> None
      | _ # rest \<Rightarrow> Some (path_of_components (rev (dropWhile trivial_component rest))))"

text \<open>\<open>Path::file_stem\<close>: the name without its last extension; a leading dot does not start one.\<close>

definition file_stem :: "string \<Rightarrow> string option" where
  "file_stem path =
     map_option (\<lambda>name. case rsplit_once CHR ''.'' name of
                          None \<Rightarrow> name
                        | Some (before, _) \<Rightarrow> if before = [] then name else before) (file_name path)"

text \<open>\<open>PathBuf::join\<close> with a relative path\<close>

definition path_join :: "string \<Rightarrow> string \<Rightarrow> string" where
  "path_join dir name =
     (if is_absolute name then name
      else if dir \<noteq> [] \<and> last dir \<noteq> CHR ''/'' then dir @ CHR ''/'' # name
      else dir @ name)"

section \<open>Status\<close>

datatype Status =
    Active
  | Archived (seqnum_id_of: Uuid) (head_seqnum_of: u64) (head_realtime_of: u64)
  | Disposed (disposed_timestamp: u64) (disposed_number: u64)

fun status_cmp :: "Status \<Rightarrow> Status \<Rightarrow> Ordering" where
  "status_cmp (Disposed t1 n1) (Disposed t2 n2) = then_with (cmp t1 t2) (cmp n1 n2)"
| "status_cmp (Disposed _ _) _ = Less"
| "status_cmp _ (Disposed _ _) = Greater"
| "status_cmp (Archived id1 seq1 head1) (Archived id2 seq2 head2) =
     then_with (then_with (cmp head1 head2) (cmp id1 id2)) (cmp seq1 seq2)"
| "status_cmp (Archived _ _ _) Active = Less"
| "status_cmp Active (Archived _ _ _) = Greater"
| "status_cmp Active Active = Equal"

definition parse_archived_suffix :: "(string \<Rightarrow> Uuid option) \<Rightarrow> string \<Rightarrow> string \<Rightarrow> (Status \<times> string) option" where
  "parse_archived_suffix try_parse pre suffix =
     (case split_all CHR ''-'' suffix of
        uuid # seqnum # realtime # rest \<Rightarrow>
          Option.bind (try_parse uuid) (\<lambda>seqnum_id.
          Option.bind (from_str_radix 16 seqnum) (\<lambda>head_seqnum.
          Option.bind (from_str_radix 16 realtime) (\<lambda>head_realtime.
            if rest \<noteq> [] then None else Some (Archived seqnum_id head_seqnum head_realtime, pre))))
      | _ \<Rightarrow> None)"

definition parse_journal_stem :: "(string \<Rightarrow> Uuid option) \<Rightarrow> string \<Rightarrow> (Status \<times> string) option" where
  "parse_journal_stem try_parse stem =
     (case rsplit_once CHR ''@'' stem of
        Some (pre, suffix) \<Rightarrow> parse_archived_suffix try_parse pre suffix
      | None \<Rightarrow> Some (Active, stem))"

definition parse_disposed_stem :: "string \<Rightarrow> (Status \<times> string) option" where
  "parse_disposed_stem stem =
     Option.bind (rsplit_once CHR ''@'' stem) (\<lambda>(pre, suffix).
     Option.bind (rsplit_once CHR ''-'' suffix) (\<lambda>(timestamp, number).
     Option.bind (from_str_radix 16 timestamp) (\<lambda>timestamp.
     Option.bind (from_str_radix 16 number) (\<lambda>number.
       Some (Disposed timestamp number, pre)))))"

definition status_parse :: "(string \<Rightarrow> Uuid option) \<Rightarrow> string \<Rightarrow> (Status \<times> string) option" where
  "status_parse try_parse path =
     (case strip_suffix ''.journal'' path of
        Some stem \<Rightarrow> parse_journal_stem try_parse stem
      | None \<Rightarrow> Option.bind (strip_suffix ''.journal~'' path) parse_disposed_stem)"

section \<open>Source, origin and file\<close>

datatype Source = System | User u32 | Remote string | Unknown string

definition source_parse :: "string \<Rightarrow> (Source \<times> string) option" where
  "source_parse path =
     map_option (\<lambda>(dir_path, basename).
       (if basename = ''system'' then System
        else (case strip_prefix ''user-'' basename of
                Some uid_str \<Rightarrow>
                  (case from_str_radix 10 uid_str of Some uid \<Rightarrow> User uid | None \<Rightarrow> Unknown basename)
              | None \<Rightarrow>
                  (case strip_prefix ''remote-'' basename of
                     Some remote_host \<Rightarrow> Remote remote_host
                   | None \<Rightarrow> Unknown basename)), dir_path))
       (rsplit_once CHR ''/'' path)"

record Origin =
  o_machine_id :: "Uuid option"
  o_namespace :: "string option"
  o_source :: Source

text \<open>\<open>FileInner\<close>; a \<open>File\<close> is a shared reference to one.\<close>

record File =
  f_path :: string
  f_origin :: Origin
  f_status :: Status
  f_native_path :: "string option"

definition file_cmp :: "File \<Rightarrow> File \<Rightarrow> Ordering" where
  "file_cmp f g = then_with (status_cmp (f_status f) (f_status g)) (cmp (f_path f) (f_path g))"

definition file_less :: "File \<Rightarrow> File \<Rightarrow> bool" where
  "file_less f g \<longleftrightarrow> file_cmp f g = Less"

definition as_path :: "File \<Rightarrow> string" where
  "as_path f = (case f_native_path f of None \<Rightarrow> f_path f | Some path \<Rightarrow> path)"

definition is_active :: "File \<Rightarrow> bool" where
  "is_active f \<longleftrightarrow> f_status f = Active"

definition is_archived :: "File \<Rightarrow> bool" where
  "is_archived f \<longleftrightarrow> (case f_status f of Archived _ _ _ \<Rightarrow> True | _ \<Rightarrow> False)"

definition is_disposed :: "File \<Rightarrow> bool" where
  "is_disposed f \<longleftrightarrow> (case f_status f of Disposed _ _ \<Rightarrow> True | _ \<Rightarrow> False)"

definition is_journal_file :: "string \<Rightarrow> bool" where
  "is_journal_file path \<longleftrightarrow> strip_suffix ''.journal'' path \<noteq> None \<or> strip_suffix ''.journal~'' path \<noteq> None"

definition user_id :: "File \<Rightarrow> u32 option" where
  "user_id f = (case o_source (f_origin f) of User uid \<Rightarrow> Some uid | _ \<Rightarrow> None)"

definition remote_host :: "File \<Rightarrow> string option" where
  "remote_host f = (case o_source (f_origin f) of Remote host \<Rightarrow> Some host | _ \<Rightarrow> None)"

definition parse_machine_id_namespace :: "(string \<Rightarrow> Uuid option) \<Rightarrow> string \<Rightarrow> Uuid option \<times> string option" where
  "parse_machine_id_namespace try_parse dirname =
     (case split_once CHR ''.'' dirname of
        Some (id_str, ns) \<Rightarrow>
          (case try_parse id_str of None \<Rightarrow> (None, None) | Some machine_id \<Rightarrow> (Some machine_id, Some ns))
      | None \<Rightarrow> (try_parse dirname, None))"

definition file_from_path :: "(string \<Rightarrow> Uuid option) \<Rightarrow> string \<Rightarrow> File option" where
  "file_from_path try_parse path =
     (if \<not> is_absolute path then None
      else
        Option.bind (to_str path) (\<lambda>path_str.
        Option.bind (Option.bind (file_name path) to_str) (\<lambda>filename.
        Option.bind (status_parse try_parse (CHR ''/'' # filename)) (\<lambda>(status, path_after_status).
        Option.bind (source_parse path_after_status) (\<lambda>(source, _).
          let (machine_id, namespace) =
                (case Option.bind (Option.bind (parent path) file_name) to_str of
                   Some dirname \<Rightarrow> parse_machine_id_namespace try_parse dirname
                 | None \<Rightarrow> (None, None))
          in Some \<lparr>f_path = path_str,
                   f_origin = \<lparr>o_machine_id = machine_id, o_namespace = namespace, o_source = source\<rparr>,
                   f_status = status, f_native_path = None\<rparr>)))))"

definition file_from_str :: "(string \<Rightarrow> Uuid option) \<Rightarrow> string \<Rightarrow> File option" where
  "file_from_str try_parse path =
     (if strip_prefix ''/'' path = None then None
      else
        Option.bind (status_parse try_parse path) (\<lambda>(status, path_after_status).
        Option.bind (source_parse path_after_status) (\<lambda>(source, path_after_source).
        Option.bind
          (if path_after_source \<noteq> []
           then (let dirname = (case rsplit_once CHR ''/'' path_after_source of
                                  Some (_, dir) \<Rightarrow> dir | None \<Rightarrow> path_after_source)
                 in case split_once CHR ''.'' dirname of
                      Some (id_str, ns) \<Rightarrow>
                        map_option (\<lambda>machine_id. (Some machine_id, Some ns)) (try_parse id_str)
                    | None \<Rightarrow> Some (try_parse dirname, None))
           else Some (None, None))
          (\<lambda>(machine_id, namespace).
             Some \<lparr>f_path = path,
                   f_origin = \<lparr>o_machine_id = machine_id, o_namespace = namespace, o_source = source\<rparr>,
                   f_status = status, f_native_path = None\<rparr>))))"

datatype RepositoryError = RepositoryIo | InvalidPath string | InvalidUtf8 string | WalkDir

definition file_dir :: "File \<Rightarrow> RepositoryError + string" where
  "file_dir f =
     (case Option.bind
             (Option.bind (parent (as_path f)) (\<lambda>p. if o_machine_id (f_origin f) \<noteq> None then parent p else Some p))
             to_str of
        None \<Rightarrow> Inl (InvalidUtf8 (as_path f))
      | Some dir \<Rightarrow> Inr dir)"

section \<open>Paths that are not UTF-8\<close>

definition NATIVE_PATH_KEY :: string where
  "NATIVE_PATH_KEY = char_of (0 :: nat) # ''journal-path-unix-v1:''"

definition native_path_key :: "string \<Rightarrow> string" where
  "native_path_key path =
     NATIVE_PATH_KEY @ concat (map (\<lambda>c. [digit_char (of_char c div 16), digit_char (of_char c mod 16)]) path)"

fun decode_hex_pairs :: "string \<Rightarrow> string + string" where
  "decode_hex_pairs (h # l # rest) =
     (case (to_digit 16 h, to_digit 16 l) of
        (Some high, Some low) \<Rightarrow>
          (case decode_hex_pairs rest of
             Inl e \<Rightarrow> Inl e
           | Inr bytes \<Rightarrow> Inr (char_of (high * 16 + low) # bytes))
      | _ \<Rightarrow> Inl ''invalid native path key'')"
| "decode_hex_pairs _ = Inr []"

definition decode_native_path_key :: "string \<Rightarrow> string + string option" where
  "decode_native_path_key key =
     (case strip_prefix NATIVE_PATH_KEY key of
        None \<Rightarrow> Inr None
      | Some encoded \<Rightarrow>
          if length encoded mod 2 \<noteq> 0 then Inl ''invalid native path key length''
          else (case decode_hex_pairs encoded of
                  Inl e \<Rightarrow> Inl e
                | Inr path \<Rightarrow>
                    if char_of (0 :: nat) \<in> set path then Inl ''NUL in native filesystem path''
                    else if \<not> is_absolute path then Inl ''native path key is not absolute''
                    else if to_str path \<noteq> None then Inl ''native path key must contain non-UTF8 bytes''
                    else Inr (Some path)))"

text \<open>What deserialising a \<open>File\<close> does with the fields it has read.\<close>

definition deserialize_file :: "File \<Rightarrow> string + File" where
  "deserialize_file inner =
     (case decode_native_path_key (f_path inner) of
        Inl e \<Rightarrow> Inl e
      | Inr None \<Rightarrow> Inr inner
      | Inr (Some path) \<Rightarrow> Inr (inner\<lparr>f_path := native_path_key path, f_native_path := Some path\<rparr>))"

definition file_from_raw_path :: "string \<Rightarrow> File option" where
  "file_from_raw_path raw_path =
     (if \<not> is_absolute raw_path \<or> char_of (0 :: nat) \<in> set raw_path then None
      else (let (path, native_path) =
                  (case to_str raw_path of
                     Some s \<Rightarrow> (s, None)
                   | None \<Rightarrow> (native_path_key raw_path, Some raw_path));
                stem = (case Option.bind (file_stem raw_path) to_str of Some s \<Rightarrow> s | None \<Rightarrow> ''journal'')
            in Some \<lparr>f_path = path,
                     f_origin = \<lparr>o_machine_id = None, o_namespace = None, o_source = Unknown stem\<rparr>,
                     f_status = Active, f_native_path = native_path\<rparr>))"

section \<open>The names the writer gives\<close>

definition source_basename :: "Source \<Rightarrow> string" where
  "source_basename source =
     (case source of
        System \<Rightarrow> ''system''
      | User uid \<Rightarrow> ''user-'' @ show_digits 10 (unat uid)
      | Remote host \<Rightarrow> ''remote-'' @ host
      | Unknown name \<Rightarrow> name)"

definition create_strict_systemd_active_file :: "(string \<Rightarrow> Uuid option) \<Rightarrow> string \<Rightarrow> string \<Rightarrow> File option" where
  "create_strict_systemd_active_file try_parse path source_name =
     file_from_path try_parse (path_join path (source_name @ ''.journal''))"

definition create_chain_file ::
  "(string \<Rightarrow> Uuid option) \<Rightarrow> (Uuid \<Rightarrow> string) \<Rightarrow> string \<Rightarrow> string \<Rightarrow> Uuid \<Rightarrow> u64 \<Rightarrow> u64 \<Rightarrow> File option" where
  "create_chain_file try_parse simple path source_name seqnum_id head_seqnum head_realtime =
     file_from_path try_parse
       (path_join path (source_name @ ''@'' @ simple seqnum_id @ ''-'' @ hex16 head_seqnum @ ''-'' @ hex16 head_realtime @ ''.journal''))"

section \<open>The order of files\<close>

text \<open>A status as a tuple of numbers in the order the comparison looks at them.\<close>

definition status_key :: "Status \<Rightarrow> nat \<times> nat \<times> nat \<times> nat" where
  "status_key s =
     (case s of
        Disposed t n \<Rightarrow> (0, unat t, unat n, 0)
      | Archived uuid seqnum head \<Rightarrow> (1, unat head, unat uuid, unat seqnum)
      | Active \<Rightarrow> (2, 0, 0, 0))"

lemma status_key_inj: "status_key s = status_key t \<longleftrightarrow> s = t"
  by (cases s; cases t) (auto simp: status_key_def word_unat_eq_iff)

lemma cmp_simps [simp]: "cmp a b = Less \<longleftrightarrow> a < b" "cmp a b = Equal \<longleftrightarrow> a = b" "cmp a b = Greater \<longleftrightarrow> b < a"
  by (auto simp: cmp_def)

lemma cmp_pair: "cmp (a, b) (c, d) = then_with (cmp a c) (cmp b d)"
  by (auto simp: cmp_def then_with_def)

lemma cmp_unat: "cmp (unat a) (unat b) = cmp a b"
  by (simp add: cmp_def word_less_nat_alt word_unat_eq_iff)

lemma then_with_assoc: "then_with (then_with a b) c = then_with a (then_with b c)"
  by (simp add: then_with_def)

lemma then_with_simps [simp]:
  "cmp a a = Equal" "then_with Equal r = r" "then_with r Equal = r" "then_with Less r = Less" "then_with Greater r = Greater"
  by (auto simp: then_with_def)

lemma cmp_ranks [simp]:
  "cmp (0 :: nat) (Suc n) = Less" "cmp (Suc n) 0 = Greater" "cmp (0 :: nat) 2 = Less" "cmp (2 :: nat) 0 = Greater"
  "cmp (Suc 0) 2 = Less" "cmp 2 (Suc 0) = Greater"
  by (simp_all add: cmp_def)

lemma status_cmp_key: "status_cmp s t = cmp (status_key s) (status_key t)"
  by (cases "(s, t)" rule: status_cmp.cases)
    (simp_all add: status_key_def cmp_pair cmp_unat then_with_assoc)

instantiation Status :: linorder
begin

definition less_eq_Status :: "Status \<Rightarrow> Status \<Rightarrow> bool" where
  "less_eq_Status s t \<longleftrightarrow> status_cmp s t \<noteq> Greater"

definition less_Status :: "Status \<Rightarrow> Status \<Rightarrow> bool" where
  "less_Status s t \<longleftrightarrow> status_cmp s t = Less"

instance
proof
  fix s t u :: Status
  show "s < t \<longleftrightarrow> s \<le> t \<and> \<not> t \<le> s"
    by (auto simp: less_eq_Status_def less_Status_def status_cmp_key)
  show "s \<le> s" by (simp add: less_eq_Status_def status_cmp_key)
  show "s \<le> u" if "s \<le> t" "t \<le> u" using that by (auto simp: less_eq_Status_def status_cmp_key)
  show "s = t" if "s \<le> t" "t \<le> s"
    using that by (auto simp: less_eq_Status_def status_cmp_key not_less status_key_inj dest: antisym)
  show "s \<le> t \<or> t \<le> s" by (auto simp: less_eq_Status_def status_cmp_key)
qed

end

definition file_key :: "File \<Rightarrow> Status \<times> string" where
  "file_key f = (f_status f, f_path f)"

lemma status_cmp_order: "status_cmp s t = cmp s t"
proof -
  have "s < t \<longleftrightarrow> status_key s < status_key t" by (simp add: less_Status_def status_cmp_key)
  then show ?thesis by (simp add: status_cmp_key cmp_def status_key_inj)
qed

lemma file_cmp_key: "file_cmp f g = cmp (file_key f) (file_key g)"
  by (simp add: file_cmp_def file_key_def cmp_pair status_cmp_order)

lemma file_less_key: "file_less f g \<longleftrightarrow> file_key f < file_key g"
  by (simp only: file_less_def file_cmp_key cmp_simps)

section \<open>Text operations\<close>

lemma strip_prefix_append [simp]: "strip_prefix p (p @ s) = Some s"
  by (simp add: strip_prefix_def)

lemma strip_suffix_append [simp]: "strip_suffix p (s @ p) = Some s"
  by (simp add: strip_suffix_def)

lemma split_once_append [simp]: "sep \<notin> set a \<Longrightarrow> split_once sep (a @ sep # b) = Some (a, b)"
  by (induction a) auto

lemma split_once_None [simp]: "split_once sep s = None \<longleftrightarrow> sep \<notin> set s"
  by (induction s) auto

lemma rsplit_once_append [simp]: "sep \<notin> set b \<Longrightarrow> rsplit_once sep (a @ sep # b) = Some (a, b)"
  by (simp add: rsplit_once_def)

lemma rsplit_once_None [simp]: "rsplit_once sep s = None \<longleftrightarrow> sep \<notin> set s"
  by (simp add: rsplit_once_def)

lemma split_all_ne [simp]: "split_all sep s \<noteq> []"
  by (cases s) (auto split: list.splits)

lemma split_all_whole: "sep \<notin> set s \<Longrightarrow> split_all sep s = [s]"
  by (induction s) auto

lemma split_all_append: "split_all sep (a @ sep # b) = split_all sep a @ split_all sep b"
proof (induction a)
  case (Cons c a)
  then show ?case by (cases "split_all sep a") auto
qed simp

section \<open>Digits\<close>

lemma to_digit_digit_char:
  assumes "d < radix" and "radix \<le> 36"
  shows "to_digit radix (digit_char d) = Some d"
proof -
  have "d < 36" using assms by simp
  moreover have "\<forall>d<36. (of_char (digit_char d) :: nat) = (if d < 10 then 48 + d else 87 + d)"
    by (auto simp: digit_char_def of_char_of)
  ultimately show ?thesis using assms by (auto simp: to_digit_def Let_def)
qed

lemma digits_value_append:
  "digits_value radix acc (s @ t) = Option.bind (digits_value radix acc s) (\<lambda>n. digits_value radix n t)"
  by (induction radix acc s rule: digits_value.induct) (auto split: option.splits)

lemma digits_value_zeros: "0 < radix \<Longrightarrow> digits_value radix 0 (replicate k CHR ''0'' @ s) = digits_value radix 0 s"
  by (induction k) (auto simp: to_digit_def)

lemma digits_value_show_digits:
  assumes "2 \<le> radix" and "radix \<le> 36"
  shows "digits_value radix 0 (show_digits radix n) = Some n"
  using assms
proof (induction radix n rule: show_digits.induct)
  case (1 radix n)
  then show ?case
    by (subst show_digits.simps) (auto simp: digits_value_append to_digit_digit_char)
qed

lemma set_show_digits:
  assumes "2 \<le> radix"
  shows "set (show_digits radix n) \<subseteq> digit_char ` {..<radix}"
  using assms
proof (induction radix n rule: show_digits.induct)
  case (1 radix n)
  then show ?case by (subst show_digits.simps) auto
qed

lemma show_digits_ne [simp]: "show_digits radix n \<noteq> []"
  by (subst show_digits.simps) auto

text \<open>The digits of a number are letters and figures.\<close>

definition alnum :: "char \<Rightarrow> bool" where
  "alnum c \<longleftrightarrow> (let n = of_char c :: nat in 48 \<le> n \<and> n \<le> 57 \<or> 97 \<le> n \<and> n \<le> 122)"

lemma alnum_digit_char: "d < 36 \<Longrightarrow> alnum (digit_char d)"
  by (auto simp: alnum_def digit_char_def of_char_of)

lemma alnum_show_digits: "2 \<le> radix \<Longrightarrow> radix \<le> 36 \<Longrightarrow> c \<in> set (show_digits radix n) \<Longrightarrow> alnum c"
  using set_show_digits [of radix n] alnum_digit_char by fastforce

lemma alnum_hex16: "c \<in> set (hex16 w) \<Longrightarrow> alnum c"
  using alnum_show_digits [of 16 c "unat w"] by (auto simp: hex16_def pad_zeros_def alnum_def)

lemma alnum_separators [simp]:
  "\<not> alnum CHR ''-''" "\<not> alnum CHR ''@''" "\<not> alnum CHR ''/''" "\<not> alnum CHR ''.''" "\<not> alnum CHR ''+''"
  by (simp_all add: alnum_def)

lemma from_str_radix_digits:
  assumes "\<forall>c \<in> set s. alnum c" and "s \<noteq> []"
  shows "(from_str_radix radix s :: 'a::len word option) =
    Option.bind (digits_value radix 0 s) (\<lambda>n. if n < 2 ^ LENGTH('a) then Some (of_nat n) else None)"
  using assms by (cases s) (auto simp: from_str_radix_def Let_def split: option.splits)

lemma from_str_radix_show:
  assumes "2 \<le> radix" and "radix \<le> 36"
  shows "from_str_radix radix (show_digits radix (unat w)) = Some (w :: 'a::len word)"
proof -
  have "\<forall>c \<in> set (show_digits radix (unat w)). alnum c" using alnum_show_digits [OF assms] by blast
  then show ?thesis
    using digits_value_show_digits [OF assms, of "unat w"] unsigned_less [of w] by (simp add: from_str_radix_digits)
qed

lemma from_str_radix_hex16: "from_str_radix 16 (hex16 w) = Some w"
proof -
  have "digits_value 16 0 (hex16 w) = Some (unat w)"
    by (simp only: hex16_def pad_zeros_def digits_value_zeros digits_value_show_digits)
  moreover have "hex16 w \<noteq> []" by (simp add: hex16_def pad_zeros_def)
  moreover have "\<forall>c \<in> set (hex16 w). alnum c" using alnum_hex16 by blast
  ultimately show ?thesis using unsigned_less [of w] by (simp add: from_str_radix_digits)
qed

section \<open>UTF-8 and ASCII separators\<close>

lemma utf8_valid_ascii_split:
  assumes "(of_char c :: nat) < 128"
  shows "utf8_valid (xs @ c # ys) \<longleftrightarrow> utf8_valid xs \<and> utf8_valid ys"
proof (induction xs rule: utf8_valid.induct)
  case 1
  then show ?case using assms by simp
next
  case (2 x xs)
  have c: "\<not> continuation c" "\<not> 160 \<le> (of_char c :: nat)" "\<not> 128 \<le> (of_char c :: nat)" "\<not> 144 \<le> (of_char c :: nat)"
    using assms by (auto simp: continuation_def)
  show ?case
  proof (cases "(of_char x :: nat) < 128")
    case True
    then show ?thesis using 2 by simp
  next
    case False
    show ?thesis
    proof (cases xs)
      case Nil
      then show ?thesis using False c by (auto simp: Let_def split: list.splits)
    next
      case (Cons x1 xs1)
      note outer = Cons
      show ?thesis
      proof (cases xs1)
        case Nil
        then show ?thesis using False c outer 2 by (auto simp: Let_def split: list.splits)
      next
        case (Cons x2 xs2)
        then show ?thesis using False c outer 2 by (cases xs2) (auto simp: Let_def)
      qed
    qed
  qed
qed

lemma utf8_valid_append_ascii: "\<forall>c \<in> set ys. (of_char c :: nat) < 128 \<Longrightarrow> utf8_valid (xs @ ys) \<longleftrightarrow> utf8_valid xs"
proof (induction ys arbitrary: xs)
  case (Cons y ys)
  then have "utf8_valid ys" using Cons.IH [of "[]"] by simp
  then show ?case using Cons.prems by (simp add: utf8_valid_ascii_split)
qed simp

section \<open>Names in directories\<close>

lemma trivial_simps [simp]: "trivial_component ''''" "trivial_component ''.''"
  by (simp_all add: trivial_component_def)

text \<open>A name that is one component, and not one that paths treat specially.\<close>

definition plain_name :: "string \<Rightarrow> bool" where
  "plain_name name \<longleftrightarrow> CHR ''/'' \<notin> set name \<and> name \<noteq> '''' \<and> name \<noteq> ''.'' \<and> name \<noteq> ''..''"

lemma is_absolute_Cons: "is_absolute path \<longleftrightarrow> (\<exists>rest. path = CHR ''/'' # rest)"
  by (cases path) (auto simp: is_absolute_def)

lemma split_all_parts: "part \<in> set (split_all sep s) \<Longrightarrow> sep \<notin> set part"
proof (induction s arbitrary: part)
  case (Cons c s)
  then show ?case by (cases "split_all sep s") (auto split: if_splits)
qed simp

lemma path_join_slash:
  assumes "is_absolute dir" and "plain_name name"
  obtains d where "path_join dir name = d @ CHR ''/'' # name" and "rev_components d = rev_components dir"
proof (cases "last dir = CHR ''/''")
  case True
  have ne: "dir \<noteq> []" using assms(1) by (auto simp: is_absolute_def)
  have dir: "dir = butlast dir @ ''/''" using ne True by (metis append_butlast_last_id)
  then have "path_join dir name = butlast dir @ CHR ''/'' # name"
    using True assms(2) by (auto simp: path_join_def is_absolute_Cons plain_name_def)
  moreover have "rev_components dir = rev_components (butlast dir)"
    by (subst dir) (simp add: rev_components_def split_all_append)
  ultimately show ?thesis using that by metis
next
  case False
  then have "path_join dir name = dir @ CHR ''/'' # name"
    using assms by (auto simp: path_join_def is_absolute_Cons plain_name_def)
  then show ?thesis using that by blast
qed

lemma split_all_path_of_components:
  "cs \<noteq> [] \<Longrightarrow> \<forall>c \<in> set cs. CHR ''/'' \<notin> set c \<Longrightarrow> split_all CHR ''/'' (path_of_components cs) = [] # cs"
proof (induction cs)
  case step: (Cons c cs)
  show ?case
  proof (cases cs)
    case Nil
    then show ?thesis using step.prems by (simp add: path_of_components_def split_all_whole)
  next
    case (Cons c' cs')
    then obtain rest where rest: "path_of_components cs = CHR ''/'' # rest" by (auto simp: path_of_components_def)
    then have "split_all CHR ''/'' rest = cs" using step.IH Cons step.prems by simp
    moreover have "path_of_components (c # cs) = CHR ''/'' # c @ CHR ''/'' # rest"
      using rest Cons by (simp add: path_of_components_def)
    ultimately show ?thesis using step.prems by (simp add: split_all_append split_all_whole)
  qed
qed simp

lemma rev_components_parts:
  "c \<in> set (rev_components path) \<Longrightarrow> CHR ''/'' \<notin> set c"
  by (auto simp: rev_components_def dest!: set_dropWhileD list.set_sel(2) [rotated] split_all_parts)

lemma rev_components_path_of_components: "rev_components (path_of_components (rev (rev_components path))) = rev_components path"
proof (cases "rev_components path = []")
  case True
  then show ?thesis by (simp add: path_of_components_def) (simp add: rev_components_def)
next
  case False
  then have "split_all CHR ''/'' (path_of_components (rev (rev_components path))) = [] # rev (rev_components path)"
    using rev_components_parts by (subst split_all_path_of_components) auto
  then show ?thesis by (simp add: rev_components_def)
qed

lemma file_name_join: "is_absolute dir \<Longrightarrow> plain_name name \<Longrightarrow> file_name (path_join dir name) = Some name"
  by (erule (1) path_join_slash)
    (auto simp: file_name_def rev_components_def split_all_append split_all_whole plain_name_def trivial_component_def)

lemma parent_join:
  assumes "is_absolute dir" and "plain_name name"
  shows "parent (path_join dir name) = Some (path_of_components (rev (rev_components dir)))"
proof -
  obtain d where "path_join dir name = d @ CHR ''/'' # name" "rev_components d = rev_components dir"
    using path_join_slash [OF assms] .
  moreover have "rev_components (d @ CHR ''/'' # name) = name # rev (tl (split_all CHR ''/'' d))"
    using assms(2) by (simp add: rev_components_def split_all_append split_all_whole plain_name_def trivial_component_def)
  ultimately show ?thesis by (simp add: parent_def) (simp add: rev_components_def)
qed

lemma file_name_parent_join: "is_absolute dir \<Longrightarrow> plain_name name \<Longrightarrow> Option.bind (parent (path_join dir name)) file_name = file_name dir"
  by (simp add: parent_join file_name_def rev_components_path_of_components)

lemma path_join_absolute: "is_absolute dir \<Longrightarrow> plain_name name \<Longrightarrow> is_absolute (path_join dir name)"
  by (cases dir) (auto simp: path_join_def is_absolute_def)

section \<open>Names round trip\<close>

text \<open>The name of a file set aside by \<open>dispose_file\<close>.\<close>

definition disposed_target :: "string \<Rightarrow> u64 \<Rightarrow> u64 \<Rightarrow> string" where
  "disposed_target stem stamp number = stem @ ''@'' @ hex16 stamp @ ''-'' @ hex16 number @ ''.journal~''"

lemma utf8_path_join:
  assumes "is_absolute dir" and "plain_name name"
  shows "utf8_valid (path_join dir name) \<longleftrightarrow> utf8_valid dir \<and> utf8_valid name"
proof (cases "last dir = CHR ''/''")
  case True
  have "dir \<noteq> []" using assms(1) by (auto simp: is_absolute_def)
  then have dir: "dir = butlast dir @ CHR ''/'' # []" using True by (metis append_butlast_last_id)
  have join: "path_join dir name = butlast dir @ CHR ''/'' # name"
    using True assms(2) dir by (auto simp: path_join_def is_absolute_Cons plain_name_def)
  have "utf8_valid dir \<longleftrightarrow> utf8_valid (butlast dir)" by (subst dir, subst utf8_valid_ascii_split) simp_all
  then show ?thesis by (simp add: join utf8_valid_ascii_split)
next
  case False
  then have "path_join dir name = dir @ CHR ''/'' # name"
    using assms by (auto simp: path_join_def is_absolute_Cons plain_name_def)
  then show ?thesis by (simp add: utf8_valid_ascii_split)
qed

definition directory_identity :: "(string \<Rightarrow> Uuid option) \<Rightarrow> string \<Rightarrow> Uuid option \<times> string option" where
  "directory_identity try_parse dir =
     (case Option.bind (file_name dir) to_str of
        Some dirname \<Rightarrow> parse_machine_id_namespace try_parse dirname
      | None \<Rightarrow> (None, None))"

lemma file_from_path_join:
  assumes "is_absolute dir" "utf8_valid dir" "plain_name name" "utf8_valid name"
    and "status_parse try_parse (CHR ''/'' # name) = Some (status, rest)"
    and "source_parse rest = Some (source, rest')"
    and "directory_identity try_parse dir = (machine_id, namespace)"
  shows "file_from_path try_parse (path_join dir name) =
    Some \<lparr>f_path = path_join dir name,
          f_origin = \<lparr>o_machine_id = machine_id, o_namespace = namespace, o_source = source\<rparr>,
          f_status = status, f_native_path = None\<rparr>"
  using assms path_join_absolute [of dir name] utf8_path_join [of dir name]
  by (simp add: file_from_path_def to_str_def file_name_join file_name_parent_join directory_identity_def)

lemma status_parse_archived:
  assumes "try_parse a = Some seqnum_id" and "\<forall>c \<in> set a. alnum c"
  shows "status_parse try_parse (pre @ ''@'' @ a @ ''-'' @ hex16 head_seqnum @ ''-'' @ hex16 head_realtime @ ''.journal'') =
    Some (Archived seqnum_id head_seqnum head_realtime, pre)"
proof -
  let ?suffix = "a @ CHR ''-'' # hex16 head_seqnum @ CHR ''-'' # hex16 head_realtime"
  have no: "c \<notin> set a" "c \<notin> set (hex16 w)" if "\<not> alnum c" for c w using assms(2) alnum_hex16 that by blast+
  have "rsplit_once CHR ''@'' (pre @ CHR ''@'' # ?suffix) = Some (pre, ?suffix)"
    by (rule rsplit_once_append) (simp add: no)
  moreover have "split_all CHR ''-'' ?suffix = [a, hex16 head_seqnum, hex16 head_realtime]"
    by (simp add: split_all_append split_all_whole no)
  moreover have "strip_suffix ''.journal'' ((pre @ CHR ''@'' # ?suffix) @ ''.journal'') = Some (pre @ CHR ''@'' # ?suffix)"
    by (rule strip_suffix_append)
  ultimately show ?thesis
    using assms(1) by (simp add: status_parse_def parse_journal_stem_def parse_archived_suffix_def from_str_radix_hex16)
qed

lemma status_parse_active: "CHR ''@'' \<notin> set pre \<Longrightarrow> status_parse try_parse (pre @ ''.journal'') = Some (Active, pre)"
  by (simp add: status_parse_def parse_journal_stem_def rsplit_once_None [THEN iffD2])

lemma status_parse_disposed: "status_parse try_parse (disposed_target stem stamp number) = Some (Disposed stamp number, stem)"
proof -
  let ?suffix = "hex16 stamp @ CHR ''-'' # hex16 number"
  have no: "c \<notin> set (hex16 w)" if "\<not> alnum c" for c w using alnum_hex16 that by blast
  have "rsplit_once CHR ''@'' (stem @ CHR ''@'' # ?suffix) = Some (stem, ?suffix)"
    by (rule rsplit_once_append) (simp add: no)
  moreover have "rsplit_once CHR ''-'' ?suffix = Some (hex16 stamp, hex16 number)"
    by (rule rsplit_once_append) (simp add: no)
  moreover have "strip_suffix ''.journal~'' ((stem @ CHR ''@'' # ?suffix) @ ''.journal~'') = Some (stem @ CHR ''@'' # ?suffix)"
    by (rule strip_suffix_append)
  moreover have "strip_suffix ''.journal'' ((stem @ CHR ''@'' # ?suffix) @ ''.journal~'') = None"
    by (simp add: strip_suffix_def strip_prefix_def)
  ultimately show ?thesis
    by (simp add: status_parse_def parse_disposed_stem_def disposed_target_def from_str_radix_hex16)
qed

text \<open>Sources whose name is read back as the same source.\<close>

definition source_canonical :: "Source \<Rightarrow> bool" where
  "source_canonical source \<longleftrightarrow>
     CHR ''/'' \<notin> set (source_basename source) \<and> utf8_valid (source_basename source) \<and>
     (case source of
        Unknown name \<Rightarrow>
          name \<noteq> ''system'' \<and> strip_prefix ''remote-'' name = None \<and>
          (case strip_prefix ''user-'' name of None \<Rightarrow> True | Some uid \<Rightarrow> (from_str_radix 10 uid :: u32 option) = None)
      | _ \<Rightarrow> True)"

lemma source_parse_basename:
  assumes "source_canonical source"
  shows "source_parse (CHR ''/'' # source_basename source) = Some (source, '''')"
proof -
  have r: "rsplit_once CHR ''/'' ('''' @ CHR ''/'' # source_basename source) = Some ('''', source_basename source)"
    using assms by (intro rsplit_once_append) (simp add: source_canonical_def)
  have num: "from_str_radix 10 (show_digits 10 (unat uid)) = Some uid" for uid :: u32 by (simp add: from_str_radix_show)
  show ?thesis
    using assms r num
    by (cases source) (auto simp: source_parse_def source_canonical_def source_basename_def strip_prefix_def split: option.splits if_splits)
qed

lemma utf8_alnum: "\<forall>c \<in> set s. alnum c \<or> c \<in> set ''@-./~journal'' \<Longrightarrow> \<forall>c \<in> set s. (of_char c :: nat) < 128"
  by (auto simp: alnum_def Let_def)

lemma utf8_suffix: "utf8_valid s \<Longrightarrow> \<forall>c \<in> set t. alnum c \<or> c \<in> set ''@-./~journal'' \<Longrightarrow> utf8_valid (s @ t)"
  by (simp add: utf8_valid_append_ascii utf8_alnum)

lemma plain_name_alnum: "\<forall>c \<in> set s. alnum c \<Longrightarrow> s \<noteq> [] \<Longrightarrow> plain_name s"
  by (auto simp: plain_name_def)

lemma directory_identity_join:
  assumes "is_absolute root" and "try_parse s = Some machine_id" and "\<forall>c \<in> set s. alnum c" and "s \<noteq> []"
  shows "directory_identity try_parse (path_join root s) = (Some machine_id, None)"
proof -
  have "CHR ''.'' \<notin> set s" using assms(3) alnum_separators(4) by blast
  moreover have "utf8_valid s" using utf8_suffix [of "[]" s] assms(3) by simp
  ultimately show ?thesis
    using assms plain_name_alnum [OF assms(3,4)]
    by (simp add: directory_identity_def file_name_join to_str_def parse_machine_id_namespace_def split_once_None [THEN iffD2])
qed

text \<open>What the crate documents of \<open>Uuid::simple\<close> and \<open>Uuid::try_parse\<close>.\<close>

definition uuid_text :: "(string \<Rightarrow> Uuid option) \<Rightarrow> (Uuid \<Rightarrow> string) \<Rightarrow> bool" where
  "uuid_text try_parse simple \<longleftrightarrow>
     (\<forall>u. try_parse (simple u) = Some u \<and> length (simple u) = 32 \<and> (\<forall>c \<in> set (simple u). alnum c))"

lemma file_in_machine_directory:
  fixes machine_id :: Uuid
  assumes uuid: "uuid_text try_parse simple"
    and root: "is_absolute root" "utf8_valid root"
    and src: "source_canonical source"
    and t: "\<forall>c \<in> set t. alnum c \<or> c \<in> set ''@-.~journal''" "2 < length t"
    and status: "status_parse try_parse (CHR ''/'' # source_basename source @ t) = Some (status, CHR ''/'' # source_basename source)"
  defines "dir \<equiv> path_join root (simple machine_id)"
  shows "file_from_path try_parse (path_join dir (source_basename source @ t)) =
    Some \<lparr>f_path = path_join dir (source_basename source @ t),
          f_origin = \<lparr>o_machine_id = Some machine_id, o_namespace = None, o_source = source\<rparr>,
          f_status = status, f_native_path = None\<rparr>"
proof (rule file_from_path_join)
  have simple: "\<forall>c \<in> set (simple u). alnum c" "length (simple u) = 32" "try_parse (simple u) = Some u" for u
    using uuid unfolding uuid_text_def by blast+
  then have ne: "simple u \<noteq> []" for u by (metis list.size(3) zero_neq_numeral)
  have plain: "plain_name (simple machine_id)" using simple(1) ne by (rule plain_name_alnum)
  show "is_absolute dir" unfolding dir_def using root(1) plain by (rule path_join_absolute)
  show "utf8_valid dir"
    using utf8_suffix [of "[]" "simple machine_id"] simple(1) root plain by (simp add: dir_def utf8_path_join)
  show "directory_identity try_parse dir = (Some machine_id, None)"
    unfolding dir_def using root(1) simple(3,1) ne by (rule directory_identity_join)
  have "CHR ''/'' \<notin> set t" using bspec [OF t(1), of "CHR ''/''"] by auto
  moreover have "source_basename source @ t \<noteq> ''.''" "source_basename source @ t \<noteq> ''..''"
    using t(2) by (auto simp: append_eq_Cons_conv)
  ultimately show "plain_name (source_basename source @ t)"
    using src t(2) by (auto simp: plain_name_def source_canonical_def)
  show "utf8_valid (source_basename source @ t)"
    using src bspec [OF t(1)] by (intro utf8_suffix ballI) (fastforce simp: source_canonical_def)+
  show "status_parse try_parse (CHR ''/'' # source_basename source @ t) = Some (status, CHR ''/'' # source_basename source)"
    by (rule status)
  show "source_parse (CHR ''/'' # source_basename source) = Some (source, [])" using src by (rule source_parse_basename)
qed

definition file_of :: "string \<Rightarrow> Uuid \<Rightarrow> Source \<Rightarrow> Status \<Rightarrow> File" where
  "file_of path machine_id source status =
     \<lparr>f_path = path, f_origin = \<lparr>o_machine_id = Some machine_id, o_namespace = None, o_source = source\<rparr>,
      f_status = status, f_native_path = None\<rparr>"

definition archived_name :: "(Uuid \<Rightarrow> string) \<Rightarrow> Source \<Rightarrow> Status \<Rightarrow> string" where
  "archived_name simple source s =
     source_basename source @ ''@'' @ simple (seqnum_id_of s) @ ''-'' @ hex16 (head_seqnum_of s) @ ''-'' @
       hex16 (head_realtime_of s) @ ''.journal''"

lemma created_files:
  fixes machine_id :: Uuid
  assumes "uuid_text try_parse simple" "is_absolute root" "utf8_valid root" "source_canonical source"
  defines "dir \<equiv> path_join root (simple machine_id)"
  shows created_archived: "create_chain_file try_parse simple dir (source_basename source) seqnum_id head_seqnum head_realtime =
      Some (file_of (path_join dir (archived_name simple source (Archived seqnum_id head_seqnum head_realtime)))
             machine_id source (Archived seqnum_id head_seqnum head_realtime))"
    and created_active: "CHR ''@'' \<notin> set (source_basename source) \<Longrightarrow>
      create_strict_systemd_active_file try_parse dir (source_basename source) =
      Some (file_of (path_join dir (source_basename source @ ''.journal'')) machine_id source Active)"
    and created_disposed: "file_from_path try_parse (path_join dir (disposed_target (source_basename source) stamp number)) =
      Some (file_of (path_join dir (disposed_target (source_basename source) stamp number)) machine_id source (Disposed stamp number))"
proof -
  note placed = file_in_machine_directory [OF assms(1-4), of _ _ machine_id, folded dir_def]
  have simple: "\<forall>c \<in> set (simple u). alnum c" "try_parse (simple u) = Some u" for u
    using assms(1) unfolding uuid_text_def by blast+
  show "create_chain_file try_parse simple dir (source_basename source) seqnum_id head_seqnum head_realtime =
      Some (file_of (path_join dir (archived_name simple source (Archived seqnum_id head_seqnum head_realtime)))
             machine_id source (Archived seqnum_id head_seqnum head_realtime))"
    unfolding create_chain_file_def archived_name_def file_of_def Status.sel
    using simple alnum_hex16 status_parse_archived [of try_parse "simple seqnum_id" seqnum_id "CHR ''/'' # source_basename source"]
    by (intro placed) auto
  show "create_strict_systemd_active_file try_parse dir (source_basename source) =
      Some (file_of (path_join dir (source_basename source @ ''.journal'')) machine_id source Active)"
    if "CHR ''@'' \<notin> set (source_basename source)"
    unfolding create_strict_systemd_active_file_def file_of_def
    using that status_parse_active [of "CHR ''/'' # source_basename source" try_parse] by (intro placed) auto
  show "file_from_path try_parse (path_join dir (disposed_target (source_basename source) stamp number)) =
      Some (file_of (path_join dir (disposed_target (source_basename source) stamp number)) machine_id source (Disposed stamp number))"
    unfolding disposed_target_def file_of_def
    using alnum_hex16 status_parse_disposed [of try_parse "CHR ''/'' # source_basename source" stamp number]
    by (intro placed) (auto simp: disposed_target_def)
qed

text \<open>
  C20. Names round trip: the name that the writer gives an archived, an active or a disposed file in the
  directory of a machine is read back by the registry as a file of that status, source and machine.
\<close>

theorem writer_names_roundtrip:
  assumes "uuid_text try_parse simple" "is_absolute root" "utf8_valid root" "source_canonical source"
    and "dir = path_join root (simple machine_id)"
  shows "create_chain_file try_parse simple dir (source_basename source) seqnum_id head_seqnum head_realtime =
      Some (file_of (path_join dir (archived_name simple source (Archived seqnum_id head_seqnum head_realtime)))
             machine_id source (Archived seqnum_id head_seqnum head_realtime)) \<and>
    (CHR ''@'' \<notin> set (source_basename source) \<longrightarrow>
      create_strict_systemd_active_file try_parse dir (source_basename source) =
      Some (file_of (path_join dir (source_basename source @ ''.journal'')) machine_id source Active)) \<and>
    file_from_path try_parse (path_join dir (disposed_target (source_basename source) stamp number)) =
      Some (file_of (path_join dir (disposed_target (source_basename source) stamp number)) machine_id source (Disposed stamp number))"
  unfolding assms(5) using created_files [OF assms(1-4)] by blast

text \<open>Identifiers printed in the simple format, and read back.\<close>

definition simple_uuid :: "Uuid \<Rightarrow> string" where
  "simple_uuid u = pad_zeros 32 (show_digits 16 (unat u))"

definition parse_simple_uuid :: "string \<Rightarrow> Uuid option" where
  "parse_simple_uuid s = (if length s = 32 then from_str_radix 16 s else None)"

lemma length_show_digits:
  assumes "2 \<le> radix" and "n < radix ^ k" and "0 < k"
  shows "length (show_digits radix n) \<le> k"
  using assms
proof (induction radix n arbitrary: k rule: show_digits.induct)
  case (1 radix n)
  show ?case
  proof (cases "n < radix")
    case False
    then have "1 < k" using "1.prems" by (cases "k = 1") auto
    moreover from this have "n div radix < radix ^ (k - 1)"
      using "1.prems" by (simp add: less_mult_imp_div_less flip: power_Suc2)
    ultimately have "length (show_digits radix (n div radix)) \<le> k - 1" using "1.IH" "1.prems"(1) False by simp
    then show ?thesis using \<open>1 < k\<close> by (subst show_digits.simps) auto
  qed (use "1.prems" in \<open>subst show_digits.simps, simp\<close>)
qed

lemma uuid_text_simple: "uuid_text parse_simple_uuid simple_uuid"
proof -
  have len: "length (show_digits 16 (unat u)) \<le> 32" for u :: Uuid
    using length_show_digits [of 16 "unat u" 32] unsigned_less [of u, where 'a = nat] by simp
  have alnum: "\<forall>c \<in> set (simple_uuid u). alnum c" for u
    using alnum_show_digits [of 16 _ "unat u"] by (auto simp: simple_uuid_def pad_zeros_def alnum_def)
  have "digits_value 16 0 (simple_uuid u) = Some (unat u)" for u
    by (simp only: simple_uuid_def pad_zeros_def digits_value_zeros digits_value_show_digits)
  moreover have "length (simple_uuid u) = 32" for u using len [of u] by (simp add: simple_uuid_def pad_zeros_def)
  moreover from this have "simple_uuid u \<noteq> []" for u by (metis list.size(3) zero_neq_numeral)
  ultimately have "parse_simple_uuid (simple_uuid u) = Some u" "length (simple_uuid u) = 32" for u
    using alnum unsigned_less [of u, where 'a = nat] by (simp_all add: parse_simple_uuid_def from_str_radix_digits)
  then show ?thesis using alnum by (simp add: uuid_text_def)
qed

theorem writer_names_roundtrip_witness:
  "create_chain_file parse_simple_uuid simple_uuid (path_join ''/var/log/journal'' (simple_uuid 5)) (source_basename (User 1000)) 7 8 9 =
      Some (file_of (path_join (path_join ''/var/log/journal'' (simple_uuid 5)) (archived_name simple_uuid (User 1000) (Archived 7 8 9)))
             5 (User 1000) (Archived 7 8 9))"
proof -
  have "source_canonical (User 1000)"
    by (simp add: source_canonical_def source_basename_def show_digits.simps digit_char_def char_of_def)
  then show ?thesis
    using writer_names_roundtrip [OF uuid_text_simple, of "''/var/log/journal''" "User 1000" _ 5 7 8 9]
    by (simp add: is_absolute_def)
qed

section \<open>Files survive serialisation\<close>

lemma decode_hex_pairs_encode:
  "decode_hex_pairs (concat (map (\<lambda>c. [digit_char (of_char c div 16), digit_char (of_char c mod 16)]) path)) = Inr path"
proof (induction path)
  case (Cons c path)
  have "(of_char c :: nat) < 256" by (rule nat_of_char_less_256)
  then have "(of_char c :: nat) div 16 < 16" by (simp add: div_less_iff_less_mult)
  then show ?case using Cons by (simp add: to_digit_digit_char)
qed simp

lemma length_hex_pairs:
  "length (concat (map (\<lambda>c. [digit_char (of_char c div 16), digit_char (of_char c mod 16)]) path)) = 2 * length path"
  by (induction path) auto

lemma decode_native_path_key_encode:
  assumes "is_absolute path" "char_of (0 :: nat) \<notin> set path" "\<not> utf8_valid path"
  shows "decode_native_path_key (native_path_key path) = Inr (Some path)"
  using assms
  by (simp add: decode_native_path_key_def native_path_key_def length_hex_pairs decode_hex_pairs_encode to_str_def)

lemma decode_native_path_key_absolute: "is_absolute path \<Longrightarrow> decode_native_path_key path = Inr None"
proof -
  assume "is_absolute path"
  then have "strip_prefix NATIVE_PATH_KEY path = None"
    by (auto simp: is_absolute_Cons strip_prefix_def NATIVE_PATH_KEY_def char_of_def)
  then show ?thesis by (simp add: decode_native_path_key_def)
qed

text \<open>
  The native path is not written; a file is well formed if reading the rest back restores it.  Then path,
  origin and status identify the file.
\<close>

definition file_wf :: "File \<Rightarrow> bool" where
  "file_wf f \<longleftrightarrow> deserialize_file (f\<lparr>f_native_path := None\<rparr>) = Inr f"

lemma file_wf_eq:
  assumes "file_wf f" "file_wf g" "file_key f = file_key g" "f_origin f = f_origin g"
  shows "f = g"
proof -
  have "f\<lparr>f_native_path := None\<rparr> = g\<lparr>f_native_path := None\<rparr>" using assms(3,4) by (simp add: file_key_def)
  then show ?thesis using assms(1,2) unfolding file_wf_def by (metis sum.inject(2))
qed

lemma file_wf_text: "is_absolute (f_path f) \<Longrightarrow> f_native_path f = None \<Longrightarrow> file_wf f"
  by (simp add: file_wf_def deserialize_file_def decode_native_path_key_absolute)

lemma file_from_path_wf:
  assumes "file_from_path try_parse path = Some f"
  shows "file_wf f \<and> as_path f = path"
proof -
  have "is_absolute path" "f_path f = path" "f_native_path f = None"
    using assms by (auto simp: file_from_path_def to_str_def bind_eq_Some_conv Let_def case_prod_beta split: if_splits)
  then show ?thesis by (simp add: file_wf_text as_path_def)
qed

lemma file_from_raw_path_wf:
  assumes "file_from_raw_path path = Some f"
  shows "file_wf f \<and> as_path f = path"
proof (cases "utf8_valid path")
  case True
  then have "is_absolute path" "f_path f = path" "f_native_path f = None"
    using assms by (auto simp: file_from_raw_path_def to_str_def Let_def split: if_splits)
  then show ?thesis by (simp add: file_wf_text as_path_def)
next
  case False
  then have "is_absolute path" "char_of (0 :: nat) \<notin> set path" "f_path f = native_path_key path" "f_native_path f = Some path"
    using assms by (auto simp: file_from_raw_path_def to_str_def Let_def split: if_splits)
  then show ?thesis
    using False by (simp add: file_wf_def deserialize_file_def decode_native_path_key_encode as_path_def)
qed

text \<open>
  A file made from any path, UTF-8 or not, refers to exactly that path, and serialising it and reading it
  back gives the same file: the key that stands for a path that is not UTF-8 loses no byte.
\<close>

theorem file_serde_roundtrip:
  assumes "file_from_raw_path path = Some f \<or> file_from_path try_parse path = Some f"
  shows "deserialize_file (f\<lparr>f_native_path := None\<rparr>) = Inr f \<and> as_path f = path"
  using assms file_from_path_wf file_from_raw_path_wf unfolding file_wf_def by blast

theorem file_serde_roundtrip_witness:
  "let path = ''/log/'' @ [char_of (255 :: nat)] @ ''.journal'' in
   \<exists>f. file_from_raw_path path = Some f \<and> f_path f \<noteq> path \<and> deserialize_file (f\<lparr>f_native_path := None\<rparr>) = Inr f \<and> as_path f = path"
proof -
  let ?path = "''/log/'' @ [char_of (255 :: nat)] @ ''.journal''"
  have "\<not> utf8_valid ?path" by (simp add: Let_def)
  then obtain f where "file_from_raw_path ?path = Some f" "f_path f = native_path_key ?path"
    by (auto simp: file_from_raw_path_def to_str_def is_absolute_def char_of_def)
  moreover have "native_path_key ?path \<noteq> ?path" by (simp add: native_path_key_def NATIVE_PATH_KEY_def char_of_def)
  ultimately show ?thesis using file_serde_roundtrip [of ?path f] by (auto simp: Let_def)
qed

end
