(* ===== verification/File_Chain.thy ===== *)
theory File_Chain
  imports Journal_Names
begin

text \<open>
  Chains of journal files of one origin, \<open>Chain\<close> of \<^verbatim>\<open>journal-registry/src/repository/collection.rs\<close>: disposed
  files first, then the archived ones by time, then the active one.  The contract of such a collection is the
  locale \<open>file_collection\<close>, which the registry and the retention of the log writer rely on.
\<close>

section \<open>Operations\<close>

record Chain =
  files :: "File list"

definition chain_default :: Chain where
  "chain_default = \<lparr>files = []\<rparr>"

definition insert_file :: "File \<Rightarrow> Chain \<Rightarrow> Chain" where
  "insert_file file c =
     (let pos = slice_partition_point (\<lambda>f. file_less f file) (files c)
      in if pos < length (files c) \<and> files c ! pos = file then c
         else c\<lparr>files := take pos (files c) @ file # drop pos (files c)\<rparr>)"

definition remove_file :: "File \<Rightarrow> Chain \<Rightarrow> Chain" where
  "remove_file file c =
     (let pos = slice_partition_point (\<lambda>f. file_less f file) (files c)
      in if pos < length (files c) \<and> files c ! pos = file
         then c\<lparr>files := take pos (files c) @ drop (Suc pos) (files c)\<rparr> else c)"

definition chain_pop_front :: "Chain \<Rightarrow> File option \<times> Chain" where
  "chain_pop_front c = (case files c of [] \<Rightarrow> (None, c) | f # fs \<Rightarrow> (Some f, c\<lparr>files := fs\<rparr>))"

definition chain_back :: "Chain \<Rightarrow> File option" where
  "chain_back c = (if files c = [] then None else Some (last (files c)))"

definition chain_is_empty :: "Chain \<Rightarrow> bool" where
  "chain_is_empty c \<longleftrightarrow> files c = []"

definition chain_len :: "Chain \<Rightarrow> nat" where
  "chain_len c = length (files c)"

definition should_drain :: "u64 \<Rightarrow> File \<Rightarrow> bool" where
  "should_drain cutoff_time file =
     (case f_status file of
        Active \<Rightarrow> False
      | Archived _ _ head_realtime \<Rightarrow> head_realtime \<le> cutoff_time
      | Disposed timestamp _ \<Rightarrow> timestamp \<le> cutoff_time)"

fun drain_loop :: "u64 \<Rightarrow> File list \<Rightarrow> File list \<Rightarrow> File list \<Rightarrow> File list \<times> File list" where
  "drain_loop cutoff_time drained retained [] = (drained, retained)"
| "drain_loop cutoff_time drained retained (file # fs) =
     (if should_drain cutoff_time file then drain_loop cutoff_time (drained @ [file]) retained fs
      else drain_loop cutoff_time drained (retained @ [file]) fs)"

definition chain_drain :: "u64 \<Rightarrow> Chain \<Rightarrow> File list \<times> Chain" where
  "chain_drain cutoff_time c =
     (let (drained, retained) = drain_loop cutoff_time [] [] (files c) in (drained, c\<lparr>files := retained\<rparr>))"

definition seconds_to_microseconds :: "u32 \<Rightarrow> u64" where
  "seconds_to_microseconds seconds = ucast seconds * 1000000"

definition next_file_tail_realtime :: "File option \<Rightarrow> u64" where
  "next_file_tail_realtime next_file =
     (case next_file of
        None \<Rightarrow> u64_max
      | Some file \<Rightarrow>
          (case f_status file of
             Archived _ _ head_realtime \<Rightarrow> head_realtime
           | Active \<Rightarrow> u64_max
           | Disposed _ _ \<Rightarrow> u64_max))"

definition range_overlaps :: "u64 \<Rightarrow> u64 \<Rightarrow> u64 \<Rightarrow> u64 \<Rightarrow> bool" where
  "range_overlaps head_realtime tail_realtime start stop \<longleftrightarrow> head_realtime < stop \<and> start < tail_realtime"

definition before_start :: "u64 \<Rightarrow> File \<Rightarrow> bool" where
  "before_start start f =
     (case f_status f of
        Active \<Rightarrow> False
      | Archived _ _ head_realtime \<Rightarrow> head_realtime < start
      | Disposed _ _ \<Rightarrow> True)"

definition first_range_candidate_position :: "u64 \<Rightarrow> Chain \<Rightarrow> nat" where
  "first_range_candidate_position start c = slice_partition_point (before_start start) (files c) - 1"

definition archived_head_at :: "nat \<Rightarrow> Chain \<Rightarrow> u64 option" where
  "archived_head_at pos c =
     (if pos < length (files c)
      then (case f_status (files c ! pos) of Archived _ _ head_realtime \<Rightarrow> Some head_realtime | _ \<Rightarrow> None)
      else None)"

definition peek :: "'a list \<Rightarrow> 'a option" where
  "peek xs = (case xs of [] \<Rightarrow> None | x # _ \<Rightarrow> Some x)"

text \<open>The loop over the candidates; the argument before the files is \<open>prev_head_realtime\<close>.\<close>

fun range_loop :: "u64 \<Rightarrow> u64 \<Rightarrow> u64 option \<Rightarrow> File list \<Rightarrow> File list" where
  "range_loop start stop prev [] = []"
| "range_loop start stop prev (file # fs) =
     (case f_status file of
        Archived _ _ head_realtime \<Rightarrow>
          if stop \<le> head_realtime then []
          else (if range_overlaps head_realtime (next_file_tail_realtime (peek fs)) start stop
                then [file] else []) @ range_loop start stop (Some head_realtime) fs
      | Active \<Rightarrow>
          if range_overlaps (case prev of None \<Rightarrow> 0 | Some head_realtime \<Rightarrow> head_realtime) u64_max start stop then [file] else []
      | Disposed _ _ \<Rightarrow> range_loop start stop prev fs)"

definition chain_find_files_in_range :: "u32 \<Rightarrow> u32 \<Rightarrow> Chain \<Rightarrow> File list \<Rightarrow> File list" where
  "chain_find_files_in_range start stop c found =
     (if files c = [] \<or> stop \<le> start then found
      else (let start = seconds_to_microseconds start;
                stop = seconds_to_microseconds stop;
                pos = first_range_candidate_position start c
            in found @ range_loop start stop (archived_head_at pos c) (drop pos (files c))))"

section \<open>A chain is an ordered set\<close>

definition chain_ok :: "Chain \<Rightarrow> bool" where
  "chain_ok c \<longleftrightarrow> sorted_wrt (\<lambda>f g. file_key f < file_key g) (files c)"

lemma file_position:
  assumes "chain_ok c"
  shows "slice_partition_point (\<lambda>f. file_less f file) (files c) = length (takeWhile (\<lambda>f. file_key f < file_key file) (files c))"
proof -
  have "slice_partition_point (\<lambda>f. file_key f < file_key file) (files c) = length (takeWhile (\<lambda>f. file_key f < file_key file) (files c))"
    using assms unfolding chain_ok_def
    by (intro slice_partition_point_takeWhile) (auto elim!: sorted_wrt_mono_rel [rotated])
  then show ?thesis by (simp only: file_less_key)
qed

text \<open>What precedes a file in a chain, and what is left.\<close>

lemma chain_split:
  assumes "chain_ok c"
  obtains before rest where "files c = before @ rest" "slice_partition_point (\<lambda>f. file_less f file) (files c) = length before"
    "\<forall>f \<in> set before. file_key f < file_key file" "\<forall>f \<in> set rest. file_key file \<le> file_key f"
    "file \<in> set (files c) \<Longrightarrow> \<exists>fs. rest = file # fs"
proof
  let ?P = "\<lambda>f. file_key f < file_key file"
  have s: "sorted_wrt (\<lambda>f g. file_key f < file_key g) (takeWhile ?P (files c) @ dropWhile ?P (files c))"
    using assms by (simp add: chain_ok_def)
  show "files c = takeWhile ?P (files c) @ dropWhile ?P (files c)" by simp
  show "\<forall>f \<in> set (takeWhile ?P (files c)). ?P f" by (auto dest: set_takeWhileD)
  show rest: "\<forall>f \<in> set (dropWhile ?P (files c)). file_key file \<le> file_key f"
  proof (cases "dropWhile ?P (files c)")
    case (Cons g fs)
    then have "file_key file \<le> file_key g" using hd_dropWhile [of ?P "files c"] by auto
    moreover have "file_key g < file_key f" if "f \<in> set fs" for f using s that by (auto simp: Cons sorted_wrt_append)
    ultimately show ?thesis unfolding Cons using order_less_imp_le order_trans by fastforce
  next
    case Nil
    show ?thesis unfolding Nil by simp
  qed
  show "slice_partition_point (\<lambda>f. file_less f file) (files c) = length (takeWhile ?P (files c))" by (rule file_position [OF assms])
  show "\<exists>fs. dropWhile ?P (files c) = file # fs" if m: "file \<in> set (files c)"
  proof -
    have "file \<in> set (takeWhile ?P (files c)) \<union> set (dropWhile ?P (files c))" using m by (simp flip: set_append)
    then have "file \<in> set (dropWhile ?P (files c))" by (auto dest: set_takeWhileD)
    then obtain g fs where g: "dropWhile ?P (files c) = g # fs" "file \<in> set (g # fs)"
      by (cases "dropWhile ?P (files c)") auto
    then have "file = g" using s rest by (auto simp: sorted_wrt_append)
    then show ?thesis using g by blast
  qed
qed

lemma insert_file_ok:
  assumes "chain_ok c" and "\<forall>g \<in> set (files c). file_key g = file_key file \<longrightarrow> g = file"
  shows "chain_ok (insert_file file c)" "set (files (insert_file file c)) = insert file (set (files c))"
proof -
  obtain before rest where c: "files c = before @ rest" "slice_partition_point (\<lambda>f. file_less f file) (files c) = length before"
    and b: "\<forall>f \<in> set before. file_key f < file_key file" and r: "\<forall>f \<in> set rest. file_key file \<le> file_key f"
    using chain_split [OF assms(1), of "file"] by metis
  show "set (files (insert_file file c)) = insert file (set (files c))"
    unfolding insert_file_def c(2) by (auto simp: c(1) Let_def nth_append)
  show "chain_ok (insert_file file c)"
  proof (cases "file \<in> set rest")
    case True
    then obtain fs where "rest = file # fs"
      using chain_split [OF assms(1), of "file"] c by (metis append_eq_append_conv Un_iff set_append)
    then have "insert_file file c = c" unfolding insert_file_def c(2) by (simp add: c(1) Let_def)
    then show ?thesis using assms(1) by simp
  next
    case False
    then have "\<forall>f \<in> set rest. file_key file < file_key f"
      using r assms(2) unfolding c(1) by (metis Un_iff order_le_less set_append)
    moreover have "files (insert_file file c) = before @ file # rest"
      using False unfolding insert_file_def c(2) by (auto simp: c(1) Let_def nth_append)
    ultimately show ?thesis
      using assms(1) b unfolding chain_ok_def c(1) by (auto simp: sorted_wrt_append intro: order_less_trans)
  qed
qed

lemma remove_file_files:
  assumes "chain_ok c"
  shows "files (remove_file file c) = filter (\<lambda>f. f \<noteq> file) (files c)"
proof -
  obtain before rest where c: "files c = before @ rest" "slice_partition_point (\<lambda>f. file_less f file) (files c) = length before"
    and b: "\<forall>f \<in> set before. file_key f < file_key file"
    and r: "file \<in> set (files c) \<Longrightarrow> \<exists>fs. rest = file # fs"
    using chain_split [OF assms, of "file"] by metis
  have before: "file \<notin> set before" using b by auto
  show ?thesis
  proof (cases "file \<in> set (files c)")
    case True
    then obtain fs where fs: "rest = file # fs" using r by blast
    then have "file \<notin> set fs" using assms unfolding chain_ok_def c(1) by (auto simp: sorted_wrt_append)
    then have "filter (\<lambda>f. f \<noteq> file) fs = fs" "filter (\<lambda>f. f \<noteq> file) before = before"
      using before by (auto simp: filter_id_conv)
    then have "filter (\<lambda>f. f \<noteq> file) (files c) = before @ fs" by (simp add: c(1) fs)
    then show ?thesis unfolding remove_file_def c(2) by (simp add: c(1) fs Let_def)
  next
    case False
    then have "remove_file file c = c" unfolding remove_file_def c(2) by (auto simp: c(1) Let_def nth_append)
    moreover have "filter (\<lambda>f. f \<noteq> file) (files c) = files c" using False by (auto simp: filter_id_conv)
    ultimately show ?thesis by simp
  qed
qed

lemma chain_ok_filter: "chain_ok c \<Longrightarrow> chain_ok (c\<lparr>files := filter P (files c)\<rparr>)"
  by (simp add: chain_ok_def sorted_wrt_filter)

lemma chain_ok_distinct: "chain_ok c \<Longrightarrow> distinct (files c)"
  unfolding chain_ok_def by (auto simp: sorted_wrt_iff_nth_less distinct_conv_nth) (metis linorder_neqE_nat order_less_irrefl)

section \<open>The contract\<close>

locale file_collection =
  fixes insert_op :: "File \<Rightarrow> 'c \<Rightarrow> 'c"
    and remove_op :: "File \<Rightarrow> 'c \<Rightarrow> 'c"
    and members :: "'c \<Rightarrow> File list"
    and invar :: "'c \<Rightarrow> bool"
    and vacant :: 'c
  assumes vacant: "invar vacant" "members vacant = []"
    and inserted: "invar c \<Longrightarrow> inj_on file_key (insert file (set (members c))) \<Longrightarrow>
      invar (insert_op file c) \<and> set (members (insert_op file c)) = insert file (set (members c))"
    and removed: "invar c \<Longrightarrow> invar (remove_op file c) \<and> set (members (remove_op file c)) = set (members c) - {file}"
    and members_distinct: "invar c \<Longrightarrow> distinct (members c)"
begin

lemma inserted_all:
  assumes "invar c" and "inj_on file_key (set fs \<union> set (members c))"
  shows "invar (fold insert_op fs c) \<and> set (members (fold insert_op fs c)) = set fs \<union> set (members c)"
  using assms
proof (induction fs arbitrary: c)
  case (Cons f fs)
  have "inj_on file_key (insert f (set (members c)))" using Cons.prems(2) by (rule inj_on_subset) auto
  then have one: "invar (insert_op f c)" "set (members (insert_op f c)) = insert f (set (members c))"
    using inserted [OF Cons.prems(1)] by auto
  then have "inj_on file_key (set fs \<union> set (members (insert_op f c)))"
    using Cons.prems(2) by (auto elim!: inj_on_subset)
  then show ?case using Cons.IH [OF one(1)] one(2) by auto
qed simp

lemma length_members: "invar c \<Longrightarrow> length (members c) = card (set (members c))"
  by (simp add: members_distinct distinct_card)

end

interpretation chain: file_collection insert_file remove_file files chain_ok chain_default
proof
  fix c and "file"
  show "chain_ok chain_default" "files chain_default = []" by (simp_all add: chain_ok_def chain_default_def)
  show "chain_ok (insert_file file c) \<and> set (files (insert_file file c)) = insert file (set (files c))"
    if "chain_ok c" "inj_on file_key (insert file (set (files c)))"
  proof -
    have "\<forall>g \<in> set (files c). file_key g = file_key file \<longrightarrow> g = file" using that(2) by (auto simp: inj_on_def)
    then show ?thesis using insert_file_ok [OF that(1)] by simp
  qed
  assume ok: "chain_ok c"
  have "remove_file file c = c\<lparr>files := files (remove_file file c)\<rparr>" by (simp add: remove_file_def Let_def)
  then show "chain_ok (remove_file file c) \<and> set (files (remove_file file c)) = set (files c) - {file}"
    using chain_ok_filter [OF ok, of "\<lambda>f. f \<noteq> file"] by (auto simp: remove_file_files [OF ok] chain_ok_def)
  show "distinct (files c)" using ok by (rule chain_ok_distinct)
qed

section \<open>Files of a time range\<close>

text \<open>
  The span of time the chain ascribes to each of its files: an archived file lasts until the next one
  begins, the active file begins where the last archived one does and lasts for ever, and disposed files have
  none.
\<close>

fun spans :: "u64 option \<Rightarrow> File list \<Rightarrow> (File \<times> u64 \<times> u64) list" where
  "spans prev [] = []"
| "spans prev (file # fs) =
     (case f_status file of
        Archived _ _ head_realtime \<Rightarrow> (file, head_realtime, next_file_tail_realtime (peek fs)) # spans (Some head_realtime) fs
      | Active \<Rightarrow> (file, case prev of None \<Rightarrow> 0 | Some head_realtime \<Rightarrow> head_realtime, u64_max) # spans prev fs
      | Disposed _ _ \<Rightarrow> spans prev fs)"

definition overlapping :: "u64 \<Rightarrow> u64 \<Rightarrow> (File \<times> u64 \<times> u64) list \<Rightarrow> File list" where
  "overlapping start stop sps = map fst (filter (\<lambda>(_, head_realtime, tail_realtime). range_overlaps head_realtime tail_realtime start stop) sps)"

lemma overlapping_simps [simp]:
  "overlapping start stop [] = []"
  "overlapping start stop ((f, h, t) # sps) = (if range_overlaps h t start stop then [f] else []) @ overlapping start stop sps"
  by (simp_all add: overlapping_def)

definition status_rank :: "File \<Rightarrow> nat \<times> nat" where
  "status_rank f = (case f_status f of Disposed _ _ \<Rightarrow> (0, 0) | Archived _ _ h \<Rightarrow> (1, unat h) | Active \<Rightarrow> (2, 0))"

text \<open>What the order of a chain means for the search: ranks never go down, and only the last file is active.\<close>

definition ranked :: "File list \<Rightarrow> bool" where
  "ranked fs \<longleftrightarrow> sorted (map status_rank fs) \<and> length (filter is_active fs) \<le> 1"

lemma status_rank_mono: "file_key f < file_key g \<Longrightarrow> status_rank f \<le> status_rank g"
  by (auto simp: file_key_def status_rank_def less_Status_def less_eq_Status_def status_cmp_key status_key_def word_le_nat_alt split: Status.splits)

lemma chain_ranked: "chain_ok c \<Longrightarrow> length (filter is_active (files c)) \<le> 1 \<Longrightarrow> ranked (files c)"
  unfolding ranked_def chain_ok_def by (auto simp: sorted_map intro: sorted_wrt_mono_rel [rotated] status_rank_mono)

lemma ranked_Cons:
  assumes "ranked (f # fs)"
  shows "ranked fs" "g \<in> set fs \<Longrightarrow> status_rank f \<le> status_rank g" "is_active f \<Longrightarrow> fs = []"
proof -
  show r: "ranked fs" using assms by (auto simp: ranked_def split: if_splits)
  show le: "g \<in> set fs \<Longrightarrow> status_rank f \<le> status_rank g" for g using assms by (auto simp: ranked_def)
  show "fs = []" if a: "is_active f"
  proof (rule ccontr)
    assume "fs \<noteq> []"
    then have g: "hd fs \<in> set fs" (is "?g \<in> _") by simp
    then have "is_active ?g" using le [OF g] a by (auto simp: is_active_def status_rank_def split: Status.splits)
    then show False using assms g a by (auto simp: ranked_def filter_empty_conv)
  qed
qed

lemma spans_after:
  assumes "ranked fs" and "\<forall>f \<in> set fs. (1, unat stop) \<le> status_rank f" and "case prev of None \<Rightarrow> False | Some h \<Rightarrow> stop \<le> h"
  shows "overlapping start stop (spans prev fs) = []"
  using assms
proof (induction fs arbitrary: prev)
  case (Cons f fs)
  then show ?case
    using ranked_Cons(1,3) [OF Cons.prems(1)]
    by (auto simp: range_overlaps_def status_rank_def is_active_def word_le_nat_alt word_less_nat_alt split: Status.splits option.splits)
qed simp

lemma range_loop_overlapping:
  assumes "ranked fs"
  shows "range_loop start stop prev fs = overlapping start stop (spans prev fs)"
  using assms
proof (induction start stop prev fs rule: range_loop.induct)
  case (2 start stop prev f fs)
  note ranked = ranked_Cons [OF "2.prems"]
  show ?case
  proof (cases "f_status f")
    case (Archived uuid seqnum h)
    show ?thesis
    proof (cases "stop \<le> h")
      case True
      have "\<forall>g \<in> set fs. (1, unat stop) \<le> status_rank g"
      proof
        fix g assume "g \<in> set fs"
        then have "(1, unat h) \<le> status_rank g" using ranked(2) by (simp add: status_rank_def [of f] Archived)
        moreover have "(1 :: nat, unat stop) \<le> (1, unat h)" using True by (simp add: word_le_nat_alt)
        ultimately show "(1, unat stop) \<le> status_rank g" by (rule order_trans [rotated])
      qed
      then have "overlapping start stop (spans (Some h) fs) = []" using True ranked(1) by (intro spans_after) auto
      then show ?thesis using True by (auto simp: Archived range_overlaps_def)
    next
      case False
      then show ?thesis using "2.IH"(1) [OF Archived] ranked(1) by (simp add: Archived)
    qed
  next
    case Active
    then show ?thesis using ranked(3) by (simp add: is_active_def)
  next
    case (Disposed t n)
    then show ?thesis using "2.IH"(2) ranked(1) by simp
  qed
qed simp

text \<open>Files that begin before the range and are followed by another such file do not reach into it.\<close>

fun last_head :: "u64 option \<Rightarrow> File list \<Rightarrow> u64 option" where
  "last_head prev [] = prev"
| "last_head prev (f # fs) = last_head (case f_status f of Archived _ _ h \<Rightarrow> Some h | _ \<Rightarrow> prev) fs"

lemma spans_skip:
  assumes "ranked (pre @ g # fs)" and "\<forall>f \<in> set (pre @ [g]). before_start start f"
  shows "overlapping start stop (spans prev (pre @ g # fs)) = overlapping start stop (spans (last_head prev pre) (g # fs))"
  using assms
proof (induction pre arbitrary: prev)
  case (Cons f pre)
  obtain g' fs' where n: "pre @ g # fs = g' # fs'" "before_start start g'"
    using Cons.prems(2) by (cases pre) auto
  have IH: "overlapping start stop (spans prev' (pre @ g # fs)) = overlapping start stop (spans (last_head prev' pre) (g # fs))" for prev'
    using Cons.IH Cons.prems ranked_Cons(1) [of f "pre @ g # fs"] by auto
  have "next_file_tail_realtime (peek (pre @ g # fs)) < start" if "f_status f = Archived uuid seqnum h" for uuid seqnum h
  proof -
    have "status_rank f \<le> status_rank g'" using ranked_Cons(2) [of f "pre @ g # fs" g'] Cons.prems(1) by (simp add: n)
    then show ?thesis
      using n(2) that by (auto simp: n(1) peek_def next_file_tail_realtime_def before_start_def status_rank_def split: Status.splits)
  qed
  then show ?case using IH Cons.prems(2) by (auto simp: range_overlaps_def before_start_def split: Status.splits)
qed simp
lemma before_start_rank: "before_start start f \<longleftrightarrow> status_rank f < (1, unat start)"
  by (auto simp: before_start_def status_rank_def word_less_nat_alt split: Status.splits)

lemma first_candidate:
  assumes "ranked (files c)"
  shows "first_range_candidate_position start c = length (takeWhile (before_start start) (files c)) - 1"
proof -
  have "sorted_wrt (\<lambda>f g. before_start start g \<longrightarrow> before_start start f) (files c)"
    using assms unfolding ranked_def sorted_map before_start_rank
    by (auto elim!: sorted_wrt_mono_rel [rotated] intro: le_less_trans)
  then show ?thesis by (simp add: first_range_candidate_position_def slice_partition_point_takeWhile)
qed

lemma unat_seconds_to_microseconds: "unat (seconds_to_microseconds s) = unat s * 1000000"
proof -
  have "unat s * 1000000 < 2 ^ 64" using unsigned_less [of s, where 'a = nat] by simp
  then show ?thesis by (simp add: seconds_to_microseconds_def unat_word_ariths)
qed

lemma spans_prev: "(\<And>f fs'. fs = f # fs' \<Longrightarrow> is_archived f) \<Longrightarrow> spans prev fs = spans prev' fs"
  by (cases fs) (auto simp: is_archived_def split: Status.splits)

lemma last_head_disposed: "\<forall>f \<in> set pre. is_disposed f \<Longrightarrow> last_head prev pre = prev"
  by (induction pre arbitrary: prev) (auto simp: is_disposed_def split: Status.splits)

text \<open>Starting at the candidate, with the head found there, is as good as starting at the front.\<close>

lemma spans_candidate:
  fixes start :: u64
  assumes "ranked (files c)" and "files c \<noteq> []"
  defines "pos \<equiv> first_range_candidate_position start c"
  shows "overlapping start stop (spans (archived_head_at pos c) (drop pos (files c))) = overlapping start stop (spans None (files c))"
proof -
  let ?n = "length (takeWhile (before_start start) (files c))"
  have pos: "pos = ?n - 1" unfolding pos_def using assms(1) by (rule first_candidate)
  have "pos < length (files c)"
    using assms(2) length_takeWhile_le [of "before_start start" "files c"] by (cases "files c") (auto simp: pos)
  then obtain g fs where fs: "drop pos (files c) = g # fs" "g = files c ! pos" by (metis Cons_nth_drop_Suc)
  have files: "files c = take pos (files c) @ g # fs" by (metis fs(1) append_take_drop_id)
  have skip: "overlapping start stop (spans None (files c)) = overlapping start stop (spans (last_head None (take pos (files c))) (g # fs))"
  proof (cases "?n = 0")
    case True
    then show ?thesis using fs by (simp add: pos)
  next
    case False
    then have "Suc pos = ?n" by (simp add: pos)
    moreover have "take pos (files c) @ [g] = take (Suc pos) (files c)"
      using \<open>pos < length (files c)\<close> by (simp add: fs(2) take_Suc_conv_app_nth)
    ultimately have "take pos (files c) @ [g] = takeWhile (before_start start) (files c)" by (metis takeWhile_eq_take)
    then have "\<forall>f \<in> set (take pos (files c) @ [g]). before_start start f" by (metis set_takeWhileD)
    then show ?thesis using spans_skip [of "take pos (files c)" g fs start stop None] assms(1) files by metis
  qed
  have "overlapping start stop (spans (archived_head_at pos c) (g # fs)) =
    overlapping start stop (spans (last_head None (take pos (files c))) (g # fs))"
  proof (cases "f_status g")
    case Active
    have "pos = 0"
    proof (rule ccontr)
      assume "pos \<noteq> 0"
      then have "pos < ?n" by (simp add: pos)
      then have "before_start start g" unfolding fs(2) by (metis nth_mem set_takeWhileD takeWhile_nth)
      then show False using Active by (simp add: before_start_def)
    qed
    then show ?thesis using Active fs(2) by (simp add: archived_head_at_def)
  next
    case (Archived uuid seqnum h)
    then show ?thesis by simp
  next
    case (Disposed t n)
    have "\<forall>f \<in> set (take pos (files c)). status_rank f \<le> status_rank g"
      using assms(1) by (subst (asm) files) (auto simp: ranked_def sorted_append)
    then have "\<forall>f \<in> set (take pos (files c)). is_disposed f"
      using Disposed by (auto simp: is_disposed_def status_rank_def split: Status.splits)
    then show ?thesis using Disposed fs(2) \<open>pos < length (files c)\<close> by (simp add: archived_head_at_def last_head_disposed)
  qed
  then show ?thesis using skip fs(1) by simp
qed

lemma chain_find_overlapping:
  assumes "chain_ok c" and "length (filter is_active (files c)) \<le> 1" and "start < stop"
  shows "chain_find_files_in_range start stop c found =
    found @ overlapping (seconds_to_microseconds start) (seconds_to_microseconds stop) (spans None (files c))"
proof -
  have r: "ranked (files c)" using assms(1,2) by (rule chain_ranked)
  have "filter is_active (files c) = filter is_active (take n (files c)) @ filter is_active (drop n (files c))" for n
    by (metis append_take_drop_id filter_append)
  then have "ranked (drop n (files c))" for n
    using r by (simp add: ranked_def sorted_wrt_drop flip: drop_map) (metis add_leD2 length_append)
  then show ?thesis
    using assms(3) spans_candidate [OF r]
    by (simp add: chain_find_files_in_range_def Let_def range_loop_overlapping flip: not_less)
qed

text \<open>
  C19. In a chain in order, with at most one active file, the search for a time range returns exactly the files
  whose span overlaps the range, in the chain's order: the binary search skips no file that overlaps, and the
  loop does not stop too early.  So a file with an entry in the range is returned if the entry lies in the file's
  span, which for an archived file ends strictly before the next one's first entry.
\<close>

theorem chain_range_exact:
  assumes "chain_ok c" and "length (filter is_active (files c)) \<le> 1" and "start < stop"
  shows "chain_find_files_in_range start stop c found =
      found @ overlapping (seconds_to_microseconds start) (seconds_to_microseconds stop) (spans None (files c)) \<and>
    (\<forall>(f, h, t) \<in> set (spans None (files c)). \<forall>time.
       h \<le> time \<and> (time < t \<or> t = u64_max) \<and> unat start * 1000000 \<le> unat time \<and> unat time < unat stop * 1000000 \<longrightarrow>
       f \<in> set (chain_find_files_in_range start stop c found))"
proof -
  have "range_overlaps h t (seconds_to_microseconds start) (seconds_to_microseconds stop)"
    if "h \<le> time" "time < t \<or> t = u64_max" "unat start * 1000000 \<le> unat time" "unat time < unat stop * 1000000" for h t time
  proof -
    have "unat start * 1000000 < 2 ^ 64 - 1" using unsigned_less [of start, where 'a = nat] by simp
    then show ?thesis
      using that by (auto simp: range_overlaps_def word_less_nat_alt word_le_nat_alt unat_seconds_to_microseconds unat_u64_max)
  qed
  then show ?thesis
    unfolding chain_find_overlapping [OF assms] by (force simp: overlapping_def)
qed

definition sample_chain :: Chain where
  "sample_chain = \<lparr>files = [file_of ''/a/system@1-1-1.journal'' 1 System (Archived 1 1 10000000),
     file_of ''/a/system@1-2-2.journal'' 1 System (Archived 1 2 20000000), file_of ''/a/system.journal'' 1 System Active]\<rparr>"

theorem chain_range_exact_witness:
  "chain_find_files_in_range 12 15 sample_chain [] = [file_of ''/a/system@1-1-1.journal'' 1 System (Archived 1 1 10000000)]"
proof -
  have "chain_ok sample_chain"
    by (simp add: chain_ok_def sample_chain_def file_of_def file_key_def less_Status_def less_eq_Status_def cmp_def)
  moreover have "length (filter is_active (files sample_chain)) \<le> 1"
    by (simp add: sample_chain_def file_of_def is_active_def)
  ultimately show ?thesis
    using chain_range_exact [of sample_chain 12 15 "[]"]
    by (simp add: sample_chain_def file_of_def peek_def next_file_tail_realtime_def range_overlaps_def seconds_to_microseconds_def)
qed

text \<open>Draining splits a chain by the cutoff and keeps the rest in order.\<close>

lemma drain_loop_filter:
  "drain_loop cutoff_time drained retained fs =
    (drained @ filter (should_drain cutoff_time) fs, retained @ filter (\<lambda>f. \<not> should_drain cutoff_time f) fs)"
  by (induction cutoff_time drained retained fs rule: drain_loop.induct) auto

lemma chain_drain_filter:
  "chain_drain cutoff_time c =
    (filter (should_drain cutoff_time) (files c), c\<lparr>files := filter (\<lambda>f. \<not> should_drain cutoff_time f) (files c)\<rparr>)"
  by (simp add: chain_drain_def drain_loop_filter)

lemma chain_drain_ok: "chain_ok c \<Longrightarrow> chain_ok (snd (chain_drain cutoff_time c))"
  by (simp add: chain_drain_filter chain_ok_filter)

end
