(* ===== verification/File_Registry.thy ===== *)
theory File_Registry
  imports File_Chain "HOL-Library.AList"
begin

text \<open>
  The registry of journal files: \<open>Repository\<close> of \<^verbatim>\<open>journal-registry/src/repository/collection.rs\<close>, which keeps the
  chains by directory and origin, and \<open>Registry\<close> of \<^verbatim>\<open>journal-registry/src/registry/mod.rs\<close>, which adds the
  time ranges of indexed files and follows the events of a file system watcher.

  A \<open>HashMap\<close> is an association list with distinct keys; its order is the order in which the map is
  iterated, on which no property depends.  The watcher and the directory walk are arguments.
\<close>

section \<open>Chains by directory and origin\<close>

record Directory =
  chains :: "(Origin \<times> Chain) list"

record Repository =
  directories :: "(string \<times> Directory) list"

definition repository_default :: Repository where
  "repository_default = \<lparr>directories = []\<rparr>"

definition repository_insert :: "File \<Rightarrow> Repository \<Rightarrow> (RepositoryError + unit) \<times> Repository" where
  "repository_insert file r =
     (case file_dir file of
        Inl e \<Rightarrow> (Inl e, r)
      | Inr dir \<Rightarrow>
          (case map_of (directories r) dir of
             Some directory \<Rightarrow>
               (case map_of (chains directory) (f_origin file) of
                  Some chain \<Rightarrow>
                    (Inr (), r\<lparr>directories := AList.update dir
                       (directory\<lparr>chains := AList.update (f_origin file) (insert_file file chain) (chains directory)\<rparr>) (directories r)\<rparr>)
                | None \<Rightarrow>
                    (let origin = f_origin file;
                         chain = insert_file file chain_default
                     in (Inr (), r\<lparr>directories := AList.update dir
                          (directory\<lparr>chains := AList.update origin chain (chains directory)\<rparr>) (directories r)\<rparr>)))
           | None \<Rightarrow>
               (let origin = f_origin file;
                    chain = insert_file file chain_default;
                    directory = \<lparr>chains = AList.update origin chain []\<rparr>
                in (Inr (), r\<lparr>directories := AList.update dir directory (directories r)\<rparr>))))"

definition repository_remove :: "File \<Rightarrow> Repository \<Rightarrow> (RepositoryError + unit) \<times> Repository" where
  "repository_remove file r =
     (case file_dir file of
        Inl e \<Rightarrow> (Inl e, r)
      | Inr dir \<Rightarrow>
          (case map_of (directories r) dir of
             None \<Rightarrow> (Inr (), r)
           | Some directory \<Rightarrow>
               (let (directory, remove_chain) =
                      (case map_of (chains directory) (f_origin file) of
                         Some chain \<Rightarrow>
                           (let chain = remove_file file chain
                            in (directory\<lparr>chains := AList.update (f_origin file) chain (chains directory)\<rparr>, chain_is_empty chain))
                       | None \<Rightarrow> (directory, False));
                    directory = (if remove_chain then directory\<lparr>chains := AList.delete (f_origin file) (chains directory)\<rparr> else directory);
                    r = r\<lparr>directories := AList.update dir directory (directories r)\<rparr>
                in (Inr (), if chains directory = [] then r\<lparr>directories := AList.delete dir (directories r)\<rparr> else r))))"

definition repository_remove_directory :: "string \<Rightarrow> Repository \<Rightarrow> Repository" where
  "repository_remove_directory path r = r\<lparr>directories := AList.delete path (directories r)\<rparr>"

definition repository_find_files_in_range :: "u32 \<Rightarrow> u32 \<Rightarrow> Repository \<Rightarrow> File list" where
  "repository_find_files_in_range start stop r =
     fold (\<lambda>(_, directory) found.
       fold (\<lambda>(_, chain) found. chain_find_files_in_range start stop chain found) (chains directory) found) (directories r) []"

section \<open>Time ranges\<close>

datatype TimeRange =
    UnknownRange
  | ActiveRange u32 u32 u32
  | BoundedRange u32 u32 u32

record FileInfo =
  info_file :: File
  info_time_range :: TimeRange

record TrackedRepository =
  base :: Repository
  file_metadata :: "(File \<times> FileInfo) list"

definition tracked_new :: TrackedRepository where
  "tracked_new = \<lparr>base = repository_default, file_metadata = []\<rparr>"

definition tracked_insert :: "File \<Rightarrow> TrackedRepository \<Rightarrow> (RepositoryError + unit) \<times> TrackedRepository" where
  "tracked_insert file t =
     (let file_info = \<lparr>info_file = file, info_time_range = UnknownRange\<rparr>
      in case repository_insert file (base t) of
           (Inl e, r) \<Rightarrow> (Inl e, t\<lparr>base := r\<rparr>)
         | (Inr _, r) \<Rightarrow> (Inr (), t\<lparr>base := r, file_metadata := AList.update file file_info (file_metadata t)\<rparr>))"

definition tracked_remove :: "File \<Rightarrow> TrackedRepository \<Rightarrow> (RepositoryError + unit) \<times> TrackedRepository" where
  "tracked_remove file t =
     (case repository_remove file (base t) of
        (Inl e, r) \<Rightarrow> (Inl e, t\<lparr>base := r\<rparr>)
      | (Inr _, r) \<Rightarrow> (Inr (), t\<lparr>base := r, file_metadata := AList.delete file (file_metadata t)\<rparr>))"

definition tracked_remove_directory :: "string \<Rightarrow> TrackedRepository \<Rightarrow> TrackedRepository" where
  "tracked_remove_directory path t =
     t\<lparr>base := repository_remove_directory path (base t),
       file_metadata := filter (\<lambda>(file, _). case file_dir file of Inl _ \<Rightarrow> True | Inr dir \<Rightarrow> dir \<noteq> path) (file_metadata t)\<rparr>"

definition info_included :: "u32 \<Rightarrow> u32 \<Rightarrow> FileInfo \<Rightarrow> bool" where
  "info_included start stop file_info =
     (case info_time_range file_info of
        UnknownRange \<Rightarrow> True
      | ActiveRange _ _ _ \<Rightarrow> True
      | BoundedRange file_start file_end _ \<Rightarrow> file_start < stop \<and> start < file_end)"

definition tracked_info :: "TrackedRepository \<Rightarrow> File \<Rightarrow> FileInfo" where
  "tracked_info t file =
     (case map_of (file_metadata t) file of
        Some file_info \<Rightarrow> file_info
      | None \<Rightarrow> \<lparr>info_file = file, info_time_range = UnknownRange\<rparr>)"

definition tracked_find_files_in_range :: "u32 \<Rightarrow> u32 \<Rightarrow> TrackedRepository \<Rightarrow> FileInfo list" where
  "tracked_find_files_in_range start stop t =
     filter (info_included start stop) (map (tracked_info t) (repository_find_files_in_range start stop (base t)))"

definition update_file_info :: "FileInfo \<Rightarrow> TrackedRepository \<Rightarrow> TrackedRepository" where
  "update_file_info file_info t = t\<lparr>file_metadata := AList.update (info_file file_info) file_info (file_metadata t)\<rparr>"

section \<open>The registry and its events\<close>

record Registry =
  repository :: TrackedRepository
  watched_directories :: "string set"

datatype RegistryError = Notify | RegistryIo | RepositoryFailed RepositoryError

definition registry_new :: Registry where
  "registry_new = \<lparr>repository = tracked_new, watched_directories = {}\<rparr>"

text \<open>\<open>scan_journal_files\<close> over what the walk yields: an error, or a path and whether it is a regular file.\<close>

fun scan_journal_files ::
  "(string \<Rightarrow> Uuid option) \<Rightarrow> (RepositoryError + string \<times> bool) list \<Rightarrow> RepositoryError + File list" where
  "scan_journal_files try_parse [] = Inr []"
| "scan_journal_files try_parse (Inl e # _) = Inl e"
| "scan_journal_files try_parse (Inr (path, is_file) # entries) =
     (case scan_journal_files try_parse entries of
        Inl e \<Rightarrow> Inl e
      | Inr fs \<Rightarrow>
          Inr (if is_file then (case file_from_path try_parse path of Some file \<Rightarrow> file # fs | None \<Rightarrow> fs) else fs))"

definition registry_insert :: "File \<Rightarrow> Registry \<Rightarrow> Registry" where
  "registry_insert file g = g\<lparr>repository := snd (tracked_insert file (repository g))\<rparr>"

definition registry_remove :: "File \<Rightarrow> Registry \<Rightarrow> Registry" where
  "registry_remove file g = g\<lparr>repository := snd (tracked_remove file (repository g))\<rparr>"

text \<open>The arguments \<open>walk\<close> and \<open>watcher\<close> are the directory walk and the outcome of the watcher's call.\<close>

definition watch_directory ::
  "(string \<Rightarrow> Uuid option) \<Rightarrow> (string \<Rightarrow> (RepositoryError + string \<times> bool) list) \<Rightarrow> RegistryError + unit \<Rightarrow> string \<Rightarrow> Registry \<Rightarrow>
     (RegistryError + unit) \<times> Registry" where
  "watch_directory try_parse walk watcher path g =
     (if path \<in> watched_directories g then (Inr (), g)
      else (case scan_journal_files try_parse (walk path) of
              Inl e \<Rightarrow> (Inl (RepositoryFailed e), g)
            | Inr found \<Rightarrow>
                (case watcher of
                   Inl e \<Rightarrow> (Inl e, g)
                 | Inr _ \<Rightarrow>
                     (Inr (), fold registry_insert found (g\<lparr>watched_directories := insert path (watched_directories g)\<rparr>)))))"

definition unwatch_directory :: "RegistryError + unit \<Rightarrow> string \<Rightarrow> Registry \<Rightarrow> (RegistryError + unit) \<times> Registry" where
  "unwatch_directory watcher path g =
     (if path \<notin> watched_directories g then (Inr (), g)
      else (case watcher of
              Inl e \<Rightarrow> (Inl e, g)
            | Inr _ \<Rightarrow>
                (Inr (), g\<lparr>repository := tracked_remove_directory path (repository g),
                          watched_directories := watched_directories g - {path}\<rparr>)))"

datatype EventKind = CreateEvent | RemoveEvent | RenameBoth | RenameOther | OtherEvent

definition insert_event_path :: "(string \<Rightarrow> Uuid option) \<Rightarrow> string \<Rightarrow> Registry \<Rightarrow> Registry" where
  "insert_event_path try_parse path g =
     (case file_from_path try_parse path of None \<Rightarrow> g | Some file \<Rightarrow> registry_insert file g)"

definition remove_event_path :: "(string \<Rightarrow> Uuid option) \<Rightarrow> string \<Rightarrow> Registry \<Rightarrow> Registry" where
  "remove_event_path try_parse path g =
     (case file_from_path try_parse path of None \<Rightarrow> g | Some file \<Rightarrow> registry_remove file g)"

definition process_rename_event :: "(string \<Rightarrow> Uuid option) \<Rightarrow> string list \<Rightarrow> Registry \<Rightarrow> Registry" where
  "process_rename_event try_parse paths g =
     (case paths of
        old_path # new_path # _ \<Rightarrow> insert_event_path try_parse new_path (remove_event_path try_parse old_path g)
      | _ \<Rightarrow> g)"

definition process_event :: "(string \<Rightarrow> Uuid option) \<Rightarrow> EventKind \<Rightarrow> string list \<Rightarrow> Registry \<Rightarrow> (RegistryError + unit) \<times> Registry" where
  "process_event try_parse kind paths g =
     (Inr (), case kind of
        CreateEvent \<Rightarrow> fold (insert_event_path try_parse) paths g
      | RemoveEvent \<Rightarrow> fold (remove_event_path try_parse) paths g
      | RenameBoth \<Rightarrow> process_rename_event try_parse paths g
      | RenameOther \<Rightarrow> g
      | OtherEvent \<Rightarrow> g)"

definition registry_find_files_in_range :: "u32 \<Rightarrow> u32 \<Rightarrow> Registry \<Rightarrow> RegistryError + FileInfo list" where
  "registry_find_files_in_range start stop g = Inr (tracked_find_files_in_range start stop (repository g))"

definition update_time_range :: "File \<Rightarrow> u32 \<Rightarrow> u32 \<Rightarrow> u32 \<Rightarrow> bool \<Rightarrow> Registry \<Rightarrow> Registry" where
  "update_time_range file start_time end_time indexed_at online g =
     (let time_range = (if online then ActiveRange start_time end_time indexed_at else BoundedRange start_time end_time indexed_at)
      in g\<lparr>repository := update_file_info \<lparr>info_file = file, info_time_range = time_range\<rparr> (repository g)\<rparr>)"

section \<open>The repository is a set of files\<close>

lemma set_alist_update: "distinct (map fst al) \<Longrightarrow> set (AList.update k v al) = insert (k, v) {p \<in> set al. fst p \<noteq> k}"
  by (induction al) (auto simp: image_iff)

lemma set_alist_delete: "set (AList.delete k al) = {p \<in> set al. fst p \<noteq> k}"
  by (auto simp: AList.delete_eq)

definition directory_files :: "Directory \<Rightarrow> File set" where
  "directory_files d = (\<Union>(_, c) \<in> set (chains d). set (files c))"

definition directory_ok :: "string \<Rightarrow> Directory \<Rightarrow> bool" where
  "directory_ok dir d \<longleftrightarrow>
     distinct (map fst (chains d)) \<and>
     (\<forall>(origin, c) \<in> set (chains d). chain_ok c \<and> files c \<noteq> [] \<and>
        (\<forall>f \<in> set (files c). file_wf f \<and> f_origin f = origin \<and> file_dir f = Inr dir))"

definition repository_files :: "Repository \<Rightarrow> File set" where
  "repository_files r = (\<Union>(_, d) \<in> set (directories r). directory_files d)"

definition repository_ok :: "Repository \<Rightarrow> bool" where
  "repository_ok r \<longleftrightarrow>
     distinct (map fst (directories r)) \<and> (\<forall>(dir, d) \<in> set (directories r). directory_ok dir d \<and> chains d \<noteq> [])"

lemma repository_files_iff: "f \<in> repository_files r \<longleftrightarrow> (\<exists>dir d. (dir, d) \<in> set (directories r) \<and> f \<in> directory_files d)"
  by (auto simp: repository_files_def)

lemma directory_files_iff: "f \<in> directory_files d \<longleftrightarrow> (\<exists>origin c. (origin, c) \<in> set (chains d) \<and> f \<in> set (files c))"
  by (auto simp: directory_files_def)

lemma directory_ok_files: "directory_ok dir d \<Longrightarrow> f \<in> directory_files d \<Longrightarrow> file_wf f \<and> file_dir f = Inr dir"
  by (auto simp: directory_ok_def directory_files_def)

lemma chain_identified:
  assumes "directory_ok dir d" "(f_origin file, c) \<in> set (chains d)" "file_wf file"
  shows "inj_on file_key (insert file (set (files c)))"
proof -
  have "file_wf g \<and> f_origin g = f_origin file" if "g \<in> insert file (set (files c))" for g
    using assms that by (auto simp: directory_ok_def)
  then show ?thesis by (intro inj_onI) (metis file_wf_eq)
qed

lemma directory_update:
  assumes "directory_ok dir d" "chain_ok c'" "files c' \<noteq> []"
    and "\<forall>f \<in> set (files c'). file_wf f \<and> f_origin f = origin \<and> file_dir f = Inr dir"
  defines "d' \<equiv> d\<lparr>chains := AList.update origin c' (chains d)\<rparr>"
  shows "directory_ok dir d'" "directory_files d' = set (files c') \<union> {f \<in> directory_files d. f_origin f \<noteq> origin}"
proof -
  have d: "distinct (map fst (chains d))" using assms(1) by (simp add: directory_ok_def)
  show "directory_ok dir d'"
    using assms by (auto simp: directory_ok_def set_alist_update distinct_update)
  show "directory_files d' = set (files c') \<union> {f \<in> directory_files d. f_origin f \<noteq> origin}"
    using assms(1) by (fastforce simp: directory_files_def d'_def set_alist_update [OF d] directory_ok_def)
qed

lemma directory_delete:
  fixes origin :: Origin
  assumes "directory_ok dir d"
  defines "d' \<equiv> d\<lparr>chains := AList.delete origin (chains d)\<rparr>"
  shows "directory_ok dir d'" "directory_files d' = {f \<in> directory_files d. f_origin f \<noteq> origin}"
proof -
  show "directory_ok dir d'"
    using assms by (auto simp: directory_ok_def set_alist_delete distinct_delete)
  show "directory_files d' = {f \<in> directory_files d. f_origin f \<noteq> origin}"
    using assms(1) by (fastforce simp: directory_files_def d'_def set_alist_delete directory_ok_def)
qed

lemma repository_update:
  assumes "repository_ok r" "directory_ok dir d'" "chains d' \<noteq> []"
  defines "r' \<equiv> r\<lparr>directories := AList.update dir d' (directories r)\<rparr>"
  shows "repository_ok r'" "repository_files r' = directory_files d' \<union> {f \<in> repository_files r. file_dir f \<noteq> Inr dir}"
proof -
  have d: "distinct (map fst (directories r))" using assms(1) by (simp add: repository_ok_def)
  show "repository_ok r'"
    using assms by (auto simp: repository_ok_def set_alist_update distinct_update)
  have "file_dir f = Inr k" if "(k, v) \<in> set (directories r)" "f \<in> directory_files v" for k v f
    using assms(1) that directory_ok_files by (fastforce simp: repository_ok_def)
  then show "repository_files r' = directory_files d' \<union> {f \<in> repository_files r. file_dir f \<noteq> Inr dir}"
    by (fastforce simp: repository_files_def r'_def set_alist_update [OF d])
qed

lemma repository_remove_directory_ok:
  assumes "repository_ok r"
  shows "repository_ok (repository_remove_directory dir r)"
    "repository_files (repository_remove_directory dir r) = {f \<in> repository_files r. file_dir f \<noteq> Inr dir}"
proof -
  show "repository_ok (repository_remove_directory dir r)"
    using assms by (auto simp: repository_ok_def repository_remove_directory_def set_alist_delete distinct_delete)
  have "file_dir f = Inr k" if "(k, v) \<in> set (directories r)" "f \<in> directory_files v" for k v f
    using assms that directory_ok_files by (fastforce simp: repository_ok_def)
  then show "repository_files (repository_remove_directory dir r) = {f \<in> repository_files r. file_dir f \<noteq> Inr dir}"
    by (fastforce simp: repository_files_def repository_remove_directory_def set_alist_delete)
qed

text \<open>Looking a file's chain up finds the files of its directory and origin.\<close>

lemma directory_lookup:
  assumes "repository_ok r"
  shows "map_of (directories r) dir = Some d \<Longrightarrow> directory_ok dir d \<and> chains d \<noteq> [] \<and> directory_files d = {f \<in> repository_files r. file_dir f = Inr dir}"
    and "map_of (directories r) dir = None \<Longrightarrow> {f \<in> repository_files r. file_dir f = Inr dir} = {}"
proof -
  have dist: "distinct (map fst (directories r))" using assms by (simp add: repository_ok_def)
  have ok: "directory_ok k v \<and> chains v \<noteq> []" if "(k, v) \<in> set (directories r)" for k v
    using assms that by (auto simp: repository_ok_def)
  have dir: "file_dir f = Inr k" if "(k, v) \<in> set (directories r)" "f \<in> directory_files v" for k v f
    using ok that directory_ok_files by blast
  show "directory_ok dir d \<and> chains d \<noteq> [] \<and> directory_files d = {f \<in> repository_files r. file_dir f = Inr dir}"
    if "map_of (directories r) dir = Some d"
  proof -
    have m: "(dir, d) \<in> set (directories r)" using that by (rule map_of_SomeD)
    have one: "v = d" if "(dir, v) \<in> set (directories r)" for v by (rule eq_key_imp_eq_value [OF dist that m])
    have "f \<in> directory_files d \<longleftrightarrow> f \<in> repository_files r \<and> file_dir f = Inr dir" for f
      unfolding repository_files_iff using m dir one by (metis sum.inject(2))
    then have "directory_files d = {f \<in> repository_files r. file_dir f = Inr dir}" by blast
    then show ?thesis using ok [OF m] by blast
  qed
  show "{f \<in> repository_files r. file_dir f = Inr dir} = {}" if "map_of (directories r) dir = None"
  proof -
    have none: "(dir, v) \<notin> set (directories r)" for v using that by (force simp: map_of_eq_None_iff)
    have "\<not> (f \<in> repository_files r \<and> file_dir f = Inr dir)" for f
      unfolding repository_files_iff using dir none by (metis sum.inject(2))
    then show ?thesis by blast
  qed
qed

lemma chain_lookup:
  assumes "directory_ok dir d"
  shows "map_of (chains d) origin = Some c \<Longrightarrow> (origin, c) \<in> set (chains d) \<and> set (files c) = {f \<in> directory_files d. f_origin f = origin}"
    and "map_of (chains d) origin = None \<Longrightarrow> {f \<in> directory_files d. f_origin f = origin} = {}"
proof -
  have dist: "distinct (map fst (chains d))" using assms by (simp add: directory_ok_def)
  have orig: "f_origin f = k" if "(k, v) \<in> set (chains d)" "f \<in> set (files v)" for k v f
    using assms that by (fastforce simp: directory_ok_def)
  show "(origin, c) \<in> set (chains d) \<and> set (files c) = {f \<in> directory_files d. f_origin f = origin}"
    if "map_of (chains d) origin = Some c"
  proof -
    have m: "(origin, c) \<in> set (chains d)" using that by (rule map_of_SomeD)
    have one: "v = c" if "(origin, v) \<in> set (chains d)" for v by (rule eq_key_imp_eq_value [OF dist that m])
    have "f \<in> set (files c) \<longleftrightarrow> f \<in> directory_files d \<and> f_origin f = origin" for f
      unfolding directory_files_iff using m orig one by metis
    then have "set (files c) = {f \<in> directory_files d. f_origin f = origin}" by blast
    then show ?thesis using m by blast
  qed
  show "{f \<in> directory_files d. f_origin f = origin} = {}" if "map_of (chains d) origin = None"
  proof -
    have none: "(origin, v) \<notin> set (chains d)" for v using that by (force simp: map_of_eq_None_iff)
    have "\<not> (f \<in> directory_files d \<and> f_origin f = origin)" for f
      unfolding directory_files_iff using orig none by metis
    then show ?thesis by blast
  qed
qed

lemma placed_chain:
  assumes "directory_ok dir d" "file_wf file" "file_dir file = Inr dir"
    and "c = (case map_of (chains d) (f_origin file) of Some c \<Rightarrow> c | None \<Rightarrow> chain_default)"
  defines "d' \<equiv> d\<lparr>chains := AList.update (f_origin file) (insert_file file c) (chains d)\<rparr>"
  shows "directory_ok dir d' \<and> chains d' \<noteq> [] \<and> directory_files d' = insert file (directory_files d)"
proof -
  have c: "chain_ok c \<and> inj_on file_key (insert file (set (files c))) \<and> set (files c) = {f \<in> directory_files d. f_origin f = f_origin file}"
  proof (cases "map_of (chains d) (f_origin file)")
    case None
    then show ?thesis
      using assms(4) chain_lookup(2) [OF assms(1) None] by (simp add: chain_default_def chain_ok_def)
  next
    case (Some c')
    then have m: "(f_origin file, c) \<in> set (chains d)" and "set (files c) = {f \<in> directory_files d. f_origin f = f_origin file}"
      using assms(4) chain_lookup(1) [OF assms(1)] by auto
    moreover have "chain_ok c" using assms(1) m by (auto simp: directory_ok_def)
    ultimately show ?thesis using chain_identified [OF assms(1) m assms(2)] by blast
  qed
  then have ins: "chain_ok (insert_file file c)" "set (files (insert_file file c)) = insert file (set (files c))"
    using chain.inserted by blast+
  have "\<forall>f \<in> set (files (insert_file file c)). file_wf f \<and> f_origin f = f_origin file \<and> file_dir f = Inr dir"
    using c ins(2) assms(2,3) directory_ok_files [OF assms(1)] by auto
  moreover have "files (insert_file file c) \<noteq> []" using ins(2) by auto
  ultimately have "directory_ok dir d' \<and> directory_files d' = set (files (insert_file file c)) \<union> {f \<in> directory_files d. f_origin f \<noteq> f_origin file}"
    unfolding d'_def using directory_update [OF assms(1) ins(1)] by blast
  then show ?thesis using ins(2) c by (auto simp: d'_def)
qed

lemma repository_insert_eq:
  assumes "file_dir file = Inr dir"
  shows "repository_insert file r =
    (let d = (case map_of (directories r) dir of Some d \<Rightarrow> d | None \<Rightarrow> \<lparr>chains = []\<rparr>);
         c = (case map_of (chains d) (f_origin file) of Some c \<Rightarrow> c | None \<Rightarrow> chain_default)
     in (Inr (), r\<lparr>directories := AList.update dir (d\<lparr>chains := AList.update (f_origin file) (insert_file file c) (chains d)\<rparr>) (directories r)\<rparr>))"
  using assms by (simp add: repository_insert_def Let_def split: option.splits)

lemma repository_insert_ok:
  assumes "repository_ok r" "file_wf file" "file_dir file = Inr dir"
  shows "fst (repository_insert file r) = Inr ()" "repository_ok (snd (repository_insert file r))"
    "repository_files (snd (repository_insert file r)) = insert file (repository_files r)"
proof -
  let ?d = "case map_of (directories r) dir of Some d \<Rightarrow> d | None \<Rightarrow> \<lparr>chains = []\<rparr>"
  let ?c = "case map_of (chains ?d) (f_origin file) of Some c \<Rightarrow> c | None \<Rightarrow> chain_default"
  let ?d' = "?d\<lparr>chains := AList.update (f_origin file) (insert_file file ?c) (chains ?d)\<rparr>"
  have d: "directory_ok dir ?d \<and> directory_files ?d = {f \<in> repository_files r. file_dir f = Inr dir}"
  proof (cases "map_of (directories r) dir")
    case None
    then show ?thesis using directory_lookup(2) [OF assms(1)] by (simp add: directory_ok_def directory_files_def)
  next
    case (Some d)
    then show ?thesis using directory_lookup(1) [OF assms(1)] by simp
  qed
  then have "directory_ok dir ?d' \<and> chains ?d' \<noteq> [] \<and> directory_files ?d' = insert file (directory_files ?d)"
    using assms(2,3) by (intro placed_chain) auto
  then have "repository_ok (snd (repository_insert file r)) \<and>
    repository_files (snd (repository_insert file r)) = directory_files ?d' \<union> {f \<in> repository_files r. file_dir f \<noteq> Inr dir}"
    using repository_update [OF assms(1), of dir ?d'] by (simp add: repository_insert_eq [OF assms(3)] Let_def)
  with d \<open>directory_ok dir ?d' \<and> _\<close> show "repository_ok (snd (repository_insert file r))"
    "repository_files (snd (repository_insert file r)) = insert file (repository_files r)" by auto
  show "fst (repository_insert file r) = Inr ()" by (simp add: repository_insert_eq [OF assms(3)] Let_def)
qed

lemma repository_insert_error: "file_dir file = Inl e \<Longrightarrow> repository_insert file r = (Inl e, r)"
  by (simp add: repository_insert_def)

lemma repository_remove_error: "file_dir file = Inl e \<Longrightarrow> repository_remove file r = (Inl e, r)"
  by (simp add: repository_remove_def)

text \<open>The directory that is left when a file's chain is replaced, or dropped once it is empty.\<close>

lemma emptied_directory:
  assumes "directory_ok dir d" "map_of (chains d) (f_origin file) = Some c"
  defines "c' \<equiv> remove_file file c"
  defines "d1 \<equiv> d\<lparr>chains := AList.update (f_origin file) c' (chains d)\<rparr>"
  defines "d' \<equiv> (if chain_is_empty c' then d1\<lparr>chains := AList.delete (f_origin file) (chains d1)\<rparr> else d1)"
  shows "directory_ok dir d' \<and> directory_files d' = directory_files d - {file}"
proof -
  have m: "(f_origin file, c) \<in> set (chains d)" and fs: "set (files c) = {f \<in> directory_files d. f_origin f = f_origin file}"
    using chain_lookup(1) [OF assms(1,2)] by auto
  then have ok: "chain_ok c" using assms(1) by (auto simp: directory_ok_def)
  then have c': "chain_ok c'" "set (files c') = set (files c) - {file}" unfolding c'_def using chain.removed by blast+
  show ?thesis
  proof (cases "files c' = []")
    case True
    have "d' = d\<lparr>chains := AList.delete (f_origin file) (chains d)\<rparr>"
      using True by (simp add: d'_def d1_def chain_is_empty_def AList.delete_update_same)
    moreover have "{f \<in> directory_files d. f_origin f \<noteq> f_origin file} = directory_files d - {file}"
      using True c'(2) fs by auto
    ultimately show ?thesis using directory_delete [OF assms(1)] by simp
  next
    case False
    have "\<forall>f \<in> set (files c'). file_wf f \<and> f_origin f = f_origin file \<and> file_dir f = Inr dir"
      using c'(2) fs directory_ok_files [OF assms(1)] by auto
    then have "directory_ok dir d1" "directory_files d1 = set (files c') \<union> {f \<in> directory_files d. f_origin f \<noteq> f_origin file}"
      unfolding d1_def using directory_update [OF assms(1) c'(1) False] by blast+
    then show ?thesis using False c'(2) fs by (auto simp: d'_def chain_is_empty_def)
  qed
qed

lemma repository_remove_ok:
  assumes "repository_ok r" "file_dir file = Inr dir"
  shows "fst (repository_remove file r) = Inr ()" "repository_ok (snd (repository_remove file r))"
    "repository_files (snd (repository_remove file r)) = repository_files r - {file}"
proof -
  have gone: "file \<notin> repository_files r \<Longrightarrow> repository_files r - {file} = repository_files r" by blast
  have "fst (repository_remove file r) = Inr () \<and> repository_ok (snd (repository_remove file r)) \<and>
    repository_files (snd (repository_remove file r)) = repository_files r - {file}"
  proof (cases "map_of (directories r) dir")
    case None
    then have "file \<notin> repository_files r" using directory_lookup(2) [OF assms(1) None] assms(2) by auto
    then show ?thesis using None assms gone by (simp add: repository_remove_def)
  next
    case (Some d)
    have d: "directory_ok dir d" "chains d \<noteq> []" "directory_files d = {f \<in> repository_files r. file_dir f = Inr dir}"
      using directory_lookup(1) [OF assms(1) Some] by auto
    define d' where "d' = (case map_of (chains d) (f_origin file) of
        None \<Rightarrow> d
      | Some c \<Rightarrow> (let c' = remove_file file c; d1 = d\<lparr>chains := AList.update (f_origin file) c' (chains d)\<rparr>
                  in if chain_is_empty c' then d1\<lparr>chains := AList.delete (f_origin file) (chains d1)\<rparr> else d1))"
    have d': "directory_ok dir d' \<and> directory_files d' = directory_files d - {file}"
    proof (cases "map_of (chains d) (f_origin file)")
      case None
      then show ?thesis using chain_lookup(2) [OF d(1) None] d(1) by (auto simp: d'_def)
    next
      case (Some c)
      then show ?thesis using emptied_directory [OF d(1) Some] by (simp add: d'_def Let_def)
    qed
    have r': "snd (repository_remove file r) =
        (let r1 = r\<lparr>directories := AList.update dir d' (directories r)\<rparr>
         in if chains d' = [] then r1\<lparr>directories := AList.delete dir (directories r1)\<rparr> else r1)"
      "fst (repository_remove file r) = Inr ()"
      using Some assms(2) by (simp_all add: repository_remove_def d'_def Let_def split: option.splits)
    show ?thesis
    proof (cases "chains d' = []")
      case True
      then have "directory_files d' = {}" by (simp add: directory_files_def)
      then have "{f \<in> repository_files r. file_dir f \<noteq> Inr dir} = repository_files r - {file}" using d' d(3) assms(2) by auto
      moreover have "snd (repository_remove file r) = repository_remove_directory dir r"
        using True by (simp add: r' Let_def repository_remove_directory_def AList.delete_update_same)
      ultimately show ?thesis using repository_remove_directory_ok [OF assms(1)] r'(2) by simp
    next
      case False
      then show ?thesis
        using d' d(3) assms(2) r'(2) repository_update [OF assms(1), of dir d'] by (auto simp: r'(1) Let_def)
    qed
  qed
  then show "fst (repository_remove file r) = Inr ()" "repository_ok (snd (repository_remove file r))"
    "repository_files (snd (repository_remove file r)) = repository_files r - {file}" by blast+
qed

section \<open>The registry as a set of files with time ranges\<close>

record AbstractRegistry =
  a_files :: "File set"
  a_watched :: "string set"
  a_range :: "File \<Rightarrow> TimeRange"

definition registry_abs :: "Registry \<Rightarrow> AbstractRegistry" where
  "registry_abs g =
     \<lparr>a_files = repository_files (base (repository g)), a_watched = watched_directories g,
      a_range = (\<lambda>f. info_time_range (tracked_info (repository g) f))\<rparr>"

definition registry_ok :: "Registry \<Rightarrow> bool" where
  "registry_ok g \<longleftrightarrow>
     repository_ok (base (repository g)) \<and> distinct (map fst (file_metadata (repository g))) \<and>
     (\<forall>(f, info) \<in> set (file_metadata (repository g)). info_file info = f)"

definition a_add :: "File \<Rightarrow> AbstractRegistry \<Rightarrow> AbstractRegistry" where
  "a_add f A =
     (case file_dir f of
        Inl _ \<Rightarrow> A
      | Inr _ \<Rightarrow> A\<lparr>a_files := insert f (a_files A), a_range := (a_range A)(f := UnknownRange)\<rparr>)"

definition a_drop :: "File \<Rightarrow> AbstractRegistry \<Rightarrow> AbstractRegistry" where
  "a_drop f A =
     (case file_dir f of
        Inl _ \<Rightarrow> A
      | Inr _ \<Rightarrow> A\<lparr>a_files := a_files A - {f}, a_range := (a_range A)(f := UnknownRange)\<rparr>)"

lemma tracked_metadata:
  assumes "registry_ok g"
  shows "map_of (file_metadata (repository g)) f = Some info \<Longrightarrow> info_file info = f"
  using assms map_of_SomeD unfolding registry_ok_def by fastforce

lemma registry_insert_refines:
  assumes "registry_ok g" "file_wf f"
  shows "registry_ok (registry_insert f g) \<and> registry_abs (registry_insert f g) = a_add f (registry_abs g)"
proof (cases "file_dir f")
  case (Inl e)
  then show ?thesis using assms(1)
    by (simp add: registry_insert_def tracked_insert_def repository_insert_error a_add_def)
next
  case (Inr dir)
  let ?ins = "repository_insert f (base (repository g))"
  have ok: "repository_ok (base (repository g))" using assms(1) by (simp add: registry_ok_def)
  note ins = repository_insert_ok [OF ok assms(2) Inr]
  have eq: "registry_insert f g = g\<lparr>repository := (repository g)\<lparr>base := snd ?ins,
      file_metadata := AList.update f \<lparr>info_file = f, info_time_range = UnknownRange\<rparr> (file_metadata (repository g))\<rparr>\<rparr>"
    using ins(1) by (auto simp: registry_insert_def tracked_insert_def Let_def split: prod.splits sum.splits)
  show ?thesis
    using assms(1) ins(2,3) Inr
    by (auto simp: eq registry_ok_def registry_abs_def a_add_def tracked_info_def distinct_update set_alist_update AList.update_conv' fun_eq_iff)
qed

lemma registry_remove_refines:
  assumes "registry_ok g"
  shows "registry_ok (registry_remove f g) \<and> registry_abs (registry_remove f g) = a_drop f (registry_abs g)"
proof (cases "file_dir f")
  case (Inl e)
  then show ?thesis using assms(1)
    by (simp add: registry_remove_def tracked_remove_def repository_remove_error a_drop_def)
next
  case (Inr dir)
  let ?rem = "repository_remove f (base (repository g))"
  have ok: "repository_ok (base (repository g))" using assms(1) by (simp add: registry_ok_def)
  note rem = repository_remove_ok [OF ok Inr]
  have eq: "registry_remove f g = g\<lparr>repository := (repository g)\<lparr>base := snd ?rem,
      file_metadata := AList.delete f (file_metadata (repository g))\<rparr>\<rparr>"
    using rem(1) by (auto simp: registry_remove_def tracked_remove_def Let_def split: prod.splits sum.splits)
  show ?thesis
    using assms(1) rem(2,3) Inr
    by (auto simp: eq registry_ok_def registry_abs_def a_drop_def tracked_info_def distinct_delete set_alist_delete AList.delete_conv' fun_eq_iff)
qed

text \<open>What clients and the watcher do, with the directory walk and the watcher's outcome.\<close>

datatype command =
    Watch string "(RepositoryError + string \<times> bool) list" "RegistryError + unit"
  | Unwatch string "RegistryError + unit"
  | FsEvent EventKind "string list"
  | Indexed File u32 u32 u32 bool

fun registry_exec :: "(string \<Rightarrow> Uuid option) \<Rightarrow> command \<Rightarrow> Registry \<Rightarrow> Registry" where
  "registry_exec tp (Watch path entries outcome) g = snd (watch_directory tp (\<lambda>_. entries) outcome path g)"
| "registry_exec tp (Unwatch path outcome) g = snd (unwatch_directory outcome path g)"
| "registry_exec tp (FsEvent kind paths) g = snd (process_event tp kind paths g)"
| "registry_exec tp (Indexed file start_time end_time indexed_at online) g = update_time_range file start_time end_time indexed_at online g"

definition a_path :: "(string \<Rightarrow> Uuid option) \<Rightarrow> (File \<Rightarrow> AbstractRegistry \<Rightarrow> AbstractRegistry) \<Rightarrow> string \<Rightarrow> AbstractRegistry \<Rightarrow> AbstractRegistry" where
  "a_path tp change path A = (case file_from_path tp path of None \<Rightarrow> A | Some f \<Rightarrow> change f A)"

fun a_exec :: "(string \<Rightarrow> Uuid option) \<Rightarrow> command \<Rightarrow> AbstractRegistry \<Rightarrow> AbstractRegistry" where
  "a_exec tp (Watch path entries outcome) A =
     (if path \<in> a_watched A \<or> outcome \<noteq> Inr () then A
      else (case scan_journal_files tp entries of
              Inl _ \<Rightarrow> A
            | Inr fs \<Rightarrow> fold a_add fs (A\<lparr>a_watched := insert path (a_watched A)\<rparr>)))"
| "a_exec tp (Unwatch path outcome) A =
     (if path \<in> a_watched A \<and> outcome = Inr ()
      then A\<lparr>a_files := {f \<in> a_files A. file_dir f \<noteq> Inr path}, a_watched := a_watched A - {path},
             a_range := (\<lambda>f. if file_dir f = Inr path then UnknownRange else a_range A f)\<rparr>
      else A)"
| "a_exec tp (FsEvent kind paths) A =
     (case kind of
        CreateEvent \<Rightarrow> fold (a_path tp a_add) paths A
      | RemoveEvent \<Rightarrow> fold (a_path tp a_drop) paths A
      | RenameBoth \<Rightarrow> (case paths of old # new # _ \<Rightarrow> a_path tp a_add new (a_path tp a_drop old A) | _ \<Rightarrow> A)
      | _ \<Rightarrow> A)"
| "a_exec tp (Indexed file start_time end_time indexed_at online) A =
     A\<lparr>a_range := (a_range A)(file := if online then ActiveRange start_time end_time indexed_at else BoundedRange start_time end_time indexed_at)\<rparr>"

lemma fold_refines:
  assumes "registry_ok g" "P xs" and "\<And>x xs. P (x # xs) \<Longrightarrow> P xs"
    and "\<And>x xs g. registry_ok g \<Longrightarrow> P (x # xs) \<Longrightarrow> registry_ok (f x g) \<and> registry_abs (f x g) = h x (registry_abs g)"
  shows "registry_ok (fold f xs g) \<and> registry_abs (fold f xs g) = fold h xs (registry_abs g)"
  using assms(1,2)
proof (induction xs arbitrary: g)
  case (Cons x xs)
  then show ?case using assms(3,4) by (metis fold_simps(2))
qed simp

lemma scanned_wf: "scan_journal_files tp entries = Inr fs \<Longrightarrow> f \<in> set fs \<Longrightarrow> file_wf f"
  by (induction tp entries arbitrary: fs rule: scan_journal_files.induct)
    (auto split: sum.splits option.splits if_splits dest: file_from_path_wf)

lemma event_paths_refine:
  assumes "registry_ok g"
  shows "registry_ok (insert_event_path tp path g) \<and> registry_abs (insert_event_path tp path g) = a_path tp a_add path (registry_abs g)"
    and "registry_ok (remove_event_path tp path g) \<and> registry_abs (remove_event_path tp path g) = a_path tp a_drop path (registry_abs g)"
  using assms registry_insert_refines registry_remove_refines
  by (auto simp: insert_event_path_def remove_event_path_def a_path_def split: option.splits dest: file_from_path_wf)

lemma watch_refines:
  assumes "registry_ok g"
  shows "registry_ok (registry_exec tp (Watch path entries outcome) g) \<and>
    registry_abs (registry_exec tp (Watch path entries outcome) g) = a_exec tp (Watch path entries outcome) (registry_abs g)"
proof -
  let ?g = "g\<lparr>watched_directories := insert path (watched_directories g)\<rparr>"
  have g: "registry_ok ?g" "registry_abs ?g = (registry_abs g)\<lparr>a_watched := insert path (a_watched (registry_abs g))\<rparr>"
    using assms by (simp_all add: registry_ok_def registry_abs_def)
  have "registry_ok (fold registry_insert fs ?g) \<and> registry_abs (fold registry_insert fs ?g) = fold a_add fs (registry_abs ?g)"
    if "\<forall>f \<in> set fs. file_wf f" for fs
    using g(1) that by (intro fold_refines [where P = "\<lambda>fs. \<forall>f \<in> set fs. file_wf f"]) (auto simp: registry_insert_refines)
  then show ?thesis
    using assms g(2) scanned_wf [of tp entries]
    by (auto simp: watch_directory_def registry_abs_def split: sum.splits)
qed

lemma unwatch_refines:
  assumes "registry_ok g"
  shows "registry_ok (registry_exec tp (Unwatch path outcome) g) \<and>
    registry_abs (registry_exec tp (Unwatch path outcome) g) = a_exec tp (Unwatch path outcome) (registry_abs g)"
proof -
  let ?keep = "\<lambda>(f, _). case file_dir f of Inl _ \<Rightarrow> True | Inr dir \<Rightarrow> dir \<noteq> path"
  have look: "map_of (filter ?keep al) f = (if file_dir f = Inr path then None else map_of al f)" for al :: "(File \<times> FileInfo) list" and f
    by (induction al) (auto split: sum.splits)
  show ?thesis
    using assms repository_remove_directory_ok [of "base (repository g)" path]
    by (auto simp: unwatch_directory_def tracked_remove_directory_def registry_ok_def registry_abs_def tracked_info_def look
        fun_eq_iff distinct_map_filter split: sum.splits)
qed

lemma exec_refines:
  assumes "registry_ok g"
  shows "registry_ok (registry_exec tp cmd g) \<and> registry_abs (registry_exec tp cmd g) = a_exec tp cmd (registry_abs g)"
proof (cases cmd)
  case (Watch path entries outcome)
  then show ?thesis using watch_refines [OF assms] by simp
next
  case (Unwatch path outcome)
  then show ?thesis using unwatch_refines [OF assms] by simp
next
  case (FsEvent kind paths)
  have "registry_ok (fold (insert_event_path tp) paths g) \<and> registry_abs (fold (insert_event_path tp) paths g) = fold (a_path tp a_add) paths (registry_abs g)"
    by (rule fold_refines [where P = "\<lambda>_. True"]) (simp_all add: assms event_paths_refine)
  moreover have "registry_ok (fold (remove_event_path tp) paths g) \<and> registry_abs (fold (remove_event_path tp) paths g) = fold (a_path tp a_drop) paths (registry_abs g)"
    by (rule fold_refines [where P = "\<lambda>_. True"]) (simp_all add: assms event_paths_refine)
  ultimately show ?thesis
    using assms event_paths_refine
    by (auto simp: FsEvent process_event_def process_rename_event_def split: EventKind.splits list.splits)
next
  case (Indexed f s e i online)
  then show ?thesis
    using assms
    by (auto simp: update_time_range_def update_file_info_def registry_ok_def registry_abs_def tracked_info_def Let_def
        distinct_update set_alist_update AList.update_conv' fun_eq_iff)
qed

definition a_empty :: AbstractRegistry where
  "a_empty = \<lparr>a_files = {}, a_watched = {}, a_range = (\<lambda>_. UnknownRange)\<rparr>"

lemma run_refines:
  "registry_ok (fold (registry_exec tp) cmds registry_new) \<and>
    registry_abs (fold (registry_exec tp) cmds registry_new) = fold (a_exec tp) cmds a_empty"
proof -
  have "registry_ok registry_new" "registry_abs registry_new = a_empty"
    by (auto simp: registry_new_def tracked_new_def repository_default_def registry_ok_def repository_ok_def registry_abs_def
        repository_files_def tracked_info_def a_empty_def)
  then show ?thesis using fold_refines [where P = "\<lambda>_. True" and f = "registry_exec tp" and h = "a_exec tp"] exec_refines by metis
qed

text \<open>
  C17. The registry refines a set of files: after any sequence of watched and unwatched directories, file
  system events and index results, the chains are sorted, no chain or directory is empty, every file is filed
  under its own directory and origin, and the files and time ranges are those that the same steps give on plain
  sets.  A file whose directory cannot be named changes nothing, nor does a failed watch.
\<close>

theorem registry_refines_sets:
  "registry_ok (fold (registry_exec tp) cmds registry_new) \<and>
    registry_abs (fold (registry_exec tp) cmds registry_new) = fold (a_exec tp) cmds a_empty"
  by (rule run_refines)

section \<open>Queries\<close>

definition head_realtime :: "File \<Rightarrow> u64" where
  "head_realtime f = (case f_status f of Archived _ _ h \<Rightarrow> h | _ \<Rightarrow> 0)"

text \<open>
  When a file of a chain belongs to a range, without the chain's order: an archived file begins before the end
  of the range and no later archived file begins at or before its start; the active file belongs to it unless an
  archived one begins after it.
\<close>

definition in_range :: "File set \<Rightarrow> u64 \<Rightarrow> u64 \<Rightarrow> File \<Rightarrow> bool" where
  "in_range S start stop f \<longleftrightarrow>
     f \<in> S \<and>
     (case f_status f of
        Disposed _ _ \<Rightarrow> False
      | Archived _ _ h \<Rightarrow> h < stop \<and> (\<forall>g \<in> S. is_archived g \<and> file_key f < file_key g \<longrightarrow> start < head_realtime g)
      | Active \<Rightarrow> \<forall>g \<in> S. is_archived g \<longrightarrow> head_realtime g < stop)"

lemma next_tail_later:
  assumes "sorted_wrt (\<lambda>f g. file_key f < file_key g) (f # fs)" "is_archived f" "start < u64_max"
  shows "start < next_file_tail_realtime (peek fs) \<longleftrightarrow> (\<forall>g \<in> set fs. is_archived g \<longrightarrow> start < head_realtime g)"
proof (cases fs)
  case (Cons g gs)
  have rank: "status_rank f \<le> status_rank g" "\<forall>k \<in> set gs. status_rank g \<le> status_rank k"
    using assms(1) Cons status_rank_mono by auto
  show ?thesis
  proof (cases "f_status g")
    case Active
    then have "\<forall>k \<in> set fs. \<not> is_archived k"
      using rank(2) Cons by (auto simp: status_rank_def is_archived_def split: Status.splits)
    then show ?thesis using Active Cons assms(3) by (simp add: peek_def next_file_tail_realtime_def)
  next
    case (Archived uuid seqnum h)
    have "\<forall>k \<in> set gs. is_archived k \<longrightarrow> h \<le> head_realtime k"
      using rank(2) Archived by (auto simp: status_rank_def is_archived_def head_realtime_def word_le_nat_alt split: Status.splits)
    then show ?thesis
      using Archived Cons by (auto simp: peek_def next_file_tail_realtime_def is_archived_def head_realtime_def intro: less_le_trans)
  next
    case (Disposed t n)
    then show ?thesis using rank(1) assms(2) by (auto simp: status_rank_def is_archived_def split: Status.splits)
  qed
qed (simp add: peek_def next_file_tail_realtime_def assms(3))

lemma overlapping_in_range:
  assumes "sorted_wrt (\<lambda>f g. file_key f < file_key g) fs" "ranked fs" "start < u64_max" "0 < stop"
    and "case prev of None \<Rightarrow> True | Some h \<Rightarrow> \<forall>g \<in> set fs. is_archived g \<longrightarrow> h \<le> head_realtime g"
  shows "f \<in> set (overlapping start stop (spans prev fs)) \<longleftrightarrow>
    in_range (set fs) start stop f \<and> (f_status f = Active \<longrightarrow> (case prev of None \<Rightarrow> True | Some h \<Rightarrow> h < stop))"
  using assms
proof (induction fs arbitrary: prev)
  case Nil
  then show ?case by (simp add: in_range_def)
next
  case (Cons f0 fs)
  have sorted: "sorted_wrt (\<lambda>f g. file_key f < file_key g) fs" "\<forall>g \<in> set fs. file_key f0 < file_key g"
    using Cons.prems(1) by auto
  note ranked = ranked_Cons [OF Cons.prems(2)]
  note IH = Cons.IH [OF sorted(1) ranked(1) Cons.prems(3,4)]
  show ?case
  proof (cases "f_status f0")
    case Active
    then show ?thesis
      using ranked(3) Cons.prems(3,4)
      by (auto simp: is_active_def range_overlaps_def in_range_def is_archived_def split: option.splits)
  next
    case (Disposed t n)
    have prev: "case prev of None \<Rightarrow> True | Some h \<Rightarrow> \<forall>g \<in> set fs. is_archived g \<longrightarrow> h \<le> head_realtime g"
      using Cons.prems(5) by (auto split: option.splits)
    have "in_range (set (f0 # fs)) start stop f \<longleftrightarrow> in_range (set fs) start stop f"
      using Disposed by (auto simp: in_range_def is_archived_def split: Status.splits)
    then show ?thesis using IH [OF prev] Disposed by simp
  next
    case (Archived uuid seqnum h)
    have "\<forall>g \<in> set fs. is_archived g \<longrightarrow> h \<le> head_realtime g"
      using ranked(2) Archived by (fastforce simp: status_rank_def is_archived_def head_realtime_def word_le_nat_alt split: Status.splits)
    then have rest: "f \<in> set (overlapping start stop (spans (Some h) fs)) \<longleftrightarrow>
        in_range (set fs) start stop f \<and> (f_status f = Active \<longrightarrow> h < stop)"
      using IH [of "Some h"] by simp
    have f0: "is_archived f0" "head_realtime f0 = h" using Archived by (simp_all add: is_archived_def head_realtime_def)
    have first: "range_overlaps h (next_file_tail_realtime (peek fs)) start stop \<longleftrightarrow> in_range (set (f0 # fs)) start stop f0"
      using next_tail_later [OF Cons.prems(1) f0(1) Cons.prems(3)] sorted(2) Archived
      by (auto simp: range_overlaps_def in_range_def)
    have later: "in_range (set (f0 # fs)) start stop f \<longleftrightarrow> in_range (set fs) start stop f \<and> (f_status f = Active \<longrightarrow> h < stop)" if "f \<noteq> f0"
      using that sorted(2) f0 by (auto simp: in_range_def split: Status.splits dest: order_less_asym)
    have "(case prev of None \<Rightarrow> True | Some h' \<Rightarrow> h' \<le> h)" using Cons.prems(5) f0 by (auto split: option.splits)
    moreover have "f_status f = Active \<Longrightarrow> in_range (set (f0 # fs)) start stop f \<Longrightarrow> h < stop" using f0 by (auto simp: in_range_def)
    moreover have "f0 \<notin> set fs" using sorted(2) by auto
    ultimately show ?thesis
      using rest first later Archived by (cases "f = f0") (auto simp: in_range_def split: option.splits)
  qed
qed

definition same_chain :: "File \<Rightarrow> File \<Rightarrow> bool" where
  "same_chain f g \<longleftrightarrow> file_dir f = file_dir g \<and> f_origin f = f_origin g"

definition single_active :: "File set \<Rightarrow> bool" where
  "single_active S \<longleftrightarrow> (\<forall>f \<in> S. \<forall>g \<in> S. is_active f \<and> is_active g \<and> same_chain f g \<longrightarrow> f = g)"

lemma length_le_one: "distinct xs \<Longrightarrow> \<forall>x \<in> set xs. \<forall>y \<in> set xs. x = y \<Longrightarrow> length xs \<le> 1"
  by (metis One_nat_def List.finite_set card_le_Suc0_iff_eq distinct_card)

lemma repository_chain:
  assumes "repository_ok r" "(dir, d) \<in> set (directories r)" "(origin, c) \<in> set (chains d)"
  shows "chain_ok c" "set (files c) = {g \<in> repository_files r. file_dir g = Inr dir \<and> f_origin g = origin}"
proof -
  have look: "map_of (directories r) dir = Some d" using assms(1,2) by (simp add: repository_ok_def)
  have d: "directory_ok dir d" "directory_files d = {g \<in> repository_files r. file_dir g = Inr dir}"
    using directory_lookup(1) [OF assms(1) look] by blast+
  have "map_of (chains d) origin = Some c" using d(1) assms(3) by (simp add: directory_ok_def)
  then have c: "set (files c) = {g \<in> directory_files d. f_origin g = origin}" using chain_lookup(1) [OF d(1)] by blast
  show "chain_ok c" using d(1) assms(3) by (auto simp: directory_ok_def)
  show "set (files c) = {g \<in> repository_files r. file_dir g = Inr dir \<and> f_origin g = origin}" by (auto simp: c d(2))
qed

lemma repository_chain_single_active:
  assumes "repository_ok r" "single_active (repository_files r)" "(dir, d) \<in> set (directories r)" "(origin, c) \<in> set (chains d)"
  shows "length (filter is_active (files c)) \<le> 1"
proof (rule length_le_one)
  show "distinct (filter is_active (files c))" using repository_chain(1) [OF assms(1,3,4)] chain_ok_distinct by simp
  show "\<forall>x \<in> set (filter is_active (files c)). \<forall>y \<in> set (filter is_active (files c)). x = y"
    using assms(2) repository_chain(2) [OF assms(1,3,4)] by (simp add: single_active_def same_chain_def)
qed

lemma seconds_bounds:
  assumes "start < stop"
  shows "seconds_to_microseconds start < u64_max" "0 < seconds_to_microseconds stop"
proof -
  have "unat start * 1000000 < 2 ^ 64 - 1" using unsigned_less [of start, where 'a = nat] by simp
  then show "seconds_to_microseconds start < u64_max"
    by (simp only: word_less_nat_alt unat_seconds_to_microseconds unat_u64_max)
  have "0 < unat stop" using assms unfolding word_less_nat_alt by simp
  then show "0 < seconds_to_microseconds stop" by (simp add: word_less_nat_alt unat_seconds_to_microseconds)
qed

lemma chain_find_set:
  assumes "repository_ok r" "single_active (repository_files r)" "start < stop"
    and "(dir, d) \<in> set (directories r)" "(origin, c) \<in> set (chains d)" "f \<in> set (files c)"
  shows "f \<in> set (chain_find_files_in_range start stop c []) \<longleftrightarrow>
    in_range {g \<in> repository_files r. same_chain f g} (seconds_to_microseconds start) (seconds_to_microseconds stop) f"
proof -
  note c = repository_chain [OF assms(1,4,5)]
  note one = repository_chain_single_active [OF assms(1,2,4,5)]
  have same: "{g \<in> repository_files r. same_chain f g} = set (files c)"
    using assms(6) by (auto simp: c(2) same_chain_def)
  have "f \<in> set (overlapping (seconds_to_microseconds start) (seconds_to_microseconds stop) (spans None (files c))) \<longleftrightarrow>
      in_range (set (files c)) (seconds_to_microseconds start) (seconds_to_microseconds stop) f"
    using overlapping_in_range [OF _ chain_ranked [OF c(1) one] seconds_bounds [OF assms(3)], of None f] c(1) by (simp add: chain_ok_def)
  then show ?thesis by (simp add: chain_find_overlapping [OF c(1) one assms(3)] same)
qed

lemma chain_find_append: "chain_find_files_in_range start stop c found = found @ chain_find_files_in_range start stop c []"
  by (simp add: chain_find_files_in_range_def Let_def)

lemma repository_find_concat:
  "repository_find_files_in_range start stop r =
    concat (map (\<lambda>(_, d). concat (map (\<lambda>(_, c). chain_find_files_in_range start stop c []) (chains d))) (directories r))"
proof -
  have inner: "fold (\<lambda>(_, chain) found. chain_find_files_in_range start stop chain found) cs acc =
      acc @ concat (map (\<lambda>(_, c). chain_find_files_in_range start stop c []) cs)" for cs :: "(Origin \<times> Chain) list" and acc
  proof (induction cs arbitrary: acc)
    case (Cons p cs)
    then show ?case using chain_find_append [of start stop "snd p" acc] by (cases p) simp
  qed simp
  have "fold (\<lambda>(_, d) found. found @ concat (map (\<lambda>(_, c). chain_find_files_in_range start stop c []) (chains d))) ds acc =
      acc @ concat (map (\<lambda>(_, d). concat (map (\<lambda>(_, c). chain_find_files_in_range start stop c []) (chains d))) ds)"
    for ds :: "(string \<times> Directory) list" and acc
    by (induction ds arbitrary: acc) auto
  then show ?thesis by (simp add: repository_find_files_in_range_def inner)
qed

lemma chain_find_subset: "set (chain_find_files_in_range start stop c []) \<subseteq> set (files c)"
proof -
  have "set (range_loop s e prev fs) \<subseteq> set fs" for s e prev fs
    by (induction s e prev fs rule: range_loop.induct) (auto split: Status.splits)
  then show ?thesis
    using in_set_dropD by (fastforce simp: chain_find_files_in_range_def Let_def split: if_splits)
qed

lemma repository_find_set:
  assumes "repository_ok r" "single_active (repository_files r)" "start < stop"
  shows "set (repository_find_files_in_range start stop r) =
    {f. in_range {g \<in> repository_files r. same_chain f g} (seconds_to_microseconds start) (seconds_to_microseconds stop) f}" (is "_ = {f. ?in f}")
proof (intro set_eqI iffI)
  fix f assume "f \<in> set (repository_find_files_in_range start stop r)"
  then obtain dir d origin c where "(dir, d) \<in> set (directories r)" "(origin, c) \<in> set (chains d)"
      "f \<in> set (chain_find_files_in_range start stop c [])"
    by (auto simp: repository_find_concat)
  then show "f \<in> {f. ?in f}" using chain_find_set [OF assms] chain_find_subset by blast
next
  fix f assume f: "f \<in> {f. ?in f}"
  then have "f \<in> repository_files r" by (auto simp: in_range_def)
  then obtain dir d origin c where "(dir, d) \<in> set (directories r)" "(origin, c) \<in> set (chains d)" "f \<in> set (files c)"
    by (auto simp: repository_files_iff directory_files_iff)
  then show "f \<in> set (repository_find_files_in_range start stop r)"
    using chain_find_set [OF assms] f by (fastforce simp: repository_find_concat)
qed

text \<open>
  C18. After any history, a query for a range of time returns exactly the files of the set whose chain places them
  in the range and whose indexed range, if there is a final one, overlaps it, each with the range that the last
  indexing reported since the file appeared.
\<close>

theorem registry_query_exact:
  assumes "g = fold (registry_exec tp) cmds registry_new" and "A = fold (a_exec tp) cmds a_empty"
    and "single_active (a_files A)" and "start < stop"
  shows "\<exists>infos. registry_find_files_in_range start stop g = Inr infos \<and>
    set infos = {\<lparr>info_file = f, info_time_range = a_range A f\<rparr> | f.
      in_range {h \<in> a_files A. same_chain f h} (seconds_to_microseconds start) (seconds_to_microseconds stop) f \<and>
      info_included start stop \<lparr>info_file = f, info_time_range = a_range A f\<rparr>}"
proof -
  have ok: "registry_ok g" and A: "registry_abs g = A" using run_refines [of tp cmds] assms(1,2) by auto
  have fs: "repository_files (base (repository g)) = a_files A" using A by (auto simp: registry_abs_def)
  have "tracked_info (repository g) f = \<lparr>info_file = f, info_time_range = a_range A f\<rparr>" for f
  proof -
    have "info_file (tracked_info (repository g) f) = f"
      using tracked_metadata [OF ok] by (auto simp: tracked_info_def split: option.splits)
    moreover have "info_time_range (tracked_info (repository g) f) = a_range A f" using A by (auto simp: registry_abs_def)
    ultimately show ?thesis by (metis FileInfo.surjective old.unit.exhaust)
  qed
  moreover have "set (repository_find_files_in_range start stop (base (repository g))) =
      {f. in_range {h \<in> a_files A. same_chain f h} (seconds_to_microseconds start) (seconds_to_microseconds stop) f}"
    using repository_find_set [of "base (repository g)" start stop] ok assms(3,4) fs by (simp add: registry_ok_def)
  ultimately show ?thesis
    by (auto simp: registry_find_files_in_range_def tracked_find_files_in_range_def)
qed

definition sample_file :: File where
  "sample_file = \<lparr>f_path = ''/j/system.journal'', f_origin = \<lparr>o_machine_id = None, o_namespace = None, o_source = System\<rparr>,
     f_status = Active, f_native_path = None\<rparr>"

lemma sample_file_parsed: "file_from_path (\<lambda>_. None) ''/j/system.journal'' = Some sample_file" "file_dir sample_file = Inr ''/j''"
proof -
  have comps: "rev_components ''/j/system.journal'' = [''system.journal'', ''j'']" "rev_components ''/j'' = [''j'']"
    by (simp_all add: rev_components_def trivial_component_def)
  have "status_parse (\<lambda>_. None) ''/system.journal'' = Some (Active, ''/system'')"
    using status_parse_active [of "''/system''" "\<lambda>_. None"] by simp
  moreover have "source_parse ''/system'' = Some (System, '''')" by (simp add: source_parse_def rsplit_once_def)
  ultimately show "file_from_path (\<lambda>_. None) ''/j/system.journal'' = Some sample_file" "file_dir sample_file = Inr ''/j''"
    by (simp_all add: file_from_path_def file_dir_def is_absolute_def to_str_def file_name_def parent_def comps trivial_component_def
        path_of_components_def parse_machine_id_namespace_def sample_file_def as_path_def)
qed

theorem registry_query_exact_witness:
  "\<exists>infos. registry_find_files_in_range 1 2 (fold (registry_exec (\<lambda>_. None)) [FsEvent CreateEvent [''/j/system.journal'']] registry_new) = Inr infos \<and>
    set infos = {\<lparr>info_file = sample_file, info_time_range = UnknownRange\<rparr>}"
proof -
  let ?A = "fold (a_exec (\<lambda>_. None)) [FsEvent CreateEvent [''/j/system.journal'']] a_empty"
  have A: "a_files ?A = {sample_file}" "a_range ?A = (\<lambda>_. UnknownRange)"
    by (auto simp: a_path_def sample_file_parsed a_add_def a_empty_def)
  have "single_active (a_files ?A)" unfolding A by (simp add: single_active_def)
  from registry_query_exact [OF refl refl this, of 1 2]
  show ?thesis
    unfolding A by (simp add: in_range_def sample_file_def same_chain_def is_archived_def info_included_def conj_commute cong: conj_cong)
qed

text \<open>
  Watching a directory finds the files of its subdirectories as well; unwatching it removes only the files that
  are filed under the directory itself.
\<close>

lemma unwatch_keeps_nested:
  "let g = fold (registry_exec (\<lambda>_. None))
       [Watch ''/'' [Inr (''/j/system.journal'', True)] (Inr ()), Unwatch ''/'' (Inr ())] registry_new
   in watched_directories g = {} \<and> sample_file \<in> repository_files (base (repository g))"
proof -
  let ?cmds = "[Watch ''/'' [Inr (''/j/system.journal'', True)] (Inr ()), Unwatch ''/'' (Inr ())]"
  have "registry_abs (fold (registry_exec (\<lambda>_. None)) ?cmds registry_new) = fold (a_exec (\<lambda>_. None)) ?cmds a_empty"
    using run_refines by blast
  also have "\<dots> = \<lparr>a_files = {sample_file}, a_watched = {}, a_range = (\<lambda>_. UnknownRange)\<rparr>"
    by (auto simp: sample_file_parsed a_add_def a_empty_def fun_eq_iff)
  finally show ?thesis unfolding registry_abs_def Let_def AbstractRegistry.ext_inject by blast
qed

end
