(* ===== verification/Log_Retention.thy ===== *)
theory Log_Retention
  imports Journal_File File_Chain "HOL-Library.AList"
begin

text \<open>
  The files of a log directory, \<open>OwnedChain\<close> of \<^verbatim>\<open>journal-log-writer/src/log/chain.rs\<close>: the chain with the sizes
  of its files, the scan of the directory at start, creation, disposal and archiving of files, and retention by
  number, size and age.

  The operating system is a record of functions on a world \<open>'w\<close>; every property holds for all of them, so
  also when any call fails.  An operation returns its result, the chain and the world.  \<open>file_sizes\<close>, a
  \<open>HashMap\<close>, is an association list.  The addition in the scan wraps, as in a release build.
\<close>

section \<open>The operating system\<close>

datatype IoError = NotFound | OtherIoError

datatype WriterError =
    RootRetention WriterError
  | Serialization string
  | EmptyEntry
  | WriterInvalidPath string
  | WriterNotADirectory string
  | FileCreation string
  | MachineId string
  | InvalidConfig string
  | WriterIo IoError
  | WriterJournal JournalError
  | WriterRegistry

record 'w Os =
  os_contents :: "string \<Rightarrow> 'w \<Rightarrow> u8 list option"
  os_len :: "string \<Rightarrow> 'w \<Rightarrow> u64 option"
  os_exists :: "string \<Rightarrow> 'w \<Rightarrow> bool"
  os_read_dir :: "string \<Rightarrow> 'w \<Rightarrow> IoError + string option list"
  os_remove :: "string \<Rightarrow> 'w \<Rightarrow> (IoError + unit) \<times> 'w"
  os_rename :: "string \<Rightarrow> string \<Rightarrow> 'w \<Rightarrow> (IoError + unit) \<times> 'w"
  os_sync_file :: "string \<Rightarrow> 'w \<Rightarrow> (IoError + unit) \<times> 'w"
  os_sync_directory :: "string \<Rightarrow> 'w \<Rightarrow> (IoError + unit) \<times> 'w"

text \<open>\<open>JournalFile::<Mmap>::open\<close> of a file of the chain\<close>

definition open_chain_file :: "'w Os \<Rightarrow> File \<Rightarrow> 'w \<Rightarrow> JournalFile result" where
  "open_chain_file os file w =
     (case os_contents os (f_path file) w of None \<Rightarrow> Err (Io OtherIo) | Some bs \<Rightarrow> open_journal_file bs)"

definition align8 :: "u64 \<Rightarrow> u64" where
  "align8 value = saturating_add value 7 AND NOT 7"

definition committed_journal_size :: "'w Os \<Rightarrow> File \<Rightarrow> 'w \<Rightarrow> u64 option" where
  "committed_journal_size os file w =
     (case open_chain_file os file w of
        Inl _ \<Rightarrow> None
      | Inr jf \<Rightarrow>
          Option.bind (tail_object_offset (jf_header jf)) (\<lambda>off.
            case object_header_ref jf off of
              Inl _ \<Rightarrow> None
            | Inr tail_object \<Rightarrow> Some (align8 (saturating_add off (obj_size tail_object)))))"

section \<open>The owned chain\<close>

record OwnedChain =
  oc_path :: string
  oc_machine_id :: Uuid
  oc_source :: Source
  oc_source_name :: string
  inner :: Chain
  file_sizes :: "(File \<times> u64) list"
  total_size :: u64

record RetentionPolicy =
  number_of_journal_files :: "nat option"
  size_of_journal_files :: "u64 option"
  duration_of_journal_files :: "nat option"

record RetentionOutcome =
  deleted_files :: "File list"
  outcome_error :: "WriterError option"

text \<open>The size of a file as the scan and the refresh take it: what is committed, or else the length of the file.\<close>

definition journal_size :: "'w Os \<Rightarrow> File \<Rightarrow> 'w \<Rightarrow> u64 option" where
  "journal_size os file w =
     (case committed_journal_size os file w of Some n \<Rightarrow> Some n | None \<Rightarrow> os_len os (f_path file) w)"

fun scan_chain_loop :: "'w Os \<Rightarrow> (string \<Rightarrow> Uuid option) \<Rightarrow> 'w \<Rightarrow> string option list \<Rightarrow> OwnedChain \<Rightarrow> OwnedChain" where
  "scan_chain_loop os tp w [] oc = oc"
| "scan_chain_loop os tp w (None # entries) oc = scan_chain_loop os tp w entries oc"
| "scan_chain_loop os tp w (Some file_path # entries) oc =
     (case file_from_path tp file_path of
        None \<Rightarrow> scan_chain_loop os tp w entries oc
      | Some file \<Rightarrow>
          if o_source (f_origin file) \<noteq> oc_source oc then scan_chain_loop os tp w entries oc
          else (case journal_size os file w of
                  None \<Rightarrow> scan_chain_loop os tp w entries oc
                | Some n \<Rightarrow>
                    scan_chain_loop os tp w entries
                      (oc\<lparr>total_size := total_size oc + n, file_sizes := AList.update file n (file_sizes oc),
                          inner := insert_file file (inner oc)\<rparr>)))"

definition owned_chain_new :: "'w Os \<Rightarrow> (string \<Rightarrow> Uuid option) \<Rightarrow> string \<Rightarrow> Uuid \<Rightarrow> Source \<Rightarrow> 'w \<Rightarrow> WriterError + OwnedChain" where
  "owned_chain_new os tp path machine source w =
     (let oc = \<lparr>oc_path = path, oc_machine_id = machine, oc_source = source, oc_source_name = source_basename source,
                inner = chain_default, file_sizes = [], total_size = 0\<rparr>
      in case os_read_dir os path w of
           Inl e \<Rightarrow> Inl (WriterIo e)
         | Inr entries \<Rightarrow> Inr (scan_chain_loop os tp w entries oc))"

definition create_active_file :: "(string \<Rightarrow> Uuid option) \<Rightarrow> OwnedChain \<Rightarrow> (WriterError + File) \<times> OwnedChain" where
  "create_active_file tp oc =
     (case create_strict_systemd_active_file tp (oc_path oc) (oc_source_name oc) of
        None \<Rightarrow> (Inl (FileCreation (''failed to create journal file in '' @ oc_path oc)), oc)
      | Some file \<Rightarrow> (Inr file, oc\<lparr>inner := insert_file file (inner oc)\<rparr>))"

definition existing_active_file :: "'w Os \<Rightarrow> (string \<Rightarrow> Uuid option) \<Rightarrow> OwnedChain \<Rightarrow> 'w \<Rightarrow> File option" where
  "existing_active_file os tp oc w =
     Option.bind (create_strict_systemd_active_file tp (oc_path oc) (oc_source_name oc)) (\<lambda>file.
       if os_exists os (f_path file) w then Some file else None)"

definition oc_create_chain_file ::
  "(string \<Rightarrow> Uuid option) \<Rightarrow> (Uuid \<Rightarrow> string) \<Rightarrow> Uuid \<Rightarrow> u64 \<Rightarrow> u64 \<Rightarrow> OwnedChain \<Rightarrow> (WriterError + File) \<times> OwnedChain" where
  "oc_create_chain_file tp simple uuid head_seqnum head_rt oc =
     (case create_chain_file tp simple (oc_path oc) (oc_source_name oc) uuid head_seqnum head_rt of
        None \<Rightarrow> (Inl (FileCreation (''failed to create journal file in '' @ oc_path oc)), oc)
      | Some file \<Rightarrow> (Inr file, oc\<lparr>inner := insert_file file (inner oc)\<rparr>))"

definition remove_tracked_file :: "File \<Rightarrow> OwnedChain \<Rightarrow> OwnedChain" where
  "remove_tracked_file file oc =
     (let oc = (case map_of (file_sizes oc) file of
                  Some n \<Rightarrow> oc\<lparr>file_sizes := AList.delete file (file_sizes oc), total_size := saturating_sub (total_size oc) n\<rparr>
                | None \<Rightarrow> oc)
      in oc\<lparr>inner := remove_file file (inner oc)\<rparr>)"

text \<open>
  Setting a file aside: \<open>draw i\<close> is the \<open>i\<close>-th random number; the search for a free name ends only if
  one of the numbers leads to one.
\<close>

partial_function (option) disposal_target :: "'w Os \<Rightarrow> 'w \<Rightarrow> string \<Rightarrow> u64 \<Rightarrow> (nat \<Rightarrow> u64) \<Rightarrow> nat \<Rightarrow> string option" where
  "disposal_target os w stem stamp draw i =
     (let target = disposed_target stem stamp (draw i)
      in if os_exists os target w then disposal_target os w stem stamp draw (Suc i) else Some target)"

definition dispose_file :: "'w Os \<Rightarrow> u64 \<Rightarrow> (nat \<Rightarrow> u64) \<Rightarrow> File \<Rightarrow> OwnedChain \<Rightarrow> 'w \<Rightarrow> ((WriterError + unit) \<times> OwnedChain \<times> 'w) option" where
  "dispose_file os stamp draw file oc w =
     (if \<not> os_exists os (f_path file) w then Some (Inr (), remove_tracked_file file oc, w)
      else (let stem = (case strip_suffix ''.journal'' (f_path file) of Some stem \<Rightarrow> stem | None \<Rightarrow> f_path file)
            in map_option (\<lambda>target.
                 case os_rename os (f_path file) target w of
                   (Inl NotFound, w) \<Rightarrow> (Inr (), remove_tracked_file file oc, w)
                 | (Inl err, w) \<Rightarrow> (Inl (WriterIo err), oc, w)
                 | (Inr _, w) \<Rightarrow>
                     (case os_sync_directory os (oc_path oc) w of
                        (Inl err, w) \<Rightarrow> (Inl (WriterIo err), oc, w)
                      | (Inr _, w) \<Rightarrow> (Inr (), remove_tracked_file file oc, w)))
               (disposal_target os w stem stamp draw 0)))"

definition archive_file ::
  "'w Os \<Rightarrow> (string \<Rightarrow> Uuid option) \<Rightarrow> (Uuid \<Rightarrow> string) \<Rightarrow> File \<Rightarrow> Uuid \<Rightarrow> u64 \<Rightarrow> u64 \<Rightarrow> OwnedChain \<Rightarrow> 'w \<Rightarrow>
     (WriterError + File) \<times> OwnedChain \<times> 'w" where
  "archive_file os tp simple file uuid head_seqnum head_rt oc w =
     (case create_chain_file tp simple (oc_path oc) (oc_source_name oc) uuid head_seqnum head_rt of
        None \<Rightarrow> (Inl (FileCreation (''failed to create archived journal file name in '' @ oc_path oc)), oc, w)
      | Some archived \<Rightarrow>
          (case (if f_path file \<noteq> f_path archived \<and> os_exists os (f_path file) w
                 then (case os_rename os (f_path file) (f_path archived) w of
                         (Inl err, w) \<Rightarrow> (Inl err, w)
                       | (Inr _, w) \<Rightarrow> os_sync_directory os (oc_path oc) w)
                 else (Inr (), w)) of
             (Inl err, w) \<Rightarrow> (Inl (WriterIo err), oc, w)
           | (Inr _, w) \<Rightarrow>
               (let n = (case map_of (file_sizes oc) file of Some n \<Rightarrow> n | None \<Rightarrow> 0);
                    oc = oc\<lparr>file_sizes := AList.delete file (file_sizes oc), inner := remove_file file (inner oc)\<rparr>;
                    oc = oc\<lparr>file_sizes := AList.update archived n (file_sizes oc), inner := insert_file archived (inner oc)\<rparr>
                in (Inr archived, oc, w))))"

definition uuid_from_bytes :: "u8 list \<Rightarrow> Uuid" where
  "uuid_from_bytes bs = from_le (rev bs)"

definition archive_existing_active_file ::
  "'w Os \<Rightarrow> (string \<Rightarrow> Uuid option) \<Rightarrow> (Uuid \<Rightarrow> string) \<Rightarrow> bool \<Rightarrow> OwnedChain \<Rightarrow> 'w \<Rightarrow>
     (WriterError + File option) \<times> OwnedChain \<times> 'w" where
  "archive_existing_active_file os tp simple sync_on_archive oc w =
     (case Option.bind (chain_back (inner oc)) (\<lambda>file. if is_active file then Some file else None) of
        None \<Rightarrow> (Inr None, oc, w)
      | Some file \<Rightarrow>
          if \<not> os_exists os (f_path file) w
          then (Inr None, oc\<lparr>file_sizes := AList.delete file (file_sizes oc), inner := remove_file file (inner oc)\<rparr>, w)
          else (case open_chain_file os file w of
                  Inl e \<Rightarrow> (Inl (WriterJournal e), oc, w)
                | Inr jf \<Rightarrow>
                    (let header = jf_header jf
                     in if n_entries header = 0 then (Inr None, oc, w)
                        else (case (if sync_on_archive then os_sync_file os (f_path file) w else (Inr (), w)) of
                                (Inl err, w) \<Rightarrow> (Inl (WriterIo err), oc, w)
                              | (Inr _, w) \<Rightarrow>
                                  (case archive_file os tp simple file (uuid_from_bytes (seqnum_id header)) (head_entry_seqnum header)
                                          (head_entry_realtime header) oc w of
                                     (r, oc, w) \<Rightarrow> (map_sum id Some r, oc, w))))))"

definition update_file_size :: "File \<Rightarrow> u64 \<Rightarrow> OwnedChain \<Rightarrow> OwnedChain" where
  "update_file_size file new_size oc =
     (let old_size = (case map_of (file_sizes oc) file of Some n \<Rightarrow> n | None \<Rightarrow> 0)
      in oc\<lparr>file_sizes := AList.update file new_size (file_sizes oc),
            total_size := saturating_add (saturating_sub (total_size oc) old_size) new_size\<rparr>)"

fun refresh_sizes_loop :: "'w Os \<Rightarrow> (File \<Rightarrow> WriterError + u64) \<Rightarrow> 'w \<Rightarrow> File list \<Rightarrow> u64 \<Rightarrow> OwnedChain \<Rightarrow> (WriterError + u64) \<times> OwnedChain" where
  "refresh_sizes_loop os artifact_size w [] acc oc = (Inr acc, oc)"
| "refresh_sizes_loop os artifact_size w (file # fs) acc oc =
     (let journal = (case journal_size os file w of Some n \<Rightarrow> n | None \<Rightarrow> 0)
      in case artifact_size file of
           Inl e \<Rightarrow> (Inl e, oc)
         | Inr artifact \<Rightarrow>
             (let n = saturating_add journal artifact
              in refresh_sizes_loop os artifact_size w fs (saturating_add acc n) (oc\<lparr>file_sizes := AList.update file n (file_sizes oc)\<rparr>)))"

definition refresh_retained_sizes :: "'w Os \<Rightarrow> (File \<Rightarrow> WriterError + u64) \<Rightarrow> OwnedChain \<Rightarrow> 'w \<Rightarrow> (WriterError + unit) \<times> OwnedChain" where
  "refresh_retained_sizes os artifact_size oc w =
     (case refresh_sizes_loop os artifact_size w (map fst (file_sizes oc)) 0 oc of
        (Inl e, oc) \<Rightarrow> (Inl e, oc)
      | (Inr n, oc) \<Rightarrow> (Inr (), oc\<lparr>total_size := n\<rparr>))"

section \<open>Retention\<close>

fun pop_unprotected :: "File option \<Rightarrow> File list \<Rightarrow> File list \<Rightarrow> File list \<times> File option \<times> File list" where
  "pop_unprotected protected skipped [] = (skipped, None, [])"
| "pop_unprotected protected skipped (file # fs) =
     (if protected = Some file then pop_unprotected protected (skipped @ [file]) fs else (skipped, Some file, fs))"

definition delete_oldest_file :: "'w Os \<Rightarrow> File option \<Rightarrow> OwnedChain \<Rightarrow> 'w \<Rightarrow> (WriterError + File option) \<times> OwnedChain \<times> 'w" where
  "delete_oldest_file os protected oc w =
     (case pop_unprotected protected [] (files (inner oc)) of
        (skipped, None, rest) \<Rightarrow> (Inr None, oc\<lparr>inner := fold insert_file skipped ((inner oc)\<lparr>files := rest\<rparr>)\<rparr>, w)
      | (skipped, Some file, rest) \<Rightarrow>
          (let oc = oc\<lparr>inner := fold insert_file skipped ((inner oc)\<lparr>files := rest\<rparr>)\<rparr>;
               file_size = (case map_of (file_sizes oc) file of Some n \<Rightarrow> n | None \<Rightarrow> 0)
           in case os_remove os (f_path file) w of
                (Inl OtherIoError, w) \<Rightarrow> (Inl (WriterIo OtherIoError), oc\<lparr>inner := insert_file file (inner oc)\<rparr>, w)
              | (_, w) \<Rightarrow>
                  (Inr (Some file),
                   oc\<lparr>file_sizes := AList.delete file (file_sizes oc), total_size := saturating_sub (total_size oc) file_size\<rparr>, w)))"

definition delete_oldest_for_retention ::
  "'w Os \<Rightarrow> File option \<Rightarrow> OwnedChain \<Rightarrow> File list \<Rightarrow> 'w \<Rightarrow> (WriterError + bool) \<times> OwnedChain \<times> File list \<times> 'w" where
  "delete_oldest_for_retention os protected oc deleted w =
     (case delete_oldest_file os protected oc w of
        (Inr (Some file), oc, w) \<Rightarrow> (Inr True, oc, deleted @ [file], w)
      | (Inr None, oc, w) \<Rightarrow> (Inr False, oc, deleted, w)
      | (Inl err, oc, w) \<Rightarrow> (Inl err, oc, deleted, w))"

lemma pop_unprotected_length:
  "pop_unprotected protected skipped fs = (skipped', r, rest) \<Longrightarrow>
    length skipped' + length rest + (case r of None \<Rightarrow> 0 | Some _ \<Rightarrow> 1) = length skipped + length fs"
  by (induction protected skipped fs rule: pop_unprotected.induct) (auto split: if_splits)

lemma length_insert_file_le: "length (files (insert_file f c)) \<le> Suc (length (files c))"
  by (auto simp: insert_file_def Let_def min_def)

lemma length_insert_all_le: "length (files (fold insert_file fs c)) \<le> length fs + length (files c)"
proof (induction fs arbitrary: c)
  case (Cons f fs)
  then show ?case using length_insert_file_le [of f c] by (simp add: order_trans [OF Cons.IH])
qed simp

text \<open>A deletion shortens the chain, whatever the chain is; so the loops below end.\<close>

lemma delete_oldest_shortens:
  assumes "delete_oldest_for_retention os protected oc deleted w = (Inr True, oc', deleted', w')"
  shows "length (files (inner oc')) < length (files (inner oc))"
proof -
  obtain skipped r rest where p: "pop_unprotected protected [] (files (inner oc)) = (skipped, r, rest)" by (metis prod.exhaust)
  have "inner oc' = fold insert_file skipped ((inner oc)\<lparr>files := rest\<rparr>) \<and> r \<noteq> None"
    using assms p by (auto simp: delete_oldest_for_retention_def delete_oldest_file_def Let_def
        split: option.splits sum.splits prod.splits IoError.splits)
  then show ?thesis
    using pop_unprotected_length [OF p] length_insert_all_le [of skipped "(inner oc)\<lparr>files := rest\<rparr>"] by auto
qed

function retain_count_loop ::
  "'w Os \<Rightarrow> nat \<Rightarrow> File option \<Rightarrow> OwnedChain \<Rightarrow> File list \<Rightarrow> 'w \<Rightarrow> WriterError option \<times> OwnedChain \<times> File list \<times> 'w" where
  "retain_count_loop os max_files protected oc deleted w =
     (if max_files < chain_len (inner oc)
      then (case delete_oldest_for_retention os protected oc deleted w of
              (Inr True, oc', deleted', w') \<Rightarrow> retain_count_loop os max_files protected oc' deleted' w'
            | (Inr False, oc', deleted', w') \<Rightarrow> (None, oc', deleted', w')
            | (Inl err, oc', deleted', w') \<Rightarrow> (Some err, oc', deleted', w'))
      else (None, oc, deleted, w))"
  by pat_completeness auto
termination
  by (relation "measure (\<lambda>(_, _, _, oc, _, _). length (files (inner oc)))") (auto dest: delete_oldest_shortens [OF sym])

declare retain_count_loop.simps [simp del]

function retain_size_loop ::
  "'w Os \<Rightarrow> u64 \<Rightarrow> File option \<Rightarrow> OwnedChain \<Rightarrow> File list \<Rightarrow> 'w \<Rightarrow> WriterError option \<times> OwnedChain \<times> File list \<times> 'w" where
  "retain_size_loop os max_total_size protected oc deleted w =
     (if max_total_size < total_size oc \<and> \<not> chain_is_empty (inner oc)
      then (case delete_oldest_for_retention os protected oc deleted w of
              (Inr True, oc', deleted', w') \<Rightarrow> retain_size_loop os max_total_size protected oc' deleted' w'
            | (Inr False, oc', deleted', w') \<Rightarrow> (None, oc', deleted', w')
            | (Inl err, oc', deleted', w') \<Rightarrow> (Some err, oc', deleted', w'))
      else (None, oc, deleted, w))"
  by pat_completeness auto
termination
  by (relation "measure (\<lambda>(_, _, _, oc, _, _). length (files (inner oc)))") (auto dest: delete_oldest_shortens [OF sym])

declare retain_size_loop.simps [simp del]

definition retain_by_file_count where
  "retain_by_file_count os policy protected oc deleted w =
     (case number_of_journal_files policy of
        None \<Rightarrow> (None, oc, deleted, w)
      | Some max_files \<Rightarrow> retain_count_loop os max_files protected oc deleted w)"

definition retain_by_total_size where
  "retain_by_total_size os policy protected oc deleted w =
     (case size_of_journal_files policy of
        None \<Rightarrow> (None, oc, deleted, w)
      | Some max_total_size \<Rightarrow> retain_size_loop os max_total_size protected oc deleted w)"

text \<open>The loop over the drained files, with the deleted, the failed and the protected ones and the first error.\<close>

fun older_loop ::
  "'w Os \<Rightarrow> File option \<Rightarrow> File list \<Rightarrow> File list \<Rightarrow> File list \<Rightarrow> File list \<Rightarrow> WriterError option \<Rightarrow> OwnedChain \<Rightarrow> 'w \<Rightarrow>
     File list \<times> File list \<times> File list \<times> WriterError option \<times> OwnedChain \<times> 'w" where
  "older_loop os protected [] deleted failed kept first_error oc w = (deleted, failed, kept, first_error, oc, w)"
| "older_loop os protected (file # fs) deleted failed kept first_error oc w =
     (if protected = Some file then older_loop os protected fs deleted failed (kept @ [file]) first_error oc w
      else (let file_size = (case map_of (file_sizes oc) file of Some n \<Rightarrow> n | None \<Rightarrow> 0)
            in case os_remove os (f_path file) w of
                 (Inl OtherIoError, w) \<Rightarrow>
                   older_loop os protected fs deleted (failed @ [file]) kept
                     (if first_error = None then Some (WriterIo OtherIoError) else first_error) oc w
               | (_, w) \<Rightarrow>
                   older_loop os protected fs (deleted @ [file]) failed kept first_error
                     (oc\<lparr>file_sizes := AList.delete file (file_sizes oc), total_size := saturating_sub (total_size oc) file_size\<rparr>) w))"

definition age_cutoff :: "u64 \<Rightarrow> nat \<Rightarrow> u64" where
  "age_cutoff now max_entry_age = saturating_sub now (of_nat max_entry_age)"

definition delete_files_older_than ::
  "'w Os \<Rightarrow> u64 \<Rightarrow> nat \<Rightarrow> File option \<Rightarrow> OwnedChain \<Rightarrow> 'w \<Rightarrow> RetentionOutcome \<times> OwnedChain \<times> 'w" where
  "delete_files_older_than os now max_entry_age protected oc w =
     (let (drained, chain) = chain_drain (age_cutoff now max_entry_age) (inner oc)
      in case older_loop os protected drained [] [] [] None (oc\<lparr>inner := chain\<rparr>) w of
           (deleted, failed, kept, first_error, oc, w) \<Rightarrow>
             (\<lparr>deleted_files = deleted, outcome_error = first_error\<rparr>,
              oc\<lparr>inner := fold insert_file kept (fold insert_file failed (inner oc))\<rparr>, w))"

definition retain_by_entry_age where
  "retain_by_entry_age os now policy protected oc deleted w =
     (case duration_of_journal_files policy of
        None \<Rightarrow> (None, oc, deleted, w)
      | Some max_entry_age \<Rightarrow>
          (case delete_files_older_than os now max_entry_age protected oc w of
             (outcome, oc, w) \<Rightarrow> (outcome_error outcome, oc, deleted @ deleted_files outcome, w)))"

definition sync_after_retention :: "'w Os \<Rightarrow> OwnedChain \<Rightarrow> File list \<Rightarrow> 'w \<Rightarrow> WriterError option \<times> 'w" where
  "sync_after_retention os oc deleted w =
     (if deleted = [] then (None, w)
      else (case os_sync_directory os (oc_path oc) w of (Inl e, w) \<Rightarrow> (Some (WriterIo e), w) | (Inr _, w) \<Rightarrow> (None, w)))"

definition retain :: "'w Os \<Rightarrow> u64 \<Rightarrow> RetentionPolicy \<Rightarrow> File option \<Rightarrow> OwnedChain \<Rightarrow> 'w \<Rightarrow> RetentionOutcome \<times> OwnedChain \<times> 'w" where
  "retain os now policy protected oc w =
     (case retain_by_file_count os policy protected oc [] w of
        (Some e, oc, deleted, w) \<Rightarrow> (\<lparr>deleted_files = deleted, outcome_error = Some e\<rparr>, oc, w)
      | (None, oc, deleted, w) \<Rightarrow>
     (case retain_by_total_size os policy protected oc deleted w of
        (Some e, oc, deleted, w) \<Rightarrow> (\<lparr>deleted_files = deleted, outcome_error = Some e\<rparr>, oc, w)
      | (None, oc, deleted, w) \<Rightarrow>
     (case retain_by_entry_age os now policy protected oc deleted w of
        (Some e, oc, deleted, w) \<Rightarrow> (\<lparr>deleted_files = deleted, outcome_error = Some e\<rparr>, oc, w)
      | (None, oc, deleted, w) \<Rightarrow>
     (case sync_after_retention os oc deleted w of
        (e, w) \<Rightarrow> (\<lparr>deleted_files = deleted, outcome_error = e\<rparr>, oc, w)))))"

section \<open>What a deletion leaves\<close>

text \<open>The total is the sum of the tracked sizes.\<close>

definition accounted :: "OwnedChain \<Rightarrow> bool" where
  "accounted oc \<longleftrightarrow>
     distinct (map fst (file_sizes oc)) \<and> unat (total_size oc) = sum_list (map (\<lambda>(_, n). unat n) (file_sizes oc))"

definition untrack :: "File \<Rightarrow> OwnedChain \<Rightarrow> OwnedChain" where
  "untrack file oc =
     oc\<lparr>file_sizes := AList.delete file (file_sizes oc),
        total_size := saturating_sub (total_size oc) (case map_of (file_sizes oc) file of Some n \<Rightarrow> n | None \<Rightarrow> 0)\<rparr>"

lemma sum_delete:
  "distinct (map fst al) \<Longrightarrow>
    sum_list (map (\<lambda>(_, n). unat n) al) =
      sum_list (map (\<lambda>(_, n). unat n) (AList.delete k al)) + unat (case map_of al k of Some n \<Rightarrow> n | None \<Rightarrow> 0)"
proof (induction al)
  case (Cons p al)
  obtain k' n where p: "p = (k', n)" by (cases p)
  show ?case
  proof (cases "k' = k")
    case True
    then have "AList.delete k al = al" using Cons.prems p by (intro delete_id) auto
    then show ?thesis using True p by simp
  next
    case False
    then show ?thesis using Cons p by simp
  qed
qed simp

lemma unat_saturating_sub: "unat (saturating_sub a b) = unat a - unat b"
  by (auto simp: saturating_sub_def word_less_nat_alt unat_sub_if_size)

lemma accounted_untrack: "accounted oc \<Longrightarrow> accounted (untrack file oc)"
  using sum_delete [of "file_sizes oc" "file"]
  by (auto simp: accounted_def untrack_def distinct_delete unat_saturating_sub)

text \<open>The chain after some of its files were deleted, none of them the protected one.\<close>

definition shrunk :: "File option \<Rightarrow> OwnedChain \<Rightarrow> File list \<Rightarrow> OwnedChain \<Rightarrow> bool" where
  "shrunk protected oc deleted oc' \<longleftrightarrow>
     chain_ok (inner oc') \<and> set (files (inner oc')) = set (files (inner oc)) - set deleted \<and>
     distinct deleted \<and> set deleted \<subseteq> set (files (inner oc)) \<and> (\<forall>f \<in> set deleted. protected \<noteq> Some f) \<and>
     file_sizes oc' = filter (\<lambda>p. fst p \<notin> set deleted) (file_sizes oc) \<and>
     total_size oc' \<le> total_size oc \<and> (accounted oc \<longrightarrow> accounted oc') \<and> oc_path oc' = oc_path oc"

lemma shrunk_none: "chain_ok (inner oc') \<Longrightarrow> set (files (inner oc')) = set (files (inner oc)) \<Longrightarrow>
    oc' = oc\<lparr>inner := inner oc'\<rparr> \<Longrightarrow> shrunk protected oc [] oc'"
proof -
  assume a: "chain_ok (inner oc')" "set (files (inner oc')) = set (files (inner oc))" "oc' = oc\<lparr>inner := inner oc'\<rparr>"
  have "file_sizes oc' = file_sizes oc" "total_size oc' = total_size oc" "oc_path oc' = oc_path oc" by (subst a(3), simp)+
  then show ?thesis using a(1,2) by (auto simp: shrunk_def accounted_def)
qed

lemma shrunk_trans:
  assumes "shrunk protected oc d1 oc1" "shrunk protected oc1 d2 oc2"
  shows "shrunk protected oc (d1 @ d2) oc2"
  using assms by (auto simp: shrunk_def conj_commute intro: order_trans)

lemma saturating_sub_le: "saturating_sub a b \<le> a"
  by (simp add: word_le_nat_alt unat_saturating_sub)

lemma alist_delete_filter: "AList.delete k al = filter (\<lambda>p. fst p \<noteq> k) al"
  by (induction al) auto

lemma shrunk_untrack:
  assumes "chain_ok c" "set (files c) = set (files (inner oc)) - {f}" "f \<in> set (files (inner oc))" "protected \<noteq> Some f"
  shows "shrunk protected oc [f] (untrack f (oc\<lparr>inner := c\<rparr>))"
proof -
  have "accounted oc \<Longrightarrow> accounted (untrack f (oc\<lparr>inner := c\<rparr>))"
    using accounted_untrack [of "oc\<lparr>inner := c\<rparr>" f] by (simp add: accounted_def)
  then show ?thesis
    using assms saturating_sub_le by (auto simp: shrunk_def untrack_def alist_delete_filter)
qed

lemma pop_unprotected_split:
  "pop_unprotected protected skipped fs = (skipped', r, rest) \<Longrightarrow>
    skipped @ fs = skipped' @ (case r of None \<Rightarrow> [] | Some f \<Rightarrow> [f]) @ rest \<and> (r = None \<longrightarrow> rest = []) \<and>
    (\<forall>f \<in> set skipped'. f \<in> set skipped \<or> protected = Some f) \<and> (\<forall>f. r = Some f \<longrightarrow> protected \<noteq> Some f)"
  by (induction protected skipped fs rule: pop_unprotected.induct) (auto split: if_splits)

lemma chain_ok_inj: "chain_ok c \<Longrightarrow> inj_on file_key (set (files c))"
  unfolding chain_ok_def by (metis distinct_map sorted_wrt_map strict_sorted_iff)

lemma reinserted:
  assumes "chain_ok c" "chain_ok c'" "set (files c') \<subseteq> set (files c)" "set fs \<subseteq> set (files c)"
  shows "chain_ok (fold insert_file fs c') \<and> set (files (fold insert_file fs c')) = set fs \<union> set (files c')"
  using assms chain_ok_inj [OF assms(1)] by (intro chain.inserted_all) (auto elim!: inj_on_subset)

lemma delete_oldest_cases:
  assumes "chain_ok (inner oc)" "delete_oldest_file os protected oc w = (r, oc', w')"
  shows "case r of
      Inl e \<Rightarrow> shrunk protected oc [] oc'
    | Inr None \<Rightarrow> shrunk protected oc [] oc' \<and> (\<forall>g \<in> set (files (inner oc')). protected = Some g)
    | Inr (Some f) \<Rightarrow> shrunk protected oc [f] oc' \<and> (\<forall>g \<in> set (files (inner oc')). protected = Some g \<or> file_key f < file_key g)"
proof -
  obtain skipped p rest where pop: "pop_unprotected protected [] (files (inner oc)) = (skipped, p, rest)" by (metis prod.exhaust)
  note split = pop_unprotected_split [OF pop]
  let ?c = "fold insert_file skipped ((inner oc)\<lparr>files := rest\<rparr>)"
  have sorted: "sorted_wrt (\<lambda>f g. file_key f < file_key g) (skipped @ (case p of None \<Rightarrow> [] | Some f \<Rightarrow> [f]) @ rest)"
    using assms(1) split by (simp add: chain_ok_def)
  have "set (files (inner oc)) = set (skipped @ (case p of None \<Rightarrow> [] | Some f \<Rightarrow> [f]) @ rest)" using split by (metis append_Nil)
  then have c: "chain_ok ?c" "set (files ?c) = set skipped \<union> set rest"
    using reinserted [OF assms(1), of "(inner oc)\<lparr>files := rest\<rparr>" skipped] sorted by (auto simp: chain_ok_def sorted_wrt_append)
  show ?thesis
  proof (cases p)
    case None
    then have "set (files ?c) = set (files (inner oc))" using c(2) split by auto
    then show ?thesis
      using assms(2) None pop c split by (auto simp: delete_oldest_file_def intro!: shrunk_none)
  next
    case (Some f)
    have fs: "files (inner oc) = skipped @ f # rest" using split Some by simp
    have f: "f \<notin> set skipped" "f \<notin> set rest" "protected \<noteq> Some f" "\<forall>g \<in> set rest. file_key f < file_key g"
      using sorted split Some by (auto simp: sorted_wrt_append)
    have gone: "shrunk protected oc [f] (untrack f (oc\<lparr>inner := ?c\<rparr>))"
      using c f fs by (intro shrunk_untrack) auto
    have "chain_ok (insert_file f ?c) \<and> set (files (insert_file f ?c)) = set (files (inner oc))"
      using reinserted [OF assms(1) c(1), of "[f]"] c(2) fs by auto
    then have failed: "shrunk protected oc [] (oc\<lparr>inner := insert_file f ?c\<rparr>)" by (intro shrunk_none) auto
    have oldest: "\<forall>g \<in> set (files ?c). protected = Some g \<or> file_key f < file_key g" using c(2) f(4) split by auto
    have "(r, oc') = (Inr (Some f), untrack f (oc\<lparr>inner := ?c\<rparr>)) \<or> (r, oc') = (Inl (WriterIo OtherIoError), oc\<lparr>inner := insert_file f ?c\<rparr>)"
      using assms(2) pop Some
      by (auto simp: delete_oldest_file_def untrack_def Let_def split: prod.splits sum.splits IoError.splits)
    then show ?thesis using gone failed oldest by (auto simp: untrack_def)
  qed
qed

text \<open>Deletions from the front of the chain: what is left is newer, except for the protected file.\<close>

definition pruned :: "File option \<Rightarrow> OwnedChain \<Rightarrow> File list \<Rightarrow> OwnedChain \<Rightarrow> bool" where
  "pruned protected oc deleted oc' \<longleftrightarrow>
     shrunk protected oc deleted oc' \<and>
     (\<forall>f \<in> set deleted. \<forall>g \<in> set (files (inner oc')). protected = Some g \<or> file_key f < file_key g)"

lemma pruned_trans: "pruned protected oc d1 oc1 \<Longrightarrow> pruned protected oc1 d2 oc2 \<Longrightarrow> pruned protected oc (d1 @ d2) oc2"
  by (auto simp: pruned_def intro: shrunk_trans) (auto simp: shrunk_def)

lemma pruned_chain_ok: "pruned protected oc d oc' \<Longrightarrow> chain_ok (inner oc')"
  by (simp add: pruned_def shrunk_def)

lemma pruned_refl: "chain_ok (inner oc) \<Longrightarrow> pruned protected oc [] oc"
  by (simp add: pruned_def shrunk_none)

definition only_protected :: "File option \<Rightarrow> OwnedChain \<Rightarrow> bool" where
  "only_protected protected oc \<longleftrightarrow> (\<forall>g \<in> set (files (inner oc)). protected = Some g)"

lemma delete_step:
  assumes "chain_ok (inner oc)" "delete_oldest_for_retention os protected oc deleted w = (r, oc', deleted', w')"
  obtains (removed) f where "r = Inr True" "deleted' = deleted @ [f]" "pruned protected oc [f] oc'"
  | (none_left) "r = Inr False" "deleted' = deleted" "pruned protected oc [] oc'" "only_protected protected oc'"
  | (failed) e where "r = Inl e" "deleted' = deleted" "pruned protected oc [] oc'"
proof -
  obtain q where q: "delete_oldest_file os protected oc w = (q, oc', w')"
      "(r, deleted') = (case q of Inl e \<Rightarrow> (Inl e, deleted) | Inr None \<Rightarrow> (Inr False, deleted) | Inr (Some f) \<Rightarrow> (Inr True, deleted @ [f]))"
    using assms(2) by (auto simp: delete_oldest_for_retention_def split: prod.splits sum.splits option.splits)
  show ?thesis
    using delete_oldest_cases [OF assms(1) q(1)] q(2) that
    by (auto simp: pruned_def only_protected_def split: sum.splits option.splits)
qed

lemma retain_count_loop_prunes:
  assumes "chain_ok (inner oc)" "retain_count_loop os max_files protected oc deleted w = (e, oc', deleted', w')"
  shows "\<exists>d. deleted' = deleted @ d \<and> pruned protected oc d oc' \<and>
    (e = None \<longrightarrow> length (files (inner oc')) \<le> max_files \<or> only_protected protected oc')"
  using assms
proof (induction os max_files protected oc deleted w rule: retain_count_loop.induct)
  case (1 os max_files protected oc deleted w)
  show ?case
  proof (cases "max_files < chain_len (inner oc)")
    case True
    obtain r oc1 deleted1 w1 where s: "delete_oldest_for_retention os protected oc deleted w = (r, oc1, deleted1, w1)"
      by (metis prod.exhaust)
    note run = "1.prems"(2) [unfolded retain_count_loop.simps [of os max_files protected oc deleted w]]
    from "1.prems"(1) s show ?thesis
    proof (cases rule: delete_step)
      case (removed f)
      then have "retain_count_loop os max_files protected oc1 deleted1 w1 = (e, oc', deleted', w')" using run True s by simp
      then obtain d where d: "deleted' = deleted1 @ d" "pruned protected oc1 d oc'"
          "e = None \<longrightarrow> length (files (inner oc')) \<le> max_files \<or> only_protected protected oc'"
        using "1.IH" [OF True s [symmetric] removed(1) refl refl refl pruned_chain_ok [OF removed(3)]] by blast
      then have "pruned protected oc ([f] @ d) oc'" using removed(3) pruned_trans by blast
      then show ?thesis using d removed(2) by auto
    qed (use run True s in auto)
  next
    case False
    then show ?thesis using "1.prems" by (auto simp: retain_count_loop.simps chain_len_def pruned_refl)
  qed
qed

lemma retain_size_loop_prunes:
  assumes "chain_ok (inner oc)" "retain_size_loop os max_total_size protected oc deleted w = (e, oc', deleted', w')"
  shows "\<exists>d. deleted' = deleted @ d \<and> pruned protected oc d oc' \<and>
    (e = None \<longrightarrow> total_size oc' \<le> max_total_size \<or> only_protected protected oc')"
  using assms
proof (induction os max_total_size protected oc deleted w rule: retain_size_loop.induct)
  case (1 os max_total_size protected oc deleted w)
  show ?case
  proof (cases "max_total_size < total_size oc \<and> \<not> chain_is_empty (inner oc)")
    case True
    obtain r oc1 deleted1 w1 where s: "delete_oldest_for_retention os protected oc deleted w = (r, oc1, deleted1, w1)"
      by (metis prod.exhaust)
    note run = "1.prems"(2) [unfolded retain_size_loop.simps [of os max_total_size protected oc deleted w]]
    from "1.prems"(1) s show ?thesis
    proof (cases rule: delete_step)
      case (removed f)
      then have "retain_size_loop os max_total_size protected oc1 deleted1 w1 = (e, oc', deleted', w')" using run True s by simp
      then obtain d where d: "deleted' = deleted1 @ d" "pruned protected oc1 d oc'"
          "e = None \<longrightarrow> total_size oc' \<le> max_total_size \<or> only_protected protected oc'"
        using "1.IH" [OF True s [symmetric] removed(1) refl refl refl pruned_chain_ok [OF removed(3)]] by blast
      then have "pruned protected oc ([f] @ d) oc'" using removed(3) pruned_trans by blast
      then show ?thesis using d removed(2) by auto
    qed (use run True s in auto)
  next
    case False
    then have "retain_size_loop os max_total_size protected oc deleted w = (None, oc, deleted, w)"
      by (subst retain_size_loop.simps) (simp only: False if_False)
    then show ?thesis
      using "1.prems" False by (auto simp: chain_is_empty_def pruned_refl only_protected_def not_less)
  qed
qed

text \<open>The drained files fall into deleted, failed and kept ones; the deleted ones are no longer tracked.\<close>

definition older_post ::
  "File option \<Rightarrow> File list \<Rightarrow> File list \<Rightarrow> File list \<Rightarrow> File list \<Rightarrow> WriterError option \<Rightarrow> OwnedChain \<Rightarrow> OwnedChain \<Rightarrow> bool" where
  "older_post protected fs d x k fe oc oc' \<longleftrightarrow>
     set fs = set d \<union> set x \<union> set k \<and> distinct d \<and> set d \<inter> (set x \<union> set k) = {} \<and>
     (\<forall>f \<in> set k. protected = Some f) \<and> (\<forall>f \<in> set d. protected \<noteq> Some f) \<and> (fe = None \<longrightarrow> x = []) \<and>
     file_sizes oc' = filter (\<lambda>p. fst p \<notin> set d) (file_sizes oc) \<and> total_size oc' \<le> total_size oc \<and>
     (accounted oc \<longrightarrow> accounted oc') \<and> oc_path oc' = oc_path oc \<and> inner oc' = inner oc"

lemma older_post_Cons:
  assumes "f \<notin> set fs"
  shows "protected = Some f \<Longrightarrow> older_post protected fs d x k fe oc oc' \<Longrightarrow> older_post protected (f # fs) d x (f # k) fe oc oc'"
    and "fe \<noteq> None \<Longrightarrow> older_post protected fs d x k fe oc oc' \<Longrightarrow> older_post protected (f # fs) d (f # x) k fe oc oc'"
    and "protected \<noteq> Some f \<Longrightarrow> older_post protected fs d x k fe (untrack f oc) oc' \<Longrightarrow> older_post protected (f # fs) (f # d) x k fe oc oc'"
proof -
  show "older_post protected (f # fs) d x (f # k) fe oc oc'" if "protected = Some f" "older_post protected fs d x k fe oc oc'"
    using that assms by (auto simp: older_post_def)
  show "older_post protected (f # fs) d (f # x) k fe oc oc'" if "fe \<noteq> None" "older_post protected fs d x k fe oc oc'"
    using that assms by (auto simp: older_post_def)
  show "older_post protected (f # fs) (f # d) x k fe oc oc'"
    if "protected \<noteq> Some f" "older_post protected fs d x k fe (untrack f oc) oc'"
  proof -
    have "total_size (untrack f oc) \<le> total_size oc" by (simp add: untrack_def saturating_sub_le)
    moreover have "file_sizes (untrack f oc) = filter (\<lambda>p. fst p \<noteq> f) (file_sizes oc)" by (simp add: untrack_def alist_delete_filter)
    moreover have "oc_path (untrack f oc) = oc_path oc" "inner (untrack f oc) = inner oc" by (simp_all add: untrack_def)
    ultimately show ?thesis
      using that assms accounted_untrack [of oc f] by (auto simp: older_post_def conj_commute)
  qed
qed

lemma older_loop_steps:
  "protected = Some f \<Longrightarrow>
    older_loop os protected (f # fs) deleted failed kept fe oc w = older_loop os protected fs deleted failed (kept @ [f]) fe oc w"
  "protected \<noteq> Some f \<Longrightarrow> os_remove os (f_path f) w = (Inl OtherIoError, w1) \<Longrightarrow>
    older_loop os protected (f # fs) deleted failed kept fe oc w =
      older_loop os protected fs deleted (failed @ [f]) kept (if fe = None then Some (WriterIo OtherIoError) else fe) oc w1"
  "protected \<noteq> Some f \<Longrightarrow> os_remove os (f_path f) w = (r, w1) \<Longrightarrow> r \<noteq> Inl OtherIoError \<Longrightarrow>
    older_loop os protected (f # fs) deleted failed kept fe oc w =
      older_loop os protected fs (deleted @ [f]) failed kept fe (untrack f oc) w1"
  by (simp_all add: untrack_def Let_def split: sum.splits IoError.splits)

lemma os_remove_cases:
  obtains (kept) "protected = Some f"
  | (failed) w1 where "protected \<noteq> Some f" "os_remove os (f_path f) w = (Inl OtherIoError, w1)"
  | (removed) r w1 where "protected \<noteq> Some f" "os_remove os (f_path f) w = (r, w1)" "r \<noteq> Inl OtherIoError"
  by (metis prod.exhaust)

lemma older_loop_error:
  "fe \<noteq> None \<Longrightarrow> older_loop os protected fs deleted failed kept fe oc w = (d, x, k, fe', rest) \<Longrightarrow> fe' \<noteq> None"
proof (induction fs arbitrary: deleted failed kept oc w)
  case (Cons f fs)
  show ?case
  proof (cases rule: os_remove_cases [where protected = protected and f = f and os = os and w = w])
    case kept
    then show ?thesis using Cons by (simp only: older_loop_steps(1)) blast
  next
    case (failed w1)
    have "older_loop os protected (f # fs) deleted failed kept fe oc w = older_loop os protected fs deleted (failed @ [f]) kept fe oc w1"
      unfolding older_loop_steps(2) [OF failed] if_not_P [OF Cons.prems(1)] ..
    then show ?thesis using Cons.IH [OF Cons.prems(1)] Cons.prems(2) by metis
  next
    case (removed r w1)
    then show ?thesis using Cons by (simp only: older_loop_steps(3) [OF removed]) blast
  qed
qed simp

lemma older_loop_deletes:
  assumes "older_loop os protected fs deleted failed kept fe oc w = (deleted', failed', kept', fe', oc', w')" "distinct fs"
  shows "\<exists>d x k. deleted' = deleted @ d \<and> failed' = failed @ x \<and> kept' = kept @ k \<and> older_post protected fs d x k fe' oc oc'"
  using assms
proof (induction fs arbitrary: deleted failed kept fe oc w)
  case Nil
  then show ?case by (auto simp: older_post_def)
next
  case (Cons f fs)
  have f: "f \<notin> set fs" "distinct fs" using Cons.prems(2) by auto
  show ?case
  proof (cases rule: os_remove_cases [where protected = protected and f = f and os = os and w = w])
    case kept
    have run: "older_loop os protected fs deleted failed (kept @ [f]) fe oc w = (deleted', failed', kept', fe', oc', w')"
      using Cons.prems(1) by (simp only: older_loop_steps(1) [OF kept])
    obtain d x k where "deleted' = deleted @ d" "failed' = failed @ x" "kept' = (kept @ [f]) @ k" "older_post protected fs d x k fe' oc oc'"
      using Cons.IH [OF run f(2)] by blast
    then show ?thesis using older_post_Cons(1) [OF f(1) kept] by (intro exI [of _ d] exI [of _ x] exI [of _ "f # k"]) simp
  next
    case (failed w1)
    let ?fe = "if fe = None then Some (WriterIo OtherIoError) else fe"
    have run: "older_loop os protected fs deleted (failed @ [f]) kept ?fe oc w1 = (deleted', failed', kept', fe', oc', w')"
      using Cons.prems(1) by (simp only: older_loop_steps(2) [OF failed])
    have ne: "?fe \<noteq> None" by (cases fe) auto
    have "fe' \<noteq> None" by (rule older_loop_error [OF ne run])
    moreover obtain d x k where "deleted' = deleted @ d" "failed' = (failed @ [f]) @ x" "kept' = kept @ k" "older_post protected fs d x k fe' oc oc'"
      using Cons.IH [OF run f(2)] by blast
    ultimately show ?thesis using older_post_Cons(2) [OF f(1)] by (intro exI [of _ d] exI [of _ "f # x"] exI [of _ k]) simp
  next
    case (removed r w1)
    have run: "older_loop os protected fs (deleted @ [f]) failed kept fe (untrack f oc) w1 = (deleted', failed', kept', fe', oc', w')"
      using Cons.prems(1) by (simp only: older_loop_steps(3) [OF removed])
    obtain d x k where "deleted' = (deleted @ [f]) @ d" "failed' = failed @ x" "kept' = kept @ k" "older_post protected fs d x k fe' (untrack f oc) oc'"
      using Cons.IH [OF run f(2)] by blast
    then show ?thesis using older_post_Cons(3) [OF f(1) removed(1)] by (intro exI [of _ "f # d"] exI [of _ x] exI [of _ k]) simp
  qed
qed

lemma delete_files_older_than_deletes:
  assumes "chain_ok (inner oc)" "delete_files_older_than os now age protected oc w = (outcome, oc', w')"
  shows "shrunk protected oc (deleted_files outcome) oc' \<and>
    (\<forall>f \<in> set (deleted_files outcome). should_drain (age_cutoff now age) f) \<and>
    (outcome_error outcome = None \<longrightarrow> (\<forall>f \<in> set (files (inner oc')). should_drain (age_cutoff now age) f \<longrightarrow> protected = Some f))"
proof -
  let ?P = "should_drain (age_cutoff now age)"
  let ?rest = "(inner oc)\<lparr>files := filter (\<lambda>f. \<not> ?P f) (files (inner oc))\<rparr>"
  obtain d x k fe oc1 where run: "older_loop os protected (filter ?P (files (inner oc))) [] [] [] None (oc\<lparr>inner := ?rest\<rparr>) w = (d, x, k, fe, oc1, w')"
    and out: "outcome = \<lparr>deleted_files = d, outcome_error = fe\<rparr>" "oc' = oc1\<lparr>inner := fold insert_file k (fold insert_file x (inner oc1))\<rparr>"
    using assms(2) by (auto simp: delete_files_older_than_def chain_drain_filter split: prod.splits)
  have dist: "distinct (filter ?P (files (inner oc)))" using chain_ok_distinct [OF assms(1)] by simp
  have post: "older_post protected (filter ?P (files (inner oc))) d x k fe (oc\<lparr>inner := ?rest\<rparr>) oc1"
    using older_loop_deletes [OF run dist] by simp
  then have sets: "{f \<in> set (files (inner oc)). ?P f} = set d \<union> set x \<union> set k" "inner oc1 = ?rest"
    by (auto simp: older_post_def)
  have rest: "chain_ok ?rest" "set (files ?rest) = {f \<in> set (files (inner oc)). \<not> ?P f}"
    using chain_ok_filter [OF assms(1)] by auto
  have "chain_ok (fold insert_file x ?rest) \<and> set (files (fold insert_file x ?rest)) = set x \<union> set (files ?rest)"
    using sets rest by (intro reinserted [OF assms(1)]) auto
  moreover from this have "chain_ok (fold insert_file k (fold insert_file x ?rest)) \<and>
      set (files (fold insert_file k (fold insert_file x ?rest))) = set k \<union> (set x \<union> set (files ?rest))"
    using sets rest reinserted [OF assms(1), of "fold insert_file x ?rest" k] by auto
  ultimately have inner': "chain_ok (inner oc')" "set (files (inner oc')) = set k \<union> (set x \<union> set (files ?rest))"
    by (auto simp: out(2) sets(2))
  moreover have "set k \<union> (set x \<union> set (files ?rest)) = set (files (inner oc)) - set d"
    using sets(1) post rest(2) by (auto simp: older_post_def)
  moreover have "accounted (oc\<lparr>inner := ?rest\<rparr>) = accounted oc" "accounted oc' = accounted oc1" by (simp_all add: accounted_def out(2))
  ultimately show ?thesis
    using post sets(1) rest(2) by (auto simp: shrunk_def older_post_def out)
qed

section \<open>Retention keeps its promises\<close>

lemma only_protected_shrunk: "only_protected protected oc \<Longrightarrow> shrunk protected oc d oc' \<Longrightarrow> only_protected protected oc'"
  by (auto simp: only_protected_def shrunk_def)

lemma shrunk_refl: "chain_ok (inner oc) \<Longrightarrow> shrunk protected oc [] oc"
  by (simp add: shrunk_none)

lemma length_shrunk:
  assumes "chain_ok (inner oc)" "shrunk protected oc d oc'"
  shows "length (files (inner oc')) \<le> length (files (inner oc))"
proof -
  have "chain_ok (inner oc')" "set (files (inner oc')) \<subseteq> set (files (inner oc))" using assms(2) by (auto simp: shrunk_def)
  then show ?thesis by (simp add: chain.length_members assms(1) card_mono)
qed

lemma retain_by_file_count_prunes:
  assumes "chain_ok (inner oc)" "retain_by_file_count os policy protected oc deleted w = (e, oc', deleted', w')"
  shows "\<exists>d. deleted' = deleted @ d \<and> pruned protected oc d oc' \<and>
    (\<forall>n. e = None \<longrightarrow> number_of_journal_files policy = Some n \<longrightarrow> length (files (inner oc')) \<le> n \<or> only_protected protected oc')"
proof (cases "number_of_journal_files policy")
  case None
  then show ?thesis using assms pruned_refl by (auto simp: retain_by_file_count_def)
next
  case (Some n)
  then show ?thesis using assms retain_count_loop_prunes [OF assms(1)] by (auto simp: retain_by_file_count_def)
qed

lemma retain_by_total_size_prunes:
  assumes "chain_ok (inner oc)" "retain_by_total_size os policy protected oc deleted w = (e, oc', deleted', w')"
  shows "\<exists>d. deleted' = deleted @ d \<and> pruned protected oc d oc' \<and>
    (\<forall>n. e = None \<longrightarrow> size_of_journal_files policy = Some n \<longrightarrow> total_size oc' \<le> n \<or> only_protected protected oc')"
proof (cases "size_of_journal_files policy")
  case None
  then show ?thesis using assms pruned_refl by (auto simp: retain_by_total_size_def)
next
  case (Some n)
  then show ?thesis using assms retain_size_loop_prunes [OF assms(1)] by (auto simp: retain_by_total_size_def)
qed

lemma retain_by_entry_age_deletes:
  assumes "chain_ok (inner oc)" "retain_by_entry_age os now policy protected oc deleted w = (e, oc', deleted', w')"
  shows "\<exists>d. deleted' = deleted @ d \<and> shrunk protected oc d oc' \<and> (duration_of_journal_files policy = None \<longrightarrow> d = [] \<and> oc' = oc) \<and>
    (\<forall>age. e = None \<longrightarrow> duration_of_journal_files policy = Some age \<longrightarrow>
       (\<forall>f \<in> set (files (inner oc')). should_drain (age_cutoff now age) f \<longrightarrow> protected = Some f))"
proof (cases "duration_of_journal_files policy")
  case None
  then show ?thesis using assms by (auto simp: retain_by_entry_age_def intro!: shrunk_none)
next
  case (Some age)
  then show ?thesis
    using assms delete_files_older_than_deletes [OF assms(1)] by (fastforce simp: retain_by_entry_age_def split: prod.splits)
qed

text \<open>The phases of \<open>retain\<close>: a phase runs only if the ones before it succeeded.\<close>

lemma retain_phases:
  assumes ok: "chain_ok (inner oc)" and "retain os now policy protected oc w = (outcome, oc', w')"
  obtains d oc1 d' where "deleted_files outcome = d @ d'" "pruned protected oc d oc1" "shrunk protected oc1 d' oc'"
    "duration_of_journal_files policy = None \<Longrightarrow> d' = [] \<and> oc' = oc1"
    "outcome_error outcome = None \<Longrightarrow> number_of_journal_files policy = Some n \<Longrightarrow> length (files (inner oc1)) \<le> n \<or> only_protected protected oc1"
    "outcome_error outcome = None \<Longrightarrow> size_of_journal_files policy = Some m \<Longrightarrow> total_size oc1 \<le> m \<or> only_protected protected oc1"
    "outcome_error outcome = None \<Longrightarrow> duration_of_journal_files policy = Some age \<Longrightarrow>
       \<forall>f \<in> set (files (inner oc')). should_drain (age_cutoff now age) f \<longrightarrow> protected = Some f"
proof -
  obtain e1 oc1 del1 w1 where c: "retain_by_file_count os policy protected oc [] w = (e1, oc1, del1, w1)" by (metis prod.exhaust)
  have p1: "pruned protected oc del1 oc1" and l1: "e1 = None \<Longrightarrow> number_of_journal_files policy = Some n \<Longrightarrow> length (files (inner oc1)) \<le> n \<or> only_protected protected oc1"
    using retain_by_file_count_prunes [OF ok c] by auto
  show ?thesis
  proof (cases e1)
    case (Some e)
    then have out: "outcome = \<lparr>deleted_files = del1, outcome_error = Some e\<rparr>" "oc' = oc1" using assms(2) c by (auto simp: retain_def)
    show ?thesis
      by (rule that [of del1 "[]" oc1]) (simp_all add: out p1 shrunk_refl [OF pruned_chain_ok [OF p1]])
  next
    case e1: None
    obtain e2 oc2 del2 w2 where s: "retain_by_total_size os policy protected oc1 del1 w1 = (e2, oc2, del2, w2)" by (metis prod.exhaust)
    obtain d where d: "del2 = del1 @ d" "pruned protected oc1 d oc2"
        "e2 = None \<Longrightarrow> size_of_journal_files policy = Some m \<Longrightarrow> total_size oc2 \<le> m \<or> only_protected protected oc2"
      using retain_by_total_size_prunes [OF pruned_chain_ok [OF p1] s] by blast
    have p2: "pruned protected oc del2 oc2" unfolding d(1) using p1 d(2) by (rule pruned_trans)
    have l2: "number_of_journal_files policy = Some n \<Longrightarrow> length (files (inner oc2)) \<le> n \<or> only_protected protected oc2"
    proof -
      assume "number_of_journal_files policy = Some n"
      moreover have "shrunk protected oc1 d oc2" using d(2) by (simp add: pruned_def)
      ultimately show ?thesis
        using l1 [OF e1] length_shrunk [OF pruned_chain_ok [OF p1], of protected d oc2] only_protected_shrunk by fastforce
    qed
    show ?thesis
    proof (cases e2)
      case (Some e)
      then have out: "outcome = \<lparr>deleted_files = del2, outcome_error = Some e\<rparr>" "oc' = oc2" using assms(2) c s e1 by (auto simp: retain_def)
      show ?thesis
        by (rule that [of del2 "[]" oc2]) (simp_all add: out p2 shrunk_refl [OF pruned_chain_ok [OF p2]])
    next
      case e2: None
      obtain e3 oc3 del3 w3 where a: "retain_by_entry_age os now policy protected oc2 del2 w2 = (e3, oc3, del3, w3)" by (metis prod.exhaust)
      obtain d' where conj: "del3 = del2 @ d' \<and> shrunk protected oc2 d' oc3 \<and> (duration_of_journal_files policy = None \<longrightarrow> d' = [] \<and> oc3 = oc2) \<and>
          (\<forall>age. e3 = None \<longrightarrow> duration_of_journal_files policy = Some age \<longrightarrow>
             (\<forall>f \<in> set (files (inner oc3)). should_drain (age_cutoff now age) f \<longrightarrow> protected = Some f))"
        by (rule exE [OF retain_by_entry_age_deletes [OF pruned_chain_ok [OF p2] a]])
      note d' = conj [THEN conjunct1] conj [THEN conjunct2, THEN conjunct1] conj [THEN conjunct2, THEN conjunct2]
      have out: "deleted_files outcome = del3" "oc' = oc3" "outcome_error outcome = None \<Longrightarrow> e3 = None"
        using assms(2) by (auto simp: retain_def c s a e1 e2 split: option.splits prod.splits)
      have "deleted_files outcome = del2 @ d'" "shrunk protected oc2 d' oc'" using out(1,2) d'(1,2) by simp_all
      then show ?thesis using p2 d'(3) l2 d(3) [OF e2] out(2,3) by (intro that [of del2 d' oc2]) simp_all
    qed
  qed
qed

text \<open>
  What retention asks the file system to unlink.  \<open>logged os\<close> is the operating system \<open>os\<close> with a record of every
  path it was asked to remove; \<open>unlinked\<close> says which paths a part of retention adds to that record.
\<close>

definition logged :: "'w Os \<Rightarrow> ('w \<times> string list) Os" where
  "logged os =
     \<lparr>os_contents = (\<lambda>p w. os_contents os p (fst w)), os_len = (\<lambda>p w. os_len os p (fst w)),
      os_exists = (\<lambda>p w. os_exists os p (fst w)), os_read_dir = (\<lambda>p w. os_read_dir os p (fst w)),
      os_remove = (\<lambda>p w. case os_remove os p (fst w) of (r, w') \<Rightarrow> (r, w', snd w @ [p])),
      os_rename = (\<lambda>p q w. case os_rename os p q (fst w) of (r, w') \<Rightarrow> (r, w', snd w)),
      os_sync_file = (\<lambda>p w. case os_sync_file os p (fst w) of (r, w') \<Rightarrow> (r, w', snd w)),
      os_sync_directory = (\<lambda>p w. case os_sync_directory os p (fst w) of (r, w') \<Rightarrow> (r, w', snd w))\<rparr>"

definition unlinked ::
  "File option \<Rightarrow> OwnedChain \<Rightarrow> File list \<Rightarrow> WriterError option \<Rightarrow> 'w \<times> string list \<Rightarrow> 'w \<times> string list \<Rightarrow> bool" where
  "unlinked protected oc deleted e w w' \<longleftrightarrow>
     (\<exists>fs. snd w' = snd w @ map f_path fs \<and> set fs \<subseteq> set (files (inner oc)) \<and> (\<forall>f \<in> set fs. protected \<noteq> Some f) \<and>
        set deleted \<subseteq> set fs \<and> (e = None \<longrightarrow> fs = deleted))"

lemma logged_remove: "os_remove (logged os) p w = (r, w') \<Longrightarrow> snd w' = snd w @ [p]"
  by (auto simp: logged_def split: prod.splits)

lemma logged_sync: "os_sync_directory (logged os) p w = (r, w') \<Longrightarrow> snd w' = snd w"
  by (auto simp: logged_def split: prod.splits)

lemma unlinked_none: "snd w' = snd w \<Longrightarrow> unlinked protected oc [] e w w'"
  unfolding unlinked_def by (rule exI [of _ "[]"]) simp

lemma unlinked_trans:
  assumes "unlinked protected oc d1 None w w1" "unlinked protected oc1 d2 e w1 w2" "shrunk protected oc d1 oc1"
  shows "unlinked protected oc (d1 @ d2) e w w2"
proof -
  obtain fs where "snd w2 = snd w1 @ map f_path fs" "set fs \<subseteq> set (files (inner oc1))" "\<forall>f \<in> set fs. protected \<noteq> Some f"
      "set d2 \<subseteq> set fs" "e = None \<longrightarrow> fs = d2"
    using assms(2) by (auto simp: unlinked_def)
  with assms(1,3) show ?thesis unfolding unlinked_def by (intro exI [of _ "d1 @ fs"]) (auto simp: shrunk_def)
qed

lemma delete_oldest_unlinks:
  assumes "delete_oldest_file (logged os) protected oc w = (r, oc', w')"
  shows "unlinked protected oc (case r of Inr (Some f) \<Rightarrow> [f] | _ \<Rightarrow> []) (case r of Inl e \<Rightarrow> Some e | Inr _ \<Rightarrow> None) w w'"
proof -
  obtain skipped p rest where pop: "pop_unprotected protected [] (files (inner oc)) = (skipped, p, rest)" by (metis prod.exhaust)
  note split = pop_unprotected_split [OF pop]
  show ?thesis
  proof (cases p)
    case None
    then show ?thesis using assms pop by (auto simp: delete_oldest_file_def intro!: unlinked_none)
  next
    case (Some f)
    have f: "f \<in> set (files (inner oc))" "protected \<noteq> Some f"
      using arg_cong [OF split [THEN conjunct1], of set] split Some by auto
    obtain q w1 where rm: "os_remove (logged os) (f_path f) w = (q, w1)" by (metis prod.exhaust)
    have r: "w' = w1 \<and> (r = Inr (Some f) \<or> (\<exists>e. r = Inl e))"
      using assms pop Some rm by (auto simp: delete_oldest_file_def Let_def split: sum.splits IoError.splits)
    show ?thesis
      unfolding unlinked_def by (rule exI [of _ "[f]"]) (use r f logged_remove [OF rm] in \<open>auto\<close>)
  qed
qed

lemma delete_step_unlinks:
  assumes "delete_oldest_for_retention (logged os) protected oc deleted w = (r, oc', deleted', w')"
  shows "\<exists>d. deleted' = deleted @ d \<and> unlinked protected oc d (case r of Inl e \<Rightarrow> Some e | Inr _ \<Rightarrow> None) w w'"
proof -
  obtain q where q: "delete_oldest_file (logged os) protected oc w = (q, oc', w')"
      "(r, deleted') = (case q of Inl e \<Rightarrow> (Inl e, deleted) | Inr None \<Rightarrow> (Inr False, deleted) | Inr (Some f) \<Rightarrow> (Inr True, deleted @ [f]))"
    using assms by (auto simp: delete_oldest_for_retention_def split: prod.splits sum.splits option.splits)
  show ?thesis
    using delete_oldest_unlinks [OF q(1)] q(2) by (auto split: sum.splits option.splits)
qed

text \<open>A removal that succeeded and then the rest of the loop.\<close>

lemma removal_unlinks:
  assumes ok: "chain_ok (inner oc)" and s: "delete_oldest_for_retention (logged os) protected oc deleted w = (Inr True, oc1, deleted1, w1)"
    and rest: "\<And>d. chain_ok (inner oc1) \<Longrightarrow> \<exists>d. deleted' = deleted1 @ d \<and> unlinked protected oc1 d e w1 w'"
  shows "\<exists>d. deleted' = deleted @ d \<and> unlinked protected oc d e w w'"
proof -
  obtain f where f: "deleted1 = deleted @ [f]" "pruned protected oc [f] oc1" using delete_step [OF ok s] by auto
  have u: "unlinked protected oc [f] None w w1" using delete_step_unlinks [OF s] f(1) by auto
  obtain d where "deleted' = deleted1 @ d" "unlinked protected oc1 d e w1 w'" using rest pruned_chain_ok [OF f(2)] by blast
  then show ?thesis using unlinked_trans [OF u] f by (auto simp: pruned_def)
qed

lemma retain_count_loop_unlinks:
  assumes "chain_ok (inner oc)" "retain_count_loop (logged os) max_files protected oc deleted w = (e, oc', deleted', w')"
  shows "\<exists>d. deleted' = deleted @ d \<and> unlinked protected oc d e w w'"
  using assms
proof (induction "logged os" max_files protected oc deleted w rule: retain_count_loop.induct)
  case (1 max_files protected oc deleted w)
  show ?case
  proof (cases "max_files < chain_len (inner oc)")
    case True
    obtain r oc1 deleted1 w1 where s: "delete_oldest_for_retention (logged os) protected oc deleted w = (r, oc1, deleted1, w1)"
      by (metis prod.exhaust)
    note run = "1.prems"(2) [unfolded retain_count_loop.simps [of "logged os" max_files protected oc deleted w]]
    show ?thesis
    proof (cases "r = Inr True")
      case r: True
      then have "retain_count_loop (logged os) max_files protected oc1 deleted1 w1 = (e, oc', deleted', w')" using run True s by simp
      then show ?thesis
        using "1.hyps" [OF True s [symmetric] r refl refl refl] by (intro removal_unlinks [OF "1.prems"(1) s [unfolded r]]) blast
    next
      case False
      then show ?thesis
        using run True s delete_step_unlinks [OF s] by (auto split: sum.splits bool.splits)
    qed
  next
    case False
    then show ?thesis using "1.prems" by (auto simp: retain_count_loop.simps intro!: unlinked_none)
  qed
qed

lemma retain_size_loop_unlinks:
  assumes "chain_ok (inner oc)" "retain_size_loop (logged os) max_total_size protected oc deleted w = (e, oc', deleted', w')"
  shows "\<exists>d. deleted' = deleted @ d \<and> unlinked protected oc d e w w'"
  using assms
proof (induction "logged os" max_total_size protected oc deleted w rule: retain_size_loop.induct)
  case (1 max_total_size protected oc deleted w)
  show ?case
  proof (cases "max_total_size < total_size oc \<and> \<not> chain_is_empty (inner oc)")
    case True
    obtain r oc1 deleted1 w1 where s: "delete_oldest_for_retention (logged os) protected oc deleted w = (r, oc1, deleted1, w1)"
      by (metis prod.exhaust)
    note run = "1.prems"(2) [unfolded retain_size_loop.simps [of "logged os" max_total_size protected oc deleted w]]
    show ?thesis
    proof (cases "r = Inr True")
      case r: True
      then have "retain_size_loop (logged os) max_total_size protected oc1 deleted1 w1 = (e, oc', deleted', w')" using run True s by simp
      then show ?thesis
        using "1.hyps" [OF True s [symmetric] r refl refl refl] by (intro removal_unlinks [OF "1.prems"(1) s [unfolded r]]) blast
    next
      case False
      then show ?thesis
        using run True s delete_step_unlinks [OF s] by (auto split: sum.splits bool.splits)
    qed
  next
    case False
    then have "retain_size_loop (logged os) max_total_size protected oc deleted w = (None, oc, deleted, w)"
      by (subst retain_size_loop.simps) (simp only: False if_False)
    then show ?thesis using "1.prems" by (auto intro!: unlinked_none)
  qed
qed

lemma older_loop_unlinks:
  assumes "older_loop (logged os) protected fs deleted failed kept fe oc w = (deleted', failed', kept', fe', oc', w')"
  shows "\<exists>d gs. deleted' = deleted @ d \<and> snd w' = snd w @ map f_path gs \<and> set gs \<subseteq> set fs \<and>
    (\<forall>f \<in> set gs. protected \<noteq> Some f) \<and> set d \<subseteq> set gs \<and> (fe' = None \<longrightarrow> gs = d)"
  using assms
proof (induction fs arbitrary: deleted failed kept fe oc w)
  case (Cons f fs)
  show ?case
  proof (cases rule: os_remove_cases [where protected = protected and f = f and os = "logged os" and w = w])
    case kept
    then show ?thesis using Cons.IH [of deleted failed "kept @ [f]" fe oc w] Cons.prems
      unfolding older_loop_steps(1) [OF kept] by fastforce
  next
    case (failed w1)
    let ?fe = "if fe = None then Some (WriterIo OtherIoError) else fe"
    have run: "older_loop (logged os) protected fs deleted (failed @ [f]) kept ?fe oc w1 = (deleted', failed', kept', fe', oc', w')"
      using Cons.prems by (simp only: older_loop_steps(2) [OF failed])
    have "fe' \<noteq> None" by (rule older_loop_error [OF _ run]) (cases fe; simp)
    moreover obtain d gs where "deleted' = deleted @ d" "snd w' = snd w1 @ map f_path gs" "set gs \<subseteq> set fs"
        "\<forall>f \<in> set gs. protected \<noteq> Some f" "set d \<subseteq> set gs"
      using Cons.IH [OF run] by blast
    ultimately show ?thesis
      using failed(1) logged_remove [OF failed(2)] by (intro exI [of _ d] exI [of _ "f # gs"]) auto
  next
    case (removed r w1)
    have run: "older_loop (logged os) protected fs (deleted @ [f]) failed kept fe (untrack f oc) w1 = (deleted', failed', kept', fe', oc', w')"
      using Cons.prems by (simp only: older_loop_steps(3) [OF removed])
    obtain d gs where "deleted' = (deleted @ [f]) @ d" "snd w' = snd w1 @ map f_path gs" "set gs \<subseteq> set fs"
        "\<forall>f \<in> set gs. protected \<noteq> Some f" "set d \<subseteq> set gs" "fe' = None \<longrightarrow> gs = d"
      using Cons.IH [OF run] by blast
    then show ?thesis
      using removed(1) logged_remove [OF removed(2)] by (intro exI [of _ "f # d"] exI [of _ "f # gs"]) auto
  qed
qed simp

lemma retain_by_file_count_unlinks:
  assumes "chain_ok (inner oc)" "retain_by_file_count (logged os) policy protected oc deleted w = (e, oc', deleted', w')"
  shows "\<exists>d. deleted' = deleted @ d \<and> unlinked protected oc d e w w'"
proof (cases "number_of_journal_files policy")
  case None
  then show ?thesis using assms by (auto simp: retain_by_file_count_def unlinked_none)
next
  case (Some n)
  then have "retain_count_loop (logged os) n protected oc deleted w = (e, oc', deleted', w')" using assms(2) by (simp add: retain_by_file_count_def)
  from retain_count_loop_unlinks [OF assms(1) this] show ?thesis .
qed

lemma retain_by_total_size_unlinks:
  assumes "chain_ok (inner oc)" "retain_by_total_size (logged os) policy protected oc deleted w = (e, oc', deleted', w')"
  shows "\<exists>d. deleted' = deleted @ d \<and> unlinked protected oc d e w w'"
proof (cases "size_of_journal_files policy")
  case None
  then show ?thesis using assms by (auto simp: retain_by_total_size_def unlinked_none)
next
  case (Some n)
  then have "retain_size_loop (logged os) n protected oc deleted w = (e, oc', deleted', w')" using assms(2) by (simp add: retain_by_total_size_def)
  from retain_size_loop_unlinks [OF assms(1) this] show ?thesis .
qed

lemma retain_by_entry_age_unlinks:
  assumes "retain_by_entry_age (logged os) now policy protected oc deleted w = (e, oc', deleted', w')"
  shows "\<exists>d. deleted' = deleted @ d \<and> unlinked protected oc d e w w'"
proof (cases "duration_of_journal_files policy")
  case None
  then show ?thesis using assms by (auto simp: retain_by_entry_age_def intro!: unlinked_none)
next
  case (Some age)
  let ?P = "should_drain (age_cutoff now age)"
  obtain d x k oc1 where run: "older_loop (logged os) protected (filter ?P (files (inner oc))) [] [] []
        None (oc\<lparr>inner := (inner oc)\<lparr>files := filter (\<lambda>f. \<not> ?P f) (files (inner oc))\<rparr>\<rparr>) w = (d, x, k, e, oc1, w')"
    and out: "deleted' = deleted @ d"
    using assms Some by (auto simp: retain_by_entry_age_def delete_files_older_than_def chain_drain_filter split: prod.splits)
  obtain gs where "snd w' = snd w @ map f_path gs" "set gs \<subseteq> {f \<in> set (files (inner oc)). ?P f}" "\<forall>f \<in> set gs. protected \<noteq> Some f"
      "set d \<subseteq> set gs" "e = None \<longrightarrow> gs = d"
    using older_loop_unlinks [OF run] by auto
  then show ?thesis unfolding unlinked_def using out by blast
qed

lemma retain_unlinks:
  assumes ok: "chain_ok (inner oc)" and run: "retain (logged os) now policy protected oc w = (outcome, oc', w')"
  shows "unlinked protected oc (deleted_files outcome) (outcome_error outcome) w w'"
proof -
  obtain e1 oc1 del1 w1 where c: "retain_by_file_count (logged os) policy protected oc [] w = (e1, oc1, del1, w1)" by (metis prod.exhaust)
  have p1: "pruned protected oc del1 oc1" using retain_by_file_count_prunes [OF ok c] by auto
  have u1: "unlinked protected oc del1 e1 w w1"
    using retain_by_file_count_unlinks [OF ok c] by auto
  obtain e2 oc2 del2 w2 where s: "retain_by_total_size (logged os) policy protected oc1 del1 w1 = (e2, oc2, del2, w2)" by (metis prod.exhaust)
  obtain d2 where d2: "del2 = del1 @ d2" "unlinked protected oc1 d2 e2 w1 w2"
    using retain_by_total_size_unlinks [OF pruned_chain_ok [OF p1] s] by blast
  have p2: "pruned protected oc del2 oc2"
    using retain_by_total_size_prunes [OF pruned_chain_ok [OF p1] s] pruned_trans [OF p1] by metis
  obtain e3 oc3 del3 w3 where a: "retain_by_entry_age (logged os) now policy protected oc2 del2 w2 = (e3, oc3, del3, w3)" by (metis prod.exhaust)
  obtain d3 where d3: "del3 = del2 @ d3" "unlinked protected oc2 d3 e3 w2 w3" using retain_by_entry_age_unlinks [OF a] by blast
  have u2: "unlinked protected oc del2 e2 w w2" if "e1 = None"
    using unlinked_trans [OF u1 [unfolded that] d2(2)] p1 d2(1) by (simp add: pruned_def)
  have u3: "unlinked protected oc del3 e3 w w3" if "e1 = None" "e2 = None"
    using unlinked_trans [OF u2 [OF that(1), unfolded that(2)] d3(2)] p2 d3(1) by (simp add: pruned_def)
  have sync: "unlinked protected oc d e w w4"
    if "unlinked protected oc d None w w3" "sync_after_retention (logged os) oc3 d w3 = (e, w4)" for d e w4
  proof -
    have "snd w4 = snd w3"
      using that(2) by (auto simp: sync_after_retention_def split: if_splits prod.splits sum.splits dest: logged_sync)
    with that(1) show ?thesis unfolding unlinked_def by auto
  qed
  show ?thesis
  proof (cases "e1 = None \<and> e2 = None \<and> e3 = None")
    case True
    obtain e w4 where y: "sync_after_retention (logged os) oc3 del3 w3 = (e, w4)" by (metis prod.exhaust)
    then have "unlinked protected oc del3 e w w4" using sync [OF _ y] u3 True by blast
    then show ?thesis using run c s a y True by (auto simp: retain_def)
  next
    case False
    then show ?thesis using run c s a u1 u2 u3 by (auto simp: retain_def split: option.splits)
  qed
qed

text \<open>
  C21. Retention, on any operating system and whatever fails: the file system is asked to unlink only files of the
  chain, never the protected one; every file reported as deleted was unlinked, and if no error is reported
  exactly the reported files were, in that order.  The deleted files are distinct, exactly they leave the chain and the size table, the
  chain stays in order, and the total stays the sum of the tracked sizes.  For a policy without an age limit
  every file that remains is newer than every deleted one, except for the protected file.
\<close>

theorem retention_safe:
  assumes "chain_ok (inner oc)" and "retain (logged os) now policy protected oc (w, []) = (outcome, oc', (w', log))"
  shows "(\<exists>fs. log = map f_path fs \<and> set fs \<subseteq> set (files (inner oc)) \<and> (\<forall>f \<in> set fs. protected \<noteq> Some f) \<and>
      set (deleted_files outcome) \<subseteq> set fs \<and> (outcome_error outcome = None \<longrightarrow> fs = deleted_files outcome)) \<and>
    shrunk protected oc (deleted_files outcome) oc' \<and>
    (duration_of_journal_files policy = None \<longrightarrow>
      (\<forall>f \<in> set (deleted_files outcome). \<forall>g \<in> set (files (inner oc')). protected = Some g \<or> file_key f < file_key g))"
proof -
  obtain d oc1 d' where r: "deleted_files outcome = d @ d'" "pruned protected oc d oc1" "shrunk protected oc1 d' oc'"
      "duration_of_journal_files policy = None \<Longrightarrow> d' = [] \<and> oc' = oc1"
    using retain_phases [OF assms] by metis
  then show ?thesis
    using shrunk_trans [of protected oc d oc1 d' oc'] retain_unlinks [OF assms] by (auto simp: pruned_def unlinked_def)
qed

text \<open>The time in the name of a file: that of its first entry when it is archived, that of its disposal when it is disposed.\<close>

definition name_time :: "File \<Rightarrow> u64 option" where
  "name_time f = (case f_status f of Active \<Rightarrow> None | Archived _ _ head_rt \<Rightarrow> Some head_rt | Disposed timestamp _ \<Rightarrow> Some timestamp)"

lemma should_drain_time:
  assumes "age < 2 ^ 64"
  shows "should_drain (age_cutoff now age) f \<longleftrightarrow> (\<exists>t. name_time f = Some t \<and> unat t \<le> unat now - age)"
  using assms
  by (auto simp: should_drain_def name_time_def age_cutoff_def word_le_nat_alt unat_saturating_sub unat_of_nat split: Status.split)

lemma retain_by_age_only:
  assumes "number_of_journal_files policy = None" "size_of_journal_files policy = None" "duration_of_journal_files policy = Some age"
    and "retain os now policy protected oc w = (outcome, oc', w')" and "chain_ok (inner oc)"
  shows "\<forall>f \<in> set (deleted_files outcome). should_drain (age_cutoff now age) f"
proof -
  obtain out oc1 w1 where d: "delete_files_older_than os now age protected oc w = (out, oc1, w1)" by (metis prod.exhaust)
  have "deleted_files outcome = deleted_files out"
    using assms(1-4) d
    by (auto simp: retain_def retain_by_file_count_def retain_by_total_size_def retain_by_entry_age_def split: option.splits prod.splits)
  then show ?thesis using delete_files_older_than_deletes [OF assms(5) d] by simp
qed

text \<open>
  C22. If retention reports no error, every limit of the policy holds afterwards unless only the protected file is
  left: the number of files, their total size, and the age.  The age limit is exact: the time in the name of every file that
  remains, the protected one and the active ones apart, is later than the limit before now (in microseconds), and a
  policy that limits only the age deletes no file whose time is later than that.
\<close>

theorem retention_limits:
  assumes "chain_ok (inner oc)" and "retain os now policy protected oc w = (outcome, oc', w')" and "outcome_error outcome = None"
  shows "(\<forall>n. number_of_journal_files policy = Some n \<longrightarrow> length (files (inner oc')) \<le> n \<or> only_protected protected oc') \<and>
    (\<forall>m. size_of_journal_files policy = Some m \<longrightarrow> total_size oc' \<le> m \<or> only_protected protected oc') \<and>
    (\<forall>age. duration_of_journal_files policy = Some age \<and> age < 2 ^ 64 \<longrightarrow>
      (\<forall>f \<in> set (files (inner oc')). \<forall>t. name_time f = Some t \<longrightarrow> protected = Some f \<or> unat now - age < unat t) \<and>
      (number_of_journal_files policy = None \<and> size_of_journal_files policy = None \<longrightarrow>
        (\<forall>f \<in> set (deleted_files outcome). \<exists>t. name_time f = Some t \<and> unat t \<le> unat now - age)))"
proof (intro conjI allI impI)
  fix n assume n: "number_of_journal_files policy = Some n"
  obtain d oc1 d' where "pruned protected oc d oc1" "shrunk protected oc1 d' oc'" "length (files (inner oc1)) \<le> n \<or> only_protected protected oc1"
    using retain_phases [OF assms(1,2), of n] assms(3) n by metis
  then show "length (files (inner oc')) \<le> n \<or> only_protected protected oc'"
    using length_shrunk [OF pruned_chain_ok] only_protected_shrunk order_trans by metis
next
  fix m assume m: "size_of_journal_files policy = Some m"
  obtain d oc1 d' where "shrunk protected oc1 d' oc'" "total_size oc1 \<le> m \<or> only_protected protected oc1"
    using retain_phases [OF assms(1,2), of _ m] assms(3) m by metis
  then show "total_size oc' \<le> m \<or> only_protected protected oc'"
    using only_protected_shrunk unfolding shrunk_def by (meson order_trans)
next
  fix age assume age: "duration_of_journal_files policy = Some age \<and> age < 2 ^ 64"
  have "\<forall>f \<in> set (files (inner oc')). should_drain (age_cutoff now age) f \<longrightarrow> protected = Some f"
    using retain_phases [OF assms(1,2), of _ _ age] assms(3) age by metis
  then show "\<forall>f \<in> set (files (inner oc')). \<forall>t. name_time f = Some t \<longrightarrow> protected = Some f \<or> unat now - age < unat t"
    using age by (auto simp: should_drain_time not_le)
  assume "number_of_journal_files policy = None \<and> size_of_journal_files policy = None"
  then show "\<forall>f \<in> set (deleted_files outcome). \<exists>t. name_time f = Some t \<and> unat t \<le> unat now - age"
    using retain_by_age_only [OF _ _ _ assms(2,1)] age by (simp add: should_drain_time)
qed


text \<open>A file system that only remembers which paths were removed, and a chain of two archived files and an active one.\<close>

definition list_os :: "string list Os" where
  "list_os = \<lparr>os_contents = \<lambda>_ _. None, os_len = \<lambda>_ _. None, os_exists = \<lambda>p w. p \<notin> set w, os_read_dir = \<lambda>_ _. Inr [],
     os_remove = \<lambda>p w. (Inr (), p # w), os_rename = \<lambda>_ _ w. (Inr (), w), os_sync_file = \<lambda>_ w. (Inr (), w),
     os_sync_directory = \<lambda>_ w. (Inr (), w)\<rparr>"

definition sample_owned :: OwnedChain where
  "sample_owned = \<lparr>oc_path = ''/a'', oc_machine_id = 1, oc_source = System, oc_source_name = ''system'', inner = sample_chain,
     file_sizes = [(files sample_chain ! 0, 100), (files sample_chain ! 1, 50), (files sample_chain ! 2, 30)], total_size = 180\<rparr>"

lemma sample_chain_ok: "chain_ok sample_chain"
  by (simp add: chain_ok_def sample_chain_def file_of_def file_key_def less_Status_def less_eq_Status_def cmp_def)

definition sample_policy :: RetentionPolicy where
  "sample_policy = \<lparr>number_of_journal_files = None, size_of_journal_files = Some 90, duration_of_journal_files = None\<rparr>"

lemma sample_retain:
  "retain (logged list_os) 0 sample_policy (Some (files sample_chain ! 2)) sample_owned ([], []) =
    (\<lparr>deleted_files = [files sample_chain ! 0], outcome_error = None\<rparr>,
     sample_owned\<lparr>inner := \<lparr>files = tl (files sample_chain)\<rparr>, file_sizes := tl (file_sizes sample_owned), total_size := 80\<rparr>,
     ([f_path (files sample_chain ! 0)], [f_path (files sample_chain ! 0)]))"
  by (simp add: retain_def retain_by_file_count_def retain_by_total_size_def retain_by_entry_age_def sync_after_retention_def
      retain_size_loop.simps delete_oldest_for_retention_def delete_oldest_file_def sample_policy_def sample_owned_def sample_chain_def
      list_os_def logged_def chain_is_empty_def file_of_def Let_def saturating_sub_def)

theorem retention_safe_witness:
  "(\<exists>fs. [f_path (files sample_chain ! 0)] = map f_path fs \<and> fs = [files sample_chain ! 0] \<and> files sample_chain ! 2 \<notin> set fs) \<and>
    shrunk (Some (files sample_chain ! 2)) sample_owned [files sample_chain ! 0]
      (sample_owned\<lparr>inner := \<lparr>files = tl (files sample_chain)\<rparr>, file_sizes := tl (file_sizes sample_owned), total_size := 80\<rparr>)"
proof -
  have "chain_ok (inner sample_owned)" using sample_chain_ok by (simp add: sample_owned_def)
  from retention_safe [OF this sample_retain] show ?thesis by (auto simp del: list.map)
qed

definition sample_age_policy :: RetentionPolicy where
  "sample_age_policy = \<lparr>number_of_journal_files = None, size_of_journal_files = None, duration_of_journal_files = Some 1000\<rparr>"

lemma sample_retain_age:
  "retain list_os 10001000 sample_age_policy None sample_owned [] =
    (\<lparr>deleted_files = [files sample_chain ! 0], outcome_error = None\<rparr>,
     sample_owned\<lparr>inner := \<lparr>files = tl (files sample_chain)\<rparr>, file_sizes := tl (file_sizes sample_owned), total_size := 80\<rparr>,
     [f_path (files sample_chain ! 0)])"
  by (simp add: retain_def retain_by_file_count_def retain_by_total_size_def retain_by_entry_age_def sync_after_retention_def
      delete_files_older_than_def chain_drain_filter should_drain_def age_cutoff_def sample_age_policy_def sample_owned_def sample_chain_def
      list_os_def file_of_def Let_def saturating_sub_def)

theorem retention_limits_witness:
  "(\<exists>t. name_time (files sample_chain ! 1) = Some t \<and> 10000000 < unat t) \<and>
   (\<exists>t. name_time (files sample_chain ! 0) = Some t \<and> unat t \<le> 10000000)"
proof -
  have ok: "chain_ok (inner sample_owned)" using sample_chain_ok by (simp add: sample_owned_def)
  obtain t where t: "name_time (files sample_chain ! 1) = Some t" by (simp add: sample_chain_def file_of_def name_time_def)
  have "files sample_chain ! 1 \<in> set (tl (files sample_chain))" by (simp add: sample_chain_def)
  with retention_limits [OF ok sample_retain_age] t
  have "10000000 < unat t" "\<exists>t. name_time (files sample_chain ! 0) = Some t \<and> unat t \<le> 10000000"
    by (simp_all add: sample_age_policy_def)
  with t show ?thesis by blast
qed

definition sample_disposed :: Chain where
  "sample_disposed = \<lparr>files = [file_of ''/a/system@a-1.journal~'' 1 System (Disposed (of_nat (1000 * 10)) 1)]\<rparr>"


section \<open>Size accounting\<close>

lemma sum_update:
  "distinct (map fst al) \<Longrightarrow>
    sum_list (map (\<lambda>(_, n). unat n) (AList.update k v al)) + unat (case map_of al k of Some n \<Rightarrow> n | None \<Rightarrow> 0) =
      sum_list (map (\<lambda>(_, n). unat n) al) + unat v"
proof (induction al)
  case (Cons p al)
  then show ?case by (cases p) auto
qed simp

lemma accounted_remove_tracked:
  assumes "accounted oc"
  shows "accounted (remove_tracked_file f oc)"
proof (cases "map_of (file_sizes oc) f")
  case None
  then show ?thesis using assms by (simp add: remove_tracked_file_def accounted_def)
next
  case (Some n)
  then show ?thesis
    using accounted_untrack [OF assms, of f] by (simp add: remove_tracked_file_def untrack_def accounted_def)
qed

lemma unat_saturating_add: "unat a + unat b < 2 ^ LENGTH('a) \<Longrightarrow> unat (saturating_add a b) = unat a + unat (b :: 'a::len word)"
  by (simp add: saturating_add_def unat_word_ariths)

lemma accounted_update:
  assumes "accounted oc" "sum_list (map (\<lambda>(_, n). unat n) (file_sizes (update_file_size f n oc))) < 2 ^ 64"
  shows "accounted (update_file_size f n oc)"
proof -
  let ?old = "case map_of (file_sizes oc) f of Some n \<Rightarrow> n | None \<Rightarrow> 0"
  have d: "distinct (map fst (file_sizes oc))" and t: "unat (total_size oc) = sum_list (map (\<lambda>(_, n). unat n) (file_sizes oc))"
    using assms(1) by (simp_all add: accounted_def)
  have upd: "sum_list (map (\<lambda>(_, n). unat n) (AList.update f n (file_sizes oc))) + unat ?old = unat (total_size oc) + unat n"
    unfolding t by (rule sum_update [OF d])
  moreover have "unat ?old \<le> unat (total_size oc)" unfolding t using sum_delete [OF d, of f] by simp
  ultimately have sum: "sum_list (map (\<lambda>(_, n). unat n) (AList.update f n (file_sizes oc))) = unat (saturating_sub (total_size oc) ?old) + unat n"
    unfolding unat_saturating_sub by simp
  then have "unat (saturating_sub (total_size oc) ?old) + unat n < 2 ^ 64" using assms(2) by (simp add: update_file_size_def Let_def)
  then show ?thesis
    using d sum by (simp add: accounted_def update_file_size_def Let_def distinct_update unat_saturating_add)
qed

lemma accounted_archive:
  assumes "accounted oc" "archive_file os tp simple f uuid head_seqnum head_rt oc w = (r, oc', w')"
    and "\<And>a. r = Inr a \<Longrightarrow> a = f \<or> a \<notin> fst ` set (file_sizes oc)"
  shows "accounted oc'"
proof (cases r)
  case (Inl e)
  then have "oc' = oc"
    using assms(2) by (auto simp: archive_file_def Let_def split: option.splits prod.splits sum.splits if_splits)
  then show ?thesis using assms(1) by simp
next
  case (Inr a)
  let ?n = "case map_of (file_sizes oc) f of Some n \<Rightarrow> n | None \<Rightarrow> 0"
  have oc': "file_sizes oc' = AList.update a ?n (AList.delete f (file_sizes oc))" "total_size oc' = total_size oc"
    using assms(2) Inr by (auto simp: archive_file_def Let_def split: option.splits prod.splits sum.splits if_splits)
  have d: "distinct (map fst (file_sizes oc))" using assms(1) by (simp add: accounted_def)
  then have d': "distinct (map fst (AList.delete f (file_sizes oc)))" by (rule distinct_delete)
  have "map_of (AList.delete f (file_sizes oc)) a = None"
    using assms(3) [OF Inr] by (force simp: map_of_eq_None_iff alist_delete_filter)
  then have "sum_list (map (\<lambda>(_, n). unat n) (file_sizes oc')) = sum_list (map (\<lambda>(_, n). unat n) (file_sizes oc))"
    using sum_update [OF d', of a ?n] sum_delete [OF d, of f] unfolding oc'(1) by simp
  then show ?thesis using assms(1) d' by (simp add: accounted_def oc' distinct_update)
qed

text \<open>
  C24. Size accounting: forgetting a file, recording a new size (if the sum still fits in 64 bits) and archiving a
  file under a name that is not tracked yet keep the total equal to the sum of the tracked sizes, also when
  archiving fails half-way.
\<close>

theorem size_accounting:
  assumes "accounted oc"
  shows "accounted (remove_tracked_file f oc) \<and>
    (sum_list (map (\<lambda>(_, n). unat n) (file_sizes (update_file_size f n oc))) < 2 ^ 64 \<longrightarrow> accounted (update_file_size f n oc)) \<and>
    (\<forall>r oc' w'. archive_file os tp simple f uuid head_seqnum head_rt oc w = (r, oc', w') \<and>
       (\<forall>a. r = Inr a \<longrightarrow> a = f \<or> a \<notin> fst ` set (file_sizes oc)) \<longrightarrow> accounted oc')"
proof (intro conjI allI impI)
  show "accounted (remove_tracked_file f oc)" using assms by (rule accounted_remove_tracked)
  show "accounted (update_file_size f n oc)" if "sum_list (map (\<lambda>(_, n). unat n) (file_sizes (update_file_size f n oc))) < 2 ^ 64"
    using assms that by (rule accounted_update)
  show "accounted oc'" if "archive_file os tp simple f uuid head_seqnum head_rt oc w = (r, oc', w') \<and>
       (\<forall>a. r = Inr a \<longrightarrow> a = f \<or> a \<notin> fst ` set (file_sizes oc))" for r oc' w'
    using that by (intro accounted_archive [OF assms, of os tp simple f uuid head_seqnum head_rt w r oc' w']) simp_all
qed

theorem size_accounting_witness:
  "accounted (update_file_size (files sample_chain ! 2) 40 sample_owned)"
proof -
  have acc: "accounted sample_owned" by (simp add: accounted_def sample_owned_def sample_chain_def file_of_def)
  have "sum_list (map (\<lambda>(_, n). unat n) (file_sizes (update_file_size (files sample_chain ! 2) 40 sample_owned))) < 2 ^ 64"
    by (simp add: sample_owned_def sample_chain_def file_of_def update_file_size_def)
  then show ?thesis using size_accounting [OF acc, of "files sample_chain ! 2" 40 list_os] by blast
qed

text \<open>
  C25. When the active file has vanished, \<open>archive_existing_active_file\<close> forgets its size but not its share of the
  total: the total then exceeds the sum of the tracked sizes by the size of the vanished file, and retention by size
  deletes more than the policy asks for.
\<close>

theorem vanished_active_miscounted:
  assumes "accounted oc" "chain_back (inner oc) = Some f" "is_active f" "\<not> os_exists os (f_path f) w"
    and "map_of (file_sizes oc) f = Some n"
  shows "\<exists>oc'. archive_existing_active_file os tp simple sync_on_archive oc w = (Inr None, oc', w) \<and>
    unat (total_size oc') = sum_list (map (\<lambda>(_, n). unat n) (file_sizes oc')) + unat n"
  using assms sum_delete [of "file_sizes oc" f] by (simp add: archive_existing_active_file_def accounted_def)

theorem vanished_active_miscounted_witness:
  "\<exists>oc'. archive_existing_active_file list_os (\<lambda>_. None) (\<lambda>_. []) True sample_owned [''/a/system.journal''] = (Inr None, oc', [''/a/system.journal'']) \<and>
    unat (total_size oc') = sum_list (map (\<lambda>(_, n). unat n) (file_sizes oc')) + unat (30 :: u64)"
  by (rule vanished_active_miscounted [where f = "files sample_chain ! 2"])
    (simp_all add: accounted_def sample_owned_def sample_chain_def file_of_def chain_back_def is_active_def list_os_def)

text \<open>The search for a free disposal name ends if some drawn number leads to one.\<close>

lemma disposal_target_free:
  assumes "\<not> os_exists os (disposed_target stem stamp (draw k)) w" "i \<le> k"
  shows "\<exists>target. disposal_target os w stem stamp draw i = Some target \<and> \<not> os_exists os target w"
  using assms(2)
proof (induction "k - i" arbitrary: i)
  case 0
  then show ?case using assms(1) by (subst disposal_target.simps) (simp add: Let_def)
next
  case (Suc m)
  show ?case
  proof (cases "os_exists os (disposed_target stem stamp (draw i)) w")
    case True
    have "m = k - Suc i" "Suc i \<le> k" using Suc.hyps(2) by auto
    then show ?thesis using Suc.hyps(1) True by (subst disposal_target.simps) (simp add: Let_def)
  next
    case False
    then show ?thesis by (subst disposal_target.simps) (simp add: Let_def)
  qed
qed

section \<open>The tail of the chain\<close>

record TailState =
  ts_state :: u8
  ts_seqnum_id :: Uuid
  ts_tail_seqnum :: u64
  ts_tail_realtime :: u64
  ts_tail_boot_id :: Uuid
  ts_tail_monotonic :: u64
  ts_head_realtime :: u64

definition read_u64_le :: "u8 list \<Rightarrow> nat \<Rightarrow> u64 option" where
  "read_u64_le buf off = (if off + 8 \<le> length buf then Some (u64_at buf off) else None)"

definition read_uuid :: "u8 list \<Rightarrow> nat \<Rightarrow> Uuid option" where
  "read_uuid buf off = (if off + 16 \<le> length buf then Some (uuid_from_bytes (bytes_at buf off 16)) else None)"

definition tail_state_from_raw_header :: "'w Os \<Rightarrow> File \<Rightarrow> 'w \<Rightarrow> TailState option" where
  "tail_state_from_raw_header os file w =
     Option.bind (os_contents os (f_path file) w) (\<lambda>contents.
       if length contents < 208 then None
       else (let buf = take 208 contents
             in if bytes_at buf 0 8 \<noteq> journal_signature then None
                else
                  Option.bind (read_uuid buf 72) (\<lambda>seqnum_id.
                  Option.bind (read_u64_le buf 160) (\<lambda>tail_sq.
                  Option.bind (read_u64_le buf 192) (\<lambda>tail_realtime.
                  Option.bind (read_uuid buf 56) (\<lambda>boot_id.
                  Option.bind (read_u64_le buf 200) (\<lambda>tail_monotonic.
                  Option.bind (read_u64_le buf 184) (\<lambda>head_realtime.
                    Some \<lparr>ts_state = buf ! 16, ts_seqnum_id = seqnum_id, ts_tail_seqnum = tail_sq,
                          ts_tail_realtime = tail_realtime, ts_tail_boot_id = boot_id, ts_tail_monotonic = tail_monotonic,
                          ts_head_realtime = head_realtime\<rparr>))))))))"

definition tail_state_of_header :: "JournalHeader \<Rightarrow> TailState" where
  "tail_state_of_header header =
     \<lparr>ts_state = state header, ts_seqnum_id = uuid_from_bytes (seqnum_id header), ts_tail_seqnum = tail_entry_seqnum header,
      ts_tail_realtime = tail_entry_realtime header, ts_tail_boot_id = uuid_from_bytes (tail_entry_boot_id header),
      ts_tail_monotonic = tail_entry_monotonic header, ts_head_realtime = head_entry_realtime header\<rparr>"

definition tail_candidate :: "'w Os \<Rightarrow> File \<Rightarrow> 'w \<Rightarrow> TailState option" where
  "tail_candidate os file w =
     (case open_chain_file os file w of
        Inr jf \<Rightarrow> Some (tail_state_of_header (jf_header jf))
      | Inl _ \<Rightarrow> tail_state_from_raw_header os file w)"

definition later_tail :: "TailState \<Rightarrow> u64 \<Rightarrow> u64 \<Rightarrow> bool" where
  "later_tail candidate tail_sq head_rt \<longleftrightarrow>
     tail_sq < ts_tail_seqnum candidate \<or> ts_tail_seqnum candidate = tail_sq \<and> head_rt < ts_head_realtime candidate"

fun tail_state_loop :: "'w Os \<Rightarrow> (string \<Rightarrow> Uuid option) \<Rightarrow> Source \<Rightarrow> bool \<Rightarrow> 'w \<Rightarrow> string option list \<Rightarrow> TailState option \<Rightarrow> TailState option" where
  "tail_state_loop os tp source include_active w [] selected = selected"
| "tail_state_loop os tp source include_active w (None # entries) selected = tail_state_loop os tp source include_active w entries selected"
| "tail_state_loop os tp source include_active w (Some file_path # entries) selected =
     (case file_from_path tp file_path of
        None \<Rightarrow> tail_state_loop os tp source include_active w entries selected
      | Some file \<Rightarrow>
          if o_source (f_origin file) \<noteq> source \<or> \<not> include_active \<and> \<not> is_archived file
          then tail_state_loop os tp source include_active w entries selected
          else (case tail_candidate os file w of
                  None \<Rightarrow> tail_state_loop os tp source include_active w entries selected
                | Some candidate \<Rightarrow>
                    tail_state_loop os tp source include_active w entries
                      (case selected of
                         None \<Rightarrow> Some candidate
                       | Some current \<Rightarrow>
                           if later_tail candidate (ts_tail_seqnum current) (ts_head_realtime current) then Some candidate else selected)))"

definition tail_state :: "'w Os \<Rightarrow> (string \<Rightarrow> Uuid option) \<Rightarrow> bool \<Rightarrow> OwnedChain \<Rightarrow> 'w \<Rightarrow> WriterError + TailState option" where
  "tail_state os tp include_active oc w =
     (case os_read_dir os (oc_path oc) w of
        Inl e \<Rightarrow> Inl (WriterIo e)
      | Inr entries \<Rightarrow> Inr (tail_state_loop os tp (oc_source oc) include_active w entries None))"

definition tail_identity :: "'w Os \<Rightarrow> (string \<Rightarrow> Uuid option) \<Rightarrow> bool \<Rightarrow> OwnedChain \<Rightarrow> 'w \<Rightarrow> WriterError + (Uuid \<times> u64) option" where
  "tail_identity os tp include_active oc w =
     map_sum id (map_option (\<lambda>tail. (ts_seqnum_id tail, ts_tail_seqnum tail))) (tail_state os tp include_active oc w)"

definition tail_realtime :: "'w Os \<Rightarrow> (string \<Rightarrow> Uuid option) \<Rightarrow> bool \<Rightarrow> OwnedChain \<Rightarrow> 'w \<Rightarrow> WriterError + u64 option" where
  "tail_realtime os tp include_active oc w =
     map_sum id (\<lambda>tail. Option.bind tail (\<lambda>tail. nonzero (ts_tail_realtime tail))) (tail_state os tp include_active oc w)"

definition tail_monotonic_for_boot :: "'w Os \<Rightarrow> (string \<Rightarrow> Uuid option) \<Rightarrow> Uuid \<Rightarrow> bool \<Rightarrow> OwnedChain \<Rightarrow> 'w \<Rightarrow> WriterError + u64 option" where
  "tail_monotonic_for_boot os tp boot include_active oc w =
     map_sum id (\<lambda>tail. Option.bind tail (\<lambda>tail.
       if ts_tail_boot_id tail \<noteq> boot then None else nonzero (ts_tail_monotonic tail))) (tail_state os tp include_active oc w)"

text \<open>Only archived files that are still marked online count for \<open>online_chain_file\<close>; \<open>Online\<close> is 1.\<close>

fun online_loop :: "'w Os \<Rightarrow> (string \<Rightarrow> Uuid option) \<Rightarrow> Source \<Rightarrow> 'w \<Rightarrow> string option list \<Rightarrow> (File \<times> u64 \<times> u64) option \<Rightarrow> (File \<times> u64 \<times> u64) option" where
  "online_loop os tp source w [] selected = selected"
| "online_loop os tp source w (None # entries) selected = online_loop os tp source w entries selected"
| "online_loop os tp source w (Some file_path # entries) selected =
     (case file_from_path tp file_path of
        None \<Rightarrow> online_loop os tp source w entries selected
      | Some file \<Rightarrow>
          if o_source (f_origin file) \<noteq> source \<or> \<not> is_archived file then online_loop os tp source w entries selected
          else (case tail_candidate os file w of
                  None \<Rightarrow> online_loop os tp source w entries selected
                | Some candidate \<Rightarrow>
                    if ts_state candidate \<noteq> 1 then online_loop os tp source w entries selected
                    else online_loop os tp source w entries
                           (if case selected of None \<Rightarrow> True | Some (_, tail_sq, head_rt) \<Rightarrow> later_tail candidate tail_sq head_rt
                            then Some (file, ts_tail_seqnum candidate, ts_head_realtime candidate) else selected)))"

definition online_chain_file :: "'w Os \<Rightarrow> (string \<Rightarrow> Uuid option) \<Rightarrow> OwnedChain \<Rightarrow> 'w \<Rightarrow> WriterError + File option" where
  "online_chain_file os tp oc w =
     (case os_read_dir os (oc_path oc) w of
        Inl e \<Rightarrow> Inl (WriterIo e)
      | Inr entries \<Rightarrow> Inr (map_option fst (online_loop os tp (oc_source oc) w entries None)))"

text \<open>The candidate that an entry of the directory offers, and the set of all.\<close>

definition entry_candidate :: "'w Os \<Rightarrow> (string \<Rightarrow> Uuid option) \<Rightarrow> Source \<Rightarrow> bool \<Rightarrow> 'w \<Rightarrow> string \<Rightarrow> TailState option" where
  "entry_candidate os tp source include_active w path =
     Option.bind (file_from_path tp path) (\<lambda>file.
       if o_source (f_origin file) \<noteq> source \<or> \<not> include_active \<and> \<not> is_archived file then None else tail_candidate os file w)"

definition tail_candidates :: "'w Os \<Rightarrow> (string \<Rightarrow> Uuid option) \<Rightarrow> Source \<Rightarrow> bool \<Rightarrow> 'w \<Rightarrow> string option list \<Rightarrow> TailState set" where
  "tail_candidates os tp source include_active w entries =
     {t. \<exists>path. Some path \<in> set entries \<and> entry_candidate os tp source include_active w path = Some t}"

definition tail_order :: "TailState \<Rightarrow> u64 \<times> u64" where
  "tail_order t = (ts_tail_seqnum t, ts_head_realtime t)"

definition greatest_tail :: "TailState option \<Rightarrow> TailState set \<Rightarrow> bool" where
  "greatest_tail r S \<longleftrightarrow> (case r of None \<Rightarrow> S = {} | Some t \<Rightarrow> t \<in> S \<and> (\<forall>s \<in> S. tail_order s \<le> tail_order t))"

lemma later_tail_order: "later_tail t (ts_tail_seqnum s) (ts_head_realtime s) \<longleftrightarrow> tail_order s < tail_order t"
  by (auto simp: later_tail_def tail_order_def)

lemma tail_candidates_Cons:
  "tail_candidates os tp source include_active w (None # entries) = tail_candidates os tp source include_active w entries"
  "tail_candidates os tp source include_active w (Some path # entries) =
    set_option (entry_candidate os tp source include_active w path) \<union> tail_candidates os tp source include_active w entries"
  by (auto simp: tail_candidates_def)

lemma tail_state_loop_greatest:
  "greatest_tail (tail_state_loop os tp source include_active w entries selected)
    (set_option selected \<union> tail_candidates os tp source include_active w entries)"
proof (induction entries arbitrary: selected)
  case Nil
  then show ?case by (auto simp: greatest_tail_def tail_candidates_def split: option.splits)
next
  case (Cons entry entries)
  show ?case
  proof (cases entry)
    case None
    then show ?thesis using Cons by (simp add: tail_candidates_Cons)
  next
    case (Some path)
    show ?thesis
    proof (cases "entry_candidate os tp source include_active w path")
      case None
      then have "tail_state_loop os tp source include_active w (Some path # entries) selected = tail_state_loop os tp source include_active w entries selected"
        by (auto simp: entry_candidate_def split: option.splits)
      then show ?thesis using Cons None Some by (simp add: tail_candidates_Cons)
    next
      case cand: (Some t)
      let ?sel = "case selected of None \<Rightarrow> Some t
        | Some current \<Rightarrow> if later_tail t (ts_tail_seqnum current) (ts_head_realtime current) then Some t else selected"
      have "tail_state_loop os tp source include_active w (Some path # entries) selected = tail_state_loop os tp source include_active w entries ?sel"
        using cand by (auto simp: entry_candidate_def bind_eq_Some_conv split: if_splits)
      moreover have "greatest_tail r (set_option selected \<union> (insert t S))" if "greatest_tail r (set_option ?sel \<union> S)" for r S
        using that by (fastforce simp: greatest_tail_def later_tail_order not_less split: option.splits if_splits intro: order_trans)
      ultimately show ?thesis using Cons [of ?sel] cand Some by (simp add: tail_candidates_Cons)
    qed
  qed
qed

text \<open>
  The tail state of the directory is that of the readable file of the log's source with the greatest last
  sequence number, and the latest first entry among equals; it is absent only if there is no such file.
\<close>

theorem tail_state_greatest:
  assumes "tail_state os tp include_active oc w = Inr r" "os_read_dir os (oc_path oc) w = Inr entries"
  shows "greatest_tail r (tail_candidates os tp (oc_source oc) include_active w entries)"
  using assms tail_state_loop_greatest [of os tp "oc_source oc" include_active w entries None] by (simp add: tail_state_def)

end
