(* ===== verification/Journal_Mut.thy ===== *)
theory Journal_Mut
  imports Reader_Recovery Data_Payload
begin

text \<open>
  Mutable access to the objects of a journal file, \<^verbatim>\<open>journal-core/src/file/file_mut.rs\<close>, over the file a
  writer owns.  A mutable view of an object is the object parsed from its bytes; assigning to one of its
  fields writes the bytes of that field, so every setter below writes at the field's offset.  The file
  header is the mapped structure \<open>jf_header\<close>; the hash tables are mapped a second time, and writing to
  one of these mappings also changes the bytes of the file.

  \<open>get_slice_mut\<close> is the contract of the window manager for a file owned by the writer (the default,
  windowed strategy): mapping a range extends the file with zero bytes up to the end of the last chunk
  of the range.  The file system grants lengths up to \<open>disk_limit\<close> and fails beyond; mapping a range of a length that was
  granted succeeds, so a failing \<open>mmap\<close> of the writer (\<open>create_checked\<close>) is not modelled here, unlike in
  \<open>Window_Manager\<close>.  Reads through immutable views (\<open>data_ref\<close>, \<open>field_ref\<close>, \<open>offset_array_ref\<close>) are functions of the
  file: in the code the window that serves such a read may also extend a file that its writer owns with zero bytes up to
  the end of a chunk, which here only the mutable views do (\<open>get_slice_owned\<close>, \<open>get_slice_mut\<close>).

  The second half is the abstraction the writer's proofs rest on: the arena as a heap \<open>H\<close> of objects.
  \<open>arena_ok s H\<close> says that the bytes of the file hold the objects of \<open>H\<close>, that these do not overlap,
  and that everything from the append offset on is zero; every operation becomes an update of \<open>H\<close>.
\<close>

section \<open>The file of a writer\<close>

record WriterFile =
  journal_file :: JournalFile
  window_size :: u64
  retained_len :: u64
  disk_limit :: nat

type_synonym ('z, 'a) file_op = "('z WriterFile_scheme, 'a) op"

abbreviation file_bytes :: "'z WriterFile_scheme \<Rightarrow> u8 list" where
  "file_bytes s \<equiv> jf_bytes (journal_file s)"

abbreviation file_header :: "'z WriterFile_scheme \<Rightarrow> JournalHeader" where
  "file_header s \<equiv> jf_header (journal_file s)"

definition set_bytes :: "u8 list \<Rightarrow> 'z WriterFile_scheme \<Rightarrow> 'z WriterFile_scheme" where
  "set_bytes bs s = s\<lparr>journal_file := (journal_file s)\<lparr>jf_bytes := bs\<rparr>\<rparr>"

definition journal_header_mut :: "(JournalHeader \<Rightarrow> JournalHeader) \<Rightarrow> 'z WriterFile_scheme \<Rightarrow> 'z WriterFile_scheme" where
  "journal_header_mut f s = s\<lparr>journal_file := (journal_file s)\<lparr>jf_header := f (file_header s)\<rparr>\<rparr>"

definition patch :: "u8 list \<Rightarrow> nat \<Rightarrow> u8 list \<Rightarrow> u8 list" where
  "patch bs pos data = take pos bs @ data @ drop (pos + length data) bs"

definition zero_extend :: "nat \<Rightarrow> u8 list \<Rightarrow> u8 list" where
  "zero_extend n bs = bs @ replicate (n - length bs) 0"

definition write_bytes :: "u64 \<Rightarrow> nat \<Rightarrow> u8 list \<Rightarrow> 'z WriterFile_scheme \<Rightarrow> 'z WriterFile_scheme" where
  "write_bytes off rel data s = set_bytes (patch (file_bytes s) (unat off + rel) data) s"

section \<open>Windows of a file owned by its writer\<close>

definition chunk_end :: "u64 \<Rightarrow> nat \<Rightarrow> nat" where
  "chunk_end chunk n = (n + unat chunk - 1) div unat chunk * unat chunk"

definition map_window :: "u64 \<Rightarrow> u64 \<Rightarrow> ('z, unit) file_op" where
  "map_window pos sz s =
     (let e = chunk_end (window_size s) (unat pos + unat sz)
      in if 2 ^ 64 \<le> e then (Err ObjectExceedsFileBounds, s)
         else if length (file_bytes s) < e
         then (if e \<le> disk_limit s then (Ok (), set_bytes (zero_extend e (file_bytes s)) s) else (Err (Io OtherIo), s))
         else (Ok (), s))"

definition get_slice_mut :: "u64 \<Rightarrow> u64 \<Rightarrow> ('z, u8 list) file_op" where
  "get_slice_mut pos sz =
     sbind (slift (ok_or (checked_add pos sz) ObjectExceedsFileBounds)) (\<lambda>_.
     sbind (map_window pos sz) (\<lambda>_.
       sget (\<lambda>s. bytes_at (file_bytes s) (unat pos) (unat sz))))"

definition get_slice_owned :: "u64 \<Rightarrow> u64 \<Rightarrow> ('z, u8 list) file_op" where
  "get_slice_owned pos sz =
     sbind (slift (ok_or (checked_add pos sz) ObjectExceedsFileBounds)) (\<lambda>e.
     sbind (sget (\<lambda>s. length (file_bytes s))) (\<lambda>len.
       if len < unat e then sfail ObjectExceedsFileBounds
       else sbind (map_window pos sz) (\<lambda>_.
         sget (\<lambda>s. bytes_at (file_bytes s) (unat pos) (unat sz)))))"

section \<open>Mutable objects\<close>

record MutableObjectContext =
  mut_object_type :: ObjectType
  mut_is_compact :: bool
  mut_arena_end :: u64

definition mutable_object_context :: "ObjectType \<Rightarrow> u64 \<Rightarrow> ('z, MutableObjectContext) file_op" where
  "mutable_object_context object_type off =
     sbind (slift (validate_offset_alignment off)) (\<lambda>_.
     sbind (sget file_header) (\<lambda>h.
       if off < header_size h then sfail ObjectExceedsFileBounds
       else sret \<lparr>mut_object_type = object_type, mut_is_compact = has_incompatible_flag h Compact,
                  mut_arena_end = header_size h + arena_size h\<rparr>))"

definition initialize_mutable_object_header :: "MutableObjectContext \<Rightarrow> u64 \<Rightarrow> u64 \<Rightarrow> ('z, u64) file_op" where
  "initialize_mutable_object_header context off sz =
     sbind (get_slice_mut off 16) (\<lambda>_.
     sbind (smodify (write_bytes off 0 [object_type_code (mut_object_type context)])) (\<lambda>_.
     sbind (smodify (write_bytes off 8 (to_le 8 sz))) (\<lambda>_.
       sret sz)))"

definition validate_mutable_object_bounds :: "MutableObjectContext \<Rightarrow> u64 \<Rightarrow> u64 \<Rightarrow> unit result" where
  "validate_mutable_object_bounds context off needed =
     rbind (ok_or (checked_add off needed) ObjectExceedsFileBounds) (\<lambda>end_offset.
       if end_offset > mut_arena_end context then Err ObjectExceedsFileBounds else Ok ())"

definition existing_mutable_object_size :: "MutableObjectContext \<Rightarrow> u64 \<Rightarrow> ('z, u64) file_op" where
  "existing_mutable_object_size context off =
     sbind (get_slice_owned off 16) (\<lambda>bytes.
       let h = object_header_from_bytes bytes
       in if obj_type h \<noteq> object_type_code (mut_object_type context) then sfail InvalidObjectType
          else sbind (slift (validated_size h)) (\<lambda>needed.
               sbind (slift (validate_mutable_object_bounds context off needed)) (\<lambda>_.
                 sret needed)))"

definition mutable_object_size :: "MutableObjectContext \<Rightarrow> u64 \<Rightarrow> u64 option \<Rightarrow> ('z, u64) file_op" where
  "mutable_object_size context off size_opt =
     (case size_opt of
        Some sz \<Rightarrow> initialize_mutable_object_header context off sz
      | None \<Rightarrow> existing_mutable_object_size context off)"

definition journal_object_mut ::
  "ObjectType \<Rightarrow> (u8 list \<Rightarrow> bool \<Rightarrow> 'a option) \<Rightarrow> u64 \<Rightarrow> u64 option \<Rightarrow> ('z, 'a) file_op" where
  "journal_object_mut object_type from_data off size_opt =
     sbind (mutable_object_context object_type off) (\<lambda>context.
     sbind (mutable_object_size context off size_opt) (\<lambda>needed.
     sbind (get_slice_mut off needed) (\<lambda>data.
       slift (ok_or (from_data data (mut_is_compact context)) ZerocopyFailure))))"

definition offset_array_item_size :: "bool \<Rightarrow> u64" where
  "offset_array_item_size compact = (if compact then 4 else 8)"

definition offset_array_mut :: "u64 \<Rightarrow> u64 option \<Rightarrow> ('z, OffsetArrayObject) file_op" where
  "offset_array_mut off capacity s =
     journal_object_mut EntryArray offset_array_from_data off
       (map_option (\<lambda>c. 24 + c * offset_array_item_size (is_compact (journal_file s))) capacity) s"

definition field_mut :: "u64 \<Rightarrow> u64 option \<Rightarrow> ('z, FieldObject) file_op" where
  "field_mut off size_opt = journal_object_mut Field field_from_data off (map_option (\<lambda>n. 40 + n) size_opt)"

definition entry_mut :: "u64 \<Rightarrow> u64 option \<Rightarrow> ('z, EntryObject) file_op" where
  "entry_mut off size_opt = journal_object_mut Entry entry_from_data off (map_option (\<lambda>n. 64 + n) size_opt)"

definition data_mut :: "u64 \<Rightarrow> u64 option \<Rightarrow> ('z, DataObject) file_op" where
  "data_mut off size_opt s =
     journal_object_mut Data data_from_data off
       (map_option (\<lambda>n. 64 + n + (if is_compact (journal_file s) then 8 else 0)) size_opt) s"

section \<open>Assignments through a view\<close>

text \<open>\<open>OffsetArrayObject::set\<close>: the capacity check, the assertion on compact offsets, the slot.\<close>

definition array_guard_set :: "u64 \<Rightarrow> OffsetArrayObject \<Rightarrow> nat \<Rightarrow> u64 \<Rightarrow> ('z, unit) file_op" where
  "array_guard_set off array index value =
     (if array_capacity array \<le> index then sfail OutOfBoundsIndex
      else case items array of
        Regular _ \<Rightarrow> smodify (write_bytes off (24 + 8 * index) (to_le 8 value))
      | CompactItems _ \<Rightarrow>
          (if value \<le> 0xffffffff then smodify (write_bytes off (24 + 4 * index) (to_le 4 (ucast value :: u32)))
           else sfail Panic))"

definition set_next_offset_array :: "u64 \<Rightarrow> u64 \<Rightarrow> ('z, unit) file_op" where
  "set_next_offset_array off value = smodify (write_bytes off 16 (to_le 8 value))"

text \<open>The words of a data object header, a field object header and an entry header.\<close>

definition set_header_word :: "nat \<Rightarrow> u64 \<Rightarrow> u64 \<Rightarrow> ('z, unit) file_op" where
  "set_header_word rel off value = smodify (write_bytes off rel (to_le 8 value))"

abbreviation (input) "hash_word \<equiv> 16"
abbreviation (input) "next_hash_word \<equiv> 24"
abbreviation (input) "next_field_word \<equiv> 32"
abbreviation (input) "head_data_word \<equiv> 32"
abbreviation (input) "entry_offset_word \<equiv> 40"
abbreviation (input) "entry_array_word \<equiv> 48"
abbreviation (input) "n_entries_word \<equiv> 56"

text \<open>\<open>EntryItemsType::set\<close>; a missing hash of a regular item would panic on \<open>unwrap\<close>.\<close>

definition entry_items_set :: "u64 \<Rightarrow> EntryItemsType \<Rightarrow> nat \<Rightarrow> u64 \<Rightarrow> u64 option \<Rightarrow> ('z, unit) file_op" where
  "entry_items_set off its index object_offset hash =
     (if entry_items_len its \<le> index then sfail Panic
      else case its of
        RegularEntryItems _ \<Rightarrow>
          sbind (smodify (write_bytes off (64 + 16 * index) (to_le 8 object_offset))) (\<lambda>_.
            case hash of None \<Rightarrow> sfail Panic
            | Some h \<Rightarrow> smodify (write_bytes off (64 + 16 * index + 8) (to_le 8 h)))
      | CompactEntryItems _ \<Rightarrow>
          (if object_offset \<le> 0xffffffff
           then smodify (write_bytes off (64 + 4 * index) (to_le 4 (ucast object_offset :: u32)))
           else sfail Panic))"

section \<open>Hash tables\<close>

text \<open>Writing through the mapping of a table changes the mapping and the bytes of the file.\<close>

definition write_data_table :: "nat \<Rightarrow> u8 list \<Rightarrow> 'z WriterFile_scheme \<Rightarrow> 'z WriterFile_scheme" where
  "write_data_table rel data s =
     (case (data_hash_table_map (journal_file s), data_hash_table_offset (file_header s)) of
        (Some m, Some off) \<Rightarrow>
          write_bytes (off - 16) rel data
            (s\<lparr>journal_file := (journal_file s)\<lparr>data_hash_table_map := Some (patch m rel data)\<rparr>\<rparr>)
      | _ \<Rightarrow> s)"

definition write_field_table :: "nat \<Rightarrow> u8 list \<Rightarrow> 'z WriterFile_scheme \<Rightarrow> 'z WriterFile_scheme" where
  "write_field_table rel data s =
     (case (field_hash_table_map (journal_file s), field_hash_table_offset (file_header s)) of
        (Some m, Some off) \<Rightarrow>
          write_bytes (off - 16) rel data
            (s\<lparr>journal_file := (journal_file s)\<lparr>field_hash_table_map := Some (patch m rel data)\<rparr>\<rparr>)
      | _ \<Rightarrow> s)"

text \<open>The macro \<open>impl_hash_table_set_tail_offset\<close>, once for both tables.\<close>

definition hash_table_set_tail_offset ::
  "('z WriterFile_scheme \<Rightarrow> HashTable option) \<Rightarrow> (u64 \<Rightarrow> ('z, unit) file_op) \<Rightarrow>
     (nat \<Rightarrow> u8 list \<Rightarrow> 'z WriterFile_scheme \<Rightarrow> 'z WriterFile_scheme) \<Rightarrow> u64 \<Rightarrow> u64 \<Rightarrow> ('z, unit) file_op" where
  "hash_table_set_tail_offset table open_object write_table hash object_offset =
     sbind (sget table) (\<lambda>ht_opt.
     sbind (slift (ok_or ht_opt MissingHashTable)) (\<lambda>ht.
     sbind (slift (hash_item_ref ht hash)) (\<lambda>hash_item.
     sbind (case tail_hash_offset hash_item of
              None \<Rightarrow> sret ()
            | Some tail \<Rightarrow> sbind (open_object tail) (\<lambda>_. set_header_word next_hash_word tail object_offset)) (\<lambda>_.
     let at_item = 16 + 16 * (unat hash mod length (table_items ht))
     in sbind (if head_hash_offset hash_item = None
               then smodify (write_table at_item (to_le 8 object_offset)) else sret ()) (\<lambda>_.
        smodify (write_table (at_item + 8) (to_le 8 object_offset)))))))"

definition data_hash_table_set_tail_offset :: "u64 \<Rightarrow> u64 \<Rightarrow> ('z, unit) file_op" where
  "data_hash_table_set_tail_offset =
     hash_table_set_tail_offset (\<lambda>s. data_hash_table_ref (journal_file s))
       (\<lambda>off. sbind (data_mut off None) (\<lambda>_. sret ())) write_data_table"

definition field_hash_table_set_tail_offset :: "u64 \<Rightarrow> u64 \<Rightarrow> ('z, unit) file_op" where
  "field_hash_table_set_tail_offset =
     hash_table_set_tail_offset (\<lambda>s. field_hash_table_ref (journal_file s))
       (\<lambda>off. sbind (field_mut off None) (\<lambda>_. sret ())) write_field_table"

section \<open>Publishing\<close>

definition set_file_len :: "u64 \<Rightarrow> ('z, unit) file_op" where
  "set_file_len n s =
     (if unat n \<le> disk_limit s \<or> unat n \<le> length (file_bytes s)
      then (Ok (), set_bytes (take (unat n) (zero_extend (unat n) (file_bytes s))) s)
      else (Err (Io OtherIo), s))"

definition journal_post_change :: "('z, unit) file_op" where
  "journal_post_change =
     sbind (sget (\<lambda>s. max (header_size (file_header s) + arena_size (file_header s)) (retained_len s))) (\<lambda>logical.
     sbind (set_file_len logical) (\<lambda>_.
       smodify (\<lambda>s. s\<lparr>retained_len := logical\<rparr>)))"

section \<open>Patches\<close>

lemma length_patch [simp]: "pos + length data \<le> length bs \<Longrightarrow> length (patch bs pos data) = length bs"
  by (simp add: patch_def)

lemma nth_patch:
  assumes "pos + length data \<le> length bs" and "i < length bs"
  shows "patch bs pos data ! i = (if pos \<le> i \<and> i < pos + length data then data ! (i - pos) else bs ! i)"
  using assms by (auto simp: patch_def nth_append min_def)

lemma bytes_at_eqI:
  assumes "a + n \<le> length bs" and "b + n \<le> length cs" and "\<And>i. i < n \<Longrightarrow> bs ! (a + i) = cs ! (b + i)"
  shows "bytes_at bs a n = bytes_at cs b n"
  using assms by (intro nth_equalityI) (auto simp: bytes_at_def)

lemma bytes_at_patch_other:
  assumes "pos + length data \<le> length bs" and "a + n \<le> length bs" and "a + n \<le> pos \<or> pos + length data \<le> a"
  shows "bytes_at (patch bs pos data) a n = bytes_at bs a n"
  using assms by (intro bytes_at_eqI) (auto simp: nth_patch)

lemma bytes_at_patch_inside:
  assumes "rel + length data \<le> n" and "a + n \<le> length bs"
  shows "bytes_at (patch bs (a + rel) data) a n = patch (bytes_at bs a n) rel data"
proof (rule nth_equalityI)
  show "length (bytes_at (patch bs (a + rel) data) a n) = length (patch (bytes_at bs a n) rel data)"
    using assms by (simp add: length_bytes_at)
  fix i assume "i < length (bytes_at (patch bs (a + rel) data) a n)"
  then have "i < n" using assms by (simp add: length_bytes_at)
  then show "bytes_at (patch bs (a + rel) data) a n ! i = patch (bytes_at bs a n) rel data ! i"
    using assms by (simp add: nth_bytes_at nth_patch length_bytes_at)
qed

lemma bytes_at_zero_extend: "a + n \<le> length bs \<Longrightarrow> bytes_at (zero_extend m bs) a n = bytes_at bs a n"
  by (simp add: bytes_at_def zero_extend_def)

lemma length_zero_extend [simp]: "length (zero_extend n bs) = max n (length bs)"
  by (simp add: zero_extend_def max_def)

lemma nth_zero_extend: "i < max n (length bs) \<Longrightarrow> zero_extend n bs ! i = (if i < length bs then bs ! i else 0)"
  by (auto simp: zero_extend_def nth_append)

lemma zero_extend_same [simp]: "n \<le> length bs \<Longrightarrow> zero_extend n bs = bs"
  by (simp add: zero_extend_def)

lemma u64_at_patch:
  "rel + length data \<le> length d \<Longrightarrow> i + 8 \<le> rel \<or> rel + length data \<le> i \<Longrightarrow> i + 8 \<le> length d \<Longrightarrow>
    u64_at (patch d rel data) i = u64_at d i"
  by (simp add: u64_at_def bytes_at_patch_other)

lemma u64_at_patch_same: "rel + 8 \<le> length d \<Longrightarrow> u64_at (patch d rel (to_le 8 v)) rel = v"
  using bytes_at_patch_inside [of 0 "to_le 8 v" 8 rel d]
  by (simp add: u64_at_def patch_def from_le_to_le length_bytes_at)

section \<open>The arena as a heap of objects\<close>

type_synonym arena = "u64 \<rightharpoonup> ObjectType \<times> u8 list"

definition stored_object :: "u8 list \<Rightarrow> u64 \<Rightarrow> ObjectType \<Rightarrow> u8 list \<Rightarrow> bool" where
  "stored_object bs a T d \<longleftrightarrow>
     a mod 8 = 0 \<and> 16 \<le> length d \<and> unat a + length d \<le> length bs \<and> bytes_at bs (unat a) (length d) = d \<and>
     d ! 0 = object_type_code T \<and> unat (u64_at d 8) = length d"

definition arena_ok :: "'z WriterFile_scheme \<Rightarrow> u64 \<Rightarrow> arena \<Rightarrow> bool" where
  "arena_ok s ap H \<longleftrightarrow>
     0 < window_size s \<and> header_size (file_header s) \<le> ap \<and> ap mod 8 = 0 \<and>
     (\<forall>a T d. H a = Some (T, d) \<longrightarrow>
        stored_object (file_bytes s) a T d \<and> header_size (file_header s) \<le> a \<and> unat a + length d \<le> unat ap) \<and>
     (\<forall>a b T d. H a = Some (T, d) \<longrightarrow> b \<in> dom H \<longrightarrow> a < b \<longrightarrow> unat a + length d \<le> unat b) \<and>
     (\<forall>i. unat ap \<le> i \<longrightarrow> i < length (file_bytes s) \<longrightarrow> file_bytes s ! i = 0)"

definition within_arena :: "'z WriterFile_scheme \<Rightarrow> u64 \<Rightarrow> bool" where
  "within_arena s ap \<longleftrightarrow>
     unat (header_size (file_header s)) + unat (arena_size (file_header s)) < 2 ^ 64 \<and>
     unat ap \<le> unat (header_size (file_header s)) + unat (arena_size (file_header s))"

text \<open>\<open>only_bytes s t\<close>: of the file and the writer, nothing but the bytes of the file differs.\<close>

definition only_bytes :: "'z WriterFile_scheme \<Rightarrow> 'z WriterFile_scheme \<Rightarrow> bool" where
  "only_bytes s t \<longleftrightarrow> t = set_bytes (file_bytes t) s"

text \<open>The file system refuses the length that an access up to \<open>n\<close> needs.\<close>

definition refuses :: "'z WriterFile_scheme \<Rightarrow> nat \<Rightarrow> bool" where
  "refuses s n \<longleftrightarrow> disk_limit s < n + unat (window_size s) \<or> 2 ^ 64 < n + unat (window_size s)"

lemma set_bytes_simps [simp]:
  "file_bytes (set_bytes bs s) = bs" "file_header (set_bytes bs s) = file_header s"
  "window_size (set_bytes bs s) = window_size s" "disk_limit (set_bytes bs s) = disk_limit s"
  "set_bytes bs (set_bytes cs s) = set_bytes bs s" "is_compact (journal_file (set_bytes bs s)) = is_compact (journal_file s)"
  by (simp_all add: set_bytes_def is_compact_def)

lemma set_bytes_same [simp]: "set_bytes (file_bytes s) s = s"
  by (simp add: set_bytes_def)

lemma only_bytes_refl [simp, intro]: "only_bytes s s"
  by (simp add: only_bytes_def)

lemma only_bytes_set [simp, intro]: "only_bytes s (set_bytes bs s)"
  by (simp add: only_bytes_def)

lemma only_bytes_trans [trans]: "only_bytes s t \<Longrightarrow> only_bytes t u \<Longrightarrow> only_bytes s u"
  by (metis only_bytes_def set_bytes_simps(5))

lemma only_bytesD:
  assumes "only_bytes s t"
  shows "file_header t = file_header s" "window_size t = window_size s" "disk_limit t = disk_limit s"
    "is_compact (journal_file t) = is_compact (journal_file s)"
  using assms by (metis only_bytes_def set_bytes_simps)+

lemma only_bytes_within: "only_bytes s t \<Longrightarrow> within_arena t ap = within_arena s ap"
  by (simp add: within_arena_def only_bytesD)

lemma only_bytes_refuses: "only_bytes s t \<Longrightarrow> refuses t n = refuses s n"
  by (simp add: refuses_def only_bytesD)

lemma only_bytes_write [simp, intro]: "only_bytes s (write_bytes a rel data s)"
  by (simp add: write_bytes_def)

lemma stored_objectD:
  assumes "arena_ok s ap H" and "H a = Some (T, d)"
  shows "stored_object (file_bytes s) a T d" "header_size (file_header s) \<le> a" "unat a + length d \<le> unat ap"
  using assms by (auto simp: arena_ok_def)

lemma arena_disjoint:
  assumes "arena_ok s ap H" and "H a = Some (T, d)" and "H b = Some (U, e)" and "a \<noteq> b"
  shows "unat a + length d \<le> unat b \<or> unat b + length e \<le> unat a"
proof (cases "a < b")
  case True
  with assms show ?thesis unfolding arena_ok_def by (metis domI)
next
  case False
  with assms have "b < a" by simp
  with assms show ?thesis unfolding arena_ok_def by (metis domI)
qed

lemma arena_ok_grow:
  assumes "arena_ok s ap H"
  shows "arena_ok (set_bytes (zero_extend n (file_bytes s)) s) ap H"
proof -
  have "stored_object (zero_extend n bs) a T d" if "stored_object bs a T d" for bs a T d
    using that unfolding stored_object_def by (auto simp: bytes_at_zero_extend)
  with assms show ?thesis unfolding arena_ok_def by (auto simp: nth_zero_extend)
qed

lemma stored_object_patch:
  assumes "stored_object bs a T d" and "16 \<le> rel" and "rel + length data \<le> length d"
  shows "stored_object (patch bs (unat a + rel) data) a T (patch d rel data)"
proof -
  have "0 < length d" using assms(2,3) by linarith
  then show ?thesis
    using assms by (auto simp: stored_object_def bytes_at_patch_inside nth_patch [of rel data d 0] u64_at_patch)
qed

lemma stored_object_patch_other:
  assumes "stored_object bs a T d" and "pos + length data \<le> length bs"
    and "unat a + length d \<le> pos \<or> pos + length data \<le> unat a"
  shows "stored_object (patch bs pos data) a T d"
  using assms by (auto simp: stored_object_def bytes_at_patch_other)

text \<open>Writing inside an object, past its header, updates that object of the heap.\<close>

lemma arena_ok_write:
  assumes ok: "arena_ok s ap H" and a: "H a = Some (T, d)" and rel: "16 \<le> rel" "rel + length data \<le> length d"
  shows "arena_ok (write_bytes a rel data s) ap (H(a \<mapsto> (T, patch d rel data)))"
proof -
  let ?bs = "patch (file_bytes s) (unat a + rel) data"
  have so: "stored_object (file_bytes s) a T d" "header_size (file_header s) \<le> a" "unat a + length d \<le> unat ap"
    using stored_objectD [OF ok a] by auto
  have fits: "unat a + rel + length data \<le> length (file_bytes s)" using so(1) rel by (simp add: stored_object_def)
  have others: "stored_object ?bs b U e" if "H b = Some (U, e)" "b \<noteq> a" for b U e
  proof (rule stored_object_patch_other)
    show "stored_object (file_bytes s) b U e" using stored_objectD [OF ok that(1)] by simp
    show "unat a + rel + length data \<le> length (file_bytes s)" by (rule fits)
    show "unat b + length e \<le> unat a + rel \<or> unat a + rel + length data \<le> unat b"
      using arena_disjoint [OF ok that(1) a that(2)] rel by auto
  qed
  have this_one: "stored_object ?bs a T (patch d rel data)"
    by (rule stored_object_patch [OF so(1) rel])
  have zeros: "?bs ! i = 0" if "unat ap \<le> i" "i < length (file_bytes s)" for i
    using ok that so(3) rel fits by (simp add: nth_patch arena_ok_def)
  have apart: "unat b + length e \<le> unat c" if "(H(a \<mapsto> (T, patch d rel data))) b = Some (U, e)" "c \<in> dom H" "b < c" for b c U e
    using ok a rel(2) that unfolding arena_ok_def by (cases "b = a") (fastforce, metis fun_upd_other)
  show ?thesis
    using ok so others this_one rel a zeros apart fits
    unfolding arena_ok_def write_bytes_def
    by (simp add: insert_absorb domI)
qed

section \<open>Opening an object of the heap\<close>

lemma chunk_end_bounds:
  assumes "0 < (c :: u64)"
  shows "n \<le> chunk_end c n" "chunk_end c n < n + unat c"
proof -
  have c: "0 < unat c" using assms by (simp add: word_less_nat_alt)
  have eq: "(n + unat c - 1) div unat c * unat c + (n + unat c - 1) mod unat c = n + unat c - 1"
    by (rule div_mult_mod_eq)
  have "(n + unat c - 1) mod unat c < unat c" using c by simp
  with eq show "n \<le> chunk_end c n" unfolding chunk_end_def by linarith
  from eq c show "chunk_end c n < n + unat c" unfolding chunk_end_def by linarith
qed

text \<open>A range is mapped, the file growing by zeros, or the file system refuses.\<close>

lemma map_window_grows:
  assumes "0 < window_size s"
  shows "holds (map_window pos sz) s
    (\<lambda>_ t. \<exists>n. t = set_bytes (zero_extend n (file_bytes s)) s \<and> unat pos + unat sz \<le> length (file_bytes t))
    (\<lambda>_ t. refuses s (unat pos + unat sz) \<and> t = s)"
proof -
  let ?e = "chunk_end (window_size s) (unat pos + unat sz)"
  have b: "unat pos + unat sz \<le> ?e" "?e < unat pos + unat sz + unat (window_size s)"
    using chunk_end_bounds [OF assms] by auto
  show ?thesis
  proof (cases "2 ^ 64 \<le> ?e \<or> length (file_bytes s) < ?e \<and> disk_limit s < ?e")
    case True
    then show ?thesis using b by (auto simp: holds_def map_window_def Let_def refuses_def)
  next
    case False
    with b have "map_window pos sz s = (Ok (), set_bytes (zero_extend ?e (file_bytes s)) s)"
      by (auto simp: map_window_def Let_def)
    with b show ?thesis by (auto simp: holds_def intro!: exI [of _ ?e])
  qed
qed

lemma map_window_holds:
  assumes "arena_ok s ap H"
  shows "holds (map_window pos sz) s
    (\<lambda>_ t. only_bytes s t \<and> arena_ok t ap H \<and> unat pos + unat sz \<le> length (file_bytes t))
    (\<lambda>_ t. refuses s (unat pos + unat sz) \<and> t = s)"
proof -
  have "0 < window_size s" using assms by (simp add: arena_ok_def)
  from map_window_grows [OF this] show ?thesis by (rule holds_mono) (auto simp: arena_ok_grow [OF assms])
qed

lemma checked_add_object:
  assumes "unat a + unat n < 2 ^ 64"
  shows "checked_add a (n :: u64) = Some (a + n)"
  using assms by (simp add: checked_add_def)

lemma get_slice_mut_grows:
  assumes "0 < window_size s" and "unat pos + unat sz < 2 ^ 64"
  shows "holds (get_slice_mut pos sz) s
    (\<lambda>d t. \<exists>n. t = set_bytes (zero_extend n (file_bytes s)) s \<and> unat pos + unat sz \<le> length (file_bytes t) \<and>
       d = bytes_at (file_bytes t) (unat pos) (unat sz))
    (\<lambda>_ t. refuses s (unat pos + unat sz) \<and> t = s)"
  unfolding get_slice_mut_def checked_add_object [OF assms(2)] ok_or_simps holds_bind_pure
  by (rule holds_sbind [OF map_window_grows [OF assms(1)]]) auto

lemma get_slice_mut_holds:
  assumes "arena_ok s ap H" and "unat pos + unat sz < 2 ^ 64"
  shows "holds (get_slice_mut pos sz) s
    (\<lambda>d t. only_bytes s t \<and> arena_ok t ap H \<and> d = bytes_at (file_bytes t) (unat pos) (unat sz))
    (\<lambda>_ t. refuses s (unat pos + unat sz) \<and> t = s)"
  unfolding get_slice_mut_def checked_add_object [OF assms(2)] ok_or_simps holds_bind_pure
  by (rule holds_sbind [OF map_window_holds [OF assms(1)]]) simp

lemma object_range:
  assumes "arena_ok s ap H" and "H a = Some (T, d)"
  shows "unat a + length d < 2 ^ 64" "16 \<le> length d" "length d < 2 ^ 64" "a mod 8 = 0"
    "unat a + length d \<le> length (file_bytes s)"
  using stored_objectD [OF assms] unat_u64_less [of ap] by (auto simp: stored_object_def)

lemma stored_header:
  assumes "stored_object bs a T d"
  shows "object_header_from_bytes (bytes_at bs (unat a) 16) = object_header_from_bytes d"
    "obj_type (object_header_from_bytes d) = object_type_code T"
    "unat (obj_size (object_header_from_bytes d)) = length d"
proof -
  have d: "16 \<le> length d" "bytes_at bs (unat a) (length d) = d" "unat a + length d \<le> length bs"
    using assms by (auto simp: stored_object_def)
  have "bytes_at bs (unat a) 16 = bytes_at d 0 16"
    using d bytes_at_bytes_at [of 0 16 "length d" bs "unat a"] by simp
  then show "object_header_from_bytes (bytes_at bs (unat a) 16) = object_header_from_bytes d"
    using d(1) byte_views [where bs = d] nth_bytes_at [of _ 16 0 d]
    by (simp add: object_header_from_bytes_def numeral_2_eq_2)
  show "obj_type (object_header_from_bytes d) = object_type_code T"
    "unat (obj_size (object_header_from_bytes d)) = length d"
    using assms by (simp_all add: stored_object_def object_header_from_bytes_def)
qed

lemma validated_size_object: "16 \<le> unat (obj_size h) \<Longrightarrow> validated_size h = Ok (obj_size h)"
  by (simp add: validated_size_def word_less_nat_alt)

lemma within_arena_end:
  assumes "within_arena s ap"
  shows "unat (header_size (file_header s) + arena_size (file_header s)) =
    unat (header_size (file_header s)) + unat (arena_size (file_header s))"
  using assms by (simp add: within_arena_def unat_word_ariths)

text \<open>Reading an object of the heap, and opening it for writing.\<close>

lemma journal_object_ref_heap:
  assumes ok: "arena_ok s ap H" "within_arena s ap" and a: "H a = Some (T, d)"
  shows "journal_object_ref T from_data (journal_file s) a =
    ok_or (from_data d (is_compact (journal_file s))) ZerocopyFailure"
proof -
  let ?h = "object_header_from_bytes d"
  note so = stored_objectD [OF ok(1) a] and rg = object_range [OF ok(1) a]
  note hd = stored_header [OF so(1)]
  have sz: "unat (obj_size ?h) = length d" by (rule hd(3))
  have e: "unat (a + obj_size ?h) = unat a + length d"
    using rg(1) sz by (simp add: unat_add_lem [THEN iffD1])
  have "\<not> header_size (file_header s) + arena_size (file_header s) < a + obj_size ?h"
    using so(3) ok(2) by (simp add: word_less_nat_alt within_arena_end [OF ok(2)] e within_arena_def)
  moreover have "slice_at (file_bytes s) a 16 = Ok (bytes_at (file_bytes s) (unat a) 16)"
    "slice_at (file_bytes s) a (obj_size ?h) = Ok d"
    using rg sz so(1) by (auto simp: slice_at_def stored_object_def)
  moreover have "\<not> a < header_size (file_header s)" using so(2) by (rule leD)
  ultimately show ?thesis
    using rg sz hd
    by (simp add: journal_object_ref_def Let_def validate_offset_alignment_def validated_size_object
        checked_add_object del: not_less)
qed

lemma holds_seq:
  assumes "holds m s Q E0" and "\<And>e t. E0 e t \<Longrightarrow> E e t" and "\<And>x t. Q x t \<Longrightarrow> holds (k x) t R E"
  shows "holds (sbind m k) s R E"
  by (rule holds_sbind [OF holds_mono [OF assms(1)]]) (use assms in auto)

lemma refuses_mono: "refuses s m \<Longrightarrow> m \<le> n \<Longrightarrow> refuses s n"
  by (auto simp: refuses_def)

lemma get_slice_owned_holds:
  assumes "arena_ok s ap H" and "unat pos + unat sz < 2 ^ 64" and "unat pos + unat sz \<le> length (file_bytes s)"
  shows "holds (get_slice_owned pos sz) s
    (\<lambda>d t. only_bytes s t \<and> arena_ok t ap H \<and> d = bytes_at (file_bytes t) (unat pos) (unat sz))
    (\<lambda>_ t. refuses s (unat pos + unat sz) \<and> t = s)"
proof -
  have "unat (pos + sz) = unat pos + unat sz" using assms(2) by (simp add: unat_word_ariths)
  then have "\<not> length (file_bytes s) < unat (pos + sz)" using assms(3) by simp
  then have "holds (get_slice_owned pos sz) s Q E =
      holds (sbind (map_window pos sz) (\<lambda>_. sget (\<lambda>s. bytes_at (file_bytes s) (unat pos) (unat sz)))) s Q E"
    for Q :: "u8 list \<Rightarrow> 'a WriterFile_scheme \<Rightarrow> bool" and E
    unfolding get_slice_owned_def checked_add_object [OF assms(2)] ok_or_simps holds_bind_pure by simp
  then show ?thesis
    by (simp only:) (rule holds_seq [OF map_window_holds [OF assms(1)]], auto)
qed

lemma existing_mutable_object_size_holds:
  assumes ok: "arena_ok s ap H" "within_arena s ap" and a: "H a = Some (T, d)"
    and c: "mut_object_type c = T" "mut_arena_end c = header_size (file_header s) + arena_size (file_header s)"
  shows "holds (existing_mutable_object_size c a) s
    (\<lambda>n t. unat n = length d \<and> only_bytes s t \<and> arena_ok t ap H) (\<lambda>_ t. refuses s (unat ap) \<and> t = s)"
proof -
  have rg: "unat a + length d < 2 ^ 64" "16 \<le> length d" "unat a + length d \<le> length (file_bytes s)"
    using object_range [OF ok(1) a] by auto
  have ap: "unat a + length d \<le> unat ap" using stored_objectD [OF ok(1) a] by simp
  have "holds (get_slice_owned a 16) s
      (\<lambda>bs t. only_bytes s t \<and> arena_ok t ap H \<and> bs = bytes_at (file_bytes t) (unat a) 16)
      (\<lambda>_ t. refuses s (unat ap) \<and> t = s)"
    by (rule holds_mono [OF get_slice_owned_holds [OF ok(1), of a 16]]) (use rg ap refuses_mono [of s _ "unat ap"] in auto)
  moreover have "holds (let h = object_header_from_bytes bs
       in if obj_type h \<noteq> object_type_code (mut_object_type c) then sfail InvalidObjectType
          else sbind (slift (validated_size h)) (\<lambda>needed.
               sbind (slift (validate_mutable_object_bounds c a needed)) (\<lambda>_. sret needed))) t
      (\<lambda>n t. unat n = length d \<and> only_bytes s t \<and> arena_ok t ap H) (\<lambda>_ t. refuses s (unat ap) \<and> t = s)"
    if "only_bytes s t \<and> arena_ok t ap H \<and> bs = bytes_at (file_bytes t) (unat a) 16" for bs t
  proof -
    have t: "only_bytes s t" "arena_ok t ap H" "bs = bytes_at (file_bytes t) (unat a) 16" using that by auto
    let ?h = "object_header_from_bytes bs"
    note hd = stored_header [OF stored_objectD(1) [OF t(2) a]]
    have h: "obj_type ?h = object_type_code T" "unat (obj_size ?h) = length d" using hd t(3) by simp_all
    have e: "unat (a + obj_size ?h) = unat a + length d" using rg(1) h(2) by (simp add: unat_word_ariths)
    then have "\<not> header_size (file_header s) + arena_size (file_header s) < a + obj_size ?h"
      using ap ok(2) by (simp add: word_less_nat_alt within_arena_end [OF ok(2)] within_arena_def)
    then have "validate_mutable_object_bounds c a (obj_size ?h) = Ok ()"
      using rg(1) h(2) c(2) by (simp add: validate_mutable_object_bounds_def checked_add_object)
    moreover have "validated_size ?h = Ok (obj_size ?h)" using rg(2) h(2) by (simp add: validated_size_object)
    ultimately show ?thesis using h c(1) t by (simp add: Let_def)
  qed
  ultimately show ?thesis unfolding existing_mutable_object_size_def by (rule holds_sbind)
qed

text \<open>Opening an object of the heap delivers its contents.\<close>

lemma journal_object_mut_existing:
  assumes ok: "arena_ok s ap H" "within_arena s ap" and a: "H a = Some (T, d)"
    and x: "from_data d (is_compact (journal_file s)) = Some x"
  shows "holds (journal_object_mut T from_data a None) s
    (\<lambda>y t. y = x \<and> only_bytes s t \<and> arena_ok t ap H) (\<lambda>_ t. refuses s (unat ap))"
proof -
  let ?c = "\<lparr>mut_object_type = T, mut_is_compact = has_incompatible_flag (file_header s) Compact,
    mut_arena_end = header_size (file_header s) + arena_size (file_header s)\<rparr>"
  have al: "a mod 8 = 0" and hs: "\<not> a < header_size (file_header s)"
    using object_range [OF ok(1) a] stored_objectD(2) [OF ok(1) a] by auto
  have ap: "unat a + length d \<le> unat ap" using stored_objectD [OF ok(1) a] by simp
  have "holds (sbind (existing_mutable_object_size ?c a) (\<lambda>needed.
        sbind (get_slice_mut a needed) (\<lambda>data.
          slift (ok_or (from_data data (mut_is_compact ?c)) ZerocopyFailure)))) s
    (\<lambda>y t. y = x \<and> only_bytes s t \<and> arena_ok t ap H) (\<lambda>_ t. refuses s (unat ap))"
  proof (rule holds_sbind)
    show "holds (existing_mutable_object_size ?c a) s
        (\<lambda>n t. unat n = length d \<and> only_bytes s t \<and> arena_ok t ap H) (\<lambda>_ t. refuses s (unat ap))"
      using existing_mutable_object_size_holds [OF ok a, of ?c] by (auto elim: holds_mono)
    fix n :: u64 and t assume t: "unat n = length d \<and> only_bytes s t \<and> arena_ok t ap H"
    show "holds (sbind (get_slice_mut a n) (\<lambda>data.
          slift (ok_or (from_data data (mut_is_compact ?c)) ZerocopyFailure))) t
        (\<lambda>y t. y = x \<and> only_bytes s t \<and> arena_ok t ap H) (\<lambda>_ t. refuses s (unat ap))"
    proof (rule holds_sbind)
      show "holds (get_slice_mut a n) t
          (\<lambda>bs u. bs = d \<and> only_bytes s u \<and> arena_ok u ap H) (\<lambda>_ t. refuses s (unat ap))"
      proof (rule holds_mono [OF get_slice_mut_holds [of t ap H a n]])
        show "arena_ok t ap H" "unat a + unat n < 2 ^ 64" using t object_range(1) [OF ok(1) a] by auto
        fix bs u
        assume u: "only_bytes t u \<and> arena_ok u ap H \<and> bs = bytes_at (file_bytes u) (unat a) (unat n)"
        then have "bytes_at (file_bytes u) (unat a) (length d) = d"
          using stored_objectD(1) [of u ap H a T d] a by (simp add: stored_object_def)
        then show "bs = d \<and> only_bytes s u \<and> arena_ok u ap H" using u t only_bytes_trans [of s t u] by simp
      next
        fix e u assume "refuses t (unat a + unat n) \<and> u = t"
        then show "refuses s (unat ap)" using t ap only_bytes_refuses [of s t] refuses_mono [of s "unat a + unat n" "unat ap"] by simp
      qed
    qed (simp add: x holds_slift is_compact_def [symmetric])
  qed
  then show ?thesis
    using al hs by (simp add: journal_object_mut_def mutable_object_context_def validate_offset_alignment_def
        mutable_object_size_def holds_def sbind_def op_run)
qed

section \<open>Allocating an object\<close>

definition fresh_object :: "ObjectType \<Rightarrow> u64 \<Rightarrow> u8 list" where
  "fresh_object T sz = patch (patch (replicate (unat sz) 0) 0 [object_type_code T]) 8 (to_le 8 sz)"

lemma zero_extend_twice: "zero_extend j (zero_extend m bs) = zero_extend (max j m) bs"
proof -
  have "m - length bs + (j - (length bs + (m - length bs))) = max j m - length bs" by linarith
  then show ?thesis by (simp add: zero_extend_def flip: replicate_add)
qed

lemma zero_extend_patch:
  assumes "pos + length data \<le> length bs"
  shows "zero_extend n (patch bs pos data) = patch (zero_extend n bs) pos data"
  using assms by (simp add: zero_extend_def patch_def)

lemma length_fresh_object [simp]: "16 \<le> unat sz \<Longrightarrow> length (fresh_object T sz) = unat sz"
  by (simp add: fresh_object_def)

lemma fresh_object_header:
  assumes "16 \<le> unat sz"
  shows "fresh_object T sz ! 0 = object_type_code T" "u64_at (fresh_object T sz) 8 = sz"
  using assms by (auto simp: fresh_object_def nth_patch u64_at_patch_same)

lemma aligned_word:
  assumes "unat (n :: u64) + 7 < 2 ^ 64"
  shows "unat ((n + 7) AND NOT 7) = (unat n + 7) div 8 * 8"
proof -
  let ?m = "n + 7"
  have m: "unat ?m = unat n + 7" using assms by (simp add: unat_word_ariths)
  have mask: "(7 :: u64) = mask 3" by (simp add: mask_eq_exp_minus_1)
  have "?m AND NOT 7 = push_bit 3 (drop_bit 3 ?m)"
    unfolding mask by (rule bit_word_eqI) (auto simp: bit_simps)
  also have "\<dots> = ?m - take_bit 3 ?m"
    using bits_ident [of 3 ?m] by (simp add: eq_diff_eq)
  finally have "unat (?m AND NOT 7) = unat ?m - unat ?m mod 8"
    by (simp add: unat_sub take_bit_eq_mod unat_mod word_le_nat_alt)
  then show ?thesis using m by (simp add: minus_mod_eq_div_mult)
qed

lemma tail_zeros:
  assumes "arena_ok s ap H" and "unat ap + n \<le> length (file_bytes s)"
  shows "bytes_at (file_bytes s) (unat ap) n = replicate n 0"
  using assms by (intro nth_equalityI) (auto simp: length_bytes_at nth_bytes_at arena_ok_def)

text \<open>A stored object that does not reach the append offset, and one appended there.\<close>

lemma arena_ok_append:
  assumes ok: "arena_ok s ap H" and sz: "16 \<le> unat sz" "unat ap + unat sz + 7 < 2 ^ 64"
    and len: "unat ap + unat sz \<le> length (file_bytes s)"
    and bs: "bs = patch (patch (file_bytes s) (unat ap) [object_type_code T]) (unat ap + 8) (to_le 8 sz)"
  shows "arena_ok (set_bytes bs s) (ap + ((sz + 7) AND NOT 7)) (H(ap \<mapsto> (T, fresh_object T sz)))"
    and "bytes_at bs (unat ap) (unat sz) = fresh_object T sz"
proof -
  let ?d = "fresh_object T sz" and ?ap = "ap + ((sz + 7) AND NOT 7)"
  have lbs: "length bs = length (file_bytes s)" using len sz(1) by (simp add: bs)
  have al: "unat ((sz + 7) AND NOT 7) = (unat sz + 7) div 8 * 8" using sz by (intro aligned_word) simp
  have bnd: "unat sz \<le> (unat sz + 7) div 8 * 8" "(unat sz + 7) div 8 * 8 \<le> unat sz + 7" by presburger+
  have uap: "unat ?ap = unat ap + (unat sz + 7) div 8 * 8"
    using al bnd sz(2) by (subst unat_add_lem [THEN iffD1]) auto
  show view: "bytes_at bs (unat ap) (unat sz) = ?d"
  proof -
    let ?p = "patch (file_bytes s) (unat ap) [object_type_code T]"
    have "bytes_at bs (unat ap) (unat sz) = patch (bytes_at ?p (unat ap) (unat sz)) 8 (to_le 8 sz)"
      unfolding bs using len sz(1) by (intro bytes_at_patch_inside) simp_all
    also have "bytes_at ?p (unat ap) (unat sz) =
        patch (bytes_at (file_bytes s) (unat ap) (unat sz)) 0 [object_type_code T]"
      using bytes_at_patch_inside [of 0 "[object_type_code T]" "unat sz" "unat ap" "file_bytes s"] len sz(1) by simp
    finally show ?thesis using tail_zeros [OF ok len] by (simp add: fresh_object_def)
  qed
  have old: "stored_object bs a U d" "unat a + length d \<le> unat ap" if "H a = Some (U, d)" for a U d
  proof -
    have so: "stored_object (file_bytes s) a U d" and le: "unat a + length d \<le> unat ap"
      using stored_objectD [OF ok that] by auto
    have "stored_object (patch (file_bytes s) (unat ap) [object_type_code T]) a U d"
      by (rule stored_object_patch_other [OF so]) (use le len sz(1) in auto)
    then show "stored_object bs a U d" unfolding bs
      by (rule stored_object_patch_other) (use le len sz(1) in auto)
    show "unat a + length d \<le> unat ap" by (rule le)
  qed
  have apm: "ap mod 8 = 0" using ok by (simp add: arena_ok_def)
  have new: "stored_object bs ap T ?d"
    using apm sz(1) len lbs view fresh_object_header [OF sz(1), of T] by (simp add: stored_object_def)
  have "unat ap mod 8 = 0" using apm unat_mod [of ap 8] by simp
  then have "unat ?ap mod 8 = 0" unfolding uap by simp
  then have "unat (?ap mod 8) = 0" by (simp only: unat_mod) simp
  then have al8: "?ap mod 8 = 0" by (simp only: unat_eq_0)
  have notin: "b \<le> ap \<and> (b = ap \<longrightarrow> False)" if "H b = Some (U, d)" for b U d
    using old [OF that] by (auto simp: word_le_nat_alt stored_object_def)
  have zeros: "bs ! i = 0" if "unat ?ap \<le> i" "i < length (file_bytes s)" for i
    using ok that len sz(1) bnd uap unfolding bs by (simp add: nth_patch arena_ok_def)
  have hs: "header_size (file_header s) \<le> ap" using ok by (simp add: arena_ok_def)
  have apart: "unat a + length d \<le> unat b"
    if "(H(ap \<mapsto> (T, ?d))) a = Some (U, d)" "b \<in> dom (H(ap \<mapsto> (T, ?d)))" "a < b" for a b U d
  proof (cases "a = ap")
    case True
    with that notin [of b] show ?thesis by (auto simp: dom_def split: if_splits)
  next
    case a: False
    show ?thesis
    proof (cases "b = ap")
      case True
      with a that old show ?thesis by auto
    next
      case False
      with a that ok show ?thesis unfolding arena_ok_def by (auto split: if_splits)
    qed
  qed
  have le: "ap \<le> ?ap" unfolding word_le_nat_alt uap by simp
  show "arena_ok (set_bytes bs s) ?ap (H(ap \<mapsto> (T, ?d)))"
    unfolding arena_ok_def
  proof (intro conjI allI impI)
    fix a U d assume a: "(H(ap \<mapsto> (T, ?d))) a = Some (U, d)"
    show "stored_object (file_bytes (set_bytes bs s)) a U d"
      using a new old by (auto split: if_splits)
    show "header_size (file_header (set_bytes bs s)) \<le> a"
      using a hs ok by (auto simp: arena_ok_def split: if_splits)
    show "unat a + length d \<le> unat ?ap"
      using a old bnd uap sz(1) by (fastforce split: if_splits)
  qed (use ok hs le al8 apart zeros lbs in \<open>auto simp: arena_ok_def\<close>)
qed

text \<open>Allocating at the append offset adds a zeroed object to the heap.\<close>

lemma journal_object_mut_new:
  assumes ok: "arena_ok s ap H" and sz: "16 \<le> unat sz" "unat ap + unat sz + 7 < 2 ^ 64"
    and x: "from_data (fresh_object T sz) (is_compact (journal_file s)) = Some x"
  shows "holds (journal_object_mut T from_data ap (Some sz)) s
    (\<lambda>y t. y = x \<and> only_bytes s t \<and>
       arena_ok t (ap + ((sz + 7) AND NOT 7)) (H(ap \<mapsto> (T, fresh_object T sz))))
    (\<lambda>_ _. refuses s (unat ap + unat sz))"
proof -
  let ?c = "\<lparr>mut_object_type = T, mut_is_compact = has_incompatible_flag (file_header s) Compact,
    mut_arena_end = header_size (file_header s) + arena_size (file_header s)\<rparr>"
  let ?Q = "\<lambda>y t. y = x \<and> only_bytes s t \<and>
       arena_ok t (ap + ((sz + 7) AND NOT 7)) (H(ap \<mapsto> (T, fresh_object T sz)))"
  let ?E = "\<lambda>_ _. refuses s (unat ap + unat sz)"
  have al: "ap mod 8 = 0" and hs: "\<not> ap < header_size (file_header s)" using ok by (auto simp: arena_ok_def)
  let ?B = "\<lambda>k. patch (patch (zero_extend k (file_bytes s)) (unat ap) [object_type_code T]) (unat ap + 8) (to_le 8 sz)"
  have ws: "0 < window_size s" using ok by (simp add: arena_ok_def)
  have init: "holds (initialize_mutable_object_header ?c ap sz) s
      (\<lambda>n t. n = sz \<and> (\<exists>k. t = set_bytes (?B k) s \<and> unat ap + 16 \<le> max k (length (file_bytes s)))) ?E"
    unfolding initialize_mutable_object_header_def
  proof (rule holds_seq [OF get_slice_mut_grows [OF ws, of ap 16]])
    fix e t assume "refuses s (unat ap + unat (16 :: u64)) \<and> t = s"
    then show "refuses s (unat ap + unat sz)" using sz refuses_mono [of s "unat ap + 16" "unat ap + unat sz"] by simp
  qed (use sz in \<open>auto simp: write_bytes_def\<close>)
  have rest: "holds (sbind (get_slice_mut ap n) (\<lambda>data.
        slift (ok_or (from_data data (mut_is_compact ?c)) ZerocopyFailure))) t ?Q ?E"
    if "n = sz" and t: "t = set_bytes (?B m) s" and m: "unat ap + 16 \<le> max m (length (file_bytes s))" for n t m
  proof (rule holds_seq [OF get_slice_mut_grows [of t ap n]])
    fix d u assume "\<exists>j. u = set_bytes (zero_extend j (file_bytes t)) t \<and> unat ap + unat n \<le> length (file_bytes u) \<and>
       d = bytes_at (file_bytes u) (unat ap) (unat n)"
    then obtain j where u: "u = set_bytes (zero_extend j (?B m)) s" and len: "unat ap + unat sz \<le> length (file_bytes u)"
      and d: "d = bytes_at (file_bytes u) (unat ap) (unat sz)" using t \<open>n = sz\<close> by auto
    have k: "zero_extend j (?B m) = ?B (max j m)"
      using m by (simp add: zero_extend_patch zero_extend_twice)
    let ?u = "set_bytes (zero_extend (max j m) (file_bytes s)) s"
    from arena_ok_append [OF arena_ok_grow [OF ok] sz, of "max j m" "?B (max j m)" T] len
    have "d = fresh_object T sz" "arena_ok u (ap + ((sz + 7) AND NOT 7)) (H(ap \<mapsto> (T, fresh_object T sz)))"
      using m by (simp_all add: u d k)
    then show "holds (slift (ok_or (from_data d (mut_is_compact ?c)) ZerocopyFailure)) u ?Q ?E"
      using x by (simp add: holds_slift is_compact_def u)
  qed (use ws t sz \<open>n = sz\<close> in \<open>auto simp: refuses_def\<close>)
  have "holds (sbind (initialize_mutable_object_header ?c ap sz) (\<lambda>needed.
        sbind (get_slice_mut ap needed) (\<lambda>data.
          slift (ok_or (from_data data (mut_is_compact ?c)) ZerocopyFailure)))) s ?Q ?E"
    by (rule holds_seq [OF init]) (use rest in auto)
  then show ?thesis
    using al hs by (simp add: journal_object_mut_def mutable_object_context_def validate_offset_alignment_def
        mutable_object_size_def holds_def sbind_def op_run)
qed

end
