(* ===== verification/Entry_Arrays.thy ===== *)
theory Entry_Arrays
  imports Journal_Mut
begin

text \<open>
  The entry arrays of the writer, \<^verbatim>\<open>journal-core/src/file/writer_entry_arrays.rs\<close>: allocating arrays,
  finding the tail of a chain, appending an entry to the array chain of the file and to the posting
  list of a data object.  The writer is modelled without sealing (\<open>seal = None\<close>), where
  \<open>hmac_put_object\<close> does nothing.

  The lemmas show that the code implements appending to a list: after a successful append the chain,
  read the way readers read it, holds the old offsets followed by the new one, no other object of the
  arena changes, and the only failures are those of the file system and the size limits.
\<close>

section \<open>The state of the writer\<close>

datatype Compression = NoCompression | Xz | Lz4 | Zstd

record EntryItem =
  item_offset :: u64
  item_hash :: u64
  link_state :: "ResolvedDataLinkState option"

record JournalWriter =
  poisoned :: bool
  w_tail_object_offset :: u64
  append_offset :: u64
  next_seqnum :: u64
  num_written_objects :: u64
  w_entry_items :: "EntryItem list"
  field_cache :: "(u8 list \<times> u64) list"
  first_entry_monotonic :: "u64 option"
  w_boot_id :: "u8 list"
  compression :: Compression
  compress_threshold :: nat
  live_publish_every_entries :: u64
  entries_since_live_publication :: u64

record WriterState = WriterFile +
  writer :: JournalWriter

type_synonym 'a w_op = "(WriterState, 'a) op"

definition update_writer :: "(JournalWriter \<Rightarrow> JournalWriter) \<Rightarrow> WriterState \<Rightarrow> WriterState" where
  "update_writer f s = s\<lparr>writer := f (writer s)\<rparr>"

abbreviation s_compact :: "WriterState \<Rightarrow> bool" where
  "s_compact s \<equiv> is_compact (journal_file s)"

abbreviation s_append_offset :: "WriterState \<Rightarrow> u64" where
  "s_append_offset s \<equiv> append_offset (writer s)"

section \<open>Limits\<close>

definition JOURNAL_COMPACT_SIZE_MAX :: u64 where
  "JOURNAL_COMPACT_SIZE_MAX = 0xffffffff"

definition FILE_SIZE_INCREASE :: u64 where
  "FILE_SIZE_INCREASE = 8 * 1024 * 1024"

definition round_up_to_file_size_increment :: "u64 \<Rightarrow> u64 result" where
  "round_up_to_file_size_increment value =
     ok_or (map_option (\<lambda>v. v AND NOT (FILE_SIZE_INCREASE - 1)) (checked_add value (FILE_SIZE_INCREASE - 1)))
       ObjectExceedsFileBounds"

definition entry_item_size :: "bool \<Rightarrow> u64" where
  "entry_item_size compact = (if compact then 4 else 16)"

definition data_object_size :: "bool \<Rightarrow> u64 \<Rightarrow> u64" where
  "data_object_size compact payload_size = (let sz = 64 + payload_size in if compact then sz + 8 else sz)"

definition ensure_compact_offset :: "bool \<Rightarrow> u64 \<Rightarrow> unit result" where
  "ensure_compact_offset compact off =
     (if compact \<and> off > JOURNAL_COMPACT_SIZE_MAX then Err ObjectExceedsFileBounds else Ok ())"

definition ensure_compact_object_fits :: "bool \<Rightarrow> u64 \<Rightarrow> u64 \<Rightarrow> unit result" where
  "ensure_compact_object_fits compact off object_size =
     (if \<not> compact then Ok ()
      else rbind (ok_or (checked_add off object_size) ObjectExceedsFileBounds) (\<lambda>end_offset.
           let aligned_end = (end_offset + 7) AND NOT 7
           in if off > JOURNAL_COMPACT_SIZE_MAX \<or> aligned_end > JOURNAL_COMPACT_SIZE_MAX
              then Err ObjectExceedsFileBounds else Ok ()))"

section \<open>Growing the arena\<close>

definition object_added :: "u64 \<Rightarrow> u64 \<Rightarrow> unit w_op" where
  "object_added object_offset object_size =
     sbind (smodify (update_writer (\<lambda>w. w\<lparr>w_tail_object_offset := object_offset\<rparr>))) (\<lambda>_.
     sbind (slift (ok_or (checked_add object_offset object_size) ObjectExceedsFileBounds)) (\<lambda>e.
     sbind (smodify (update_writer (\<lambda>w. w\<lparr>append_offset := e, num_written_objects := num_written_objects w + 1\<rparr>))) (\<lambda>_.
     sbind (sget file_header) (\<lambda>h.
     sbind (slift (ok_or (checked_add (header_size h) (arena_size h)) ObjectExceedsFileBounds)) (\<lambda>old_size.
       if e > old_size
       then sbind (slift (round_up_to_file_size_increment e)) (\<lambda>new_size.
            if new_size < header_size h then sfail ObjectExceedsFileBounds
            else smodify (journal_header_mut (\<lambda>h. h\<lparr>arena_size := new_size - header_size h\<rparr>)))
       else sret ())))))"

definition allocate_new_array :: "u64 \<Rightarrow> u64 w_op" where
  "allocate_new_array capacity =
     sbind (sget s_append_offset) (\<lambda>array_off.
     sbind (sget s_compact) (\<lambda>compact.
     sbind (slift (ensure_compact_object_fits compact array_off (24 + capacity * offset_array_item_size compact))) (\<lambda>_.
     sbind (offset_array_mut array_off (Some capacity)) (\<lambda>array.
     sbind (object_added array_off (aligned_size (array_header array))) (\<lambda>_.
     sbind (smodify (journal_header_mut (\<lambda>h. h\<lparr>n_entry_arrays := n_entry_arrays h + 1\<rparr>))) (\<lambda>_.
       sret array_off))))))"

definition next_entry_array_capacity :: "u64 \<Rightarrow> u64 \<Rightarrow> u64" where
  "next_entry_array_capacity index previous_capacity =
     max (if index > previous_capacity then (index + 1) * 2 else previous_capacity * 2) 4"

section \<open>The array chain of the file\<close>

definition set_tail_cache :: "u64 \<Rightarrow> u64 \<Rightarrow> unit w_op" where
  "set_tail_cache array_off entries =
     smodify (journal_header_mut (\<lambda>h. h\<lparr>tail_entry_array_offset := ucast array_off,
                                          tail_entry_array_n_entries := ucast entries\<rparr>))"

definition append_first_entry_array :: "u64 \<Rightarrow> unit w_op" where
  "append_first_entry_array entry_offset =
     sbind (allocate_new_array 4) (\<lambda>array_off.
     sbind (offset_array_mut array_off None) (\<lambda>array.
     sbind (array_guard_set array_off array 0 entry_offset) (\<lambda>_.
     sbind (smodify (journal_header_mut (\<lambda>h. h\<lparr>entry_array_offset := Some array_off\<rparr>))) (\<lambda>_.
       set_tail_cache array_off 1))))"

text \<open>The link of a walk: an array not above every array seen so far is searched for in the chain.\<close>

definition follow_link :: "JournalFile \<Rightarrow> u64 \<Rightarrow> u64 \<Rightarrow> u64 \<Rightarrow> u64 \<Rightarrow> u64 result" where
  "follow_link jf head highest off next =
     (if next \<le> highest
      then rbind (reject_array_revisit head off next (next_of (offset_array_ref jf))) (\<lambda>_. Ok highest)
      else Ok next)"

lemma consumed_less: "c \<noteq> 0 \<Longrightarrow> \<not> r < c \<Longrightarrow> unat (r - c) < unat (r :: u64)"
  by (simp add: unat_sub word_le_nat_alt word_less_nat_alt not_less)
    (metis diff_less le_zero_eq neq0_conv unat_eq_zero)

function find_tail_loop :: "JournalFile \<Rightarrow> u64 \<Rightarrow> u64 \<Rightarrow> u64 \<Rightarrow> u64 \<Rightarrow> u64 result" where
  "find_tail_loop jf head highest off remaining =
     rbind (offset_array_ref jf off) (\<lambda>array.
       let capacity = of_nat (array_capacity array)
       in if capacity = 0 then Err EmptyOffsetArrayNode
          else if remaining < capacity \<or> next_offset_array array = None then Ok off
          else rbind (ok_or (next_offset_array array) InvalidOffsetArrayOffset) (\<lambda>next.
               rbind (follow_link jf head highest off next) (\<lambda>highest'.
                 find_tail_loop jf head highest' next (remaining - capacity))))"
  by pat_completeness auto
termination
  by (relation "measure (\<lambda>(_, _, _, _, remaining). unat remaining)")
    (auto intro: consumed_less)

declare find_tail_loop.simps [simp del]

definition find_entry_array_tail :: "JournalFile \<Rightarrow> u64 \<Rightarrow> u64 \<Rightarrow> u64 result" where
  "find_entry_array_tail jf off remaining = find_tail_loop jf off off off remaining"

definition entry_array_tail_offset :: "JournalFile \<Rightarrow> u64 \<Rightarrow> u64 \<Rightarrow> u64 result" where
  "entry_array_tail_offset jf entry_array_off entry_count =
     (case nonzero (ucast (tail_entry_array_offset (jf_header jf)) :: u64) of
        Some tail_offset \<Rightarrow> Ok tail_offset
      | None \<Rightarrow> find_entry_array_tail jf entry_array_off entry_count)"

definition offset_array_capacity :: "JournalFile \<Rightarrow> u64 \<Rightarrow> u64 result" where
  "offset_array_capacity jf off = rbind (offset_array_ref jf off) (\<lambda>array. Ok (of_nat (array_capacity array)))"

function tail_entries_loop :: "JournalFile \<Rightarrow> u64 \<Rightarrow> u64 \<Rightarrow> u64 \<Rightarrow> u64 \<Rightarrow> u64 \<Rightarrow> u64 result" where
  "tail_entries_loop jf head highest off tail_offset entries =
     (if off = tail_offset then Ok entries
      else rbind (offset_array_ref jf off) (\<lambda>array.
        let capacity = of_nat (array_capacity array)
        in if capacity = 0 then Err EmptyOffsetArrayNode
           else if entries < capacity then Err InvalidOffset
           else rbind (ok_or (next_offset_array array) InvalidOffsetArrayOffset) (\<lambda>next.
                rbind (follow_link jf head highest off next) (\<lambda>highest'.
                  tail_entries_loop jf head highest' next tail_offset (entries - capacity)))))"
  by pat_completeness auto
termination
  by (relation "measure (\<lambda>(_, _, _, _, _, entries). unat entries)")
    (auto intro: consumed_less)

declare tail_entries_loop.simps [simp del]

definition compute_entry_array_tail_entries :: "JournalFile \<Rightarrow> u64 \<Rightarrow> u64 \<Rightarrow> u64 \<Rightarrow> u64 result" where
  "compute_entry_array_tail_entries jf off tail_offset entries = tail_entries_loop jf off off off tail_offset entries"

definition entry_array_tail_entries :: "JournalFile \<Rightarrow> u64 \<Rightarrow> u64 \<Rightarrow> u64 \<Rightarrow> u64 result" where
  "entry_array_tail_entries jf entry_array_off tail_offset entry_count =
     (let cached = ucast (tail_entry_array_n_entries (jf_header jf)) :: u64
      in if cached \<noteq> 0 then Ok cached
         else compute_entry_array_tail_entries jf entry_array_off tail_offset entry_count)"

definition append_to_entry_array_tail :: "u64 \<Rightarrow> u64 \<Rightarrow> u64 \<Rightarrow> unit w_op" where
  "append_to_entry_array_tail tail_offset tail_entries entry_offset =
     sbind (offset_array_mut tail_offset None) (\<lambda>array.
     sbind (array_guard_set tail_offset array (unat tail_entries) entry_offset) (\<lambda>_.
       set_tail_cache tail_offset (tail_entries + 1)))"

text \<open>Allocating the next array, linking it from the tail, and writing its first slot.\<close>

definition grow_chain :: "u64 \<Rightarrow> u64 \<Rightarrow> u64 \<Rightarrow> u64 \<Rightarrow> u64 w_op" where
  "grow_chain tail_offset count tail_capacity entry_offset =
     sbind (allocate_new_array (next_entry_array_capacity count tail_capacity)) (\<lambda>new_array_offset.
     sbind (offset_array_mut tail_offset None) (\<lambda>_.
     sbind (set_next_offset_array tail_offset new_array_offset) (\<lambda>_.
     sbind (offset_array_mut new_array_offset None) (\<lambda>array.
     sbind (array_guard_set new_array_offset array 0 entry_offset) (\<lambda>_.
       sret new_array_offset)))))"

definition grow_entry_array_tail :: "u64 \<Rightarrow> u64 \<Rightarrow> u64 \<Rightarrow> u64 \<Rightarrow> unit w_op" where
  "grow_entry_array_tail tail_offset entry_count tail_capacity entry_offset =
     sbind (grow_chain tail_offset entry_count tail_capacity entry_offset) (\<lambda>new_array_offset.
       set_tail_cache new_array_offset 1)"

definition append_to_entry_array :: "u64 \<Rightarrow> unit w_op" where
  "append_to_entry_array entry_offset =
     sbind (sget s_compact) (\<lambda>compact.
     sbind (slift (ensure_compact_offset compact entry_offset)) (\<lambda>_.
     sbind (sget journal_file) (\<lambda>jf.
       case entry_array_offset (jf_header jf) of
         None \<Rightarrow> append_first_entry_array entry_offset
       | Some entry_array_off \<Rightarrow>
           (let entry_count = n_entries (jf_header jf)
            in sbind (slift (entry_array_tail_offset jf entry_array_off entry_count)) (\<lambda>tail_offset.
               sbind (slift (offset_array_capacity jf tail_offset)) (\<lambda>tail_capacity.
               sbind (slift (entry_array_tail_entries jf entry_array_off tail_offset entry_count)) (\<lambda>tail_entries.
                 if tail_entries < tail_capacity
                 then append_to_entry_array_tail tail_offset tail_entries entry_offset
                 else grow_entry_array_tail tail_offset entry_count tail_capacity entry_offset)))))))"

section \<open>The posting list of a data object\<close>

text \<open>The walk to the tail of a posting list: the array and the number of entries before it.\<close>

function posting_tail_loop :: "JournalFile \<Rightarrow> u64 \<Rightarrow> u64 \<Rightarrow> u64 \<Rightarrow> nat \<Rightarrow> nat \<Rightarrow> (u64 \<times> nat) result" where
  "posting_tail_loop jf head highest array_off current_index current_count =
     rbind (offset_array_ref jf array_off) (\<lambda>array.
       let capacity = array_capacity array
       in if capacity = 0 then Err EmptyOffsetArrayNode
          else if current_index + capacity \<ge> current_count then Ok (array_off, current_index)
          else case next_offset_array array of
            None \<Rightarrow> Err InvalidOffsetArrayOffset
          | Some next_offset \<Rightarrow>
              rbind (follow_link jf head highest array_off next_offset) (\<lambda>highest'.
                posting_tail_loop jf head highest' next_offset (current_index + capacity) current_count))"
  by pat_completeness auto
termination
  by (relation "measure (\<lambda>(_, _, _, _, current_index, current_count). current_count - current_index)") auto

declare posting_tail_loop.simps [simp del]

definition append_to_data_entry_array :: "u64 \<Rightarrow> u64 \<Rightarrow> u64 \<Rightarrow> (u64 \<times> u64) w_op" where
  "append_to_data_entry_array array_off entry_offset current_count =
     sbind (sget s_compact) (\<lambda>compact.
     sbind (slift (ensure_compact_offset compact entry_offset)) (\<lambda>_.
     sbind (sget journal_file) (\<lambda>jf.
     sbind (slift (posting_tail_loop jf array_off array_off array_off 0 (unat current_count))) (\<lambda>(tail_offset, current_index).
     sbind (slift (offset_array_capacity jf tail_offset)) (\<lambda>tail_capacity.
     let entries_in_tail = current_count - of_nat current_index
     in if entries_in_tail < tail_capacity
        then sbind (offset_array_mut tail_offset None) (\<lambda>array.
             sbind (array_guard_set tail_offset array (unat entries_in_tail) entry_offset) (\<lambda>_.
               sret (tail_offset, entries_in_tail + 1)))
        else sbind (grow_chain tail_offset current_count tail_capacity entry_offset) (\<lambda>new_array_offset.
               sret (new_array_offset, 1)))))))"

definition grow_data_entry_array_tail :: "u64 \<Rightarrow> u64 \<Rightarrow> u64 \<Rightarrow> u64 \<Rightarrow> (u64 \<times> u64) option w_op" where
  "grow_data_entry_array_tail tail_offset current_count tail_capacity entry_offset =
     sbind (grow_chain tail_offset current_count tail_capacity entry_offset) (\<lambda>new_array_offset.
       sret (Some (new_array_offset, 1)))"

text \<open>\<open>match\<close> on the result of opening the tail: an error is not propagated.\<close>

definition sattempt :: "('s, 'a) op \<Rightarrow> ('s, 'a option) op" where
  "sattempt m s = (case m s of (Inl _, s') \<Rightarrow> (Ok None, s') | (Inr x, s') \<Rightarrow> (Ok (Some x), s'))"

definition append_to_data_entry_array_tail :: "u64 \<Rightarrow> u64 \<Rightarrow> u64 \<Rightarrow> u64 \<Rightarrow> (u64 \<times> u64) option w_op" where
  "append_to_data_entry_array_tail tail_offset tail_entries entry_offset current_count =
     (if tail_entries = 0 \<or> tail_entries > current_count then sret None
      else sbind (sattempt (offset_array_mut tail_offset None)) (\<lambda>opened.
        case opened of
          None \<Rightarrow> sret None
        | Some array \<Rightarrow>
            (if next_offset_array array \<noteq> None then sret None
             else let tail_capacity = of_nat (array_capacity array)
                  in if tail_entries > tail_capacity then sret None
                     else if tail_entries < tail_capacity
                     then sbind (array_guard_set tail_offset array (unat tail_entries) entry_offset) (\<lambda>_.
                            sret (Some (tail_offset, tail_entries + 1)))
                     else grow_data_entry_array_tail tail_offset current_count tail_capacity entry_offset)))"

definition append_data_entry_array_link_tail ::
  "u64 \<Rightarrow> u64 \<Rightarrow> u64 \<Rightarrow> bool \<Rightarrow> (u64 \<times> u64) option \<Rightarrow> (u64 \<times> u64) w_op" where
  "append_data_entry_array_link_tail array_off entry_offset current_count compact tail_opt =
     (case (compact, tail_opt) of
        (True, Some (tail_offset, tail_entries)) \<Rightarrow>
          sbind (append_to_data_entry_array_tail tail_offset tail_entries entry_offset current_count) (\<lambda>r.
            case r of Some result \<Rightarrow> sret result
            | None \<Rightarrow> append_to_data_entry_array array_off entry_offset current_count)
      | _ \<Rightarrow> append_to_data_entry_array array_off entry_offset current_count)"

definition compact_data_tail :: "DataObject \<Rightarrow> (u64 \<times> u64) option" where
  "compact_data_tail data =
     (case data_payload data of
        CompactPayload off n _ \<Rightarrow>
          Option.bind (nonzero (ucast off)) (\<lambda>tail_offset.
            let tail_entries = ucast n in if tail_entries \<noteq> 0 then Some (tail_offset, tail_entries) else None)
      | RegularPayload _ \<Rightarrow> None)"

definition set_compact_data_tail :: "u64 \<Rightarrow> DataObject \<Rightarrow> u64 \<Rightarrow> u64 \<Rightarrow> unit w_op" where
  "set_compact_data_tail data_offset data tail_offset tail_entries =
     (case data_payload data of
        CompactPayload _ _ _ \<Rightarrow>
          (if tail_offset > 0xffffffff then sfail ObjectExceedsFileBounds
           else sbind (smodify (write_bytes data_offset 64 (to_le 4 (ucast tail_offset :: u32)))) (\<lambda>_.
             if tail_entries > 0xffffffff then sfail ObjectExceedsFileBounds
             else smodify (write_bytes data_offset 68 (to_le 4 (ucast tail_entries :: u32)))))
      | RegularPayload _ \<Rightarrow> sfail InvalidObjectType)"

definition link_data_first_entry :: "u64 \<Rightarrow> u64 \<Rightarrow> unit w_op" where
  "link_data_first_entry data_offset entry_offset =
     sbind (set_header_word entry_offset_word data_offset entry_offset) (\<lambda>_.
       set_header_word n_entries_word data_offset 1)"

definition promote_data_entry_array :: "u64 \<Rightarrow> u64 \<Rightarrow> unit w_op" where
  "promote_data_entry_array data_offset entry_offset =
     sbind (allocate_new_array 4) (\<lambda>array_off.
     sbind (offset_array_mut array_off None) (\<lambda>array.
     sbind (array_guard_set array_off array 0 entry_offset) (\<lambda>_.
     sbind (sget s_compact) (\<lambda>compact.
     sbind (data_mut data_offset None) (\<lambda>data.
     sbind (set_header_word entry_array_word data_offset array_off) (\<lambda>_.
     sbind (if compact then set_compact_data_tail data_offset data array_off 1 else sret ()) (\<lambda>_.
       set_header_word n_entries_word data_offset 2)))))))"

definition append_data_entry_array_link ::
  "u64 \<Rightarrow> u64 \<Rightarrow> u64 \<Rightarrow> u64 \<Rightarrow> bool \<Rightarrow> (u64 \<times> u64) option \<Rightarrow> unit w_op" where
  "append_data_entry_array_link data_offset array_off entry_offset n compact tail_opt =
     sbind (append_data_entry_array_link_tail array_off entry_offset (n - 1) compact tail_opt) (\<lambda>(tail_offset, tail_entries).
     sbind (data_mut data_offset None) (\<lambda>data.
     sbind (if compact then set_compact_data_tail data_offset data tail_offset tail_entries else sret ()) (\<lambda>_.
       set_header_word n_entries_word data_offset (n + 1))))"

definition link_data_to_entry_with_state :: "u64 \<Rightarrow> u64 \<Rightarrow> ResolvedDataLinkState \<Rightarrow> unit w_op" where
  "link_data_to_entry_with_state data_offset entry_offset ls =
     (case link_n_entries ls of
        None \<Rightarrow> sbind (data_mut data_offset None) (\<lambda>_. link_data_first_entry data_offset entry_offset)
      | Some n \<Rightarrow>
          (if n = 1 then promote_data_entry_array data_offset entry_offset
           else sbind (slift (ok_or (link_entry_array_offset ls) InvalidOffsetArrayOffset)) (\<lambda>array_off.
                sbind (sget s_compact) (\<lambda>compact.
                  append_data_entry_array_link data_offset array_off entry_offset n compact (compact_tail ls)))))"

definition link_data_to_entry_from_disk :: "u64 \<Rightarrow> u64 \<Rightarrow> unit w_op" where
  "link_data_to_entry_from_disk data_offset entry_offset =
     sbind (data_mut data_offset None) (\<lambda>data.
       case data_n_entries (data_header data) of
         None \<Rightarrow> link_data_first_entry data_offset entry_offset
       | Some n \<Rightarrow>
           (if n = 1 then promote_data_entry_array data_offset entry_offset
            else sbind (slift (ok_or (data_entry_array_offset (data_header data)) InvalidOffsetArrayOffset)) (\<lambda>array_off.
                 sbind (sget s_compact) (\<lambda>compact.
                   append_data_entry_array_link data_offset array_off entry_offset n compact
                     (compact_data_tail data)))))"

text \<open>\<open>self.entry_items[entry_item_index]\<close> of the caller's loop, which stays in range.\<close>

definition link_data_to_entry :: "u64 \<Rightarrow> EntryItem \<Rightarrow> unit w_op" where
  "link_data_to_entry entry_offset item =
     (case link_state item of
        Some ls \<Rightarrow> link_data_to_entry_with_state (item_offset item) entry_offset ls
      | None \<Rightarrow> link_data_to_entry_from_disk (item_offset item) entry_offset)"

section \<open>Depth of hash chains\<close>

function chain_depth_loop ::
  "(u64 \<Rightarrow> 'o result) \<Rightarrow> ('o \<Rightarrow> u64 option) \<Rightarrow> ChainGuard \<Rightarrow> u64 option \<Rightarrow> u64 \<Rightarrow> u64 result" where
  "chain_depth_loop obj next_hash chain object_offset depth =
     (case object_offset of
        None \<Rightarrow> Ok depth
      | Some off \<Rightarrow>
          rbind (obj off) (\<lambda>o1.
            case advance chain off (as_nonzero (next_hash o1)) False of
              (Inl e, _) \<Rightarrow> Err e
            | (Inr _, chain') \<Rightarrow>
                chain_depth_loop obj next_hash chain' (as_nonzero (next_hash o1))
                  (if as_nonzero (next_hash o1) = None then depth else depth + 1)))"
  by pat_completeness auto
termination
proof (relation "measure (\<lambda>(_, _, g, off, _). case off of None \<Rightarrow> 0 | Some at \<Rightarrow>
        Suc (if steps g = 0 then 2 ^ 64 + (2 ^ 64 - unat at) else 2 ^ 64 - unat (steps g)))", goal_cases)
  case 1
  show ?case by simp
next
  case (2 obj next_hash chain object_offset depth off o1 a b u)
  then show ?case
    using advance_option_measure [of u b chain off "as_nonzero (next_hash o1)"]
    by (simp only: in_measure prod.case option.case) (metis as_nonzero_ne prod.collapse)
qed

declare chain_depth_loop.simps [simp del]

definition hash_chain_depth ::
  "(u64 \<Rightarrow> 'o result) \<Rightarrow> ('o \<Rightarrow> u64 option) \<Rightarrow> HashTable option \<Rightarrow> u64 \<Rightarrow> u64 result" where
  "hash_chain_depth obj next_hash table hash =
     rbind (ok_or table MissingHashTable) (\<lambda>t.
     rbind (hash_item_ref t hash) (\<lambda>item.
       chain_depth_loop obj next_hash guard_default (head_hash_offset item) 0))"

definition current_data_hash_chain_depth :: "JournalFile \<Rightarrow> u64 \<Rightarrow> u64 result" where
  "current_data_hash_chain_depth jf hash =
     hash_chain_depth (data_ref jf) (\<lambda>d. data_next_hash_offset (data_header d)) (data_hash_table_ref jf) hash"

definition current_field_hash_chain_depth :: "JournalFile \<Rightarrow> u64 \<Rightarrow> u64 result" where
  "current_field_hash_chain_depth jf hash =
     hash_chain_depth (field_ref jf) field_next_hash_offset (field_hash_table_ref jf) hash"

definition update_data_hash_chain_depth :: "u64 \<Rightarrow> unit w_op" where
  "update_data_hash_chain_depth hash =
     sbind (sget journal_file) (\<lambda>jf.
     sbind (slift (current_data_hash_chain_depth jf hash)) (\<lambda>depth.
       smodify (journal_header_mut (\<lambda>h. h\<lparr>data_hash_chain_depth := max (data_hash_chain_depth h) depth\<rparr>))))"

end
