(* ===== verification/Arena_Chains.thy ===== *)
theory Arena_Chains
  imports Entry_Arrays
begin

text \<open>
  Correctness of the entry arrays.  Arrays are described by their bytes (slots and link), chains by
  \<open>chain_in\<close> over the heap of the arena; writing a slot, linking a new array and starting a chain are
  updates of the heap that append one value.  The lemmas on the walks show that the writer's lookups of
  the tail find the last array, whether or not the header caches it.
\<close>

section \<open>Arrays as bytes\<close>

definition item_width :: "bool \<Rightarrow> nat" where
  "item_width c = (if c then 4 else 8)"

definition array_shape :: "bool \<Rightarrow> u8 list \<Rightarrow> bool" where
  "array_shape c d \<longleftrightarrow> 24 \<le> length d \<and> (length d - 24) mod item_width c = 0"

definition slots_of_array :: "bool \<Rightarrow> u8 list \<Rightarrow> nat" where
  "slots_of_array c d = (length d - 24) div item_width c"

definition array_slot :: "bool \<Rightarrow> u8 list \<Rightarrow> nat \<Rightarrow> u64 option" where
  "array_slot c d i = nonzero (from_le (bytes_at d (24 + i * item_width c) (item_width c)))"

definition array_link :: "u8 list \<Rightarrow> u64 option" where
  "array_link d = nonzero (u64_at d 16)"

lemma item_width_pos [simp]: "0 < item_width c"
  by (simp add: item_width_def)

lemma from_le_u32:
  assumes "length bs = 4"
  shows "ucast (from_le bs :: u32) = (from_le bs :: u64)"
proof -
  have b: "0 \<le> horner_sum uint 256 bs" "horner_sum uint 256 bs < (256 :: int) ^ length bs" for bs :: "u8 list"
  proof (induction bs)
    case (Cons x bs)
    have "uint x < 256" using uint_lt2p [of x] by simp
    with Cons show "0 \<le> horner_sum uint 256 (x # bs)" "horner_sum uint 256 (x # bs) < (256 :: int) ^ length (x # bs)"
      by auto
  qed simp_all
  have "horner_sum uint 256 bs < (2 :: int) ^ 32" using b(2) [of bs] assms by simp
  then show ?thesis
    using b(1) [of bs] by (simp add: from_le_def unsigned_ucast_eq ucast_eq uint_word_of_int)
qed

lemma map_option_ucast_nonzero: "map_option ucast (nonzero (x :: u32)) = nonzero (ucast x :: u64)"
proof -
  have "(ucast x :: u64) = 0 \<longleftrightarrow> x = 0" by (metis unat_eq_zero unat_ucast_u32)
  then show ?thesis by (simp add: nonzero_def)
qed

lemma array_view:
  assumes "array_shape c d"
  obtains arr where "offset_array_from_data d c = Some arr" and "array_capacity arr = slots_of_array c d"
    and "next_offset_array arr = array_link d" and "array_header arr = object_header_from_bytes (take 24 d)"
    and "\<And>i. i < slots_of_array c d \<Longrightarrow> offsets_get (items arr) i = Ok (array_slot c d i)"
    and "(case items arr of Regular _ \<Rightarrow> \<not> c | CompactItems _ \<Rightarrow> c)"
proof -
  let ?w = "item_width c" and ?n = "slots_of_array c d"
  have len: "length d = 24 + ?n * ?w" and d24: "24 \<le> length d"
    using assms by (auto simp: array_shape_def slots_of_array_def)
  have "drop 24 d = bytes_at d 24 (?n * ?w)" using len by (simp add: bytes_at_def)
  then have ch: "chunks ?w (drop 24 d) = map (\<lambda>k. bytes_at d (24 + k * ?w) ?w) [0..<?n]"
    using chunks_bytes_at [of ?w 24 ?n d] len by simp
  have link: "u64_at (take 24 d) 16 = u64_at d 16"
    using word_at_bytes_at(1) [of 16 24 d 0] by (simp add: bytes_at_def)
  let ?arr = "\<lparr>array_header = object_header_from_bytes (take 24 d), next_offset_array = nonzero (u64_at (take 24 d) 16),
      items = (if c then CompactItems (map (\<lambda>c. nonzero (from_le c)) (chunks 4 (drop 24 d)))
               else Regular (map (\<lambda>c. nonzero (from_le c)) (chunks 8 (drop 24 d))))\<rparr>"
  have "offset_array_from_data d c = Some ?arr"
    using assms by (auto simp: offset_array_from_data_def Let_def array_shape_def item_width_def not_less)
  moreover have "array_capacity ?arr = ?n"
    using ch by (auto simp: array_capacity_def item_width_def)
  moreover have "next_offset_array ?arr = array_link d" by (simp add: link array_link_def)
  moreover have "offsets_get (items ?arr) i = Ok (array_slot c d i)" if "i < ?n" for i
  proof (cases c)
    case True
    then have w: "?w = 4" by (simp add: item_width_def)
    have "24 + i * 4 + 4 \<le> length d" using that len w by simp
    then have "length (bytes_at d (24 + i * 4) 4) = 4" by (simp add: length_bytes_at)
    with True that ch w show ?thesis
      by (simp add: array_slot_def map_option_ucast_nonzero from_le_u32)
  next
    case False
    with that ch show ?thesis by (simp add: array_slot_def item_width_def)
  qed
  ultimately show ?thesis by (intro that [of ?arr]) auto
qed

lemma array_patch:
  assumes "array_shape c d" and "16 \<le> rel" and "rel + length data \<le> length d"
  shows "array_shape c (patch d rel data)" "slots_of_array c (patch d rel data) = slots_of_array c d"
  using assms by (simp_all add: array_shape_def slots_of_array_def)

lemma slot_range:
  assumes "array_shape c d" and "i < slots_of_array c d"
  shows "24 + i * item_width c + item_width c \<le> length d"
proof -
  have "length d = 24 + slots_of_array c d * item_width c"
    using assms(1) by (auto simp: array_shape_def slots_of_array_def)
  moreover have "Suc i * item_width c \<le> slots_of_array c d * item_width c"
    using assms(2) by (intro mult_le_mono1) (rule Suc_leI)
  ultimately show ?thesis unfolding mult_Suc by linarith
qed

definition encode_offset :: "bool \<Rightarrow> u64 \<Rightarrow> u8 list" where
  "encode_offset c v = (if c then to_le 4 (ucast v :: u32) else to_le 8 v)"

lemma length_encode_offset [simp]: "length (encode_offset c v) = item_width c"
  by (simp add: encode_offset_def item_width_def)

lemma decode_offset:
  assumes "c \<longrightarrow> unat v < 2 ^ 32"
  shows "from_le (encode_offset c v) = v"
proof (cases c)
  case True
  have "unat (ucast v :: u32) = unat v"
    using assms True by (simp add: unsigned_ucast_eq take_bit_eq_mod)
  then have v: "ucast (ucast v :: u32) = v" by (metis unat_ucast_u32 word_unat_eq_iff)
  have "(from_le (to_le 4 (ucast v :: u32)) :: u64) = ucast (from_le (to_le 4 (ucast v :: u32)) :: u32)"
    by (rule from_le_u32 [symmetric]) simp
  also have "from_le (to_le 4 (ucast v :: u32)) = (ucast v :: u32)" by (rule from_le_to_le) simp
  finally show ?thesis using True v by (simp add: encode_offset_def)
qed (simp add: encode_offset_def from_le_to_le)

text \<open>Writing a slot and writing the link.\<close>

lemma array_set_slot:
  assumes "array_shape c d" and j: "j < slots_of_array c d" and v: "v \<noteq> 0" "c \<longrightarrow> unat v < 2 ^ 32"
    and d': "d' = patch d (24 + j * item_width c) (encode_offset c v)"
  shows "array_slot c d' i = (if i = j then Some v else if i < slots_of_array c d then array_slot c d i else array_slot c d' i)"
    "array_link d' = array_link d" "array_shape c d'" "slots_of_array c d' = slots_of_array c d"
proof -
  note rj = slot_range [OF assms(1) j]
  have same: "bytes_at d' (24 + j * item_width c) (item_width c) = encode_offset c v"
    using bytes_at_patch_inside [of 0 "encode_offset c v" "item_width c" "24 + j * item_width c" d] rj
    by (simp add: d' patch_def length_bytes_at)
  have other: "bytes_at d' (24 + i * item_width c) (item_width c) = bytes_at d (24 + i * item_width c) (item_width c)"
    if "i \<noteq> j" "i < slots_of_array c d" for i
  proof -
    have "Suc i * item_width c \<le> j * item_width c \<or> Suc j * item_width c \<le> i * item_width c"
      using that(1) by (metis linorder_neqE_nat mult_le_mono1 Suc_leI)
    then show ?thesis
      unfolding d' using rj slot_range [OF assms(1) that(2)] by (intro bytes_at_patch_other) auto
  qed
  show "array_slot c d' i = (if i = j then Some v else if i < slots_of_array c d then array_slot c d i else array_slot c d' i)"
    using same other v by (simp add: array_slot_def decode_offset)
  show "array_link d' = array_link d"
    using rj by (simp add: array_link_def d' u64_at_patch)
  show "array_shape c d'" "slots_of_array c d' = slots_of_array c d"
    using array_patch [OF assms(1)] rj by (simp_all add: d')
qed

lemma array_set_link:
  assumes "array_shape c d" and v: "v \<noteq> 0" and d': "d' = patch d 16 (to_le 8 v)"
  shows "array_link d' = Some v" "array_shape c d'" "slots_of_array c d' = slots_of_array c d"
    "i < slots_of_array c d \<Longrightarrow> array_slot c d' i = array_slot c d i"
proof -
  have 24: "24 \<le> length d" using assms(1) by (simp add: array_shape_def)
  then show "array_link d' = Some v" using v by (simp add: array_link_def d' u64_at_patch_same)
  show "array_shape c d'" "slots_of_array c d' = slots_of_array c d"
    using array_patch [OF assms(1)] 24 by (simp_all add: d')
  show "array_slot c d' i = array_slot c d i" if "i < slots_of_array c d"
    using slot_range [OF assms(1) that] by (simp add: array_slot_def d' bytes_at_patch_other)
qed

lemma fresh_array:
  assumes "unat sz = 24 + n * item_width c"
  shows "array_shape c (fresh_object T sz)" "slots_of_array c (fresh_object T sz) = n"
    "array_link (fresh_object T sz) = None"
proof -
  show "array_shape c (fresh_object T sz)" "slots_of_array c (fresh_object T sz) = n"
    using assms by (simp_all add: array_shape_def slots_of_array_def)
  have "horner_sum uint 256 (replicate k (0 :: u8)) = (0 :: int)" for k by (induction k) simp_all
  then have "u64_at (replicate (unat sz) 0) 16 = 0"
    using assms by (simp add: u64_at_def bytes_at_def from_le_def min_def)
  then show "array_link (fresh_object T sz) = None"
    using assms by (simp add: array_link_def fresh_object_def u64_at_patch)
qed

section \<open>Chains in the heap\<close>

text \<open>\<open>array_seg H c a vs nx\<close>: the array at \<open>a\<close> starts with the offsets \<open>vs\<close> and links to \<open>nx\<close>.\<close>

definition array_seg :: "arena \<Rightarrow> bool \<Rightarrow> u64 \<Rightarrow> u64 list \<Rightarrow> u64 option \<Rightarrow> bool" where
  "array_seg H c a vs nx \<longleftrightarrow>
     (\<exists>d. H a = Some (EntryArray, d) \<and> array_shape c d \<and> a \<noteq> 0 \<and> vs \<noteq> [] \<and> length vs \<le> slots_of_array c d \<and>
        (\<forall>i < length vs. array_slot c d i = Some (vs ! i)) \<and> array_link d = nx)"

definition seg_capacity :: "arena \<Rightarrow> bool \<Rightarrow> u64 \<Rightarrow> nat" where
  "seg_capacity H c a = (case H a of Some (_, d) \<Rightarrow> slots_of_array c d | None \<Rightarrow> 0)"

fun chain_in :: "arena \<Rightarrow> bool \<Rightarrow> segments \<Rightarrow> bool" where
  "chain_in H c [] \<longleftrightarrow> True"
| "chain_in H c [(a, vs)] \<longleftrightarrow> array_seg H c a vs None"
| "chain_in H c ((a, vs) # (b, us) # segs) \<longleftrightarrow>
     array_seg H c a vs (Some b) \<and> length vs = seg_capacity H c a \<and> chain_in H c ((b, us) # segs)"

definition reads_heap :: "arena \<Rightarrow> bool \<Rightarrow> array_ref \<Rightarrow> bool" where
  "reads_heap H c aref \<longleftrightarrow>
     (\<forall>a d arr. H a = Some (EntryArray, d) \<longrightarrow> offset_array_from_data d c = Some arr \<longrightarrow> aref a = Ok arr)"

lemma reads_heap_file:
  assumes "arena_ok s ap H" and "within_arena s ap"
  shows "reads_heap H (is_compact (journal_file s)) (offset_array_ref (journal_file s))"
  unfolding reads_heap_def offset_array_ref_def
  by (intro allI impI) (subst journal_object_ref_heap [OF assms], auto)

lemma array_seg_view:
  assumes "reads_heap H c aref" and "array_seg H c a vs nx"
  obtains arr where "aref a = Ok arr" and "array_capacity arr = seg_capacity H c a" and "next_offset_array arr = nx"
    and "a \<noteq> 0" and "vs \<noteq> []" and "length vs \<le> array_capacity arr"
    and "\<And>i. i < length vs \<Longrightarrow> offsets_get (items arr) i = Ok (Some (vs ! i))"
proof -
  obtain d where d: "H a = Some (EntryArray, d)" "array_shape c d" "a \<noteq> 0" "vs \<noteq> []"
    "length vs \<le> slots_of_array c d" "\<forall>i < length vs. array_slot c d i = Some (vs ! i)" "array_link d = nx"
    using assms(2) by (auto simp: array_seg_def)
  obtain arr where arr: "offset_array_from_data d c = Some arr" "array_capacity arr = slots_of_array c d"
    "next_offset_array arr = array_link d" "\<And>i. i < slots_of_array c d \<Longrightarrow> offsets_get (items arr) i = Ok (array_slot c d i)"
    using array_view [OF d(2)] by metis
  then have "aref a = Ok arr" using assms(1) d(1) by (auto simp: reads_heap_def)
  then show thesis using d arr by (intro that [of arr]) (auto simp: seg_capacity_def)
qed

lemma chain_in_Cons:
  "chain_in H c ((a, vs) # segs) \<longleftrightarrow>
     array_seg H c a vs (case segs of [] \<Rightarrow> None | seg # _ \<Rightarrow> Some (fst seg)) \<and>
     (segs \<noteq> [] \<longrightarrow> length vs = seg_capacity H c a) \<and> chain_in H c segs"
  by (cases segs) auto

text \<open>A chain of the heap is what readers call a chain, for any number of items it holds.\<close>

lemma chain_in_chain_ok:
  assumes "reads_heap H c aref" and "chain_in H c segs"
  shows "chain_ok aref (length (list_values segs)) segs"
  using assms(2)
proof (induction segs)
  case (Cons seg segs)
  obtain a vs where seg: "seg = (a, vs)" by (cases seg)
  from Cons.prems have s: "array_seg H c a vs (case segs of [] \<Rightarrow> None | seg # _ \<Rightarrow> Some (fst seg))"
    "segs \<noteq> [] \<longrightarrow> length vs = seg_capacity H c a" "chain_in H c segs"
    by (auto simp: seg chain_in_Cons)
  from array_seg_view [OF assms(1) s(1)] obtain arr where arr: "aref a = Ok arr"
    "array_capacity arr = seg_capacity H c a" "next_offset_array arr = (case segs of [] \<Rightarrow> None | seg # _ \<Rightarrow> Some (fst seg))"
    "a \<noteq> 0" "vs \<noteq> []" "length vs \<le> array_capacity arr" "\<And>i. i < length vs \<Longrightarrow> offsets_get (items arr) i = Ok (Some (vs ! i))"
    by blast
  show ?case
    using arr s Cons.IH by (cases segs) (auto simp: seg list_all_iff min_def)
qed simp

lemma array_seg_frame: "H' a = H a \<Longrightarrow> array_seg H' c a vs nx = array_seg H c a vs nx"
  by (simp add: array_seg_def)

lemma seg_capacity_frame: "H' a = H a \<Longrightarrow> seg_capacity H' c a = seg_capacity H c a"
  by (simp add: seg_capacity_def)

lemma chain_in_frame:
  assumes "\<And>seg. seg \<in> set segs \<Longrightarrow> H' (fst seg) = H (fst seg)"
  shows "chain_in H' c segs = chain_in H c segs"
  using assms
proof (induction segs)
  case (Cons seg segs)
  obtain a vs where [simp]: "seg = (a, vs)" by (cases seg)
  have "H' a = H a" using Cons.prems [of seg] by simp
  then have "array_seg H' c a vs nx = array_seg H c a vs nx" "seg_capacity H' c a = seg_capacity H c a" for nx
    by (rule array_seg_frame, rule seg_capacity_frame)
  then show ?case using Cons by (simp add: chain_in_Cons)
qed simp

lemma chain_append_slot:
  assumes "chain_in H c (xs @ [(a, vs)])" and "distinct (map fst xs @ [a])"
    and H': "H' = H(a \<mapsto> (EntryArray, patch d (24 + length vs * item_width c) (encode_offset c v)))"
    and d: "H a = Some (EntryArray, d)" and room: "length vs < slots_of_array c d" and v: "v \<noteq> 0" "c \<longrightarrow> unat v < 2 ^ 32"
  shows "chain_in H' c (xs @ [(a, vs @ [v])])"
  using assms(1,2)
proof (induction xs)
  case Nil
  then have seg: "array_shape c d" "a \<noteq> 0" "vs \<noteq> []" "\<forall>i < length vs. array_slot c d i = Some (vs ! i)"
    "array_link d = None"
    using d by (auto simp: array_seg_def)
  note set = array_set_slot [OF seg(1) room v refl]
  have "array_slot c (patch d (24 + length vs * item_width c) (encode_offset c v)) i = Some ((vs @ [v]) ! i)"
    if "i < length (vs @ [v])" for i
    using that seg(4) room set(1) [of i] by (auto simp: nth_append)
  then show ?case using seg set(2-4) room by (auto simp: array_seg_def H')
next
  case (Cons seg xs)
  obtain b us where [simp]: "seg = (b, us)" by (cases seg)
  have "H' b = H b" using Cons.prems(2) by (simp add: H')
  then have "array_seg H' c b us nx = array_seg H c b us nx" "seg_capacity H' c b = seg_capacity H c b" for nx
    by (rule array_seg_frame, rule seg_capacity_frame)
  moreover have "chain_in H' c (xs @ [(a, vs @ [v])])" using Cons by (simp add: chain_in_Cons)
  moreover have "(case xs @ [(a, vs @ [v])] of [] \<Rightarrow> None | seg # _ \<Rightarrow> Some (fst seg)) =
      (case xs @ [(a, vs)] of [] \<Rightarrow> None | seg # _ \<Rightarrow> Some (fst seg))" by (cases xs) auto
  ultimately show ?case
    using Cons.prems(1) by (simp add: chain_in_Cons)
qed

lemma chain_append_array:
  assumes "chain_in H c (xs @ [(a, vs)])" and "distinct (map fst xs @ [a])" and "b \<notin> set (map fst xs @ [a])"
    and H': "H' = H(a \<mapsto> (EntryArray, patch d 16 (to_le 8 b)), b \<mapsto> (EntryArray, e))"
    and d: "H a = Some (EntryArray, d)" and full: "length vs = slots_of_array c d" and b: "array_seg H' c b [v] None"
  shows "chain_in H' c (xs @ [(a, vs), (b, [v])])"
  using assms(1,2,3)
proof (induction xs)
  case Nil
  then have seg: "array_shape c d" "a \<noteq> 0" "vs \<noteq> []" "\<forall>i < length vs. array_slot c d i = Some (vs ! i)" "a \<noteq> b"
    using d by (auto simp: array_seg_def)
  have "b \<noteq> 0" using b by (auto simp: array_seg_def)
  note set = array_set_link [OF seg(1) this refl]
  show ?case using seg set full b by (auto simp: chain_in_Cons array_seg_def H' seg_capacity_def)
next
  case (Cons seg xs)
  obtain b' us where [simp]: "seg = (b', us)" by (cases seg)
  have "H' b' = H b'" using Cons.prems(2,3) by (auto simp: H')
  then have "array_seg H' c b' us nx = array_seg H c b' us nx" "seg_capacity H' c b' = seg_capacity H c b'" for nx
    by (rule array_seg_frame, rule seg_capacity_frame)
  moreover have "chain_in H' c (xs @ [(a, vs), (b, [v])])" using Cons by (simp add: chain_in_Cons)
  moreover have "(case xs @ [(a, vs), (b, [v])] of [] \<Rightarrow> None | seg # _ \<Rightarrow> Some (fst seg)) =
      (case xs @ [(a, vs)] of [] \<Rightarrow> None | seg # _ \<Rightarrow> Some (fst seg))" by (cases xs) auto
  ultimately show ?case
    using Cons.prems(1) by (simp add: chain_in_Cons)
qed

section \<open>What an allocation leaves alone\<close>

definition rest_of :: "WriterState \<Rightarrow> WriterState" where
  "rest_of s = s\<lparr>journal_file := (journal_file s)\<lparr>jf_bytes := [],
       jf_header := (file_header s)\<lparr>arena_size := 0, n_entry_arrays := 0\<rparr>\<rparr>,
     writer := (writer s)\<lparr>w_tail_object_offset := 0, append_offset := 0, num_written_objects := 0\<rparr>\<rparr>"

definition same_rest :: "WriterState \<Rightarrow> WriterState \<Rightarrow> bool" where
  "same_rest s t \<longleftrightarrow> rest_of s = rest_of t"

lemma same_rest_refl [simp, intro]: "same_rest s s"
  by (simp add: same_rest_def)

lemma same_rest_trans [trans]: "same_rest s t \<Longrightarrow> same_rest t u \<Longrightarrow> same_rest s u"
  by (simp add: same_rest_def)

lemma only_bytes_same_rest: "only_bytes s t \<Longrightarrow> same_rest s t"
proof -
  assume "only_bytes s t"
  then have "t = set_bytes (file_bytes t) s" by (simp add: only_bytes_def)
  then have "rest_of t = rest_of (set_bytes (file_bytes t) s)" by simp
  then show ?thesis by (simp add: same_rest_def rest_of_def set_bytes_def)
qed

lemma same_restD:
  assumes "same_rest s t"
  shows "header_size (file_header t) = header_size (file_header s)" "is_compact (journal_file t) = is_compact (journal_file s)"
    "window_size t = window_size s" "disk_limit t = disk_limit s"
    "n_entries (file_header t) = n_entries (file_header s)"
    "entry_array_offset (file_header t) = entry_array_offset (file_header s)"
    "tail_entry_array_offset (file_header t) = tail_entry_array_offset (file_header s)"
    "tail_entry_array_n_entries (file_header t) = tail_entry_array_n_entries (file_header s)"
proof -
  have r: "rest_of t = rest_of s" using assms by (simp add: same_rest_def)
  show "header_size (file_header t) = header_size (file_header s)"
    using arg_cong [OF r, of "\<lambda>u. header_size (file_header u)"] by (simp add: rest_of_def)
  show "is_compact (journal_file t) = is_compact (journal_file s)"
    using arg_cong [OF r, of "\<lambda>u. is_compact (journal_file u)"]
    by (simp add: rest_of_def is_compact_def has_incompatible_flag_def)
  show "window_size t = window_size s" "disk_limit t = disk_limit s"
    using arg_cong [OF r, of window_size] arg_cong [OF r, of disk_limit] by (simp_all add: rest_of_def)
  show "n_entries (file_header t) = n_entries (file_header s)"
    using arg_cong [OF r, of "\<lambda>u. n_entries (file_header u)"] by (simp add: rest_of_def)
  show "entry_array_offset (file_header t) = entry_array_offset (file_header s)"
    using arg_cong [OF r, of "\<lambda>u. entry_array_offset (file_header u)"] by (simp add: rest_of_def)
  show "tail_entry_array_offset (file_header t) = tail_entry_array_offset (file_header s)"
    using arg_cong [OF r, of "\<lambda>u. tail_entry_array_offset (file_header u)"] by (simp add: rest_of_def)
  show "tail_entry_array_n_entries (file_header t) = tail_entry_array_n_entries (file_header s)"
    using arg_cong [OF r, of "\<lambda>u. tail_entry_array_n_entries (file_header u)"] by (simp add: rest_of_def)
qed

text \<open>\<open>exhausted s n\<close>: the file cannot be extended to \<open>n\<close> bytes, for the file system or for the format.\<close>

definition exhausted :: "WriterState \<Rightarrow> nat \<Rightarrow> bool" where
  "exhausted s n \<longleftrightarrow> refuses s n \<or> s_compact s \<and> 2 ^ 32 \<le> n"

lemma exhausted_mono: "exhausted s m \<Longrightarrow> m \<le> n \<Longrightarrow> exhausted s n"
  using refuses_mono by (auto simp: exhausted_def)

lemma same_rest_exhausted: "same_rest s t \<Longrightarrow> exhausted t n = exhausted s n"
  by (simp add: exhausted_def refuses_def same_restD)

text \<open>\<open>arena s H\<close>: the objects of \<open>H\<close> are stored in the arena that the header declares.\<close>

definition arena :: "WriterState \<Rightarrow> arena \<Rightarrow> bool" where
  "arena s H \<longleftrightarrow> arena_ok s (s_append_offset s) H \<and> within_arena s (s_append_offset s)"

lemma arena_ok_cong:
  assumes "file_bytes t = file_bytes s" and "header_size (file_header t) = header_size (file_header s)"
    and "window_size t = window_size s"
  shows "arena_ok t ap H = arena_ok s ap H"
  by (simp add: arena_ok_def assms)

lemma arena_only_bytes:
  assumes "only_bytes s t"
  shows "s_append_offset t = s_append_offset s"
proof -
  have "t = set_bytes (file_bytes t) s" using assms by (simp add: only_bytes_def)
  then have "writer t = writer (set_bytes (file_bytes t) s)" by simp
  then show ?thesis by (simp add: set_bytes_def)
qed

lemma object_added_holds:
  assumes fits: "unat off + unat n < 2 ^ 63" and w: "within_arena s ap"
    and hs: "header_size (file_header s) \<le> off"
  shows "holds (object_added off n) s
    (\<lambda>_ t. same_rest s t \<and> file_bytes t = file_bytes s \<and> s_append_offset t = off + n \<and> within_arena t (off + n))
    (\<lambda>_ _. False)"
proof -
  let ?h = "file_header s"
  let ?w = "(writer s)\<lparr>w_tail_object_offset := off, append_offset := off + n,
    num_written_objects := num_written_objects (writer s) + 1\<rparr>"
  have e: "unat (off + n) = unat off + unat n" using fits by (simp add: unat_word_ariths)
  have old: "checked_add (header_size ?h) (arena_size ?h) = Some (header_size ?h + arena_size ?h)"
    using w by (simp add: within_arena_def checked_add_object)
  note oe = within_arena_end [OF w]
  show ?thesis
  proof (cases "off + n > header_size ?h + arena_size ?h")
    case False
    then have "within_arena s (off + n)"
      using w e by (simp add: within_arena_def word_less_nat_alt oe)
    then show ?thesis
      using False fits old
      by (simp add: holds_def object_added_def sbind_def op_run checked_add_object update_writer_def same_rest_def
          rest_of_def within_arena_def)
  next
    case True
    let ?inc = "FILE_SIZE_INCREASE - 1"
    let ?new = "(off + n + ?inc) AND NOT ?inc"
    have inc: "?inc = mask 23" "unat ?inc = 2 ^ 23 - 1"
      by (simp_all add: FILE_SIZE_INCREASE_def mask_eq_exp_minus_1)
    have u: "unat (off + n + ?inc) = unat off + unat n + (2 ^ 23 - 1)"
      using fits e inc(2) by (simp add: unat_word_ariths)
    have "?new = push_bit 23 (drop_bit 23 (off + n + ?inc))"
      unfolding inc(1) by (rule bit_word_eqI) (auto simp: bit_simps)
    also have "\<dots> = (off + n + ?inc) - take_bit 23 (off + n + ?inc)"
      using bits_ident [of 23 "off + n + ?inc"] by (simp add: eq_diff_eq)
    finally have new: "unat ?new = unat (off + n + ?inc) - unat (off + n + ?inc) mod 2 ^ 23"
      by (simp add: unat_sub take_bit_eq_mod unat_mod word_le_nat_alt)
    have "unat (off + n + ?inc) mod 2 ^ 23 < 2 ^ 23" by simp
    then have nb: "unat off + unat n \<le> unat ?new" "unat ?new < 2 ^ 64"
      using new u fits unat_u64_less [of ?new] by linarith+
    have ge: "header_size ?h \<le> ?new" using hs nb(1) by (simp add: word_le_nat_alt)
    have ca: "checked_add (off + n) ?inc = Some (off + n + ?inc)"
      using e fits inc(2) by (intro checked_add_object) simp
    have sub: "unat (?new - header_size ?h) = unat ?new - unat (header_size ?h)"
      using ge by (rule unat_sub)
    show ?thesis
      using True fits old ca ge nb e sub
      by (simp add: holds_def object_added_def sbind_def op_run checked_add_object update_writer_def same_rest_def
          rest_of_def within_arena_def round_up_to_file_size_increment_def journal_header_mut_def word_le_nat_alt
          word_less_nat_alt)
  qed
qed

section \<open>Operations on arrays\<close>

lemma arena_bytes:
  assumes "only_bytes s t" and "arena_ok t (s_append_offset s) H" and "arena s H0"
  shows "arena t H" "same_rest s t" "s_append_offset t = s_append_offset s"
  using assms arena_only_bytes [OF assms(1)] only_bytes_within [OF assms(1)]
  by (auto simp: arena_def only_bytes_same_rest)

lemma open_array:
  assumes ar: "arena s H" and a: "H a = Some (EntryArray, d)" and shape: "array_shape (s_compact s) d"
    and arr: "offset_array_from_data d (s_compact s) = Some arr"
  shows "holds (offset_array_mut a None) s (\<lambda>x t. x = arr \<and> only_bytes s t \<and> arena t H) (\<lambda>_ _. refuses s (unat (s_append_offset s)))"
proof -
  have ok: "arena_ok s (s_append_offset s) H" "within_arena s (s_append_offset s)" using ar by (auto simp: arena_def)
  have "holds (journal_object_mut EntryArray offset_array_from_data a None) s
      (\<lambda>x t. x = arr \<and> only_bytes s t \<and> arena t H) (\<lambda>_ _. refuses s (unat (s_append_offset s)))"
    by (rule holds_mono [OF journal_object_mut_existing [where from_data = offset_array_from_data and T = EntryArray and d = d and H = H, OF ok a arr]])
      (use arena_bytes(1) ar in auto)
  then show ?thesis by (simp add: offset_array_mut_def [abs_def] holds_def)
qed

lemma arena_write:
  assumes "arena s H" and "H a = Some (T, d)" and "16 \<le> rel" and "rel + length data \<le> length d"
  shows "arena (write_bytes a rel data s) (H(a \<mapsto> (T, patch d rel data)))"
  by (rule arena_bytes(1) [OF only_bytes_write _ assms(1)])
    (use arena_ok_write [where H = H and a = a, of s "s_append_offset s"] assms in \<open>auto simp: arena_def\<close>)

lemma set_array_slot:
  assumes ar: "arena s H" and a: "H a = Some (EntryArray, d)" and shape: "array_shape c d"
    and arr: "offset_array_from_data d c = Some arr" and j: "j < slots_of_array c d" and v: "c \<longrightarrow> unat v < 2 ^ 32"
  shows "holds (array_guard_set a arr j v) s
    (\<lambda>_ t. only_bytes s t \<and> arena t (H(a \<mapsto> (EntryArray, patch d (24 + j * item_width c) (encode_offset c v)))))
    (\<lambda>_ _. False)"
proof -
  have cap: "array_capacity arr = slots_of_array c d" and its: "case items arr of Regular _ \<Rightarrow> \<not> c | CompactItems _ \<Rightarrow> c"
    using array_view [OF shape] arr by (metis option.sel)+
  have small: "v \<le> 0xffffffff" if c using v that by (simp add: word_le_nat_alt)
  have "arena (write_bytes a (24 + j * item_width c) (encode_offset c v) s)
      (H(a \<mapsto> (EntryArray, patch d (24 + j * item_width c) (encode_offset c v))))"
    by (rule arena_write [OF ar a]) (use slot_range [OF shape j] in simp_all)
  then show ?thesis
    using j cap its small
    by (cases "items arr") (auto simp: array_guard_set_def encode_offset_def item_width_def mult.commute)
qed

lemma set_array_link:
  assumes ar: "arena s H" and a: "H a = Some (EntryArray, d)" and shape: "array_shape c d"
  shows "holds (set_next_offset_array a v) s
    (\<lambda>_ t. only_bytes s t \<and> arena t (H(a \<mapsto> (EntryArray, patch d 16 (to_le 8 v))))) (\<lambda>_ _. False)"
  using arena_write [OF ar a, of 16 "to_le 8 v"] shape by (simp add: set_next_offset_array_def array_shape_def)

lemma offset_array_item_size: "unat (offset_array_item_size c) = item_width c"
  by (simp add: offset_array_item_size_def item_width_def)

lemma array_size_word:
  assumes b: "24 + unat cap * item_width c < 2 ^ 64"
  shows "unat (24 + cap * offset_array_item_size c) = 24 + unat cap * item_width c"
proof -
  have "unat (cap * offset_array_item_size c) = unat cap * item_width c"
    using b by (simp add: unat_word_ariths offset_array_item_size)
  with b show ?thesis by (simp add: unat_word_ariths)
qed

lemma compact_fits:
  assumes "unat off + unat n + 7 < 2 ^ 64"
  shows "ensure_compact_object_fits c off n = Ok () \<or>
    c \<and> 2 ^ 32 \<le> unat off + unat n + 8"
proof (cases c)
  case True
  have e: "unat (off + n) = unat off + unat n" using assms by (simp add: unat_word_ariths)
  have "unat ((off + n + 7) AND NOT 7) = (unat off + unat n + 7) div 8 * 8"
    using aligned_word [of "off + n"] assms e by simp
  moreover have "(unat off + unat n + 7) div 8 * 8 \<le> unat off + unat n + 7" by presburger
  ultimately have "unat ((off + n + 7) AND NOT 7) \<le> unat off + unat n + 7" by simp
  then show ?thesis
    using True assms
    by (auto simp: ensure_compact_object_fits_def Let_def checked_add_object JOURNAL_COMPACT_SIZE_MAX_def word_less_nat_alt)
qed (simp add: ensure_compact_object_fits_def)

text \<open>A new array: a zeroed object of the heap at the old append offset.\<close>

definition empty_array :: "bool \<Rightarrow> u64 \<Rightarrow> u8 list" where
  "empty_array c cap = fresh_object EntryArray (24 + cap * offset_array_item_size c)"

lemma empty_array:
  assumes "24 + unat cap * item_width c < 2 ^ 64"
  shows "array_shape c (empty_array c cap)" "slots_of_array c (empty_array c cap) = unat cap"
    "array_link (empty_array c cap) = None" "length (empty_array c cap) = 24 + unat cap * item_width c"
    "obj_size (object_header_from_bytes (take 24 (empty_array c cap))) = 24 + cap * offset_array_item_size c"
proof -
  let ?sz = "24 + cap * offset_array_item_size c"
  note sz = array_size_word [OF assms]
  show "array_shape c (empty_array c cap)" "slots_of_array c (empty_array c cap) = unat cap"
    "array_link (empty_array c cap) = None"
    using fresh_array [of ?sz "unat cap" c EntryArray] sz by (simp_all add: empty_array_def)
  show "length (empty_array c cap) = 24 + unat cap * item_width c" using sz by (simp add: empty_array_def)
  have "u64_at (take 24 (empty_array c cap)) 8 = u64_at (empty_array c cap) 8"
    using word_at_bytes_at(1) [of 8 24 "empty_array c cap" 0] by (simp add: bytes_at_def)
  then show "obj_size (object_header_from_bytes (take 24 (empty_array c cap))) = ?sz"
    using fresh_object_header(2) [of ?sz EntryArray] sz by (simp add: object_header_from_bytes_def empty_array_def)
qed

lemma allocate_new_array_holds:
  fixes cap :: u64
  assumes ar: "arena s H"
  defines "need \<equiv> unat (s_append_offset s) + 24 + unat cap * item_width (s_compact s) + 8"
  assumes need: "need < 2 ^ 63"
  shows "holds (allocate_new_array cap) s
    (\<lambda>a t. a = s_append_offset s \<and> same_rest s t \<and> arena t (H(a \<mapsto> (EntryArray, empty_array (s_compact s) cap))) \<and>
       unat (s_append_offset t) \<le> need)
    (\<lambda>_ _. exhausted s need)"
proof -
  let ?ap = "s_append_offset s" and ?c = "s_compact s"
  let ?sz = "24 + cap * offset_array_item_size ?c"
  let ?d = "empty_array ?c cap" and ?n = "(24 + cap * offset_array_item_size (s_compact s) + 7) AND NOT 7"
  have ok: "arena_ok s ?ap H" "within_arena s ?ap" using ar by (auto simp: arena_def)
  have b: "24 + unat cap * item_width ?c < 2 ^ 64" using need by (simp add: need_def)
  note sz = array_size_word [OF b] and em = empty_array [OF b]
  obtain arr where arr: "offset_array_from_data ?d ?c = Some arr" "array_header arr = object_header_from_bytes (take 24 ?d)"
    using array_view [OF em(1)] by metis
  have al: "aligned_size (array_header arr) = ?n" using arr(2) em(5) by (simp add: aligned_size_def)
  have un: "unat ?n = (unat ?sz + 7) div 8 * 8" using need by (intro aligned_word) (simp add: sz need_def)
  have unb: "(unat ?sz + 7) div 8 * 8 \<le> unat ?sz + 7" by presburger
  have fits: "unat ?ap + unat ?n < 2 ^ 63" "unat ?ap + unat ?n \<le> need" using un unb need by (simp_all add: sz need_def)
  have hs: "header_size (file_header s) \<le> ?ap" using ok(1) by (simp add: arena_ok_def)
  have cf: "ensure_compact_object_fits ?c ?ap ?sz = Ok () \<or> ?c \<and> 2 ^ 32 \<le> need"
    using compact_fits [of ?ap ?sz ?c] need by (simp add: need_def sz)
  have new: "holds (offset_array_mut ?ap (Some cap)) s
      (\<lambda>x t. x = arr \<and> only_bytes s t \<and> arena_ok t (?ap + ?n) (H(?ap \<mapsto> (EntryArray, ?d)))) (\<lambda>_ _. exhausted s need)"
  proof -
    have "holds (journal_object_mut EntryArray offset_array_from_data ?ap (Some ?sz)) s
      (\<lambda>x t. x = arr \<and> only_bytes s t \<and> arena_ok t (?ap + ?n) (H(?ap \<mapsto> (EntryArray, ?d)))) (\<lambda>_ _. exhausted s need)"
    proof (rule holds_mono [OF journal_object_mut_new [where T = EntryArray and H = H, OF ok(1)]])
      show "offset_array_from_data (fresh_object EntryArray ?sz) ?c = Some arr" using arr(1) by (simp add: empty_array_def)
      show "exhausted s need" if "refuses s (unat ?ap + unat ?sz)"
        using refuses_mono [OF that, of need] by (simp add: exhausted_def need_def sz)
    qed (use need in \<open>auto simp: sz need_def empty_array_def\<close>)
    then show ?thesis by (simp add: offset_array_mut_def [abs_def] holds_def)
  qed
  have added: "holds (object_added ?ap (aligned_size (array_header x))) t
      (\<lambda>_ u. same_rest s u \<and> arena u (H(?ap \<mapsto> (EntryArray, ?d))) \<and> unat (s_append_offset u) \<le> need) (\<lambda>_ _. False)"
    if "x = arr \<and> only_bytes s t \<and> arena_ok t (?ap + ?n) (H(?ap \<mapsto> (EntryArray, ?d)))" for x t
  proof -
    have t: "x = arr" "only_bytes s t" "arena_ok t (?ap + ?n) (H(?ap \<mapsto> (EntryArray, ?d)))" using that by auto
    have "within_arena t ?ap" using ok(2) only_bytes_within [OF t(2)] by blast
    moreover have "header_size (file_header t) \<le> ?ap" using hs only_bytesD [OF t(2)] by simp
    ultimately show ?thesis
      unfolding t(1) al
    proof (rule holds_mono [OF object_added_holds [OF fits(1)]])
      fix y u
      assume u: "same_rest t u \<and> file_bytes u = file_bytes t \<and> s_append_offset u = ?ap + ?n \<and> within_arena u (?ap + ?n)"
      then have r: "same_rest t u" by simp
      have "arena_ok u (?ap + ?n) (H(?ap \<mapsto> (EntryArray, ?d)))"
        using t(3) u same_restD [OF r] arena_ok_cong [of u t] by simp
      moreover have "same_rest s u" using only_bytes_same_rest [OF t(2)] r by (rule same_rest_trans)
      moreover have "unat (?ap + ?n) \<le> need" using fits by (simp add: unat_word_ariths)
      ultimately show "same_rest s u \<and> arena u (H(?ap \<mapsto> (EntryArray, ?d))) \<and> unat (s_append_offset u) \<le> need"
        using u by (simp add: arena_def)
    qed simp
  qed
  show ?thesis
  proof (cases "ensure_compact_object_fits ?c ?ap ?sz")
    case (Inl e)
    then show ?thesis
      using cf by (simp add: allocate_new_array_def exhausted_def)
  next
    case (Inr u)
    have "holds (sbind (offset_array_mut ?ap (Some cap)) (\<lambda>array.
        sbind (object_added ?ap (aligned_size (array_header array))) (\<lambda>_.
        sbind (smodify (journal_header_mut (\<lambda>h. h\<lparr>n_entry_arrays := n_entry_arrays h + 1\<rparr>))) (\<lambda>_. sret ?ap)))) s
      (\<lambda>a t. a = ?ap \<and> same_rest s t \<and> arena t (H(a \<mapsto> (EntryArray, ?d))) \<and> unat (s_append_offset t) \<le> need)
      (\<lambda>_ _. exhausted s need)"
      by (rule holds_seq [OF new], assumption, rule holds_seq [OF added], assumption, simp)
        (auto simp: journal_header_mut_def arena_def arena_ok_def within_arena_def same_rest_def rest_of_def)
    then show ?thesis using Inr by (simp add: allocate_new_array_def)
  qed
qed

section \<open>Appending to a chain\<close>

lemma arena_fresh:
  assumes "arena s H" and "H a = Some (T, d)"
  shows "a \<noteq> s_append_offset s" "unat a < unat (s_append_offset s)"
proof -
  have "unat a + length d \<le> unat (s_append_offset s)" "16 \<le> length d"
    using assms stored_objectD [of s "s_append_offset s" H a T d] by (auto simp: arena_def stored_object_def)
  then show "unat a < unat (s_append_offset s)" by simp
  then show "a \<noteq> s_append_offset s" by auto
qed

lemma chain_offsets_below:
  assumes "arena s H" and "chain_in H c segs" and "seg \<in> set segs"
  shows "unat (fst seg) < unat (s_append_offset s)"
  using assms(2,3)
proof (induction segs)
  case (Cons x segs)
  obtain a vs where x: "x = (a, vs)" by (cases x)
  with Cons.prems(1) obtain d where "H a = Some (EntryArray, d)" by (auto simp: chain_in_Cons array_seg_def)
  from arena_fresh(2) [OF assms(1) this] Cons x show ?case by (auto simp: chain_in_Cons)
qed simp

lemma next_entry_array_capacity_ge: "4 \<le> unat (next_entry_array_capacity index previous)"
proof -
  have "(4 :: u64) \<le> next_entry_array_capacity index previous" by (simp add: next_entry_array_capacity_def)
  then show ?thesis by (simp add: word_le_nat_alt)
qed

text \<open>Opening an array and writing one of its slots.\<close>

lemma fill_slot:
  assumes ar: "arena s H" and a: "H a = Some (EntryArray, d)" and shape: "array_shape (s_compact s) d"
    and j: "j < slots_of_array (s_compact s) d" and v: "s_compact s \<longrightarrow> unat v < 2 ^ 32"
    and cont: "\<And>t. only_bytes s t \<Longrightarrow>
      arena t (H(a \<mapsto> (EntryArray, patch d (24 + j * item_width (s_compact s)) (encode_offset (s_compact s) v)))) \<Longrightarrow>
      holds m t Q E"
    and err: "\<And>e t. refuses s (unat (s_append_offset s)) \<Longrightarrow> E e t"
  shows "holds (sbind (offset_array_mut a None) (\<lambda>arr. sbind (array_guard_set a arr j v) (\<lambda>_. m))) s Q E"
proof -
  obtain arr where arr: "offset_array_from_data d (s_compact s) = Some arr" using array_view [OF shape] by metis
  show ?thesis
  proof (rule holds_seq [OF open_array [OF ar a shape arr]])
    fix x t assume t: "x = arr \<and> only_bytes s t \<and> arena t H"
    have slot: "holds (array_guard_set a x j v) t (\<lambda>_ u. only_bytes t u \<and>
          arena u (H(a \<mapsto> (EntryArray, patch d (24 + j * item_width (s_compact s)) (encode_offset (s_compact s) v)))))
        (\<lambda>_ _. False)"
      using t set_array_slot [of t H a d "s_compact s" x j v] a shape arr j v by simp
    show "holds (sbind (array_guard_set a x j v) (\<lambda>_. m)) t Q E"
      by (rule holds_seq [OF slot]) (use t cont only_bytes_trans [of s t] in auto)
  qed (rule err)
qed

definition new_tail :: "bool \<Rightarrow> u64 \<Rightarrow> u64 \<Rightarrow> u8 list" where
  "new_tail c cap v = patch (empty_array c cap) 24 (encode_offset c v)"

lemma new_tail_seg:
  assumes "24 + unat cap * item_width c < 2 ^ 64" and "0 < unat cap" and "v \<noteq> 0" "c \<longrightarrow> unat v < 2 ^ 32"
    and "H a = Some (EntryArray, new_tail c cap v)" and "a \<noteq> 0"
  shows "array_seg H c a [v] None"
proof -
  note em = empty_array [OF assms(1)]
  note set = array_set_slot [OF em(1), of 0 v "new_tail c cap v"]
  show ?thesis
    using assms em set by (auto simp: array_seg_def new_tail_def intro!: exI [of _ "new_tail c cap v"])
qed

lemma chain_in_last: "chain_in H c (xs @ [(a, vs)]) \<Longrightarrow> array_seg H c a vs None"
  by (induction xs) (auto simp: chain_in_Cons)

lemma grow_chain_holds:
  fixes cnt tc :: u64
  assumes ar: "arena s H" and ap: "s_append_offset s \<noteq> 0"
    and ch: "chain_in H (s_compact s) (xs @ [(a, vs)])" "distinct (map fst xs @ [a])"
    and full: "length vs = seg_capacity H (s_compact s) a" and v: "v \<noteq> 0" "s_compact s \<longrightarrow> unat v < 2 ^ 32"
  defines "need \<equiv> unat (s_append_offset s) + 24 +
      unat (next_entry_array_capacity cnt tc) * item_width (s_compact s) + 8"
  assumes need: "need < 2 ^ 63"
  shows "holds (grow_chain a cnt tc v) s
    (\<lambda>b t. b = s_append_offset s \<and> same_rest s t \<and> unat (s_append_offset t) \<le> need \<and>
       (\<exists>H'. arena t H' \<and> (\<forall>p. p \<noteq> a \<longrightarrow> p \<noteq> b \<longrightarrow> H' p = H p) \<and>
          chain_in H' (s_compact s) (xs @ [(a, vs), (b, [v])])))
    (\<lambda>_ _. exhausted s need)"
proof -
  let ?c = "s_compact s" and ?b = "s_append_offset s" and ?cap = "next_entry_array_capacity cnt tc"
  obtain d where d: "H a = Some (EntryArray, d)" "array_shape ?c d"
    using chain_in_last [OF ch(1)] by (auto simp: array_seg_def)
  have fl: "length vs = slots_of_array ?c d" using full d(1) by (simp add: seg_capacity_def)
  have b: "24 + unat ?cap * item_width ?c < 2 ^ 64" using need by (simp add: need_def)
  note em = empty_array [OF b]
  have cap: "0 < unat ?cap" using next_entry_array_capacity_ge [of cnt tc] by simp
  have ab: "a \<noteq> ?b" using arena_fresh [OF ar d(1)] by simp
  let ?H1 = "H(?b \<mapsto> (EntryArray, empty_array ?c ?cap))"
  let ?H2 = "?H1(a \<mapsto> (EntryArray, patch d 16 (to_le 8 ?b)))"
  let ?H3 = "?H2(?b \<mapsto> (EntryArray, new_tail ?c ?cap v))"
  let ?Q = "\<lambda>b t. b = ?b \<and> same_rest s t \<and> unat (s_append_offset t) \<le> need \<and>
       (\<exists>H'. arena t H' \<and> (\<forall>p. p \<noteq> a \<longrightarrow> p \<noteq> b \<longrightarrow> H' p = H p) \<and>
          chain_in H' ?c (xs @ [(a, vs), (b, [v])]))"
  let ?E = "\<lambda>_ _. exhausted s need"
  have chain: "chain_in ?H3 ?c (xs @ [(a, vs), (?b, [v])])"
  proof (rule chain_append_array [OF ch])
    show "?H3 = H(a \<mapsto> (EntryArray, patch d 16 (to_le 8 ?b)), ?b \<mapsto> (EntryArray, new_tail ?c ?cap v))"
      using ab by (auto simp: fun_eq_iff)
    show "?b \<notin> set (map fst xs @ [a])"
    proof
      assume "?b \<in> set (map fst xs @ [a])"
      then have "?b \<in> fst ` set (xs @ [(a, vs)])" by simp
      then obtain seg where "seg \<in> set (xs @ [(a, vs)])" "?b = fst seg" by (rule imageE)
      with chain_offsets_below [OF ar ch(1) this(1)] show False by simp
    qed
    show "array_seg ?H3 ?c ?b [v] None" by (rule new_tail_seg [OF b cap v]) (use ap in auto)
  qed (use d fl in auto)
  have ex: "exhausted s need" if "refuses t (unat (s_append_offset t))" "same_rest s t" "unat (s_append_offset t) \<le> need" for t
  proof -
    have "refuses t need" using that(1,3) by (rule refuses_mono)
    then have "exhausted t need" by (simp add: exhausted_def)
    then show ?thesis by (simp add: same_rest_exhausted [OF that(2)])
  qed
  show ?thesis
    unfolding grow_chain_def
  proof (rule holds_seq [OF allocate_new_array_holds [OF ar]])
    show "unat ?b + 24 + unat ?cap * item_width ?c + 8 < 2 ^ 63" using need by (simp add: need_def)
    show "exhausted s need" if "exhausted s (unat ?b + 24 + unat ?cap * item_width ?c + 8)"
      using that by (simp add: need_def)
    fix b1 t
    assume "b1 = ?b \<and> same_rest s t \<and> arena t (H(b1 \<mapsto> (EntryArray, empty_array ?c ?cap))) \<and>
      unat (s_append_offset t) \<le> unat ?b + 24 + unat ?cap * item_width ?c + 8"
    then have b1: "b1 = ?b" and t: "same_rest s t" "arena t ?H1" "unat (s_append_offset t) \<le> need"
      by (auto simp: need_def)
    note tc = same_restD(2) [OF t(1)]
    have d1: "?H1 a = Some (EntryArray, d)" using d(1) ab by simp
    obtain arr where arr: "offset_array_from_data d ?c = Some arr" using array_view [OF d(2)] by metis
    have op: "holds (offset_array_mut a None) t (\<lambda>x u. x = arr \<and> only_bytes t u \<and> arena u ?H1)
        (\<lambda>_ _. refuses t (unat (s_append_offset t)))"
      by (rule open_array [OF t(2) d1]) (use d(2) arr tc in auto)
    show "holds (sbind (offset_array_mut a None) (\<lambda>_. sbind (set_next_offset_array a b1) (\<lambda>_.
        sbind (offset_array_mut b1 None) (\<lambda>array. sbind (array_guard_set b1 array 0 v) (\<lambda>_. sret b1))))) t ?Q ?E"
    proof (rule holds_seq [OF op])
      show "exhausted s need" if "refuses t (unat (s_append_offset t))" using ex that t by blast
      fix x u assume "x = arr \<and> only_bytes t u \<and> arena u ?H1"
      then have u: "only_bytes t u" "arena u ?H1" by auto
      show "holds (sbind (set_next_offset_array a b1) (\<lambda>_.
          sbind (offset_array_mut b1 None) (\<lambda>array. sbind (array_guard_set b1 array 0 v) (\<lambda>_. sret b1)))) u ?Q ?E"
      proof (rule holds_seq [OF set_array_link [OF u(2) d1 d(2)]])
        fix y z assume "only_bytes u z \<and> arena z (?H1(a \<mapsto> (EntryArray, patch d 16 (to_le 8 b1))))"
        then have z: "only_bytes u z" "arena z ?H2" by (auto simp: b1)
        have tz: "only_bytes t z" using u(1) z(1) by (rule only_bytes_trans)
        have sz: "same_rest s z" using t(1) only_bytes_same_rest [OF tz] by (rule same_rest_trans)
        have apz: "s_append_offset z = s_append_offset t" by (rule arena_only_bytes [OF tz])
        note zc = same_restD(2) [OF sz]
        show "holds (sbind (offset_array_mut b1 None) (\<lambda>array. sbind (array_guard_set b1 array 0 v) (\<lambda>_. sret b1))) z ?Q ?E"
        proof (rule fill_slot [OF z(2)])
          show "?H2 b1 = Some (EntryArray, empty_array ?c ?cap)" using ab by (simp add: b1)
          fix r assume r: "only_bytes z r"
            "arena r (?H2(b1 \<mapsto> (EntryArray, patch (empty_array ?c ?cap) (24 + 0 * item_width (s_compact z)) (encode_offset (s_compact z) v))))"
          then have ar3: "arena r ?H3" by (simp add: b1 zc new_tail_def)
          have "same_rest s r" using sz only_bytes_same_rest [OF r(1)] by (rule same_rest_trans)
          moreover have "unat (s_append_offset r) \<le> need" using arena_only_bytes [OF r(1)] apz t(3) by simp
          moreover have "\<forall>p. p \<noteq> a \<longrightarrow> p \<noteq> ?b \<longrightarrow> ?H3 p = H p" by simp
          ultimately have "?Q ?b r" using ar3 chain by blast
          then show "holds (sret b1) r ?Q ?E" by (simp only: holds_basic b1)
        next
          show "exhausted s need" if "refuses z (unat (s_append_offset z))" using ex [OF that sz] apz t(3) by simp
        qed (use em cap v zc in auto)
      qed simp
    qed
  qed
qed

section \<open>Finding the tail\<close>

lemma chain_in_nth:
  assumes "chain_in H c segs" and "i < length segs"
  shows "array_seg H c (fst (segs ! i)) (snd (segs ! i))
      (if Suc i < length segs then Some (fst (segs ! Suc i)) else None)"
    "Suc i < length segs \<Longrightarrow> length (snd (segs ! i)) = seg_capacity H c (fst (segs ! i))"
  using assms
proof (induction segs arbitrary: i)
  case (Cons seg segs)
  obtain a vs where [simp]: "seg = (a, vs)" by (cases seg)
  note IH = Cons.IH
  { case 1
    then show ?case using IH(1) [of "i - 1"] by (cases i; cases segs) (auto simp: chain_in_Cons) }
  { case 2
    then show ?case using IH(2) [of "i - 1"] by (cases i; cases segs) (auto simp: chain_in_Cons) }
qed simp_all

lemma follow_link_chain:
  assumes "chain_ok (offset_array_ref jf) n segs" and "distinct (map fst segs)" and i: "Suc i < length segs"
  obtains h where "follow_link jf (fst (hd segs)) highest (fst (segs ! i)) (fst (segs ! Suc i)) = Ok h"
proof -
  let ?p = "map fst (take (Suc i) segs)"
  have p: "link_path (next_of (offset_array_ref jf)) ?p"
    by (rule chain_ok_link_path [OF assms(1)]) (use i in simp)
  have d: "distinct ?p" using assms(2) by (simp add: take_map [symmetric])
  have hd_last: "hd ?p = fst (hd segs)" "last ?p = fst (segs ! i)"
    using i by (cases segs; simp) (simp add: take_Suc_conv_app_nth [OF Suc_lessD [OF i]])
  have "fst (segs ! Suc i) \<notin> set ?p"
  proof
    assume "fst (segs ! Suc i) \<in> set ?p"
    then obtain k where "k < Suc i" "map fst segs ! k = map fst segs ! Suc i"
      using i by (auto simp: in_set_conv_nth)
    with assms(2) i show False by (simp add: nth_eq_iff_index_eq del: nth_map)
  qed
  with reject_array_revisit_path [OF p d hd_last] show thesis
    by (intro that [of "if fst (segs ! Suc i) \<le> highest then highest else fst (segs ! Suc i)"])
      (simp add: follow_link_def)
qed

text \<open>What a walk meets at the segment \<open>i\<close> of a chain.\<close>

lemma walk_segment:
  assumes "reads_heap H c aref" and "chain_in H c segs" and "i < length segs"
    and small: "\<And>seg. seg \<in> set segs \<Longrightarrow> seg_capacity H c (fst seg) < 2 ^ 64"
  obtains arr where "aref (fst (segs ! i)) = Ok arr" and "unat (of_nat (array_capacity arr) :: u64) = array_capacity arr"
    and "array_capacity arr = seg_capacity H c (fst (segs ! i))" and "0 < array_capacity arr"
    and "length (snd (segs ! i)) \<le> array_capacity arr"
    and "next_offset_array arr = (if Suc i < length segs then Some (fst (segs ! Suc i)) else None)"
    and "Suc i < length segs \<Longrightarrow> length (snd (segs ! i)) = array_capacity arr"
proof -
  from chain_in_nth [OF assms(2,3)] have s: "array_seg H c (fst (segs ! i)) (snd (segs ! i))
      (if Suc i < length segs then Some (fst (segs ! Suc i)) else None)"
    "Suc i < length segs \<Longrightarrow> length (snd (segs ! i)) = seg_capacity H c (fst (segs ! i))" by auto
  from array_seg_view [OF assms(1) s(1)] obtain arr where arr: "aref (fst (segs ! i)) = Ok arr"
    "array_capacity arr = seg_capacity H c (fst (segs ! i))"
    "next_offset_array arr = (if Suc i < length segs then Some (fst (segs ! Suc i)) else None)"
    "snd (segs ! i) \<noteq> []" "length (snd (segs ! i)) \<le> array_capacity arr" by metis
  have "unat (of_nat (array_capacity arr) :: u64) = array_capacity arr"
    using small [of "segs ! i"] assms(3) arr(2) by (intro unat_of_nat_less) simp
  moreover have "0 < array_capacity arr" using arr(4,5) by (cases "snd (segs ! i)") auto
  ultimately show thesis using arr s by (intro that [of arr]) auto
qed

lemma list_values_drop:
  "i < length segs \<Longrightarrow> length (list_values (drop i segs)) = length (snd (segs ! i)) + length (list_values (drop (Suc i) segs))"
  by (simp add: Cons_nth_drop_Suc [symmetric] list_values_def)

lemma list_values_nonempty:
  assumes "chain_in H c segs" and "i < length segs"
  shows "0 < length (list_values (drop i segs))"
proof -
  have "snd (segs ! i) \<noteq> []" using chain_in_nth(1) [OF assms] by (auto simp: array_seg_def)
  then show ?thesis using list_values_drop [OF assms(2)] by simp
qed

definition walkable :: "JournalFile \<Rightarrow> arena \<Rightarrow> bool \<Rightarrow> segments \<Rightarrow> bool" where
  "walkable jf H c segs \<longleftrightarrow>
     reads_heap H c (offset_array_ref jf) \<and> chain_in H c segs \<and> distinct (map fst segs) \<and>
     (\<forall>seg \<in> set segs. seg_capacity H c (fst seg) < 2 ^ 64) \<and> length (list_values segs) < 2 ^ 64"

lemma walkableD:
  assumes "walkable jf H c segs"
  shows "reads_heap H c (offset_array_ref jf)" "chain_in H c segs" "distinct (map fst segs)"
    "\<And>seg. seg \<in> set segs \<Longrightarrow> seg_capacity H c (fst seg) < 2 ^ 64" "length (list_values segs) < 2 ^ 64"
  using assms by (auto simp: walkable_def)

lemma drop_small:
  assumes "length (list_values segs) < 2 ^ 64"
  shows "unat (of_nat (length (list_values (drop i segs))) :: u64) = length (list_values (drop i segs))"
proof (rule unat_of_nat_less)
  have "length (list_values (drop i segs)) \<le> length (list_values segs)"
    by (metis append_take_drop_id le_add2 length_append list_values_append)
  then show "length (list_values (drop i segs)) < 2 ^ 64" using assms by simp
qed

lemma rest_count:
  assumes "i < length segs" and "length (snd (segs ! i)) = n" and "unat (of_nat n :: u64) = n"
  shows "(of_nat (length (list_values (drop i segs))) :: u64) - of_nat n = of_nat (length (list_values (drop (Suc i) segs)))"
  by (simp add: list_values_drop [OF assms(1)] assms(2))

lemma find_tail_loop_chain:
  assumes w: "walkable jf H c segs" and "i < length segs"
  shows "find_tail_loop jf (fst (hd segs)) highest (fst (segs ! i)) (of_nat (length (list_values (drop i segs)))) =
    Ok (fst (last segs))"
  using assms(2)
proof (induction "length segs - i" arbitrary: i highest)
  case (Suc m)
  note reads = walkableD(1) [OF w] and chain = walkableD(2) [OF w] and dist = walkableD(3) [OF w]
    and small = walkableD(4) [OF w] and total_small = walkableD(5) [OF w]
  obtain arr where arr: "offset_array_ref jf (fst (segs ! i)) = Ok arr"
    "unat (of_nat (array_capacity arr) :: u64) = array_capacity arr" "0 < array_capacity arr"
    "next_offset_array arr = (if Suc i < length segs then Some (fst (segs ! Suc i)) else None)"
    "Suc i < length segs \<Longrightarrow> length (snd (segs ! i)) = array_capacity arr"
    using walk_segment [OF reads chain Suc.prems small] by metis
  have nz: "(of_nat (array_capacity arr) :: u64) \<noteq> 0" using arr(2,3) by (metis less_irrefl unat_0)
  show ?case
  proof (cases "Suc i < length segs")
    case False
    then have "i = length segs - 1" using Suc.prems by simp
    then have "fst (segs ! i) = fst (last segs)" using Suc.prems by (cases segs) (simp_all add: last_conv_nth)
    with False arr nz show ?thesis by (subst find_tail_loop.simps) simp
  next
    case True
    obtain h where h: "follow_link jf (fst (hd segs)) highest (fst (segs ! i)) (fst (segs ! Suc i)) = Ok h"
      using follow_link_chain [OF chain_in_chain_ok [OF reads chain] dist True] by blast
    have "\<not> (of_nat (length (list_values (drop i segs))) :: u64) < of_nat (array_capacity arr)"
      using drop_small [OF total_small, of i] arr(2) arr(5) [OF True] list_values_drop [OF Suc.prems]
      by (simp add: word_less_nat_alt)
    moreover have "(of_nat (length (list_values (drop i segs))) :: u64) - of_nat (array_capacity arr) =
        of_nat (length (list_values (drop (Suc i) segs)))"
      by (rule rest_count [OF Suc.prems arr(5) [OF True] arr(2)])
    ultimately show ?thesis
      using Suc.hyps(1) [of "Suc i" h] Suc.hyps(2) True arr nz h by (subst find_tail_loop.simps) (simp add: Let_def)
  qed
qed simp

lemma tail_entries_loop_chain:
  assumes w: "walkable jf H c segs" and "i < length segs"
  shows "tail_entries_loop jf (fst (hd segs)) highest (fst (segs ! i)) (fst (last segs))
      (of_nat (length (list_values (drop i segs)))) = Ok (of_nat (length (snd (last segs))))"
  using assms(2)
proof (induction "length segs - i" arbitrary: i highest)
  case (Suc m)
  note reads = walkableD(1) [OF w] and chain = walkableD(2) [OF w] and dist = walkableD(3) [OF w]
    and small = walkableD(4) [OF w] and total_small = walkableD(5) [OF w]
  have last: "last segs = segs ! (length segs - 1)" using Suc.prems by (intro last_conv_nth) auto
  show ?case
  proof (cases "Suc i < length segs")
    case False
    then have i: "i = length segs - 1" using Suc.prems by simp
    then have "list_values (drop i segs) = snd (last segs)"
      using last Suc.prems list_values_drop by (simp add: Cons_nth_drop_Suc [symmetric] list_values_def)
    then show ?thesis by (subst tail_entries_loop.simps) (simp add: i last)
  next
    case True
    obtain arr where arr: "offset_array_ref jf (fst (segs ! i)) = Ok arr"
      "unat (of_nat (array_capacity arr) :: u64) = array_capacity arr" "0 < array_capacity arr"
      "next_offset_array arr = (if Suc i < length segs then Some (fst (segs ! Suc i)) else None)"
      "Suc i < length segs \<Longrightarrow> length (snd (segs ! i)) = array_capacity arr"
      using walk_segment [OF reads chain Suc.prems small] by metis
    have nz: "(of_nat (array_capacity arr) :: u64) \<noteq> 0" using arr(2,3) by (metis less_irrefl unat_0)
    have ne: "fst (segs ! i) \<noteq> fst (last segs)"
      using nth_eq_iff_index_eq [OF dist, of i "length segs - 1"] True by (simp add: last)
    obtain h where h: "follow_link jf (fst (hd segs)) highest (fst (segs ! i)) (fst (segs ! Suc i)) = Ok h"
      using follow_link_chain [OF chain_in_chain_ok [OF reads chain] dist True] by blast
    have "\<not> (of_nat (length (list_values (drop i segs))) :: u64) < of_nat (array_capacity arr)"
      using drop_small [OF total_small, of i] arr(2) arr(5) [OF True] list_values_drop [OF Suc.prems]
      by (simp add: word_less_nat_alt)
    moreover have "(of_nat (length (list_values (drop i segs))) :: u64) - of_nat (array_capacity arr) =
        of_nat (length (list_values (drop (Suc i) segs)))"
      by (rule rest_count [OF Suc.prems arr(5) [OF True] arr(2)])
    ultimately show ?thesis
      using Suc.hyps(1) [of "Suc i" h] Suc.hyps(2) True arr nz h ne by (subst tail_entries_loop.simps) (simp add: Let_def)
  qed
qed simp

lemma posting_tail_loop_chain:
  assumes w: "walkable jf H c segs" and "i < length segs" and "idx + length (list_values (drop i segs)) = count"
  shows "posting_tail_loop jf (fst (hd segs)) highest (fst (segs ! i)) idx count =
    Ok (fst (last segs), count - length (snd (last segs)))"
  using assms(2,3)
proof (induction "length segs - i" arbitrary: i idx highest)
  case (Suc m)
  note reads = walkableD(1) [OF w] and chain = walkableD(2) [OF w] and dist = walkableD(3) [OF w]
    and small = walkableD(4) [OF w] and total_small = walkableD(5) [OF w]
  obtain arr where arr: "offset_array_ref jf (fst (segs ! i)) = Ok arr" "0 < array_capacity arr"
    "length (snd (segs ! i)) \<le> array_capacity arr"
    "next_offset_array arr = (if Suc i < length segs then Some (fst (segs ! Suc i)) else None)"
    "Suc i < length segs \<Longrightarrow> length (snd (segs ! i)) = array_capacity arr"
    using walk_segment [OF reads chain Suc.prems(1) small] by metis
  have last: "last segs = segs ! (length segs - 1)" using Suc.prems(1) by (intro last_conv_nth) auto
  show ?case
  proof (cases "Suc i < length segs")
    case False
    then have i: "i = length segs - 1" using Suc.prems(1) by simp
    then have "list_values (drop i segs) = snd (segs ! i)"
      using Suc.prems(1) by (simp add: Cons_nth_drop_Suc [symmetric] list_values_def)
    with Suc.prems arr show ?thesis by (subst posting_tail_loop.simps) (auto simp: Let_def last i)
  next
    case True
    obtain h where h: "follow_link jf (fst (hd segs)) highest (fst (segs ! i)) (fst (segs ! Suc i)) = Ok h"
      using follow_link_chain [OF chain_in_chain_ok [OF reads chain] dist True] by blast
    have "idx + array_capacity arr < count"
      using list_values_nonempty [OF chain True] list_values_drop [OF Suc.prems(1)] arr(5) [OF True] Suc.prems(2)
      by linarith
    then show ?thesis
      using Suc.hyps(1) [of "Suc i" "idx + array_capacity arr" h] Suc.hyps(2) Suc.prems True arr h
        list_values_drop [OF Suc.prems(1)]
      by (subst posting_tail_loop.simps) (simp add: Let_def)
  qed
qed simp

section \<open>The entry chain of a file\<close>

definition cache_ok :: "JournalHeader \<Rightarrow> segments \<Rightarrow> bool" where
  "cache_ok h segs \<longleftrightarrow>
     (tail_entry_array_offset h = 0 \<or> unat (tail_entry_array_offset h) = unat (fst (last segs))) \<and>
     (tail_entry_array_n_entries h = 0 \<or> unat (tail_entry_array_n_entries h) = length (snd (last segs)))"

definition entry_chain :: "WriterState \<Rightarrow> arena \<Rightarrow> segments \<Rightarrow> bool" where
  "entry_chain s H segs \<longleftrightarrow>
     chain_in H (s_compact s) segs \<and> distinct (map fst segs) \<and>
     entry_array_offset (file_header s) = (if segs = [] then None else Some (fst (hd segs))) \<and>
     (segs \<noteq> [] \<longrightarrow> cache_ok (file_header s) segs)"

definition forget_chain :: "WriterState \<Rightarrow> WriterState" where
  "forget_chain s = journal_header_mut (\<lambda>h. h\<lparr>entry_array_offset := None, tail_entry_array_offset := 0,
     tail_entry_array_n_entries := 0\<rparr>) s"

definition same_but_chain :: "WriterState \<Rightarrow> WriterState \<Rightarrow> bool" where
  "same_but_chain s t \<longleftrightarrow> same_rest (forget_chain s) (forget_chain t)"

definition tail_slots :: "arena \<Rightarrow> bool \<Rightarrow> segments \<Rightarrow> nat" where
  "tail_slots H c segs = (if segs = [] then 0 else seg_capacity H c (fst (last segs)))"

lemma seg_capacity_bound:
  assumes "arena s H"
  shows "4 * seg_capacity H c a \<le> unat (s_append_offset s)"
proof (cases "H a")
  case (Some p)
  obtain T d where p: "p = (T, d)" by (cases p)
  have "length d \<le> unat (s_append_offset s)"
    using stored_objectD(3) [of s "s_append_offset s" H a T d] assms Some p by (simp add: arena_def)
  moreover have "slots_of_array c d * item_width c \<le> length d - 24" by (simp add: slots_of_array_def)
  moreover have "slots_of_array c d * 4 \<le> slots_of_array c d * item_width c" by (simp add: item_width_def)
  ultimately have "4 * slots_of_array c d \<le> unat (s_append_offset s)" by linarith
  then show ?thesis using Some p by (simp add: seg_capacity_def)
qed (simp add: seg_capacity_def)

lemma arena_walkable:
  assumes "arena s H" and "entry_chain s H segs" and "length (list_values segs) < 2 ^ 64"
  shows "walkable (journal_file s) H (s_compact s) segs"
proof -
  have "seg_capacity H (s_compact s) a < 2 ^ 64" for a
    using seg_capacity_bound [OF assms(1), of "s_compact s" a] unat_u64_less [of "s_append_offset s"] by linarith
  then show ?thesis
    using assms reads_heap_file [of s "s_append_offset s" H] by (auto simp: walkable_def entry_chain_def arena_def)
qed

lemma next_entry_array_capacity_le:
  assumes "unat index < 2 ^ 62" and "unat previous < 2 ^ 62"
  shows "unat (next_entry_array_capacity index previous) \<le> 4 + 2 * (unat index + 1) + 2 * unat previous"
proof -
  have a: "unat ((index + 1) * 2) = (unat index + 1) * 2" using assms(1) by (simp add: unat_word_ariths)
  have b: "unat (previous * 2) = unat previous * 2" using assms(2) by (simp add: unat_word_ariths)
  show ?thesis
    using a b by (auto simp: next_entry_array_capacity_def max_def)
qed

text \<open>The lookups of the writer find the last array of the chain and the number of entries in it.\<close>

lemma tail_lookup:
  assumes ar: "arena s H" and ec: "entry_chain s H segs" "segs \<noteq> []" and n: "unat (n_entries (file_header s)) = length (list_values segs)"
  shows "entry_array_tail_offset (journal_file s) (fst (hd segs)) (n_entries (file_header s)) = Ok (fst (last segs))"
    "offset_array_capacity (journal_file s) (fst (last segs)) = Ok (of_nat (seg_capacity H (s_compact s) (fst (last segs))))"
    "entry_array_tail_entries (journal_file s) (fst (hd segs)) (fst (last segs)) (n_entries (file_header s)) =
       Ok (of_nat (length (snd (last segs))))"
proof -
  let ?h = "file_header s"
  have small: "length (list_values segs) < 2 ^ 64" using n unat_u64_less [of "n_entries ?h"] by simp
  have w: "walkable (journal_file s) H (s_compact s) segs" by (rule arena_walkable [OF ar ec(1) small])
  have cnt: "n_entries ?h = of_nat (length (list_values (drop 0 segs)))" using n by (metis drop0 of_nat_unat ucast_id)
  have hd: "fst (hd segs) = fst (segs ! 0)" using ec(2) by (simp add: hd_conv_nth)
  have pos: "0 < length segs" using ec(2) by simp
  have cache: "cache_ok ?h segs" using ec by (simp add: entry_chain_def)
  show "entry_array_tail_offset (journal_file s) (fst (hd segs)) (n_entries ?h) = Ok (fst (last segs))"
  proof (cases "tail_entry_array_offset ?h = 0")
    case True
    then show ?thesis
      using find_tail_loop_chain [OF w pos, of "fst (hd segs)"]
      by (simp add: entry_array_tail_offset_def find_entry_array_tail_def nonzero_def cnt hd)
  next
    case False
    then have "(ucast (tail_entry_array_offset ?h) :: u64) = fst (last segs)"
      using cache by (metis cache_ok_def unat_ucast_u32 word_unat_eq_iff)
    moreover have "fst (last segs) \<noteq> 0"
      using chain_ok_nonzero [OF chain_in_chain_ok [OF walkableD(1) [OF w] walkableD(2) [OF w]]] ec(2) by (metis last_in_set)
    ultimately show ?thesis by (simp add: entry_array_tail_offset_def nonzero_def)
  qed
  have last: "last segs = segs ! (length segs - 1)" using ec(2) by (rule last_conv_nth)
  have "length segs - 1 < length segs" using pos by simp
  from walk_segment [OF walkableD(1) [OF w] walkableD(2) [OF w] this walkableD(4) [OF w]]
  obtain arr where "offset_array_ref (journal_file s) (fst (last segs)) = Ok arr"
    "array_capacity arr = seg_capacity H (s_compact s) (fst (last segs))"
    unfolding last by metis
  then show "offset_array_capacity (journal_file s) (fst (last segs)) =
      Ok (of_nat (seg_capacity H (s_compact s) (fst (last segs))))"
    by (simp add: offset_array_capacity_def)
  show "entry_array_tail_entries (journal_file s) (fst (hd segs)) (fst (last segs)) (n_entries ?h) =
       Ok (of_nat (length (snd (last segs))))"
  proof (cases "tail_entry_array_n_entries ?h = 0")
    case True
    then show ?thesis
      using tail_entries_loop_chain [OF w pos, of "fst (hd segs)"]
      by (simp add: entry_array_tail_entries_def compute_entry_array_tail_entries_def cnt hd)
  next
    case False
    then have "unat (ucast (tail_entry_array_n_entries ?h) :: u64) = length (snd (last segs))"
      using cache by (simp add: cache_ok_def)
    then have "(ucast (tail_entry_array_n_entries ?h) :: u64) = of_nat (length (snd (last segs)))"
      by (metis of_nat_unat ucast_id)
    moreover have "(ucast (tail_entry_array_n_entries ?h) :: u64) \<noteq> 0" using False by (metis unat_eq_zero unat_ucast_u32)
    ultimately show ?thesis by (simp add: entry_array_tail_entries_def Let_def)
  qed
qed

lemma journal_header_mut_simps [simp]:
  "file_header (journal_header_mut f s) = f (file_header s)" "file_bytes (journal_header_mut f s) = file_bytes s"
  "window_size (journal_header_mut f s) = window_size s" "disk_limit (journal_header_mut f s) = disk_limit s"
  "writer (journal_header_mut f s) = writer s" "recovery (journal_file (journal_header_mut f s)) = recovery (journal_file s)"
  by (simp_all add: journal_header_mut_def)

lemma arena_header_mut:
  assumes "header_size (f (file_header s)) = header_size (file_header s)" "arena_size (f (file_header s)) = arena_size (file_header s)"
  shows "arena (journal_header_mut f s) H = arena s H"
  using assms by (simp add: arena_def arena_ok_def within_arena_def)

definition set_cache :: "u64 \<Rightarrow> u64 \<Rightarrow> JournalHeader \<Rightarrow> JournalHeader" where
  "set_cache a n h = h\<lparr>tail_entry_array_offset := ucast a, tail_entry_array_n_entries := ucast n\<rparr>"

lemma set_tail_cache_eq: "set_tail_cache a n = smodify (journal_header_mut (set_cache a n))"
  by (simp add: set_tail_cache_def set_cache_def [abs_def])

lemma same_rest_header_mut:
  "same_rest s t \<Longrightarrow> same_but_chain s (journal_header_mut (set_cache a n) t)"
  "same_rest s t \<Longrightarrow> same_but_chain s (journal_header_mut (set_cache a n) (journal_header_mut (\<lambda>h. h\<lparr>entry_array_offset := x\<rparr>) t))"
proof -
  have "same_but_chain s (journal_header_mut (set_cache a n) t) \<and>
      same_but_chain s (journal_header_mut (set_cache a n) (journal_header_mut (\<lambda>h. h\<lparr>entry_array_offset := x\<rparr>) t))"
    if r: "same_rest s t"
  proof -
    have e: "forget_chain (rest_of u) = rest_of (forget_chain u)" for u
      by (simp add: forget_chain_def rest_of_def journal_header_mut_def)
    have "rest_of s = rest_of t" using r by (simp add: same_rest_def)
    then have "rest_of (forget_chain s) = rest_of (forget_chain t)" by (metis e)
    then show ?thesis
      by (simp add: same_but_chain_def same_rest_def) (simp add: forget_chain_def journal_header_mut_def set_cache_def rest_of_def)
  qed
  then show "same_rest s t \<Longrightarrow> same_but_chain s (journal_header_mut (set_cache a n) t)"
    "same_rest s t \<Longrightarrow> same_but_chain s (journal_header_mut (set_cache a n) (journal_header_mut (\<lambda>h. h\<lparr>entry_array_offset := x\<rparr>) t))"
    by blast+
qed

lemma cache_ok_set:
  assumes "unat (fst (last segs)) < 2 ^ 32" and "length (snd (last segs)) < 2 ^ 32" and "unat n = length (snd (last segs))"
  shows "cache_ok (set_cache (fst (last segs)) n h) segs"
  using assms by (simp add: cache_ok_def set_cache_def unsigned_ucast_eq take_bit_eq_mod)

lemma compact_header_mut [simp]:
  "is_compact (journal_file (journal_header_mut (set_cache a n) s)) = is_compact (journal_file s)"
  "is_compact (journal_file (journal_header_mut (\<lambda>h. h\<lparr>entry_array_offset := x\<rparr>) s)) = is_compact (journal_file s)"
  by (simp_all add: is_compact_def has_incompatible_flag_def journal_header_mut_def set_cache_def)

lemma set_cache_simps [simp]:
  "header_size (set_cache a n h) = header_size h" "arena_size (set_cache a n h) = arena_size h"
  "entry_array_offset (set_cache a n h) = entry_array_offset h"
  by (simp_all add: set_cache_def)

text \<open>The three ways of appending: into the tail, into a new array behind it, into the first array.\<close>

definition appended :: "WriterState \<Rightarrow> arena \<Rightarrow> segments \<Rightarrow> u64 \<Rightarrow> WriterState \<Rightarrow> bool" where
  "appended s H segs v t \<longleftrightarrow>
     same_but_chain s t \<and> (\<exists>H' segs'. arena t H' \<and> entry_chain t H' segs' \<and> list_values segs' = list_values segs @ [v] \<and>
       set (map fst segs') \<subseteq> insert (s_append_offset s) (set (map fst segs)) \<and>
       (\<forall>p. p \<notin> set (map fst segs) \<longrightarrow> p \<noteq> s_append_offset s \<longrightarrow> H' p = H p))"

lemma append_into_tail:
  assumes ar: "arena s H" and ec: "entry_chain s H (xs @ [(a, vs)])" and room: "length vs < seg_capacity H (s_compact s) a"
    and v: "v \<noteq> 0" "s_compact s \<longrightarrow> unat v < 2 ^ 32" and ap: "unat (s_append_offset s) < 2 ^ 32"
  shows "holds (append_to_entry_array_tail a (of_nat (length vs)) v) s (\<lambda>_ t. appended s H (xs @ [(a, vs)]) v t)
    (\<lambda>_ _. exhausted s (unat (s_append_offset s)))"
proof -
  let ?c = "s_compact s"
  have ch: "chain_in H ?c (xs @ [(a, vs)])" "distinct (map fst xs @ [a])" using ec by (auto simp: entry_chain_def)
  obtain d where d: "H a = Some (EntryArray, d)" "array_shape ?c d"
    using chain_in_last [OF ch(1)] by (auto simp: array_seg_def)
  have r: "length vs < slots_of_array ?c d" using room d(1) by (simp add: seg_capacity_def)
  have b: "length vs < 2 ^ 30" using seg_capacity_bound [OF ar, of ?c a] room ap by simp
  have un: "unat (of_nat (length vs) :: u64) = length vs" using b by (intro unat_of_nat_less) simp
  let ?H = "H(a \<mapsto> (EntryArray, patch d (24 + length vs * item_width ?c) (encode_offset ?c v)))"
  have ch': "chain_in ?H ?c (xs @ [(a, vs @ [v])])" by (rule chain_append_slot [OF ch refl d(1) r v])
  have la: "unat a < 2 ^ 32" using arena_fresh(2) [OF ar d(1)] ap by simp
  show ?thesis
    unfolding append_to_entry_array_tail_def set_tail_cache_eq
  proof (rule fill_slot [OF ar d])
    show "unat (of_nat (length vs) :: u64) < slots_of_array ?c d" using r un by simp
    fix t assume t: "only_bytes s t" "arena t (H(a \<mapsto> (EntryArray, patch d (24 + unat (of_nat (length vs) :: u64) *
      item_width ?c) (encode_offset ?c v))))"
    let ?t = "journal_header_mut (set_cache a (of_nat (length vs) + 1)) t"
    have sr: "same_rest s t" by (rule only_bytes_same_rest [OF t(1)])
    note eqs = same_restD [OF sr]
    have art: "arena ?t ?H" using t(2) by (simp add: un arena_header_mut)
    have n1: "unat (of_nat (length vs) + 1 :: u64) = length (vs @ [v])" using un b by (simp add: unat_word_ariths)
    have "cache_ok (set_cache a (of_nat (length vs) + 1) (file_header t)) (xs @ [(a, vs @ [v])])"
      using cache_ok_set [of "xs @ [(a, vs @ [v])]" "of_nat (length vs) + 1" "file_header t"] la n1 b by simp
    moreover have "fst (hd (xs @ [(a, vs @ [v])])) = fst (hd (xs @ [(a, vs)]))" by (cases xs) auto
    ultimately have "entry_chain ?t ?H (xs @ [(a, vs @ [v])])"
      using ch' ch(2) ec eqs by (simp add: entry_chain_def)
    then have "appended s H (xs @ [(a, vs)]) v ?t"
      using art same_rest_header_mut(1) [OF sr] unfolding appended_def
      by (intro conjI exI [of _ ?H] exI [of _ "xs @ [(a, vs @ [v])]"]) (auto simp: list_values_append)
    then show "holds (smodify (journal_header_mut (set_cache a (of_nat (length vs) + 1)))) t
        (\<lambda>_ t. appended s H (xs @ [(a, vs)]) v t) (\<lambda>_ _. exhausted s (unat (s_append_offset s)))" by simp
  qed (use v in \<open>auto simp: exhausted_def\<close>)
qed

lemma append_new_array:
  assumes ar: "arena s H" and ec: "entry_chain s H (xs @ [(a, vs)])" and full: "length vs = seg_capacity H (s_compact s) a"
    and v: "v \<noteq> 0" "s_compact s \<longrightarrow> unat v < 2 ^ 32" and ap: "unat (s_append_offset s) < 2 ^ 32" "s_append_offset s \<noteq> 0"
    and need: "unat (s_append_offset s) + 24 + unat (next_entry_array_capacity cnt tc) * item_width (s_compact s) + 8 \<le> need"
      "need < 2 ^ 63"
  shows "holds (grow_entry_array_tail a cnt tc v) s (\<lambda>_ t. appended s H (xs @ [(a, vs)]) v t) (\<lambda>_ _. exhausted s need)"
proof -
  let ?c = "s_compact s" and ?b = "s_append_offset s"
  have ch: "chain_in H ?c (xs @ [(a, vs)])" "distinct (map fst xs @ [a])" using ec by (auto simp: entry_chain_def)
  have nb: "?b \<notin> set (map fst (xs @ [(a, vs)]))"
  proof
    assume "?b \<in> set (map fst (xs @ [(a, vs)]))"
    then have "?b \<in> fst ` set (xs @ [(a, vs)])" by simp
    then obtain seg where "seg \<in> set (xs @ [(a, vs)])" "?b = fst seg" by (rule imageE)
    with chain_offsets_below [OF ar ch(1) this(1)] show False by simp
  qed
  show ?thesis
    unfolding grow_entry_array_tail_def set_tail_cache_eq
  proof (rule holds_seq [OF grow_chain_holds [OF ar ap(2) ch full v]])
    show "unat ?b + 24 + unat (next_entry_array_capacity cnt tc) * item_width ?c + 8 < 2 ^ 63" using need by simp
    show "exhausted s need" if "exhausted s (unat ?b + 24 + unat (next_entry_array_capacity cnt tc) * item_width ?c + 8)"
      using that need(1) by (rule exhausted_mono)
    fix b t
    assume "b = ?b \<and> same_rest s t \<and> unat (s_append_offset t) \<le>
        unat ?b + 24 + unat (next_entry_array_capacity cnt tc) * item_width ?c + 8 \<and>
      (\<exists>H'. arena t H' \<and> (\<forall>p. p \<noteq> a \<longrightarrow> p \<noteq> b \<longrightarrow> H' p = H p) \<and> chain_in H' ?c (xs @ [(a, vs), (b, [v])]))"
    then obtain H' where b: "b = ?b" and sr: "same_rest s t" and H': "arena t H'" "\<forall>p. p \<noteq> a \<longrightarrow> p \<noteq> ?b \<longrightarrow> H' p = H p"
      "chain_in H' ?c (xs @ [(a, vs), (?b, [v])])" by auto
    let ?t = "journal_header_mut (set_cache ?b 1) t" and ?segs = "xs @ [(a, vs), (?b, [v])]"
    note eqs = same_restD [OF sr]
    have "cache_ok (set_cache ?b 1 (file_header t)) ?segs"
      using cache_ok_set [of ?segs 1 "file_header t"] ap(1) by simp
    moreover have "fst (hd ?segs) = fst (hd (xs @ [(a, vs)]))" by (cases xs) auto
    moreover have "distinct (map fst ?segs)" using ch(2) nb by auto
    ultimately have "entry_chain ?t H' ?segs"
      using H'(3) ec eqs by (simp add: entry_chain_def)
    then have "appended s H (xs @ [(a, vs)]) v ?t"
      using H' same_rest_header_mut(1) [OF sr] unfolding appended_def
      by (intro conjI exI [of _ H'] exI [of _ ?segs]) (auto simp: list_values_append arena_header_mut)
    then show "holds (smodify (journal_header_mut (set_cache b 1))) t
        (\<lambda>_ t. appended s H (xs @ [(a, vs)]) v t) (\<lambda>_ _. exhausted s need)" by (simp add: b)
  qed
qed

lemma append_first_array:
  assumes ar: "arena s H" and ec: "entry_chain s H []"
    and v: "v \<noteq> 0" "s_compact s \<longrightarrow> unat v < 2 ^ 32" and ap: "unat (s_append_offset s) < 2 ^ 32" "s_append_offset s \<noteq> 0"
    and need: "unat (s_append_offset s) + 64 \<le> need" "need < 2 ^ 63"
  shows "holds (append_first_entry_array v) s (\<lambda>_ t. appended s H [] v t) (\<lambda>_ _. exhausted s need)"
proof -
  let ?c = "s_compact s" and ?b = "s_append_offset s"
  have w: "unat (4 :: u64) * item_width ?c \<le> 32" by (simp add: item_width_def)
  have sz: "24 + unat (4 :: u64) * item_width ?c < 2 ^ 64" using w by simp
  note em = empty_array [OF sz]
  show ?thesis
    unfolding append_first_entry_array_def set_tail_cache_eq
  proof (rule holds_seq [OF allocate_new_array_holds [OF ar]])
    show "unat ?b + 24 + unat (4 :: u64) * item_width ?c + 8 < 2 ^ 63" using need w by simp
    show "exhausted s need" if "exhausted s (unat ?b + 24 + unat (4 :: u64) * item_width ?c + 8)"
      using that by (rule exhausted_mono) (use need w in simp)
    fix b t
    assume "b = ?b \<and> same_rest s t \<and> arena t (H(b \<mapsto> (EntryArray, empty_array ?c 4))) \<and>
      unat (s_append_offset t) \<le> unat ?b + 24 + unat (4 :: u64) * item_width ?c + 8"
    then have b: "b = ?b" and sr: "same_rest s t" and t: "arena t (H(?b \<mapsto> (EntryArray, empty_array ?c 4)))"
      "unat (s_append_offset t) \<le> need" using w need by auto
    note eqs = same_restD [OF sr]
    show "holds (sbind (offset_array_mut b None) (\<lambda>array. sbind (array_guard_set b array 0 v) (\<lambda>_.
        sbind (smodify (journal_header_mut (\<lambda>h. h\<lparr>entry_array_offset := Some b\<rparr>))) (\<lambda>_.
          smodify (journal_header_mut (set_cache b 1)))))) t (\<lambda>_ t. appended s H [] v t) (\<lambda>_ _. exhausted s need)"
      unfolding b
    proof (rule fill_slot [OF t(1)])
      show "(H(?b \<mapsto> (EntryArray, empty_array ?c 4))) ?b = Some (EntryArray, empty_array ?c 4)" by simp
      show "exhausted s need" if "refuses t (unat (s_append_offset t))"
        using refuses_mono [OF that t(2)] same_rest_exhausted [OF sr, of need] by (auto simp: exhausted_def)
      fix u
      let ?H = "H(?b \<mapsto> (EntryArray, new_tail ?c 4 v))"
      assume u: "only_bytes t u" "arena u (H(?b \<mapsto> (EntryArray, empty_array ?c 4),
        ?b \<mapsto> (EntryArray, patch (empty_array ?c 4) (24 + 0 * item_width (s_compact t)) (encode_offset (s_compact t) v))))"
      then have uH: "arena u ?H" by (simp add: eqs new_tail_def)
      have su: "same_rest s u" using sr only_bytes_same_rest [OF u(1)] by (rule same_rest_trans)
      let ?u = "journal_header_mut (set_cache ?b 1) (journal_header_mut (\<lambda>h. h\<lparr>entry_array_offset := Some ?b\<rparr>) u)"
      have "array_seg ?H ?c ?b [v] None" by (rule new_tail_seg [OF sz _ v]) (use ap in auto)
      moreover have "cache_ok (set_cache ?b 1 ((file_header u)\<lparr>entry_array_offset := Some ?b\<rparr>)) [(?b, [v])]"
        using cache_ok_set [of "[(?b, [v])]" 1] ap(1) by simp
      ultimately have "entry_chain ?u ?H [(?b, [v])]"
        using same_restD(2) [OF su] by (simp add: entry_chain_def)
      moreover have "arena ?u ?H" using uH by (simp add: arena_header_mut)
      ultimately have "appended s H [] v ?u"
        using same_rest_header_mut(2) [OF su] unfolding appended_def
        by (intro conjI exI [of _ ?H] exI [of _ "[(?b, [v])]"]) auto
      then show "holds (sbind (smodify (journal_header_mut (\<lambda>h. h\<lparr>entry_array_offset := Some ?b\<rparr>))) (\<lambda>_.
          smodify (journal_header_mut (set_cache ?b 1)))) u (\<lambda>_ t. appended s H [] v t) (\<lambda>_ _. exhausted s need)" by simp
    qed (use em v eqs in auto)
  qed
qed

lemma append_to_entry_array_holds:
  assumes ar: "arena s H" and ec: "entry_chain s H segs"
    and n: "unat (n_entries (file_header s)) = length (list_values segs)" "length (list_values segs) < 2 ^ 32"
    and v: "v \<noteq> 0" "unat v < 2 ^ 32" and ap: "unat (s_append_offset s) < 2 ^ 32" "s_append_offset s \<noteq> 0"
  shows "holds (append_to_entry_array v) s (\<lambda>_ t. appended s H segs v t)
    (\<lambda>_ _. exhausted s (unat (s_append_offset s) + 96 + 16 * (length (list_values segs) + tail_slots H (s_compact s) segs)))"
proof -
  let ?c = "s_compact s" and ?need = "unat (s_append_offset s) + 96 + 16 * (length (list_values segs) + tail_slots H (s_compact s) segs)"
  have tb: "4 * tail_slots H ?c segs < 2 ^ 32"
    using seg_capacity_bound [OF ar, of ?c "fst (last segs)"] ap(1) by (simp add: tail_slots_def)
  have need: "?need < 2 ^ 63" using ap(1) n(2) tb by simp
  have eco: "ensure_compact_offset ?c v = Ok ()"
    using v(2) by (simp add: ensure_compact_offset_def JOURNAL_COMPACT_SIZE_MAX_def word_less_nat_alt)
  show ?thesis
  proof (cases "segs = []")
    case True
    have "holds (append_first_entry_array v) s (\<lambda>_ t. appended s H [] v t) (\<lambda>_ _. exhausted s ?need)"
      by (rule append_first_array) (use True ar ec v ap need in auto)
    then show ?thesis
      using True ec eco by (simp add: append_to_entry_array_def entry_chain_def)
  next
    case False
    then obtain xs a vs where segs: "segs = xs @ [(a, vs)]" by (metis append_butlast_last_id surj_pair)
    let ?cap = "seg_capacity H ?c a"
    note tl = tail_lookup [OF ar ec False n(1)]
    have last: "last segs = (a, vs)" by (simp add: segs)
    have ts: "tail_slots H ?c segs = ?cap" using False by (simp add: tail_slots_def last)
    have capw: "unat (of_nat ?cap :: u64) = ?cap" using tb ts by (intro unat_of_nat_less) simp
    have vsl: "length vs \<le> ?cap"
      using chain_in_last [of H ?c xs a vs] ec segs by (auto simp: entry_chain_def array_seg_def seg_capacity_def)
    have vsw: "unat (of_nat (length vs) :: u64) = length vs" using vsl tb ts by (intro unat_of_nat_less) simp
    have branch: "holds (if (of_nat (length vs) :: u64) < of_nat ?cap
         then append_to_entry_array_tail a (of_nat (length vs)) v
         else grow_entry_array_tail a (n_entries (file_header s)) (of_nat ?cap) v) s
       (\<lambda>_ t. appended s H segs v t) (\<lambda>_ _. exhausted s ?need)"
    proof (cases "length vs < ?cap")
      case True
      then have "holds (append_to_entry_array_tail a (of_nat (length vs)) v) s (\<lambda>_ t. appended s H segs v t)
          (\<lambda>_ _. exhausted s (unat (s_append_offset s)))"
        unfolding segs using append_into_tail [OF ar, of xs a vs v] ec v ap segs by simp
      then have "holds (append_to_entry_array_tail a (of_nat (length vs)) v) s (\<lambda>_ t. appended s H segs v t)
          (\<lambda>_ _. exhausted s ?need)"
        by (rule holds_mono) (auto intro: exhausted_mono)
      then show ?thesis using True capw vsw by (simp add: word_less_nat_alt)
    next
      case False
      have "unat (next_entry_array_capacity (n_entries (file_header s)) (of_nat ?cap)) \<le>
          4 + 2 * (length (list_values segs) + 1) + 2 * ?cap"
        using next_entry_array_capacity_le [of "n_entries (file_header s)" "of_nat ?cap"] n capw tb ts by simp
      moreover have "item_width ?c \<le> 8" by (simp add: item_width_def)
      ultimately have "unat (next_entry_array_capacity (n_entries (file_header s)) (of_nat ?cap)) * item_width ?c \<le>
          (4 + 2 * (length (list_values segs) + 1) + 2 * ?cap) * 8" by (rule mult_le_mono)
      then have "holds (grow_entry_array_tail a (n_entries (file_header s)) (of_nat ?cap) v) s
          (\<lambda>_ t. appended s H segs v t) (\<lambda>_ _. exhausted s ?need)"
        unfolding segs
        by (intro append_new_array [OF ar]) (use ec v ap segs need ts vsl False in auto)
      then show ?thesis using False capw vsw by (simp add: word_less_nat_alt)
    qed
    have eao: "entry_array_offset (file_header s) = Some (fst (hd segs))" using ec False by (simp add: entry_chain_def)
    show ?thesis
      using tl branch by (simp add: append_to_entry_array_def eco eao last Let_def)
  qed
qed

text \<open>Readers see the entry chain as the list of entries.\<close>

lemma entry_chain_read:
  assumes ar: "arena s H" and ec: "entry_chain s H segs" and n: "unat (n_entries (file_header s)) = length (list_values segs)"
    and rec: "recovery (journal_file s) = None"
  shows "entry_offsets (journal_file s) [] = Ok (list_values segs)"
proof (cases "segs = []")
  case True
  then show ?thesis
    using ec by (simp add: entry_offsets_def entry_list_def entry_chain_def)
next
  case False
  let ?l = "\<lparr>head_offset = fst (hd segs), total_items = unat (n_entries (file_header s))\<rparr>"
  have ch: "chain_in H (s_compact s) segs" "distinct (map fst segs)" using ec by (auto simp: entry_chain_def)
  have ok: "chain_ok (offset_array_ref (journal_file s)) (length (list_values segs)) segs"
    using chain_in_chain_ok [OF reads_heap_file ch(1), of "s_append_offset s"] ar by (simp add: arena_def)
  have ref: "reader_offset_array_ref (journal_file s) = offset_array_ref (journal_file s)"
    using rec by (simp add: reader_offset_array_ref_def fun_eq_iff)
  have "array_seg H (s_compact s) (fst (hd segs)) (snd (hd segs)) (if Suc 0 < length segs then Some (fst (segs ! Suc 0)) else None)"
    using chain_in_nth(1) [OF ch(1), of 0] False by (simp add: hd_conv_nth)
  then obtain d where d: "H (fst (hd segs)) = Some (EntryArray, d)" by (auto simp: array_seg_def)
  have "fst (hd segs) mod 8 = 0"
    using object_range(4) [of s "s_append_offset s" H, OF _ d] ar by (simp add: arena_def)
  then have "chain_repr (reader_offset_array_ref (journal_file s)) ?l segs"
    using False ch ok n by (simp add: chain_repr_def ref)
  moreover have "unat (n_entries (file_header s)) \<noteq> 0"
    using n list_values_nonempty [OF ch(1), of 0] False by simp
  then have "entry_list (journal_file s) = Some ?l"
    using ec False rec by (auto simp: entry_list_def entry_chain_def reader_entry_count_def)
  ultimately show ?thesis
    using list_collect_offsets_repr by (simp add: entry_offsets_def)
qed

section \<open>Properties\<close>

lemma entry_chain_count:
  "entry_chain (journal_header_mut (\<lambda>h. h\<lparr>n_entries := x\<rparr>) t) H segs = entry_chain t H segs"
  "arena (journal_header_mut (\<lambda>h. h\<lparr>n_entries := x\<rparr>) t) H = arena t H"
  by (simp_all add: entry_chain_def cache_ok_def arena_header_mut is_compact_def has_incompatible_flag_def journal_header_mut_def
      arena_def arena_ok_def within_arena_def)

lemma same_but_chainD:
  assumes "same_but_chain s t"
  shows "n_entries (file_header t) = n_entries (file_header s)" "recovery (journal_file t) = recovery (journal_file s)"
proof -
  have r: "rest_of (forget_chain t) = rest_of (forget_chain s)" using assms by (simp add: same_but_chain_def same_rest_def)
  show "n_entries (file_header t) = n_entries (file_header s)"
    using arg_cong [OF r, of "\<lambda>u. n_entries (file_header u)"] by (simp add: rest_of_def forget_chain_def)
  show "recovery (journal_file t) = recovery (journal_file s)"
    using arg_cong [OF r, of "\<lambda>u. recovery (journal_file u)"] by (simp add: rest_of_def forget_chain_def)
qed

text \<open>
  C2. Appending an entry to the array chain of a file implements appending to a list.  Take any file whose
  arena holds the objects of \<open>H\<close> and whose header names an array chain with the entries \<open>list_values segs\<close>
  (with or without the cached tail of the header), below 4 GiB.  If the chain is extended by the offset of
  a stored object, into the tail array, a new array behind it or the first array, then readers of the file
  (once the entry is counted) get the old entries followed by the new one, the arena and the chain stay well
  formed, and no object outside the chain has changed; otherwise the file could not be extended.
\<close>

theorem entry_array_append_refines:
  assumes "arena s H" and "entry_chain s H segs" and "recovery (journal_file s) = None"
    and "unat (n_entries (file_header s)) = length (list_values segs)" and "length (list_values segs) < 2 ^ 32 - 1"
    and "H v = Some (T, d)" and "0 < header_size (file_header s)" and "unat (s_append_offset s) < 2 ^ 32"
  shows "entry_offsets (journal_file s) [] = Ok (list_values segs) \<and>
    holds (append_to_entry_array v) s
      (\<lambda>_ t. \<exists>H' segs'. arena t H' \<and> entry_chain t H' segs' \<and>
         (\<forall>p. p \<notin> set (map fst segs) \<longrightarrow> H p \<noteq> None \<longrightarrow> H' p = H p) \<and>
         entry_offsets (journal_file (journal_header_mut (\<lambda>h. h\<lparr>n_entries := n_entries h + 1\<rparr>) t)) [] =
           Ok (list_values segs @ [v]))
      (\<lambda>_ _. exhausted s (unat (s_append_offset s) + 96 +
         16 * (length (list_values segs) + tail_slots H (s_compact s) segs)))"
proof
  show "entry_offsets (journal_file s) [] = Ok (list_values segs)"
    by (rule entry_chain_read) (use assms in auto)
  have hv: "header_size (file_header s) \<le> v" "unat v < unat (s_append_offset s)"
    using arena_fresh(2) [OF assms(1,6)] stored_objectD(2) [of s "s_append_offset s" H v T d] assms by (auto simp: arena_def)
  then have nz: "v \<noteq> 0" "s_append_offset s \<noteq> 0" using assms(7) by (auto simp: word_le_nat_alt word_less_nat_alt)
  show "holds (append_to_entry_array v) s
      (\<lambda>_ t. \<exists>H' segs'. arena t H' \<and> entry_chain t H' segs' \<and>
         (\<forall>p. p \<notin> set (map fst segs) \<longrightarrow> H p \<noteq> None \<longrightarrow> H' p = H p) \<and>
         entry_offsets (journal_file (journal_header_mut (\<lambda>h. h\<lparr>n_entries := n_entries h + 1\<rparr>) t)) [] =
           Ok (list_values segs @ [v]))
      (\<lambda>_ _. exhausted s (unat (s_append_offset s) + 96 +
         16 * (length (list_values segs) + tail_slots H (s_compact s) segs)))"
  proof (rule holds_mono [OF append_to_entry_array_holds [OF assms(1,2,4)]])
    fix t assume "appended s H segs v t"
    then obtain H' segs' where sbc: "same_but_chain s t" and H': "arena t H'" "entry_chain t H' segs'"
      "list_values segs' = list_values segs @ [v]" "\<forall>p. p \<notin> set (map fst segs) \<longrightarrow> p \<noteq> s_append_offset s \<longrightarrow> H' p = H p"
      unfolding appended_def by blast
    let ?t = "journal_header_mut (\<lambda>h. h\<lparr>n_entries := n_entries h + 1\<rparr>) t"
    have "unat (n_entries (file_header s) + 1) = length (list_values segs) + 1"
      using assms(4,5) by (simp add: unat_word_ariths)
    then have "unat (n_entries (file_header ?t)) = length (list_values segs')"
      using same_but_chainD(1) [OF sbc] H'(3) by simp
    then have "entry_offsets (journal_file ?t) [] = Ok (list_values segs @ [v])"
      using entry_chain_read [of ?t H' segs'] H'(1-3) same_but_chainD(2) [OF sbc] assms(3)
        entry_chain_count [of "n_entries (file_header t) + 1" t H']
      by (simp add: journal_header_mut_def)
    moreover have "\<forall>p. p \<notin> set (map fst segs) \<longrightarrow> H p \<noteq> None \<longrightarrow> H' p = H p"
      using H'(4) arena_fresh(1) [OF assms(1)] by fastforce
    ultimately show "\<exists>H' segs'. arena t H' \<and> entry_chain t H' segs' \<and>
         (\<forall>p. p \<notin> set (map fst segs) \<longrightarrow> H p \<noteq> None \<longrightarrow> H' p = H p) \<and>
         entry_offsets (journal_file ?t) [] = Ok (list_values segs @ [v])"
      using H' by blast
  qed (use assms hv nz in auto)
qed

definition sample_arena :: WriterState where
  "sample_arena = \<lparr>journal_file = sample_file\<lparr>jf_header := (jf_header sample_file)\<lparr>entry_array_offset := None, n_entries := 0,
       header_size := 16, arena_size := 4096, tail_entry_array_offset := 0, tail_entry_array_n_entries := 0\<rparr>,
       jf_bytes := replicate 16 0 @ fresh_object Entry 64, recovery := None\<rparr>,
     window_size = 4096, retained_len = 0, disk_limit = 2 ^ 20,
     writer = \<lparr>poisoned = False, w_tail_object_offset = 16, append_offset = 80, next_seqnum = 1, num_written_objects = 0,
       w_entry_items = [], field_cache = [], first_entry_monotonic = None, w_boot_id = replicate 16 0,
       compression = NoCompression, compress_threshold = 512, live_publish_every_entries = 1,
       entries_since_live_publication = 0\<rparr>\<rparr>"

lemma sample_arena_ok: "arena sample_arena [16 \<mapsto> (Entry, fresh_object Entry 64)]"
proof -
  have "bytes_at (replicate 16 0 @ fresh_object Entry 64) 16 64 = fresh_object Entry 64" by (simp add: bytes_at_def)
  then have "stored_object (replicate 16 0 @ fresh_object Entry 64) 16 Entry (fresh_object Entry 64)"
    using fresh_object_header [of 64 Entry] by (simp add: stored_object_def)
  then show ?thesis
    by (auto simp: arena_def arena_ok_def within_arena_def sample_arena_def nth_append split: if_splits)
qed

lemma sample_arena_fields:
  "s_append_offset sample_arena = 80" "n_entries (file_header sample_arena) = 0" "recovery (journal_file sample_arena) = None"
  "header_size (file_header sample_arena) = 16"
  by (simp_all add: sample_arena_def)

theorem entry_array_append_refines_witness:
  "\<exists>t. append_to_entry_array 16 sample_arena = (Ok (), t) \<and>
     entry_offsets (journal_file (journal_header_mut (\<lambda>h. h\<lparr>n_entries := n_entries h + 1\<rparr>) t)) [] = Ok [16]"
proof -
  have ec: "entry_chain sample_arena [16 \<mapsto> (Entry, fresh_object Entry 64)] []"
    by (simp add: entry_chain_def sample_arena_def)
  have "\<not> exhausted sample_arena 176"
    by (simp add: exhausted_def refuses_def sample_arena_def is_compact_def has_incompatible_flag_def sample_file_def sample_header_def)
  moreover have "holds (append_to_entry_array 16) sample_arena
      (\<lambda>_ t. entry_offsets (journal_file (journal_header_mut (\<lambda>h. h\<lparr>n_entries := n_entries h + 1\<rparr>) t)) [] = Ok [16])
      (\<lambda>_ _. exhausted sample_arena 176)"
  proof (rule holds_mono)
    show "holds (append_to_entry_array 16) sample_arena
      (\<lambda>_ t. \<exists>H' segs'. arena t H' \<and> entry_chain t H' segs' \<and>
         (\<forall>p. p \<notin> set (map fst ([] :: segments)) \<longrightarrow> [16 \<mapsto> (Entry, fresh_object Entry 64)] p \<noteq> None \<longrightarrow>
            H' p = [16 \<mapsto> (Entry, fresh_object Entry 64)] p) \<and>
         entry_offsets (journal_file (journal_header_mut (\<lambda>h. h\<lparr>n_entries := n_entries h + 1\<rparr>) t)) [] =
           Ok (list_values [] @ [16]))
      (\<lambda>_ _. exhausted sample_arena (unat (s_append_offset sample_arena) + 96 +
         16 * (length (list_values []) + tail_slots [16 \<mapsto> (Entry, fresh_object Entry 64)] (s_compact sample_arena) [])))"
      by (rule entry_array_append_refines [OF sample_arena_ok ec, THEN conjunct2, of 16 Entry "fresh_object Entry 64"])
        (simp_all add: sample_arena_fields)
  qed (auto simp: tail_slots_def sample_arena_fields)
  ultimately show ?thesis by (auto simp: holds_def split: prod.splits sum.splits)
qed

end
