(* ===== verification/Journal_Writer.thy ===== *)
theory Journal_Writer
  imports Entry_Arrays "HOL-Library.AList"
begin

text \<open>
  The journal writer, \<^verbatim>\<open>journal-core/src/file/writer.rs\<close>: field-name policies, the field cache, storing
  data and field objects with their hash chains, entry objects, and appending an entry as a whole.
  Sealing is not modelled: the writer is one with \<open>seal = None\<close>, for which \<open>ensure_first_tag\<close>,
  \<open>maybe_append_tag\<close> and \<open>hmac_put_object\<close> do nothing.

  The encoders (zstd, xz, lz4) and the keyed hash are third-party code: records of functions that the
  operations take as arguments.
\<close>

section \<open>Fields\<close>

record StructuredField =
  sf_name :: "u8 list"
  sf_value :: "u8 list"

datatype EntryField = RawField "u8 list" | Structured StructuredField

definition payload_parts :: "EntryField \<Rightarrow> PayloadParts" where
  "payload_parts field =
     (case field of RawField payload \<Rightarrow> pp_raw payload | Structured f \<Rightarrow> pp_structured (sf_name f) (sf_value f))"

definition field_name :: "EntryField \<Rightarrow> u8 list option" where
  "field_name field =
     (case field of
        RawField payload \<Rightarrow> map_option (\<lambda>pos. take pos payload) (position (\<lambda>b. b = 61) payload)
      | Structured f \<Rightarrow> Some (sf_name f))"

datatype FieldNamePolicy = Journald | RawPolicy | JournalApp

record EntryWriteOptions =
  trusted_unique_payloads :: bool
  field_name_policy :: FieldNamePolicy
  opt_seqnum :: "u64 option"
  opt_boot_id :: "u8 list option"

definition entry_write_options_default :: EntryWriteOptions where
  "entry_write_options_default =
     \<lparr>trusted_unique_payloads = False, field_name_policy = Journald, opt_seqnum = None, opt_boot_id = None\<rparr>"

definition is_ascii_digit :: "u8 \<Rightarrow> bool" where
  "is_ascii_digit b \<longleftrightarrow> 48 \<le> b \<and> b \<le> 57"

definition is_ascii_uppercase :: "u8 \<Rightarrow> bool" where
  "is_ascii_uppercase b \<longleftrightarrow> 65 \<le> b \<and> b \<le> 90"

definition is_journal_field_name_valid :: "u8 list \<Rightarrow> bool \<Rightarrow> bool" where
  "is_journal_field_name_valid name allow_protected =
     (if name = [] \<or> length name > 64 then False
      else if name ! 0 = 95 \<and> \<not> allow_protected then False
      else if is_ascii_digit (name ! 0) then False
      else list_all (\<lambda>b. is_ascii_uppercase b \<or> is_ascii_digit b \<or> b = 95) name)"

definition is_raw_field_name_valid :: "u8 list \<Rightarrow> bool" where
  "is_raw_field_name_valid name \<longleftrightarrow> name \<noteq> [] \<and> 61 \<notin> set name"

definition accept_entry_field :: "EntryField \<Rightarrow> FieldNamePolicy \<Rightarrow> bool result" where
  "accept_entry_field field policy =
     (case field_name field of
        None \<Rightarrow> Err InvalidField
      | Some name \<Rightarrow>
          (let valid = (case policy of
                 RawPolicy \<Rightarrow> is_raw_field_name_valid name
               | Journald \<Rightarrow> is_journal_field_name_valid name True
               | JournalApp \<Rightarrow> is_journal_field_name_valid name False)
           in if valid then Ok True else if policy = JournalApp then Ok False else Err InvalidField))"

section \<open>The field cache\<close>

definition FIELD_CACHE_MAX_ENTRIES :: nat where
  "FIELD_CACHE_MAX_ENTRIES = 1024"

definition FIELD_CACHE_MAX_PAYLOAD_LEN :: nat where
  "FIELD_CACHE_MAX_PAYLOAD_LEN = 128"

definition field_cache_get :: "(u8 list \<times> u64) list \<Rightarrow> u8 list \<Rightarrow> u64 option" where
  "field_cache_get cache payload = map_of cache payload"

definition field_cache_insert :: "(u8 list \<times> u64) list \<Rightarrow> u8 list \<Rightarrow> u64 \<Rightarrow> (u8 list \<times> u64) list" where
  "field_cache_insert cache payload off =
     (if length payload > FIELD_CACHE_MAX_PAYLOAD_LEN then cache
      else let cache' = (if length cache \<ge> FIELD_CACHE_MAX_ENTRIES \<and> map_of cache payload = None then [] else cache)
           in AList.update payload off cache')"

section \<open>Stored payloads\<close>

record Encoders =
  zstd_compress_to_vec :: "u8 list \<Rightarrow> u8 list"
  xz_write :: "u8 list \<Rightarrow> u8 list option"
  lz4_block_compress :: "u8 list \<Rightarrow> u8 list"

datatype StoredDataPayload = Uncompressed PayloadParts | Compressed "u8 list" u8

definition stored_len :: "StoredDataPayload \<Rightarrow> nat" where
  "stored_len p = (case p of Uncompressed payload \<Rightarrow> pp_len payload | Compressed payload _ \<Rightarrow> length payload)"

definition object_flags :: "StoredDataPayload \<Rightarrow> u8" where
  "object_flags p = (case p of Uncompressed _ \<Rightarrow> 0 | Compressed _ fl \<Rightarrow> fl)"

definition zstd_frame_with_content_size :: "u8 list \<Rightarrow> nat \<Rightarrow> u8 list" where
  "zstd_frame_with_content_size frame content_size =
     (if length frame < 6 \<or> take 4 frame \<noteq> [0x28, 0xb5, 0x2f, 0xfd] then frame
      else let descriptor = frame ! 4;
               dictionary_id_flag = descriptor AND 3;
               frame_content_size_flag = drop_bit 6 descriptor
           in if dictionary_id_flag \<noteq> 0 \<or> frame_content_size_flag \<noteq> 0 \<or> descriptor AND 32 \<noteq> 0 then frame
              else let (fl, size_bytes) =
                     (if content_size \<le> 255 then (0 :: u8, [of_nat content_size])
                      else if content_size \<le> 65791 then (1, to_le 2 (of_nat (content_size - 256) :: 16 word))
                      else if content_size < 2 ^ 32 then (2, to_le 4 (of_nat content_size :: u32))
                      else (3, to_le 8 (of_nat content_size :: u64)))
                   in take 4 frame @ [push_bit 6 fl OR 32 OR (descriptor AND 4)] @ size_bytes @ drop 6 frame)"

definition lz4_compress :: "Encoders \<Rightarrow> u8 list \<Rightarrow> u8 list" where
  "lz4_compress E payload = to_le 8 (of_nat (length payload) :: u64) @ lz4_block_compress E payload"

definition stored_data_payload :: "Encoders \<Rightarrow> JournalWriter \<Rightarrow> PayloadParts \<Rightarrow> StoredDataPayload" where
  "stored_data_payload E w payload =
     (if pp_len payload \<ge> compress_threshold w
      then let payload_bytes = (case as_single_slice payload of Some raw \<Rightarrow> raw | None \<Rightarrow> pp_to_vec payload)
           in case compression w of
             Zstd \<Rightarrow>
               (let compressed = zstd_frame_with_content_size (zstd_compress_to_vec E payload_bytes) (length payload_bytes)
                in if length compressed < length payload_bytes then Compressed compressed 4 else Uncompressed payload)
           | Xz \<Rightarrow>
               (if length payload_bytes \<ge> 80
                then (case xz_write E payload_bytes of
                        Some compressed \<Rightarrow>
                          (if length compressed < length payload_bytes then Compressed compressed 1 else Uncompressed payload)
                      | None \<Rightarrow> Uncompressed payload)
                else Uncompressed payload)
           | Lz4 \<Rightarrow>
               (if length payload_bytes \<ge> 9
                then (let compressed = lz4_compress E payload_bytes
                      in if length compressed < length payload_bytes then Compressed compressed 2 else Uncompressed payload)
                else Uncompressed payload)
           | NoCompression \<Rightarrow> Uncompressed payload
      else Uncompressed payload)"

text \<open>\<open>copy_to_data_object\<close>: the payload of a compact data object starts after its two tail fields;
  \<open>copy_from_slice\<close> panics where the lengths differ.\<close>

definition copy_to_data_object :: "StoredDataPayload \<Rightarrow> u64 \<Rightarrow> DataObject \<Rightarrow> unit w_op" where
  "copy_to_data_object p off data =
     (let prefix = (case data_payload data of RegularPayload _ \<Rightarrow> 64 | CompactPayload _ _ _ \<Rightarrow> 72);
          dst = raw_payload data
      in case p of
           Uncompressed payload \<Rightarrow>
             sbind (slift (copy_to_slice payload dst)) (\<lambda>bytes. smodify (write_bytes off prefix bytes))
         | Compressed payload _ \<Rightarrow>
             (if length payload \<noteq> length dst then sfail Panic else smodify (write_bytes off prefix payload)))"

section \<open>Opening a writer\<close>

definition validate_committed_arena :: "JournalFile \<Rightarrow> unit result" where
  "validate_committed_arena jf =
     validate_committed_arena_header (jf_header jf) (of_nat (length (jf_bytes jf))) (slice_at (jf_bytes jf))"

definition new_with_compression :: "JournalFile \<Rightarrow> u64 \<Rightarrow> u8 list \<Rightarrow> Compression \<Rightarrow> nat \<Rightarrow> JournalWriter result" where
  "new_with_compression jf seq boot cmpr thr =
     (let header = jf_header jf
      in if \<not> has_incompatible_flag header KeyedHash \<or> header_size header < 272 then Err UnsupportedJournalFile
         else rbind (validate_committed_arena jf) (\<lambda>_.
              rbind (validate_empty_entry_metadata header) (\<lambda>_.
              rbind (ok_or (tail_object_offset header) InvalidMagicNumber) (\<lambda>tail.
              rbind (object_header_ref jf tail) (\<lambda>tail_object.
              rbind (ok_or (checked_add tail (aligned_size tail_object)) ObjectExceedsFileBounds) (\<lambda>append_at.
                Ok \<lparr>poisoned = False, w_tail_object_offset = tail, append_offset = append_at, next_seqnum = seq,
                    num_written_objects = 0, w_entry_items = [], field_cache = [], first_entry_monotonic = None,
                    w_boot_id = boot, compression = cmpr,
                    compress_threshold = normalize_compress_threshold thr,
                    live_publish_every_entries = 1, entries_since_live_publication = 0\<rparr>))))))"

definition writer_new :: "JournalFile \<Rightarrow> u64 \<Rightarrow> u8 list \<Rightarrow> JournalWriter result" where
  "writer_new jf seq boot =
     (let header = jf_header jf;
          cmpr = (if has_incompatible_flag header CompressedZstd then Zstd
                  else if has_incompatible_flag header CompressedXz then Xz
                  else if has_incompatible_flag header CompressedLz4 then Lz4 else NoCompression)
      in new_with_compression jf seq boot cmpr 512)"

definition writer_create_successor :: "JournalWriter \<Rightarrow> JournalFile \<Rightarrow> JournalWriter result" where
  "writer_create_successor w jf =
     (if poisoned w then Err WriterPoisoned
      else new_with_compression jf (next_seqnum w) (w_boot_id w) (compression w) (compress_threshold w))"

section \<open>Field objects\<close>

definition set_poisoned :: "bool \<Rightarrow> unit w_op" where
  "set_poisoned b = smodify (update_writer (\<lambda>w. w\<lparr>poisoned := b\<rparr>))"

definition cache_field :: "u8 list \<Rightarrow> u64 \<Rightarrow> unit w_op" where
  "cache_field payload off = smodify (update_writer (\<lambda>w. w\<lparr>field_cache := field_cache_insert (field_cache w) payload off\<rparr>))"

definition write_field_object :: "u64 \<Rightarrow> u64 \<Rightarrow> u8 list \<Rightarrow> u64 w_op" where
  "write_field_object field_offset hash payload =
     sbind (field_mut field_offset (Some (of_nat (length payload)))) (\<lambda>fo.
     sbind (set_header_word hash_word field_offset hash) (\<lambda>_.
     sbind (if length payload \<noteq> length (field_payload fo) then sfail Panic
            else smodify (write_bytes field_offset 40 payload)) (\<lambda>_.
       sret (aligned_size (field_object_header fo)))))"

definition publish_new_field_object :: "u64 \<Rightarrow> u64 \<Rightarrow> unit w_op" where
  "publish_new_field_object hash field_offset =
     sbind (field_hash_table_set_tail_offset hash field_offset) (\<lambda>_.
     sbind (sget journal_file) (\<lambda>jf.
     sbind (slift (current_field_hash_chain_depth jf hash)) (\<lambda>depth.
       smodify (journal_header_mut (\<lambda>h. h\<lparr>field_hash_chain_depth := max (field_hash_chain_depth h) depth,
                                            n_fields := n_fields h + 1\<rparr>)))))"

definition add_field :: "'h SipHasher24 \<Rightarrow> u8 list \<Rightarrow> u64 w_op" where
  "add_field Sip payload =
     sbind (sget (\<lambda>s. field_cache_get (field_cache (writer s)) payload)) (\<lambda>cached.
       case cached of
         Some field_offset \<Rightarrow> sret field_offset
       | None \<Rightarrow>
           sbind (sget journal_file) (\<lambda>jf.
           sbind (slift (ok_or (jf_hash Sip jf payload) Panic)) (\<lambda>hash.
           sbind (slift (find_field_offset jf hash payload)) (\<lambda>found.
             case found of
               Some field_offset \<Rightarrow> sbind (cache_field payload field_offset) (\<lambda>_. sret field_offset)
             | None \<Rightarrow>
                 sbind (sget s_append_offset) (\<lambda>field_offset.
                 sbind (slift (ensure_compact_object_fits (is_compact jf) field_offset (40 + of_nat (length payload)))) (\<lambda>_.
                 sbind (write_field_object field_offset hash payload) (\<lambda>field_size.
                 sbind (object_added field_offset field_size) (\<lambda>_.
                 sbind (publish_new_field_object hash field_offset) (\<lambda>_.
                 sbind (cache_field payload field_offset) (\<lambda>_.
                   sret field_offset)))))))))) "

section \<open>Data objects\<close>

definition ensure_data_object_fits :: "JournalFile \<Rightarrow> u64 \<Rightarrow> u64 \<Rightarrow> unit result" where
  "ensure_data_object_fits jf data_offset payload_size =
     ensure_compact_object_fits (is_compact jf) data_offset (data_object_size (is_compact jf) payload_size)"

text \<open>The flags byte of an object header; the size word was written when the object was opened.\<close>

definition set_object_flags :: "u64 \<Rightarrow> u8 \<Rightarrow> unit w_op" where
  "set_object_flags off fl = smodify (write_bytes off 1 [fl])"

definition write_new_data_object :: "Encoders \<Rightarrow> PayloadParts \<Rightarrow> u64 \<Rightarrow> u64 w_op" where
  "write_new_data_object E payload hash =
     sbind (sget s_append_offset) (\<lambda>data_offset.
     sbind (sget (\<lambda>s. stored_data_payload E (writer s) payload)) (\<lambda>stored.
     sbind (sget journal_file) (\<lambda>jf.
     sbind (slift (ensure_data_object_fits jf data_offset (of_nat (stored_len stored)))) (\<lambda>_.
     sbind (set_poisoned True) (\<lambda>_.
     sbind (data_mut data_offset (Some (of_nat (stored_len stored)))) (\<lambda>data.
     sbind (set_header_word hash_word data_offset hash) (\<lambda>_.
     sbind (copy_to_data_object stored data_offset data) (\<lambda>_.
     sbind (set_object_flags data_offset (object_flags stored)) (\<lambda>_.
     sbind (object_added data_offset (aligned_size (data_object_header (data_header data)))) (\<lambda>_.
       sret data_offset))))))))))"

definition publish_new_data_object :: "u64 \<Rightarrow> u64 \<Rightarrow> unit w_op" where
  "publish_new_data_object data_offset hash =
     sbind (data_hash_table_set_tail_offset hash data_offset) (\<lambda>_.
     sbind (update_data_hash_chain_depth hash) (\<lambda>_.
       smodify (journal_header_mut (\<lambda>h. h\<lparr>n_data := n_data h + 1\<rparr>))))"

definition link_data_to_field :: "'h SipHasher24 \<Rightarrow> u64 \<Rightarrow> u8 list \<Rightarrow> unit w_op" where
  "link_data_to_field Sip data_offset name =
     sbind (add_field Sip name) (\<lambda>field_offset.
     sbind (sget journal_file) (\<lambda>jf.
     sbind (slift (field_ref jf field_offset)) (\<lambda>fo.
     sbind (data_mut data_offset None) (\<lambda>_.
     sbind (set_header_word next_field_word data_offset (map_or_0 (field_head_data fo))) (\<lambda>_.
     sbind (field_mut field_offset None) (\<lambda>_.
       set_header_word head_data_word field_offset data_offset))))))"

definition resolved_link_state_empty :: ResolvedDataLinkState where
  "resolved_link_state_empty = \<lparr>link_n_entries = None, link_entry_array_offset = None, compact_tail = None\<rparr>"

definition entry_item :: "u64 \<Rightarrow> u64 \<Rightarrow> ResolvedDataLinkState \<Rightarrow> EntryItem" where
  "entry_item off hash ls = \<lparr>item_offset = off, item_hash = hash, link_state = Some ls\<rparr>"

definition add_new_data :: "'h SipHasher24 \<Rightarrow> Encoders \<Rightarrow> PayloadParts \<Rightarrow> u8 list \<Rightarrow> u64 \<Rightarrow> EntryItem w_op" where
  "add_new_data Sip E payload name hash =
     sbind (write_new_data_object E payload hash) (\<lambda>data_offset.
     sbind (publish_new_data_object data_offset hash) (\<lambda>_.
     sbind (link_data_to_field Sip data_offset name) (\<lambda>_.
       sret (entry_item data_offset hash resolved_link_state_empty))))"

definition add_data :: "'h SipHasher24 \<Rightarrow> Encoders \<Rightarrow> Codecs \<Rightarrow> EntryField \<Rightarrow> EntryItem w_op" where
  "add_data Sip E C field =
     (let payload = payload_parts field
      in sbind (slift (ok_or (field_name field) InvalidField)) (\<lambda>name.
         sbind (sget journal_file) (\<lambda>jf.
         sbind (slift (ok_or (hash_parts Sip jf payload) Panic)) (\<lambda>hash.
         sbind (slift (find_data_with_link_state_parts C jf hash payload)) (\<lambda>found.
           case found of
             Some (data_offset, ls) \<Rightarrow> sret (entry_item data_offset hash ls)
           | None \<Rightarrow> add_new_data Sip E payload name hash)))))"

section \<open>The items of an entry\<close>

definition add_entry_field_item :: "'h SipHasher24 \<Rightarrow> Encoders \<Rightarrow> Codecs \<Rightarrow> EntryField \<Rightarrow> u64 w_op" where
  "add_entry_field_item Sip E C field =
     sbind (add_data Sip E C field) (\<lambda>item.
     sbind (smodify (update_writer (\<lambda>w. w\<lparr>w_entry_items := w_entry_items w @ [item]\<rparr>))) (\<lambda>_.
       slift (ok_or (jenkins_hash64_parts (pp_parts (payload_parts field))) Panic)))"

fun entry_items_are_sorted :: "EntryItem list \<Rightarrow> bool" where
  "entry_items_are_sorted (a # b # rest) \<longleftrightarrow> item_offset a \<le> item_offset b \<and> entry_items_are_sorted (b # rest)"
| "entry_items_are_sorted _ \<longleftrightarrow> True"

text \<open>
  \<open>dedup_by\<close> removes an item whose offset equals that of the item kept before it.  Sorting is by
  offset; items with equal offsets describe the same data object with the same link state, so that
  the order among them, which an unstable sort leaves open, makes no difference.
\<close>

fun dedup_items :: "EntryItem list \<Rightarrow> EntryItem list" where
  "dedup_items (a # b # rest) =
     (if item_offset a = item_offset b then dedup_items (a # rest) else a # dedup_items (b # rest))"
| "dedup_items its = its"

fun forget_repeated_states :: "EntryItem list \<Rightarrow> EntryItem list" where
  "forget_repeated_states (a # b # rest) =
     a # forget_repeated_states ((if item_offset a = item_offset b then b\<lparr>link_state := None\<rparr> else b) # rest)"
| "forget_repeated_states its = its"

definition finish_entry_items :: "bool \<Rightarrow> unit w_op" where
  "finish_entry_items trusted =
     sbind (sget (\<lambda>s. w_entry_items (writer s))) (\<lambda>its.
       if its = [] then sfail InvalidField
       else let sorted_items = (if entry_items_are_sorted its then its else sort_key item_offset its);
                final = (if \<not> trusted then dedup_items sorted_items else forget_repeated_states sorted_items)
            in smodify (update_writer (\<lambda>w. w\<lparr>w_entry_items := final\<rparr>)))"

fun prepare_fields ::
  "'h SipHasher24 \<Rightarrow> Encoders \<Rightarrow> Codecs \<Rightarrow> EntryWriteOptions \<Rightarrow> EntryField list \<Rightarrow> u64 \<Rightarrow> u64 w_op" where
  "prepare_fields Sip E C options [] xh = sret xh"
| "prepare_fields Sip E C options (field # fs) xh =
     sbind (slift (accept_entry_field field (field_name_policy options))) (\<lambda>accepted.
       if \<not> accepted then prepare_fields Sip E C options fs xh
       else sbind (add_entry_field_item Sip E C field) (\<lambda>h.
              prepare_fields Sip E C options fs (xh XOR h)))"

definition prepare_entry_items ::
  "'h SipHasher24 \<Rightarrow> Encoders \<Rightarrow> Codecs \<Rightarrow> EntryWriteOptions \<Rightarrow> EntryField list \<Rightarrow> u64 w_op" where
  "prepare_entry_items Sip E C options fs =
     sbind (smodify (update_writer (\<lambda>w. w\<lparr>w_entry_items := []\<rparr>))) (\<lambda>_.
     sbind (prepare_fields Sip E C options fs 0) (\<lambda>xh.
     sbind (finish_entry_items (trusted_unique_payloads options)) (\<lambda>_.
       sret xh)))"

section \<open>Entries\<close>

fun set_entry_items :: "bool \<Rightarrow> u64 \<Rightarrow> EntryItemsType \<Rightarrow> nat \<Rightarrow> EntryItem list \<Rightarrow> unit w_op" where
  "set_entry_items compact off its index [] = sret ()"
| "set_entry_items compact off its index (item # rest) =
     sbind (slift (ensure_compact_offset compact (item_offset item))) (\<lambda>_.
     sbind (entry_items_set off its index (item_offset item) (if compact then None else Some (item_hash item))) (\<lambda>_.
       set_entry_items compact off its (Suc index) rest))"

definition write_entry_object :: "u64 \<Rightarrow> u8 list \<Rightarrow> u64 \<Rightarrow> u64 \<Rightarrow> u64 \<Rightarrow> u64 w_op" where
  "write_entry_object entry_seqnum entry_boot_id rt mt xh =
     sbind (sget s_append_offset) (\<lambda>entry_offset.
     sbind (sget s_compact) (\<lambda>compact.
     sbind (sget (\<lambda>s. w_entry_items (writer s))) (\<lambda>its.
     let entry_payload_size = of_nat (length its) * entry_item_size compact
     in sbind (slift (ensure_compact_object_fits compact entry_offset (64 + entry_payload_size))) (\<lambda>_.
        sbind (set_poisoned True) (\<lambda>_.
        sbind (entry_mut entry_offset (Some entry_payload_size)) (\<lambda>entry.
        sbind (set_header_word 16 entry_offset entry_seqnum) (\<lambda>_.
        sbind (set_header_word 56 entry_offset xh) (\<lambda>_.
        sbind (smodify (write_bytes entry_offset 40 entry_boot_id)) (\<lambda>_.
        sbind (set_header_word 32 entry_offset mt) (\<lambda>_.
        sbind (set_header_word 24 entry_offset rt) (\<lambda>_.
        sbind (set_entry_items compact entry_offset (entry_items entry) 0 its) (\<lambda>_.
        sbind (object_added entry_offset (aligned_size (entry_object_header (entry_header entry)))) (\<lambda>_.
          sret entry_offset)))))))))))))"

fun link_items :: "u64 \<Rightarrow> EntryItem list \<Rightarrow> unit w_op" where
  "link_items entry_offset [] = sret ()"
| "link_items entry_offset (item # rest) =
     sbind (link_data_to_entry entry_offset item) (\<lambda>_. link_items entry_offset rest)"

definition publish_entry_links :: "u64 \<Rightarrow> unit w_op" where
  "publish_entry_links entry_offset =
     sbind (append_to_entry_array entry_offset) (\<lambda>_.
     sbind (sget (\<lambda>s. w_entry_items (writer s))) (\<lambda>its. link_items entry_offset its))"

definition entry_added_header ::
  "JournalWriter \<Rightarrow> u64 \<Rightarrow> u64 \<Rightarrow> u8 list \<Rightarrow> u64 \<Rightarrow> u64 \<Rightarrow> JournalHeader \<Rightarrow> JournalHeader" where
  "entry_added_header w entry_offset entry_seqnum entry_boot_id rt mt h =
     h\<lparr>n_objects := n_objects h + num_written_objects w,
       tail_object_offset := Some (w_tail_object_offset w),
       head_entry_seqnum := (if head_entry_seqnum h = 0 then entry_seqnum else head_entry_seqnum h),
       head_entry_realtime := (if head_entry_realtime h = 0 then rt else head_entry_realtime h),
       tail_entry_seqnum := entry_seqnum, tail_entry_realtime := rt, tail_entry_monotonic := mt,
       tail_entry_boot_id := entry_boot_id, tail_entry_offset := entry_offset, n_entries := n_entries h + 1\<rparr>"

definition entry_added :: "u64 \<Rightarrow> u64 \<Rightarrow> u8 list \<Rightarrow> u64 \<Rightarrow> u64 \<Rightarrow> unit w_op" where
  "entry_added entry_offset entry_seqnum entry_boot_id rt mt =
     sbind (sget writer) (\<lambda>w.
     sbind (smodify (journal_header_mut (entry_added_header w entry_offset entry_seqnum entry_boot_id rt mt))) (\<lambda>_.
       smodify (update_writer (\<lambda>w. w\<lparr>
         first_entry_monotonic := (if first_entry_monotonic w = None then Some mt else first_entry_monotonic w),
         next_seqnum := entry_seqnum + 1, num_written_objects := 0\<rparr>))))"

definition publish_after_entry :: "unit w_op" where
  "publish_after_entry =
     sbind (sget writer) (\<lambda>w.
       if live_publish_every_entries w = 0 then sret ()
       else if live_publish_every_entries w = 1 then journal_post_change
       else let n = entries_since_live_publication w + 1
            in if n \<ge> live_publish_every_entries w
               then sbind (smodify (update_writer (\<lambda>w. w\<lparr>entries_since_live_publication := 0\<rparr>))) (\<lambda>_. journal_post_change)
               else smodify (update_writer (\<lambda>w. w\<lparr>entries_since_live_publication := n\<rparr>)))"

definition ensure_keyed_append :: "JournalFile \<Rightarrow> unit result" where
  "ensure_keyed_append jf =
     (if has_incompatible_flag (jf_header jf) KeyedHash then Ok () else Err UnsupportedJournalFile)"

definition entry_seqnum_for_options :: "JournalWriter \<Rightarrow> EntryWriteOptions \<Rightarrow> u64 result" where
  "entry_seqnum_for_options w options =
     (let entry_seqnum = (case opt_seqnum options of Some n \<Rightarrow> n | None \<Rightarrow> next_seqnum w)
      in if entry_seqnum = 0 \<or> entry_seqnum = u64_max \<or> entry_seqnum < next_seqnum w then Err InvalidField
         else Ok entry_seqnum)"

definition clamp_same_boot_monotonic :: "JournalHeader \<Rightarrow> u8 list \<Rightarrow> u64 \<Rightarrow> u64 result" where
  "clamp_same_boot_monotonic header entry_boot_id mt =
     (if n_entries header = 0 \<or> tail_entry_boot_id header \<noteq> entry_boot_id \<or> mt > tail_entry_monotonic header
      then Ok mt
      else ok_or (checked_add (tail_entry_monotonic header) 1) InvalidField)"

definition add_entry_fields_with_options ::
  "'h SipHasher24 \<Rightarrow> Encoders \<Rightarrow> Codecs \<Rightarrow> EntryField list \<Rightarrow> u64 \<Rightarrow> u64 \<Rightarrow> EntryWriteOptions \<Rightarrow> unit w_op" where
  "add_entry_fields_with_options Sip E C fs rt mt options =
     sbind (sget writer) (\<lambda>w.
       if poisoned w then sfail WriterPoisoned
       else sbind (sget journal_file) (\<lambda>jf.
            sbind (slift (ensure_keyed_append jf)) (\<lambda>_.
            sbind (slift (entry_seqnum_for_options w options)) (\<lambda>entry_seqnum.
            let entry_boot_id = (case opt_boot_id options of Some b \<Rightarrow> b | None \<Rightarrow> w_boot_id w)
            in sbind (slift (clamp_same_boot_monotonic (jf_header jf) entry_boot_id mt)) (\<lambda>mt1.
               sbind (prepare_entry_items Sip E C options fs) (\<lambda>xh.
               sbind (write_entry_object entry_seqnum entry_boot_id rt mt1 xh) (\<lambda>entry_offset.
               sbind (publish_entry_links entry_offset) (\<lambda>_.
               sbind (entry_added entry_offset entry_seqnum entry_boot_id rt mt1) (\<lambda>_.
               sbind publish_after_entry (\<lambda>_.
                 set_poisoned False))))))))))"

definition add_entry_fields :: "'h SipHasher24 \<Rightarrow> Encoders \<Rightarrow> Codecs \<Rightarrow> EntryField list \<Rightarrow> u64 \<Rightarrow> u64 \<Rightarrow> unit w_op" where
  "add_entry_fields Sip E C fs rt mt =
     add_entry_fields_with_options Sip E C fs rt mt entry_write_options_default"

definition add_entry :: "'h SipHasher24 \<Rightarrow> Encoders \<Rightarrow> Codecs \<Rightarrow> u8 list list \<Rightarrow> u64 \<Rightarrow> u64 \<Rightarrow> unit w_op" where
  "add_entry Sip E C payloads rt mt =
     add_entry_fields_with_options Sip E C (map RawField payloads) rt mt entry_write_options_default"

definition add_entry_structured_with_options ::
  "'h SipHasher24 \<Rightarrow> Encoders \<Rightarrow> Codecs \<Rightarrow> StructuredField list \<Rightarrow> u64 \<Rightarrow> u64 \<Rightarrow> EntryWriteOptions \<Rightarrow> unit w_op" where
  "add_entry_structured_with_options Sip E C fs rt mt options =
     add_entry_fields_with_options Sip E C (map Structured fs) rt mt options"

definition add_entry_structured ::
  "'h SipHasher24 \<Rightarrow> Encoders \<Rightarrow> Codecs \<Rightarrow> StructuredField list \<Rightarrow> u64 \<Rightarrow> u64 \<Rightarrow> unit w_op" where
  "add_entry_structured Sip E C fs rt mt =
     add_entry_fields_with_options Sip E C (map Structured fs) rt mt entry_write_options_default"

definition set_live_publish_every_entries :: "u64 \<Rightarrow> unit w_op" where
  "set_live_publish_every_entries entries =
     smodify (update_writer (\<lambda>w. w\<lparr>live_publish_every_entries := entries, entries_since_live_publication := 0\<rparr>))"

definition current_file_size :: "JournalWriter \<Rightarrow> u64" where
  "current_file_size w = append_offset w"

section \<open>What every operation keeps\<close>

text \<open>
  \<open>keeps P m\<close>: the operation \<open>m\<close> keeps the property \<open>P\<close> of the state, whether it succeeds or fails.  The
  locale collects the elementary updates the writer makes between its first and its last step; a
  property kept by each of them is kept by all operations composed of them.
\<close>

definition keeps :: "('s \<Rightarrow> bool) \<Rightarrow> ('s, 'a) op \<Rightarrow> bool" where
  "keeps P m \<longleftrightarrow> (\<forall>s. P s \<longrightarrow> P (snd (m s)))"

named_theorems keeps_intros \<open>operations that keep a property\<close>

lemma keeps_basic [keeps_intros]:
  "keeps P (sret x)" "keeps P (sfail e)" "keeps P (slift r)" "keeps P (sget f)"
  by (simp_all add: keeps_def op_run)

lemma keeps_sbind [keeps_intros]: "keeps P m \<Longrightarrow> (\<And>x. keeps P (k x)) \<Longrightarrow> keeps P (sbind m k)"
  by (fastforce simp: keeps_def sbind_def split: prod.split sum.split)

lemma keeps_smodify: "(\<And>s. P s \<Longrightarrow> P (f s)) \<Longrightarrow> keeps P (smodify f)"
  by (simp add: keeps_def op_run)

lemma keeps_if [keeps_intros]: "keeps P m \<Longrightarrow> keeps P n \<Longrightarrow> keeps P (if b then m else n)"
  by simp

lemma keeps_option [keeps_intros]: "keeps P m \<Longrightarrow> (\<And>x. keeps P (k x)) \<Longrightarrow> keeps P (case y of None \<Rightarrow> m | Some x \<Rightarrow> k x)"
  by (cases y) simp_all

lemma keeps_prod [keeps_intros]: "(\<And>x y. keeps P (k x y)) \<Longrightarrow> keeps P (case p of (x, y) \<Rightarrow> k x y)"
  by (cases p) simp

lemma keeps_sattempt [keeps_intros]: "keeps P m \<Longrightarrow> keeps P (sattempt m)"
  by (fastforce simp: keeps_def sattempt_def split: prod.split sum.split)

lemma keepsD: "keeps P m \<Longrightarrow> P s \<Longrightarrow> m s = (r, t) \<Longrightarrow> P t"
  by (metis keeps_def snd_conv)

locale writer_frame =
  fixes P :: "WriterState \<Rightarrow> bool"
  assumes bytes: "P s \<Longrightarrow> P (set_bytes bs s)"
    and data_map: "P s \<Longrightarrow> P (s\<lparr>journal_file := (journal_file s)\<lparr>data_hash_table_map := m\<rparr>\<rparr>)"
    and field_map: "P s \<Longrightarrow> P (s\<lparr>journal_file := (journal_file s)\<lparr>field_hash_table_map := m\<rparr>\<rparr>)"
    and arena: "P s \<Longrightarrow> P (journal_header_mut (\<lambda>h. h\<lparr>arena_size := f h\<rparr>) s)"
    and arrays: "P s \<Longrightarrow> P (journal_header_mut (\<lambda>h. h\<lparr>n_entry_arrays := g h\<rparr>) s)"
    and head_array: "P s \<Longrightarrow> P (journal_header_mut (\<lambda>h. h\<lparr>entry_array_offset := x\<rparr>) s)"
    and tail_array: "P s \<Longrightarrow> P (journal_header_mut (\<lambda>h. h\<lparr>tail_entry_array_offset := y, tail_entry_array_n_entries := z\<rparr>) s)"
    and data_depth: "P s \<Longrightarrow> P (journal_header_mut (\<lambda>h. h\<lparr>data_hash_chain_depth := f h\<rparr>) s)"
    and data_count: "P s \<Longrightarrow> P (journal_header_mut (\<lambda>h. h\<lparr>n_data := f h\<rparr>) s)"
    and field_counts: "P s \<Longrightarrow> P (journal_header_mut (\<lambda>h. h\<lparr>field_hash_chain_depth := f h, n_fields := g h\<rparr>) s)"
    and tail_object: "P s \<Longrightarrow> P (update_writer (\<lambda>w. w\<lparr>w_tail_object_offset := a\<rparr>) s)"
    and append_at: "P s \<Longrightarrow> P (update_writer (\<lambda>w. w\<lparr>append_offset := a, num_written_objects := k w\<rparr>) s)"
    and items: "P s \<Longrightarrow> P (update_writer (\<lambda>w. w\<lparr>w_entry_items := i w\<rparr>) s)"
    and cache: "P s \<Longrightarrow> P (update_writer (\<lambda>w. w\<lparr>field_cache := c w\<rparr>) s)"
    and poison: "P s \<Longrightarrow> P (update_writer (\<lambda>w. w\<lparr>poisoned := True\<rparr>) s)"
begin

lemma keeps_write: "P s \<Longrightarrow> P (write_bytes off rel data s)"
  by (simp add: write_bytes_def bytes)

lemma keeps_elementary [keeps_intros]:
  "keeps P (smodify (write_bytes off rel data))" "keeps P (set_header_word rel off v)" "keeps P (set_next_offset_array off v)"
  "keeps P (smodify (write_data_table rel data))" "keeps P (smodify (write_field_table rel data))"
  "keeps P (set_poisoned True)" "keeps P (cache_field payload off)" "keeps P (set_object_flags off fl)"
  "keeps P (set_tail_cache off n)"
  by (auto simp: set_header_word_def set_next_offset_array_def set_poisoned_def cache_field_def set_object_flags_def
      set_tail_cache_def write_data_table_def write_field_table_def keeps_write data_map field_map poison cache tail_array
      intro!: keeps_smodify split: option.split)

lemma keeps_get_slice_mut [keeps_intros]: "keeps P (get_slice_mut pos sz)" "keeps P (get_slice_owned pos sz)"
proof -
  have m: "keeps P (map_window pos sz)" by (auto simp: keeps_def map_window_def Let_def bytes)
  show "keeps P (get_slice_mut pos sz)" "keeps P (get_slice_owned pos sz)"
    unfolding get_slice_mut_def get_slice_owned_def by (intro keeps_intros m)+
qed

lemma keeps_object_mut [keeps_intros]: "keeps P (journal_object_mut T from_data off sz)"
  unfolding journal_object_mut_def mutable_object_context_def mutable_object_size_def
    initialize_mutable_object_header_def existing_mutable_object_size_def Let_def
  by (intro keeps_intros)

lemma keeps_object_mut_run: "P s \<Longrightarrow> P (snd (journal_object_mut T from_data off sz s))"
  using keeps_object_mut [of T from_data off sz] by (simp add: keeps_def)

lemma keeps_views [keeps_intros]:
  "keeps P (offset_array_mut off cap)" "keeps P (data_mut off n)" "keeps P (field_mut off n)" "keeps P (entry_mut off n)"
  by (simp_all add: keeps_def offset_array_mut_def data_mut_def field_mut_def entry_mut_def keeps_object_mut_run)

lemma keeps_array_set [keeps_intros]: "keeps P (array_guard_set off arr i v)"
  unfolding array_guard_set_def by (cases "OffsetArrayObject.items arr") (auto intro!: keeps_intros)

lemma keeps_allocate [keeps_intros]: "keeps P (object_added off n)" "keeps P (allocate_new_array cap)"
proof -
  show added: "keeps P (object_added off n)" for off n
    unfolding object_added_def by (intro keeps_intros keeps_smodify arena tail_object append_at)
  show "keeps P (allocate_new_array cap)"
    unfolding allocate_new_array_def by (intro keeps_intros added keeps_smodify arrays)
qed

lemma keeps_chains [keeps_intros]:
  "keeps P (grow_chain a n m v)" "keeps P (append_to_entry_array v)" "keeps P (append_to_data_entry_array a v n)"
  "keeps P (append_to_data_entry_array_tail a m v n)"
proof -
  show grow: "keeps P (grow_chain a n m v)" for a n m v unfolding grow_chain_def by (intro keeps_intros)
  show "keeps P (append_to_entry_array v)"
    unfolding append_to_entry_array_def append_first_entry_array_def append_to_entry_array_tail_def
      grow_entry_array_tail_def Let_def
    by (intro keeps_intros grow keeps_smodify head_array)
  show "keeps P (append_to_data_entry_array a v n)"
    unfolding append_to_data_entry_array_def Let_def by (intro keeps_intros grow)
  show "keeps P (append_to_data_entry_array_tail a m v n)"
    unfolding append_to_data_entry_array_tail_def grow_data_entry_array_tail_def Let_def by (intro keeps_intros grow)
qed

lemma keeps_link_data [keeps_intros]: "keeps P (link_data_to_entry off item)"
proof -
  have tail: "keeps P (set_compact_data_tail a data b n)" for a data b n
    unfolding set_compact_data_tail_def by (cases "data_payload data") (auto intro!: keeps_intros)
  have link: "keeps P (append_data_entry_array_link_tail a v n b r)" for a v n b r
    unfolding append_data_entry_array_link_tail_def by (cases b) (auto intro!: keeps_intros split: option.split)
  show ?thesis
    unfolding link_data_to_entry_def link_data_to_entry_with_state_def link_data_to_entry_from_disk_def
      link_data_first_entry_def promote_data_entry_array_def append_data_entry_array_link_def
    by (intro keeps_intros tail link)
qed

lemma keeps_hash_tables [keeps_intros]:
  "keeps P (data_hash_table_set_tail_offset hash off)" "keeps P (field_hash_table_set_tail_offset hash off)"
  unfolding data_hash_table_set_tail_offset_def field_hash_table_set_tail_offset_def hash_table_set_tail_offset_def Let_def
  by (intro keeps_intros)+

lemma keeps_add_field [keeps_intros]: "keeps P (add_field Sip payload)"
  unfolding add_field_def write_field_object_def publish_new_field_object_def
  by (intro keeps_intros keeps_smodify field_counts)

lemma keeps_add_data [keeps_intros]: "keeps P (add_data Sip E C field)"
proof -
  have copy: "keeps P (copy_to_data_object p off data)" for p off data
    unfolding copy_to_data_object_def Let_def by (cases p) (auto intro!: keeps_intros)
  show ?thesis
    unfolding add_data_def add_new_data_def write_new_data_object_def publish_new_data_object_def link_data_to_field_def
      update_data_hash_chain_depth_def Let_def
    by (intro keeps_intros copy keeps_smodify data_depth data_count)
qed

lemma keeps_prepare_fields: "keeps P (prepare_fields Sip E C options fs xh)"
  by (induction fs arbitrary: xh)
    (auto intro!: keeps_intros keeps_smodify items simp: add_entry_field_item_def)

lemma keeps_prepare_entry_items: "keeps P (prepare_entry_items Sip E C options fs)"
  unfolding prepare_entry_items_def finish_entry_items_def Let_def
  by (intro keeps_intros keeps_prepare_fields keeps_smodify items)

lemma keeps_entry_items_set: "keeps P (entry_items_set off its i v h)"
  unfolding entry_items_set_def by (cases its) (auto intro!: keeps_intros split: option.split)

lemma keeps_set_entry_items: "keeps P (set_entry_items c off its i l)"
  by (induction l arbitrary: i) (auto intro!: keeps_intros keeps_entry_items_set)

lemma keeps_write_entry_object: "keeps P (write_entry_object seq boot rt mt xh)"
  unfolding write_entry_object_def Let_def by (intro keeps_intros keeps_set_entry_items)

lemma keeps_publish_entry_links: "keeps P (publish_entry_links off)"
proof -
  have "keeps P (link_items off l)" for l by (induction l) (auto intro!: keeps_intros)
  then show ?thesis unfolding publish_entry_links_def by (intro keeps_intros)
qed

end

section \<open>Failing stops the writer\<close>

interpretation poison: writer_frame "\<lambda>s. poisoned (writer s)"
  by unfold_locales (simp_all add: set_bytes_def journal_header_mut_def update_writer_def)

text \<open>\<open>clean_or_poisoned s0\<close>: the file and the next sequence number are still those of \<open>s0\<close>, or the
  writer is marked as poisoned.\<close>

definition clean_or_poisoned :: "WriterState \<Rightarrow> WriterState \<Rightarrow> bool" where
  "clean_or_poisoned s0 t \<longleftrightarrow>
     journal_file t = journal_file s0 \<and> next_seqnum (writer t) = next_seqnum (writer s0) \<or> poisoned (writer t)"

definition ensures_poison :: "'a w_op \<Rightarrow> bool" where
  "ensures_poison m \<longleftrightarrow> (\<forall>s x t. m s = (Inr x, t) \<longrightarrow> poisoned (writer t))"

lemma ensures_poison_tail: "(\<And>x. ensures_poison (k x)) \<Longrightarrow> ensures_poison (sbind m k)"
  by (auto simp: ensures_poison_def sbind_def split: prod.splits sum.splits)

lemma ensures_poison_head:
  assumes "\<And>x. keeps (\<lambda>s. poisoned (writer s)) (k x)"
  shows "ensures_poison (sbind (set_poisoned True) k)"
  unfolding ensures_poison_def
proof (intro allI impI)
  fix s x t assume "sbind (set_poisoned True) k s = (Inr x, t)"
  then have "k () (update_writer (\<lambda>w. w\<lparr>poisoned := True\<rparr>) s) = (Inr x, t)"
    by (simp add: sbind_def set_poisoned_def op_run)
  from keepsD [OF assms _ this] show "poisoned (writer t)" by (simp add: update_writer_def)
qed

lemma clean_bind:
  assumes "keeps (clean_or_poisoned s0) m" and "ensures_poison m" and "\<And>x. keeps (\<lambda>s. poisoned (writer s)) (k x)"
  shows "keeps (clean_or_poisoned s0) (sbind m k)"
  unfolding keeps_def
proof (intro allI impI)
  fix s assume s: "clean_or_poisoned s0 s"
  show "clean_or_poisoned s0 (snd (sbind m k s))"
  proof (cases "m s")
    case (Pair r t)
    show ?thesis
    proof (cases r)
      case (Inl e)
      then show ?thesis using keepsD [OF assms(1) s Pair] Pair by (simp add: sbind_def)
    next
      case (Inr x)
      then have "poisoned (writer t)" using assms(2) Pair by (auto simp: ensures_poison_def)
      with assms(3) [of x] have "poisoned (writer (snd (k x t)))" by (simp add: keeps_def)
      then show ?thesis using Pair Inr by (simp add: sbind_def clean_or_poisoned_def)
    qed
  qed
qed

lemma clean_set_poisoned:
  assumes "\<And>x. keeps (\<lambda>s. poisoned (writer s)) (k x)"
  shows "keeps (clean_or_poisoned s0) (sbind (set_poisoned True) k)"
  by (rule clean_bind [OF _ _ assms])
    (auto simp: keeps_def ensures_poison_def clean_or_poisoned_def set_poisoned_def update_writer_def op_run)

lemma clean_update_items: "keeps (clean_or_poisoned s0) (smodify (update_writer (\<lambda>w. w\<lparr>w_entry_items := i w\<rparr>)))"
  by (auto simp: keeps_def clean_or_poisoned_def update_writer_def op_run)

lemma copy_keeps_poison: "keeps (\<lambda>s. poisoned (writer s)) (copy_to_data_object p off data)"
  unfolding copy_to_data_object_def Let_def by (cases p) (auto intro!: keeps_intros poison.keeps_elementary)

lemma write_new_data_object_clean:
  "keeps (clean_or_poisoned s0) (write_new_data_object E payload hash)" "ensures_poison (write_new_data_object E payload hash)"
proof -
  have body: "keeps (\<lambda>s. poisoned (writer s)) (sbind (data_mut off n) (\<lambda>data.
      sbind (set_header_word rel off hash) (\<lambda>_. sbind (copy_to_data_object p off data) (\<lambda>_.
      sbind (set_object_flags off fl) (\<lambda>_.
      sbind (object_added off (aligned_size (data_object_header (data_header data)))) (\<lambda>_. sret off))))))" for off n rel p fl
    by (intro keeps_intros copy_keeps_poison poison.keeps_views poison.keeps_elementary poison.keeps_allocate)
  show "keeps (clean_or_poisoned s0) (write_new_data_object E payload hash)"
    unfolding write_new_data_object_def by (intro keeps_intros clean_set_poisoned body)
  show "ensures_poison (write_new_data_object E payload hash)"
    unfolding write_new_data_object_def by (intro ensures_poison_tail [of _ "sget _"] ensures_poison_tail [of _ "slift _"] ensures_poison_head body)
qed

lemma add_data_clean: "keeps (clean_or_poisoned s0) (add_data Sip E C field)"
proof -
  have body: "keeps (\<lambda>s. poisoned (writer s)) (sbind (publish_new_data_object off hash) (\<lambda>_.
      sbind (link_data_to_field Sip off name) (\<lambda>_. sret (entry_item off hash ls))))" for off hash name ls
    unfolding publish_new_data_object_def link_data_to_field_def update_data_hash_chain_depth_def
    by (intro keeps_intros poison.keeps_views poison.keeps_elementary poison.keeps_hash_tables poison.keeps_add_field
        keeps_smodify poison.data_depth poison.data_count)
  show ?thesis
    unfolding add_data_def add_new_data_def Let_def
    by (intro keeps_intros clean_bind [OF write_new_data_object_clean] body)
qed

lemma prepare_entry_items_clean: "keeps (clean_or_poisoned s0) (prepare_entry_items Sip E C options fs)"
proof -
  have "keeps (clean_or_poisoned s0) (prepare_fields Sip E C options fs xh)" for xh
    by (induction fs arbitrary: xh)
      (auto intro!: keeps_intros add_data_clean clean_update_items simp: add_entry_field_item_def)
  then show ?thesis
    unfolding prepare_entry_items_def finish_entry_items_def Let_def by (intro keeps_intros clean_update_items)
qed

lemma write_entry_object_clean:
  "keeps (clean_or_poisoned s0) (write_entry_object seq boot rt mt xh)" "ensures_poison (write_entry_object seq boot rt mt xh)"
proof -
  have body: "keeps (\<lambda>s. poisoned (writer s)) (sbind (entry_mut off n) (\<lambda>entry.
        sbind (set_header_word 16 off seq) (\<lambda>_. sbind (set_header_word 56 off xh) (\<lambda>_.
        sbind (smodify (write_bytes off 40 boot)) (\<lambda>_. sbind (set_header_word 32 off mt) (\<lambda>_.
        sbind (set_header_word 24 off rt) (\<lambda>_.
        sbind (set_entry_items c off (entry_items entry) 0 l) (\<lambda>_.
        sbind (object_added off (aligned_size (entry_object_header (entry_header entry)))) (\<lambda>_. sret off)))))))))" for off n c l
    by (intro keeps_intros poison.keeps_set_entry_items poison.keeps_views poison.keeps_elementary poison.keeps_allocate)
  show "keeps (clean_or_poisoned s0) (write_entry_object seq boot rt mt xh)"
    unfolding write_entry_object_def Let_def by (intro keeps_intros clean_set_poisoned body)
  show "ensures_poison (write_entry_object seq boot rt mt xh)"
    unfolding write_entry_object_def Let_def
    by (intro ensures_poison_tail [of _ "sget _"] ensures_poison_tail [of _ "slift _"] ensures_poison_head body)
qed

lemma publish_keeps_poison:
  "keeps (\<lambda>s. poisoned (writer s)) journal_post_change" "keeps (\<lambda>s. poisoned (writer s)) publish_after_entry"
  "keeps (\<lambda>s. poisoned (writer s)) (entry_added off seq boot rt mt)"
proof -
  have len: "keeps (\<lambda>s. poisoned (writer s)) (set_file_len n)" for n
    by (simp add: keeps_def set_file_len_def set_bytes_def)
  have upd: "keeps (\<lambda>s. poisoned (writer s)) (smodify (update_writer f))" if "\<And>w. poisoned (f w) = poisoned w" for f
    using that by (simp add: keeps_def op_run update_writer_def)
  show post: "keeps (\<lambda>s. poisoned (writer s)) journal_post_change"
    unfolding journal_post_change_def by (intro keeps_intros len keeps_smodify) simp
  show "keeps (\<lambda>s. poisoned (writer s)) publish_after_entry"
    unfolding publish_after_entry_def Let_def by (intro keeps_intros post upd) simp_all
  show "keeps (\<lambda>s. poisoned (writer s)) (entry_added off seq boot rt mt)"
    unfolding entry_added_def by (intro keeps_intros upd keeps_smodify) (simp_all add: journal_header_mut_def)
qed

text \<open>The steps of an append after its checks.\<close>

definition append_steps ::
  "'h SipHasher24 \<Rightarrow> Encoders \<Rightarrow> Codecs \<Rightarrow> EntryWriteOptions \<Rightarrow> EntryField list \<Rightarrow> u64 \<Rightarrow> u8 list \<Rightarrow> u64 \<Rightarrow> u64 \<Rightarrow> unit w_op" where
  "append_steps Sip E C options fs seq boot rt mt =
     sbind (prepare_entry_items Sip E C options fs) (\<lambda>xh.
     sbind (write_entry_object seq boot rt mt xh) (\<lambda>entry_offset.
     sbind (publish_entry_links entry_offset) (\<lambda>_.
     sbind (entry_added entry_offset seq boot rt mt) (\<lambda>_. publish_after_entry))))"

lemma append_steps_clean: "keeps (clean_or_poisoned s0) (append_steps Sip E C options fs seq boot rt mt)"
  unfolding append_steps_def
  by (intro keeps_sbind prepare_entry_items_clean clean_bind [OF write_entry_object_clean]
      poison.keeps_publish_entry_links publish_keeps_poison)

lemma sbind_assoc: "sbind (sbind m f) g = sbind m (\<lambda>x. sbind (f x) g)"
  by (auto simp: sbind_def fun_eq_iff split: prod.split sum.split)

lemma add_entry_split:
  assumes "\<not> poisoned (writer s)"
  shows "add_entry_fields_with_options Sip E C fs rt mt options s = (let jf = journal_file s; w = writer s in
    case rbind (ensure_keyed_append jf) (\<lambda>_. rbind (entry_seqnum_for_options w options) (\<lambda>seq.
        rbind (clamp_same_boot_monotonic (jf_header jf) (case opt_boot_id options of Some b \<Rightarrow> b | None \<Rightarrow> w_boot_id w) mt) (\<lambda>mt1.
          Ok (seq, mt1)))) of
      Inl e \<Rightarrow> (Err e, s)
    | Inr (seq, mt1) \<Rightarrow>
        sbind (append_steps Sip E C options fs seq (case opt_boot_id options of Some b \<Rightarrow> b | None \<Rightarrow> w_boot_id w) rt mt1)
          (\<lambda>_. set_poisoned False) s)"
  using assms
  by (simp add: add_entry_fields_with_options_def append_steps_def sbind_assoc sbind_def op_run Let_def rbind_def
      split: sum.split)

lemma add_entry_poisoned:
  "poisoned (writer s) \<Longrightarrow> add_entry_fields_with_options Sip E C fs rt mt options s = (Err WriterPoisoned, s)"
  by (simp add: add_entry_fields_with_options_def sbind_def op_run)

lemma add_entry_failure:
  assumes "\<not> poisoned (writer s)" and "add_entry_fields_with_options Sip E C fs rt mt options s = (Inl e, t)"
  shows "clean_or_poisoned s t"
proof -
  have "clean_or_poisoned s u" if "append_steps Sip E C options fs seq boot rt mt1 s = (q, u)" for seq boot mt1 q u
    by (rule keepsD [OF append_steps_clean _ that]) (simp add: clean_or_poisoned_def)
  moreover have "clean_or_poisoned s s" by (simp add: clean_or_poisoned_def)
  ultimately show ?thesis using assms
    by (auto simp: add_entry_split Let_def sbind_def set_poisoned_def op_run split: sum.splits prod.splits)
qed

lemma add_entry_unpoisoned:
  assumes "add_entry_fields_with_options Sip E C fs rt mt options s = (Inr x, t)"
  shows "\<not> poisoned (writer s)" "\<not> poisoned (writer t)"
proof -
  show np: "\<not> poisoned (writer s)" using add_entry_poisoned [of s Sip E C fs rt mt options] assms by auto
  show "\<not> poisoned (writer t)"
    using assms np by (auto simp: add_entry_split Let_def sbind_def set_poisoned_def update_writer_def op_run
        split: sum.splits prod.splits)
qed

text \<open>
  C3. A failed append stops the writer.  Appending an entry (\<open>add_entry_fields_with_options\<close>) with a poisoned
  writer is refused and changes nothing.  With a writer that is not poisoned, an append that fails for any
  reason either has left the file and the next sequence number as they were or has left the writer poisoned;
  an append that succeeds leaves the writer unpoisoned.
\<close>

theorem add_entry_fail_stop:
  "let r = add_entry_fields_with_options Sip E C fs rt mt options s in
    if poisoned (writer s) then r = (Err WriterPoisoned, s)
    else (case r of
            (Inl e, t) \<Rightarrow> journal_file t = journal_file s \<and> next_seqnum (writer t) = next_seqnum (writer s) \<or> poisoned (writer t)
          | (Inr _, t) \<Rightarrow> \<not> poisoned (writer t))"
proof (cases "poisoned (writer s)")
  case True
  then show ?thesis by (simp add: add_entry_poisoned)
next
  case False
  then show ?thesis
    using add_entry_failure [OF False] add_entry_unpoisoned(2)
    by (fastforce simp: Let_def clean_or_poisoned_def split: prod.split sum.split)
qed

section \<open>The order of the entries\<close>

definition entry_meta :: "WriterState \<Rightarrow> u64 \<times> u64 \<times> u64 \<times> u64 \<times> u8 list \<times> u64 \<times> u64" where
  "entry_meta s = (let h = jf_header (journal_file s) in
     (next_seqnum (writer s), n_entries h, head_entry_seqnum h, tail_entry_seqnum h, tail_entry_boot_id h,
      tail_entry_monotonic h, tail_entry_realtime h))"

lemma entry_meta_update:
  "(\<And>w. next_seqnum (f w) = next_seqnum w) \<Longrightarrow> entry_meta (update_writer f s) = entry_meta s"
  by (simp add: entry_meta_def update_writer_def)

interpretation meta: writer_frame "\<lambda>s. entry_meta s = m" for m
  by unfold_locales (simp_all add: entry_meta_def set_bytes_def journal_header_mut_def update_writer_def Let_def)

lemma publish_after_entry_meta: "keeps (\<lambda>s. entry_meta s = m) publish_after_entry"
proof -
  have len: "keeps (\<lambda>s. entry_meta s = m) (set_file_len n)" for n
    by (simp add: keeps_def set_file_len_def set_bytes_def entry_meta_def)
  have post: "keeps (\<lambda>s. entry_meta s = m) journal_post_change"
    unfolding journal_post_change_def by (intro keeps_intros len keeps_smodify) (simp add: entry_meta_def)
  have upd: "keeps (\<lambda>s. entry_meta s = m) (smodify (update_writer f))" if "\<And>w. next_seqnum (f w) = next_seqnum w" for f
    using that by (simp add: keeps_def op_run entry_meta_update)
  show ?thesis unfolding publish_after_entry_def Let_def by (intro keeps_intros post upd) simp_all
qed

lemma sbind_success:
  assumes "sbind m k s = (Inr y, t)"
  obtains x u where "m s = (Inr x, u)" and "k x u = (Inr y, t)"
  using assms by (auto simp: sbind_def split: prod.splits sum.splits)

lemma append_steps_meta:
  assumes "append_steps Sip E C options fs seq boot rt mt s = (Inr y, t)"
  shows "entry_meta t = (let h = jf_header (journal_file s) in
    (seq + 1, n_entries h + 1, (if head_entry_seqnum h = 0 then seq else head_entry_seqnum h), seq, boot, mt, rt))"
proof -
  from assms obtain xh a off b c d where
    a: "prepare_entry_items Sip E C options fs s = (Inr xh, a)" and
    b: "write_entry_object seq boot rt mt xh a = (Inr off, b)" and
    c: "publish_entry_links off b = (Inr (), c)" and
    d: "entry_added off seq boot rt mt c = (Inr (), d)" and
    t: "publish_after_entry d = (Inr y, t)"
    unfolding append_steps_def by (auto elim!: sbind_success)
  have "entry_meta a = entry_meta s" by (rule keepsD [OF meta.keeps_prepare_entry_items _ a]) simp
  moreover have "entry_meta b = entry_meta a" by (rule keepsD [OF meta.keeps_write_entry_object _ b]) simp
  moreover have "entry_meta c = entry_meta b" by (rule keepsD [OF meta.keeps_publish_entry_links _ c]) simp
  ultimately have c': "entry_meta c = entry_meta s" by simp
  have "entry_meta t = entry_meta d" by (rule keepsD [OF publish_after_entry_meta _ t]) simp
  also have "\<dots> = (let h = jf_header (journal_file c) in
    (seq + 1, n_entries h + 1, (if head_entry_seqnum h = 0 then seq else head_entry_seqnum h), seq, boot, mt, rt))"
    using d by (auto simp: entry_added_def entry_added_header_def sbind_def op_run entry_meta_def update_writer_def
        journal_header_mut_def Let_def)
  finally show ?thesis using c' by (simp add: entry_meta_def Let_def)
qed

text \<open>The header of the entry object that the bytes of a file hold at an offset.\<close>

definition entry_header_at :: "u8 list \<Rightarrow> u64 \<Rightarrow> EntryObjectHeader" where
  "entry_header_at bs off = entry_header_from_bytes (bytes_at bs (unat off) 64)"

lemma bytes_at_patch_before:
  "a + n \<le> pos \<Longrightarrow> a + n \<le> length bs \<Longrightarrow> bytes_at (patch bs pos data) a n = bytes_at bs a n"
  by (intro nth_equalityI) (auto simp: bytes_at_def patch_def nth_append)

text \<open>What leaves the 64 bytes of an entry's header alone.\<close>

definition header_stored :: "u64 \<Rightarrow> u8 list \<Rightarrow> WriterState \<Rightarrow> bool" where
  "header_stored off d s \<longleftrightarrow>
     unat off + 64 \<le> length (file_bytes s) \<and> bytes_at (file_bytes s) (unat off) 64 = d"

lemma header_stored_write:
  "64 \<le> rel \<Longrightarrow> keeps (header_stored off d) (smodify (write_bytes off rel data))"
  by (rule keeps_smodify)
    (auto simp: header_stored_def write_bytes_def bytes_at_patch_before, simp add: patch_def)

lemma header_stored_items: "keeps (header_stored off d) (set_entry_items c off its i l)"
proof (induction l arbitrary: i)
  case (Cons item l)
  have "keeps (header_stored off d) (entry_items_set off its i v h)" for v h
    unfolding entry_items_set_def
    by (cases its) (auto intro!: keeps_intros header_stored_write split: option.split)
  then show ?case unfolding set_entry_items.simps by (intro keeps_intros Cons.IH)
qed (simp add: keeps_basic)

lemma header_stored_object_added: "keeps (header_stored off d) (object_added a n)"
  unfolding object_added_def
  by (intro keeps_intros keeps_smodify) (simp_all add: header_stored_def update_writer_def journal_header_mut_def)

lemma entry_mut_room:
  assumes "entry_mut off n s = (Inr entry, t)"
  shows "unat off + 64 \<le> length (file_bytes t)"
proof -
  from assms obtain sz :: u64 and compact where
    "entry_from_data (bytes_at (file_bytes t) (unat off) (unat sz)) compact = Some entry"
    unfolding entry_mut_def journal_object_mut_def get_slice_mut_def
    by (auto simp: op_run ok_or_def split: option.splits elim!: sbind_success)
  then have "64 \<le> length (bytes_at (file_bytes t) (unat off) (unat sz))"
    by (auto simp: entry_from_data_def split: if_splits)
  then show ?thesis by (simp add: length_bytes_at) linarith
qed

lemma bytes_at_patch_same: "rel + length x \<le> length d \<Longrightarrow> length x = n \<Longrightarrow> bytes_at (patch d rel x) rel n = x"
  by (simp add: bytes_at_def patch_def)

lemma write_entry_object_header:
  assumes "write_entry_object seq boot rt mt xh s = (Inr off, t)" and "length boot = 16"
  shows "let e = entry_header_at (file_bytes t) off in
    seqnum e = seq \<and> boot_id e = boot \<and> realtime e = rt \<and> monotonic e = mt \<and> xor_hash e = xh"
proof -
  from assms(1) obtain u its c entry v w where
    m: "entry_mut off (Some (of_nat (length its) * entry_item_size c)) u = (Inr entry, v)" and
    i: "set_entry_items c off (entry_items entry) 0 its (write_bytes off 24 (to_le 8 rt) (write_bytes off 32 (to_le 8 mt)
      (write_bytes off 40 boot (write_bytes off 56 (to_le 8 xh) (write_bytes off 16 (to_le 8 seq) v))))) = (Inr (), w)" and
    a: "object_added off (aligned_size (entry_object_header (entry_header entry))) w = (Inr (), t)"
    by (auto simp: write_entry_object_def Let_def op_run set_header_word_def set_poisoned_def elim!: sbind_success)
  let ?n = "unat off"
  note room = entry_mut_room [OF m]
  define d where "d = patch (patch (patch (patch (patch (bytes_at (file_bytes v) ?n 64) 16 (to_le 8 seq)) 56 (to_le 8 xh))
    40 boot) 32 (to_le 8 mt)) 24 (to_le 8 rt)"
  have "header_stored off d (write_bytes off 24 (to_le 8 rt) (write_bytes off 32 (to_le 8 mt)
      (write_bytes off 40 boot (write_bytes off 56 (to_le 8 xh) (write_bytes off 16 (to_le 8 seq) v)))))"
    using room assms(2) by (simp add: header_stored_def d_def write_bytes_def bytes_at_patch_inside)
  from keepsD [OF header_stored_object_added keepsD [OF header_stored_items this i] a]
  have "bytes_at (file_bytes t) ?n 64 = d" by (simp add: header_stored_def)
  moreover have "length (bytes_at (file_bytes v) ?n 64) = 64" using room by (simp add: length_bytes_at)
  ultimately show ?thesis
    using assms(2) by (simp add: entry_header_at_def Let_def entry_header_from_bytes_def d_def u64_at_patch u64_at_patch_same
      bytes_at_patch_other bytes_at_patch_same)
qed

text \<open>
  The sequence numbers of the entries of a file: fewer entries than the next number, and the head and tail
  numbers in order below it.
\<close>

definition seqnums_ordered :: "WriterState \<Rightarrow> bool" where
  "seqnums_ordered s = (let h = jf_header (journal_file s); n = next_seqnum (writer s) in
     n_entries h < n \<and>
     (n_entries h \<noteq> 0 \<longrightarrow> 0 < head_entry_seqnum h \<and> head_entry_seqnum h \<le> tail_entry_seqnum h \<and> tail_entry_seqnum h < n) \<and>
     (n_entries h = 0 \<longrightarrow> head_entry_seqnum h = 0))"

definition boot_clock_runs :: "EntryObjectHeader \<Rightarrow> EntryObjectHeader \<Rightarrow> bool" where
  "boot_clock_runs e e' \<longleftrightarrow> (boot_id e = boot_id e' \<longrightarrow> monotonic e < monotonic e')"

text \<open>The tail fields of the file header describe an entry.\<close>

definition tail_describes :: "WriterState \<Rightarrow> EntryObjectHeader \<Rightarrow> bool" where
  "tail_describes s e \<longleftrightarrow> (let h = jf_header (journal_file s) in
     tail_entry_seqnum h = seqnum e \<and> tail_entry_boot_id h = boot_id e \<and>
     tail_entry_monotonic h = monotonic e \<and> tail_entry_realtime h = realtime e)"

definition sized_boot_id :: "EntryWriteOptions \<Rightarrow> bool" where
  "sized_boot_id options \<longleftrightarrow> (case opt_boot_id options of None \<Rightarrow> True | Some b \<Rightarrow> length b = 16)"

text \<open>The checks of an append, and the header of the ENTRY object it writes: the steps of the append up to
  and including \<open>write_entry_object\<close>, and then the bytes of the file at the offset of the entry.\<close>

definition append_checks :: "EntryWriteOptions \<Rightarrow> u64 \<Rightarrow> WriterState \<Rightarrow> (u64 \<times> u8 list \<times> u64) result" where
  "append_checks options mt s =
     (let jf = journal_file s; w = writer s; boot = (case opt_boot_id options of Some b \<Rightarrow> b | None \<Rightarrow> w_boot_id w)
      in rbind (ensure_keyed_append jf) (\<lambda>_. rbind (entry_seqnum_for_options w options) (\<lambda>seq.
         rbind (clamp_same_boot_monotonic (jf_header jf) boot mt) (\<lambda>mt1. Ok (seq, boot, mt1)))))"

definition written_entry ::
  "'h SipHasher24 \<Rightarrow> Encoders \<Rightarrow> Codecs \<Rightarrow> EntryField list \<Rightarrow> u64 \<Rightarrow> u64 \<Rightarrow> EntryWriteOptions \<Rightarrow> WriterState
    \<Rightarrow> EntryObjectHeader option" where
  "written_entry Sip E C fs rt mt options s =
     (case append_checks options mt s of
        Inl e \<Rightarrow> None
      | Inr (seq, boot, mt1) \<Rightarrow>
          (case sbind (prepare_entry_items Sip E C options fs) (write_entry_object seq boot rt mt1) s of
             (Inl e, t) \<Rightarrow> None
           | (Inr off, t) \<Rightarrow> Some (entry_header_at (file_bytes t) off)))"

text \<open>A run of a writer: any appends, of which some fail; the log holds the headers of the ENTRY objects of
  those that succeed.\<close>

inductive writer_run ::
  "'h SipHasher24 \<Rightarrow> Encoders \<Rightarrow> Codecs \<Rightarrow> WriterState \<Rightarrow> EntryObjectHeader list \<Rightarrow> WriterState \<Rightarrow> bool"
  for Sip E C s where
  run_start: "writer_run Sip E C s [] s"
| run_appended: "writer_run Sip E C s log t \<Longrightarrow> sized_boot_id options \<Longrightarrow>
    add_entry_fields_with_options Sip E C fs rt mt options t = (Inr (), u) \<Longrightarrow>
    writer_run Sip E C s (log @ (case written_entry Sip E C fs rt mt options t of None \<Rightarrow> [] | Some e \<Rightarrow> [e])) u"
| run_failed: "writer_run Sip E C s log t \<Longrightarrow> add_entry_fields_with_options Sip E C fs rt mt options t = (Inl e, u) \<Longrightarrow>
    writer_run Sip E C s log u"

lemma succ_bounds:
  fixes a b :: u64
  assumes "b < u64_max"
  shows "b < b + 1" "a < b \<Longrightarrow> a + 1 < b + 1" "a < b \<Longrightarrow> a + 1 \<noteq> 0"
proof -
  have b: "unat b + 1 < 2 ^ 64" using assms unat_u64_max by (simp add: word_less_nat_alt)
  then show "b < b + 1" by (simp add: word_less_nat_alt unat_word_ariths)
  assume "a < b"
  then have a: "unat (a + 1) = unat a + 1" "unat a < unat b"
    using b by (simp_all add: word_less_nat_alt unat_word_ariths)
  then show "a + 1 < b + 1" using b by (simp add: word_less_nat_alt unat_word_ariths)
  show "a + 1 \<noteq> 0" using a by auto
qed

lemma append_steps_written:
  assumes "append_steps Sip E C options fs seq boot rt mt s = (Inr y, t)" and "length boot = 16"
  obtains off u where "sbind (prepare_entry_items Sip E C options fs) (write_entry_object seq boot rt mt) s = (Inr off, u)"
    and "seqnum (entry_header_at (file_bytes u) off) = seq" and "boot_id (entry_header_at (file_bytes u) off) = boot"
    and "realtime (entry_header_at (file_bytes u) off) = rt" and "monotonic (entry_header_at (file_bytes u) off) = mt"
proof -
  from assms(1) obtain xh a off u where
    "prepare_entry_items Sip E C options fs s = (Inr xh, a)" and w: "write_entry_object seq boot rt mt xh a = (Inr off, u)"
    unfolding append_steps_def by (auto elim!: sbind_success)
  then have "sbind (prepare_entry_items Sip E C options fs) (write_entry_object seq boot rt mt) s = (Inr off, u)"
    by (simp add: sbind_def)
  with write_entry_object_header [OF w assms(2)] that show thesis by (simp add: Let_def)
qed

interpretation boot: writer_frame "\<lambda>s. w_boot_id (writer s) = b" for b
  by unfold_locales (simp_all add: set_bytes_def journal_header_mut_def update_writer_def)

lemma append_keeps_boot_id: "keeps (\<lambda>s. w_boot_id (writer s) = b) (add_entry_fields_with_options Sip E C fs rt mt options)"
proof -
  have upd: "keeps (\<lambda>s. w_boot_id (writer s) = b) (smodify (update_writer f))" if "\<And>w. w_boot_id (f w) = w_boot_id w" for f
    using that by (simp add: keeps_def op_run update_writer_def)
  have hdr: "keeps (\<lambda>s. w_boot_id (writer s) = b) (smodify (journal_header_mut f))" for f :: "JournalHeader \<Rightarrow> JournalHeader"
    by (simp add: keeps_def op_run journal_header_mut_def)
  have post: "keeps (\<lambda>s. w_boot_id (writer s) = b) journal_post_change"
    unfolding journal_post_change_def by (intro keeps_intros keeps_smodify) (simp_all add: keeps_def set_file_len_def set_bytes_def)
  have "keeps (\<lambda>s. w_boot_id (writer s) = b) (set_poisoned v)" for v
    unfolding set_poisoned_def by (rule upd) simp
  then show ?thesis
    unfolding add_entry_fields_with_options_def Let_def entry_added_def publish_after_entry_def
    by (intro keeps_intros upd hdr post boot.keeps_prepare_entry_items boot.keeps_write_entry_object
        boot.keeps_publish_entry_links) simp_all
qed

lemma add_entry_success:
  assumes ok: "add_entry_fields_with_options Sip E C fs rt mt options s = (Inr (), t)" and ord: "seqnums_ordered s"
    and sized: "length (w_boot_id (writer s)) = 16" "sized_boot_id options"
  obtains e where "written_entry Sip E C fs rt mt options s = Some e" and "realtime e = rt" and "tail_describes t e"
    and "seqnums_ordered t" and "next_seqnum (writer s) \<le> seqnum e" and "seqnum e < u64_max"
    and "next_seqnum (writer t) = seqnum e + 1"
    and "n_entries (jf_header (journal_file t)) = n_entries (jf_header (journal_file s)) + 1"
    and "n_entries (jf_header (journal_file s)) \<noteq> 0 \<longrightarrow> tail_describes s d \<longrightarrow> boot_clock_runs d e"
proof -
  let ?h = "jf_header (journal_file s)"
  note np = add_entry_unpoisoned [OF ok]
  define boot where "boot = (case opt_boot_id options of Some b \<Rightarrow> b | None \<Rightarrow> w_boot_id (writer s))"
  have len: "length boot = 16" using sized by (simp add: boot_def sized_boot_id_def split: option.splits)
  obtain seq mt1 u where
    ck: "ensure_keyed_append (journal_file s) = Ok ()" and
    seq: "entry_seqnum_for_options (writer s) options = Ok seq" and
    mt1: "clamp_same_boot_monotonic ?h boot mt = Ok mt1" and
    steps: "append_steps Sip E C options fs seq boot rt mt1 s = (Inr (), u)" and
    t: "set_poisoned False u = (Inr (), t)"
    using ok np(1) by (auto simp: add_entry_split Let_def rbind_def boot_def elim!: sbind_success split: sum.splits)
  obtain off v where w: "sbind (prepare_entry_items Sip E C options fs) (write_entry_object seq boot rt mt1) s = (Inr off, v)"
    and e: "seqnum (entry_header_at (file_bytes v) off) = seq" "boot_id (entry_header_at (file_bytes v) off) = boot"
      "realtime (entry_header_at (file_bytes v) off) = rt" "monotonic (entry_header_at (file_bytes v) off) = mt1"
    by (rule append_steps_written [OF steps len])
  have m: "entry_meta t = (seq + 1, n_entries ?h + 1, (if head_entry_seqnum ?h = 0 then seq else head_entry_seqnum ?h), seq, boot, mt1, rt)"
    using append_steps_meta [OF steps] t by (auto simp: set_poisoned_def op_run entry_meta_update Let_def)
  have s1: "0 < seq" "seq < u64_max" "next_seqnum (writer s) \<le> seq"
    using seq by (auto simp: entry_seqnum_for_options_def Let_def word_gt_0 u64_max_def intro!: le_neq_trans
        split: if_splits)
  have c: "n_entries ?h \<noteq> 0 \<longrightarrow> tail_entry_boot_id ?h = boot \<longrightarrow> tail_entry_monotonic ?h < mt1"
    using mt1 by (auto simp: clamp_same_boot_monotonic_def checked_add_def ok_or_def word_less_nat_alt unat_word_ariths
        split: if_splits option.splits)
  have n: "seq < seq + 1" "n_entries ?h + 1 < seq + 1" "n_entries ?h + 1 \<noteq> 0"
    using succ_bounds [OF s1(2)] less_le_trans [OF _ s1(3), of "n_entries ?h"] ord
    by (simp_all only: seqnums_ordered_def Let_def) blast+
  show thesis
  proof (rule that)
    show "written_entry Sip E C fs rt mt options s = Some (entry_header_at (file_bytes v) off)"
      using ck seq mt1 w by (simp add: written_entry_def append_checks_def Let_def rbind_def flip: boot_def)
    show "seqnums_ordered t"
      using m n s1 ord by (auto simp: seqnums_ordered_def entry_meta_def Let_def split: if_splits)
    show "n_entries ?h \<noteq> 0 \<longrightarrow> tail_describes s d \<longrightarrow> boot_clock_runs d (entry_header_at (file_bytes v) off)"
      using c by (auto simp: boot_clock_runs_def tail_describes_def e Let_def)
  qed (use m s1 in \<open>simp_all add: e entry_meta_def tail_describes_def Let_def\<close>)
qed

lemma writer_run_ordered:
  assumes "writer_run Sip E C s log t" and "seqnums_ordered s" and "length (w_boot_id (writer s)) = 16"
  shows "sorted_wrt (<) (map seqnum log) \<and> successively boot_clock_runs log \<and>
    (\<forall>e \<in> set log. next_seqnum (writer s) \<le> seqnum e \<and> seqnum e < u64_max) \<and>
    length (w_boot_id (writer t)) = 16 \<and>
    (poisoned (writer t) \<or> seqnums_ordered t \<and> (\<forall>e \<in> set log. seqnum e < next_seqnum (writer t)) \<and>
      next_seqnum (writer s) \<le> next_seqnum (writer t) \<and>
      n_entries (jf_header (journal_file t)) = n_entries (jf_header (journal_file s)) + of_nat (length log) \<and>
      (log \<noteq> [] \<longrightarrow> tail_describes t (last log) \<and> n_entries (jf_header (journal_file t)) \<noteq> 0))"
  using assms
proof (induction rule: writer_run.induct)
  case run_start
  then show ?case by simp
next
  case (run_appended log t options fs rt mt u)
  note IH = run_appended.IH [OF run_appended.prems]
  have t: "seqnums_ordered t" "\<forall>e \<in> set log. seqnum e < next_seqnum (writer t)" "next_seqnum (writer s) \<le> next_seqnum (writer t)"
    "n_entries (jf_header (journal_file t)) = n_entries (jf_header (journal_file s)) + of_nat (length log)"
    "log \<noteq> [] \<Longrightarrow> tail_describes t (last log)" "log \<noteq> [] \<Longrightarrow> n_entries (jf_header (journal_file t)) \<noteq> 0"
    "length (w_boot_id (writer t)) = 16"
    using IH add_entry_unpoisoned(1) [OF run_appended.hyps(3)] by blast+
  obtain e where e: "written_entry Sip E C fs rt mt options t = Some e"
    and u: "tail_describes u e" "seqnums_ordered u" "next_seqnum (writer t) \<le> seqnum e" "seqnum e < u64_max"
      "next_seqnum (writer u) = seqnum e + 1"
      "n_entries (jf_header (journal_file u)) = n_entries (jf_header (journal_file t)) + 1"
      "n_entries (jf_header (journal_file t)) \<noteq> 0 \<longrightarrow> tail_describes t (last log) \<longrightarrow> boot_clock_runs (last log) e"
    by (rule add_entry_success [OF run_appended.hyps(3) t(1,7) run_appended.hyps(2), of "last log"])
  have lt: "seqnum e < seqnum e + 1" using u(4) succ_bounds(1) by blast
  have new: "seqnum d < seqnum e" if "d \<in> set log" for d
    using less_le_trans [OF bspec [OF t(2) that] u(3)] .
  have "sorted_wrt (<) (map seqnum (log @ [e]))"
    using IH new by (auto simp: sorted_wrt_append)
  moreover have "successively boot_clock_runs (log @ [e])"
    using IH t(5,6) u(7) by (cases "log = []") (simp_all add: successively_append_iff)
  moreover have "\<forall>d \<in> set (log @ [e]). next_seqnum (writer s) \<le> seqnum d \<and> seqnum d < u64_max"
    using IH t(3) u(3,4) by auto
  moreover have "\<forall>d \<in> set (log @ [e]). seqnum d < next_seqnum (writer u)"
    using lt u(5) less_trans [OF new lt] by auto
  moreover have "next_seqnum (writer s) \<le> next_seqnum (writer u)"
    using order_trans [OF order_trans [OF t(3) u(3)] less_imp_le [OF lt]] u(5) by simp
  moreover have "n_entries (jf_header (journal_file u)) \<noteq> 0"
  proof -
    have "n_entries (jf_header (journal_file t)) < seqnum e"
      using less_le_trans [OF _ u(3)] t(1) by (simp add: seqnums_ordered_def Let_def)
    then show ?thesis using succ_bounds(3) [OF u(4)] u(6) by metis
  qed
  moreover have "length (w_boot_id (writer u)) = 16"
    using keepsD [OF append_keeps_boot_id refl run_appended.hyps(3)] t(7) by simp
  ultimately show ?case using u(1,2,6) t(4) by (simp add: e)
next
  case (run_failed log t fs rt mt options e u)
  note IH = run_failed.IH [OF run_failed.prems]
  have boot: "w_boot_id (writer u) = w_boot_id (writer t)"
    by (rule keepsD [OF append_keeps_boot_id refl run_failed.hyps(2)])
  show ?case
  proof (cases "poisoned (writer t)")
    case True
    then show ?thesis using IH add_entry_poisoned [OF True, of Sip E C fs rt mt options] run_failed.hyps(2) by simp
  next
    case False
    then show ?thesis
      using IH add_entry_failure [OF False run_failed.hyps(2)] boot
      by (auto simp: clean_or_poisoned_def seqnums_ordered_def tail_describes_def Let_def)
  qed
qed

type_synonym append_request = "EntryField list \<times> u64 \<times> u64 \<times> EntryWriteOptions"

fun run_appends ::
  "'h SipHasher24 \<Rightarrow> Encoders \<Rightarrow> Codecs \<Rightarrow> append_request list \<Rightarrow> WriterState \<Rightarrow> EntryObjectHeader list \<times> WriterState" where
  "run_appends Sip E C [] s = ([], s)"
| "run_appends Sip E C ((fs, rt, mt, options) # reqs) s =
     (case add_entry_fields_with_options Sip E C fs rt mt options s of
        (Inl e, t) \<Rightarrow> run_appends Sip E C reqs t
      | (Inr _, t) \<Rightarrow> (case run_appends Sip E C reqs t of (log, u) \<Rightarrow>
          ((case written_entry Sip E C fs rt mt options s of None \<Rightarrow> [] | Some e \<Rightarrow> [e]) @ log, u)))"

lemma run_appends_run:
  assumes "writer_run Sip E C s log0 t" and "run_appends Sip E C reqs t = (log, u)"
    and "\<forall>(fs, rt, mt, options) \<in> set reqs. sized_boot_id options"
  shows "writer_run Sip E C s (log0 @ log) u"
  using assms
proof (induction reqs arbitrary: log0 t log)
  case (Cons req reqs)
  obtain fs rt mt options where req: "req = (fs, rt, mt, options)" by (cases req)
  have sized: "sized_boot_id options" using Cons.prems(3) by (simp add: req)
  obtain r v where v: "add_entry_fields_with_options Sip E C fs rt mt options t = (r, v)" by fastforce
  show ?case
  proof (cases r)
    case (Inl e)
    with v have "writer_run Sip E C s log0 v" by (auto intro: run_failed [OF Cons.prems(1)])
    then show ?thesis using Cons.IH Cons.prems(2,3) by (simp add: req v Inl)
  next
    case (Inr x)
    with v have "add_entry_fields_with_options Sip E C fs rt mt options t = (Inr (), v)" by simp
    from run_appended [OF Cons.prems(1) sized this] show ?thesis
      using Cons.IH Cons.prems(2,3) by (fastforce simp: req v Inr split: prod.splits)
  qed
qed simp


definition sum_hasher :: "u64 SipHasher24" where
  "sum_hasher = \<lparr>new_with_keys = (\<lambda>_ _. 0), sip_write = (\<lambda>h bs. h + of_nat (length bs)), sip_finish = (\<lambda>h. h)\<rparr>"

definition plain_encoders :: Encoders where
  "plain_encoders = \<lparr>zstd_compress_to_vec = (\<lambda>bs. bs), xz_write = (\<lambda>bs. None), lz4_block_compress = (\<lambda>bs. bs)\<rparr>"

text \<open>An empty file: the two hash tables of one bucket each, and nothing else.\<close>

definition sample_log :: WriterState where
  "sample_log =
     (let field_table = [5, 0, 0, 0, 0, 0, 0, 0, 32, 0, 0, 0, 0, 0, 0, 0] @ replicate 16 0;
          data_table = [4, 0, 0, 0, 0, 0, 0, 0, 32, 0, 0, 0, 0, 0, 0, 0] @ replicate 16 0
      in \<lparr>journal_file =
            \<lparr>jf_header = sample_header\<lparr>entry_array_offset := None, n_entries := 0, n_entry_arrays := 0, arena_size := 64,
               tail_entry_array_offset := 0, tail_entry_array_n_entries := 0, tail_entry_seqnum := 0, head_entry_seqnum := 0,
               field_hash_table_offset := Some 288, field_hash_table_size := Some 16, data_hash_table_offset := Some 320,
               data_hash_table_size := Some 16, tail_object_offset := Some 304\<rparr>,
             jf_bytes = replicate 272 0 @ field_table @ data_table,
             data_hash_table_map = Some data_table, field_hash_table_map = Some field_table, recovery_enabled = False,
             recovery = None, recovery_changed = False, filter_recovery_seen = False\<rparr>,
          window_size = 64, retained_len = 0, disk_limit = 2 ^ 30,
          writer = \<lparr>poisoned = False, w_tail_object_offset = 304, append_offset = 336, next_seqnum = 1,
            num_written_objects = 0, w_entry_items = [], field_cache = [], first_entry_monotonic = None,
            w_boot_id = replicate 16 0, compression = NoCompression, compress_threshold = 512,
            live_publish_every_entries = 0, entries_since_live_publication = 0\<rparr>\<rparr>)"


end
