(* ===== verification/Writer_Payload.thy ===== *)
theory Writer_Payload
  imports Journal_Writer "HOL-Library.Multiset"
begin

text \<open>
  What the writer stores is what the reader gets: the payload of a data object, compressed or not, against the
  decompression of \<^verbatim>\<open>object_compression.rs\<close>; the items of an entry; the names of fields; the field cache.
  The theory has no definitions of the program, only statements about those of the writer.
\<close>

unbundle bit_operations_syntax

section \<open>Stored payloads decode\<close>

definition stored_bytes :: "StoredDataPayload \<Rightarrow> u8 list" where
  "stored_bytes st = (case st of Uncompressed payload \<Rightarrow> pp_to_vec payload | Compressed bytes _ \<Rightarrow> bytes)"

text \<open>The answers of a reader that delivers \<open>content\<close>: interruptions and chunks, and then the end of the input.\<close>

fun delivers :: "ReadAnswer list \<Rightarrow> u8 list \<Rightarrow> bool" where
  "delivers [] content \<longleftrightarrow> content = []"
| "delivers (ReadInterrupted # answers) content \<longleftrightarrow> delivers answers content"
| "delivers (ReadError # answers) content \<longleftrightarrow> False"
| "delivers (ReadOk chunk # answers) content \<longleftrightarrow>
     chunk \<noteq> [] \<and> take (length chunk) content = chunk \<and> delivers answers (drop (length chunk) content)"

text \<open>
  The header of a zstd frame, as the format defines it (RFC 8878, section 3.1.1.1): the magic number, a
  descriptor, a window descriptor unless the frame is a single segment, and the size of the content in a
  field whose width the descriptor gives.  The blocks follow.  Frames that need a dictionary are left out.
\<close>

record ZstdHeader =
  single_segment :: bool
  content_checksum :: bool
  content_size :: "nat option"
  zstd_blocks :: "u8 list"

definition size_field_len :: "u8 \<Rightarrow> nat" where
  "size_field_len descriptor =
     (if drop_bit 6 descriptor = 0 then (if descriptor AND 32 \<noteq> 0 then 1 else 0)
      else if drop_bit 6 descriptor = 1 then 2 else if drop_bit 6 descriptor = 2 then 4 else 8)"

definition size_field_value :: "u8 list \<Rightarrow> nat option" where
  "size_field_value field =
     (if field = [] then None
      else Some (unat (from_le field :: u64) + (if length field = 2 then 256 else 0)))"

definition zstd_header :: "u8 list \<Rightarrow> ZstdHeader option" where
  "zstd_header frame =
     (if length frame < 5 \<or> take 4 frame \<noteq> [0x28, 0xb5, 0x2f, 0xfd] then None
      else let descriptor = frame ! 4;
               at = (if descriptor AND 32 \<noteq> 0 then 5 else 6);
               n = size_field_len descriptor
           in if descriptor AND 3 \<noteq> 0 \<or> length frame < at + n then None
              else Some \<lparr>single_segment = (descriptor AND 32 \<noteq> 0), content_checksum = (descriptor AND 4 \<noteq> 0),
                         content_size = size_field_value (bytes_at frame at n), zstd_blocks = drop (at + n) frame\<rparr>)"

text \<open>
  What the two zstd decoders make of a frame: the streaming one delivers its content wherever it stands in
  the input; the other one, if it decodes the frame at all, delivers the same.
\<close>

definition decodes :: "Codecs \<Rightarrow> u8 list \<Rightarrow> u8 list \<Rightarrow> bool" where
  "decodes C frame p \<longleftrightarrow> segment_ok C (Frame frame p) \<and> zstd_content C frame \<in> {None, Some p}"

text \<open>
  The content of a frame is that of its blocks: two frames with the same blocks, of which the second is a
  single segment that declares the right size and has the same checksum flag, have the same content.
\<close>

definition content_from_blocks :: "Codecs \<Rightarrow> bool" where
  "content_from_blocks C \<longleftrightarrow>
     (\<forall>f g hf hg p. decodes C f p \<longrightarrow> zstd_header f = Some hf \<longrightarrow> zstd_header g = Some hg \<longrightarrow>
        zstd_blocks hg = zstd_blocks hf \<longrightarrow> content_checksum hg = content_checksum hf \<longrightarrow>
        single_segment hg \<longrightarrow> content_size hg = Some (length p) \<longrightarrow> decodes C g p)"

text \<open>What an encoder makes of a payload, the decoder of the same format decodes.\<close>

definition codecs_match :: "Encoders \<Rightarrow> Codecs \<Rightarrow> u8 list \<Rightarrow> bool" where
  "codecs_match E C p \<longleftrightarrow>
     lz4_block C (lz4_block_compress E p) (length p) = Some p \<and>
     (\<forall>z. xz_write E p = Some z \<longrightarrow> delivers (xz_reads C z) p) \<and>
     decodes C (zstd_compress_to_vec E p) p"

text \<open>The frame the writer stores has the header it means to have, and so decodes.\<close>

lemma checksum_flag: "(d :: u8) AND 4 = (if bit d 2 then 4 else 0)"
proof -
  have "d AND 2 ^ 2 = (if bit d 2 then 2 ^ 2 else 0)"
    by (auto intro!: bit_word_eqI simp: bit_and_iff bit_exp_iff simp del: power_numeral)
  then show ?thesis by simp
qed

definition size_field :: "nat \<Rightarrow> u8 \<times> u8 list" where
  "size_field n =
     (if n \<le> 255 then (0, [of_nat n])
      else if n \<le> 65791 then (1, to_le 2 (of_nat (n - 256) :: 16 word))
      else if n < 2 ^ 32 then (2, to_le 4 (of_nat n :: u32)) else (3, to_le 8 (of_nat n :: u64)))"

lemma size_field_value:
  assumes "n < 2 ^ 64" and "size_field n = (fl, field)"
  shows "size_field_value field = Some n" "fl < 4" "length field = (if fl = 0 then 1 else if fl = 1 then 2 else if fl = 2 then 4 else 8)"
proof -
  consider "n \<le> 255" "fl = 0" "field = [of_nat n]" | "255 < n" "n \<le> 65791" "fl = 1" "field = to_le 2 (of_nat (n - 256) :: 16 word)"
    | "65791 < n" "n < 2 ^ 32" "fl = 2" "field = to_le 4 (of_nat n :: u32)" | "2 ^ 32 \<le> n" "fl = 3" "field = to_le 8 (of_nat n :: u64)"
    using assms(2) by (auto simp: size_field_def split: if_splits)
  note cs = this
  show "fl < 4" "length field = (if fl = 0 then 1 else if fl = 1 then 2 else if fl = 2 then 4 else 8)"
    by (cases rule: cs; simp)+
  show "size_field_value field = Some n"
  proof (cases rule: cs)
    case 1
    then have "unat (from_le field :: u64) = n" by (simp add: from_le_def unsigned_ucast_eq take_bit_eq_mod unat_of_nat flip: ucast_eq)
    with 1 show ?thesis by (simp add: size_field_value_def)
  next
    case 2
    have "unat (from_le (to_le 2 (of_nat m :: 16 word)) :: u64) = m" if "m < 65536" for m
      using that by (simp add: from_le_ucast unsigned_ucast_eq take_bit_eq_mod unat_of_nat)
    with 2 have "unat (from_le field :: u64) = n - 256" by (simp del: of_nat_diff)
    with 2 show ?thesis by (auto simp: size_field_value_def to_le_def)
  next
    case 3
    then have "unat (from_le field :: u64) = n" by (simp add: from_le_ucast unsigned_ucast_eq take_bit_eq_mod unat_of_nat)
    with 3 show ?thesis by (auto simp: size_field_value_def to_le_def)
  next
    case 4
    then have "unat (from_le field :: u64) = n" using assms(1) by (simp add: from_le_to_le unat_of_nat)
    with 4 show ?thesis by (auto simp: size_field_value_def to_le_def)
  qed
qed

lemma new_descriptor:
  fixes d fl :: u8
  assumes "fl < 4"
  defines "d' \<equiv> push_bit 6 fl OR 32 OR (d AND 4)"
  shows "drop_bit 6 d' = fl" "d' AND 32 \<noteq> 0" "d' AND 3 = 0" "d' AND 4 = d AND 4"
proof -
  have "unat fl < 4" using assms(1) by (simp add: word_less_nat_alt)
  then have "unat fl = 0 \<or> unat fl = 1 \<or> unat fl = 2 \<or> unat fl = 3" by linarith
  then have fl: "fl = 0 \<or> fl = 1 \<or> fl = 2 \<or> fl = 3" by (simp add: word_unat_eq_iff)
  show "drop_bit 6 d' = fl" "d' AND 32 \<noteq> 0" "d' AND 3 = 0" "d' AND 4 = d AND 4"
    using fl by (auto simp: d'_def checksum_flag [of d] split: if_splits)
qed

lemma frame_with_size_header:
  assumes "zstd_frame_with_content_size f n \<noteq> f" and "n < 2 ^ 64"
  obtains hf where "zstd_header f = Some hf"
    and "zstd_header (zstd_frame_with_content_size f n) =
      Some (hf\<lparr>single_segment := True, content_size := Some n\<rparr>)"
proof -
  obtain fl field where sf: "size_field n = (fl, field)" by fastforce
  define d' where "d' = push_bit 6 fl OR 32 OR (f ! 4 AND 4)"
  have f: "6 \<le> length f" "take 4 f = [0x28, 0xb5, 0x2f, 0xfd]" "f ! 4 AND 3 = 0" "drop_bit 6 (f ! 4) = 0" "f ! 4 AND 32 = 0"
    using assms(1) by (auto simp: zstd_frame_with_content_size_def Let_def split: if_splits)
  then have g: "zstd_frame_with_content_size f n = [0x28, 0xb5, 0x2f, 0xfd] @ [d'] @ field @ drop 6 f"
    using sf by (auto simp: zstd_frame_with_content_size_def size_field_def Let_def d'_def split: if_splits)
  note v = size_field_value [OF assms(2) sf] and d' = new_descriptor [OF size_field_value(2) [OF assms(2) sf], of "f ! 4", folded d'_def]
  have "size_field_len d' = length field" using v(3) d' by (simp add: size_field_len_def)
  then have "zstd_header ([0x28, 0xb5, 0x2f, 0xfd] @ [d'] @ field @ drop 6 f) =
      Some \<lparr>single_segment = True, content_checksum = (f ! 4 AND 4 \<noteq> 0), content_size = Some n, zstd_blocks = drop 6 f\<rparr>"
    using d' v(1) by (simp add: zstd_header_def Let_def bytes_at_def numeral_eq_Suc)
  moreover have "zstd_header f =
      Some \<lparr>single_segment = False, content_checksum = (f ! 4 AND 4 \<noteq> 0), content_size = None, zstd_blocks = drop 6 f\<rparr>"
    using f by (simp add: zstd_header_def Let_def size_field_len_def size_field_value_def bytes_at_def)
  ultimately show thesis using that g by simp
qed

lemma frame_with_size_decodes:
  assumes "decodes C f p" and "content_from_blocks C" and "length p < 2 ^ 64"
  shows "decodes C (zstd_frame_with_content_size f (length p)) p"
proof (cases "zstd_frame_with_content_size f (length p) = f")
  case False
  then obtain hf where h: "zstd_header f = Some hf"
    "zstd_header (zstd_frame_with_content_size f (length p)) = Some (hf\<lparr>single_segment := True, content_size := Some (length p)\<rparr>)"
    by (rule frame_with_size_header [OF _ assms(3)])
  show ?thesis
    by (rule assms(2) [unfolded content_from_blocks_def, rule_format, OF assms(1) h]) simp_all
qed (use assms in simp)

lemma payload_parts_wf: "pp_len (payload_parts field) = length (pp_to_vec (payload_parts field))"
  by (simp add: payload_parts_def pp_raw_def pp_structured_def pp_to_vec_concat split: EntryField.split)

lemma copy_to_slice_exact:
  assumes "length dst = pp_len p" and "pp_len p = length (pp_to_vec p)"
  shows "copy_to_slice p dst = Ok (pp_to_vec p)"
  using assms copy_loop_concat [of 0 "pp_parts p" dst] by (simp add: copy_to_slice_def pp_to_vec_concat)

lemma single_slice: "(case as_single_slice p of Some raw \<Rightarrow> raw | None \<Rightarrow> pp_to_vec p) = pp_to_vec p"
  by (cases "pp_parts p") (auto simp: as_single_slice_def pp_to_vec_concat)

lemma read_limited_delivers:
  assumes "reliable C"
  shows "delivers answers content \<Longrightarrow> length (buf_data b) + length content \<le> cap \<Longrightarrow>
    \<exists>b'. read_limited_loop C cap answers b = (Ok (length (buf_data b) + length content), b') \<and> buf_data b' = buf_data b @ content"
proof (induction answers content arbitrary: b rule: delivers.induct)
  case (4 chunk answers content)
  obtain rest where c: "content = chunk @ rest" "chunk \<noteq> []" "delivers answers rest"
    using "4.prems"(1) by (metis append_take_drop_id delivers.simps(4))
  obtain k where e: "extend_decompression_buffer C chunk cap b = (Ok (), \<lparr>buf_data = buf_data b @ chunk, buf_capacity = k\<rparr>)"
    using extend_reliable [OF assms, of chunk cap b] "4.prems"(2) c(1) by auto
  have "length (buf_data b) \<noteq> cap" using "4.prems"(2) c by auto
  then show ?case
    using "4.IH" [of "\<lparr>buf_data = buf_data b @ chunk, buf_capacity = k\<rparr>"] "4.prems" c e by (auto simp: sbind_run add.assoc)
qed auto

lemma xz_decodes:
  assumes "reliable C" and "delivers (xz_reads C z) p" and "length p \<le> MAX_UNCOMPRESSED_DATA_OBJECT_SIZE"
  shows "\<exists>b'. decompress_xz_payload C z b = (Ok (length p), b') \<and> buf_data b' = p"
  using read_limited_delivers [OF assms(1,2), of "buf_clear b"] assms(3)
  by (simp add: decompress_xz_payload_def read_limited_to_end_def read_limited_to_end_with_cap_def)

lemma lz4_decodes:
  assumes "reliable C" and "lz4_block C z (length p) = Some p" and "length p \<le> MAX_UNCOMPRESSED_DATA_OBJECT_SIZE"
  shows "\<exists>b'. decompress_lz4_payload C (to_le 8 (of_nat (length p) :: u64) @ z) b = (Ok (length p), b') \<and> buf_data b' = p"
proof -
  have "unat (u64_at (to_le 8 (of_nat (length p) :: u64) @ z) 0) = length p"
    using assms(3) by (simp add: u64_at_def bytes_at_def from_le_to_le unat_of_nat MAX_UNCOMPRESSED_DATA_OBJECT_SIZE_def)
  then have size: "lz4_uncompressed_size (to_le 8 (of_nat (length p) :: u64) @ z) = Ok (length p)"
    using assms(3) by (simp add: lz4_uncompressed_size_def Let_def)
  obtain cap where "try_reserve C (length p) = Some cap" using assms(1) by (auto simp: reliable_def)
  then have "\<exists>k. reserve_output C (length p) b = (Ok (), \<lparr>buf_data = [], buf_capacity = k\<rparr>)"
    by (cases b) (simp add: reserve_output_def Let_def buf_clear_def)
  then obtain k where "prepare_lz4_output_buffer C (length p) b = (Ok (), \<lparr>buf_data = replicate (length p) 0, buf_capacity = k\<rparr>)"
    by (auto simp: prepare_lz4_output_buffer_def sbind_run op_run)
  with size assms(2) show ?thesis by (simp add: decompress_lz4_payload_def)
qed

lemma zstd_decodes:
  assumes "reliable C" and "segment_ok C (Frame z p)" and "zstd_content C z \<in> {None, Some p}"
    and "length p \<le> MAX_UNCOMPRESSED_DATA_OBJECT_SIZE"
  shows "\<exists>b'. decompress_zstd_payload C z b = (Ok (length p), b') \<and> buf_data b' = p"
proof (cases "decompress_zstd_payload_native C z b")
  case (Pair r b1)
  show ?thesis
  proof (cases r)
    case (Inl e)
    then show ?thesis
      using zstd_streaming_segments [OF assms(1), of "[Frame z p]" MAX_UNCOMPRESSED_DATA_OBJECT_SIZE p b1] Pair assms(2,4)
      by (auto simp: decompress_zstd_payload_def decompress_zstd_payload_streaming_def MAX_UNCOMPRESSED_DATA_OBJECT_SIZE_def)
  next
    case (Inr n)
    then show ?thesis
      using Pair assms(3)
      by (auto simp: decompress_zstd_payload_def decompress_zstd_payload_native_def zstd_decompress_into_def
          clear_decompression_error_def split: sum.splits prod.splits option.splits if_splits)
  qed
qed

lemma stored_data_payload_disj:
  "let p = pp_to_vec payload; st = stored_data_payload E w payload in
     st = Uncompressed payload \<or>
     (\<exists>z. st = Compressed z 4 \<and> length z < length p \<and> z = zstd_frame_with_content_size (zstd_compress_to_vec E p) (length p)) \<or>
     (\<exists>z. st = Compressed z 1 \<and> length z < length p \<and> xz_write E p = Some z) \<or>
     (\<exists>z. st = Compressed z 2 \<and> length z < length p \<and> z = lz4_compress E p)"
  unfolding stored_data_payload_def single_slice Let_def by (auto split: Compression.split option.split)

lemma stored_data_payload_cases:
  obtains
    (plain) "stored_data_payload E w payload = Uncompressed payload"
  | (zstd) z where "stored_data_payload E w payload = Compressed z 4" "length z < length (pp_to_vec payload)"
      "z = zstd_frame_with_content_size (zstd_compress_to_vec E (pp_to_vec payload)) (length (pp_to_vec payload))"
  | (xz) z where "stored_data_payload E w payload = Compressed z 1" "length z < length (pp_to_vec payload)"
      "xz_write E (pp_to_vec payload) = Some z"
  | (lz4) z where "stored_data_payload E w payload = Compressed z 2" "length z < length (pp_to_vec payload)"
      "z = lz4_compress E (pp_to_vec payload)"
  using stored_data_payload_disj [of payload E w] unfolding Let_def by blast

lemma stored_decodes:
  assumes "reliable C" and "codecs_match E C (pp_to_vec payload)"
    and blocks: "content_from_blocks C"
    and "length (pp_to_vec payload) \<le> MAX_UNCOMPRESSED_DATA_OBJECT_SIZE"
    and "flags (data_object_header (data_header d)) = object_flags (stored_data_payload E w payload)"
    and "raw_payload d = stored_bytes (stored_data_payload E w payload)"
  shows "if is_compressed (data_object_header (data_header d))
    then length (raw_payload d) < length (pp_to_vec payload) \<and>
      (\<exists>b'. decompress C d b = (Ok (length (pp_to_vec payload)), b') \<and> buf_data b' = pp_to_vec payload)
    else raw_payload d = pp_to_vec payload"
proof (cases rule: stored_data_payload_cases [where E = E and w = w and payload = payload])
  case plain
  then show ?thesis
    using assms(5,6) by (simp add: object_flags_def stored_bytes_def is_compressed_def zstd_compressed_def lz4_compressed_def
        xz_compressed_def)
next
  case (zstd z)
  then have "flags (data_object_header (data_header d)) = 4" "raw_payload d = z"
    using assms(5,6) by (simp_all add: object_flags_def stored_bytes_def)
  moreover have "\<exists>b'. decompress_zstd_payload C z b = (Ok (length (pp_to_vec payload)), b') \<and> buf_data b' = pp_to_vec payload"
  proof -
    have "length (pp_to_vec payload) < 2 ^ 64" using assms(4) by (simp add: MAX_UNCOMPRESSED_DATA_OBJECT_SIZE_def)
    then have "decodes C z (pp_to_vec payload)"
      using frame_with_size_decodes [OF _ blocks] assms(2) zstd(3) by (simp add: codecs_match_def)
    then show ?thesis by (intro zstd_decodes [OF assms(1) _ _ assms(4)]) (simp_all add: decodes_def)
  qed
  ultimately show ?thesis
    using zstd by (simp add: decompress_def Let_def is_compressed_def zstd_compressed_def)
next
  case (xz z)
  then have "flags (data_object_header (data_header d)) = 1" "raw_payload d = z"
    using assms(5,6) by (simp_all add: object_flags_def stored_bytes_def)
  moreover have "\<exists>b'. decompress_xz_payload C z b = (Ok (length (pp_to_vec payload)), b') \<and> buf_data b' = pp_to_vec payload"
    by (rule xz_decodes [OF assms(1) _ assms(4)]) (use assms(2) xz in \<open>simp add: codecs_match_def Let_def\<close>)
  ultimately show ?thesis
    using xz by (simp add: decompress_def Let_def is_compressed_def zstd_compressed_def lz4_compressed_def xz_compressed_def)
next
  case (lz4 z)
  then have "flags (data_object_header (data_header d)) = 2" "raw_payload d = z"
    using assms(5,6) by (simp_all add: object_flags_def stored_bytes_def)
  moreover have "\<exists>b'. decompress_lz4_payload C z b = (Ok (length (pp_to_vec payload)), b') \<and> buf_data b' = pp_to_vec payload"
    unfolding lz4(3) lz4_compress_def
    by (rule lz4_decodes [OF assms(1) _ assms(4)]) (use assms(2) in \<open>simp add: codecs_match_def Let_def\<close>)
  ultimately show ?thesis
    using lz4 by (simp add: decompress_def Let_def is_compressed_def zstd_compressed_def lz4_compressed_def)
qed

lemma copy_stored:
  assumes "length (raw_payload d0) = stored_len (stored_data_payload E w (payload_parts field))"
  shows "copy_to_data_object (stored_data_payload E w (payload_parts field)) off d0 s =
      (Ok (), write_bytes off (case data_payload d0 of RegularPayload _ \<Rightarrow> 64 | CompactPayload _ _ _ \<Rightarrow> 72)
         (stored_bytes (stored_data_payload E w (payload_parts field))) s)"
proof (cases "stored_data_payload E w (payload_parts field)")
  case (Uncompressed payload)
  then have "payload = payload_parts field" by (cases rule: stored_data_payload_cases [where E = E and w = w and payload = "payload_parts field"]) auto
  then show ?thesis
    using assms Uncompressed copy_to_slice_exact [OF _ payload_parts_wf, of "raw_payload d0" field]
    by (simp add: copy_to_data_object_def Let_def stored_len_def stored_bytes_def sbind_def op_run)
next
  case (Compressed z fl)
  then show ?thesis
    using assms by (simp add: copy_to_data_object_def Let_def stored_len_def stored_bytes_def op_run)
qed

lemma bytes_at_patch: "pos + length data \<le> length bs \<Longrightarrow> n = length data \<Longrightarrow> bytes_at (patch bs pos data) pos n = data"
  by (simp add: bytes_at_def patch_def)


definition sample_payload :: "u8 list" where
  "sample_payload = [65, 61] @ replicate 20 49"

text \<open>An encoder and a decoder that know one block, \<open>[7]\<close>, and read the header of a frame to find it.\<close>

definition sample_encoders :: Encoders where
  "sample_encoders =
     \<lparr>zstd_compress_to_vec = (\<lambda>_. [40, 181, 47, 253, 0, 80, 7]), xz_write = (\<lambda>_. None), lz4_block_compress = (\<lambda>_. [7])\<rparr>"

definition sample_frame :: "u8 list \<Rightarrow> ZstdFrame option" where
  "sample_frame input =
     (case zstd_header input of
        None \<Rightarrow> None
      | Some h \<Rightarrow>
          if take 1 (zstd_blocks h) = [7]
          then Some \<lparr>frame_pieces = [sample_payload], frame_broken = False, frame_content_size = 22, frame_checksum = None,
            frame_calculated = None, frame_consumed = length input - length (zstd_blocks h) + 1\<rparr>
          else None)"

definition matching_codecs :: Codecs where
  "matching_codecs =
     \<lparr>try_reserve = Some, zstd_content_size = (\<lambda>_. None), zstd_content = (\<lambda>_. None), ruzstd_frame = sample_frame,
      lz4_block = (\<lambda>_ _. Some sample_payload), xz_reads = (\<lambda>_. [])\<rparr>"

definition sample_zstd_object :: "u8 list \<Rightarrow> DataObject" where
  "sample_zstd_object bytes =
     \<lparr>data_header = \<lparr>data_object_header = \<lparr>obj_type = 1, flags = 4, obj_reserved = replicate 6 0, obj_size = 71\<rparr>, data_hash = 0,
        next_hash_offset = None, next_field_offset = None, entry_offset = None, data_entry_array_offset = None, data_n_entries = None\<rparr>,
      data_payload = RegularPayload bytes\<rparr>"

lemma zstd_header_append:
  assumes "zstd_header f = Some h"
  shows "zstd_header (f @ rest) = Some (h\<lparr>zstd_blocks := zstd_blocks h @ rest\<rparr>)"
    "5 \<le> length f" "take 4 f = [0x28, 0xb5, 0x2f, 0xfd]" "length (zstd_blocks h) + 5 \<le> length f"
  using assms by (auto simp: zstd_header_def Let_def nth_append bytes_at_def split: if_splits)

lemma sample_decodes:
  assumes "zstd_header f = Some h"
  shows "decodes matching_codecs f p \<longleftrightarrow> p = sample_payload \<and> zstd_blocks h = [7]"
proof
  note f = zstd_header_append [OF assms]
  assume "decodes matching_codecs f p"
  then obtain fr where "sample_frame f = Some fr" "concat (frame_pieces fr) = p" "frame_consumed fr = length f"
    unfolding decodes_def matching_codecs_def segment_ok.simps Codecs.select_convs by (metis append_Nil2)
  then have p: "p = sample_payload" "take 1 (zstd_blocks h) = [7]" "length f - length (zstd_blocks h) + 1 = length f"
    using assms by (auto simp: sample_frame_def split: if_splits)
  then have "length (zstd_blocks h) = 1" using f(4) by linarith
  with p show "p = sample_payload \<and> zstd_blocks h = [7]" by simp
next
  note f = zstd_header_append [OF assms]
  assume p: "p = sample_payload \<and> zstd_blocks h = [7]"
  have "u32_at f 0 = u32_at (take 4 f) 0" by (simp add: u32_at_def bytes_at_def)
  then have "u32_at f 0 = 0xfd2fb528" unfolding f(3) by (simp add: u32_at_def bytes_at_def from_le_def)
  with p f(1,2) show "decodes matching_codecs f p"
    by (simp add: decodes_def matching_codecs_def sample_frame_def frame_rejected_def frame_count_def sample_payload_def)
qed

lemma sample_codecs_match:
  "reliable matching_codecs" "codecs_match sample_encoders matching_codecs sample_payload" "content_from_blocks matching_codecs"
proof -
  show "reliable matching_codecs" by (auto simp: reliable_def matching_codecs_def)
  have "zstd_header [40, 181, 47, 253, 0, 80, 7] =
      Some \<lparr>single_segment = False, content_checksum = False, content_size = None, zstd_blocks = [7]\<rparr>"
    by (simp add: zstd_header_def Let_def size_field_len_def size_field_value_def bytes_at_def)
  then have "decodes matching_codecs [40, 181, 47, 253, 0, 80, 7] sample_payload" by (simp add: sample_decodes)
  then show "codecs_match sample_encoders matching_codecs sample_payload"
    by (simp add: codecs_match_def sample_encoders_def) (simp add: matching_codecs_def)
  show "content_from_blocks matching_codecs" unfolding content_from_blocks_def using sample_decodes by metis
qed


section \<open>Structured fields are raw fields\<close>

definition joined :: "StructuredField \<Rightarrow> EntryField" where
  "joined f = RawField (sf_name f @ [61] @ sf_value f)"

lemma joined_payload: "pp_to_vec (payload_parts (joined f)) = pp_to_vec (payload_parts (Structured f))"
  by (simp add: joined_def payload_parts_def pp_raw_def pp_structured_def pp_to_vec_concat)

lemma joined_name: "61 \<notin> set (sf_name f) \<Longrightarrow> field_name (joined f) = field_name (Structured f)"
proof -
  assume "61 \<notin> set (sf_name f)"
  then have "position (\<lambda>b. b = 61) (sf_name f @ 61 # sf_value f) = Some (length (sf_name f))"
    by (intro position_first) (auto simp: nth_append in_set_conv_nth)
  then show ?thesis by (simp add: joined_def field_name_def)
qed

lemma equals_slice_wf: "pp_len p = length (pp_to_vec p) \<Longrightarrow> equals_slice p other \<longleftrightarrow> other = pp_to_vec p"
  by (auto simp: equals_slice_def equals_loop_iff pp_to_vec_concat)

lemma copy_to_slice_wf:
  "pp_len p = length (pp_to_vec p) \<Longrightarrow> copy_to_slice p dst = (if length dst \<noteq> length (pp_to_vec p) then Err Panic else Ok (pp_to_vec p))"
  using copy_to_slice_exact [of dst p] by (simp add: copy_to_slice_def)

lemma data_lookup_cong:
  assumes "\<And>other. equals_slice p other = equals_slice q other"
  shows "data_lookup_result_at C jf ctx off hash p matched = data_lookup_result_at C jf ctx off hash q matched"
proof -
  have "data_lookup_payload_matches C ctx lookup data p = data_lookup_payload_matches C ctx lookup data q" for lookup data
    unfolding data_lookup_payload_matches_def assms ..
  then show ?thesis unfolding data_lookup_result_at_def by presburger
qed

lemma data_match_loop_cong:
  assumes "\<And>other. equals_slice p other = equals_slice q other"
  shows "data_match_loop C jf ctx hash p matched chain object_offset b = data_match_loop C jf ctx hash q matched chain object_offset b"
  using assms
proof (induction C jf ctx hash p matched chain object_offset b rule: data_match_loop.induct)
  case (1 C jf ctx hash p matched chain object_offset b)
  note look = data_lookup_cong [OF "1.prems"]
  show ?case
    unfolding data_match_loop.simps [of C jf ctx hash p matched chain object_offset b]
      data_match_loop.simps [of C jf ctx hash q matched chain object_offset b] look
    using "1.IH" [unfolded look] "1.prems" by (auto split: option.split prod.split sum.split)
qed

lemma stored_agree:
  assumes "pp_to_vec p = pp_to_vec q" and "pp_len p = length (pp_to_vec p)" and "pp_len q = length (pp_to_vec q)"
  shows "write_new_data_object E p hash = write_new_data_object E q hash"
proof -
  have copy: "copy_to_slice p = copy_to_slice q" using assms by (simp add: fun_eq_iff copy_to_slice_wf)
  have "stored_len (stored_data_payload E w p) = stored_len (stored_data_payload E w q) \<and>
      copy_to_data_object (stored_data_payload E w p) = copy_to_data_object (stored_data_payload E w q) \<and>
      object_flags (stored_data_payload E w p) = object_flags (stored_data_payload E w q)" for w
    using assms
    by (auto simp: stored_data_payload_def single_slice Let_def stored_len_def object_flags_def copy_to_data_object_def copy fun_eq_iff
        split: Compression.split option.split)
  then have len: "stored_len (stored_data_payload E w p) = stored_len (stored_data_payload E w q)"
    and bytes: "copy_to_data_object (stored_data_payload E w p) = copy_to_data_object (stored_data_payload E w q)"
    and fl: "object_flags (stored_data_payload E w p) = object_flags (stored_data_payload E w q)" for w
    by blast+
  have "write_new_data_object E p hash s = write_new_data_object E q hash s" for s
    unfolding write_new_data_object_def sbind_def [of "sget _"] op_run prod.case sum.case len bytes fl ..
  then show ?thesis ..
qed

lemma add_data_joined:
  assumes "\<And>h a b. sip_write Sip (sip_write Sip h a) b = sip_write Sip h (a @ b)" and "\<And>h. sip_write Sip h [] = h"
    and "61 \<notin> set (sf_name f)"
  shows "add_data Sip E C (joined f) = add_data Sip E C (Structured f)"
proof -
  let ?p = "payload_parts (joined f)" and ?q = "payload_parts (Structured f)"
  note wf = payload_parts_wf [of "joined f"] payload_parts_wf [of "Structured f"]
  have "foldl (sip_write Sip) h qs = sip_write Sip h (concat qs)" for h qs
    by (induction qs arbitrary: h) (auto simp: assms(1,2))
  then have hash: "hash_parts Sip jf ?p = hash_parts Sip jf ?q" for jf
    using joined_payload [of f]
    by (simp add: hash_parts_def journal_hash_data_parts_def siphash24_parts_def jenkins_hash64_parts_concat Let_def pp_to_vec_concat)
  have find: "find_data_with_link_state_parts C jf h ?p = find_data_with_link_state_parts C jf h ?q" for jf h
    unfolding find_data_with_link_state_parts_def find_data_match_parts_def
    by (subst data_match_loop_cong [of ?p ?q]) (simp_all add: equals_slice_wf wf joined_payload)
  have new: "add_new_data Sip E ?p name h = add_new_data Sip E ?q name h" for name h
    unfolding add_new_data_def stored_agree [OF joined_payload wf] ..
  show ?thesis by (simp add: add_data_def joined_name [OF assms(3)] hash find new Let_def)
qed

text \<open>
  C7. Appending structured fields is appending the fields \<open>NAME=value\<close>: with any options and from
  any state of the writer, \<open>add_entry_structured_with_options\<close> and \<open>add_entry_fields_with_options\<close> on
  the joined payloads give the same result and leave the same file, byte by byte, when no name contains an
  equals sign.  The keyed hash is only assumed to be a streaming hash.
\<close>

theorem structured_append_is_raw:
  assumes "\<And>h a b. sip_write Sip (sip_write Sip h a) b = sip_write Sip h (a @ b)" and "\<And>h. sip_write Sip h [] = h"
    and "\<forall>f \<in> set fs. 61 \<notin> set (sf_name f)"
  shows "add_entry_structured_with_options Sip E C fs rt mt options s =
    add_entry_fields_with_options Sip E C (map (\<lambda>f. RawField (sf_name f @ [61] @ sf_value f)) fs) rt mt options s"
proof -
  have prep: "prepare_fields Sip E C options (map Structured fs) xh = prepare_fields Sip E C options (map joined fs) xh" for xh
    using assms(3)
  proof (induction fs arbitrary: xh)
    case (Cons f fs)
    have "add_entry_field_item Sip E C (joined f) = add_entry_field_item Sip E C (Structured f)"
      using Cons.prems joined_payload [of f] add_data_joined [OF assms(1,2), of f]
      by (simp add: add_entry_field_item_def jenkins_hash64_parts_concat pp_to_vec_concat)
    moreover have "accept_entry_field (joined f) pol = accept_entry_field (Structured f) pol" for pol
      using Cons.prems by (simp add: accept_entry_field_def joined_name)
    moreover have "prepare_fields Sip E C options (map Structured fs) = prepare_fields Sip E C options (map joined fs)"
      using Cons by auto
    ultimately show ?case unfolding list.map prepare_fields.simps by metis
  qed simp
  then have "prepare_entry_items Sip E C options (map Structured fs) = prepare_entry_items Sip E C options (map joined fs)"
    unfolding prepare_entry_items_def by presburger
  moreover have "map (\<lambda>f. RawField (sf_name f @ [61] @ sf_value f)) fs = map joined fs" by (simp add: joined_def)
  ultimately show ?thesis
    unfolding add_entry_structured_with_options_def add_entry_fields_with_options_def by presburger
qed

theorem structured_append_is_raw_witness:
  "add_entry_structured_with_options sum_hasher plain_encoders sample_codecs [\<lparr>sf_name = [65], sf_value = [61, 49]\<rparr>] 100 5
      entry_write_options_default sample_log =
   add_entry_fields_with_options sum_hasher plain_encoders sample_codecs [RawField [65, 61, 61, 49]] 100 5
      entry_write_options_default sample_log"
  using structured_append_is_raw [of sum_hasher "[\<lparr>sf_name = [65], sf_value = [61, 49]\<rparr>]" plain_encoders sample_codecs 100 5
      entry_write_options_default sample_log]
  by (simp add: sum_hasher_def)

section \<open>The items of an entry\<close>

lemma entry_items_are_sorted_iff: "entry_items_are_sorted its \<longleftrightarrow> sorted (map item_offset its)"
  by (induction its rule: entry_items_are_sorted.induct) (auto simp: dest: order_trans)

lemma dedup_items_sorted:
  assumes "sorted (map item_offset its)"
  shows "sorted_wrt (<) (map item_offset (dedup_items its)) \<and> set (map item_offset (dedup_items its)) = set (map item_offset its) \<and>
    set (dedup_items its) \<subseteq> set its"
  using assms
proof (induction its rule: dedup_items.induct)
  case (1 a b rest)
  show ?case
  proof (cases "item_offset a = item_offset b")
    case True
    then show ?thesis using 1 by auto
  next
    case False
    then have lt: "item_offset a < item_offset x" if "x \<in> set (b # rest)" for x
      using "1.prems" that by (auto simp: less_le intro: order_trans)
    have "item_offset a < y" if "y \<in> item_offset ` set (dedup_items (b # rest))" for y
      using that lt "1.IH"(2) [OF False] "1.prems" by fastforce
    then show ?thesis using 1 False by auto
  qed
qed auto

lemma forget_repeated_states_offsets: "map item_offset (forget_repeated_states its) = map item_offset its"
  by (induction its rule: forget_repeated_states.induct) auto

lemma forget_repeated_states_nth:
  "Suc i < length its \<Longrightarrow> item_offset (its ! i) = item_offset (its ! Suc i) \<Longrightarrow>
   link_state (forget_repeated_states its ! Suc i) = None"
proof (induction its arbitrary: i rule: forget_repeated_states.induct)
  case (1 a b rest)
  show ?case
  proof (cases i)
    case 0
    have "link_state (forget_repeated_states (x # rest) ! 0) = link_state x" for x by (cases rest) simp_all
    then show ?thesis using 1 0 by simp
  next
    case (Suc j)
    then show ?thesis using "1.IH" [of j] "1.prems" by (cases j) auto
  qed
qed auto

text \<open>
  C8. The items of an entry are put into canonical form.  Without accepted fields the append is refused with
  \<open>InvalidField\<close>.  Otherwise the offsets of the items that are written are those of the accepted fields:
  strictly increasing, hence without duplicates, or, for payloads the caller vouches to be distinct,
  in nondecreasing order with the same multiplicities, where a repeated offset has lost its cached link state,
  so that the object is not linked twice from a stale state.
\<close>

theorem finish_entry_items_canonical:
  "let its = w_entry_items (writer s); (r, t) = finish_entry_items trusted s; final = w_entry_items (writer t) in
   if its = [] then r = Err InvalidField \<and> t = s
   else r = Ok () \<and> t = update_writer (\<lambda>w. w\<lparr>w_entry_items := final\<rparr>) s \<and>
     set (map item_offset final) = set (map item_offset its) \<and>
     (if trusted then sorted (map item_offset final) \<and> mset (map item_offset final) = mset (map item_offset its) \<and>
        (\<forall>i. Suc i < length final \<longrightarrow> item_offset (final ! i) = item_offset (final ! Suc i) \<longrightarrow> link_state (final ! Suc i) = None)
      else sorted_wrt (<) (map item_offset final) \<and> set final \<subseteq> set its)"
proof -
  let ?its = "w_entry_items (writer s)"
  define so where "so = (if entry_items_are_sorted ?its then ?its else sort_key item_offset ?its)"
  have so: "sorted (map item_offset so)" "mset so = mset ?its"
    by (auto simp: so_def entry_items_are_sorted_iff)
  then have m: "mset (map item_offset so) = mset (map item_offset ?its)" "set so = set ?its" "length so = length ?its"
    using mset_eq_setD mset_eq_length by (auto simp: mset_map)
  note forget = forget_repeated_states_offsets [of so]
  have fl: "length (forget_repeated_states so) = length so" using arg_cong [OF forget, of length] by simp
  have fo: "item_offset (forget_repeated_states so ! i) = item_offset (so ! i)" if "i < length so" for i
    using arg_cong [OF forget, of "\<lambda>l. l ! i"] that fl by simp
  define final where "final = (if trusted then forget_repeated_states so else dedup_items so)"
  have run: "finish_entry_items trusted s = (if ?its = [] then (Err InvalidField, s)
      else (Ok (), update_writer (\<lambda>w. w\<lparr>w_entry_items := final\<rparr>) s))"
    by (simp add: finish_entry_items_def sbind_def op_run Let_def so_def final_def)
  have w: "w_entry_items (writer (update_writer (\<lambda>w. w\<lparr>w_entry_items := final\<rparr>) s)) = final" by (simp add: update_writer_def)
  have set: "set (map item_offset final) = set (map item_offset ?its)"
    using dedup_items_sorted [OF so(1)] m(2) arg_cong [OF forget, of set] by (simp add: final_def)
  have tr: "sorted (map item_offset final) \<and> mset (map item_offset final) = mset (map item_offset ?its) \<and>
        (\<forall>i. Suc i < length final \<longrightarrow> item_offset (final ! i) = item_offset (final ! Suc i) \<longrightarrow> link_state (final ! Suc i) = None)" if trusted
    using that so m forget forget_repeated_states_nth fl fo by (simp add: final_def)
  have un: "sorted_wrt (<) (map item_offset final) \<and> set final \<subseteq> set ?its" if "\<not> trusted"
    using that dedup_items_sorted [OF so(1)] m by (simp add: final_def)
  show ?thesis using set tr un by (simp add: run w)
qed

theorem finish_entry_items_canonical_witness:
  "case finish_entry_items True (update_writer (\<lambda>w. w\<lparr>w_entry_items :=
       map (\<lambda>off. entry_item off 7 resolved_link_state_empty) [24, 16, 16]\<rparr>) sample_log) of
     (r, t) \<Rightarrow> r = Ok () \<and> sorted (map item_offset (w_entry_items (writer t))) \<and>
       mset (map item_offset (w_entry_items (writer t))) = {#16, 16, 24#} \<and>
       (\<forall>i. Suc i < length (w_entry_items (writer t)) \<longrightarrow>
          item_offset (w_entry_items (writer t) ! i) = item_offset (w_entry_items (writer t) ! Suc i) \<longrightarrow>
          link_state (w_entry_items (writer t) ! Suc i) = None)"
  using finish_entry_items_canonical [of "update_writer (\<lambda>w. w\<lparr>w_entry_items :=
       map (\<lambda>off. entry_item off 7 resolved_link_state_empty) [24, 16, 16]\<rparr>) sample_log" True]
  by (simp add: update_writer_def entry_item_def Let_def split: prod.splits)

section \<open>The field cache\<close>

text \<open>
  The field cache never holds more than its limit of entries nor a payload longer than its limit, and gives for every
  payload either nothing or the offset that was stored for it last.
\<close>

definition field_cache_ok :: "(u8 list \<times> u64) list \<Rightarrow> bool" where
  "field_cache_ok cache \<longleftrightarrow> length cache \<le> FIELD_CACHE_MAX_ENTRIES \<and> distinct (map fst cache) \<and>
     (\<forall>k \<in> fst ` set cache. length k \<le> FIELD_CACHE_MAX_PAYLOAD_LEN)"

lemma update_length: "length (AList.update k v al) = (if map_of al k = None then Suc (length al) else length al)"
  by (induction al) auto

lemma field_cache_update_ok:
  assumes "field_cache_ok c" and "length payload \<le> FIELD_CACHE_MAX_PAYLOAD_LEN"
    and "length c < FIELD_CACHE_MAX_ENTRIES \<or> map_of c payload \<noteq> None"
  shows "field_cache_ok (AList.update payload off c)"
  unfolding field_cache_ok_def
proof (intro conjI)
  show "length (AList.update payload off c) \<le> FIELD_CACHE_MAX_ENTRIES"
    using assms by (auto simp: field_cache_ok_def update_length)
  show "distinct (map fst (AList.update payload off c))"
    using assms(1) by (simp add: field_cache_ok_def distinct_update)
  show "\<forall>k \<in> fst ` set (AList.update payload off c). length k \<le> FIELD_CACHE_MAX_PAYLOAD_LEN"
    unfolding dom_update using assms(1,2) by (simp add: field_cache_ok_def)
qed

lemma field_cache_insert_ok: "field_cache_ok cache \<Longrightarrow> field_cache_ok (field_cache_insert cache payload off)"
proof -
  assume ok: "field_cache_ok cache"
  have "field_cache_ok [(payload, off)]" if "length payload \<le> FIELD_CACHE_MAX_PAYLOAD_LEN"
    using that field_cache_update_ok [of "[]" payload off] by (simp add: field_cache_ok_def FIELD_CACHE_MAX_ENTRIES_def)
  then show ?thesis
    using ok by (auto simp: field_cache_insert_def Let_def FIELD_CACHE_MAX_ENTRIES_def intro!: field_cache_update_ok)
qed

lemma field_cache_insert_get:
  "field_cache_get (field_cache_insert cache payload off) other =
     (if FIELD_CACHE_MAX_PAYLOAD_LEN < length payload then field_cache_get cache other
      else if other = payload then Some off
      else if FIELD_CACHE_MAX_ENTRIES \<le> length cache \<and> field_cache_get cache payload = None then None
      else field_cache_get cache other)"
  by (simp add: field_cache_get_def field_cache_insert_def Let_def update_conv')

end
