(* ===== verification/Journal_Create.thy ===== *)
theory Journal_Create
  imports Journal_Writer
begin

text \<open>
  Creating a journal file and opening one for appending: \<open>JournalFileOptions\<close> of
  \<^verbatim>\<open>journal-core/src/file/file.rs\<close>, the layout and the header of a new file, \<open>create\<close>,
  \<open>create_successor\<close>, \<open>open_for_append\<close> and \<open>sync\<close> of \<^verbatim>\<open>journal-core/src/file/file_mut.rs\<close>.

  The header of an open file is its mapping, the field \<open>jf_header\<close>; what another process reads at the start of the file
  are the bytes of that mapping (\<open>file_contents\<close>).  Options for sealing are left out, and so are the file's path
  and permission bits; the random identifier of a new file is an argument.
\<close>

section \<open>Options\<close>

record JournalFileOptions =
  o_machine_id :: "u8 list"
  o_seqnum_id :: "u8 list"
  o_file_id :: "u8 list"
  o_window_size :: u64
  data_hash_table_buckets :: u64
  field_hash_table_buckets :: u64
  enable_keyed_hash :: bool
  o_compression :: Compression
  o_compress_threshold :: nat
  o_compact :: bool
  o_file_mode :: u32

definition options_new :: "u8 list \<Rightarrow> u8 list \<Rightarrow> u8 list \<Rightarrow> JournalFileOptions" where
  "options_new fresh_id machine seqid =
     \<lparr>o_machine_id = machine, o_seqnum_id = seqid, o_file_id = fresh_id, o_window_size = 65536,
      data_hash_table_buckets = 233016, field_hash_table_buckets = 1023, enable_keyed_hash = True,
      o_compression = NoCompression, o_compress_threshold = 512, o_compact = False, o_file_mode = 416\<rparr>"

definition with_optimized_buckets :: "u64 option \<Rightarrow> JournalFileOptions \<Rightarrow> JournalFileOptions" where
  "with_optimized_buckets max_file_size options =
     (let n = normalize_journal_max_file_size max_file_size (o_compact options)
      in options\<lparr>data_hash_table_buckets := of_nat (data_hash_buckets_for_max_file_size n), field_hash_table_buckets := 1023\<rparr>)"

text \<open>The builders that assert something about their argument panic where it does not hold.\<close>

definition with_window_size :: "u64 \<Rightarrow> JournalFileOptions \<Rightarrow> JournalFileOptions result" where
  "with_window_size sz options = (if sz mod 8 = 0 \<and> sz mod 4096 = 0 then Ok (options\<lparr>o_window_size := sz\<rparr>) else Err Panic)"

definition with_data_hash_table_buckets :: "u64 \<Rightarrow> JournalFileOptions \<Rightarrow> JournalFileOptions result" where
  "with_data_hash_table_buckets buckets options =
     (if buckets > 0 then Ok (options\<lparr>data_hash_table_buckets := buckets\<rparr>) else Err Panic)"

definition with_field_hash_table_buckets :: "u64 \<Rightarrow> JournalFileOptions \<Rightarrow> JournalFileOptions result" where
  "with_field_hash_table_buckets buckets options =
     (if buckets > 0 then Ok (options\<lparr>field_hash_table_buckets := buckets\<rparr>) else Err Panic)"

definition with_compress_threshold :: "nat \<Rightarrow> JournalFileOptions \<Rightarrow> JournalFileOptions" where
  "with_compress_threshold thr options = options\<lparr>o_compress_threshold := normalize_compress_threshold thr\<rparr>"

definition with_file_mode :: "u32 \<Rightarrow> JournalFileOptions \<Rightarrow> JournalFileOptions result" where
  "with_file_mode mode options = (if mode \<le> 511 then Ok (options\<lparr>o_file_mode := mode\<rparr>) else Err Panic)"

definition as_incompatible_flag :: "Compression \<Rightarrow> u32" where
  "as_incompatible_flag c =
     (case c of NoCompression \<Rightarrow> 0 | Xz \<Rightarrow> incompatible_bit CompressedXz | Lz4 \<Rightarrow> incompatible_bit CompressedLz4
      | Zstd \<Rightarrow> incompatible_bit CompressedZstd)"

section \<open>Layout and header of a new file\<close>

record CreateLayout =
  l_data_hash_table_size :: u64
  l_field_hash_table_size :: u64
  l_data_hash_table_offset :: u64
  l_field_hash_table_offset :: u64
  data_hash_table_object_offset :: u64
  l_file_size :: u64

definition create_layout :: "JournalFileOptions \<Rightarrow> CreateLayout result" where
  "create_layout options =
     (let data_size = data_hash_table_buckets options * 16;
          field_size = field_hash_table_buckets options * 16;
          field_off = 272 + 16;
          data_off = field_off + field_size + 16;
          data_object_off = data_off - 16;
          append_off = data_off + data_size
      in rbind (Journal_File.round_up_to_file_size_increment append_off) (\<lambda>file_size.
           Ok \<lparr>l_data_hash_table_size = data_size, l_field_hash_table_size = field_size,
               l_data_hash_table_offset = data_off, l_field_hash_table_offset = field_off,
               data_hash_table_object_offset = data_object_off, l_file_size = file_size\<rparr>))"

definition header_default :: JournalHeader where
  "header_default = \<lparr>signature = replicate 8 0, compatible_flags = 0, incompatible_flags = 0,
     state = 0, reserved = replicate 7 0, file_id = replicate 16 0, machine_id = replicate 16 0,
     tail_entry_boot_id = replicate 16 0, seqnum_id = replicate 16 0, header_size = 0, arena_size = 0,
     data_hash_table_offset = None, data_hash_table_size = None, field_hash_table_offset = None, field_hash_table_size = None,
     tail_object_offset = None, n_objects = 0, n_entries = 0, tail_entry_seqnum = 0, head_entry_seqnum = 0, entry_array_offset = None,
     head_entry_realtime = 0, tail_entry_realtime = 0, tail_entry_monotonic = 0,
     n_data = 0, n_fields = 0, n_tags = 0, n_entry_arrays = 0, data_hash_chain_depth = 0, field_hash_chain_depth = 0,
     tail_entry_array_offset = 0, tail_entry_array_n_entries = 0, tail_entry_offset = 0\<rparr>"

definition create_header :: "JournalFileOptions \<Rightarrow> CreateLayout \<Rightarrow> JournalHeader" where
  "create_header options layout =
     (let keyed = (if enable_keyed_hash options then incompatible_bit KeyedHash else 0);
          fl = keyed OR as_incompatible_flag (o_compression options);
          fl = (if o_compact options then fl OR incompatible_bit Compact else fl)
      in header_default\<lparr>signature := journal_signature, compatible_flags := compatible_bit TailEntryBootId,
           incompatible_flags := fl,
           data_hash_table_offset := nonzero (l_data_hash_table_offset layout),
           data_hash_table_size := nonzero (l_data_hash_table_size layout),
           field_hash_table_offset := nonzero (l_field_hash_table_offset layout),
           field_hash_table_size := nonzero (l_field_hash_table_size layout),
           tail_object_offset := nonzero (data_hash_table_object_offset layout),
           header_size := 272, n_objects := 2, arena_size := l_file_size layout - 272,
           machine_id := o_machine_id options, file_id := o_file_id options, seqnum_id := o_seqnum_id options\<rparr>)"

section \<open>Creating, syncing, opening\<close>

text \<open>
  \<open>write_hash_table_object_header\<close>, through the window of the object and hence also in the table's mapping;
  the \<open>unwrap\<close> of an absent offset or size would panic.
\<close>

definition write_hash_table_object_header ::
  "(nat \<Rightarrow> u8 list \<Rightarrow> WriterFile \<Rightarrow> WriterFile) \<Rightarrow> u64 option \<Rightarrow> u64 option \<Rightarrow> ObjectType \<Rightarrow> (WriterFile, unit) op" where
  "write_hash_table_object_header write_table table_offset table_size object_type =
     (case (table_offset, table_size) of
        (Some off, Some sz) \<Rightarrow>
          sbind (slift (ok_or (nonzero (off - 16)) Panic)) (\<lambda>object_off.
          sbind (slift (validate_offset_alignment object_off)) (\<lambda>_.
          sbind (get_slice_mut object_off 16) (\<lambda>_.
          sbind (smodify (write_table 0 [object_type_code object_type])) (\<lambda>_.
            smodify (write_table 8 (to_le 8 (sz + 16)))))))
      | _ \<Rightarrow> sfail Panic)"

definition write_initial_hash_table_headers :: "JournalHeader \<Rightarrow> (WriterFile, unit) op" where
  "write_initial_hash_table_headers header =
     sbind (write_hash_table_object_header write_data_table (data_hash_table_offset header) (data_hash_table_size header)
       DataHashTable) (\<lambda>_.
       write_hash_table_object_header write_field_table (field_hash_table_offset header) (field_hash_table_size header)
         FieldHashTable)"

text \<open>The header mapping has 272 bytes: a larger \<open>header_size\<close> is out of range of the slice.\<close>

definition journal_sync :: "('z, unit) file_op" where
  "journal_sync =
     sbind (sget file_header) (\<lambda>header.
     sbind (if header_size header > 272 then sfail Panic else sret ()) (\<lambda>_.
     sbind (sget (\<lambda>s. max (header_size header + arena_size header) (retained_len s))) (\<lambda>logical.
     sbind (set_file_len logical) (\<lambda>_.
     sbind (smodify (write_bytes 0 0 (take (unat (header_size header)) (header_to_bytes header)))) (\<lambda>_.
       smodify (\<lambda>s. s\<lparr>retained_len := logical\<rparr>))))))"

definition journal_create :: "JournalFileOptions \<Rightarrow> nat \<Rightarrow> WriterFile result" where
  "journal_create options limit =
     rbind (create_layout options) (\<lambda>layout.
       if o_compact options \<and> l_file_size layout > 0xffffffff then Err ObjectExceedsFileBounds
       else if limit < unat (l_file_size layout) then Err (Io OtherIo)
       else let header = create_header options layout;
                zeros = replicate (unat (l_file_size layout)) 0
            in rbind (map_hash_table zeros (header_size header) (data_hash_table_offset header) (data_hash_table_size header)) (\<lambda>dm.
               rbind (map_hash_table zeros (header_size header) (field_hash_table_offset header) (field_hash_table_size header)) (\<lambda>fm.
               let header = header\<lparr>state := 1\<rparr>;
                   s = \<lparr>journal_file = \<lparr>jf_header = header, jf_bytes = patch zeros 0 (header_to_bytes header),
                          data_hash_table_map = dm, field_hash_table_map = fm, recovery_enabled = False, recovery = None,
                          recovery_changed = False, filter_recovery_seen = False\<rparr>,
                        window_size = o_window_size options, retained_len = l_file_size layout, disk_limit = limit\<rparr>
               in case sbind (write_initial_hash_table_headers header) (\<lambda>_. journal_sync) s of
                    (Inl e, _) \<Rightarrow> Err e
                  | (Inr _, t) \<Rightarrow> Ok t)))"

definition create_successor_with_file_mode ::
  "u8 list \<Rightarrow> JournalFile \<Rightarrow> u64 option \<Rightarrow> u32 \<Rightarrow> nat \<Rightarrow> WriterFile result" where
  "create_successor_with_file_mode fresh_id jf max_file_size mode limit =
     (let header = jf_header jf
      in rbind (with_window_size (8 * 1024 * 1024) (options_new fresh_id (machine_id header) (seqnum_id header))) (\<lambda>options.
         rbind (with_file_mode mode (options\<lparr>enable_keyed_hash := has_incompatible_flag header KeyedHash,
             o_compact := has_incompatible_flag header Compact\<rparr>)) (\<lambda>options.
         let options = with_optimized_buckets max_file_size options;
             options = (if has_incompatible_flag header CompressedZstd then options\<lparr>o_compression := Zstd\<rparr>
                        else if has_incompatible_flag header CompressedXz then options\<lparr>o_compression := Xz\<rparr>
                        else if has_incompatible_flag header CompressedLz4 then options\<lparr>o_compression := Lz4\<rparr>
                        else options)
         in journal_create options limit)))"

definition open_for_append :: "u8 list \<Rightarrow> u64 \<Rightarrow> nat \<Rightarrow> WriterFile result" where
  "open_for_append contents window limit =
     (if length contents < 272 then Err ObjectExceedsFileBounds
      else rbind (ok_or (header_from_bytes (take 272 contents)) Panic) (\<lambda>header.
           if signature header \<noteq> journal_signature then Err InvalidMagicNumber
           else if header_size header < 272 then Err UnsupportedJournalFile
           else if \<not> has_incompatible_flag header KeyedHash then Err UnsupportedJournalFile
           else rbind (validate_empty_entry_metadata header) (\<lambda>_.
                rbind (validate_committed_arena_header header (of_nat (length contents)) (slice_at contents)) (\<lambda>_.
                rbind (map_hash_table contents (header_size header) (data_hash_table_offset header) (data_hash_table_size header)) (\<lambda>dm.
                rbind (map_hash_table contents (header_size header) (field_hash_table_offset header) (field_hash_table_size header)) (\<lambda>fm.
                  Ok \<lparr>journal_file = \<lparr>jf_header = header, jf_bytes = contents, data_hash_table_map = dm, field_hash_table_map = fm,
                        recovery_enabled = False, recovery = None, recovery_changed = False, filter_recovery_seen = False\<rparr>,
                      window_size = window, retained_len = of_nat (length contents), disk_limit = limit\<rparr>))))))"

definition file_contents :: "'z WriterFile_scheme \<Rightarrow> u8 list" where
  "file_contents s = patch (file_bytes s) 0 (header_to_bytes (file_header s))"

section \<open>A created file opens\<close>

lemma and_not_mask_unat:
  fixes v :: u64
  shows "unat (v AND NOT (8388608 - 1)) = unat v div 8388608 * 8388608"
proof -
  have m: "(8388608 - 1 :: u64) = mask 23" by (simp add: mask_eq_exp_minus_1)
  have "v AND NOT (8388608 - 1) = push_bit 23 (drop_bit 23 v)"
    unfolding m by (rule bit_word_eqI) (auto simp: bit_simps not_le)
  moreover have "unat (push_bit 23 (drop_bit 23 v)) = unat v div 2 ^ 23 * 2 ^ 23"
  proof -
    have "push_bit 23 (drop_bit 23 v) = of_nat (unat v div 2 ^ 23 * 2 ^ 23)"
      by (simp add: push_bit_eq_mult drop_bit_eq_div word_arith_nat_div)
    moreover have "unat (of_nat (unat v div 2 ^ 23 * 2 ^ 23) :: u64) = unat v div 2 ^ 23 * 2 ^ 23"
      by (rule of_nat_inverse [OF refl]) (rule le_less_trans [OF div_times_less_eq_dividend unsigned_less])
    ultimately show ?thesis by (simp only:)
  qed
  ultimately show ?thesis by simp
qed

definition buckets_ok :: "JournalFileOptions \<Rightarrow> bool" where
  "buckets_ok options \<longleftrightarrow> 2 \<le> data_hash_table_buckets options \<and> data_hash_table_buckets options < 2 ^ 32 \<and>
     2 \<le> field_hash_table_buckets options \<and> field_hash_table_buckets options < 2 ^ 32"

lemma create_layout_shape:
  assumes "buckets_ok options"
  defines "d \<equiv> unat (data_hash_table_buckets options)" and "f \<equiv> unat (field_hash_table_buckets options)"
  obtains layout where "create_layout options = Ok layout"
    and "unat (l_data_hash_table_size layout) = 16 * d" and "unat (l_field_hash_table_size layout) = 16 * f"
    and "unat (l_data_hash_table_offset layout) = 304 + 16 * f" and "unat (l_field_hash_table_offset layout) = 288"
    and "unat (data_hash_table_object_offset layout) = 288 + 16 * f"
    and "304 + 16 * f + 16 * d \<le> unat (l_file_size layout)" and "unat (l_file_size layout) < 2 ^ 40"
    and "8388608 dvd unat (l_file_size layout)"
proof -
  let ?d = "data_hash_table_buckets options" and ?f = "field_hash_table_buckets options"
  have b: "2 \<le> d" "d < 2 ^ 32" "2 \<le> f" "f < 2 ^ 32"
    using assms(1) by (simp_all add: buckets_ok_def d_def f_def word_le_nat_alt word_less_nat_alt)
  have ds: "unat (?d * 16) = 16 * d" and fs: "unat (?f * 16) = 16 * f"
    using b by (simp_all add: unat_word_ariths d_def f_def)
  have off: "unat (272 + 16 + ?f * 16 + 16) = 304 + 16 * f" "unat (272 + 16 + ?f * 16 + 16 - 16) = 288 + 16 * f"
    using b fs by (simp_all add: unat_word_ariths)
  have app: "unat (272 + 16 + ?f * 16 + 16 + ?d * 16) = 304 + 16 * f + 16 * d"
    using b off(1) ds by (simp add: unat_word_ariths)
  define a where "a = 272 + 16 + ?f * 16 + 16 + ?d * 16"
  note a = a_def [symmetric]
  have ua: "unat a = 304 + 16 * f + 16 * d" using app by (simp only: a)
  have add: "checked_add a (8388608 - 1) = Some (a + (8388608 - 1))" "unat (a + (8388608 - 1)) = 304 + 16 * f + 16 * d + 8388607"
    using b by (simp_all add: checked_add_def unat_word_ariths ua)
  let ?n = "(a + (8388608 - 1)) AND NOT (8388608 - 1)"
  have n: "unat ?n = (304 + 16 * f + 16 * d + 8388607) div 8388608 * 8388608"
    by (simp only: and_not_mask_unat add)
  show thesis
    by (rule that [of "\<lparr>l_data_hash_table_size = ?d * 16, l_field_hash_table_size = ?f * 16,
        l_data_hash_table_offset = 272 + 16 + ?f * 16 + 16, l_field_hash_table_offset = 272 + 16,
        data_hash_table_object_offset = 272 + 16 + ?f * 16 + 16 - 16, l_file_size = ?n\<rparr>"])
      (use b in \<open>simp_all only: CreateLayout.simps n ds fs off create_layout_def Let_def a
         Journal_File.round_up_to_file_size_increment_def add option.map ok_or_def option.case rbind_def sum.case\<close>, auto)
qed

lemma patch_append_left: "length xs \<le> pos \<Longrightarrow> patch (xs @ ys) pos data = xs @ patch ys (pos - length xs) data"
  by (simp add: patch_def)

lemma patch_append_right: "pos + length data \<le> length ys \<Longrightarrow> patch (ys @ zs) pos data = patch ys pos data @ zs"
  by (simp add: patch_def)

lemma chunk_end_within:
  assumes "unat w dvd n" and "a \<le> n" and "0 < unat w"
  shows "chunk_end w a \<le> n"
proof -
  obtain k where k: "n = unat w * k" using assms(1) by blast
  have "(a + unat w - 1) div unat w \<le> k"
  proof (rule ccontr)
    assume "\<not> ?thesis"
    then have "Suc k \<le> (a + unat w - 1) div unat w" by simp
    then have "Suc k * unat w \<le> a + unat w - 1" using assms(3) by (simp add: less_eq_div_iff_mult_less_eq)
    then show False using assms(2,3) k by (simp add: mult.commute)
  qed
  then show ?thesis by (simp add: chunk_end_def k mult.commute)
qed

lemma get_slice_mut_mapped:
  assumes "unat (window_size s) dvd length (file_bytes s)" and "0 < unat (window_size s)"
    and "unat pos + unat sz \<le> length (file_bytes s)" and "length (file_bytes s) < 2 ^ 64"
  shows "get_slice_mut pos sz s = (Ok (bytes_at (file_bytes s) (unat pos) (unat sz)), s)"
proof -
  have "chunk_end (window_size s) (unat pos + unat sz) \<le> length (file_bytes s)"
    using chunk_end_within [OF assms(1,3,2)] .
  then show ?thesis
    using assms(3,4) by (simp add: get_slice_mut_def sbind_def op_run map_window_def Let_def checked_add_def ok_or_def)
qed

text \<open>An empty hash table object of \<open>m\<close> bytes, and the bytes of a new file: header, field table, data table, free space.\<close>

definition empty_table :: "ObjectType \<Rightarrow> nat \<Rightarrow> u8 list" where
  "empty_table T m = [object_type_code T] @ replicate 7 0 @ to_le 8 (of_nat m :: u64) @ replicate (m - 16) 0"

definition new_file :: "JournalHeader \<Rightarrow> nat \<Rightarrow> nat \<Rightarrow> nat \<Rightarrow> u8 list" where
  "new_file h mf md n =
     header_to_bytes h @ empty_table FieldHashTable mf @ empty_table DataHashTable md @ replicate (n - (272 + mf + md)) 0"

lemma length_empty_table: "16 \<le> m \<Longrightarrow> length (empty_table T m) = m"
  by (simp add: empty_table_def)

lemma empty_table_patches:
  assumes "16 \<le> m"
  shows "patch (patch (replicate m 0) 0 [object_type_code T]) 8 (to_le 8 (of_nat m :: u64)) = empty_table T m"
proof -
  have "replicate m (0 :: u8) = [0] @ replicate 7 0 @ replicate 8 0 @ replicate (m - 16) 0"
    using assms by (simp flip: replicate_add replicate_Suc)
  then show ?thesis by (simp add: patch_def empty_table_def)
qed

definition ids_ok :: "JournalFileOptions \<Rightarrow> bool" where
  "ids_ok options \<longleftrightarrow> length (o_machine_id options) = 16 \<and> length (o_seqnum_id options) = 16 \<and> length (o_file_id options) = 16"

definition new_journal_file :: "JournalHeader \<Rightarrow> nat \<Rightarrow> nat \<Rightarrow> nat \<Rightarrow> JournalFile" where
  "new_journal_file h mf md n =
     \<lparr>jf_header = h, jf_bytes = new_file h mf md n, data_hash_table_map = Some (empty_table DataHashTable md),
      field_hash_table_map = Some (empty_table FieldHashTable mf), recovery_enabled = False, recovery = None,
      recovery_changed = False, filter_recovery_seen = False\<rparr>"

lemma table_header_written:
  assumes "unat (window_size s) dvd length (file_bytes s)" and "0 < unat (window_size s)" and "length (file_bytes s) < 2 ^ 64"
    and "16 \<le> unat off" and "unat off mod 8 = 0" and "unat off + unat sz \<le> length (file_bytes s)" and "unat off \<noteq> 16"
  shows "write_hash_table_object_header write_table (Some off) (Some sz) T s =
    (Ok (), write_table 8 (to_le 8 (sz + 16)) (write_table 0 [object_type_code T] s))"
proof -
  have o: "unat (off - 16) = unat off - 16" using assms(4) by (simp add: unat_sub word_le_nat_alt)
  have nz: "nonzero (off - 16) = Some (off - 16)" using assms(4,7) o by (auto simp: nonzero_def)
  have al: "validate_offset_alignment (off - 16) = Ok ()"
  proof -
    have "unat (off - 16) mod 8 = 0" unfolding o using assms(4,5) by presburger
    then show ?thesis by (simp add: validate_offset_alignment_def word_arith_nat_mod)
  qed
  have "get_slice_mut (off - 16) 16 s = (Ok (bytes_at (file_bytes s) (unat (off - 16)) (unat (16 :: u64))), s)"
    by (rule get_slice_mut_mapped [OF assms(1,2) _ assms(3)]) (use assms(4,6) o in simp)
  then show ?thesis
    by (simp add: write_hash_table_object_header_def sbind_def op_run nz al ok_or_def)
qed

lemma layout_facts:
  assumes "buckets_ok options" and "create_layout options = Ok layout"
  defines "md \<equiv> 16 + 16 * unat (data_hash_table_buckets options)" and "mf \<equiv> 16 + 16 * unat (field_hash_table_buckets options)"
  shows "unat (l_data_hash_table_size layout) = md - 16" "unat (l_field_hash_table_size layout) = mf - 16"
    "unat (l_data_hash_table_offset layout) = 288 + mf" "unat (l_field_hash_table_offset layout) = 288"
    "unat (data_hash_table_object_offset layout) = 272 + mf"
    "272 + mf + md \<le> unat (l_file_size layout)" "unat (l_file_size layout) < 2 ^ 40"
    "8388608 dvd unat (l_file_size layout)" "48 \<le> md" "48 \<le> mf" "md mod 16 = 0" "mf mod 16 = 0"
proof -
  from create_layout_shape [OF assms(1)] obtain l where l: "create_layout options = Ok l"
    and f: "unat (l_data_hash_table_size l) = md - 16" "unat (l_field_hash_table_size l) = mf - 16"
    "unat (l_data_hash_table_offset l) = 288 + mf" "unat (l_field_hash_table_offset l) = 288"
    "unat (data_hash_table_object_offset l) = 272 + mf"
    "272 + mf + md \<le> unat (l_file_size l)" "unat (l_file_size l) < 2 ^ 40" "8388608 dvd unat (l_file_size l)"
    by (simp add: md_def mf_def add.assoc) blast
  then have "l = layout" using assms(2) by simp
  with f show "unat (l_data_hash_table_size layout) = md - 16" "unat (l_field_hash_table_size layout) = mf - 16"
    "unat (l_data_hash_table_offset layout) = 288 + mf" "unat (l_field_hash_table_offset layout) = 288"
    "unat (data_hash_table_object_offset layout) = 272 + mf"
    "272 + mf + md \<le> unat (l_file_size layout)" "unat (l_file_size layout) < 2 ^ 40"
    "8388608 dvd unat (l_file_size layout)"
    by simp_all
  show "48 \<le> md" "48 \<le> mf" using assms(1) by (simp_all add: buckets_ok_def md_def mf_def word_le_nat_alt)
  show "md mod 16 = 0" "mf mod 16 = 0" by (simp_all add: md_def mf_def)
qed

lemma created_header:
  assumes "buckets_ok options" and "ids_ok options" and "create_layout options = Ok layout"
  defines "h \<equiv> (create_header options layout)\<lparr>state := 1\<rparr>"
  shows "data_hash_table_offset h = Some (l_data_hash_table_offset layout)" "data_hash_table_size h = Some (l_data_hash_table_size layout)"
    "field_hash_table_offset h = Some (l_field_hash_table_offset layout)" "field_hash_table_size h = Some (l_field_hash_table_size layout)"
    "tail_object_offset h = Some (data_hash_table_object_offset layout)" "header_size h = 272"
    "arena_size h = l_file_size layout - 272" "unat (arena_size h) = unat (l_file_size layout) - 272" "header_wf h"
    "signature h = journal_signature"
proof -
  note f = layout_facts [OF assms(1,3)]
  have nz: "nonzero (l_data_hash_table_offset layout) = Some (l_data_hash_table_offset layout)"
    "nonzero (l_data_hash_table_size layout) = Some (l_data_hash_table_size layout)"
    "nonzero (l_field_hash_table_offset layout) = Some (l_field_hash_table_offset layout)"
    "nonzero (l_field_hash_table_size layout) = Some (l_field_hash_table_size layout)"
    "nonzero (data_hash_table_object_offset layout) = Some (data_hash_table_object_offset layout)"
    using f(1-5,9,10) by (auto simp: nonzero_def)
  show fields: "data_hash_table_offset h = Some (l_data_hash_table_offset layout)" "data_hash_table_size h = Some (l_data_hash_table_size layout)"
    "field_hash_table_offset h = Some (l_field_hash_table_offset layout)" "field_hash_table_size h = Some (l_field_hash_table_size layout)"
    "tail_object_offset h = Some (data_hash_table_object_offset layout)" "header_size h = 272"
    "arena_size h = l_file_size layout - 272" "signature h = journal_signature"
    by (simp_all add: h_def create_header_def Let_def nz)
  show "unat (arena_size h) = unat (l_file_size layout) - 272"
    using f(6) by (simp add: fields unat_sub word_le_nat_alt)
  have other: "entry_array_offset h = None" "length (reserved h) = 7" "length (tail_entry_boot_id h) = 16"
    "length (file_id h) = 16" "length (machine_id h) = 16" "length (seqnum_id h) = 16"
    using assms(2) by (simp_all add: h_def create_header_def Let_def header_default_def ids_ok_def)
  have "0 \<notin> {l_data_hash_table_offset layout, l_data_hash_table_size layout, l_field_hash_table_offset layout,
      l_field_hash_table_size layout, data_hash_table_object_offset layout}"
    using f(1-5,9,10) by auto
  then show "header_wf h" by (simp add: header_wf_def fields other journal_signature_def)
qed

lemma map_hash_table_ok:
  assumes "288 \<le> unat off" and "16 < unat sz" and "unat off + unat sz \<le> length bs" and "length bs < 2 ^ 64"
  shows "map_hash_table bs 272 (Some off) (Some sz) = Ok (Some (bytes_at bs (unat off - 16) (16 + unat sz)))"
proof -
  have u: "unat (off - 16) = unat off - 16" "unat (16 + sz) = 16 + unat sz"
    using assms by (simp_all add: unat_sub word_le_nat_alt unat_word_ariths)
  have "\<not> off < 272 + 16" "\<not> sz \<le> 16" using assms(1,2) by (simp_all add: word_less_nat_alt word_le_nat_alt)
  then show ?thesis using assms(1,3) by (simp add: map_hash_table_def slice_at_def u)
qed

lemma write_data_table_split:
  assumes "file_bytes s = pre @ m @ post" and "data_hash_table_map (journal_file s) = Some m"
    and "data_hash_table_offset (file_header s) = Some off" and "unat off = 16 + length pre" and "rel + length data \<le> length m"
  shows "write_data_table rel data s =
    s\<lparr>journal_file := (journal_file s)\<lparr>data_hash_table_map := Some (patch m rel data), jf_bytes := pre @ patch m rel data @ post\<rparr>\<rparr>"
proof -
  have "unat (off - 16) = length pre" using assms(4) by (simp add: unat_sub word_le_nat_alt)
  then show ?thesis
    using assms by (simp add: write_data_table_def write_bytes_def set_bytes_def patch_append_left patch_append_right)
qed

lemma write_field_table_split:
  assumes "file_bytes s = pre @ m @ post" and "field_hash_table_map (journal_file s) = Some m"
    and "field_hash_table_offset (file_header s) = Some off" and "unat off = 16 + length pre" and "rel + length data \<le> length m"
  shows "write_field_table rel data s =
    s\<lparr>journal_file := (journal_file s)\<lparr>field_hash_table_map := Some (patch m rel data), jf_bytes := pre @ patch m rel data @ post\<rparr>\<rparr>"
proof -
  have "unat (off - 16) = length pre" using assms(4) by (simp add: unat_sub word_le_nat_alt)
  then show ?thesis
    using assms by (simp add: write_field_table_def write_bytes_def set_bytes_def patch_append_left patch_append_right)
qed

lemma sync_new_file:
  assumes "header_wf h" and "header_size h = 272" and "arena_size h = sz - 272" and "jf_header (journal_file s) = h"
    and "retained_len s = sz" and "file_bytes s = header_to_bytes h @ rest" and "length (file_bytes s) = unat sz" and "unat sz \<le> disk_limit s"
  shows "journal_sync s = (Ok (), s)"
proof -
  have hb: "length (header_to_bytes h) = 272" by (rule length_header_to_bytes [OF assms(1)])
  have "patch (header_to_bytes h @ rest) 0 (header_to_bytes h) = header_to_bytes h @ rest" by (simp add: patch_def)
  then show ?thesis
    using assms(2-) hb
    by (simp add: journal_sync_def sbind_def op_run set_file_len_def zero_extend_def set_bytes_def write_bytes_def)
qed

lemma journal_create_shape:
  assumes "buckets_ok options" and "ids_ok options" and "0 < unat (o_window_size options)" and "unat (o_window_size options) dvd 8388608"
    and "create_layout options = Ok layout" and "unat (l_file_size layout) \<le> limit"
    and "o_compact options \<Longrightarrow> l_file_size layout \<le> 0xffffffff"
  defines "h \<equiv> (create_header options layout)\<lparr>state := 1\<rparr>" and "n \<equiv> unat (l_file_size layout)"
    and "md \<equiv> 16 + 16 * unat (data_hash_table_buckets options)" and "mf \<equiv> 16 + 16 * unat (field_hash_table_buckets options)"
  shows "journal_create options limit = Ok \<lparr>journal_file = new_journal_file h mf md n, window_size = o_window_size options,
      retained_len = l_file_size layout, disk_limit = limit\<rparr>"
proof -
  note f = layout_facts [OF assms(1,5), folded md_def mf_def n_def]
  note hdr = created_header [OF assms(1,2,5), folded h_def]
  have hb: "length (header_to_bytes h) = 272" by (rule length_header_to_bytes [OF hdr(9)])
  have w: "unat (o_window_size options) dvd n" using assms(4) f(8) dvd_trans by blast
  let ?z = "\<lambda>k. replicate k (0 :: u8)"
  let ?r = "n - (272 + mf + md)"
  have maps: "map_hash_table (?z n) 272 (Some (l_data_hash_table_offset layout)) (Some (l_data_hash_table_size layout)) = Ok (Some (?z md))"
    "map_hash_table (?z n) 272 (Some (l_field_hash_table_offset layout)) (Some (l_field_hash_table_size layout)) = Ok (Some (?z mf))"
    using f by (simp_all add: map_hash_table_ok bytes_at_def)
  let ?st = "\<lambda>bs dm fm. \<lparr>journal_file = \<lparr>jf_header = h, jf_bytes = bs, data_hash_table_map = Some dm, field_hash_table_map = Some fm,
      recovery_enabled = False, recovery = None, recovery_changed = False, filter_recovery_seen = False\<rparr>,
      window_size = o_window_size options, retained_len = l_file_size layout, disk_limit = limit\<rparr> :: WriterFile"
  let ?hb = "header_to_bytes h" and ?F = "empty_table FieldHashTable mf" and ?D = "empty_table DataHashTable md"
  let ?sa = "?st ((?hb @ ?z mf) @ ?z md @ ?z ?r) (?z md) (?z mf)"
  let ?sb = "?st (?hb @ ?z mf @ (?D @ ?z ?r)) ?D (?z mf)"
  let ?sc = "?st (?hb @ ?F @ (?D @ ?z ?r)) ?D ?F"
  have start: "patch (?z n) 0 ?hb = (?hb @ ?z mf) @ ?z md @ ?z ?r"
    using f(6) hb by (simp add: patch_def flip: replicate_add)
  have len: "length (file_bytes ?sa) = n" "length (file_bytes ?sb) = n" "length (file_bytes ?sc) = n"
    using f(6,9,10) hb by (simp_all add: length_empty_table)
  have size: "l_data_hash_table_size layout + 16 = of_nat md" "l_field_hash_table_size layout + 16 = of_nat mf"
    using f(1,2,9,10) by (simp_all add: word_unat_eq_iff unat_word_ariths unat_of_nat)
  have tables: "patch (patch (?z md) 0 [4]) 8 (to_le 8 (of_nat md :: u64)) = ?D" "patch (patch (?z mf) 0 [5]) 8 (to_le 8 (of_nat mf :: u64)) = ?F"
    using empty_table_patches [of md DataHashTable] empty_table_patches [of mf FieldHashTable] f(9,10) by simp_all
  have al: "(288 + mf) mod 8 = 0" using f(12) by presburger
  have d: "write_hash_table_object_header write_data_table (data_hash_table_offset h) (data_hash_table_size h) DataHashTable ?sa = (Ok (), ?sb)"
  proof -
    have "write_hash_table_object_header write_data_table (data_hash_table_offset h) (data_hash_table_size h) DataHashTable ?sa =
        (Ok (), write_data_table 8 (to_le 8 (of_nat md :: u64)) (write_data_table 0 [object_type_code DataHashTable] ?sa))"
      unfolding hdr(1,2) size(1) [symmetric]
      by (rule table_header_written) (use f assms(3) w hb len(1) al in simp_all)
    also have "\<dots> = (Ok (), ?sb)"
      using f hb by (simp add: write_data_table_split [where pre = "?hb @ ?z mf" and off = "l_data_hash_table_offset layout"] hdr(1) tables)
    finally show ?thesis .
  qed
  have fl: "write_hash_table_object_header write_field_table (field_hash_table_offset h) (field_hash_table_size h) FieldHashTable ?sb = (Ok (), ?sc)"
  proof -
    have "write_hash_table_object_header write_field_table (field_hash_table_offset h) (field_hash_table_size h) FieldHashTable ?sb =
        (Ok (), write_field_table 8 (to_le 8 (of_nat mf :: u64)) (write_field_table 0 [object_type_code FieldHashTable] ?sb))"
      unfolding hdr(3,4) size(2) [symmetric]
      by (rule table_header_written) (use f assms(3) w hb len(2) in \<open>simp_all add: length_empty_table\<close>)
    also have "\<dots> = (Ok (), ?sc)"
      using f hb by (simp add: write_field_table_split [where pre = ?hb and off = "l_field_hash_table_offset layout"] hdr(3) tables)
    finally show ?thesis .
  qed
  have sy: "journal_sync ?sc = (Ok (), ?sc)"
    by (rule sync_new_file [OF hdr(9,6,7)]) (use len(3) assms(6) in \<open>simp_all add: n_def\<close>)
  have "\<not> (o_compact options \<and> l_file_size layout > 0xffffffff)" using assms(7) by auto
  moreover have "header_size (create_header options layout) = 272"
    "data_hash_table_offset (create_header options layout) = Some (l_data_hash_table_offset layout)"
    "data_hash_table_size (create_header options layout) = Some (l_data_hash_table_size layout)"
    "field_hash_table_offset (create_header options layout) = Some (l_field_hash_table_offset layout)"
    "field_hash_table_size (create_header options layout) = Some (l_field_hash_table_size layout)"
    using hdr(1-4,6) by (simp_all add: h_def)
  moreover have "\<not> limit < n" using assms(6) by (simp add: n_def)
  moreover have "sbind (write_initial_hash_table_headers h) (\<lambda>_. journal_sync) ?sa = (Ok (), ?sc)"
    by (simp only: write_initial_hash_table_headers_def sbind_def d fl sy prod.case sum.case)
  moreover have "?sc = \<lparr>journal_file = new_journal_file h mf md n, window_size = o_window_size options,
      retained_len = l_file_size layout, disk_limit = limit\<rparr>"
    by (simp add: new_journal_file_def new_file_def)
  ultimately show ?thesis
    using maps start unfolding journal_create_def assms(5) rbind_def sum.case Let_def h_def [symmetric] n_def [symmetric]
    by (simp only: if_False sum.case prod.case)
qed

lemma created_header_rest:
  fixes options layout
  defines "h \<equiv> (create_header options layout)\<lparr>state := 1\<rparr>"
  shows "n_objects h = 2" "n_entries h = 0" "entry_array_offset h = None" "tail_entry_array_offset h = 0"
    "tail_entry_array_n_entries h = 0" "tail_entry_offset h = 0" "n_data h = 0" "n_fields h = 0" "n_tags h = 0" "n_entry_arrays h = 0"
    "validate_empty_entry_metadata h = Ok ()"
  by (simp_all add: h_def create_header_def header_default_def Let_def validate_empty_entry_metadata_def)

lemma created_header_keyed:
  "enable_keyed_hash options \<Longrightarrow> has_incompatible_flag ((create_header options layout)\<lparr>state := 1\<rparr>) KeyedHash"
  by (cases "o_compression options")
    (simp_all add: has_incompatible_flag_def create_header_def Let_def as_incompatible_flag_def)

lemma created_arena_valid:
  assumes "buckets_ok options" and "ids_ok options" and "create_layout options = Ok layout"
  defines "h \<equiv> (create_header options layout)\<lparr>state := 1\<rparr>"
  shows "validated_arena_end h (l_file_size layout) = Ok (l_file_size layout)"
proof -
  note f = layout_facts [OF assms(1,3)]
  note hdr = created_header [OF assms(1-3), folded h_def]
  note rest = created_header_rest [of options layout, folded h_def]
  let ?n = "l_file_size layout"
  have e: "declared_arena_end h = Ok ?n"
    using f(6,7) by (simp add: declared_arena_end_def hdr(6,7) checked_add_def ok_or_def unat_sub word_le_nat_alt)
  have m: "validate_mapping h ?n (data_hash_table_offset h, data_hash_table_size h) = Ok ()"
    "validate_mapping h ?n (field_hash_table_offset h, field_hash_table_size h) = Ok ()"
    using f by (auto simp: validate_mapping_def hdr word_less_nat_alt word_le_nat_alt unat_sub word_arith_nat_mod mod_add_eq)
  have "validate_reader_mappings h ?n = Ok ()"
    using f(6) by (simp add: validate_reader_mappings_def e m hdr(6) word_less_nat_alt)
  moreover have "validate_header_population h = Ok ()"
  proof -
    have "2 * 16 \<le> unat (arena_size h)" using f(6,9,10) unfolding hdr(8) by linarith
    then have "2 \<le> unat (arena_size h) div 16" by linarith
    then have "\<not> arena_size h div 16 < 2" by (simp add: word_less_nat_alt unat_div)
    then show ?thesis
      by (simp add: validate_header_population_def rest population_counts_def hdr(1,3,6) validate_array_population_def
          minimum_entry_arrays_def map_or_0_def)
  qed
  moreover have "validate_arena_object h (data_hash_table_object_offset layout) 16 ?n = Ok ()"
    using f by (auto simp: validate_arena_object_def hdr map_or_0_def word_less_nat_alt unat_sub word_le_nat_alt word_arith_nat_mod)
  moreover have "\<not> data_hash_table_object_offset layout < l_data_hash_table_offset layout - 16"
    "\<not> data_hash_table_object_offset layout < l_field_hash_table_offset layout - 16" "data_hash_table_object_offset layout \<noteq> 0"
    using f(3-5) by (auto simp: word_less_nat_alt unat_sub word_le_nat_alt)
  ultimately show ?thesis
    by (simp add: validated_arena_end_def e rest hdr(1,3,5,6) map_or_0_def)
qed

lemma empty_table_header:
  assumes "16 \<le> m" and "m < 2 ^ 64"
  shows "obj_type (object_header_from_bytes (take 16 (empty_table T m))) = object_type_code T"
    "unat (obj_size (object_header_from_bytes (take 16 (empty_table T m)))) = m"
  using assms by (simp_all add: object_header_from_bytes_def empty_table_def u64_at_def bytes_at_def from_le_to_le unat_of_nat)

lemma chunks_zeros: "chunks 16 (replicate (16 * k) (0 :: u8)) = replicate k (replicate 16 0)"
proof (induction k)
  case (Suc k)
  have "replicate (16 * Suc k) (0 :: u8) = replicate 16 0 @ replicate (16 * k) 0" by (simp flip: replicate_add)
  then show ?case using Suc by (subst chunks.simps) simp
qed (simp add: chunks.simps)

lemma empty_table_lookup:
  assumes "0 < k"
  shows "\<exists>t. hash_table_from_data (empty_table T (16 + 16 * k)) = Some t \<and>
    hash_item_ref t hash = Ok \<lparr>head_hash_offset = None, tail_hash_offset = None\<rparr>"
proof -
  have "drop 16 (empty_table T (16 + 16 * k)) = replicate (16 * k) 0" by (simp add: empty_table_def)
  then have "hash_table_from_data (empty_table T (16 + 16 * k)) =
      Some \<lparr>table_header = object_header_from_bytes (take 16 (empty_table T (16 + 16 * k))),
        table_items = replicate k (hash_item_from_bytes (replicate 16 0))\<rparr>"
    using assms by (simp add: hash_table_from_data_def length_empty_table chunks_zeros)
  moreover have "hash_item_from_bytes (replicate 16 0) = \<lparr>head_hash_offset = None, tail_hash_offset = None\<rparr>"
    by (simp add: hash_item_from_bytes_def u64_at_def bytes_at_def from_le_def horner_sum_zeros nonzero_def)
  ultimately show ?thesis using assms by (simp add: hash_item_ref_def)
qed

lemma new_file_slices:
  assumes "length (header_to_bytes h) = 272" and "16 \<le> mf" and "16 \<le> md"
  shows "take 272 (new_file h mf md n) = header_to_bytes h"
    "bytes_at (new_file h mf md n) (272 + mf) md = empty_table DataHashTable md"
    "bytes_at (new_file h mf md n) 272 mf = empty_table FieldHashTable mf"
    "bytes_at (new_file h mf md n) (272 + mf) 16 = take 16 (empty_table DataHashTable md)"
    "272 + mf + md \<le> n \<Longrightarrow> length (new_file h mf md n) = n"
    "patch (new_file h mf md n) 0 (header_to_bytes h) = new_file h mf md n"
  using assms by (simp_all add: new_file_def bytes_at_def patch_def length_empty_table min_def)

lemma created_arena_committed:
  assumes "buckets_ok options" and "ids_ok options" and "create_layout options = Ok layout"
  defines "h \<equiv> (create_header options layout)\<lparr>state := 1\<rparr>" and "n \<equiv> unat (l_file_size layout)"
    and "md \<equiv> 16 + 16 * unat (data_hash_table_buckets options)" and "mf \<equiv> 16 + 16 * unat (field_hash_table_buckets options)"
  shows "validate_committed_arena_header h (l_file_size layout) (slice_at (new_file h mf md n)) = Ok ()"
    and "object_header_ref (new_journal_file h mf md n) (data_hash_table_object_offset layout) =
      Ok (object_header_from_bytes (take 16 (empty_table DataHashTable md)))"
proof -
  note f = layout_facts [OF assms(1,3), folded md_def mf_def n_def]
  note hdr = created_header [OF assms(1-3), folded h_def]
  note sl = new_file_slices [OF length_header_to_bytes [OF hdr(9)], of mf md n]
  have slice: "slice_at (new_file h mf md n) (data_hash_table_object_offset layout) 16 = Ok (take 16 (empty_table DataHashTable md))"
    using f sl by (simp add: slice_at_def)
  let ?oh = "object_header_from_bytes (take 16 (empty_table DataHashTable md))"
  have sz: "unat (obj_size ?oh) = md" using f by (intro empty_table_header) simp_all
  have "validated_size ?oh = Ok (obj_size ?oh)" using sz f(9) by (simp add: validated_size_def word_less_nat_alt)
  moreover have "\<not> obj_size ?oh > l_file_size layout - data_hash_table_object_offset layout"
    using sz f by (simp add: word_less_nat_alt unat_sub word_le_nat_alt n_def)
  ultimately show "validate_committed_arena_header h (l_file_size layout) (slice_at (new_file h mf md n)) = Ok ()"
    using created_arena_valid [OF assms(1-3)] slice
    by (simp add: validate_committed_arena_header_def h_def [symmetric] hdr(5))
  have "unat (data_hash_table_object_offset layout) mod 8 = 0" using f(5,12) by presburger
  then show "object_header_ref (new_journal_file h mf md n) (data_hash_table_object_offset layout) = Ok ?oh"
    using slice by (simp add: object_header_ref_def new_journal_file_def validate_offset_alignment_def word_arith_nat_mod)
qed

lemma created_file_reopens:
  assumes "buckets_ok options" and "ids_ok options" and "create_layout options = Ok layout" and "enable_keyed_hash options"
  defines "h \<equiv> (create_header options layout)\<lparr>state := 1\<rparr>" and "n \<equiv> unat (l_file_size layout)"
    and "md \<equiv> 16 + 16 * unat (data_hash_table_buckets options)" and "mf \<equiv> 16 + 16 * unat (field_hash_table_buckets options)"
  shows "open_for_append (new_file h mf md n) w limit = Ok \<lparr>journal_file = new_journal_file h mf md n, window_size = w,
      retained_len = l_file_size layout, disk_limit = limit\<rparr>"
proof -
  note f = layout_facts [OF assms(1,3), folded md_def mf_def n_def]
  note hdr = created_header [OF assms(1-3), folded h_def]
  note sl = new_file_slices [OF length_header_to_bytes [OF hdr(9)], of mf md n]
  note rest = created_header_rest [of options layout, folded h_def]
  have len: "length (new_file h mf md n) = n" using sl(5) f by simp
  have size: "(of_nat n :: u64) = l_file_size layout" by (simp add: n_def)
  have "header_from_bytes (header_to_bytes h) = Some h"
    using header_from_to_bytes [OF hdr(9), of "[]"] by simp
  moreover have "map_hash_table (new_file h mf md n) 272 (data_hash_table_offset h) (data_hash_table_size h) = Ok (Some (empty_table DataHashTable md))"
    using f len sl(2) unfolding hdr by (simp add: map_hash_table_ok)
  moreover have "map_hash_table (new_file h mf md n) 272 (field_hash_table_offset h) (field_hash_table_size h) = Ok (Some (empty_table FieldHashTable mf))"
    using f len sl(3) unfolding hdr by (simp add: map_hash_table_ok)
  moreover have "validate_committed_arena_header h (l_file_size layout) (slice_at (new_file h mf md n)) = Ok ()"
    using created_arena_committed(1) [OF assms(1-3)] by (simp only: h_def n_def md_def mf_def)
  moreover have "has_incompatible_flag h KeyedHash" using created_header_keyed [OF assms(4)] by (simp add: h_def)
  ultimately show ?thesis
    using f sl(1) by (simp add: open_for_append_def len size hdr(6,10) rest ok_or_def new_journal_file_def)
qed

lemma created_file_writer:
  assumes "buckets_ok options" and "ids_ok options" and "create_layout options = Ok layout" and "enable_keyed_hash options"
  defines "h \<equiv> (create_header options layout)\<lparr>state := 1\<rparr>" and "n \<equiv> unat (l_file_size layout)"
    and "md \<equiv> 16 + 16 * unat (data_hash_table_buckets options)" and "mf \<equiv> 16 + 16 * unat (field_hash_table_buckets options)"
  shows "\<exists>wr. writer_new (new_journal_file h mf md n) seq boot = Ok wr \<and> unat (append_offset wr) = 272 + mf + md \<and>
    compression wr = o_compression options \<and> next_seqnum wr = seq \<and> \<not> poisoned wr"
proof -
  note f = layout_facts [OF assms(1,3), folded md_def mf_def n_def]
  note hdr = created_header [OF assms(1-3), folded h_def]
  note sl = new_file_slices [OF length_header_to_bytes [OF hdr(9)], of mf md n]
  note rest = created_header_rest [of options layout, folded h_def]
  note com = created_arena_committed [OF assms(1-3), folded h_def n_def md_def mf_def]
  have len: "length (new_file h mf md n) = n" using sl(5) f by simp
  let ?oh = "object_header_from_bytes (take 16 (empty_table DataHashTable md))"
  have sz: "unat (obj_size ?oh) = md" using f by (intro empty_table_header) simp_all
  have "unat ((obj_size ?oh + 7) AND NOT 7) = (md + 7) div 8 * 8" using aligned_word [of "obj_size ?oh"] sz f by simp
  also have "\<dots> = md" using f(11) by presburger
  finally have al: "unat (aligned_size ?oh) = md" by (simp add: aligned_size_def)
  have add: "checked_add (data_hash_table_object_offset layout) (aligned_size ?oh) = Some (data_hash_table_object_offset layout + aligned_size ?oh)"
    "unat (data_hash_table_object_offset layout + aligned_size ?oh) = 272 + mf + md"
    using al f by (simp_all add: checked_add_def unat_word_ariths)
  have "has_incompatible_flag h KeyedHash" using created_header_keyed [OF assms(4)] by (simp add: h_def)
  moreover have "(if has_incompatible_flag h CompressedZstd then Zstd else if has_incompatible_flag h CompressedXz then Xz
      else if has_incompatible_flag h CompressedLz4 then Lz4 else NoCompression) = o_compression options"
    by (cases "o_compression options") (simp_all add: h_def has_incompatible_flag_def create_header_def Let_def as_incompatible_flag_def)
  moreover have "validate_committed_arena (new_journal_file h mf md n) = Ok ()"
    using com(1) len by (simp add: validate_committed_arena_def new_journal_file_def n_def)
  ultimately show ?thesis
    using com(2) add rest hdr(5,6)
    by (simp add: writer_new_def new_with_compression_def Let_def new_journal_file_def ok_or_def)
qed

lemma new_file_empty:
  fixes n :: nat
  assumes "0 < d" and "0 < f" and "entry_array_offset h = None"
  defines "jf \<equiv> new_journal_file h (16 + 16 * f) (16 + 16 * d) n"
  shows "entry_offsets jf [] = Ok []" "find_data_offset C jf hash payload = Ok None" "find_field_offset jf hash payload = Ok None"
proof -
  obtain dt where "hash_table_from_data (empty_table DataHashTable (16 + 16 * d)) = Some dt"
    "hash_item_ref dt hash = Ok \<lparr>head_hash_offset = None, tail_hash_offset = None\<rparr>"
    using empty_table_lookup [OF assms(1)] by blast
  then show "find_data_offset C jf hash payload = Ok None"
    by (simp add: find_data_offset_def find_data_offset_parts_def find_data_match_parts_def data_hash_table_ref_def jf_def
        new_journal_file_def ok_or_def data_match_loop.simps)
  obtain ft where "hash_table_from_data (empty_table FieldHashTable (16 + 16 * f)) = Some ft"
    "hash_item_ref ft hash = Ok \<lparr>head_hash_offset = None, tail_hash_offset = None\<rparr>"
    using empty_table_lookup [OF assms(2)] by blast
  then show "find_field_offset jf hash payload = Ok None"
    by (simp add: find_field_offset_def visit_bucket_def field_hash_table_ref_def jf_def new_journal_file_def ok_or_def bucket_loop.simps)
  show "entry_offsets jf [] = Ok []"
    using assms(3) by (simp add: entry_offsets_def entry_list_def jf_def new_journal_file_def)
qed

text \<open>
  C5. A file that was created can be used.  With keyed hashing, at least two and fewer than \<open>2 ^ 32\<close> buckets
  per hash table, a window size that divides the 8 MiB unit of growth, enough disk, and, for compact files,
  less than 4 GiB, \<open>create\<close> succeeds; opening what it left on disk for appending gives the same
  file; a writer on it starts right behind the two hash tables with the compression method of the options; and
  a reader finds no entries, no data and no fields.
\<close>

theorem created_file_opens:
  assumes "buckets_ok options" and "ids_ok options" and "enable_keyed_hash options"
    and "0 < unat (o_window_size options)" and "unat (o_window_size options) dvd 8388608"
    and "create_layout options = Ok layout" and "unat (l_file_size layout) \<le> limit"
    and "o_compact options \<Longrightarrow> l_file_size layout \<le> 0xffffffff"
  shows "\<exists>s wr. journal_create options limit = Ok s \<and>
    open_for_append (file_contents s) (o_window_size options) limit = Ok s \<and>
    writer_new (journal_file s) seq boot = Ok wr \<and>
    unat (append_offset wr) =
      304 + 16 * unat (field_hash_table_buckets options) + 16 * unat (data_hash_table_buckets options) \<and>
    compression wr = o_compression options \<and> next_seqnum wr = seq \<and> \<not> poisoned wr \<and>
    entry_offsets (journal_file s) [] = Ok [] \<and> find_data_offset C (journal_file s) hash payload = Ok None \<and>
    find_field_offset (journal_file s) hash payload = Ok None"
proof -
  let ?h = "(create_header options layout)\<lparr>state := 1\<rparr>" and ?n = "unat (l_file_size layout)"
    and ?d = "unat (data_hash_table_buckets options)" and ?f = "unat (field_hash_table_buckets options)"
  let ?jf = "new_journal_file ?h (16 + 16 * ?f) (16 + 16 * ?d) ?n"
  note create = journal_create_shape [OF assms(1,2,4-8)]
  note hdr = created_header [OF assms(1,2,6)]
  have hb: "length (header_to_bytes ?h) = 272" by (rule length_header_to_bytes [OF hdr(9)])
  have "patch (jf_bytes ?jf) 0 (header_to_bytes (jf_header ?jf)) = new_file ?h (16 + 16 * ?f) (16 + 16 * ?d) ?n"
    using new_file_slices(6) [OF hb] by (simp add: new_journal_file_def)
  moreover obtain wr where "writer_new ?jf seq boot = Ok wr" "unat (append_offset wr) = 272 + (16 + 16 * ?f) + (16 + 16 * ?d)"
    "compression wr = o_compression options" "next_seqnum wr = seq" "\<not> poisoned wr"
    using created_file_writer [OF assms(1,2,6,3)] by blast
  moreover have "0 < ?d" "0 < ?f" using assms(1) by (auto simp: buckets_ok_def word_le_nat_alt)
  ultimately show ?thesis
    using create created_file_reopens [OF assms(1,2,6,3)] new_file_empty [OF _ _ created_header_rest(3)]
    by (simp add: file_contents_def)
qed

theorem created_file_opens_witness:
  "\<exists>s wr. journal_create (options_new (replicate 16 1) (replicate 16 2) (replicate 16 3)) (2 ^ 23) = Ok s \<and>
    writer_new (journal_file s) 1 (replicate 16 4) = Ok wr \<and> unat (append_offset wr) = 3744928"
proof -
  let ?o = "options_new (replicate 16 1) (replicate 16 2) (replicate 16 3)"
  have unat_l: "unat (8388608 :: u64) = 2 ^ 23" by simp
  have "create_layout ?o = Ok \<lparr>l_data_hash_table_size = 3728256, l_field_hash_table_size = 16368, l_data_hash_table_offset = 16672,
      l_field_hash_table_offset = 288, data_hash_table_object_offset = 16656, l_file_size = 8388608\<rparr>"
    by (simp add: create_layout_def options_new_def Journal_File.round_up_to_file_size_increment_def checked_add_def ok_or_def Let_def)
  moreover have "buckets_ok ?o" "ids_ok ?o" "enable_keyed_hash ?o" "0 < unat (o_window_size ?o)" "unat (o_window_size ?o) dvd 8388608"
    "\<not> o_compact ?o" "304 + 16 * unat (field_hash_table_buckets ?o) + 16 * unat (data_hash_table_buckets ?o) = 3744928"
    by (simp_all add: options_new_def buckets_ok_def ids_ok_def dvd_eq_mod_eq_0)
  ultimately obtain s wr where "journal_create ?o (2 ^ 23) = Ok s" "writer_new (journal_file s) 1 (replicate 16 4) = Ok wr"
    "unat (append_offset wr) = 3744928"
    using created_file_opens [of ?o _ "2 ^ 23" 1 "replicate 16 4"] by (metis CreateLayout.select_convs(6) order_refl unat_l)
  then show ?thesis by blast
qed

end
