(* ===== verification/Spec2Isabelle.thy ===== *)
theory Spec2Isabelle
  imports Chain_Guard Journal_Hash Journal_Header Journal_Object Offset_Chain
    Window_Slices Journal_File Reader_Recovery Journal_Cursor Filter_Build Cached_Reader File_Registry
    Log_Retention Arena_Chains Writer_Payload Journal_Create
begin

text \<open>
  Verification of the systemd journal SDK, Rust implementation (\<^verbatim>\<open>src/rust/src\<close>).

  \<^bold>\<open>The program.\<close>  A journal file is a header followed by an arena of objects: data objects hold
  \<open>FIELD=value\<close> payloads, entry objects list the data objects of one log entry, offset arrays list
  entries in order, and two hash tables index data and field objects.  \<^verbatim>\<open>journal-core\<close> opens such a file
  through a cache of memory windows, reads objects by offset, walks the arrays with cursors, evaluates
  filters over the postings of data objects and moves a cursor over the matching entries; a reader of a
  file whose tail was lost falls back to the readable prefix.  A writer, the only process that changes a
  file, appends data, field and entry objects, links them into hash chains, postings and entry arrays, and
  publishes the header.  Around it, other crates keep track of
  the files of a directory, index them and rotate them.

  \<^bold>\<open>Theories and sources.\<close>  File names are relative to \<^verbatim>\<open>crates/journal-core/src/file\<close> unless a
  crate is named.
  \<^item> \<open>Journal_Prelude\<close>: machine words, \<open>Result\<close> as a sum with \<open>rbind\<close> for \<open>?\<close>, stateful methods as
    functions that return a result and the state they leave (\<open>op\<close>, \<open>sbind\<close>), little-endian bytes.
  \<^item> \<open>Chain_Guard\<close>: \<^verbatim>\<open>chain_guard.rs\<close>, \<^verbatim>\<open>array_chain.rs\<close>, the cycle detection of every linked structure.
  \<^item> \<open>Journal_Hash\<close>: \<^verbatim>\<open>hash.rs\<close>, Jenkins hashing of whole and split payloads.
  \<^item> \<open>Journal_Header\<close>: the header and its validation in \<^verbatim>\<open>object.rs\<close>, \<^verbatim>\<open>file.rs\<close>, \<^verbatim>\<open>header_inventory.rs\<close>.
  \<^item> \<open>Journal_Object\<close>: the arena objects of \<^verbatim>\<open>object.rs\<close>.
  \<^item> \<open>Window_Manager\<close>, \<open>Window_Slices\<close>: the window cache of \<^verbatim>\<open>mmap.rs\<close> and its contract.
  \<^item> \<open>Journal_File\<close>: opening, typed access, payload parts and hash buckets of \<^verbatim>\<open>file.rs\<close> and \<^verbatim>\<open>object_hash.rs\<close>.
  \<^item> \<open>Payload_Compression\<close>: \<^verbatim>\<open>object_compression.rs\<close>, \<^verbatim>\<open>zstd_stream.rs\<close>.
  \<^item> \<open>Data_Payload\<close>: \<^verbatim>\<open>file_payload.rs\<close>, payload access and the lookup of data objects.
  \<^item> \<open>Offset_Array\<close>, \<open>Offset_Chain\<close>: nodes, lists and cursors of \<^verbatim>\<open>offset_array.rs\<close>; the locale
    \<open>array_source\<close> is the contract of an array accessor, which the reader's accessor is shown to meet.
  \<^item> \<open>Reader_Recovery\<close>: \<^verbatim>\<open>reader_recovery.rs\<close>, the discovery of the readable prefix.
  \<^item> \<open>Inlined_Cursor\<close>: the postings cursor of \<^verbatim>\<open>offset_array.rs\<close> and its construction in \<^verbatim>\<open>file.rs\<close>.
  \<^item> \<open>Filter_Expr\<close>, \<open>Filter_Build\<close>: evaluation and construction of filters, \<^verbatim>\<open>filter.rs\<close>.
  \<^item> \<open>Journal_Cursor\<close>: \<^verbatim>\<open>cursor.rs\<close>, locations and steps with and without a filter.
  \<^item> \<open>Cached_Reader\<close>: typed access as it runs, through the window cache; the locale \<open>byte_source\<close> is the
    contract of the cache.
  \<^item> \<open>Slice_Search\<close>: ordered slices of the standard library; the locale \<open>slice_search\<close> is the contract of a search.
  \<^item> \<open>Journal_Names\<close>: names, status and order of files, \<^verbatim>\<open>journal-registry: repository/file.rs\<close>, and the names the
    writer gives, \<^verbatim>\<open>journal-log-writer: log/chain.rs\<close>.
  \<^item> \<open>File_Chain\<close>, \<open>File_Registry\<close>: chains, repository and registry of files, \<^verbatim>\<open>journal-registry:
    repository/collection.rs, registry/mod.rs\<close>; the locale \<open>file_collection\<close> is the contract of a chain.
  \<^item> \<open>Log_Retention\<close>: \<open>OwnedChain\<close> of \<^verbatim>\<open>journal-log-writer: log/chain.rs\<close>, over an arbitrary operating system.
  \<^item> \<open>Journal_Mut\<close>: mutable views of a file, \<^verbatim>\<open>file_mut.rs\<close> and the writer's windows of \<^verbatim>\<open>mmap.rs\<close>; the arena
    as a heap of objects.
  \<^item> \<open>Entry_Arrays\<close>: \<^verbatim>\<open>writer_entry_arrays.rs\<close>, entry arrays, postings and chain depths; \<open>Arena_Chains\<close>: the proofs
    about its chains.
  \<^item> \<open>Journal_Writer\<close>: \<^verbatim>\<open>writer.rs\<close>, appending entries; \<open>Writer_Payload\<close>: what it stores, against the reader.
  \<^item> \<open>Journal_Create\<close>: options, creating and opening files, \<^verbatim>\<open>file.rs\<close> and \<^verbatim>\<open>file_mut.rs\<close>.
  A struct is a record with the field names of the source (prefixed where two structs share one), an
  enumeration a datatype, a method a definition with the method's name; a method with \<open>&mut self\<close> is
  an \<open>op\<close> on the record.  A loop is a recursive function with the suffix \<open>_loop\<close>.

  \<^bold>\<open>What is shown.\<close>  Searches, cursors and filters are specified by what they mean on the plain
  sequences that the chained arrays and postings store (\<open>chain_repr\<close>, \<open>ic_repr\<close>, \<open>expr_ok\<close>), and the
  operations refine index arithmetic on these sequences; the properties of the filters and of the cursor
  then say that a walk delivers exactly the matching entries, and \<open>query_walk_complete\<close> below connects
  the builder, the index lookup, the filter and the cursor.  Reads through the window cache deliver the
  bytes of the file, so the theories above it read from the byte sequence.  Validation theorems state
  what accepted headers and objects guarantee on arbitrary bytes (that the parser and the printer of a header agree is only a
  consistency lemma, since both transcribe the derived layout of one struct); the guard theorems that no cycle makes
  a walk endless and no acyclic chain is refused; the recovery theorems that the recovered prefix is the
  longest run of entries that the bytes of the file hold at the start of its list (\<open>readable_slots\<close>, \<open>readable_entries\<close>, which do not
  mention the scan); the theorems on the writer that its appends to the arrays in the file's bytes are
  list appends and leave all other objects alone (the arena as a heap of objects, \<open>arena_ok\<close>, and the locale \<open>writer_frame\<close> of
  what every operation keeps), that a failed append stops it, that the sequence numbers and boot clocks in the ENTRY objects it writes only
  grow, and that stored payloads decode (where the encoder's own frame and the zstd format are assumed, and the header that the
  writer substitutes is proved correct); the compression theorems that no stored data makes a buffer grow past its limit or
  leaves stale bytes behind; the retention theorems which files the operating system is asked to unlink (\<open>logged\<close>) and which
  limits hold afterwards, in terms of the times in the names of the files.

  \<^bold>\<open>Totality and bounds.\<close>  Every loop is a total function.  Walks along links end because the guard's step
  counter and checkpoint bound them, on any bytes (the measures in \<open>Chain_Guard\<close> and
  \<open>Journal_File\<close>).  \<open>Filter_Expr.inner\<close> recurses on the nesting depth, which is enough by
  construction (\<open>inner_simps\<close> states the source's equations), and the guard in the conjunction loop is
  unreachable (\<open>conjunction_loop_inner\<close>).  The refresh after a recovery ends because a second discovery
  finds nothing new (\<open>unsettled\<close>).  Failed \<open>assert!\<close>, \<open>debug_assert!\<close> and indexing are the error
  \<open>Panic\<close>, as in a build with debug assertions.

  \<^bold>\<open>Parameters.\<close>  SipHash, the compression codecs, the memory allocator and the operating system's
  \<open>mmap\<close> are arguments, with what is relied on as named hypotheses.  The file is constant during one
  operation of the reader, except in the window cache, where it may grow.  The writer's disk is a limit on the
  length of the file, past which extending it fails; that \<open>mmap\<close> fails for the writer, and that a read through an immutable view of
  the writer may extend the file by zero bytes, is left out (\<open>Journal_Mut\<close>).

  \<^bold>\<open>Not modelled.\<close>  Sealing (the writer is one without a seal) and tag objects; flushing to disk as distinct from
  writing; row views and the guards of borrowed values
  (lifetimes and unsafe code); SIGBUS handling and file locks (operating system); the export format,
  the command line tool, the facade with its explorer and the older \<^verbatim>\<open>jf\<close> crates.
\<close>

section \<open>From the client's query to the entries it receives\<close>

text \<open>
  C1. A query is answered exactly.  A client adds matches and operators to a filter, builds it, gives it to a
  cursor and steps from the head forward or from the tail backward: it receives precisely the entries
  that satisfy the query, each once, in order, and then the end.  The index is assumed to serve the
  matches of the query, with no recovered prefix in play.
\<close>

theorem query_walk_complete:
  assumes "\<And>kv. AddMatch kv \<in> set calls \<Longrightarrow> 61 \<in> set kv \<Longrightarrow> indexed H C jf postings entries kv"
    and "query_of calls \<noteq> []" and "S = query_set entries (query_of calls)"
    and "\<not> reader_recovery_active jf" and "\<not> filter_recovery_seen jf" and "reader_entry_count jf \<noteq> 0"
    and "\<forall>v \<in> S. v \<noteq> 0 \<and> v \<noteq> u64_max" and "card S < n"
  shows "\<exists>e c'. sbind (run_calls H C calls) (\<lambda>_. filter_build H C) (jf, filter_default) = (Ok e, jf, filter_default) \<and>
    walk direction n (jf, set_location (case direction of Forward \<Rightarrow> Head | Backward \<Rightarrow> Tail) (set_filter e cursor_new))
      = (Ok (in_order direction (sorted_list_of_set S)), jf, c')"
proof -
  have "builder_repr H C jf postings entries ([], [], []) filter_default"
    by (simp add: builder_repr_def filter_default_def)
  from run_calls_repr [OF this assms(1)] obtain f where f: "run_calls H C calls (jf, filter_default) = (Ok (), jf, f)"
    "builder_repr H C jf postings entries (fold call_query calls ([], [], [])) f"
    by blast
  obtain e where e: "filter_build H C (jf, f) = (Ok e, jf, filter_default)" "denotes jf postings S e"
    using filter_build_repr [OF f(2) assms(4) refl] assms(2,3) by (auto simp: query_of_def)
  have m: "matches postings e = S" "expr_ok (reader_offset_array_ref jf) postings e"
    using e(2) by (simp_all add: denotes_def)
  let ?loc = "case direction of Forward \<Rightarrow> Head | Backward \<Rightarrow> Tail"
  have start: "set_location ?loc (set_filter e cursor_new) = \<lparr>location = ?loc, filter_expr = Some e, array_cursor = None\<rparr>"
    by (simp add: set_location_def set_filter_def cursor_new_def split: Direction.split)
  have "\<exists>c'. walk direction n (jf, \<lparr>location = ?loc, filter_expr = Some e, array_cursor = None\<rparr>)
      = (Ok (in_order direction (sorted_list_of_set S)), jf, c')"
    using walk_poised [where p = postings and S = S and n = n and d = direction] assms(5-8) m
    by (cases direction) (auto simp: poised_def inside_def enum_in_def)
  with start f(1) e(1) show ?thesis by (auto simp: sbind_run)
qed

theorem query_walk_complete_witness:
  "\<exists>e c'. sbind (run_calls sample_sip sample_codecs
        [AddMatch [65, 61, 98], SetOperation DisjunctionOp, AddMatch [66, 61, 99]])
      (\<lambda>_. filter_build sample_sip sample_codecs) (indexed_file, filter_default) = (Ok e, indexed_file, filter_default) \<and>
    walk Backward 2 (indexed_file, set_location Tail (set_filter e cursor_new)) = (Ok [80], indexed_file, c')"
proof -
  let ?calls = "[AddMatch [65, 61, 98], SetOperation DisjunctionOp, AddMatch [66, 61, 99]]"
  have q: "query_of ?calls = [[[[65, 61, 98]], [[66, 61, 99]]]]"
    by (simp add: query_of_def end_clause_def end_group_def)
  have "{80} = query_set indexed_entries (query_of ?calls)"
    unfolding q by (simp add: query_set_def group_set_def clause_set_def indexed_entries_def)
  from query_walk_complete [OF indexed_file_indexed _ this indexed_file_fields(6,5), of 2 Backward] q
  show ?thesis by (simp add: indexed_file_fields in_order_def u64_max_def)
qed

end
